(* ===== verification/Prelude.thy ===== *)
theory Prelude
  imports Main "HOL-Library.Word"
begin

text \<open>
  Shared material of the development: the names of the model's basic types, the big-endian
  digit arithmetic every binary layout of the protocol is built from, lookups in alphabets, and
  the list lemmas the components use. A Go \<open>[]byte\<close> is a list of 8-bit words; a Go
  \<open>string\<close> is a HOL \<open>string\<close>, whose characters are bytes, so \<open>length\<close> is Go's \<open>len\<close> and
  concatenation is Go's \<open>+\<close>.
\<close>

section \<open>Types and collections\<close>

type_synonym byte = "8 word"
type_synonym bytes = "8 word list"
type_synonym u16 = "16 word"
type_synonym u32 = "32 word"
type_synonym u64 = "64 word"

named_theorems wire_simps \<open>unfolding and evaluation of the binary layouts\<close>
named_theorems length_simps \<open>lengths of encoded values\<close>

section \<open>Digits in a base, most significant first\<close>

fun digits :: "nat \<Rightarrow> nat \<Rightarrow> nat \<Rightarrow> nat list" where
  "digits b 0 n = []"
| "digits b (Suc k) n = digits b k (n div b) @ [n mod b]"

definition undigits :: "nat \<Rightarrow> nat list \<Rightarrow> nat" where
  "undigits b ds = foldl (\<lambda>a d. a * b + d) 0 ds"

lemma length_digits [simp, length_simps]: "length (digits b k n) = k"
  by (induction k arbitrary: n) auto

lemma undigits_Nil [simp]: "undigits b [] = 0"
  by (simp add: undigits_def)

lemma undigits_snoc [simp]: "undigits b (ds @ [d]) = undigits b ds * b + d"
  by (simp add: undigits_def)

lemma undigits_digits: "0 < b \<Longrightarrow> undigits b (digits b k n) = n mod b ^ k"
proof (induction k arbitrary: n)
  case 0
  then show ?case by simp
next
  case (Suc k)
  have "n mod (b * b ^ k) = b * (n div b mod b ^ k) + n mod b"
    by (rule mod_mult2_eq)
  with Suc show ?case by (simp add: mult.commute)
qed

lemma digits_bound: "0 < b \<Longrightarrow> d \<in> set (digits b k n) \<Longrightarrow> d < b"
  by (induction k arbitrary: n) auto

lemma digits_undigits: "(\<And>d. d \<in> set ds \<Longrightarrow> d < b) \<Longrightarrow> digits b (length ds) (undigits b ds) = ds"
proof (induction ds rule: rev_induct)
  case Nil
  then show ?case by simp
next
  case (snoc d ds)
  then have "d < b" and "digits b (length ds) (undigits b ds) = ds" by auto
  then show ?case by simp
qed

lemma undigits_bound: "(\<And>d. d \<in> set ds \<Longrightarrow> d < b) \<Longrightarrow> undigits b ds < b ^ length ds"
proof (induction ds rule: rev_induct)
  case Nil
  then show ?case by simp
next
  case (snoc d ds)
  then have "d < b" and "undigits b ds < b ^ length ds" by auto
  then have "undigits b ds * b + d < Suc (undigits b ds) * b" by simp
  also have "\<dots> \<le> b ^ length ds * b"
    using \<open>undigits b ds < b ^ length ds\<close> by (intro mult_le_mono1) simp
  finally show ?case by (simp add: mult.commute)
qed

lemma undigits_inject:
  assumes "undigits b xs = undigits b ys" and "length xs = length ys"
    and "\<And>d. d \<in> set xs \<Longrightarrow> d < b" and "\<And>d. d \<in> set ys \<Longrightarrow> d < b"
  shows "xs = ys"
proof -
  from assms(3) have "xs = digits b (length xs) (undigits b xs)"
    by (rule digits_undigits [symmetric])
  also have "\<dots> = digits b (length ys) (undigits b ys)" using assms(1,2) by simp
  also from assms(4) have "\<dots> = ys" by (rule digits_undigits)
  finally show ?thesis .
qed

section \<open>Big-endian bytes\<close>

text \<open>
  \<open>be_bytes k n\<close> is the \<open>k\<close>-byte big-endian form of \<open>n\<close>, as \<open>binary.BigEndian\<close> writes it;
  \<open>be_nat\<close> reads one back.
\<close>

definition be_bytes :: "nat \<Rightarrow> nat \<Rightarrow> bytes" where
  "be_bytes k n = map word_of_nat (digits 256 k n)"

definition be_nat :: "bytes \<Rightarrow> nat" where
  "be_nat bs = undigits 256 (map unat bs)"

lemma length_be_bytes [simp, length_simps]: "length (be_bytes k n) = k"
  by (simp add: be_bytes_def)

lemma unat_byte_bound [simp]: "unat (b :: byte) < 256"
  using unsigned_less [of b, where 'a = nat] by simp

lemma unat_word_of_nat_byte [simp]: "n < 256 \<Longrightarrow> unat (word_of_nat n :: byte) = n"
  by (simp add: unat_of_nat)

lemma map_unat_be_bytes: "map unat (be_bytes k n) = digits 256 k n"
  by (simp add: be_bytes_def map_idI digits_bound)

lemma be_nat_be_bytes: "be_nat (be_bytes k n) = n mod 256 ^ k"
  by (simp add: be_nat_def map_unat_be_bytes undigits_digits)

lemma be_bytes_be_nat: "be_bytes (length bs) (be_nat bs) = bs"
proof -
  have "digits 256 (length (map unat bs)) (undigits 256 (map unat bs)) = map unat bs"
    by (rule digits_undigits) auto
  then show ?thesis by (simp add: be_bytes_def be_nat_def map_idI)
qed

lemma be_nat_bound: "be_nat bs < 256 ^ length bs"
proof -
  have "undigits 256 (map unat bs) < 256 ^ length (map unat bs)"
    by (rule undigits_bound) auto
  then show ?thesis by (simp add: be_nat_def)
qed

lemma be_bytes_inject:
  "be_bytes k m = be_bytes k n \<Longrightarrow> m < 256 ^ k \<Longrightarrow> n < 256 ^ k \<Longrightarrow> m = n"
  by (metis be_nat_be_bytes mod_less)

text \<open>
  Go's \<open>binary.BigEndian.AppendUint16/32/64\<close> and \<open>Uint16/32/64\<close>. A reader takes the first bytes
  of its slice and panics on a shorter one, so callers check the length first.
\<close>

definition u16be :: "u16 \<Rightarrow> bytes" where "u16be x = be_bytes 2 (unat x)"
definition u32be :: "u32 \<Rightarrow> bytes" where "u32be x = be_bytes 4 (unat x)"
definition u64be :: "u64 \<Rightarrow> bytes" where "u64be x = be_bytes 8 (unat x)"

definition Uint16 :: "bytes \<Rightarrow> u16" where "Uint16 b = word_of_nat (be_nat (take 2 b))"
definition Uint32 :: "bytes \<Rightarrow> u32" where "Uint32 b = word_of_nat (be_nat (take 4 b))"
definition Uint64 :: "bytes \<Rightarrow> u64" where "Uint64 b = word_of_nat (be_nat (take 8 b))"

lemma length_uNbe [simp, length_simps]:
  "length (u16be a) = 2" "length (u32be b) = 4" "length (u64be c) = 8"
  by (simp_all add: u16be_def u32be_def u64be_def)

lemma unat_mod_u16 [simp]: "unat (x :: u16) mod 65536 = unat x"
  using unsigned_less [of x, where 'a = nat] by simp

lemma unat_mod_u32 [simp]: "unat (x :: u32) mod 4294967296 = unat x"
  using unsigned_less [of x, where 'a = nat] by simp

lemma unat_mod_u64 [simp]: "unat (x :: u64) mod 18446744073709551616 = unat x"
  using unsigned_less [of x, where 'a = nat] by simp

lemma Uint16_u16be [simp]: "Uint16 (u16be x @ r) = x"
  by (simp add: Uint16_def u16be_def be_nat_be_bytes)

lemma Uint32_u32be [simp]: "Uint32 (u32be x @ r) = x"
  by (simp add: Uint32_def u32be_def be_nat_be_bytes)

lemma Uint64_u64be [simp]: "Uint64 (u64be x @ r) = x"
  by (simp add: Uint64_def u64be_def be_nat_be_bytes)

lemma u32be_Uint32: "4 \<le> length b \<Longrightarrow> u32be (Uint32 b) = take 4 b"
proof -
  assume len: "4 \<le> length b"
  then have "be_nat (take 4 b) < 2 ^ 32" using be_nat_bound [of "take 4 b"] by simp
  then have "unat (Uint32 b) = be_nat (take 4 b)"
    by (simp add: Uint32_def unat_of_nat)
  with len be_bytes_be_nat [of "take 4 b"] show ?thesis by (simp add: u32be_def)
qed

lemma u32be_inject [simp]: "u32be x = u32be y \<longleftrightarrow> x = y"
  by (metis Uint32_u32be append_Nil2)

lemma u64be_inject [simp]: "u64be x = u64be y \<longleftrightarrow> x = y"
  by (metis Uint64_u64be append_Nil2)

section \<open>Strings as bytes\<close>

definition str_bytes :: "string \<Rightarrow> bytes" where
  "str_bytes s = map of_char s"

lemma length_str_bytes [simp, length_simps]: "length (str_bytes s) = length s"
  by (simp add: str_bytes_def)

lemma unat_of_char_byte: "unat (of_char x :: byte) = (of_char x :: nat)"
proof -
  have "(of_char x :: byte) = word_of_nat (of_char x)" by (simp add: of_nat_of_char)
  moreover have "(of_char x :: nat) < 256" by (rule nat_of_char_less_256)
  ultimately show ?thesis by simp
qed

lemma of_char_byte_inject: "(of_char c :: byte) = of_char d \<longleftrightarrow> c = d"
  by (metis unat_of_char_byte of_char_eq_iff)

lemma str_bytes_inject [simp]: "str_bytes s = str_bytes t \<longleftrightarrow> s = t"
  by (simp add: str_bytes_def inj_map_eq_map inj_on_def of_char_byte_inject)

section \<open>Lookups in an alphabet\<close>

fun alpha_index :: "string \<Rightarrow> char \<Rightarrow> nat option" where
  "alpha_index [] c = None"
| "alpha_index (a # as) c = (if a = c then Some 0 else map_option Suc (alpha_index as c))"

lemma alpha_index_SomeD: "alpha_index as c = Some n \<Longrightarrow> n < length as \<and> as ! n = c"
  by (induction as arbitrary: n) (auto split: if_splits)

lemma alpha_index_nth: "distinct as \<Longrightarrow> n < length as \<Longrightarrow> alpha_index as (as ! n) = Some n"
proof (induction as arbitrary: n)
  case Nil
  then show ?case by simp
next
  case (Cons a as)
  then show ?case by (cases n) auto
qed

lemma alpha_index_None: "alpha_index as c = None \<longleftrightarrow> c \<notin> set as"
  by (induction as) auto

section \<open>Lists of options\<close>

fun those_list :: "'a option list \<Rightarrow> 'a list option" where
  "those_list [] = Some []"
| "those_list (None # xs) = None"
| "those_list (Some x # xs) = map_option ((#) x) (those_list xs)"

lemma those_list_map_Some:
  "those_list (map f xs) = Some ys \<longleftrightarrow> map f xs = map Some ys"
proof (induction xs arbitrary: ys)
  case Nil
  then show ?case by auto
next
  case (Cons x xs)
  then show ?case by (cases "f x") auto
qed

section \<open>Sorted lists\<close>

lemma sorted_le_last: "sorted xs \<Longrightarrow> x \<in> set xs \<Longrightarrow> x \<le> last xs"
  by (induction xs) auto

section \<open>Go's integer division and durations\<close>

text \<open>
  Go's \<open>/\<close> and \<open>%\<close> truncate towards zero. Durations and the readings of the monotonic clock are
  \<open>int64\<close> nanoseconds; the model keeps them as \<open>int\<close>, and \<open>int64_range\<close> states where a component's
  values stay within the machine's range.
\<close>

definition go_quot :: "int \<Rightarrow> int \<Rightarrow> int" where
  "go_quot a b = sgn a * sgn b * (\<bar>a\<bar> div \<bar>b\<bar>)"

definition go_rem :: "int \<Rightarrow> int \<Rightarrow> int" where
  "go_rem a b = a - b * go_quot a b"

lemma go_quot_nonneg: "0 \<le> a \<Longrightarrow> 0 < b \<Longrightarrow> go_quot a b = a div b"
  by (cases "a = 0") (simp_all add: go_quot_def)

lemma go_rem_nonneg: "0 \<le> a \<Longrightarrow> 0 < b \<Longrightarrow> go_rem a b = a mod b"
  by (simp add: go_rem_def go_quot_nonneg minus_mult_div_eq_mod)

definition Second :: int where "Second = 1000000000"
definition Minute :: int where "Minute = 60 * Second"
definition Hour :: int where "Hour = 60 * Minute"

definition int64_range :: "int \<Rightarrow> bool" where
  "int64_range x \<longleftrightarrow> - (2 ^ 63) \<le> x \<and> x < 2 ^ 63"

end
