(* ===== verification/Encoding.thy ===== *)
theory Encoding
  imports Prelude
begin

text \<open>
  The text encodings and the signed byte strings of the protocol: base64url and base32 as
  Go's \<open>encoding/base64\<close> and \<open>encoding/base32\<close> compute them (\<open>relay/internal/link/ids.go\<close>,
  \<open>client-go/bytes.go\<close>), node ids, and the messages a node signs to register and to resign
  (\<open>client-go/signed.go\<close>). The two codecs are one radix codec at two digit widths; the laws of
  the group codec are a locale, interpreted once for each alphabet.
\<close>

section \<open>The radix codec\<close>

text \<open>
  A group of bytes is read as one big-endian number, padded with zero bits to a whole number of
  \<open>d\<close>-bit digits, and its digits are looked up in the alphabet. Decoding goes back. A final
  group of a length no encoder produces (\<open>d\<close> or more unused bits) is what the two Go packages
  treat differently: \<open>bad\<close> is \<open>None\<close> for base64, an error, and \<open>Some []\<close> for base32, which
  writes no byte for it. \<open>strict\<close> refuses unused bits that are not zero.
\<close>

definition group_chars :: "nat \<Rightarrow> nat \<Rightarrow> nat" where
  "group_chars d m = (8 * m + d - 1) div d"

definition enc_group :: "nat \<Rightarrow> string \<Rightarrow> bytes \<Rightarrow> string" where
  "enc_group d alph g =
     (let k = group_chars d (length g)
      in map ((!) alph) (digits (2 ^ d) k (be_nat g * 2 ^ (d * k - 8 * length g))))"

definition dec_group :: "bool \<Rightarrow> bytes option \<Rightarrow> nat \<Rightarrow> string \<Rightarrow> string \<Rightarrow> bytes option" where
  "dec_group strict bad d alph cs =
     (case those_list (map (alpha_index alph) cs) of
        None \<Rightarrow> None
      | Some ds \<Rightarrow>
          (let m = d * length ds div 8; r = d * length ds - 8 * m; v = undigits (2 ^ d) ds
           in if d \<le> r then bad
              else if strict \<and> v mod 2 ^ r \<noteq> 0 then None
              else Some (be_bytes m (v div 2 ^ r))))"

fun rx_encode :: "nat \<Rightarrow> nat \<Rightarrow> string \<Rightarrow> bytes \<Rightarrow> string" where
  "rx_encode d gb alph bs =
     (if bs = [] \<or> gb = 0 then []
      else enc_group d alph (take gb bs) @ rx_encode d gb alph (drop gb bs))"

fun rx_decode :: "bool \<Rightarrow> bytes option \<Rightarrow> nat \<Rightarrow> nat \<Rightarrow> string \<Rightarrow> string \<Rightarrow> bytes option" where
  "rx_decode strict bad d gc alph cs =
     (if cs = [] \<or> gc = 0 then Some []
      else case dec_group strict bad d alph (take gc cs) of
             None \<Rightarrow> None
           | Some g \<Rightarrow> map_option ((@) g) (rx_decode strict bad d gc alph (drop gc cs)))"

declare rx_encode.simps [simp del] rx_decode.simps [simp del]

section \<open>The alphabets and the codecs\<close>

definition b64u_alphabet :: string where
  "b64u_alphabet = ''ABCDEFGHIJKLMNOPQRSTUVWXYZabcdefghijklmnopqrstuvwxyz0123456789-_''"

definition b32_alphabet :: string where
  "b32_alphabet = ''ABCDEFGHIJKLMNOPQRSTUVWXYZ234567''"

definition CR :: char where "CR = CHR 0x0D"
definition LF :: char where "LF = CHR 0x0A"

text \<open>Both Go decoders skip carriage returns and line feeds wherever they stand.\<close>

definition strip_newlines :: "string \<Rightarrow> string" where
  "strip_newlines s = filter (\<lambda>c. c \<noteq> CR \<and> c \<noteq> LF) s"

definition b64u :: "bytes \<Rightarrow> string" where
  "b64u b = rx_encode 6 3 b64u_alphabet b"

text \<open>\<open>base64.RawURLEncoding.Strict().DecodeString\<close>.\<close>

definition B64u_DecodeString :: "string \<Rightarrow> bytes option" where
  "B64u_DecodeString s = rx_decode True None 6 4 b64u_alphabet (strip_newlines s)"

text \<open>\<open>base32.StdEncoding.WithPadding(base32.NoPadding)\<close>.\<close>

definition b32Enc_EncodeToString :: "bytes \<Rightarrow> string" where
  "b32Enc_EncodeToString b = rx_encode 5 5 b32_alphabet b"

definition b32Enc_DecodeString :: "string \<Rightarrow> bytes option" where
  "b32Enc_DecodeString s = rx_decode False (Some []) 5 8 b32_alphabet (strip_newlines s)"

text \<open>
  \<open>strings.ToLower\<close> and \<open>strings.ToUpper\<close> on ASCII. Go also maps non-ASCII letters; an id holding
  one is refused either way, by the comparison with the canonical form at the end of
  \<open>ParseID\<close> and \<open>nodeIDToBytes\<close>.
\<close>

definition to_lower :: "char \<Rightarrow> char" where
  "to_lower c = (if 65 \<le> (of_char c :: nat) \<and> (of_char c :: nat) \<le> 90
                 then char_of ((of_char c :: nat) + 32) else c)"

definition to_upper :: "char \<Rightarrow> char" where
  "to_upper c = (if 97 \<le> (of_char c :: nat) \<and> (of_char c :: nat) \<le> 122
                 then char_of ((of_char c :: nat) - 32) else c)"

section \<open>Keys and ids\<close>

definition b32 :: "bytes \<Rightarrow> string" where
  "b32 b = map to_lower (b32Enc_EncodeToString b)"

definition IDLen :: nat where "IDLen = 16"

text \<open>The relay's \<open>ID.String\<close>; an \<open>ID\<close> is its 16 raw bytes.\<close>

definition ID_String :: "bytes \<Rightarrow> string" where
  "ID_String i = map to_lower (b32Enc_EncodeToString i)"

text \<open>\<open>IDFromKey\<close>: the first 16 bytes of the SHA-256 of the key; the hash is a parameter.\<close>

definition IDFromKey :: "(bytes \<Rightarrow> bytes) \<Rightarrow> bytes \<Rightarrow> bytes" where
  "IDFromKey sha256 pub = take IDLen (sha256 pub)"

definition ParseID :: "string \<Rightarrow> bytes option" where
  "ParseID s =
     (if length s \<noteq> 26 \<or> map to_lower s \<noteq> s then None
      else case b32Enc_DecodeString (map to_upper s) of
             None \<Rightarrow> None
           | Some b \<Rightarrow>
               if length b \<noteq> IDLen then None
               else if ID_String b \<noteq> s then None else Some b)"

definition DecodeKey :: "string \<Rightarrow> nat \<Rightarrow> bytes option" where
  "DecodeKey s n =
     (case B64u_DecodeString s of
        None \<Rightarrow> None
      | Some b \<Rightarrow> if length b \<noteq> n then None else Some b)"

text \<open>The client's decoders (\<open>bytes.go\<close>, \<open>identity.go\<close>).\<close>

definition fromB64u :: "string \<Rightarrow> bytes option" where
  "fromB64u s = (if CR \<in> set s \<or> LF \<in> set s then None else B64u_DecodeString s)"

definition fromB64uLen :: "string \<Rightarrow> nat \<Rightarrow> bytes option" where
  "fromB64uLen s n =
     (case fromB64u s of
        None \<Rightarrow> None
      | Some b \<Rightarrow> if length b \<noteq> n then None else Some b)"

definition id_char :: "char \<Rightarrow> bool" where
  "id_char c = (97 \<le> (of_char c :: nat) \<and> (of_char c :: nat) \<le> 122 \<or>
                50 \<le> (of_char c :: nat) \<and> (of_char c :: nat) \<le> 55)"

definition nodeIDToBytes :: "string \<Rightarrow> bytes option" where
  "nodeIDToBytes s =
     (if length s \<noteq> 26 then None
      else if \<not> list_all id_char s then None
      else case b32Enc_DecodeString (map to_upper s) of
             None \<Rightarrow> None
           | Some b \<Rightarrow>
               if length b \<noteq> 16 then None
               else if b32 b \<noteq> s then None else Some b)"

definition IsNodeID :: "string \<Rightarrow> bool" where
  "IsNodeID s \<longleftrightarrow> nodeIDToBytes s \<noteq> None"

section \<open>Signed byte strings\<close>

definition appendLenStr :: "bytes \<Rightarrow> string \<Rightarrow> bytes" where
  "appendLenStr b s = b @ u32be (word_of_nat (length s)) @ str_bytes s"

definition RegisterMessage :: "string \<Rightarrow> string \<Rightarrow> bytes \<Rightarrow> u64 \<Rightarrow> string \<Rightarrow> bytes" where
  "RegisterMessage network node challenge ts origin =
     (let b = appendLenStr [] ''frontier-link/1/register'';
          b = appendLenStr b network;
          b = appendLenStr b node;
          b = b @ challenge;
          b = b @ u64be ts
      in appendLenStr b origin)"

text \<open>The client's \<open>ts\<close> is an \<open>int64\<close>, converted to \<open>uint64\<close>.\<close>

definition registerSigningBytes :: "string \<Rightarrow> string \<Rightarrow> bytes \<Rightarrow> int \<Rightarrow> string \<Rightarrow> bytes" where
  "registerSigningBytes network node challenge ts origin =
     (let b = appendLenStr [] ''frontier-link/1/register'';
          b = appendLenStr b network;
          b = appendLenStr b node;
          b = b @ challenge;
          b = b @ u64be (word_of_int ts)
      in appendLenStr b origin)"

definition resignSigningBytes :: "string \<Rightarrow> string \<Rightarrow> int \<Rightarrow> bytes" where
  "resignSigningBytes network node ts =
     (let b = appendLenStr [] ''frontier-link/1/resign'';
          b = appendLenStr b network;
          b = appendLenStr b node
      in b @ u64be (word_of_int ts))"

section \<open>The laws of a group codec\<close>

locale radix_codec =
  fixes d gb gc :: nat and alph :: string
  assumes d_pos: "0 < d" and d_le: "d < 8"
    and group: "d * gc = 8 * gb" and gb_pos: "0 < gb" and gc_pos: "0 < gc"
    and alph_len: "length alph = 2 ^ d" and alph_distinct: "distinct alph"
begin

lemma group_chars_fit:
  "8 * m \<le> d * group_chars d m" "d * group_chars d m - 8 * m < d"
proof -
  have "8 * m + d - 1 = d * group_chars d m + (8 * m + d - 1) mod d"
    by (simp add: group_chars_def)
  moreover have "(8 * m + d - 1) mod d < d" using d_pos by simp
  ultimately show "8 * m \<le> d * group_chars d m" "d * group_chars d m - 8 * m < d"
    using d_pos by linarith+
qed

lemma group_chars_gb: "group_chars d gb = gc"
proof -
  have "8 * gb + d - 1 = d * gc + (d - 1)" using group d_pos by simp
  moreover have "(d * gc + (d - 1)) div d = gc" using d_pos by (subst div_mult_self4) auto
  ultimately show ?thesis by (simp only: group_chars_def)
qed

lemma group_chars_pos: "0 < m \<Longrightarrow> 0 < group_chars d m"
  using group_chars_fit(1) [of m] by (cases "group_chars d m") auto

lemma bytes_of_group_chars: "d * group_chars d m div 8 = m"
proof -
  obtain r where "d * group_chars d m = 8 * m + r" "r < 8"
    using group_chars_fit [of m] d_le by (metis le_Suc_ex add_diff_cancel_left' order.strict_trans)
  then show ?thesis by simp
qed

lemma pow_split: "d * k = 8 * m + r \<Longrightarrow> 256 ^ m * 2 ^ r = ((2 ^ d) ^ k :: nat)"
proof -
  assume eq: "d * k = 8 * m + r"
  have "(2 ^ d) ^ k = (2 ^ (8 * m + r) :: nat)" by (simp add: power_mult [symmetric] eq)
  also have "\<dots> = 256 ^ m * 2 ^ r" by (simp add: power_add power_mult)
  finally show ?thesis by simp
qed

lemma length_enc_group [simp]: "length (enc_group d alph g) = group_chars d (length g)"
  by (simp add: enc_group_def Let_def)

lemma alpha_digits:
  "(\<And>x. x \<in> set ds \<Longrightarrow> x < 2 ^ d) \<Longrightarrow> those_list (map (alpha_index alph) (map ((!) alph) ds)) = Some ds"
  by (auto simp: those_list_map_Some alpha_index_nth alph_len alph_distinct)

lemma alpha_digitsD:
  assumes "those_list (map (alpha_index alph) cs) = Some ds"
  shows "cs = map ((!) alph) ds" and "\<And>x. x \<in> set ds \<Longrightarrow> x < 2 ^ d"
proof -
  from assms have eq: "map (alpha_index alph) cs = map Some ds"
    by (simp add: those_list_map_Some)
  then have len: "length cs = length ds" by (metis length_map)
  have nth: "i < length cs \<Longrightarrow> alpha_index alph (cs ! i) = Some (ds ! i)" for i
    using eq len by (metis nth_map)
  show "cs = map ((!) alph) ds"
  proof (rule nth_equalityI)
    show "length cs = length (map ((!) alph) ds)" using len by simp
    fix i assume "i < length cs"
    then show "cs ! i = map ((!) alph) ds ! i" using len alpha_index_SomeD [OF nth] by simp
  qed
  fix x assume "x \<in> set ds"
  then obtain i where "i < length cs" "x = ds ! i" using len by (auto simp: in_set_conv_nth)
  then show "x < 2 ^ d" using nth alpha_index_SomeD alph_len by metis
qed

lemma dec_enc_group: "dec_group strict bad d alph (enc_group d alph g) = Some g"
proof -
  define m where "m = length g"
  define k where "k = group_chars d m"
  define r where "r = d * k - 8 * m"
  have kr: "d * k = 8 * m + r" "r < d"
    using group_chars_fit [of m] by (simp_all add: k_def r_def)
  have "be_nat g * 2 ^ r < 256 ^ m * 2 ^ r" using be_nat_bound [of g] by (simp add: m_def)
  also have "\<dots> = (2 ^ d) ^ k"
    using kr(1) by (rule pow_split)
  finally have v: "be_nat g * 2 ^ r < (2 ^ d) ^ k" .
  let ?ds = "digits (2 ^ d) k (be_nat g * 2 ^ r)"
  have "those_list (map (alpha_index alph) (enc_group d alph g)) = Some ?ds"
    unfolding enc_group_def Let_def
    by (subst alpha_digits) (auto simp: k_def m_def r_def intro: digits_bound)
  moreover have "undigits (2 ^ d) ?ds = be_nat g * 2 ^ r" using v by (simp add: undigits_digits)
  moreover have "d * k div 8 = m" unfolding k_def by (rule bytes_of_group_chars)
  ultimately show ?thesis
    using kr be_bytes_be_nat [of g] by (simp add: dec_group_def Let_def m_def)
qed

lemma enc_dec_group:
  assumes dec: "dec_group True None d alph cs = Some g" and len: "length cs \<le> gc"
  shows "enc_group d alph g = cs \<and> length g \<le> gb"
proof -
  from dec obtain ds where ds: "those_list (map (alpha_index alph) cs) = Some ds"
    by (auto simp: dec_group_def split: option.splits)
  define j where "j = length ds"
  define m where "m = d * j div 8"
  define r where "r = d * j - 8 * m"
  define v where "v = undigits (2 ^ d) ds"
  from dec ds have r: "r < d" and v0: "v mod 2 ^ r = 0" and g: "g = be_bytes m (v div 2 ^ r)"
    by (auto simp: dec_group_def Let_def j_def m_def r_def v_def split: if_splits)
  note cs = alpha_digitsD [OF ds]
  have jc: "length cs = j" using cs(1) by (simp add: j_def)
  have jm: "d * j = 8 * m + r" by (simp add: r_def m_def)
  have k: "group_chars d m = j"
  proof -
    have "8 * m + d - 1 = d * j + (d - 1 - r)" using jm r by simp
    moreover have "(d * j + (d - 1 - r)) div d = j" using r by (subst div_mult_self4) auto
    ultimately show ?thesis by (simp only: group_chars_def)
  qed
  have "v < (2 ^ d) ^ j" unfolding v_def j_def using cs(2) by (rule undigits_bound)
  also have "\<dots> = 256 ^ m * 2 ^ r"
    using jm by (rule pow_split [symmetric])
  finally have "v div 2 ^ r < 256 ^ m" by (simp add: less_mult_imp_div_less)
  then have "be_nat g = v div 2 ^ r" by (simp add: g be_nat_be_bytes)
  then have "be_nat g * 2 ^ r = v" using v0 by (simp add: mod_eq_0_iff_dvd)
  moreover have "length g = m" by (simp add: g)
  moreover have "digits (2 ^ d) j v = ds"
    unfolding v_def j_def by (rule digits_undigits) (rule cs(2))
  ultimately have "enc_group d alph g = cs"
    using k cs(1) by (simp add: enc_group_def Let_def r_def)
  moreover have "d * j \<le> d * gc" using len jc by simp
  then have "m \<le> gb" using group by (simp add: m_def)
  ultimately show ?thesis using \<open>length g = m\<close> by simp
qed

lemma decode_encode: "rx_decode strict bad d gc alph (rx_encode d gb alph bs) = Some bs"
proof (induction "length bs" arbitrary: bs rule: less_induct)
  case less
  show ?case
  proof (cases "bs = []")
    case True
    then show ?thesis by (simp add: rx_encode.simps rx_decode.simps)
  next
    case False
    let ?g = "take gb bs" and ?t = "drop gb bs"
    let ?e = "enc_group d alph ?g" and ?r = "rx_encode d gb alph ?t"
    have IH: "rx_decode strict bad d gc alph ?r = Some ?t"
      using less False gb_pos by simp
    have enc: "rx_encode d gb alph bs = ?e @ ?r"
      using False gb_pos by (simp add: rx_encode.simps [of d gb alph bs])
    have "0 < length ?e" using False gb_pos by (auto intro!: group_chars_pos)
    then have ne: "?e @ ?r \<noteq> []" by (metis append_is_Nil_conv length_greater_0_conv)
    have "take gc (?e @ ?r) = ?e \<and> drop gc (?e @ ?r) = ?r"
    proof (cases "gb \<le> length bs")
      case True
      then have "length ?e = gc" by (simp add: group_chars_gb min_absorb2)
      then show ?thesis by simp
    next
      case False
      then have "?t = []" and "length ?e = group_chars d (length bs)" by simp_all
      moreover have "group_chars d (length bs) \<le> gc"
        unfolding group_chars_gb [symmetric] group_chars_def
        using False by (intro div_le_mono) simp
      ultimately show ?thesis by (simp add: rx_encode.simps)
    qed
    then have "rx_decode strict bad d gc alph (?e @ ?r) =
        (case dec_group strict bad d alph ?e of None \<Rightarrow> None
         | Some g \<Rightarrow> map_option ((@) g) (rx_decode strict bad d gc alph ?r))"
      using ne gc_pos by (subst rx_decode.simps) (simp only: if_False de_Morgan_disj, simp)
    then show ?thesis unfolding enc IH dec_enc_group by simp
  qed
qed

lemma dec_group_full:
  "dec_group True None d alph cs = Some g \<Longrightarrow> length cs = gc \<Longrightarrow> length g = gb"
proof -
  assume g: "dec_group True None d alph cs = Some g" and len: "length cs = gc"
  then obtain ds where "those_list (map (alpha_index alph) cs) = Some ds" "length g = d * length ds div 8"
    by (auto simp: dec_group_def Let_def split: option.splits if_splits)
  moreover from this(1) have "length ds = gc" using len alpha_digitsD(1) by fastforce
  ultimately show ?thesis by (simp add: group)
qed

lemma dec_group_nonempty:
  "dec_group True None d alph cs = Some g \<Longrightarrow> cs \<noteq> [] \<Longrightarrow> length cs \<le> gc \<Longrightarrow> g \<noteq> []"
  using enc_dec_group [of cs g] group_chars_fit(2) [of 0] by (auto simp: enc_group_def group_chars_def)

lemma encode_decode:
  "rx_decode True None d gc alph cs = Some bs \<Longrightarrow> rx_encode d gb alph bs = cs"
proof (induction "length cs" arbitrary: cs bs rule: less_induct)
  case less
  show ?case
  proof (cases "cs = []")
    case True
    with less.prems show ?thesis by (simp add: rx_encode.simps rx_decode.simps)
  next
    case False
    with less.prems gc_pos obtain g t where g: "dec_group True None d alph (take gc cs) = Some g"
      and t: "rx_decode True None d gc alph (drop gc cs) = Some t" and bs: "bs = g @ t"
      by (auto simp: rx_decode.simps [of True None d gc alph cs] split: option.splits)
    have IH: "rx_encode d gb alph t = drop gc cs"
      using less.hyps t False gc_pos by simp
    from g have ge: "enc_group d alph g = take gc cs" "length g \<le> gb"
      using enc_dec_group [of "take gc cs" g] by auto
    have gne: "g \<noteq> []" using dec_group_nonempty [OF g] False gc_pos by simp
    have "take gb (g @ t) = g \<and> drop gb (g @ t) = t"
    proof (cases "gc \<le> length cs")
      case True
      then have "length g = gb" using dec_group_full [OF g] by simp
      then show ?thesis by simp
    next
      case False
      then have "t = []" using t by (simp add: rx_decode.simps)
      then show ?thesis using ge(2) by simp
    qed
    then show ?thesis using gne gb_pos IH ge(1) by (simp add: bs rx_encode.simps [of d gb alph "g @ t"])
  qed
qed

end

interpretation b64c: radix_codec 6 3 4 b64u_alphabet
  by unfold_locales (simp_all add: b64u_alphabet_def)

interpretation b32c: radix_codec 5 5 8 b32_alphabet
  by unfold_locales (simp_all add: b32_alphabet_def)

section \<open>Texts and bytes\<close>

lemma rx_encode_chars: "radix_codec d gb gc alph \<Longrightarrow> set (rx_encode d gb alph bs) \<subseteq> set alph"
proof (induction d gb alph bs rule: rx_encode.induct)
  case (1 d gb alph bs)
  note rc = radix_codec.alph_len [OF "1.prems"]
  have "set (enc_group d alph g) \<subseteq> set alph" for g
    by (auto simp: enc_group_def Let_def rc dest!: digits_bound [rotated] intro!: nth_mem)
  then show ?case using "1.IH" "1.prems" by (subst rx_encode.simps) auto
qed

lemma newlines_not_b64u: "CR \<notin> set b64u_alphabet" "LF \<notin> set b64u_alphabet"
  by (simp_all add: b64u_alphabet_def CR_def LF_def)

lemma newlines_not_b32: "CR \<notin> set b32_alphabet" "LF \<notin> set b32_alphabet"
  by (simp_all add: b32_alphabet_def CR_def LF_def)

lemma strip_newlines_id: "CR \<notin> set s \<Longrightarrow> LF \<notin> set s \<Longrightarrow> strip_newlines s = s"
  by (auto simp: strip_newlines_def filter_id_conv)

lemma strip_newlines_idem [simp]: "strip_newlines (strip_newlines s) = strip_newlines s"
  by (simp add: strip_newlines_def)

lemma b64u_no_newlines: "CR \<notin> set (b64u b)" "LF \<notin> set (b64u b)"
  using rx_encode_chars [OF b64c.radix_codec_axioms, of b] newlines_not_b64u
  by (auto simp: b64u_def)

lemma b32_no_newlines: "CR \<notin> set (b32Enc_EncodeToString b)" "LF \<notin> set (b32Enc_EncodeToString b)"
  using rx_encode_chars [OF b32c.radix_codec_axioms, of b] newlines_not_b32
  by (auto simp: b32Enc_EncodeToString_def)

lemma B64u_decode_encode [simp]: "B64u_DecodeString (b64u b) = Some b"
  using b64c.decode_encode [of True None b] b64u_no_newlines [of b]
  by (simp add: B64u_DecodeString_def strip_newlines_id b64u_def)

lemma B64u_encode_decode: "B64u_DecodeString s = Some b \<Longrightarrow> b64u b = strip_newlines s"
  using b64c.encode_decode by (simp add: B64u_DecodeString_def b64u_def)

lemma b32Enc_decode_encode [simp]: "b32Enc_DecodeString (b32Enc_EncodeToString b) = Some b"
  using b32c.decode_encode [of False "Some []" b] b32_no_newlines [of b]
  by (simp add: b32Enc_DecodeString_def strip_newlines_id b32Enc_EncodeToString_def)

section \<open>Canonical ids\<close>

lemma case_of_b32:
  "list_all (\<lambda>c. to_upper (to_lower c) = c \<and> to_lower (to_lower c) = to_lower c \<and> id_char (to_lower c))
     b32_alphabet"
  by (simp add: b32_alphabet_def to_upper_def to_lower_def id_char_def char_of_eq_iff)

lemma b32_chars: "c \<in> set (b32Enc_EncodeToString b) \<Longrightarrow>
    to_upper (to_lower c) = c \<and> to_lower (to_lower c) = to_lower c \<and> id_char (to_lower c)"
  using rx_encode_chars [OF b32c.radix_codec_axioms, of b] case_of_b32
  by (auto simp: b32Enc_EncodeToString_def list_all_iff)

lemma upper_lower_b32 [simp]:
  "map to_upper (map to_lower (b32Enc_EncodeToString b)) = b32Enc_EncodeToString b"
  by (simp add: map_idI b32_chars)

lemma lower_lower_b32 [simp]:
  "map to_lower (map to_lower (b32Enc_EncodeToString b)) = map to_lower (b32Enc_EncodeToString b)"
  by (simp add: b32_chars)

lemma id_chars_b32 [simp]: "list_all id_char (map to_lower (b32Enc_EncodeToString b))"
  by (simp add: list_all_iff b32_chars)

lemma length_rx_encode_16 [length_simps]:
  "length b = 16 \<Longrightarrow> length (b32Enc_EncodeToString b) = 26"
proof -
  assume len: "length b = 16"
  have step: "length (rx_encode 5 5 b32_alphabet c) =
      (if c = [] then 0 else group_chars 5 (min (length c) 5) + length (rx_encode 5 5 b32_alphabet (drop 5 c)))" for c
    by (simp add: rx_encode.simps [of 5 5 b32_alphabet c])
  from len show ?thesis
    by (auto simp: b32Enc_EncodeToString_def step [of b] step [of "drop 5 b"] step [of "drop 10 b"]
        step [of "drop 15 b"] rx_encode.simps [of 5 5 b32_alphabet "[]"] group_chars_def)
qed

lemma ID_String_b32: "ID_String b = b32 b"
  by (simp add: ID_String_def b32_def)

lemma ParseID_Some_iff: "ParseID s = Some i \<longleftrightarrow> length i = IDLen \<and> s = ID_String i"
proof
  assume "ParseID s = Some i"
  then show "length i = IDLen \<and> s = ID_String i"
    by (auto simp: ParseID_def split: if_splits option.splits)
next
  assume "length i = IDLen \<and> s = ID_String i"
  then show "ParseID s = Some i"
    by (simp add: ParseID_def ID_String_def IDLen_def length_rx_encode_16 del: map_map)
qed

lemma nodeIDToBytes_Some_iff: "nodeIDToBytes s = Some i \<longleftrightarrow> length i = IDLen \<and> s = ID_String i"
proof
  assume "nodeIDToBytes s = Some i"
  then show "length i = IDLen \<and> s = ID_String i"
    by (auto simp: nodeIDToBytes_def ID_String_b32 IDLen_def split: if_splits option.splits)
next
  assume "length i = IDLen \<and> s = ID_String i"
  then show "nodeIDToBytes s = Some i"
    by (simp add: nodeIDToBytes_def ID_String_b32 b32_def IDLen_def length_rx_encode_16 del: map_map)
qed

lemma ID_String_inject: "length i = IDLen \<Longrightarrow> length j = IDLen \<Longrightarrow> ID_String i = ID_String j \<Longrightarrow> i = j"
  by (metis ParseID_Some_iff option.inject)

section \<open>Signed messages\<close>

lemma append_LenStr: "appendLenStr b s = b @ appendLenStr [] s"
  by (simp add: appendLenStr_def)

lemma LenStr_inject:
  assumes "appendLenStr [] s @ r = appendLenStr [] t @ q" and "length s < 2 ^ 32" and "length t < 2 ^ 32"
  shows "s = t \<and> r = q"
proof -
  from assms(1) have "u32be (word_of_nat (length s)) = u32be (word_of_nat (length t))"
    and rest: "str_bytes s @ r = str_bytes t @ q"
    by (simp_all add: appendLenStr_def append_eq_append_conv)
  then have "(word_of_nat (length s) :: u32) = word_of_nat (length t)" by simp
  then have "unat (word_of_nat (length s) :: u32) = unat (word_of_nat (length t) :: u32)" by simp
  then have "length s = length t" using assms(2,3) by (simp add: unat_of_nat)
  with rest show ?thesis by (simp add: append_eq_append_conv)
qed

lemma LenStr_inject_end:
  "appendLenStr [] s = appendLenStr [] t \<Longrightarrow> length s < 2 ^ 32 \<Longrightarrow> length t < 2 ^ 32 \<Longrightarrow> s = t"
  using LenStr_inject [of s "[]" t "[]"] by simp

lemma RegisterMessage_eq:
  "RegisterMessage network node challenge ts origin =
     appendLenStr [] ''frontier-link/1/register'' @ appendLenStr [] network @ appendLenStr [] node @
     challenge @ u64be ts @ appendLenStr [] origin"
  by (simp add: RegisterMessage_def Let_def append_LenStr [of "_ @ _"] append_LenStr [of "appendLenStr _ _"])

lemma resignSigningBytes_eq:
  "resignSigningBytes network node ts =
     appendLenStr [] ''frontier-link/1/resign'' @ appendLenStr [] network @ appendLenStr [] node @
     u64be (word_of_int ts)"
  by (simp add: resignSigningBytes_def Let_def append_LenStr [of "appendLenStr _ _"])

section \<open>Properties\<close>

text \<open>
  the client's base64url decoder takes exactly one text for each byte string, the one the
  encoder writes: \<open>fromB64u s\<close> gives \<open>b\<close> if and only if \<open>s\<close> is \<open>b64u b\<close>. Padding, foreign
  characters, line breaks and non-zero trailing bits are all refused.
\<close>

theorem fromB64u_iff_b64u: "fromB64u s = Some b \<longleftrightarrow> s = b64u b"
proof
  assume "fromB64u s = Some b"
  then have "CR \<notin> set s" "LF \<notin> set s" "B64u_DecodeString s = Some b"
    by (auto simp: fromB64u_def split: if_splits)
  then show "s = b64u b" using B64u_encode_decode strip_newlines_id by metis
next
  assume "s = b64u b"
  then show "fromB64u s = Some b" by (simp add: fromB64u_def b64u_no_newlines)
qed

text \<open>
  ids have one text form, and the relay and the client agree on it. The relay's \<open>ParseID\<close>
  accepts exactly the canonical text of a 16-byte id and returns that id (no upper case, no line
  breaks, no non-zero trailing bits), and the client's \<open>nodeIDToBytes\<close>, which checks the
  characters rather than the case, is the same function.
\<close>

theorem ids_canonical:
  "(ParseID s = Some i \<longleftrightarrow> length i = IDLen \<and> s = ID_String i) \<and> nodeIDToBytes s = ParseID s"
  using ParseID_Some_iff nodeIDToBytes_Some_iff by (metis option.exhaust)

text \<open>
  C27. the bytes signed at registration say one thing only. Two registration messages whose
  challenges have the same length (32 bytes on every connection) and whose strings are below
  \<open>2^32\<close> bytes are equal only if the network, the node, the challenge, the time and the origin
  are: a signature for one relay, one challenge or one node is never one for another. The client
  builds the same bytes the relay checks, and no registration is also a resignation.
\<close>

theorem register_message_unambiguous:
  assumes "RegisterMessage n d c t o1 = RegisterMessage n' d' c' t' o1'"
    and "length c = length c'"
    and "length n < 2 ^ 32" "length n' < 2 ^ 32" "length d < 2 ^ 32" "length d' < 2 ^ 32"
    and "length o1 < 2 ^ 32" "length o1' < 2 ^ 32"
  shows "(n, d, c, t, o1) = (n', d', c', t', o1')
     \<and> registerSigningBytes n d c (uint t) o1 = RegisterMessage n d c t o1
     \<and> (\<forall>m e s. RegisterMessage n d c t o1 \<noteq> resignSigningBytes m e s)"
proof -
  from assms(1) have "appendLenStr [] n @ appendLenStr [] d @ c @ u64be t @ appendLenStr [] o1 =
      appendLenStr [] n' @ appendLenStr [] d' @ c' @ u64be t' @ appendLenStr [] o1'"
    by (simp add: RegisterMessage_eq)
  with assms(3,4) have n: "n = n'"
    and r: "appendLenStr [] d @ c @ u64be t @ appendLenStr [] o1 =
      appendLenStr [] d' @ c' @ u64be t' @ appendLenStr [] o1'"
    by (auto dest: LenStr_inject)
  from LenStr_inject [OF r assms(5,6)] assms(2) have "d = d'" "c = c'" "t = t'"
    "appendLenStr [] o1 = appendLenStr [] o1'"
    by (auto simp: append_eq_append_conv)
  with n assms(7,8) have "(n, d, c, t, o1) = (n', d', c', t', o1')"
    by (auto dest: LenStr_inject_end)
  moreover have "RegisterMessage n d c t o1 \<noteq> resignSigningBytes m e s" for m e s
    using LenStr_inject [of "''frontier-link/1/register''" _ "''frontier-link/1/resign''"]
    by (auto simp: RegisterMessage_eq resignSigningBytes_eq)
  ultimately show ?thesis
    by (simp add: registerSigningBytes_def RegisterMessage_def)
qed

theorem register_message_unambiguous_witness:
  "(''net'', ''node'', [7], 5, ''relay:8080'') = (''net'', ''node'', [7::byte], 5::u64, ''relay:8080'')
   \<and> registerSigningBytes ''net'' ''node'' [7] 5 ''relay:8080'' = RegisterMessage ''net'' ''node'' [7] 5 ''relay:8080''
   \<and> (\<forall>m e s. RegisterMessage ''net'' ''node'' [7] 5 ''relay:8080'' \<noteq> resignSigningBytes m e s)"
  using register_message_unambiguous [of "''net''" "''node''" "[7]" 5 "''relay:8080''" "''net''" "''node''" "[7]" 5 "''relay:8080''"]
  by simp

text \<open>
  C30. the relay's key decoder is not canonical. Line breaks anywhere in the text of a key or a
  signature change nothing for \<open>DecodeKey\<close>, while the client's \<open>fromB64uLen\<close> refuses every text
  that holds one: a roster whose key is written with an escaped line break is valid at the
  relay and invalid at every member.
\<close>

theorem DecodeKey_ignores_newlines:
  "DecodeKey (a @ [LF] @ b) n = DecodeKey (a @ b) n \<and> fromB64uLen (a @ [LF] @ b) n = None
   \<and> DecodeKey (a @ [CR] @ b) n = DecodeKey (a @ b) n \<and> fromB64uLen (a @ [CR] @ b) n = None
   \<and> DecodeKey (b64u k @ [LF]) (length k) = Some k"
proof -
  have "strip_newlines (a @ [LF] @ b) = strip_newlines (a @ b)" "strip_newlines (a @ [CR] @ b) = strip_newlines (a @ b)"
    by (simp_all add: strip_newlines_def)
  moreover have "strip_newlines (b64u k @ [LF]) = strip_newlines (b64u k)"
    by (simp add: strip_newlines_def)
  then have "B64u_DecodeString (b64u k @ [LF]) = Some k"
    using B64u_decode_encode [of k] by (simp add: B64u_DecodeString_def)
  ultimately show ?thesis
    by (simp add: DecodeKey_def B64u_DecodeString_def fromB64uLen_def fromB64u_def)
qed

end
