(* ===== verification/Frames.thy ===== *)
theory Frames
  imports Encoding
begin

text \<open>
  The two binary layouts of the protocol as the Go client reads and writes them
  (\<open>client-go/frames.go\<close>): routed frames (18-byte header and body, at most 1 MiB), the bodies of
  handshake and data frames, and session messages. Errors are \<open>None\<close>; the texts of Go's error
  values carry no behaviour.
\<close>

unbundle bit_operations_syntax

section \<open>Routed frames\<close>

definition frameVersion :: byte where "frameVersion = 1"
definition frameHeader :: nat where "frameHeader = 18"
definition maxFrame :: nat where "maxFrame = 1048576"

definition frameHandshakeInit :: byte where "frameHandshakeInit = 0x01"
definition frameHandshakeResp :: byte where "frameHandshakeResp = 0x02"
definition frameData :: byte where "frameData = 0x03"
definition frameUnreachable :: byte where "frameUnreachable = 0x04"
definition frameRefused :: byte where "frameRefused = 0x05"
definition framePair :: byte where "framePair = 0x06"
definition frameReset :: byte where "frameReset = 0x07"
definition frameControl :: byte where "frameControl = 0x08"

lemmas frame_type_defs = frameHandshakeInit_def frameHandshakeResp_def frameData_def
  frameUnreachable_def frameRefused_def framePair_def frameReset_def frameControl_def

text \<open>The \<open>peer\<close> field is a Go \<open>[16]byte\<close>: a list of 16 bytes.\<close>

record frame =
  ftyp :: byte
  fpeer :: bytes
  fbody :: bytes

definition encodeFrame :: "byte \<Rightarrow> bytes \<Rightarrow> bytes \<Rightarrow> bytes option" where
  "encodeFrame t p b =
     (if frameHeader + length b > maxFrame then None
      else Some (frameVersion # t # p @ b))"

definition decodeFrame :: "bytes \<Rightarrow> frame option" where
  "decodeFrame b =
     (if length b < frameHeader then None
      else if length b > maxFrame then None
      else if b ! 0 \<noteq> frameVersion then None
      else Some \<lparr>ftyp = b ! 1, fpeer = take 16 (drop 2 b), fbody = drop frameHeader b\<rparr>)"

section \<open>Bodies\<close>

definition handshakeInitBody :: "u32 \<Rightarrow> bytes \<Rightarrow> bytes" where
  "handshakeInitBody senderIndex noise = u32be senderIndex @ noise"

definition parseHandshakeInit :: "bytes \<Rightarrow> (u32 \<times> bytes) option" where
  "parseHandshakeInit b = (if length b < 4 then None else Some (Uint32 b, drop 4 b))"

definition handshakeRespBody :: "u32 \<Rightarrow> u32 \<Rightarrow> bytes \<Rightarrow> bytes" where
  "handshakeRespBody senderIndex receiverIndex noise = u32be senderIndex @ u32be receiverIndex @ noise"

definition parseHandshakeResp :: "bytes \<Rightarrow> (u32 \<times> u32 \<times> bytes) option" where
  "parseHandshakeResp b =
     (if length b < 8 then None else Some (Uint32 b, Uint32 (drop 4 b), drop 8 b))"

definition dataBody :: "u32 \<Rightarrow> bytes \<Rightarrow> bytes" where
  "dataBody receiverIndex ciphertext = u32be receiverIndex @ ciphertext"

definition parseData :: "bytes \<Rightarrow> (u32 \<times> bytes) option" where
  "parseData b = (if length b < 4 then None else Some (Uint32 b, drop 4 b))"

section \<open>UTF-8\<close>

text \<open>
  Go's \<open>utf8.Valid\<close>: every byte is ASCII or opens a shortest-form sequence of two to four bytes
  that encodes no surrogate and nothing above U+10FFFF.
\<close>

definition utf8_cont :: "byte \<Rightarrow> bool" where
  "utf8_cont b \<longleftrightarrow> 0x80 \<le> b \<and> b \<le> 0xBF"

fun utf8_valid :: "bytes \<Rightarrow> bool" where
  "utf8_valid [] = True"
| "utf8_valid (a # r) =
     (if a < 0x80 then utf8_valid r
      else if 0xC2 \<le> a \<and> a \<le> 0xDF then
        (case r of b # r' \<Rightarrow> utf8_cont b \<and> utf8_valid r' | _ \<Rightarrow> False)
      else if 0xE0 \<le> a \<and> a \<le> 0xEF then
        (case r of b # c # r' \<Rightarrow>
           (if a = 0xE0 then 0xA0 \<le> b \<and> b \<le> 0xBF
            else if a = 0xED then 0x80 \<le> b \<and> b \<le> 0x9F else utf8_cont b)
           \<and> utf8_cont c \<and> utf8_valid r'
         | _ \<Rightarrow> False)
      else if 0xF0 \<le> a \<and> a \<le> 0xF4 then
        (case r of b # c # d # r' \<Rightarrow>
           (if a = 0xF0 then 0x90 \<le> b \<and> b \<le> 0xBF
            else if a = 0xF4 then 0x80 \<le> b \<and> b \<le> 0x8F else utf8_cont b)
           \<and> utf8_cont c \<and> utf8_cont d \<and> utf8_valid r'
         | _ \<Rightarrow> False)
      else False)"

declare utf8_valid.simps [simp del]

section \<open>Session messages\<close>

definition sessMessage :: byte where "sessMessage = 0x01"
definition sessCredit :: byte where "sessCredit = 0x02"
definition sessRosterRequest :: byte where "sessRosterRequest = 0x03"
definition sessRoster :: byte where "sessRoster = 0x04"
definition sessResign :: byte where "sessResign = 0x05"
definition flagMore :: byte where "flagMore = 0x01"

lemmas sess_defs = sessMessage_def sessCredit_def sessRosterRequest_def sessRoster_def
  sessResign_def flagMore_def

text \<open>The fields keep Go's zero value where a type does not use them.\<close>

record sessionMessage =
  mtyp :: byte
  mmore :: bool
  mbytes :: bytes
  credit :: u32

definition sm_message :: "bool \<Rightarrow> bytes \<Rightarrow> sessionMessage" where
  "sm_message m b = \<lparr>mtyp = sessMessage, mmore = m, mbytes = b, credit = 0\<rparr>"
definition sm_credit :: "u32 \<Rightarrow> sessionMessage" where
  "sm_credit c = \<lparr>mtyp = sessCredit, mmore = False, mbytes = [], credit = c\<rparr>"
definition sm_plain :: "byte \<Rightarrow> bytes \<Rightarrow> sessionMessage" where
  "sm_plain t b = \<lparr>mtyp = t, mmore = False, mbytes = b, credit = 0\<rparr>"

definition sessionMessage_name :: "sessionMessage \<Rightarrow> string" where
  "sessionMessage_name m =
     (if mtyp m = sessMessage then ''message''
      else if mtyp m = sessCredit then ''credit''
      else if mtyp m = sessRosterRequest then ''roster-request''
      else if mtyp m = sessRoster then ''roster''
      else if mtyp m = sessResign then ''resign'' else ''unknown'')"

definition encodeSessionMessage :: "sessionMessage \<Rightarrow> bytes" where
  "encodeSessionMessage m =
     (if mtyp m = sessMessage then sessMessage # (if mmore m then flagMore else 0) # mbytes m
      else if mtyp m = sessCredit then sessCredit # u32be (credit m)
      else if mtyp m = sessRosterRequest then [sessRosterRequest]
      else mtyp m # mbytes m)"

definition decodeSessionMessage :: "bytes \<Rightarrow> sessionMessage option" where
  "decodeSessionMessage p =
     (case p of
        [] \<Rightarrow> None
      | t # rest \<Rightarrow>
          if t = sessMessage then
            (case rest of [] \<Rightarrow> None
             | f # bs \<Rightarrow> Some (sm_message (f AND flagMore \<noteq> 0) bs))
          else if t = sessCredit then
            (if length rest \<noteq> 4 then None else Some (sm_credit (Uint32 rest)))
          else if t = sessRosterRequest then
            (if length rest \<noteq> 0 then None else Some (sm_plain sessRosterRequest []))
          else if t = sessRoster \<or> t = sessResign then
            (if \<not> utf8_valid rest then None else Some (sm_plain t rest))
          else None)"

text \<open>What a well-formed session message is: one of the five types, and only that type's fields.\<close>

definition wf_sessionMessage :: "sessionMessage \<Rightarrow> bool" where
  "wf_sessionMessage m \<longleftrightarrow>
     (\<exists>f b. m = sm_message f b) \<or> (\<exists>c. m = sm_credit c) \<or> m = sm_plain sessRosterRequest [] \<or>
     (\<exists>t b. m = sm_plain t b \<and> (t = sessRoster \<or> t = sessResign) \<and> utf8_valid b)"

section \<open>Lemmas\<close>

lemma two_front: "2 \<le> length b \<Longrightarrow> b = b ! 0 # b ! 1 # drop 2 b"
  by (cases b; cases "tl b") auto

lemma encodeFrame_decode:
  assumes "encodeFrame t p b = Some f" and "length p = 16"
  shows "decodeFrame f = Some \<lparr>ftyp = t, fpeer = p, fbody = b\<rparr>"
  using assms
  by (auto simp: encodeFrame_def decodeFrame_def frameHeader_def maxFrame_def frameVersion_def
      split: if_splits)

lemma decodeFrame_encode:
  assumes "decodeFrame b = Some f"
  shows "encodeFrame (ftyp f) (fpeer f) (fbody f) = Some b" and "length (fpeer f) = 16"
proof -
  from assms have len: "18 \<le> length b" "length b \<le> maxFrame" and v: "b ! 0 = frameVersion"
    and f: "f = \<lparr>ftyp = b ! 1, fpeer = take 16 (drop 2 b), fbody = drop 18 b\<rparr>"
    by (auto simp: decodeFrame_def frameHeader_def split: if_splits)
  have "b = b ! 0 # b ! 1 # drop 2 b" using len by (intro two_front) simp
  moreover have "take 16 (drop 2 b) @ drop 18 b = drop 2 b"
    using append_take_drop_id [of 16 "drop 2 b"] by simp
  ultimately have "frameVersion # b ! 1 # take 16 (drop 2 b) @ drop 18 b = b" using v by metis
  then show "encodeFrame (ftyp f) (fpeer f) (fbody f) = Some b"
    using len by (simp add: encodeFrame_def f frameHeader_def)
  show "length (fpeer f) = 16" using len by (simp add: f)
qed

lemma bodies_roundtrip [simp]:
  "parseHandshakeInit (handshakeInitBody i n) = Some (i, n)"
  "parseHandshakeResp (handshakeRespBody i j n) = Some (i, j, n)"
  "parseData (dataBody i n) = Some (i, n)"
  by (simp_all add: parseHandshakeInit_def handshakeInitBody_def parseHandshakeResp_def
      handshakeRespBody_def parseData_def dataBody_def)

lemma parseData_body: "parseData b = Some (i, ct) \<Longrightarrow> dataBody i ct = b"
  by (auto simp: parseData_def dataBody_def u32be_Uint32 split: if_splits)

lemma wf_intros [intro, simp]:
  "wf_sessionMessage (sm_message f b)" "wf_sessionMessage (sm_credit c)"
  "wf_sessionMessage (sm_plain sessRosterRequest [])"
  "utf8_valid b \<Longrightarrow> wf_sessionMessage (sm_plain sessRoster b)"
  "utf8_valid b \<Longrightarrow> wf_sessionMessage (sm_plain sessResign b)"
  unfolding wf_sessionMessage_def by blast+

lemma decode_wf: "decodeSessionMessage p = Some m \<Longrightarrow> wf_sessionMessage m"
  unfolding decodeSessionMessage_def
  by (auto split: list.splits if_splits)

lemma Uint32_u32be_end [simp]: "Uint32 (u32be x) = x"
  using Uint32_u32be [of x "[]"] by simp

lemma decode_encode_session: "wf_sessionMessage m \<Longrightarrow> decodeSessionMessage (encodeSessionMessage m) = Some m"
  by (auto simp: wf_sessionMessage_def decodeSessionMessage_def encodeSessionMessage_def sm_message_def
      sm_credit_def sm_plain_def sess_defs)

section \<open>Properties\<close>

text \<open>
  C29. a routed frame survives its encoding, both ways. Encoding a frame with a 16-byte peer and
  decoding the bytes gives the frame back; every byte string \<open>decodeFrame\<close> accepts is the encoding
  of the frame it returns; and both refuse exactly what is over 1 MiB (the decoder also what is
  shorter than a header or of another version).
\<close>

theorem frame_roundtrip:
  "(length p = 16 \<longrightarrow> encodeFrame t p b = Some w \<longrightarrow> decodeFrame w = Some \<lparr>ftyp = t, fpeer = p, fbody = b\<rparr>)
   \<and> (decodeFrame w = Some f \<longrightarrow> encodeFrame (ftyp f) (fpeer f) (fbody f) = Some w)
   \<and> (encodeFrame t p b = None \<longleftrightarrow> frameHeader + length b > maxFrame)"
  using encodeFrame_decode [of t p b w] decodeFrame_encode(1) [of w f]
  by (auto simp: encodeFrame_def)

theorem frame_roundtrip_witness:
  "encodeFrame 3 (replicate 16 9) [5] = Some (1 # 3 # replicate 16 9 @ [5])
   \<and> decodeFrame (1 # 3 # replicate 16 9 @ [5]) = Some \<lparr>ftyp = 3, fpeer = replicate 16 9, fbody = [5]\<rparr>
   \<and> encodeFrame 3 (replicate 16 9) [5] \<noteq> None"
proof -
  have e: "encodeFrame 3 (replicate 16 9) [5] = Some (1 # 3 # replicate 16 9 @ [5])"
    by (simp add: encodeFrame_def frameHeader_def maxFrame_def frameVersion_def)
  moreover have "length (replicate 16 (9 :: byte)) = 16" by simp
  ultimately show ?thesis
    using frame_roundtrip [of "replicate 16 9" 3 "[5]" "1 # 3 # replicate 16 9 @ [5]" undefined] by simp
qed

text \<open>
  session messages survive their encoding. Decoding the encoding of any well-formed message
  gives it back, and whatever the decoder accepts is well formed, so a decoded message is a fixed
  point: re-encoding and decoding it changes nothing (unknown flag bits are dropped, as the
  protocol ignores them).
\<close>

theorem session_message_roundtrip:
  "(wf_sessionMessage m \<longrightarrow> decodeSessionMessage (encodeSessionMessage m) = Some m)
   \<and> (decodeSessionMessage p = Some m \<longrightarrow>
        wf_sessionMessage m \<and> decodeSessionMessage (encodeSessionMessage m) = Some m)"
  using decode_encode_session decode_wf by blast

theorem session_message_roundtrip_witness:
  "decodeSessionMessage [2, 0, 1, 0, 0] = Some (sm_credit 65536)
   \<and> decodeSessionMessage (encodeSessionMessage (sm_credit 65536)) = Some (sm_credit 65536)"
proof -
  have d: "decodeSessionMessage [2, 0, 1, 0, 0] = Some (sm_credit 65536)"
    by (simp add: decodeSessionMessage_def sess_defs Uint32_def be_nat_def undigits_def)
  then show ?thesis using session_message_roundtrip [of "sm_credit 65536" "[2, 0, 1, 0, 0]"] by simp
qed

end
