(* ===== verification/Ws_Frame.thy ===== *)
theory Ws_Frame
  imports Prelude
begin

text \<open>
  WebSocket frames at the relay: the header it writes in front of every payload
  (\<open>relay/internal/relay/conn.go\<close>: \<open>frameWire\<close>, \<open>withHeadroom\<close>, \<open>wireSize\<close>) and the header it
  reads, byte by byte as the socket delivers them, through a 14-byte scratch
  (\<open>relay/internal/relay/read.go\<close>: \<open>parseHeader\<close>, \<open>readHeader\<close>). The socket is the list of the
  chunks that successive reads return; a read fills at most the free part of the scratch and
  leaves the rest for the next.
\<close>

unbundle bit_operations_syntax

section \<open>Writing\<close>

definition headroom :: nat where "headroom = 10"

definition header_len :: "nat \<Rightarrow> nat" where
  "header_len n = (if n > 0xffff then 10 else if n \<ge> 126 then 4 else 2)"

text \<open>
  \<open>frameWire\<close> writes the header into the free bytes in front of the payload and returns the slice
  that starts at it: the header bytes, then the payload in place.
\<close>

definition frameWire :: "byte \<Rightarrow> bytes \<Rightarrow> bytes" where
  "frameWire op p =
     (let n = length p - headroom; hl = header_len n
      in (if hl = 2 then [0x80 OR op, word_of_nat n]
          else if hl = 4 then [0x80 OR op, 126] @ u16be (word_of_nat n)
          else [0x80 OR op, 127] @ u64be (word_of_nat n)) @ drop headroom p)"

definition withHeadroom :: "bytes \<Rightarrow> bytes" where
  "withHeadroom b = replicate headroom 0 @ b"

definition wireSize :: "nat \<Rightarrow> nat" where
  "wireSize n = (if n > 0xffff then 10 + n else if n \<ge> 126 then 4 + n else 2 + n)"

section \<open>Reading\<close>

record ws_Header =
  Fin :: bool
  Rsv :: byte
  OpCode :: byte
  Masked :: bool
  Mask :: bytes
  Length :: int

datatype header_result =
    NeedMore
  | BadHeader
  | Parsed ws_Header nat

definition parseHeader :: "bytes \<Rightarrow> header_result" where
  "parseHeader b =
     (if length b < 2 then NeedMore
      else
        let fin = (b ! 0 AND 0x80 \<noteq> 0);
            rsv = drop_bit 4 (b ! 0) AND 0x7;
            op = b ! 0 AND 0x0f;
            masked = (b ! 1 AND 0x80 \<noteq> 0);
            n = unat (b ! 1 AND 0x7f);
            hl = 2 + (if n = 126 then 2 else if n = 127 then 8 else 0) + (if masked then 4 else 0)
        in if length b < hl then NeedMore
           else if n = 127 \<and> drop_bit 63 (Uint64 (drop 2 b)) \<noteq> 0 then BadHeader
           else Parsed
             \<lparr>Fin = fin, Rsv = rsv, OpCode = op, Masked = masked,
              Mask = (if masked then take 4 (drop (hl - 4) b) else replicate 4 0),
              Length = (if n = 126 then int (unat (Uint16 (drop 2 b)))
                        else if n = 127 then int (unat (Uint64 (drop 2 b))) else int n)\<rparr> hl)"

lemma parseHeader_NeedMore_short: "parseHeader b = NeedMore \<Longrightarrow> length b < 14"
  by (auto simp: parseHeader_def Let_def split: if_splits)

text \<open>
  \<open>readHeader\<close>: the scratch holds the unread bytes \<open>rb\<close> (compacted to its front, as the code
  does before it reads). \<open>None\<close> is the end of the stream with no whole header.
\<close>

datatype read_result =
    REnd
  | RBad
  | RHeader ws_Header nat bytes "bytes list"

function readHeader :: "bytes \<Rightarrow> bytes list \<Rightarrow> read_result" where
  "readHeader rb chunks =
     (case parseHeader rb of
        BadHeader \<Rightarrow> RBad
      | Parsed h hl \<Rightarrow> RHeader h hl (drop hl rb) chunks
      | NeedMore \<Rightarrow>
          (case chunks of
             [] \<Rightarrow> REnd
           | c # cs \<Rightarrow>
               let k = min (14 - length rb) (length c)
               in readHeader (rb @ take k c) (if k = length c then cs else drop k c # cs)))"
  by pat_completeness auto

termination
proof (relation "measure (\<lambda>(rb, chunks). length chunks + length (concat chunks))", goal_cases)
  case 1
  then show ?case by simp
next
  case (2 rb chunks c cs k)
  then have "length rb < 14" by (simp add: parseHeader_NeedMore_short)
  with 2 show ?case by (auto simp: min_def split: if_splits)
qed

declare readHeader.simps [simp del]

section \<open>Lemmas\<close>

lemma Uint_append:
  "2 \<le> length b \<Longrightarrow> Uint16 (b @ x) = Uint16 b" "8 \<le> length b \<Longrightarrow> Uint64 (b @ x) = Uint64 b"
  by (simp_all add: Uint16_def Uint64_def)

lemma parseHeader_append:
  assumes "parseHeader b = Parsed h hl"
  shows "parseHeader (b @ x) = Parsed h hl \<and> hl \<le> length b \<and> 2 \<le> hl"
proof -
  from assms have "2 \<le> length b" by (auto simp: parseHeader_def split: if_splits)
  then have "0 < length b" "1 < length b" by auto
  with assms show ?thesis
    by (auto simp: parseHeader_def Let_def nth_append Uint_append split: if_splits)
qed

lemma parseHeader_bad_append: "parseHeader b = BadHeader \<Longrightarrow> parseHeader (b @ x) = BadHeader"
proof -
  assume bad: "parseHeader b = BadHeader"
  then have "2 \<le> length b" by (auto simp: parseHeader_def split: if_splits)
  then have "0 < length b" "1 < length b" by auto
  with bad show ?thesis
    by (auto simp: parseHeader_def Let_def nth_append Uint_append split: if_splits)
qed

lemma byte_take_bit: "unat (w :: byte) < 2 ^ k \<Longrightarrow> take_bit k w = w"
  by (simp add: word_unat_eq_iff unsigned_take_bit_eq take_bit_nat_eq_self)

lemma bit_consts:
  "bit (128 :: byte) n \<longleftrightarrow> n = 7" "bit (8 :: byte) n \<longleftrightarrow> n = 3"
  "bit (127 :: byte) n \<longleftrightarrow> n < 7" "bit (15 :: byte) n \<longleftrightarrow> n < 4" "bit (7 :: byte) n \<longleftrightarrow> n < 3"
proof -
  have "bit (2 ^ 7 :: byte) n \<longleftrightarrow> n = 7" "bit (2 ^ 3 :: byte) n \<longleftrightarrow> n = 3"
    unfolding bit_exp_iff by auto
  then show "bit (128 :: byte) n \<longleftrightarrow> n = 7" "bit (8 :: byte) n \<longleftrightarrow> n = 3" by simp_all
  have "(127 :: byte) = mask 7" "(15 :: byte) = mask 4" "(7 :: byte) = mask 3"
    by (simp_all add: mask_eq_exp_minus_1)
  then show "bit (127 :: byte) n \<longleftrightarrow> n < 7" "bit (15 :: byte) n \<longleftrightarrow> n < 4" "bit (7 :: byte) n \<longleftrightarrow> n < 3"
    by (auto simp only: bit_mask_iff) (auto simp: bit_simps)
qed

lemma and_masks:
  "(0x80 OR op) AND 0x80 = (0x80 :: byte)"
  "op < 16 \<Longrightarrow> (0x80 OR op) AND 0x0f = (op :: byte)"
  "op < 16 \<Longrightarrow> drop_bit 4 (0x80 OR op) AND 0x7 = (0 :: byte)"
proof -
  show "(0x80 OR op) AND 0x80 = (0x80 :: byte)"
    by (simp add: bit_eq_iff bit_simps)
  assume "op < 16"
  then have "op = take_bit 4 op" by (simp add: byte_take_bit word_less_nat_alt)
  then have bits: "bit op i \<Longrightarrow> i < 4" for i by (metis bit_take_bit_iff)
  show "(0x80 OR op) AND 0x0f = (op :: byte)"
    by (rule bit_word_eqI) (use bits in \<open>auto simp only: bit_and_iff bit_or_iff bit_consts\<close>)
  show "drop_bit 4 (0x80 OR op) AND 0x7 = (0 :: byte)"
  proof (rule bit_word_eqI)
    fix i
    have "\<not> bit op (4 + i)" using bits [of "4 + i"] by auto
    then show "bit (drop_bit 4 (0x80 OR op) AND 0x7) i = bit (0 :: byte) i"
      by (simp only: bit_and_iff bit_or_iff bit_drop_bit_eq o_def bit_consts) auto
  qed
qed

lemma length_frameWire: "headroom \<le> length p \<Longrightarrow> length (frameWire op p) = wireSize (length p - headroom)"
  by (auto simp: frameWire_def header_len_def wireSize_def Let_def)

lemma small_byte: "n < 126 \<Longrightarrow> (word_of_nat n :: byte) AND 0x80 = 0 \<and> unat ((word_of_nat n :: byte) AND 0x7f) = n"
proof -
  assume n: "n < 126"
  let ?w = "word_of_nat n :: byte"
  have "unat ?w = n" using n by (simp add: unat_of_nat)
  then have "?w < 128" using n by (simp add: word_less_nat_alt)
  then have tb: "?w = take_bit 7 ?w" by (simp add: byte_take_bit word_less_nat_alt)
  have bits: "bit ?w i \<Longrightarrow> i < 7" for i using tb by (metis bit_take_bit_iff)
  have "?w AND 0x7f = ?w"
    by (rule bit_word_eqI) (use bits in \<open>auto simp only: bit_and_iff bit_consts\<close>)
  moreover have "?w AND 0x80 = 0"
    using bits [of 7] by (intro bit_word_eqI) (simp only: bit_and_iff bit_consts, auto)
  ultimately show ?thesis using \<open>unat ?w = n\<close> by simp
qed

lemma parse_frameWire:
  assumes op: "op < 16" and len: "headroom \<le> length p" "length p - headroom < 2 ^ 63"
  shows "parseHeader (frameWire op p) =
    Parsed \<lparr>Fin = True, Rsv = 0, OpCode = op, Masked = False, Mask = replicate 4 0,
            Length = int (length p - headroom)\<rparr> (header_len (length p - headroom))"
proof -
  define n where "n = length p - headroom"
  have b0: "(0x80 OR op) AND 0x80 \<noteq> 0" using and_masks(1) [of op] by simp
  note masks = b0 and_masks(2,3) [OF op]
  consider "n < 126" | "126 \<le> n" "n \<le> 0xffff" | "0xffff < n" by linarith
  then show ?thesis
  proof cases
    case 1
    then show ?thesis
      using masks small_byte [of n] by (simp add: frameWire_def parseHeader_def header_len_def n_def Let_def)
  next
    case 2
    then have "unat (word_of_nat n :: u16) = n" by (simp add: unat_of_nat)
    with 2 show ?thesis
      using masks by (simp add: frameWire_def parseHeader_def header_len_def n_def Let_def)
  next
    case 3
    have n64: "unat (word_of_nat n :: u64) = n" using len by (simp add: n_def unat_of_nat del: of_nat_diff)
    have "unat (drop_bit 63 (word_of_nat n :: u64)) = drop_bit 63 n"
      by (simp only: unat_drop_bit_eq n64)
    also have "\<dots> = 0" using len by (simp add: drop_bit_eq_div n_def)
    finally have "drop_bit 63 (word_of_nat n :: u64) = 0" by (rule unat_eq_zero [THEN iffD1])
    with 3 n64 show ?thesis
      using masks by (simp add: frameWire_def parseHeader_def header_len_def n_def Let_def)
  qed
qed

lemma readHeader_chunks:
  "(case readHeader rb chunks of
        RHeader h hl rest cs \<Rightarrow> rest @ concat cs = drop hl (rb @ concat chunks)
          \<and> parseHeader (rb @ concat chunks) = Parsed h hl
      | REnd \<Rightarrow> parseHeader (rb @ concat chunks) = NeedMore
      | RBad \<Rightarrow> parseHeader (rb @ concat chunks) = BadHeader)"
proof (induction rb chunks rule: readHeader.induct)
  case (1 rb chunks)
  show ?case
  proof (cases "parseHeader rb")
    case BadHeader
    then show ?thesis
      by (simp add: readHeader.simps [of rb chunks] parseHeader_bad_append)
  next
    case (Parsed h hl)
    then show ?thesis
      using parseHeader_append [OF Parsed, of "concat chunks"]
      by (simp add: readHeader.simps [of rb chunks])
  next
    case NeedMore
    show ?thesis
    proof (cases chunks)
      case Nil
      then show ?thesis using NeedMore by (simp add: readHeader.simps [of rb "[]"])
    next
      case (Cons c cs)
      define k where "k = min (14 - length rb) (length c)"
      have "readHeader rb chunks =
          readHeader (rb @ take k c) (if k = length c then cs else drop k c # cs)"
        unfolding Cons using NeedMore by (subst readHeader.simps) (simp add: k_def Let_def)
      moreover have "(rb @ take k c) @ concat (if k = length c then cs else drop k c # cs)
          = rb @ concat chunks"
        by (simp add: Cons)
      ultimately show ?thesis using "1.IH" [OF NeedMore Cons k_def] by (simp only:)
    qed
  qed
qed

section \<open>Properties\<close>

text \<open>
  the frame the relay writes is one unmasked, unfragmented WebSocket frame that its own
  reader (and RFC 6455) reads back: the header parses to the opcode and the exact payload length,
  the payload follows it, and its size on the wire is the \<open>wireSize\<close> that is charged.
\<close>

theorem frameWire_reads_back:
  assumes "op < 16" and "length b < 2 ^ 63"
  shows "\<exists>hl. parseHeader (frameWire op (withHeadroom b)) =
           Parsed \<lparr>Fin = True, Rsv = 0, OpCode = op, Masked = False, Mask = replicate 4 0,
                   Length = int (length b)\<rparr> hl
         \<and> drop hl (frameWire op (withHeadroom b)) = b
         \<and> length (frameWire op (withHeadroom b)) = wireSize (length b)"
proof -
  have h: "headroom \<le> length (withHeadroom b)" "length (withHeadroom b) - headroom = length b"
    by (simp_all add: withHeadroom_def)
  have "drop (header_len (length b)) (frameWire op (withHeadroom b)) = b"
    by (simp add: frameWire_def header_len_def withHeadroom_def Let_def)
  then show ?thesis
    using parse_frameWire [OF assms(1) h(1)] length_frameWire [OF h(1)] assms(2) by (simp add: h(2))
qed

theorem frameWire_reads_back_witness:
  "\<exists>hl. parseHeader (frameWire 2 (withHeadroom [7, 8])) =
          Parsed \<lparr>Fin = True, Rsv = 0, OpCode = 2, Masked = False, Mask = replicate 4 0, Length = 2\<rparr> hl
        \<and> drop hl (frameWire 2 (withHeadroom [7, 8])) = [7, 8]
        \<and> length (frameWire 2 (withHeadroom [7, 8])) = 4"
  using frameWire_reads_back [of 2 "[7, 8]"] by (simp add: wireSize_def)

text \<open>
  reading a header does not depend on how the socket cuts the stream. However the bytes
  arrive in chunks, \<open>readHeader\<close> through its 14-byte scratch gives the header that parsing the
  whole stream gives, and the bytes left (in the scratch, then in the socket) are exactly those
  behind the header; it ends without a header only when the stream holds none. The loop ends on
  every input, since 14 bytes always hold a whole header.
\<close>

theorem readHeader_chunking:
  "case readHeader rb chunks of
     RHeader h hl rest cs \<Rightarrow> parseHeader (rb @ concat chunks) = Parsed h hl
        \<and> rest @ concat cs = drop hl (rb @ concat chunks)
   | REnd \<Rightarrow> parseHeader (rb @ concat chunks) = NeedMore \<and> length (rb @ concat chunks) < 14
   | RBad \<Rightarrow> parseHeader (rb @ concat chunks) = BadHeader"
  using readHeader_chunks [of rb chunks] parseHeader_NeedMore_short [of "rb @ concat chunks"]
  by (auto split: read_result.splits)

end
