(* ===== verification/Float64.thy ===== *)
theory Float64
  imports Complex_Main "HOL-Library.Log_Nat"
begin

text \<open>
  Go's \<open>float64\<close> where the program computes with it (the per-address limiter and the quota share
  at the relay, the token buckets of the client): a float is its exact rational value, and every
  operation rounds its exact result to the nearest double, ties to even (IEEE 754, no fused
  operations, as on amd64). Overflow to infinity is outside the model: no value of the program
  comes near \<open>2^1024\<close>. The proofs use only the laws of the locale \<open>float_rounding\<close>.
\<close>

section \<open>Rounding to nearest, ties to even\<close>

definition round_even :: "rat \<Rightarrow> int" where
  "round_even y =
     (let f = \<lfloor>y\<rfloor>; d = y - of_int f
      in if d < 1 / 2 then f else if 1 / 2 < d then f + 1 else if even f then f else f + 1)"

text \<open>\<open>ilog2 x\<close> is the exponent of \<open>x > 0\<close>: \<open>2^e \<le> x < 2^(e+1)\<close>.\<close>

definition ilog2 :: "rat \<Rightarrow> int" where
  "ilog2 x =
     (let (p, q) = quotient_of x;
          k = int (floorlog 2 (nat p)) - int (floorlog 2 (nat q))
      in if 2 powi k \<le> x then k else k - 1)"

definition ulp_exp :: "rat \<Rightarrow> int" where
  "ulp_exp x = max (ilog2 x) (-1022) - 52"

definition f64_pos :: "rat \<Rightarrow> rat" where
  "f64_pos x = of_int (round_even (x / 2 powi ulp_exp x)) * 2 powi ulp_exp x"

definition f64 :: "rat \<Rightarrow> rat" where
  "f64 x = (if x = 0 then 0 else if 0 < x then f64_pos x else - f64_pos (- x))"

section \<open>The laws\<close>

locale float_rounding =
  fixes rnd :: "rat \<Rightarrow> rat"
  assumes rnd_mono: "x \<le> y \<Longrightarrow> rnd x \<le> rnd y"
    and rnd_dyadic: "\<bar>k\<bar> \<le> 2 ^ 53 \<Longrightarrow> -1074 \<le> j \<Longrightarrow> rnd (of_int k * 2 powi j) = of_int k * 2 powi j"
begin

lemma rnd_int: "\<bar>k\<bar> \<le> 2 ^ 53 \<Longrightarrow> rnd (of_int k) = of_int k"
  using rnd_dyadic [of k 0] by simp

lemma rnd_0 [simp]: "rnd 0 = 0"
  using rnd_int [of 0] by simp

lemma rnd_1 [simp]: "rnd 1 = 1"
  using rnd_int [of 1] by simp

lemma rnd_nonneg: "0 \<le> x \<Longrightarrow> 0 \<le> rnd x"
  using rnd_mono [of 0 x] by simp

lemma rnd_le_int: "x \<le> of_int k \<Longrightarrow> \<bar>k\<bar> \<le> 2 ^ 53 \<Longrightarrow> rnd x \<le> of_int k"
  using rnd_mono [of x "of_int k"] rnd_int [of k] by simp

lemma rnd_ge_int: "of_int k \<le> x \<Longrightarrow> \<bar>k\<bar> \<le> 2 ^ 53 \<Longrightarrow> of_int k \<le> rnd x"
  using rnd_mono [of "of_int k" x] rnd_int [of k] by simp

text \<open>Comparing a rounded quotient of two exact integers with 1 is exact.\<close>

lemma rnd_quotient_ge_1:
  assumes "0 \<le> a" "a \<le> 2 ^ 53" "0 < b" "b \<le> 2 ^ 53"
  shows "1 \<le> rnd (of_int a / of_int b) \<longleftrightarrow> b \<le> a"
proof
  assume "b \<le> a"
  then have "1 \<le> (of_int a / of_int b :: rat)" using assms by (simp add: le_divide_eq_1_pos)
  then show "1 \<le> rnd (of_int a / of_int b)" using rnd_mono [of 1] by simp
next
  assume ge: "1 \<le> rnd (of_int a / of_int b)"
  show "b \<le> a"
  proof (rule ccontr)
    assume "\<not> b \<le> a"
    then have "a \<le> b - 1" by simp
    let ?t = "of_int (2 ^ 53 - 1) * 2 powi (-53) :: rat"
    have "(of_int a / of_int b :: rat) \<le> of_int (b - 1) / of_int b"
      using \<open>a \<le> b - 1\<close> assms(3) of_int_le_iff [of a "b - 1", where 'a = rat]
      by (intro divide_right_mono) simp_all
    also have "\<dots> = 1 - 1 / of_int b" using assms(3) by (simp add: field_simps)
    also have "\<dots> \<le> 1 - 1 / 2 ^ 53"
    proof -
      have "(of_int b :: rat) \<le> of_int (2 ^ 53)" using assms(4) by (simp only: of_int_le_iff)
      then show ?thesis using assms(3) by (intro diff_left_mono frac_le) simp_all
    qed
    also have "\<dots> = ?t" by (simp add: power_int_minus field_simps)
    finally have "rnd (of_int a / of_int b) \<le> rnd ?t" by (rule rnd_mono)
    also have "rnd ?t = ?t" by (rule rnd_dyadic) simp_all
    also have "?t < 1" by (simp add: power_int_minus field_simps)
    finally show False using ge by simp
  qed
qed

end

section \<open>Doubles satisfy the laws\<close>

lemma round_even_bounds: "\<lfloor>y\<rfloor> \<le> round_even y" "round_even y \<le> \<lfloor>y\<rfloor> + 1"
  by (simp_all add: round_even_def Let_def)

lemma round_even_int [simp]: "round_even (of_int k) = k"
  by (simp add: round_even_def)

lemma round_even_mono: "x \<le> y \<Longrightarrow> round_even x \<le> round_even y"
proof (cases "\<lfloor>x\<rfloor> = \<lfloor>y\<rfloor>")
  case True
  assume "x \<le> y"
  then show ?thesis using True by (simp add: round_even_def Let_def)
next
  case False
  assume "x \<le> y"
  then have "\<lfloor>x\<rfloor> + 1 \<le> \<lfloor>y\<rfloor>" using False floor_mono [of x y] by simp
  then show ?thesis using round_even_bounds(2) [of x] round_even_bounds(1) [of y] by linarith
qed

lemma powi_split: "2 powi (a + b) = (2 powi a * 2 powi b :: rat)"
  by (simp add: power_int_add)

lemma floorlog_powi:
  assumes "0 < (n :: int)"
  shows "2 powi (int (floorlog 2 (nat n)) - 1) \<le> (of_int n :: rat)" "of_int n < (2 powi int (floorlog 2 (nat n)) :: rat)"
proof -
  define l where "l = floorlog 2 (nat n)"
  have b: "2 ^ (l - 1) \<le> n" "n < 2 ^ l"
    using floorlog_bounds [of "nat n" 2] assms by (auto simp: l_def)
  have l: "0 < l" using b(2) assms by (cases l) auto
  from b have "(of_int (2 ^ (l - 1)) :: rat) \<le> of_int n" "(of_int n :: rat) < of_int (2 ^ l)"
    by (simp_all only: of_int_le_iff of_int_less_iff)
  moreover have "2 powi (int l - 1) = (2 ^ (l - 1) :: rat)"
    using l by (simp add: power_int_def nat_diff_distrib)
  ultimately show "2 powi (int (floorlog 2 (nat n)) - 1) \<le> (of_int n :: rat)"
    "of_int n < (2 powi int (floorlog 2 (nat n)) :: rat)"
    by (simp_all add: l_def power_int_def)
qed

lemma ilog2_bounds:
  assumes "0 < x"
  shows "2 powi ilog2 x \<le> x" "x < 2 powi (ilog2 x + 1)"
proof -
  obtain p q where pq: "quotient_of x = (p, q)" by (cases "quotient_of x")
  then have q: "0 < q" and x: "x = of_int p / of_int q"
    by (auto intro: quotient_of_denom_pos quotient_of_div)
  with assms have p: "0 < p" by (simp add: zero_less_divide_iff)
  define a b where "a = int (floorlog 2 (nat p))" and "b = int (floorlog 2 (nat q))"
  have bp: "2 powi (a - 1) \<le> (of_int p :: rat)" "of_int p < (2 powi a :: rat)"
    and bq: "2 powi (b - 1) \<le> (of_int q :: rat)" "of_int q < (2 powi b :: rat)"
    using floorlog_powi [OF p] floorlog_powi [OF q] by (simp_all add: a_def b_def)
  have hi: "x < 2 powi (a - b + 1)"
  proof -
    have "x < 2 powi a / of_int q" using bp(2) q x by (simp add: divide_strict_right_mono)
    also have "\<dots> \<le> 2 powi a / 2 powi (b - 1)"
      using bq(1) by (intro divide_left_mono) (auto simp: q)
    also have "\<dots> = 2 powi (a - (b - 1))" by (simp add: power_int_diff [symmetric])
    also have "a - (b - 1) = a - b + 1" by simp
    finally show ?thesis .
  qed
  have lo: "2 powi (a - b - 1) \<le> x"
  proof -
    have "2 powi (a - b - 1) = (2 powi (a - 1) / 2 powi b :: rat)"
      by (simp add: power_int_diff [symmetric] algebra_simps)
    also have "\<dots> \<le> of_int p / 2 powi b" using bp(1) by (intro divide_right_mono) auto
    also have "\<dots> \<le> of_int p / of_int q" using bq(2) p q by (intro divide_left_mono) auto
    finally show ?thesis using x by simp
  qed
  have "ilog2 x = (if 2 powi (a - b) \<le> x then a - b else a - b - 1)"
    by (simp add: ilog2_def pq a_def b_def)
  with hi lo show "2 powi ilog2 x \<le> x" "x < 2 powi (ilog2 x + 1)" by auto
qed

lemma powi_mono: "a \<le> b \<Longrightarrow> 2 powi a \<le> (2 powi b :: rat)"
  by (rule power_int_increasing) simp_all

lemma powi_strict_mono: "a < b \<Longrightarrow> 2 powi a < (2 powi b :: rat)"
  by (rule power_int_strict_increasing) simp_all

lemma powi_le_iff: "2 powi a \<le> (2 powi b :: rat) \<longleftrightarrow> a \<le> b"
  using powi_mono [of a b] powi_strict_mono [of b a] by (cases "a \<le> b") auto

lemma powi_less_iff: "2 powi a < (2 powi b :: rat) \<longleftrightarrow> a < b"
  using powi_le_iff [of b a] by (simp add: not_le [symmetric])

lemma ilog2_mono:
  assumes "0 < x" "x \<le> y"
  shows "ilog2 x \<le> ilog2 y"
proof (rule ccontr)
  assume "\<not> ilog2 x \<le> ilog2 y"
  then have "2 powi (ilog2 y + 1) \<le> (2 powi ilog2 x :: rat)" by (intro powi_mono) simp
  also have "\<dots> \<le> x" using ilog2_bounds(1) assms by simp
  finally show False using ilog2_bounds(2) [of y] assms by simp
qed

lemma powi_int_of: "0 \<le> i \<Longrightarrow> (2 powi i :: rat) = of_int (2 ^ nat i)"
  by (simp add: power_int_def)

lemma powi_shift: "u \<le> e \<Longrightarrow> of_int (2 ^ nat (e - u)) * 2 powi u = (2 powi e :: rat)"
  using powi_split [of "e - u" u] powi_int_of [of "e - u"] by simp

lemma f64_pos_multiple:
  assumes "0 \<le> i" and "x = of_int k * 2 powi (ulp_exp x + i)"
  shows "f64_pos x = x"
proof -
  have "x / 2 powi ulp_exp x = of_int (k * 2 ^ nat i)"
    by (subst assms(2)) (simp add: powi_split powi_int_of assms(1))
  then have "f64_pos x = of_int (k * 2 ^ nat i) * 2 powi ulp_exp x"
    by (simp only: f64_pos_def round_even_int)
  also have "\<dots> = of_int k * 2 powi (ulp_exp x + i)" by (simp add: powi_split powi_int_of assms(1))
  also have "\<dots> = x" by (rule assms(2) [symmetric])
  finally show ?thesis .
qed

lemma f64_pos_dyadic:
  assumes "0 < k" "k \<le> 2 ^ 53" "-1074 \<le> j"
  shows "f64_pos (of_int k * 2 powi j) = of_int k * 2 powi j"
proof -
  let ?x = "of_int k * 2 powi j :: rat"
  have pos: "0 < ?x" using assms(1) by simp
  show ?thesis
  proof (cases "k = 2 ^ 53")
    case True
    have x: "?x = 2 powi (53 + j)" by (simp add: True powi_split)
    have "2 powi ilog2 ?x \<le> (2 powi (53 + j) :: rat)" using ilog2_bounds(1) [OF pos] x by simp
    then have "ilog2 ?x \<le> 53 + j" by (simp add: powi_le_iff)
    then have i: "0 \<le> (53 + j) - ulp_exp ?x" using assms(3) by (simp add: ulp_exp_def)
    show ?thesis by (rule f64_pos_multiple [OF i, of _ 1]) (simp add: x)
  next
    case False
    then have "(of_int k :: rat) < of_int (2 ^ 53)" using assms(2) by (simp only: of_int_less_iff)
    then have "?x < 2 powi (53 + j)" by (simp add: powi_split)
    then have "2 powi ilog2 ?x < (2 powi (53 + j) :: rat)"
      using ilog2_bounds(1) [OF pos] by (rule order.strict_trans1 [rotated])
    then have "ilog2 ?x < 53 + j" by (simp add: powi_less_iff)
    then have i: "0 \<le> j - ulp_exp ?x" using assms(3) by (simp add: ulp_exp_def)
    show ?thesis by (rule f64_pos_multiple [OF i, of _ k]) simp
  qed
qed

lemma f64_pos_nonneg: "0 < x \<Longrightarrow> 0 \<le> f64_pos x"
proof -
  assume "0 < x"
  then have "0 \<le> x / 2 powi ulp_exp x" by simp
  then have "round_even (of_int 0) \<le> round_even (x / 2 powi ulp_exp x)"
    by (intro round_even_mono) simp
  then have "0 \<le> round_even (x / 2 powi ulp_exp x)" by (simp only: round_even_int)
  then show ?thesis by (simp add: f64_pos_def)
qed

lemma f64_pos_mono:
  assumes "0 < x" "x \<le> y"
  shows "f64_pos x \<le> f64_pos y"
proof -
  have le: "ulp_exp x \<le> ulp_exp y" using ilog2_mono [OF assms] by (simp add: ulp_exp_def)
  show ?thesis
  proof (cases "ulp_exp x = ulp_exp y")
    case True
    have "x / 2 powi ulp_exp y \<le> y / 2 powi ulp_exp y" using assms by (intro divide_right_mono) auto
    then have "round_even (x / 2 powi ulp_exp y) \<le> round_even (y / 2 powi ulp_exp y)"
      by (rule round_even_mono)
    then show ?thesis by (simp add: f64_pos_def True mult_right_mono)
  next
    case False
    define ey where "ey = ilog2 y"
    have ey: "ulp_exp y = ey - 52" "ilog2 x < ey" "-1022 < ey" and ex: "ulp_exp x \<le> ey - 53"
      using False le by (auto simp: ulp_exp_def ey_def)
    have "x < 2 powi ey"
      using ilog2_bounds(2) [OF assms(1)] powi_mono [of "ilog2 x + 1" ey] ey(2) by simp
    also have "\<dots> = of_int (2 ^ nat (ey - ulp_exp x)) * 2 powi ulp_exp x"
      using ex by (subst powi_shift) auto
    finally have "x / 2 powi ulp_exp x \<le> of_int (2 ^ nat (ey - ulp_exp x))"
      by (simp add: pos_divide_le_eq)
    then have "round_even (x / 2 powi ulp_exp x) \<le> 2 ^ nat (ey - ulp_exp x)"
      using round_even_mono round_even_int by metis
    then have "f64_pos x \<le> of_int (2 ^ nat (ey - ulp_exp x)) * 2 powi ulp_exp x"
      unfolding f64_pos_def by (intro mult_right_mono) (simp_all only: of_int_le_iff, simp)
    also have "\<dots> = 2 powi ey" using ex by (intro powi_shift) simp
    also have "\<dots> = of_int (2 ^ 52) * 2 powi ulp_exp y" by (simp add: ey(1) power_int_diff)
    also have "\<dots> \<le> f64_pos y"
    proof -
      have "2 powi ey \<le> y" using ilog2_bounds(1) [of y] assms by (simp add: ey_def)
      then have "of_int (2 ^ 52) \<le> y / 2 powi ulp_exp y"
        by (simp add: ey(1) power_int_diff pos_le_divide_eq)
      then have "2 ^ 52 \<le> round_even (y / 2 powi ulp_exp y)"
        using round_even_mono round_even_int by metis
      then show ?thesis
        unfolding f64_pos_def by (intro mult_right_mono) (simp_all only: of_int_le_iff, simp)
    qed
    finally show ?thesis .
  qed
qed

interpretation f64: float_rounding f64
proof unfold_locales
  fix x y :: rat
  assume "x \<le> y"
  then show "f64 x \<le> f64 y"
    using f64_pos_mono [of x y] f64_pos_mono [of "- y" "- x"] f64_pos_nonneg [of y] f64_pos_nonneg [of "- x"]
    by (auto simp: f64_def)
next
  fix k j :: int
  assume "\<bar>k\<bar> \<le> 2 ^ 53" "-1074 \<le> j"
  moreover have "\<not> (2 powi j :: rat) < 0" by (simp add: not_less)
  ultimately show "f64 (of_int k * 2 powi j) = of_int k * 2 powi j"
    using f64_pos_dyadic [of k j] f64_pos_dyadic [of "- k" j]
    by (cases k "0 :: int" rule: linorder_cases) (auto simp: f64_def zero_less_mult_iff)
qed

end
