(* ===== verification/Limiters.thy ===== *)
theory Limiters
  imports Prelude Float64
begin

text \<open>
  The relay's limiters (\<open>relay/internal/relay/limits.go\<close>): the per-address token bucket
  (\<open>ipLimiter\<close>), the per-address connection counts (\<open>ipConns\<close>), the rate bucket and the budgets
  kept as one theoretical arrival time (\<open>spend\<close>, \<open>allow\<close>), and the hour window of charged bytes
  (\<open>hourWindow\<close>). A nil \<open>*ipLimiter\<close> or \<open>*ipConns\<close> is \<open>None\<close>. Times are nanoseconds.
\<close>

section \<open>ipLimiter\<close>

record ipBucket =
  tokens :: rat
  b_last :: int

record ipLimiter =
  lim_n :: rat
  window :: int
  ips :: "string \<rightharpoonup> ipBucket"

text \<open>\<open>time.Duration.Seconds\<close>, in floating point.\<close>

definition Seconds :: "int \<Rightarrow> rat" where
  "Seconds d = f64 (of_int (go_quot d Second) + f64 (of_int (go_rem d Second) / 1000000000))"

definition newIPLimiter :: "int \<Rightarrow> int \<Rightarrow> ipLimiter option" where
  "newIPLimiter n w =
     (if n \<le> 0 then None else Some \<lparr>lim_n = f64 (of_int n), window = w, ips = Map.empty\<rparr>)"

definition refill :: "ipLimiter \<Rightarrow> ipBucket \<Rightarrow> int \<Rightarrow> rat" where
  "refill l b now =
     min (lim_n l) (f64 (tokens b + f64 (f64 (Seconds (now - b_last b) * lim_n l) / Seconds (window l))))"

definition ipLimiter_allow :: "ipLimiter option \<Rightarrow> string \<Rightarrow> int \<Rightarrow> bool \<times> ipLimiter option" where
  "ipLimiter_allow ol ip now =
     (case ol of
        None \<Rightarrow> (True, None)
      | Some l \<Rightarrow>
          let b = (case ips l ip of None \<Rightarrow> \<lparr>tokens = lim_n l, b_last = now\<rparr> | Some b \<Rightarrow> b);
              t = refill l b now
          in if t < 1 then (False, Some (l\<lparr>ips := (ips l)(ip \<mapsto> \<lparr>tokens = t, b_last = now\<rparr>)\<rparr>))
             else (True, Some (l\<lparr>ips := (ips l)(ip \<mapsto> \<lparr>tokens = f64 (t - 1), b_last = now\<rparr>)\<rparr>)))"

definition ipLimiter_sweep :: "ipLimiter option \<Rightarrow> int \<Rightarrow> ipLimiter option" where
  "ipLimiter_sweep ol now =
     map_option (\<lambda>l. l\<lparr>ips := (\<lambda>ip. case ips l ip of
         None \<Rightarrow> None
       | Some b \<Rightarrow> if now - b_last b \<ge> window l then None else Some b)\<rparr>) ol"

section \<open>ipConns\<close>

record ipCount =
  c_pending :: int
  c_total :: int

record ipConns =
  max_pending :: int
  max_total :: int
  counts :: "string \<rightharpoonup> ipCount"

definition newIPConns :: "int \<Rightarrow> int \<Rightarrow> ipConns option" where
  "newIPConns p t =
     (if p \<le> 0 \<and> t \<le> 0 then None else Some \<lparr>max_pending = p, max_total = t, counts = Map.empty\<rparr>)"

text \<open>
  An address has one \<open>ipCount\<close> while it has a connection, so the pointer each connection holds is
  its address's entry of the map.
\<close>

definition acquire :: "ipConns option \<Rightarrow> string \<Rightarrow> bool \<times> ipConns option" where
  "acquire cs ip =
     (case cs of
        None \<Rightarrow> (True, None)
      | Some l \<Rightarrow>
          let a = (case counts l ip of None \<Rightarrow> \<lparr>c_pending = 0, c_total = 0\<rparr> | Some a \<Rightarrow> a)
          in if max_pending l > 0 \<and> c_pending a \<ge> max_pending l \<or> max_total l > 0 \<and> c_total a \<ge> max_total l
             then (False, Some l)
             else (True, Some (l\<lparr>counts := (counts l)(ip \<mapsto>
                    \<lparr>c_pending = c_pending a + 1, c_total = c_total a + 1\<rparr>)\<rparr>)))"

definition registered :: "ipConns option \<Rightarrow> string \<Rightarrow> ipConns option" where
  "registered cs ip =
     map_option (\<lambda>l. case counts l ip of
         None \<Rightarrow> l
       | Some a \<Rightarrow> l\<lparr>counts := (counts l)(ip \<mapsto> a\<lparr>c_pending := c_pending a - 1\<rparr>)\<rparr>) cs"

definition release :: "ipConns option \<Rightarrow> string \<Rightarrow> bool \<Rightarrow> ipConns option" where
  "release cs ip pending =
     map_option (\<lambda>l. case counts l ip of
         None \<Rightarrow> l
       | Some a \<Rightarrow>
           let a' = \<lparr>c_pending = c_pending a - (if pending then 1 else 0), c_total = c_total a - 1\<rparr>
           in l\<lparr>counts := (counts l)(ip := if c_total a' \<le> 0 then None else Some a')\<rparr>) cs"

section \<open>Rates as theoretical arrival times\<close>

definition spend :: "int \<Rightarrow> int \<Rightarrow> int \<Rightarrow> int \<Rightarrow> int \<times> int" where
  "spend tat now sz rate =
     (if rate \<le> 0 then (tat, 0)
      else let t = max tat now + go_quot (sz * Second) rate in (t, t - now - Second))"

definition allow :: "int \<Rightarrow> int \<Rightarrow> int \<Rightarrow> int \<Rightarrow> bool \<times> int" where
  "allow tat now cost burst =
     (let t = max tat now + cost in if t - now > burst then (False, tat) else (True, t))"

section \<open>The hour window\<close>

definition hourSlots :: int where "hourSlots = 12"
definition slotSpan :: int where "slotSpan = 5 * Minute"

record hourWindow =
  slots :: "u64 list"
  wsum :: u64
  step :: int

definition hourWindow_zero :: hourWindow where
  "hourWindow_zero = \<lparr>slots = replicate 12 0, wsum = 0, step = 0\<rparr>"

abbreviation slot_of :: "int \<Rightarrow> nat" where
  "slot_of s \<equiv> nat (s mod hourSlots)"

definition clear_slot :: "hourWindow \<Rightarrow> int \<Rightarrow> hourWindow" where
  "clear_slot w s = w\<lparr>wsum := wsum w - slots w ! slot_of s, slots := (slots w)[slot_of s := 0]\<rparr>"

function clear_slots :: "hourWindow \<Rightarrow> int \<Rightarrow> int \<Rightarrow> hourWindow" where
  "clear_slots w s till = (if s \<le> till then clear_slots (clear_slot w s) (s + 1) till else w)"
  by pat_completeness auto
termination
  by (relation "measure (\<lambda>(w, s, till). nat (till + 1 - s))") auto

declare clear_slots.simps [simp del]

definition advance :: "hourWindow \<Rightarrow> int \<Rightarrow> hourWindow" where
  "advance w now =
     (let st = go_quot now slotSpan
      in (if st - step w \<ge> hourSlots then w\<lparr>slots := replicate 12 0, wsum := 0\<rparr>
          else clear_slots w (step w + 1) st)\<lparr>step := st\<rparr>)"

definition hw_add :: "hourWindow \<Rightarrow> u64 \<Rightarrow> int \<Rightarrow> hourWindow" where
  "hw_add w n now =
     (let w = (if go_quot now slotSpan \<noteq> step w then advance w now else w)
      in w\<lparr>slots := (slots w)[slot_of (step w) := slots w ! slot_of (step w) + n], wsum := wsum w + n\<rparr>)"

definition hw_total :: "hourWindow \<Rightarrow> int \<Rightarrow> u64 \<times> hourWindow" where
  "hw_total w now =
     (let w = (if go_quot now slotSpan \<noteq> step w then advance w now else w) in (wsum w, w))"

section \<open>Budgets: what a theoretical arrival time bounds\<close>

text \<open>
  Requests \<open>(time, cost)\<close> made in order, and the total cost of those granted. The contract of a budget that refills one unit per unit of time and holds \<open>burst\<close>: a request is
  granted exactly when it fits, a refused one costs nothing, and a granted one moves the arrival
  time by its cost. The lemmas hold for every implementation of it.
\<close>

fun granted_total :: "('s \<Rightarrow> int \<Rightarrow> int \<Rightarrow> bool \<times> 's) \<Rightarrow> 's \<Rightarrow> (int \<times> int) list \<Rightarrow> int \<times> 's" where
  "granted_total req s [] = (0, s)"
| "granted_total req s ((now, cost) # rs) =
     (case req s now cost of
        (ok, s') \<Rightarrow> case granted_total req s' rs of (g, s'') \<Rightarrow> ((if ok then cost else 0) + g, s''))"

locale budget =
  fixes take_cost :: "'s \<Rightarrow> int \<Rightarrow> int \<Rightarrow> bool \<times> 's" and arrival :: "'s \<Rightarrow> int" and burst :: int
  assumes granted: "take_cost s now cost = (True, s') \<Longrightarrow>
      arrival s' = max (arrival s) now + cost \<and> arrival s' \<le> now + burst"
    and refused: "take_cost s now cost = (False, s') \<Longrightarrow> s' = s \<and> max (arrival s) now + cost > now + burst"
begin

lemma granted_total_arrival:
  "granted_total take_cost s rs = (g, s') \<Longrightarrow> (\<And>now c. (now, c) \<in> set rs \<Longrightarrow> 0 \<le> c) \<Longrightarrow>
     arrival s + g \<le> arrival s' \<and> (\<forall>t0. t0 \<le> fst (hd (rs @ [(t0, 0)])) \<longrightarrow> sorted (map fst rs) \<longrightarrow> 0 < g \<longrightarrow> t0 + g \<le> arrival s')"
proof (induction rs arbitrary: s g)
  case Nil
  then show ?case by simp
next
  case (Cons r rs)
  obtain now c where r: "r = (now, c)" by (cases r)
  obtain ok s1 where t: "take_cost s now c = (ok, s1)" by (cases "take_cost s now c")
  obtain g1 where g1: "granted_total take_cost s1 rs = (g1, s')" and g: "g = (if ok then c else 0) + g1"
    using Cons.prems(1) t r by (auto split: prod.splits)
  have c: "0 \<le> c" using Cons.prems(2) r by auto
  have IH: "arrival s1 + g1 \<le> arrival s'"
    "\<And>t0. t0 \<le> fst (hd (rs @ [(t0, 0)])) \<Longrightarrow> sorted (map fst rs) \<Longrightarrow> 0 < g1 \<Longrightarrow> t0 + g1 \<le> arrival s'"
    using Cons.IH [OF g1] Cons.prems(2) by auto
  show ?case
  proof (cases ok)
    case True
    with t have "arrival s1 = max (arrival s) now + c" by (auto dest: granted)
    then show ?thesis using True IH(1) g r by auto
  next
    case False
    with t have "s1 = s" by (auto dest: refused)
    have "t0 + g1 \<le> arrival s'" if "t0 \<le> now" "sorted (map fst (r # rs))" "0 < g1" for t0
    proof (rule IH(2))
      show "t0 \<le> fst (hd (rs @ [(t0, 0)]))" using that r by (cases rs) auto
    qed (use that in auto)
    then show ?thesis using False \<open>s1 = s\<close> IH(1) g r by auto
  qed
qed

lemma granted_total_upper:
  "granted_total take_cost s rs = (g, s') \<Longrightarrow> (\<And>now c. (now, c) \<in> set rs \<Longrightarrow> now \<le> tn) \<Longrightarrow>
     arrival s' \<le> max (arrival s) (tn + burst)"
proof (induction rs arbitrary: s g)
  case Nil
  then show ?case by simp
next
  case (Cons r rs)
  obtain now c where r: "r = (now, c)" by (cases r)
  obtain ok s1 where t: "take_cost s now c = (ok, s1)" by (cases "take_cost s now c")
  obtain g1 where g1: "granted_total take_cost s1 rs = (g1, s')"
    using Cons.prems(1) t r by (auto split: prod.splits)
  have "arrival s' \<le> max (arrival s1) (tn + burst)" using Cons.IH [OF g1] Cons.prems(2) by auto
  moreover have "arrival s1 \<le> max (arrival s) (tn + burst)"
  proof (cases ok)
    case True
    then have "arrival s1 \<le> now + burst" using t by (auto dest: granted)
    then show ?thesis using Cons.prems(2) [of now c] r by auto
  next
    case False
    then show ?thesis using t by (auto dest: refused)
  qed
  ultimately show ?case by simp
qed

lemma granted_bound:
  assumes "granted_total take_cost s rs = (g, s')" and "sorted (map fst rs)" and "rs \<noteq> []"
    and "\<And>now c. (now, c) \<in> set rs \<Longrightarrow> 0 \<le> c"
    and "arrival s \<le> fst (hd rs) + burst" and "0 \<le> burst"
  shows "g \<le> burst + (fst (last rs) - fst (hd rs))"
proof -
  have le: "now \<le> fst (last rs)" if "(now, c) \<in> set rs" for now c
  proof -
    have "now \<in> set (map fst rs)" using that by force
    then have "now \<le> last (map fst rs)" using assms(2) by (intro sorted_le_last)
    then show ?thesis using assms(3) by (simp add: last_map)
  qed
  then have up: "arrival s' \<le> max (arrival s) (fst (last rs) + burst)"
    by (rule granted_total_upper [OF assms(1)])
  have hl: "fst (hd rs) \<le> fst (last rs)" using le [of "fst (hd rs)" "snd (hd rs)"] assms(3) by simp
  then have up': "arrival s' \<le> fst (last rs) + burst" using up assms(5) by linarith
  have "fst (hd rs) + g \<le> arrival s'" if "0 < g"
  proof -
    have "fst (hd rs) \<le> fst (hd (rs @ [(fst (hd rs), 0)]))" using assms(3) by simp
    moreover have "\<forall>t0. t0 \<le> fst (hd (rs @ [(t0, 0)])) \<longrightarrow> sorted (map fst rs) \<longrightarrow> 0 < g \<longrightarrow> t0 + g \<le> arrival s'"
      using granted_total_arrival [OF assms(1)] assms(4) by blast
    ultimately show ?thesis using assms(2) that by blast
  qed
  then show ?thesis using up' hl assms(6) by (cases "0 < g") linarith+
qed

end

interpretation gcra: budget "\<lambda>tat now cost. allow tat now cost burst" id burst for burst
  by unfold_locales (auto simp: allow_def Let_def split: if_splits)

text \<open>
  A sender that obeys \<open>spend\<close> sends its next frame no sooner than the wait it was told: the
  arrival time less the one second of burst.
\<close>

fun obeys :: "int \<Rightarrow> int \<Rightarrow> (int \<times> int) list \<Rightarrow> bool" where
  "obeys tat rate [] \<longleftrightarrow> True"
| "obeys tat rate ((now, sz) # fs) \<longleftrightarrow> tat - Second \<le> now \<and> obeys (fst (spend tat now sz rate)) rate fs"

definition frame_time :: "int \<Rightarrow> int \<Rightarrow> int" where
  "frame_time rate sz = go_quot (sz * Second) rate"

lemma spend_eq: "0 < rate \<Longrightarrow> spend tat now sz rate = (max tat now + frame_time rate sz, max tat now + frame_time rate sz - now - Second)"
  by (simp add: spend_def frame_time_def Let_def)

lemma obeys_arrival:
  "obeys tat rate (fs @ [(t, sz)]) \<Longrightarrow> 0 < rate \<Longrightarrow> tat + (\<Sum>f\<leftarrow>fs. frame_time rate (snd f)) \<le> t + Second"
proof (induction fs arbitrary: tat)
  case Nil
  then show ?case by simp
next
  case (Cons f fs)
  obtain now s where f: "f = (now, s)" by (cases f)
  then have "max tat now + frame_time rate s + (\<Sum>f\<leftarrow>fs. frame_time rate (snd f)) \<le> t + Second"
    using Cons by (auto simp: spend_eq)
  then show ?case by (simp add: f)
qed

section \<open>The hour window counts the last twelve steps\<close>

text \<open>
  The specification: a log of charges \<open>(step, bytes)\<close>; \<open>log_at\<close> is what was charged in one step,
  \<open>log_total\<close> the charges of the last twelve. \<open>hw_rel\<close> relates the window to the log.
\<close>

definition log_at :: "(int \<times> u64) list \<Rightarrow> int \<Rightarrow> u64" where
  "log_at lg s = (\<Sum>e\<leftarrow>lg. if fst e = s then snd e else 0)"

definition log_total :: "(int \<times> u64) list \<Rightarrow> int \<Rightarrow> u64" where
  "log_total lg k = (\<Sum>e\<leftarrow>lg. if k - hourSlots < fst e \<and> fst e \<le> k then snd e else 0)"

definition hw_rel :: "hourWindow \<Rightarrow> (int \<times> u64) list \<Rightarrow> bool" where
  "hw_rel w lg \<longleftrightarrow> length (slots w) = 12
     \<and> (\<forall>e \<in> set lg. fst e \<le> step w)
     \<and> (\<forall>s. step w - hourSlots < s \<and> s \<le> step w \<longrightarrow> slots w ! slot_of s = log_at lg s)
     \<and> wsum w = log_total lg (step w)"

lemma log_total_Suc: "log_total lg (k + 1) = log_total lg k - log_at lg (k + 1 - hourSlots) + log_at lg (k + 1)"
proof (induction lg)
  case Nil
  then show ?case by (simp add: log_total_def log_at_def)
next
  case (Cons e lg)
  then show ?case by (auto simp: log_total_def log_at_def hourSlots_def)
qed

lemma log_at_future: "\<forall>e \<in> set lg. fst e \<le> k \<Longrightarrow> k < s \<Longrightarrow> log_at lg s = 0"
  by (induction lg) (auto simp: log_at_def)

lemma log_total_past: "\<forall>e \<in> set lg. fst e \<le> k - hourSlots \<Longrightarrow> log_total lg k = 0"
  by (induction lg) (auto simp: log_total_def hourSlots_def)

lemma slot_of_bound [simp]: "slot_of s < 12"
  by (simp add: hourSlots_def nat_less_iff)

lemma slot_of_distinct: "k - hourSlots < s \<Longrightarrow> s \<le> k \<Longrightarrow> slot_of s = slot_of t \<Longrightarrow> k - hourSlots < t \<Longrightarrow> t \<le> k \<Longrightarrow> s = t"
proof -
  assume a: "k - hourSlots < s" "s \<le> k" "slot_of s = slot_of t" "k - hourSlots < t" "t \<le> k"
  then have "s mod 12 = t mod 12" by (simp add: hourSlots_def eq_nat_nat_iff)
  then have "12 dvd s - t" by (simp add: mod_eq_dvd_iff)
  then obtain q where q: "s - t = 12 * q" by (rule dvdE)
  with a have "-1 < q" "q < 1" unfolding hourSlots_def by linarith+
  then have "q = 0" by linarith
  with q show "s = t" by simp
qed

lemma slot_of_wrap: "slot_of (k + 1) = slot_of (k + 1 - hourSlots)"
proof -
  have "(k + 1) mod 12 = (k + 1 - 12) mod 12" by (rule minus_mod_self2 [symmetric])
  then show ?thesis by (simp only: hourSlots_def)
qed

lemma hw_rel_step:
  assumes "hw_rel w lg"
  shows "hw_rel ((clear_slot w (step w + 1))\<lparr>step := step w + 1\<rparr>) lg"
proof -
  let ?k = "step w"
  from assms have len: "length (slots w) = 12" and fut: "\<forall>e \<in> set lg. fst e \<le> ?k"
    and sl: "\<And>s. ?k - hourSlots < s \<Longrightarrow> s \<le> ?k \<Longrightarrow> slots w ! slot_of s = log_at lg s"
    and sum: "wsum w = log_total lg ?k"
    by (auto simp: hw_rel_def)
  have new: "log_at lg (?k + 1) = 0" by (rule log_at_future [OF fut]) simp
  have old: "slots w ! slot_of (?k + 1) = log_at lg (?k + 1 - hourSlots)"
    using sl [of "?k + 1 - hourSlots"] by (simp only: slot_of_wrap) (simp add: hourSlots_def)
  have "(slots w)[slot_of (?k + 1) := 0] ! slot_of s = log_at lg s"
    if "?k + 1 - hourSlots < s" "s \<le> ?k + 1" for s
  proof (cases "s = ?k + 1")
    case True
    then show ?thesis using len new by simp
  next
    case False
    then have "slot_of s \<noteq> slot_of (?k + 1)" using slot_of_distinct [of "?k + 1" s "?k + 1"] that
      by (auto simp: hourSlots_def)
    then show ?thesis using that False sl [of s] by simp
  qed
  moreover have "wsum w - slots w ! slot_of (?k + 1) = log_total lg (?k + 1)"
    by (simp add: log_total_Suc old new sum)
  ultimately show ?thesis using len fut by (auto simp: hw_rel_def clear_slot_def)
qed

lemma clear_slots_set_step: "clear_slots (v\<lparr>step := x\<rparr>) s t = (clear_slots v s t)\<lparr>step := x\<rparr>"
proof (induction v s t rule: clear_slots.induct)
  case (1 v s t)
  have "clear_slot (v\<lparr>step := x\<rparr>) s = (clear_slot v s)\<lparr>step := x\<rparr>" by (cases v) (simp add: clear_slot_def)
  with 1 show ?case by (subst (1 2) clear_slots.simps) simp
qed

lemma clear_slots_rel:
  "hw_rel w lg \<Longrightarrow> step w \<le> till \<Longrightarrow> hw_rel ((clear_slots w (step w + 1) till)\<lparr>step := till\<rparr>) lg"
proof (induction "nat (till - step w)" arbitrary: w)
  case 0
  then have "step w = till" by simp
  then have upd: "w\<lparr>step := till\<rparr> = w" by (cases w) simp
  have "clear_slots w (step w + 1) till = w" using \<open>step w = till\<close> by (simp add: clear_slots.simps)
  then show ?case using "0.prems"(1) by (simp only: upd)
next
  case (Suc n)
  let ?w = "(clear_slot w (step w + 1))\<lparr>step := step w + 1\<rparr>"
  have lt: "step w + 1 \<le> till" using Suc.hyps(2) by simp
  have "hw_rel ((clear_slots ?w (step ?w + 1) till)\<lparr>step := till\<rparr>) lg"
    using Suc lt by (intro Suc.hyps(1)) (auto intro: hw_rel_step)
  then show ?case using lt by (subst clear_slots.simps) (simp add: clear_slots_set_step)
qed

lemma advance_rel:
  assumes "hw_rel w lg" "0 \<le> now" "step w \<le> now div slotSpan"
  shows "hw_rel (advance w now) lg" "step (advance w now) = now div slotSpan"
proof -
  have q: "go_quot now slotSpan = now div slotSpan"
    using assms(2) by (simp add: go_quot_nonneg slotSpan_def Minute_def Second_def)
  show "step (advance w now) = now div slotSpan" by (simp add: advance_def Let_def q)
  show "hw_rel (advance w now) lg"
  proof (cases "now div slotSpan - step w \<ge> hourSlots")
    case True
    have "\<forall>e \<in> set lg. fst e \<le> step w" using assms(1) by (simp add: hw_rel_def)
    then have past: "\<forall>e \<in> set lg. fst e \<le> now div slotSpan - hourSlots" using True by auto
    have "log_at lg s = 0" if "now div slotSpan - hourSlots < s" for s
      using log_at_future [OF past] that by simp
    then show ?thesis
      using True past log_total_past [OF past]
      by (auto simp: advance_def Let_def q hw_rel_def hourSlots_def nth_replicate)
  next
    case False
    then show ?thesis using clear_slots_rel [OF assms(1,3)] by (simp add: advance_def Let_def q)
  qed
qed

lemma hw_add_rel:
  assumes "hw_rel w lg" "0 \<le> now" "step w \<le> now div slotSpan"
  shows "hw_rel (hw_add w n now) (lg @ [(now div slotSpan, n)])"
    "step (hw_add w n now) = now div slotSpan"
proof -
  define v where "v = (if go_quot now slotSpan \<noteq> step w then advance w now else w)"
  have q: "go_quot now slotSpan = now div slotSpan"
    using assms(2) by (simp add: go_quot_nonneg slotSpan_def Minute_def Second_def)
  have v: "hw_rel v lg" "step v = now div slotSpan"
    using assms advance_rel [OF assms] by (auto simp: v_def q)
  have add: "hw_add w n now =
      v\<lparr>slots := (slots v)[slot_of (step v) := slots v ! slot_of (step v) + n], wsum := wsum v + n\<rparr>"
    by (simp add: hw_add_def Let_def v_def)
  show "step (hw_add w n now) = now div slotSpan" by (simp add: add v(2))
  have at: "log_at (lg @ [(k, n)]) s = log_at lg s + (if k = s then n else 0)" for k s
    by (simp add: log_at_def)
  have tot: "log_total (lg @ [(k, n)]) k = log_total lg k + n" for k
    by (simp add: log_total_def hourSlots_def)
  have "(slots v)[slot_of (step v) := slots v ! slot_of (step v) + n] ! slot_of s
      = log_at (lg @ [(step v, n)]) s" if s: "step v - hourSlots < s" "s \<le> step v" for s
  proof -
    have "slots v ! slot_of s = log_at lg s" "length (slots v) = 12" using v(1) s by (auto simp: hw_rel_def)
    moreover have "slot_of (step v) = slot_of s \<longleftrightarrow> step v = s"
      using slot_of_distinct [of "step v" "step v" s] s by (auto simp: hourSlots_def)
    ultimately show ?thesis by (auto simp: at nth_list_update)
  qed
  then show "hw_rel (hw_add w n now) (lg @ [(now div slotSpan, n)])"
    using v by (auto simp: add hw_rel_def tot)
qed

lemma hw_add_advance: "go_quot now slotSpan \<noteq> step w \<Longrightarrow> hw_add w n now = hw_add (advance w now) n now"
  by (simp add: hw_add_def Let_def advance_def)

text \<open>
  A window whose step went back: its slots and its sum still hold the log up to \<open>tip\<close>, its step is
  behind. Coming forward clears the slots of the steps between.
\<close>

definition hw_back :: "hourWindow \<Rightarrow> (int \<times> u64) list \<Rightarrow> int \<Rightarrow> bool" where
  "hw_back w lg tip \<longleftrightarrow> length (slots w) = 12 \<and> tip - hourSlots < step w \<and> step w \<le> tip
     \<and> (\<forall>e \<in> set lg. fst e \<le> tip)
     \<and> (\<forall>s. tip - hourSlots < s \<and> s \<le> tip \<longrightarrow> slots w ! slot_of s = log_at lg s)
     \<and> wsum w = log_total lg tip"

lemma hw_back_here: "hw_back w lg (step w) \<longleftrightarrow> hw_rel w lg"
  by (auto simp: hw_back_def hw_rel_def hourSlots_def)

lemma log_at_without: "log_at (filter (\<lambda>e. fst e \<noteq> k) lg) s = (if s = k then 0 else log_at lg s)"
  by (induction lg) (auto simp: log_at_def)

lemma log_total_without:
  "t - hourSlots < k \<Longrightarrow> k \<le> t \<Longrightarrow> log_total (filter (\<lambda>e. fst e \<noteq> k) lg) t = log_total lg t - log_at lg k"
  by (induction lg) (auto simp: log_at_def log_total_def)

lemma hw_back_step:
  assumes "hw_back w lg tip" "step w < tip"
  shows "hw_back ((clear_slot w (step w + 1))\<lparr>step := step w + 1\<rparr>) (filter (\<lambda>e. fst e \<noteq> step w + 1) lg) tip"
proof -
  let ?k = "step w + 1"
  from assms(1) have len: "length (slots w) = 12" and k: "tip - hourSlots < step w"
    and sl: "\<And>s. tip - hourSlots < s \<Longrightarrow> s \<le> tip \<Longrightarrow> slots w ! slot_of s = log_at lg s"
    by (auto simp: hw_back_def)
  have "(slots w)[slot_of ?k := 0] ! slot_of s = (if s = ?k then 0 else log_at lg s)"
    if "tip - hourSlots < s" "s \<le> tip" for s
    using that sl [of s] len k assms(2) slot_of_distinct [of tip s ?k] by (auto simp: nth_list_update)
  moreover have "slots w ! slot_of ?k = log_at lg ?k" using sl [of ?k] k assms(2) by simp
  ultimately show ?thesis
    using assms by (auto simp: hw_back_def clear_slot_def log_at_without log_total_without)
qed

lemma clear_slots_back:
  "hw_back w lg tip \<Longrightarrow> tip \<le> till \<Longrightarrow> hw_rel ((clear_slots w (step w + 1) till)\<lparr>step := till\<rparr>) (filter (\<lambda>e. fst e \<le> step w) lg)"
proof (induction "nat (tip - step w)" arbitrary: w lg)
  case 0
  then have tip: "tip = step w" by (auto simp: hw_back_def)
  then have "filter (\<lambda>e. fst e \<le> step w) lg = lg" using 0 by (simp add: hw_back_def)
  then show ?case using 0 tip clear_slots_rel [of w lg till] by (simp add: hw_back_here)
next
  case (Suc n)
  let ?w = "(clear_slot w (step w + 1))\<lparr>step := step w + 1\<rparr>" and ?lg = "filter (\<lambda>e. fst e \<noteq> step w + 1) lg"
  have lt: "step w < tip" using Suc.hyps(2) by simp
  have "hw_rel ((clear_slots ?w (step ?w + 1) till)\<lparr>step := till\<rparr>) (filter (\<lambda>e. fst e \<le> step ?w) ?lg)"
    using Suc hw_back_step [OF Suc.prems(1) lt] lt by (intro Suc.hyps(1)) auto
  moreover have "filter (\<lambda>e. fst e \<le> step ?w) ?lg = filter (\<lambda>e. fst e \<le> step w) lg"
    by (auto intro: filter_cong)
  ultimately show ?case using lt Suc.prems(2) by (subst clear_slots.simps) (simp add: clear_slots_set_step)
qed

lemma advance_back:
  assumes "hw_back w lg tip" "0 \<le> now" "tip \<le> now div slotSpan"
  shows "hw_rel (advance w now) (filter (\<lambda>e. fst e \<le> step w) lg)" "step (advance w now) = now div slotSpan"
proof -
  have q: "go_quot now slotSpan = now div slotSpan"
    using assms(2) by (simp add: go_quot_nonneg slotSpan_def Minute_def Second_def)
  show "step (advance w now) = now div slotSpan" by (simp add: advance_def Let_def q)
  show "hw_rel (advance w now) (filter (\<lambda>e. fst e \<le> step w) lg)"
  proof (cases "now div slotSpan - step w \<ge> hourSlots")
    case True
    let ?lg = "filter (\<lambda>e. fst e \<le> step w) lg"
    have past: "\<forall>e \<in> set ?lg. fst e \<le> now div slotSpan - hourSlots" using True by auto
    show ?thesis
      using True past log_total_past [OF past] log_at_future [OF past]
      by (auto simp: advance_def Let_def q hw_rel_def hourSlots_def nth_replicate)
  next
    case False
    then show ?thesis using clear_slots_back [OF assms(1,3)] by (simp add: advance_def Let_def q)
  qed
qed

section \<open>Connection counts\<close>

text \<open>
  The relay's use of the counts: each open connection \<open>(address, still pending)\<close> was acquired
  once, is registered at most once and released once with what it is then.
\<close>

inductive ipc_step :: "ipConns option \<times> (string \<times> bool) list \<Rightarrow> ipConns option \<times> (string \<times> bool) list \<Rightarrow> bool" where
  opened: "acquire cs ip = (True, cs') \<Longrightarrow> ipc_step (cs, os) (cs', (ip, True) # os)"
| refused: "acquire cs ip = (False, cs') \<Longrightarrow> ipc_step (cs, os) (cs', os)"
| registers: "(ip, True) \<in> set os \<Longrightarrow> ipc_step (cs, os) (registered cs ip, (ip, False) # remove1 (ip, True) os)"
| closes: "(ip, p) \<in> set os \<Longrightarrow> ipc_step (cs, os) (release cs ip p, remove1 (ip, p) os)"

inductive ipc_reachable :: "int \<Rightarrow> int \<Rightarrow> ipConns option \<times> (string \<times> bool) list \<Rightarrow> bool" for p t where
  start: "ipc_reachable p t (newIPConns p t, [])"
| next_step: "ipc_reachable p t s \<Longrightarrow> ipc_step s s' \<Longrightarrow> ipc_reachable p t s'"

definition open_of :: "(string \<times> bool) list \<Rightarrow> string \<Rightarrow> int" where
  "open_of os ip = int (length (filter (\<lambda>c. fst c = ip) os))"

definition pending_of :: "(string \<times> bool) list \<Rightarrow> string \<Rightarrow> int" where
  "pending_of os ip = int (length (filter (\<lambda>c. c = (ip, True)) os))"

definition ipc_entry :: "int \<Rightarrow> int \<Rightarrow> ipCount option \<Rightarrow> int \<Rightarrow> int \<Rightarrow> bool" where
  "ipc_entry p t e n q \<longleftrightarrow>
     (case e of None \<Rightarrow> n = 0 \<and> q = 0 | Some a \<Rightarrow> 0 < n \<and> a = \<lparr>c_pending = q, c_total = n\<rparr>)
     \<and> (0 < t \<longrightarrow> n \<le> t) \<and> (0 < p \<longrightarrow> q \<le> p)"

definition ipc_inv :: "int \<Rightarrow> int \<Rightarrow> ipConns option \<times> (string \<times> bool) list \<Rightarrow> bool" where
  "ipc_inv p t st \<longleftrightarrow> (case st of (None, os) \<Rightarrow> p \<le> 0 \<and> t \<le> 0
     | (Some l, os) \<Rightarrow> max_pending l = p \<and> max_total l = t \<and>
         (\<forall>ip. ipc_entry p t (counts l ip) (open_of os ip) (pending_of os ip)))"

lemma filter_remove1: "x \<in> set xs \<Longrightarrow>
    int (length (filter P (remove1 x xs))) = int (length (filter P xs)) - (if P x then 1 else 0)"
  by (induction xs) auto

lemma open_simps [simp]:
  "open_of [] ip = 0" "pending_of [] ip = 0"
  "open_of ((i, q) # os) ip = open_of os ip + (if i = ip then 1 else 0)"
  "pending_of ((i, q) # os) ip = pending_of os ip + (if i = ip \<and> q then 1 else 0)"
  by (auto simp: open_of_def pending_of_def)

lemma open_remove1 [simp]:
  "(i, q) \<in> set os \<Longrightarrow> open_of (remove1 (i, q) os) ip = open_of os ip - (if i = ip then 1 else 0)"
  "(i, q) \<in> set os \<Longrightarrow> pending_of (remove1 (i, q) os) ip = pending_of os ip - (if i = ip \<and> q then 1 else 0)"
  by (auto simp: open_of_def pending_of_def filter_remove1)

lemma open_nonneg [simp]: "0 \<le> open_of os ip" "0 \<le> pending_of os ip" "pending_of os ip \<le> open_of os ip"
proof -
  have "length (filter (\<lambda>c. c = (ip, True)) os) \<le> length (filter (\<lambda>c. fst c = ip) os)"
    by (induction os) auto
  then show "pending_of os ip \<le> open_of os ip" by (simp add: open_of_def pending_of_def)
qed (simp_all add: open_of_def pending_of_def)

lemma open_of_mem: "(i, q) \<in> set os \<Longrightarrow> 0 < open_of os i"
  by (force simp: open_of_def length_greater_0_conv filter_empty_conv)

lemma ipc_inv_acquire:
  assumes "ipc_inv p t (cs, os)" "acquire cs ip = (ok, cs')"
  shows "ipc_inv p t (cs', if ok then (ip, True) # os else os)"
proof (cases cs)
  case None
  then show ?thesis using assms by (auto simp: acquire_def ipc_inv_def)
next
  case (Some l)
  let ?os = "if ok then (ip, True) # os else os"
  have e: "ipc_entry p t (counts l i) (open_of os i) (pending_of os i)" for i
    using assms(1) by (simp add: ipc_inv_def Some)
  have mp: "max_pending l = p" "max_total l = t" using assms(1) by (auto simp: ipc_inv_def Some)
  obtain l' where l': "cs' = Some l'" "max_pending l' = p" "max_total l' = t"
    using assms by (auto simp: acquire_def ipc_inv_def Some Let_def split: option.splits if_splits)
  have "ipc_entry p t (counts l' i) (open_of ?os i) (pending_of ?os i)" for i
  proof (cases "i = ip")
    case True
    then show ?thesis
      using assms(2) mp e [of ip] l'
      by (auto simp: acquire_def ipc_entry_def Some Let_def split: option.splits if_splits)
  next
    case False
    then show ?thesis
      using assms(2) e [of i] l' by (auto simp: acquire_def Some Let_def split: option.splits if_splits)
  qed
  then show ?thesis by (simp add: ipc_inv_def l')
qed

lemma ipc_inv_registered:
  assumes "ipc_inv p t (cs, os)" "(ip, True) \<in> set os"
  shows "ipc_inv p t (registered cs ip, (ip, False) # remove1 (ip, True) os)"
proof (cases cs)
  case None
  then show ?thesis using assms by (auto simp: registered_def ipc_inv_def)
next
  case (Some l)
  have e: "ipc_entry p t (counts l i) (open_of os i) (pending_of os i)" for i
    using assms(1) by (simp add: ipc_inv_def Some)
  from e [of ip] open_of_mem [OF assms(2)]
  have "counts l ip = Some \<lparr>c_pending = pending_of os ip, c_total = open_of os ip\<rparr>"
    by (auto simp: ipc_entry_def split: option.splits)
  then have "ipc_entry p t (counts (the (registered cs ip)) i)
      (open_of ((ip, False) # remove1 (ip, True) os) i) (pending_of ((ip, False) # remove1 (ip, True) os) i)" for i
    using assms(2) e [of i] by (cases "i = ip") (auto simp: registered_def Some ipc_entry_def)
  then show ?thesis using assms(1) by (auto simp: ipc_inv_def Some registered_def split: option.splits)
qed

lemma ipc_inv_release:
  assumes "ipc_inv p t (cs, os)" "(ip, q) \<in> set os"
  shows "ipc_inv p t (release cs ip q, remove1 (ip, q) os)"
proof (cases cs)
  case None
  then show ?thesis using assms by (auto simp: release_def ipc_inv_def)
next
  case (Some l)
  have e: "ipc_entry p t (counts l i) (open_of os i) (pending_of os i)" for i
    using assms(1) by (simp add: ipc_inv_def Some)
  from e [of ip] open_of_mem [OF assms(2)]
  have c: "counts l ip = Some \<lparr>c_pending = pending_of os ip, c_total = open_of os ip\<rparr>"
    by (auto simp: ipc_entry_def split: option.splits)
  have b: "0 \<le> pending_of (remove1 (ip, q) os) ip"
    "pending_of (remove1 (ip, q) os) ip \<le> open_of (remove1 (ip, q) os) ip"
    by (rule open_nonneg)+
  have "ipc_entry p t (counts (the (release cs ip q)) i)
      (open_of (remove1 (ip, q) os) i) (pending_of (remove1 (ip, q) os) i)" for i
  proof (cases "i = ip")
    case True
    then show ?thesis
      using assms(2) c b e [of ip] open_of_mem [OF assms(2)]
      by (auto simp: release_def Some ipc_entry_def Let_def)
  next
    case False
    then show ?thesis using assms(2) c e [of i] by (simp add: release_def Some Let_def)
  qed
  then show ?thesis using assms(1) by (auto simp: ipc_inv_def Some release_def Let_def split: option.splits)
qed

lemma ipc_step_inv: "ipc_step s s' \<Longrightarrow> ipc_inv p t s \<Longrightarrow> ipc_inv p t s'"
proof (induction rule: ipc_step.induct)
  case (opened cs ip cs' os)
  then show ?case using ipc_inv_acquire [of p t cs os ip True cs'] by simp
next
  case (refused cs ip cs' os)
  then show ?case using ipc_inv_acquire [of p t cs os ip False cs'] by simp
qed (simp_all add: ipc_inv_registered ipc_inv_release)

lemma ipc_reachable_inv: "ipc_reachable p t st \<Longrightarrow> ipc_inv p t st"
proof (induction rule: ipc_reachable.induct)
  case start
  show ?case by (simp add: newIPConns_def ipc_inv_def ipc_entry_def)
next
  case (next_step s s')
  then show ?case by (blast intro: ipc_step_inv)
qed

section \<open>The per-address limiter\<close>

lemma Seconds_0 [simp]: "Seconds 0 = 0"
  by (simp add: Seconds_def go_quot_def go_rem_def)

lemma Seconds_whole: "0 \<le> k \<Longrightarrow> k \<le> 2 ^ 53 \<Longrightarrow> Seconds (k * Second) = of_int k"
  using f64.rnd_int [of k]
  by (simp add: Seconds_def go_quot_nonneg go_rem_nonneg Second_def)

lemma Seconds_mono_whole:
  assumes "0 \<le> k" "k \<le> 2 ^ 53" "k * Second \<le> d"
  shows "of_int k \<le> Seconds d"
proof -
  have d: "0 \<le> d" using assms by (simp add: Second_def)
  have "k \<le> d div Second" using assms(3) by (simp add: Second_def)
  then have "(of_int k :: rat) \<le> of_int (go_quot d Second)"
    using d by (simp add: go_quot_nonneg Second_def)
  moreover have "0 \<le> f64 (of_int (go_rem d Second) / 1000000000)"
    using d by (intro f64.rnd_nonneg) (simp add: go_rem_nonneg Second_def)
  ultimately have "of_int k \<le> of_int (go_quot d Second) + f64 (of_int (go_rem d Second) / 1000000000)"
    by simp
  then show ?thesis unfolding Seconds_def using assms by (intro f64.rnd_ge_int) auto
qed

text \<open>\<open>ip_calls l ip now k\<close>: the answers to \<open>k\<close> events of one address at one instant.\<close>

fun ip_calls :: "ipLimiter option \<Rightarrow> string \<Rightarrow> int \<Rightarrow> nat \<Rightarrow> bool list" where
  "ip_calls l ip now 0 = []"
| "ip_calls l ip now (Suc k) = (case ipLimiter_allow l ip now of (ok, l') \<Rightarrow> ok # ip_calls l' ip now k)"

lemma refill_same_instant:
  assumes "tokens b = of_int i" "0 \<le> i" "i \<le> 2 ^ 53" "b_last b = now"
  shows "refill l b now = min (lim_n l) (of_int i)"
  using assms f64.rnd_int [of i] by (simp add: refill_def)

lemma ip_calls_bucket:
  assumes "ips l ip = Some \<lparr>tokens = of_nat i, b_last = now\<rparr>" "lim_n l = of_nat n" "i \<le> n" "n \<le> 2 ^ 53"
  shows "ip_calls (Some l) ip now k = replicate (min k i) True @ replicate (k - i) False"
  using assms
proof (induction k arbitrary: l i)
  case 0
  then show ?case by simp
next
  case (Suc k)
  let ?b = "\<lparr>tokens = of_nat i, b_last = now\<rparr> :: ipBucket"
  have "int i \<le> 2 ^ 53" using Suc.prems(3,4) by simp
  then have "refill l ?b now = min (lim_n l) (of_int (int i))"
    by (intro refill_same_instant) simp_all
  then have r: "refill l ?b now = of_nat i" using Suc.prems(2,3) by simp
  show ?case
  proof (cases i)
    case 0
    then have "ipLimiter_allow (Some l) ip now = (False, Some (l\<lparr>ips := (ips l)(ip \<mapsto> ?b)\<rparr>))"
      using Suc.prems(1) r by (simp add: ipLimiter_allow_def Let_def)
    moreover have "ip_calls (Some (l\<lparr>ips := (ips l)(ip \<mapsto> ?b)\<rparr>)) ip now k =
        replicate (min k i) True @ replicate (k - i) False"
      using Suc.prems by (intro Suc.IH) auto
    ultimately show ?thesis using 0 by simp
  next
    case (Suc j)
    have "f64 (of_int (int j)) = (of_int (int j) :: rat)"
      using Suc Suc.prems(3,4) by (intro f64.rnd_int) auto
    then have "f64 (of_nat i - 1) = of_nat j" using Suc by simp
    then have "ipLimiter_allow (Some l) ip now =
        (True, Some (l\<lparr>ips := (ips l)(ip \<mapsto> \<lparr>tokens = of_nat j, b_last = now\<rparr>)\<rparr>))"
      using Suc.prems(1) r Suc by (simp add: ipLimiter_allow_def Let_def)
    moreover have "ip_calls (Some (l\<lparr>ips := (ips l)(ip \<mapsto> \<lparr>tokens = of_nat j, b_last = now\<rparr>)\<rparr>)) ip now k =
        replicate (min k j) True @ replicate (k - j) False"
      using Suc Suc.prems by (intro Suc.IH) auto
    ultimately show ?thesis using Suc by simp
  qed
qed

lemma ip_calls_fresh:
  assumes "ips l ip = None" "lim_n l = of_nat n" "n \<le> 2 ^ 53"
  shows "ip_calls (Some l) ip now k = replicate (min k n) True @ replicate (k - n) False"
proof -
  let ?l = "l\<lparr>ips := (ips l)(ip \<mapsto> \<lparr>tokens = of_nat n, b_last = now\<rparr>)\<rparr>"
  have "ipLimiter_allow (Some l) ip now = ipLimiter_allow (Some ?l) ip now"
    using assms(1,2) by (simp add: ipLimiter_allow_def Let_def refill_def)
  then have "ip_calls (Some l) ip now k = ip_calls (Some ?l) ip now k" by (cases k) simp_all
  also have "\<dots> = replicate (min k n) True @ replicate (k - n) False"
    using assms by (intro ip_calls_bucket) auto
  finally show ?thesis .
qed

lemma refill_full:
  assumes "0 \<le> tokens b" "lim_n l = of_int n" "window l = k * Second" "0 < n" "0 < k" "k * n \<le> 2 ^ 53"
    and "window l \<le> now - b_last b"
  shows "refill l b now = lim_n l"
proof -
  have "1 * n \<le> k * n" "k * 1 \<le> k * n" using assms(4,5) by (intro mult_mono; simp)+
  then have b: "n \<le> 2 ^ 53" "k \<le> 2 ^ 53" using assms(6) by linarith+
  have w: "Seconds (window l) = of_int k" using assms(3,5) b Seconds_whole [of k] by simp
  have "of_int k \<le> Seconds (now - b_last b)" using assms(3,5,7) b by (intro Seconds_mono_whole) auto
  then have "of_int (k * n) \<le> Seconds (now - b_last b) * lim_n l"
    using assms(2,4) by (simp add: mult_right_mono)
  then have "of_int (k * n) \<le> f64 (Seconds (now - b_last b) * lim_n l)"
    using assms(4,5,6) by (intro f64.rnd_ge_int) simp_all
  then have "of_int n \<le> f64 (Seconds (now - b_last b) * lim_n l) / of_int k"
    using assms(5) by (simp add: pos_le_divide_eq mult.commute)
  then have "of_int n \<le> f64 (f64 (Seconds (now - b_last b) * lim_n l) / Seconds (window l))"
    unfolding w using assms(4) b by (intro f64.rnd_ge_int) auto
  then have "of_int n \<le> f64 (tokens b + f64 (f64 (Seconds (now - b_last b) * lim_n l) / Seconds (window l)))"
    using assms(1,4) b by (intro f64.rnd_ge_int) auto
  then show ?thesis by (simp add: refill_def assms(2))
qed

section \<open>Properties\<close>

text \<open>
  at one instant an address that has made no event before gets exactly its allowance: of
  \<open>k\<close> events the first \<open>n\<close> are allowed and every later one is refused, in floating point, for
  every limit up to \<open>2^53\<close>.
\<close>

theorem ipLimiter_burst_exact:
  assumes "newIPLimiter (int n) w = Some l" and "n \<le> 2 ^ 53"
  shows "ip_calls (Some l) ip now k = replicate (min k n) True @ replicate (k - n) False"
proof -
  have "f64 (of_int (int n)) = of_int (int n)" using assms(2) by (intro f64.rnd_int) auto
  then have "ips l ip = None" "lim_n l = of_nat n"
    using assms(1) by (auto simp: newIPLimiter_def split: if_splits)
  then show ?thesis using assms(2) by (intro ip_calls_fresh)
qed

theorem ipLimiter_burst_exact_witness:
  "ip_calls (newIPLimiter 2 Minute) ''10.0.0.1'' 5 3 = [True, True, False]"
proof -
  have "newIPLimiter (int 2) Minute = Some (the (newIPLimiter 2 Minute))" by (simp add: newIPLimiter_def)
  moreover have "(2 :: nat) \<le> 2 ^ 53" by simp
  ultimately have "ip_calls (Some (the (newIPLimiter 2 Minute))) ''10.0.0.1'' 5 3 =
      replicate (min 3 2) True @ replicate (3 - 2) False"
    by (rule ipLimiter_burst_exact)
  then show ?thesis by (simp add: newIPLimiter_def numeral_2_eq_2)
qed

text \<open>
  the sweep forgets no refusal. For a limiter whose window is a whole number of seconds (as
  the relay's are), an address forgotten by the sweep gets the same answer at any later time, and
  is left with the same bucket, as if it had been kept: its bucket would have been full again.
\<close>

theorem ipLimiter_sweep_transparent:
  assumes "lim_n l = of_int n" and "window l = k * Second" and "0 < n" and "0 < k" and "k * n \<le> 2 ^ 53"
    and "\<And>i b. ips l i = Some b \<Longrightarrow> 0 \<le> tokens b" and "now \<le> now'"
  shows "fst (ipLimiter_allow (ipLimiter_sweep (Some l) now) ip now') = fst (ipLimiter_allow (Some l) ip now')
    \<and> ips (the (snd (ipLimiter_allow (ipLimiter_sweep (Some l) now) ip now'))) ip =
      ips (the (snd (ipLimiter_allow (Some l) ip now'))) ip"
proof (cases "ips l ip")
  case None
  then show ?thesis by (simp add: ipLimiter_sweep_def ipLimiter_allow_def Let_def refill_def)
next
  case (Some b)
  show ?thesis
  proof (cases "now - b_last b \<ge> window l")
    case False
    then show ?thesis using Some by (simp add: ipLimiter_sweep_def ipLimiter_allow_def Let_def refill_def)
  next
    case True
    have "1 * n \<le> k * n" using assms(3,4) by (intro mult_mono) simp_all
    then have "n \<le> 2 ^ 53" using assms(5) by linarith
    then have "f64 (lim_n l) = lim_n l" using assms(1,3) f64.rnd_int [of n] by simp
    moreover have "refill l b now' = lim_n l"
      using True assms(6) [OF Some] assms by (intro refill_full [of _ _ n k]) auto
    ultimately show ?thesis using Some True
      by (simp add: ipLimiter_sweep_def ipLimiter_allow_def Let_def) (simp add: refill_def)
  qed
qed

theorem ipLimiter_sweep_transparent_witness:
  "fst (ipLimiter_allow (ipLimiter_sweep (Some \<lparr>lim_n = 10, window = 60 * Second,
      ips = [''a'' \<mapsto> \<lparr>tokens = 3, b_last = 0\<rparr>]\<rparr>) (100 * Second)) ''a'' (200 * Second)) =
   fst (ipLimiter_allow (Some \<lparr>lim_n = 10, window = 60 * Second,
      ips = [''a'' \<mapsto> \<lparr>tokens = 3, b_last = 0\<rparr>]\<rparr>) ''a'' (200 * Second))"
proof -
  let ?l = "\<lparr>lim_n = 10, window = 60 * Second, ips = [''a'' \<mapsto> \<lparr>tokens = 3, b_last = 0\<rparr>]\<rparr> :: ipLimiter"
  have "\<And>i b. ips ?l i = Some b \<Longrightarrow> 0 \<le> tokens b" by (auto split: if_splits)
  then show ?thesis
    using ipLimiter_sweep_transparent [of ?l 10 60 "100 * Second" "200 * Second" "''a''"]
    by (simp add: Second_def)
qed

text \<open>
  the connection counts are exact and bounded. After any sequence of upgrades, registrations
  and closes, no address has more open or more unregistered connections than its limits, every
  count is the number of its connections, and an address without a connection has no entry.
\<close>

theorem ipConns_counts_exact:
  assumes "ipc_reachable p t (Some l, os)"
  shows "(0 < t \<longrightarrow> open_of os ip \<le> t) \<and> (0 < p \<longrightarrow> pending_of os ip \<le> p)
    \<and> counts l ip = (if open_of os ip = 0 then None
        else Some \<lparr>c_pending = pending_of os ip, c_total = open_of os ip\<rparr>)"
  using ipc_reachable_inv [OF assms]
  by (auto simp: ipc_inv_def ipc_entry_def dest!: spec [of _ ip] split: option.splits)

theorem ipConns_counts_exact_witness:
  "open_of [(''a'', True)] ''a'' \<le> 3 \<and> pending_of [(''a'', True)] ''a'' \<le> 1"
proof -
  let ?l = "\<lparr>max_pending = 1, max_total = 3, counts = [''a'' \<mapsto> \<lparr>c_pending = 1, c_total = 1\<rparr>]\<rparr>"
  have "acquire (newIPConns 1 3) ''a'' = (True, Some ?l)"
    by (simp add: acquire_def newIPConns_def)
  then have "ipc_reachable 1 3 (Some ?l, [(''a'', True)])"
    by (blast intro: ipc_reachable.intros ipc_step.opened)
  from ipConns_counts_exact [OF this, of "''a''"] show ?thesis by simp
qed

text \<open>
  a sender that waits as \<open>spend\<close> tells it keeps to the rate, with one second of burst: from
  an idle bucket, the frames it has sent before any frame at time \<open>t\<close> take, at the rate, no
  longer than the time since its first frame and one second. Frames are charged whole, so the last
  one may run the bucket into debt.
\<close>

theorem spend_keeps_rate:
  assumes "obeys tat rate ((t0, sz0) # fs @ [(t, sz)])" and "0 < rate"
  shows "frame_time rate sz0 + (\<Sum>f\<leftarrow>fs. frame_time rate (snd f)) \<le> t - t0 + Second"
proof -
  let ?tat = "fst (spend tat t0 sz0 rate)"
  have "obeys ?tat rate (fs @ [(t, sz)])" using assms(1) by simp
  from obeys_arrival [OF this assms(2)]
  have "?tat + (\<Sum>f\<leftarrow>fs. frame_time rate (snd f)) \<le> t + Second" .
  moreover have "t0 + frame_time rate sz0 \<le> ?tat" using assms(2) by (simp add: spend_eq)
  ultimately show ?thesis by linarith
qed

theorem spend_keeps_rate_witness:
  "frame_time 1000 900 + (\<Sum>f\<leftarrow>[(0, 600)]. frame_time 1000 (snd f)) \<le> 500000000 - 0 + Second"
proof -
  have "obeys 0 1000 ((0, 900) # [(0, 600)] @ [(500000000, 10)])"
    by (simp add: spend_def go_quot_def Second_def Let_def)
  from spend_keeps_rate [OF this] show ?thesis by simp
qed

text \<open>
  a budget kept as one arrival time never grants more than its burst and the time that
  passed: of requests at non-decreasing times, whatever the answers, the cost of those granted is
  at most the burst plus the time from the first to the last. A refused request costs nothing.
\<close>

theorem allow_budget_bound:
  assumes "granted_total (\<lambda>tat now cost. allow tat now cost burst) tat rs = (g, tat')"
    and "sorted (map fst rs)" and "rs \<noteq> []" and "\<And>now c. (now, c) \<in> set rs \<Longrightarrow> 0 \<le> c"
    and "tat \<le> fst (hd rs) + burst" and "0 \<le> burst"
  shows "g \<le> burst + (fst (last rs) - fst (hd rs))"
  using gcra.granted_bound [of burst tat rs g tat'] assms by simp

theorem allow_budget_bound_witness:
  "fst (granted_total (\<lambda>tat now cost. allow tat now cost 10) 0 [(0, 8), (1, 5), (4, 5)]) \<le> 10 + (4 - 0)"
proof -
  have run: "granted_total (\<lambda>tat now cost. allow tat now cost 10) 0 [(0, 8), (1, 5), (4, 5)] = (13, 13)"
    by (simp add: allow_def Let_def)
  show ?thesis using allow_budget_bound [OF run] run by auto
qed

text \<open>
  C28. the hour window counts exactly the charges of the last twelve five-minute steps. Starting
  from a window that agrees with a log of charges, a charge and a reading at times that do not go
  back agree with the log extended by it, and so does the window left behind (sums modulo \<open>2^64\<close>,
  as the counters).
\<close>

theorem hourWindow_counts_last_hour:
  assumes "hw_rel w lg" and "0 \<le> now" and "step w \<le> now div slotSpan" and "now \<le> now'"
  shows "hw_rel (hw_add w n now) (lg @ [(now div slotSpan, n)])
    \<and> fst (hw_total (hw_add w n now) now') = log_total (lg @ [(now div slotSpan, n)]) (now' div slotSpan)
    \<and> hw_rel (snd (hw_total (hw_add w n now) now')) (lg @ [(now div slotSpan, n)])"
proof -
  note rel = hw_add_rel [OF assms(1-3), of n]
  have "now div slotSpan \<le> now' div slotSpan"
    using assms(4) by (intro zdiv_mono1) (simp_all add: slotSpan_def Minute_def Second_def)
  then have le: "step (hw_add w n now) \<le> now' div slotSpan" using rel(2) by simp
  have pos: "0 \<le> now'" using assms(2,4) by simp
  then have q: "go_quot now' slotSpan = now' div slotSpan"
    by (simp add: go_quot_nonneg slotSpan_def Minute_def Second_def)
  have "fst (hw_total (hw_add w n now) now') = log_total (lg @ [(now div slotSpan, n)]) (now' div slotSpan)"
    using advance_rel [OF rel(1) pos le] rel by (auto simp: hw_total_def Let_def q hw_rel_def)
  moreover have "hw_rel (snd (hw_total (hw_add w n now) now')) (lg @ [(now div slotSpan, n)])"
    using advance_rel [OF rel(1) pos le] rel by (simp add: hw_total_def Let_def q)
  ultimately show ?thesis using rel(1) by simp
qed

lemma hw_rel_zero: "hw_rel hourWindow_zero []"
  by (auto simp: hw_rel_def hourWindow_zero_def log_at_def log_total_def hourSlots_def nth_replicate)

theorem hourWindow_counts_last_hour_witness:
  "fst (hw_total (hw_add hourWindow_zero 7 0) 5) = 7"
  using hourWindow_counts_last_hour [OF hw_rel_zero, of 0 5 7]
  by (simp add: hourWindow_zero_def log_total_def hourSlots_def slotSpan_def Minute_def Second_def)

text \<open>
  C31. the window forgets charges when the clock readings reach it out of order. The readings are
  taken before the network's lock, so two of them can be swapped across a five-minute boundary: after
  a charge \<open>m\<close> at a reading \<open>old\<close> of an earlier step (at most eleven back) and the next charge \<open>n\<close> at a
  reading of the window's step or a later one, the window agrees with the log from which every
  charge of the steps after \<open>old\<close>'s is gone, and its total is short by exactly those of them that
  fall in the last twelve steps.
\<close>

theorem hourWindow_out_of_order_loses_charges:
  assumes "hw_rel w lg" and "0 \<le> old" and "old div slotSpan < step w" and "step w - hourSlots < old div slotSpan"
    and "step w \<le> now div slotSpan"
  shows "hw_rel (hw_add (hw_add w m old) n now)
      (filter (\<lambda>e. fst e \<le> old div slotSpan) lg @ [(old div slotSpan, m), (now div slotSpan, n)])
    \<and> fst (hw_total (hw_add (hw_add w m old) n now) now)
      + (\<Sum>e\<leftarrow>lg. if old div slotSpan < fst e \<and> now div slotSpan - hourSlots < fst e then snd e else 0)
      = log_total (lg @ [(old div slotSpan, m), (now div slotSpan, n)]) (now div slotSpan)"
proof -
  let ?o = "old div slotSpan" and ?k = "now div slotSpan" and ?w = "hw_add w m old"
  let ?f = "filter (\<lambda>e. fst e \<le> ?o) lg"
  have pos: "0 \<le> now" using assms(2-5) by (auto simp: slotSpan_def Minute_def Second_def)
  have q: "go_quot old slotSpan = ?o" "go_quot now slotSpan = ?k"
    using assms(2) pos by (simp_all add: go_quot_nonneg slotSpan_def Minute_def Second_def)
  have w: "?w = w\<lparr>slots := (slots w)[slot_of ?o := slots w ! slot_of ?o + m], wsum := wsum w + m, step := ?o\<rparr>"
    using assms(3) by (cases w) (simp add: hw_add_def advance_def Let_def q hourSlots_def clear_slots.simps)
  have "(slots w)[slot_of ?o := slots w ! slot_of ?o + m] ! slot_of s = log_at (lg @ [(?o, m)]) s"
    if "step w - hourSlots < s" "s \<le> step w" for s
    using that assms(1,3,4) slot_of_distinct [of "step w" s ?o] by (auto simp: hw_rel_def log_at_def nth_list_update)
  then have behind: "hw_back ?w (lg @ [(?o, m)]) (step w)"
    using assms(1,3,4) by (auto simp: w hw_back_def hw_rel_def log_total_def)
  have ne: "hw_add ?w n now = hw_add (advance ?w now) n now"
    using assms(3,5) by (intro hw_add_advance) (simp add: w q)
  have adv: "hw_rel (advance ?w now) (?f @ [(?o, m)])" "step (advance ?w now) = ?k"
    using advance_back [OF behind pos assms(5)] by (simp_all add: w)
  have rel: "hw_rel (hw_add ?w n now) (?f @ [(?o, m), (?k, n)])" "step (hw_add ?w n now) = ?k"
    using hw_add_rel [OF adv(1) pos, of n] adv(2) by (simp_all add: ne)
  have upto: "\<forall>e \<in> set lg. fst e \<le> ?k" using assms(1,5) by (auto simp: hw_rel_def)
  have "log_total ?f ?k + (\<Sum>e\<leftarrow>lg. if ?o < fst e \<and> ?k - hourSlots < fst e then snd e else 0) = log_total lg ?k"
    using upto by (induction lg) (auto simp: log_total_def)
  then have "log_total (?f @ [(?o, m), (?k, n)]) ?k + (\<Sum>e\<leftarrow>lg. if ?o < fst e \<and> ?k - hourSlots < fst e then snd e else 0)
      = log_total (lg @ [(?o, m), (?k, n)]) ?k"
    by (simp add: log_total_def algebra_simps)
  then show ?thesis using rel by (simp add: hw_total_def Let_def q hw_rel_def)
qed

theorem hourWindow_out_of_order_loses_charges_witness:
  "fst (hw_total (hw_add (hw_add (hw_add hourWindow_zero 1000 slotSpan) 1 (slotSpan - 1)) 1 slotSpan) slotSpan) + 1000
     = log_total [(1, 1000), (0, 1), (1, 1)] 1"
proof -
  have rel: "hw_rel (hw_add hourWindow_zero 1000 slotSpan) [(1, 1000)]" "step (hw_add hourWindow_zero 1000 slotSpan) = 1"
    using hw_add_rel [OF hw_rel_zero, of slotSpan 1000] by (simp_all add: hourWindow_zero_def slotSpan_def Minute_def Second_def)
  show ?thesis
    using hourWindow_out_of_order_loses_charges [OF rel(1), of "slotSpan - 1" slotSpan 1 1] rel(2)
    by (simp add: hourSlots_def slotSpan_def Minute_def Second_def)
qed

end
