(* ===== verification/Conn_Queue.thy ===== *)
theory Conn_Queue
  imports Ws_Frame "HOL-Library.Sublist"
begin

text \<open>
  The write side of a relay connection (\<open>relay/internal/relay/conn.go\<close>): two lanes of queued frames,
  the pong and the ping outside them, the frame being written, the close frame last, the queue's
  byte counts, and the slow-peer rule. Every definition is one section of the code under the
  connection's lock \<open>wmu\<close>; sections of different goroutines interleave in any order, and what a
  write to the socket took is the environment's choice (\<open>wstep\<close>). Times are nanoseconds of the
  relay's monotonic clock. The body of a close frame, which the WebSocket library encodes, is an
  argument of \<open>closeWith\<close>.
\<close>

section \<open>State\<close>

datatype kind = kindData | kindReply | kindCtl | kindClose

record outFrame =
  ob :: bytes
  okind :: kind

record wcfg =
  QueueBytes :: int
  SlowPeer :: int

text \<open>
  \<open>cur\<close> is the rest of the frame being written (nil is \<open>None\<close>), \<open>slowTimer\<close> the time a set timer
  fires, \<open>below\<close> whether a sender waits for the queue to shrink. \<open>wire\<close> is what the socket has taken,
  and \<open>socket_closed\<close> whether \<open>nc.Close\<close> was called.
\<close>

record wconn =
  cur :: "bytes option"
  curKind :: kind
  curSize :: int
  pingDue :: bool
  pong :: bytes
  pongDue :: bool
  pq :: "outFrame list"
  q :: "outFrame list"
  queued :: int
  replies :: int
  writing :: bool
  closing :: bool
  closeFrame :: "bytes option"
  closeSent :: bool
  readerDone :: bool
  below :: bool
  lastDrain :: int
  fullSince :: int
  slowTimer :: "int option"
  wire :: bytes
  socket_closed :: bool

definition wconn_init :: wconn where
  "wconn_init = \<lparr>cur = None, curKind = kindData, curSize = 0, pingDue = False, pong = [], pongDue = False,
     pq = [], q = [], queued = 0, replies = 0, writing = False, closing = False, closeFrame = None,
     closeSent = False, readerDone = False, below = False, lastDrain = 0, fullSince = 0, slowTimer = None,
     wire = [], socket_closed = False\<rparr>"

definition OpText :: byte where "OpText = 1"
definition OpBinary :: byte where "OpBinary = 2"
definition OpClose :: byte where "OpClose = 8"
definition OpPing :: byte where "OpPing = 9"
definition OpPong :: byte where "OpPong = 10"

lemmas op_defs = OpText_def OpBinary_def OpClose_def OpPing_def OpPong_def

section \<open>Queueing\<close>

definition overLocked :: "wcfg \<Rightarrow> 'a wconn_scheme \<Rightarrow> bool" where
  "overLocked cfg c \<longleftrightarrow> queued c > QueueBytes cfg"

text \<open>\<open>kickLocked\<close> makes somebody the writer; the writing itself is the drain steps below.\<close>

definition kickLocked :: "'a wconn_scheme \<Rightarrow> 'a wconn_scheme" where
  "kickLocked c = c\<lparr>writing := True\<rparr>"

text \<open>\<open>enqueue\<close> up to the inline write: the answer, and the queue with the frame.\<close>

definition enqueue :: "byte \<Rightarrow> bytes \<Rightarrow> kind \<Rightarrow> bool \<Rightarrow> 'a wconn_scheme \<Rightarrow> bool \<times> 'a wconn_scheme" where
  "enqueue op p k own c =
     (let b = frameWire op p; sz = int (length b)
      in if closing c then (False, c)
         else
           let c = c\<lparr>queued := queued c + sz, replies := replies c + (if k = kindReply then sz else 0)\<rparr>;
               c = (if \<not> writing c then c\<lparr>cur := Some b, curKind := k, curSize := sz\<rparr>
                    else if own then c\<lparr>pq := pq c @ [\<lparr>ob = b, okind = k\<rparr>]\<rparr>
                    else c\<lparr>q := q c @ [\<lparr>ob = b, okind = k\<rparr>]\<rparr>)
           in (True, kickLocked c))"

text \<open>The end of \<open>enqueue\<close>, once the inline write is done: the slow-peer timer.\<close>

definition enqueue_judge :: "wcfg \<Rightarrow> int \<Rightarrow> 'a wconn_scheme \<Rightarrow> 'a wconn_scheme" where
  "enqueue_judge cfg now c =
     (if SlowPeer cfg > 0 \<and> slowTimer c = None \<and> overLocked cfg c
      then c\<lparr>fullSince := now, slowTimer := Some (now + SlowPeer cfg)\<rparr> else c)"

definition sendBinary :: "bytes \<Rightarrow> 'a wconn_scheme \<Rightarrow> bool \<times> 'a wconn_scheme" where
  "sendBinary p = enqueue OpBinary p kindData False"

definition sendPair :: "bytes \<Rightarrow> 'a wconn_scheme \<Rightarrow> bool \<times> 'a wconn_scheme" where
  "sendPair p = enqueue OpBinary p kindData True"

text \<open>\<open>sendJSON\<close>, given the marshalled text.\<close>

definition sendJSON :: "bytes \<Rightarrow> 'a wconn_scheme \<Rightarrow> bool \<times> 'a wconn_scheme" where
  "sendJSON v = enqueue OpText (withHeadroom v) kindData True"

text \<open>\<open>reply\<close> without its charge, which is the network's (theory \<open>Network\<close>).\<close>

definition reply :: "byte \<Rightarrow> bytes \<Rightarrow> 'a wconn_scheme \<Rightarrow> 'a wconn_scheme" where
  "reply op p c = snd (enqueue op p kindReply (op = OpText) c)"

definition ping :: "'a wconn_scheme \<Rightarrow> 'a wconn_scheme" where
  "ping c = (if closing c then c else kickLocked (c\<lparr>pingDue := True\<rparr>))"

definition answerPing :: "bytes \<Rightarrow> 'a wconn_scheme \<Rightarrow> 'a wconn_scheme" where
  "answerPing p c = (if closing c then c else kickLocked (c\<lparr>pong := p, pongDue := True\<rparr>))"

section \<open>Writing\<close>

definition take_frame :: "outFrame \<Rightarrow> 'a wconn_scheme \<Rightarrow> 'a wconn_scheme" where
  "take_frame f c = c\<lparr>cur := Some (ob f), curKind := okind f, curSize := int (length (ob f))\<rparr>"

definition nextLocked :: "'a wconn_scheme \<Rightarrow> bool \<times> 'a wconn_scheme" where
  "nextLocked c =
     (if cur c \<noteq> None then (True, c)
      else if pongDue c then
        (True, take_frame \<lparr>ob = frameWire OpPong (withHeadroom (pong c)), okind = kindCtl\<rparr> (c\<lparr>pong := [], pongDue := False\<rparr>))
      else if pingDue c then
        (True, take_frame \<lparr>ob = frameWire OpPing (replicate headroom 0), okind = kindCtl\<rparr> (c\<lparr>pingDue := False\<rparr>))
      else
        case pq c of
          f # fs \<Rightarrow> (True, take_frame f (c\<lparr>pq := fs\<rparr>))
        | [] \<Rightarrow>
            (case q c of
               f # fs \<Rightarrow> (True, take_frame f (c\<lparr>q := fs\<rparr>))
             | [] \<Rightarrow>
                 (case closeFrame c of
                    Some body \<Rightarrow>
                      if closeSent c then (False, c)
                      else (True, take_frame \<lparr>ob = frameWire OpClose (withHeadroom body), okind = kindClose\<rparr>
                                    (c\<lparr>closeSent := True\<rparr>))
                  | None \<Rightarrow> (False, c))))"

definition releaseLocked :: "wcfg \<Rightarrow> 'a wconn_scheme \<Rightarrow> 'a wconn_scheme" where
  "releaseLocked cfg c =
     (let c = c\<lparr>below := False\<rparr>
      in if slowTimer c \<noteq> None \<and> (closing c \<or> \<not> overLocked cfg c) then c\<lparr>slowTimer := None\<rparr> else c)"

definition finishedLocked :: "wcfg \<Rightarrow> int \<Rightarrow> 'a wconn_scheme \<Rightarrow> 'a wconn_scheme" where
  "finishedLocked cfg now c =
     (case curKind c of
        kindCtl \<Rightarrow> c
      | kindClose \<Rightarrow> c
      | k \<Rightarrow> releaseLocked cfg
          (c\<lparr>queued := max 0 (queued c - curSize c),
             replies := (if k = kindReply then max 0 (replies c - curSize c) else replies c),
             lastDrain := now\<rparr>))\<lparr>cur := None\<rparr>"

definition beginCloseLocked :: "wcfg \<Rightarrow> bool \<Rightarrow> 'a wconn_scheme \<Rightarrow> bool \<times> 'a wconn_scheme" where
  "beginCloseLocked cfg flush c =
     (if closing c then (False, c)
      else
        let c = c\<lparr>closing := True, pingDue := False, pong := [], pongDue := False\<rparr>;
            c = (if flush then c else c\<lparr>pq := [], q := [], queued := 0, replies := 0\<rparr>)
        in (True, releaseLocked cfg c))"

text \<open>\<open>closeWith\<close> with a code (its frame's body given), and with code 0, when the peer is gone.\<close>

definition closeWith :: "wcfg \<Rightarrow> bytes option \<Rightarrow> bool \<Rightarrow> 'a wconn_scheme \<Rightarrow> 'a wconn_scheme" where
  "closeWith cfg code flush c =
     (case beginCloseLocked cfg flush c of
        (False, c) \<Rightarrow> c
      | (True, c) \<Rightarrow> (case code of None \<Rightarrow> c | Some body \<Rightarrow> kickLocked (c\<lparr>closeFrame := Some body\<rparr>)))"

text \<open>
  The sections of \<open>drain\<close>: picking the next frame (or stopping), and what follows the write of
  \<open>cur\<close>: an error after \<open>n\<close> bytes, or \<open>n\<close> bytes taken (all of them, or fewer when the socket would
  block). The writer works on its copy of \<open>cur\<close>, which only the writer changes.
\<close>

definition drain_pick :: "'a wconn_scheme \<Rightarrow> 'a wconn_scheme" where
  "drain_pick c =
     (case nextLocked c of
        (True, c) \<Rightarrow> c
      | (False, c) \<Rightarrow> c\<lparr>writing := False, socket_closed := socket_closed c \<or> readerDone c\<rparr>)"

definition drain_error :: "wcfg \<Rightarrow> nat \<Rightarrow> 'a wconn_scheme \<Rightarrow> 'a wconn_scheme" where
  "drain_error cfg n c =
     (case cur c of
        None \<Rightarrow> c
      | Some b \<Rightarrow>
          (snd (beginCloseLocked cfg False (c\<lparr>wire := wire c @ take n b\<rparr>)))
            \<lparr>cur := None, closeSent := True, writing := False, socket_closed := True\<rparr>)"

definition drain_wrote :: "wcfg \<Rightarrow> int \<Rightarrow> nat \<Rightarrow> 'a wconn_scheme \<Rightarrow> 'a wconn_scheme" where
  "drain_wrote cfg now n c =
     (case cur c of
        None \<Rightarrow> c
      | Some b \<Rightarrow>
          let c = c\<lparr>wire := wire c @ take n b\<rparr>
          in if n < length b then c\<lparr>cur := Some (drop n b)\<rparr> else finishedLocked cfg now c)"

section \<open>The slow-peer rule\<close>

text \<open>
  \<open>checkSlow\<close> up to its unlock: whether the connection is to be closed, which is a section of its
  own (\<open>checkSlow_close\<close>).
\<close>

definition checkSlow :: "wcfg \<Rightarrow> int \<Rightarrow> 'a wconn_scheme \<Rightarrow> bool \<times> 'a wconn_scheme" where
  "checkSlow cfg now c =
     (if closing c \<or> slowTimer c = None then (False, c)
      else if \<not> overLocked cfg c then (False, c\<lparr>slowTimer := None\<rparr>)
      else
        let since = max (fullSince c) (lastDrain c); left = SlowPeer cfg - (now - since)
        in if left > 0 then (False, c\<lparr>slowTimer := Some (now + left)\<rparr>)
           else (True, c\<lparr>slowTimer := None\<rparr>))"

definition checkSlow_close :: "wcfg \<Rightarrow> bytes \<Rightarrow> 'a wconn_scheme \<Rightarrow> 'a wconn_scheme" where
  "checkSlow_close cfg body = closeWith cfg (Some body) False"

text \<open>The end of \<open>finalize\<close>: the reader is done, and closes the socket unless a writer still owns it.\<close>

definition reader_done :: "'a wconn_scheme \<Rightarrow> 'a wconn_scheme" where
  "reader_done c = c\<lparr>readerDone := True, socket_closed := socket_closed c \<or> \<not> writing c\<rparr>"

section \<open>A whole drain\<close>

text \<open>
  \<open>drain\<close> when the socket takes everything and nothing interleaves: the loop, with the frames still
  to be picked as its measure.
\<close>

definition to_pick :: "'a wconn_scheme \<Rightarrow> nat" where
  "to_pick c = (if cur c = None then 0 else 1) + (if pongDue c then 1 else 0) + (if pingDue c then 1 else 0) +
     length (pq c) + length (q c) + (if closeFrame c \<noteq> None \<and> \<not> closeSent c then 1 else 0)"

lemma releaseLocked_same [simp]:
  "cur (releaseLocked cfg c) = cur c" "curKind (releaseLocked cfg c) = curKind c" "curSize (releaseLocked cfg c) = curSize c"
  "pongDue (releaseLocked cfg c) = pongDue c" "pingDue (releaseLocked cfg c) = pingDue c" "pong (releaseLocked cfg c) = pong c"
  "pq (releaseLocked cfg c) = pq c" "q (releaseLocked cfg c) = q c" "queued (releaseLocked cfg c) = queued c"
  "replies (releaseLocked cfg c) = replies c" "writing (releaseLocked cfg c) = writing c" "closing (releaseLocked cfg c) = closing c"
  "closeFrame (releaseLocked cfg c) = closeFrame c" "closeSent (releaseLocked cfg c) = closeSent c"
  "wire (releaseLocked cfg c) = wire c" "socket_closed (releaseLocked cfg c) = socket_closed c" "readerDone (releaseLocked cfg c) = readerDone c"
  by (simp_all add: releaseLocked_def Let_def)

lemma finishedLocked_same [simp]:
  "cur (finishedLocked cfg now c) = None"
  "pongDue (finishedLocked cfg now c) = pongDue c" "pingDue (finishedLocked cfg now c) = pingDue c" "pong (finishedLocked cfg now c) = pong c"
  "pq (finishedLocked cfg now c) = pq c" "q (finishedLocked cfg now c) = q c"
  "writing (finishedLocked cfg now c) = writing c" "closing (finishedLocked cfg now c) = closing c"
  "closeFrame (finishedLocked cfg now c) = closeFrame c" "closeSent (finishedLocked cfg now c) = closeSent c"
  "wire (finishedLocked cfg now c) = wire c" "socket_closed (finishedLocked cfg now c) = socket_closed c" "readerDone (finishedLocked cfg now c) = readerDone c"
  by (simp_all add: finishedLocked_def split: kind.split)

lemma drain_wrote_same [simp]:
  "pongDue (drain_wrote cfg now n c) = pongDue c" "pingDue (drain_wrote cfg now n c) = pingDue c" "pong (drain_wrote cfg now n c) = pong c"
  "pq (drain_wrote cfg now n c) = pq c" "q (drain_wrote cfg now n c) = q c"
  "writing (drain_wrote cfg now n c) = writing c" "closing (drain_wrote cfg now n c) = closing c"
  "closeFrame (drain_wrote cfg now n c) = closeFrame c" "closeSent (drain_wrote cfg now n c) = closeSent c"
  "socket_closed (drain_wrote cfg now n c) = socket_closed c" "readerDone (drain_wrote cfg now n c) = readerDone c"
  by (simp_all add: drain_wrote_def Let_def split: option.split)

lemma drain_wrote_cur:
  "cur c = Some b \<Longrightarrow> cur (drain_wrote cfg now n c) = (if n < length b then Some (drop n b) else None)"
  "cur c = Some b \<Longrightarrow> wire (drain_wrote cfg now n c) = wire c @ take n b"
  by (simp_all add: drain_wrote_def Let_def)

lemma drain_wrote_all [simp]:
  "cur c = Some b \<Longrightarrow> cur (drain_wrote cfg now (length b) c) = None"
  "cur c = Some b \<Longrightarrow> wire (drain_wrote cfg now (length b) c) = wire c @ b"
  by (simp_all add: drain_wrote_cur)

text \<open>What \<open>nextLocked\<close> picks, one case per branch.\<close>

lemma nextLocked_cases [consumes 1, case_names started pong ping own routed close stop]:
  assumes "nextLocked c = (ok, c')"
  obtains (started) b where "ok" "c' = c" "cur c = Some b"
  | (pong) "ok" "cur c = None" "pongDue c"
      "c' = take_frame \<lparr>ob = frameWire OpPong (withHeadroom (pong c)), okind = kindCtl\<rparr> (c\<lparr>pong := [], pongDue := False\<rparr>)"
  | (ping) "ok" "cur c = None" "\<not> pongDue c" "pingDue c"
      "c' = take_frame \<lparr>ob = frameWire OpPing (replicate headroom 0), okind = kindCtl\<rparr> (c\<lparr>pingDue := False\<rparr>)"
  | (own) f fs where "ok" "cur c = None" "\<not> pongDue c" "\<not> pingDue c" "pq c = f # fs" "c' = take_frame f (c\<lparr>pq := fs\<rparr>)"
  | (routed) f fs where "ok" "cur c = None" "\<not> pongDue c" "\<not> pingDue c" "pq c = []" "q c = f # fs" "c' = take_frame f (c\<lparr>q := fs\<rparr>)"
  | (close) body where "ok" "cur c = None" "\<not> pongDue c" "\<not> pingDue c" "pq c = []" "q c = []"
      "closeFrame c = Some body" "\<not> closeSent c"
      "c' = take_frame \<lparr>ob = frameWire OpClose (withHeadroom body), okind = kindClose\<rparr> (c\<lparr>closeSent := True\<rparr>)"
  | (stop) "\<not> ok" "c' = c" "cur c = None" "\<not> pongDue c" "\<not> pingDue c" "pq c = []" "q c = []"
      "closeFrame c = None \<or> closeSent c"
proof -
  note D = assms [unfolded nextLocked_def]
  consider "cur c \<noteq> None" | "cur c = None" "pongDue c" | "cur c = None" "\<not> pongDue c" "pingDue c"
    | "cur c = None" "\<not> pongDue c" "\<not> pingDue c" by blast
  then show ?thesis
  proof cases
    case 1 then show ?thesis using D started by auto
  next
    case 2 then show ?thesis using D pong by auto
  next
    case 3 then show ?thesis using D ping by auto
  next
    case 4
    show ?thesis
    proof (cases "pq c")
      case (Cons f fs) then show ?thesis using D 4 own by auto
    next
      case Nil
      show ?thesis
      proof (cases "q c")
        case (Cons f fs) then show ?thesis using D 4 Nil routed by auto
      next
        case Nil': Nil
        show ?thesis
        proof (cases "closeFrame c = None \<or> closeSent c")
          case True then show ?thesis using D 4 Nil Nil' stop by (auto split: option.splits)
        next
          case False
          then obtain body where "closeFrame c = Some body" "\<not> closeSent c" by auto
          then show ?thesis using D 4 Nil Nil' close by auto
        qed
      qed
    qed
  qed
qed

lemma take_frame_same [simp]:
  "cur (take_frame f c) = Some (ob f)" "curKind (take_frame f c) = okind f" "curSize (take_frame f c) = int (length (ob f))"
  "pongDue (take_frame f c) = pongDue c" "pingDue (take_frame f c) = pingDue c" "pong (take_frame f c) = pong c"
  "pq (take_frame f c) = pq c" "q (take_frame f c) = q c" "queued (take_frame f c) = queued c"
  "replies (take_frame f c) = replies c" "writing (take_frame f c) = writing c" "closing (take_frame f c) = closing c"
  "closeFrame (take_frame f c) = closeFrame c" "closeSent (take_frame f c) = closeSent c"
  "wire (take_frame f c) = wire c" "socket_closed (take_frame f c) = socket_closed c" "readerDone (take_frame f c) = readerDone c"
  by (simp_all add: take_frame_def)

lemma nextLocked_cur: "nextLocked c = (True, c') \<Longrightarrow> \<exists>b. cur c' = Some b"
  by (erule nextLocked_cases) auto

lemma drain_wrote_all_to_pick:
  "nextLocked c = (True, c') \<Longrightarrow> to_pick (drain_wrote cfg now (length (the (cur c'))) c') < to_pick c"
  by (erule nextLocked_cases) (auto simp: to_pick_def)

function drain :: "wcfg \<Rightarrow> int \<Rightarrow> 'a wconn_scheme \<Rightarrow> 'a wconn_scheme" where
  "drain cfg now c =
     (case nextLocked c of
        (False, _) \<Rightarrow> drain_pick c
      | (True, c') \<Rightarrow> drain cfg now (drain_wrote cfg now (length (the (cur c'))) c'))"
  by auto
termination
  by (relation "measure (\<lambda>(cfg, now, c). to_pick c)") (auto simp: drain_wrote_all_to_pick dest: sym)

declare drain.simps [simp del]

definition pong_frame :: "bytes \<Rightarrow> bytes" where
  "pong_frame p = frameWire OpPong (withHeadroom p)"

definition ping_frame :: bytes where
  "ping_frame = frameWire OpPing (replicate headroom 0)"

definition close_frame :: "bytes \<Rightarrow> bytes" where
  "close_frame body = frameWire OpClose (withHeadroom body)"

definition pending_wire :: "'a wconn_scheme \<Rightarrow> bytes" where
  "pending_wire c =
     (case cur c of None \<Rightarrow> [] | Some r \<Rightarrow> r) @
     (if pongDue c then pong_frame (pong c) else []) @ (if pingDue c then ping_frame else []) @
     concat (map ob (pq c)) @ concat (map ob (q c)) @
     (case closeFrame c of None \<Rightarrow> [] | Some body \<Rightarrow> if closeSent c then [] else close_frame body)"

lemma pending_wire_next:
  "nextLocked c = (True, c') \<Longrightarrow> pending_wire c = the (cur c') @ pending_wire (drain_wrote cfg now (length (the (cur c'))) c')"
  by (erule nextLocked_cases) (simp_all add: pending_wire_def pong_frame_def ping_frame_def close_frame_def split: option.split)

lemma nextLocked_wire: "nextLocked c = (True, c') \<Longrightarrow> wire c' = wire c"
  by (erule nextLocked_cases) auto

lemma nextLocked_stop:
  "nextLocked c = (False, c') \<Longrightarrow> c' = c \<and> cur c = None \<and> pq c = [] \<and> q c = [] \<and> pending_wire c = []"
  by (erule nextLocked_cases) (auto simp: pending_wire_def split: option.split)

lemma drain_pick_stop:
  "nextLocked c = (False, c') \<Longrightarrow> drain_pick c = c\<lparr>writing := False, socket_closed := socket_closed c \<or> readerDone c\<rparr>"
  by (frule nextLocked_stop) (simp add: drain_pick_def)

lemma drain_rec:
  "nextLocked c = (True, c') \<Longrightarrow> drain cfg now c = drain cfg now (drain_wrote cfg now (length (the (cur c'))) c')"
  "nextLocked c = (False, c') \<Longrightarrow> drain cfg now c = c\<lparr>writing := False, socket_closed := socket_closed c \<or> readerDone c\<rparr>"
  by (subst drain.simps, simp add: drain_pick_stop)+

section \<open>Runs, with a record of what was accepted and written\<close>

text \<open>
  Auxiliary fields the code does not have, for the properties: the lane and the whole bytes of the
  frame being written, the frames written whole, the frames accepted in each lane, and whether
  queued frames were dropped (a close without flush, a failed write) and whether a write failed.
\<close>

datatype lane = Own | Routed | Other

record gconn = wconn +
  g_lane :: lane
  g_frame :: bytes
  g_out :: "(lane \<times> bytes) list"
  g_own :: "bytes list"
  g_routed :: "bytes list"
  g_dropped :: bool
  g_failed :: bool

definition gconn_init :: gconn where
  "gconn_init = wconn.extend wconn_init
     \<lparr>g_lane = Other, g_frame = [], g_out = [], g_own = [], g_routed = [], g_dropped = False, g_failed = False\<rparr>"

definition lane_of :: "bool \<Rightarrow> lane" where
  "lane_of own = (if own then Own else Routed)"

definition g_enqueue :: "byte \<Rightarrow> bytes \<Rightarrow> kind \<Rightarrow> bool \<Rightarrow> gconn \<Rightarrow> gconn" where
  "g_enqueue op p k own c =
     (case enqueue op p k own c of
        (False, c') \<Rightarrow> c'
      | (True, c') \<Rightarrow>
          let b = frameWire op p;
              c' = (if own then c'\<lparr>g_own := g_own c' @ [b]\<rparr> else c'\<lparr>g_routed := g_routed c' @ [b]\<rparr>)
          in if writing c then c' else c'\<lparr>g_lane := lane_of own, g_frame := b\<rparr>)"

definition pick_lane :: "gconn \<Rightarrow> lane" where
  "pick_lane c = (if pongDue c \<or> pingDue c then Other else if pq c \<noteq> [] then Own
                  else if q c \<noteq> [] then Routed else Other)"

definition g_pick :: "gconn \<Rightarrow> gconn" where
  "g_pick c =
     (let c' = drain_pick c
      in case (cur c, cur c') of
           (None, Some b) \<Rightarrow> c'\<lparr>g_lane := pick_lane c, g_frame := b\<rparr>
         | _ \<Rightarrow> c')"

definition g_wrote :: "wcfg \<Rightarrow> int \<Rightarrow> nat \<Rightarrow> gconn \<Rightarrow> gconn" where
  "g_wrote cfg now n c =
     (let c' = drain_wrote cfg now n c
      in if cur c \<noteq> None \<and> cur c' = None then c'\<lparr>g_out := g_out c' @ [(g_lane c, g_frame c)]\<rparr> else c')"

definition g_error :: "wcfg \<Rightarrow> nat \<Rightarrow> gconn \<Rightarrow> gconn" where
  "g_error cfg n c = (drain_error cfg n c)\<lparr>g_dropped := True, g_failed := True\<rparr>"

definition g_close :: "wcfg \<Rightarrow> bytes option \<Rightarrow> bool \<Rightarrow> gconn \<Rightarrow> gconn" where
  "g_close cfg code flush c =
     (closeWith cfg code flush c)\<lparr>g_dropped := g_dropped c \<or> (\<not> closing c \<and> \<not> flush)\<rparr>"

inductive wstep :: "wcfg \<Rightarrow> gconn \<Rightarrow> gconn \<Rightarrow> bool" for cfg where
  enq: "headroom \<le> length p \<Longrightarrow> k = kindData \<or> k = kindReply \<Longrightarrow> wstep cfg c (g_enqueue op p k own c)"
| judge: "wstep cfg c (enqueue_judge cfg now c)"
| pinged: "wstep cfg c (ping c)"
| ponged: "wstep cfg c (answerPing p c)"
| pick: "writing c \<Longrightarrow> wstep cfg c (g_pick c)"
| wrote: "writing c \<Longrightarrow> cur c = Some b \<Longrightarrow> n \<le> length b \<Longrightarrow> wstep cfg c (g_wrote cfg now n c)"
| failed: "writing c \<Longrightarrow> cur c = Some b \<Longrightarrow> n \<le> length b \<Longrightarrow> wstep cfg c (g_error cfg n c)"
| closed: "wstep cfg c (g_close cfg code flush c)"
| slow: "wstep cfg c (snd (checkSlow cfg now c))"
| reader: "wstep cfg c (reader_done c)"

inductive wreach :: "wcfg \<Rightarrow> gconn \<Rightarrow> bool" for cfg where
  start: "wreach cfg gconn_init"
| next_step: "wreach cfg c \<Longrightarrow> wstep cfg c c' \<Longrightarrow> wreach cfg c'"

section \<open>The invariant\<close>

definition lane_out :: "lane \<Rightarrow> gconn \<Rightarrow> bytes list" where
  "lane_out l c = map snd (filter (\<lambda>f. fst f = l) (g_out c)) @
     (if cur c \<noteq> None \<and> g_lane c = l then [g_frame c] else [])"

definition is_data :: "kind \<Rightarrow> bool" where
  "is_data k \<longleftrightarrow> k = kindData \<or> k = kindReply"

definition frames_bytes :: "outFrame list \<Rightarrow> int" where
  "frames_bytes fs = (\<Sum>f\<leftarrow>fs. int (length (ob f)))"

definition reply_bytes :: "outFrame list \<Rightarrow> int" where
  "reply_bytes fs = (\<Sum>f\<leftarrow>fs. if okind f = kindReply then int (length (ob f)) else 0)"

definition waiting_bytes :: "gconn \<Rightarrow> int" where
  "waiting_bytes c = frames_bytes (pq c) + frames_bytes (q c) +
     (if cur c \<noteq> None \<and> is_data (curKind c) then int (length (g_frame c)) else 0)"

definition waiting_replies :: "gconn \<Rightarrow> int" where
  "waiting_replies c = reply_bytes (pq c) + reply_bytes (q c) +
     (if cur c \<noteq> None \<and> curKind c = kindReply then int (length (g_frame c)) else 0)"

text \<open>The bytes on the wire: whole frames, then the part of one frame that is out.\<close>

definition inv_wire :: "gconn \<Rightarrow> bool" where
  "inv_wire c \<longleftrightarrow>
     (case cur c of
        Some r \<Rightarrow> \<exists>pre. wire c = concat (map snd (g_out c)) @ pre \<and> pre @ r = g_frame c
      | None \<Rightarrow> \<exists>pre. wire c = concat (map snd (g_out c)) @ pre \<and> (pre = [] \<or> g_failed c \<and> prefix pre (g_frame c)))"

text \<open>Each lane leaves in the order it was accepted, nothing lost unless frames were dropped.\<close>

definition inv_lane :: "lane \<Rightarrow> bytes list \<Rightarrow> outFrame list \<Rightarrow> gconn \<Rightarrow> bool" where
  "inv_lane l acc waiting c \<longleftrightarrow>
     prefix (lane_out l c) acc \<and> (\<not> g_dropped c \<longrightarrow> lane_out l c @ map ob waiting = acc)"

definition inv_counts :: "gconn \<Rightarrow> bool" where
  "inv_counts c \<longleftrightarrow> 0 \<le> queued c \<and> 0 \<le> replies c \<and>
     (\<not> g_dropped c \<longrightarrow> queued c = waiting_bytes c \<and> replies c = waiting_replies c) \<and>
     (cur c \<noteq> None \<longrightarrow> curSize c = int (length (g_frame c)))"

definition inv_idle :: "gconn \<Rightarrow> bool" where
  "inv_idle c \<longleftrightarrow> (\<not> writing c \<longrightarrow> cur c = None \<and> \<not> pingDue c \<and> \<not> pongDue c \<and>
     (\<not> g_failed c \<longrightarrow> pq c = [] \<and> q c = [] \<and> (closeFrame c = None \<or> closeSent c)))"

definition inv_closing :: "gconn \<Rightarrow> bool" where
  "inv_closing c \<longleftrightarrow>
     (closing c \<longrightarrow> \<not> pingDue c \<and> \<not> pongDue c) \<and>
     (g_dropped c \<longrightarrow> closing c \<and> (g_failed c \<or> pq c = [] \<and> q c = [])) \<and>
     (g_failed c \<longrightarrow> \<not> writing c \<and> g_dropped c \<and> closing c) \<and>
     (closeFrame c \<noteq> None \<longrightarrow> closing c) \<and>
     (cur c \<noteq> None \<longrightarrow> (g_lane c = Other \<longleftrightarrow> \<not> is_data (curKind c))) \<and>
     list_all (\<lambda>f. is_data (okind f)) (pq c) \<and> list_all (\<lambda>f. is_data (okind f)) (q c)"

text \<open>The close frame, once picked, is the last frame: nothing is left to write after it.\<close>

definition inv_last :: "gconn \<Rightarrow> bool" where
  "inv_last c \<longleftrightarrow> (closeSent c \<and> \<not> g_failed c \<longrightarrow> pq c = [] \<and> q c = [] \<and>
     (\<exists>body. closeFrame c = Some body \<and>
        (if cur c \<noteq> None then g_lane c = Other \<and> g_frame c = close_frame body
         else g_out c \<noteq> [] \<and> last (g_out c) = (Other, close_frame body))))"

definition winv :: "gconn \<Rightarrow> bool" where
  "winv c \<longleftrightarrow> inv_wire c \<and> inv_lane Own (g_own c) (pq c) c \<and> inv_lane Routed (g_routed c) (q c) c \<and>
     inv_counts c \<and> inv_idle c \<and> inv_closing c \<and> inv_last c"

lemmas inv_defs = inv_wire_def inv_lane_def lane_out_def inv_counts_def waiting_bytes_def waiting_replies_def inv_idle_def
  inv_closing_def inv_last_def

lemma winvI:
  "\<lbrakk>inv_wire c; inv_lane Own (g_own c) (pq c) c; inv_lane Routed (g_routed c) (q c) c; inv_counts c; inv_idle c; inv_closing c;
    inv_last c\<rbrakk> \<Longrightarrow> winv c"
  by (simp add: winv_def)

lemma frames_bytes_simps [simp]:
  "frames_bytes [] = 0" "frames_bytes (f # fs) = int (length (ob f)) + frames_bytes fs"
  "frames_bytes (fs @ [f]) = frames_bytes fs + int (length (ob f))"
  by (simp_all add: frames_bytes_def)

lemma reply_bytes_simps [simp]:
  "reply_bytes [] = 0"
  "reply_bytes (f # fs) = (if okind f = kindReply then int (length (ob f)) else 0) + reply_bytes fs"
  "reply_bytes (fs @ [f]) = reply_bytes fs + (if okind f = kindReply then int (length (ob f)) else 0)"
  by (simp_all add: reply_bytes_def)

lemma winv_init: "winv gconn_init"
  by (simp add: winv_def inv_defs gconn_init_def wconn_init_def wconn.defs)

lemma winv_timers [simp]:
  "winv (c\<lparr>fullSince := x\<rparr>) = winv c" "winv (c\<lparr>slowTimer := y\<rparr>) = winv c" "winv (c\<lparr>below := z\<rparr>) = winv c"
  "winv (c\<lparr>lastDrain := x\<rparr>) = winv c" "winv (c\<lparr>readerDone := z\<rparr>) = winv c" "winv (c\<lparr>socket_closed := z\<rparr>) = winv c"
  by (simp_all add: winv_def inv_defs cong: option.case_cong)

lemma winv_releaseLocked [simp]: "winv (releaseLocked cfg c) = winv c"
  by (simp add: releaseLocked_def Let_def)

lemma winv_judge: "winv c \<Longrightarrow> winv (enqueue_judge cfg now c)"
  by (simp add: enqueue_judge_def)

lemma winv_reader: "winv c \<Longrightarrow> winv (reader_done c)"
  by (simp add: reader_done_def)

lemma winv_checkSlow: "winv c \<Longrightarrow> winv (snd (checkSlow cfg now c))"
  by (simp add: checkSlow_def Let_def)

lemma inv_due [simp]:
  "inv_wire (c\<lparr>writing := z\<rparr>) = inv_wire c" "inv_wire (c\<lparr>pingDue := z\<rparr>) = inv_wire c"
  "inv_wire (c\<lparr>pong := p\<rparr>) = inv_wire c" "inv_wire (c\<lparr>pongDue := z\<rparr>) = inv_wire c" "inv_wire (c\<lparr>closing := z\<rparr>) = inv_wire c"
  "inv_wire (c\<lparr>closeFrame := f\<rparr>) = inv_wire c" "inv_wire (c\<lparr>queued := n\<rparr>) = inv_wire c" "inv_wire (c\<lparr>replies := n\<rparr>) = inv_wire c"
  "inv_wire (c\<lparr>pq := fs\<rparr>) = inv_wire c" "inv_wire (c\<lparr>q := fs\<rparr>) = inv_wire c"
  "inv_lane l acc w (c\<lparr>writing := z\<rparr>) = inv_lane l acc w c" "inv_lane l acc w (c\<lparr>pingDue := z\<rparr>) = inv_lane l acc w c"
  "inv_lane l acc w (c\<lparr>pong := p\<rparr>) = inv_lane l acc w c" "inv_lane l acc w (c\<lparr>pongDue := z\<rparr>) = inv_lane l acc w c"
  "inv_lane l acc w (c\<lparr>closing := z\<rparr>) = inv_lane l acc w c" "inv_lane l acc w (c\<lparr>closeFrame := f\<rparr>) = inv_lane l acc w c"
  "inv_lane l acc w (c\<lparr>queued := n\<rparr>) = inv_lane l acc w c" "inv_lane l acc w (c\<lparr>replies := n\<rparr>) = inv_lane l acc w c"
  "inv_lane l acc w (c\<lparr>pq := fs\<rparr>) = inv_lane l acc w c" "inv_lane l acc w (c\<lparr>q := fs\<rparr>) = inv_lane l acc w c"
  "inv_counts (c\<lparr>writing := z\<rparr>) = inv_counts c" "inv_counts (c\<lparr>pingDue := z\<rparr>) = inv_counts c"
  "inv_counts (c\<lparr>pong := p\<rparr>) = inv_counts c" "inv_counts (c\<lparr>pongDue := z\<rparr>) = inv_counts c"
  "inv_counts (c\<lparr>closing := z\<rparr>) = inv_counts c" "inv_counts (c\<lparr>closeFrame := f\<rparr>) = inv_counts c"
  "inv_last (c\<lparr>writing := z\<rparr>) = inv_last c" "inv_last (c\<lparr>pingDue := z\<rparr>) = inv_last c"
  "inv_last (c\<lparr>pong := p\<rparr>) = inv_last c" "inv_last (c\<lparr>pongDue := z\<rparr>) = inv_last c" "inv_last (c\<lparr>closing := z\<rparr>) = inv_last c"
  "inv_last (c\<lparr>queued := n\<rparr>) = inv_last c" "inv_last (c\<lparr>replies := n\<rparr>) = inv_last c"
  by (simp_all add: inv_defs cong: option.case_cong)

lemma winv_ping: "winv c \<Longrightarrow> winv (ping c)"
  by (auto simp: winv_def ping_def kickLocked_def inv_idle_def inv_closing_def)

lemma winv_answerPing: "winv c \<Longrightarrow> winv (answerPing p c)"
  by (auto simp: winv_def answerPing_def kickLocked_def inv_idle_def inv_closing_def)

lemma g_enqueue_refused: "closing c \<Longrightarrow> g_enqueue op p k own c = c"
  by (simp add: g_enqueue_def enqueue_def Let_def)

text \<open>Accepted with no writer: the frame is the one being written; with one: it joins its lane.\<close>

lemma g_enqueue_now:
  "\<not> closing c \<Longrightarrow> \<not> writing c \<Longrightarrow> g_enqueue op p k own c =
     c\<lparr>cur := Some (frameWire op p), curKind := k, curSize := int (length (frameWire op p)),
       queued := queued c + int (length (frameWire op p)),
       replies := replies c + (if k = kindReply then int (length (frameWire op p)) else 0), writing := True,
       g_lane := lane_of own, g_frame := frameWire op p,
       g_own := g_own c @ (if own then [frameWire op p] else []),
       g_routed := g_routed c @ (if own then [] else [frameWire op p])\<rparr>"
  by (simp add: g_enqueue_def enqueue_def Let_def kickLocked_def)

lemma g_enqueue_wait:
  "\<not> closing c \<Longrightarrow> writing c \<Longrightarrow> g_enqueue op p k own c =
     c\<lparr>pq := pq c @ (if own then [\<lparr>ob = frameWire op p, okind = k\<rparr>] else []),
       q := q c @ (if own then [] else [\<lparr>ob = frameWire op p, okind = k\<rparr>]),
       queued := queued c + int (length (frameWire op p)),
       replies := replies c + (if k = kindReply then int (length (frameWire op p)) else 0),
       g_own := g_own c @ (if own then [frameWire op p] else []),
       g_routed := g_routed c @ (if own then [] else [frameWire op p])\<rparr>"
  by (simp add: g_enqueue_def enqueue_def Let_def kickLocked_def)

lemma winv_idle_facts:
  assumes "winv c" "\<not> closing c" "\<not> writing c"
  shows "cur c = None" "pq c = []" "q c = []" "\<not> pingDue c" "\<not> pongDue c" "\<not> g_dropped c" "\<not> g_failed c"
    "closeFrame c = None" "\<not> closeSent c" "wire c = concat (map snd (g_out c))"
    "g_own c = map snd (filter (\<lambda>f. fst f = Own) (g_out c))"
    "g_routed c = map snd (filter (\<lambda>f. fst f = Routed) (g_out c))" "queued c = 0" "replies c = 0"
proof -
  have I: "inv_idle c" "inv_closing c" "inv_last c" "inv_wire c" "inv_counts c"
    "inv_lane Own (g_own c) (pq c) c" "inv_lane Routed (g_routed c) (q c) c"
    using assms(1) by (simp_all add: winv_def)
  show 1: "cur c = None" "\<not> pingDue c" "\<not> pongDue c" using I(1) assms by (auto simp: inv_idle_def)
  show 2: "\<not> g_dropped c" "\<not> g_failed c" "closeFrame c = None" using I(2) assms by (auto simp: inv_closing_def)
  show 3: "pq c = []" "q c = []" using I(1) 2 assms by (auto simp: inv_idle_def)
  show "\<not> closeSent c" using I(3) 2 by (auto simp: inv_last_def)
  show "wire c = concat (map snd (g_out c))" using I(4) 1 2 by (auto simp: inv_wire_def)
  show "g_own c = map snd (filter (\<lambda>f. fst f = Own) (g_out c))" using I(6) 1 2 3 by (auto simp: inv_lane_def lane_out_def)
  show "g_routed c = map snd (filter (\<lambda>f. fst f = Routed) (g_out c))" using I(7) 1 2 3 by (auto simp: inv_lane_def lane_out_def)
  show "queued c = 0" "replies c = 0" using I(5) 1 2 3 by (auto simp: inv_counts_def waiting_bytes_def waiting_replies_def)
qed

lemma winv_enqueue_now:
  assumes "winv c" "\<not> closing c" "\<not> writing c" "is_data k"
  shows "winv (g_enqueue op p k own c)"
  unfolding g_enqueue_now [OF assms(2,3)]
  by (rule winvI; simp add: inv_defs winv_idle_facts [OF assms(1-3)] assms(2-4) lane_of_def)

lemma winv_open_facts:
  assumes "winv c" "\<not> closing c"
  shows "\<not> g_dropped c" "\<not> g_failed c" "closeFrame c = None" "\<not> closeSent c"
  using assms by (auto simp: winv_def inv_closing_def inv_last_def)

lemma winv_enqueue_wait:
  assumes W: "winv c" "\<not> closing c" "writing c" "is_data k"
  shows "winv (g_enqueue op p k own c)"
proof -
  have I: "inv_idle c" "inv_closing c" "inv_wire c" "inv_counts c"
    "inv_lane Own (g_own c) (pq c) c" "inv_lane Routed (g_routed c) (q c) c"
    using assms(1) by (simp_all add: winv_def)
  note F = winv_open_facts [OF W(1,2)] W(2-4)
  show ?thesis
    unfolding g_enqueue_wait [OF W(2,3)]
  proof (rule winvI, goal_cases)
    case 1 then show ?case using I(3) by (simp add: inv_wire_def cong: option.case_cong)
  next
    case 2 then show ?case using I(5) F by (auto simp: inv_lane_def lane_out_def)
  next
    case 3 then show ?case using I(6) F by (auto simp: inv_lane_def lane_out_def)
  next
    case 4 then show ?case using I(4) F by (auto simp: inv_counts_def waiting_bytes_def waiting_replies_def)
  next
    case 5 then show ?case using F by (simp add: inv_idle_def)
  next
    case 6 then show ?case using I(2) F by (simp add: inv_closing_def)
  next
    case 7 then show ?case using F by (simp add: inv_last_def)
  qed
qed

lemma winv_enqueue: "winv c \<Longrightarrow> is_data k \<Longrightarrow> winv (g_enqueue op p k own c)"
  using winv_enqueue_now winv_enqueue_wait g_enqueue_refused by metis
lemma winv_parts:
  assumes "winv c"
  shows "inv_wire c" "inv_lane Own (g_own c) (pq c) c" "inv_lane Routed (g_routed c) (q c) c" "inv_counts c" "inv_idle c"
    "inv_closing c" "inv_last c"
  using assms by (simp_all add: winv_def)

text \<open>Picking: nothing due, the frame already started, or a new frame, which starts whole.\<close>

lemma g_pick_started: "cur c = Some b \<Longrightarrow> g_pick c = c"
  by (simp add: g_pick_def drain_pick_def nextLocked_def)

lemma g_pick_stop:
  "nextLocked c = (False, c') \<Longrightarrow> g_pick c = c\<lparr>writing := False, socket_closed := socket_closed c \<or> readerDone c\<rparr>"
  by (frule nextLocked_stop) (simp add: g_pick_def drain_pick_stop)

lemma g_pick_take:
  "nextLocked c = (True, take_frame f c') \<Longrightarrow> cur c = None \<Longrightarrow>
     g_pick c = (take_frame f c')\<lparr>g_lane := pick_lane c, g_frame := ob f\<rparr>"
  by (simp add: g_pick_def drain_pick_def)

lemma take_frame_more [simp]:
  "g_out (take_frame f c) = g_out c" "g_own (take_frame f c) = g_own c" "g_routed (take_frame f c) = g_routed c"
  "g_dropped (take_frame f c) = g_dropped c" "g_failed (take_frame f c) = g_failed c"
  by (simp_all add: take_frame_def)

lemma inv_wire_take: "inv_wire c \<Longrightarrow> cur c = None \<Longrightarrow> \<not> g_failed c \<Longrightarrow> cur c' = Some (g_frame c') \<Longrightarrow> wire c' = wire c \<Longrightarrow>
   g_out c' = g_out c \<Longrightarrow> inv_wire c'"
  by (simp add: inv_wire_def)

lemma winv_pick_ctl:
  assumes W: "winv c" "cur c = None" "\<not> closing c" "\<not> is_data (okind f)"
    and c': "c' = (take_frame f (c\<lparr>pong := p, pongDue := d, pingDue := e\<rparr>))\<lparr>g_lane := Other, g_frame := ob f\<rparr>" "writing c"
  shows "winv c'"
proof -
  note I = winv_parts [OF W(1)] and F = winv_open_facts [OF W(1,3)] W(2-4)
  have K: "okind f \<noteq> kindReply" using W(4) by (auto simp: is_data_def)
  show ?thesis
  proof (rule winvI, goal_cases)
    case 1 show ?case using I(1) F(1-2,5) by (rule_tac inv_wire_take [of c]) (simp_all add: c')
  next
    case 2 show ?case unfolding c'(1) using I(2) F c'(2) by (simp add: inv_lane_def lane_out_def)
  next
    case 3 show ?case unfolding c'(1) using I(3) F c'(2) by (simp add: inv_lane_def lane_out_def)
  next
    case 4 show ?case unfolding c'(1) using I(4) F c'(2) K by (simp add: inv_counts_def waiting_bytes_def waiting_replies_def)
  next
    case 5 show ?case unfolding c'(1) using F c'(2) by (simp add: inv_idle_def)
  next
    case 6 show ?case unfolding c'(1) using I(6) F c'(2) by (simp add: inv_closing_def)
  next
    case 7 show ?case unfolding c'(1) using F c'(2) by (simp add: inv_last_def)
  qed
qed
lemma winv_pick_facts:
  assumes "winv c" "writing c"
  shows "\<not> g_failed c"
  using assms by (auto simp: winv_def inv_closing_def)

lemma prefix_picked: "xs @ y # ys = zs \<Longrightarrow> prefix (xs @ [y]) zs"
  by (auto simp: prefix_def)

lemma winv_pick_own:
  assumes W: "winv c" "cur c = None" "writing c" "pq c = f # fs"
    and c': "c' = (take_frame f (c\<lparr>pq := fs\<rparr>))\<lparr>g_lane := Own, g_frame := ob f\<rparr>"
  shows "winv c'"
proof -
  note I = winv_parts [OF W(1)] and F = winv_pick_facts [OF W(1,3)] W(2-4)
  have D: "\<not> g_dropped c" "is_data (okind f)" using I(6) F by (auto simp: inv_closing_def)
  show ?thesis
  proof (rule winvI, goal_cases)
    case 1 show ?case using I(1) F(1,2) by (rule_tac inv_wire_take [of c]) (simp_all add: c')
  next
    case 2 show ?case unfolding c' using I(2) F D by (auto simp: inv_lane_def lane_out_def intro: prefix_picked)
  next
    case 3 show ?case unfolding c' using I(3) F D by (simp add: inv_lane_def lane_out_def)
  next
    case 4 show ?case unfolding c' using I(4) F D by (simp add: inv_counts_def waiting_bytes_def waiting_replies_def)
  next
    case 5 show ?case unfolding c' using F by (simp add: inv_idle_def)
  next
    case 6 show ?case unfolding c' using I(6) F D by (simp add: inv_closing_def)
  next
    case 7 show ?case unfolding c' using I(7) F by (simp add: inv_last_def)
  qed
qed

lemma winv_pick_routed:
  assumes W: "winv c" "cur c = None" "writing c" "q c = f # fs"
    and c': "c' = (take_frame f (c\<lparr>q := fs\<rparr>))\<lparr>g_lane := Routed, g_frame := ob f\<rparr>"
  shows "winv c'"
proof -
  note I = winv_parts [OF W(1)] and F = winv_pick_facts [OF W(1,3)] W(2-4)
  have D: "\<not> g_dropped c" "is_data (okind f)" using I(6) F by (auto simp: inv_closing_def)
  show ?thesis
  proof (rule winvI, goal_cases)
    case 1 show ?case using I(1) F(1,2) by (rule_tac inv_wire_take [of c]) (simp_all add: c')
  next
    case 2 show ?case unfolding c' using I(2) F D by (simp add: inv_lane_def lane_out_def)
  next
    case 3 show ?case unfolding c' using I(3) F D by (auto simp: inv_lane_def lane_out_def intro: prefix_picked)
  next
    case 4 show ?case unfolding c' using I(4) F D by (simp add: inv_counts_def waiting_bytes_def waiting_replies_def)
  next
    case 5 show ?case unfolding c' using F by (simp add: inv_idle_def)
  next
    case 6 show ?case unfolding c' using I(6) F D by (simp add: inv_closing_def)
  next
    case 7 show ?case unfolding c' using I(7) F by (simp add: inv_last_def)
  qed
qed

lemma winv_pick_close:
  assumes W: "winv c" "cur c = None" "writing c" "pq c = []" "q c = []" "closeFrame c = Some body"
    and c': "c' = (take_frame \<lparr>ob = close_frame body, okind = kindClose\<rparr> (c\<lparr>closeSent := True\<rparr>))
                    \<lparr>g_lane := Other, g_frame := close_frame body\<rparr>"
  shows "winv c'"
proof -
  note I = winv_parts [OF W(1)] and F = winv_pick_facts [OF W(1,3)] W(2-6)
  have K: "\<not> is_data kindClose" by (simp add: is_data_def)
  show ?thesis
  proof (rule winvI, goal_cases)
    case 1 show ?case using I(1) F(1,2) by (rule_tac inv_wire_take [of c]) (simp_all add: c')
  next
    case 2 show ?case unfolding c' using I(2) F by (simp add: inv_lane_def lane_out_def)
  next
    case 3 show ?case unfolding c' using I(3) F by (simp add: inv_lane_def lane_out_def)
  next
    case 4 show ?case unfolding c' using I(4) F K by (simp add: inv_counts_def waiting_bytes_def waiting_replies_def)
  next
    case 5 show ?case unfolding c' using F by (simp add: inv_idle_def)
  next
    case 6 show ?case unfolding c' using I(6) F K by (simp add: inv_closing_def)
  next
    case 7 show ?case unfolding c' using I(7) F by (simp add: inv_last_def)
  qed
qed

lemma winv_pick_stop:
  assumes W: "winv c" "writing c" and N: "nextLocked c = (False, c')"
  shows "winv (g_pick c)"
proof -
  have "cur c = None" "pq c = []" "q c = []" "\<not> pingDue c" "\<not> pongDue c" "closeFrame c = None \<or> closeSent c"
    using N by (auto elim: nextLocked_cases)
  with winv_parts [OF W(1)] have "winv (c\<lparr>writing := False\<rparr>)"
    by (intro winvI) (simp_all add: inv_idle_def inv_closing_def)
  then show ?thesis using N by (simp add: g_pick_stop)
qed

lemma winv_pick:
  assumes W: "winv c" "writing c"
  shows "winv (g_pick c)"
proof (cases "nextLocked c")
  case (Pair ok c')
  from Pair show ?thesis
  proof (cases rule: nextLocked_cases)
    case (started b) then show ?thesis using W by (simp add: g_pick_started)
  next
    case pong
    let ?f = "\<lparr>ob = frameWire OpPong (withHeadroom (pong c)), okind = kindCtl\<rparr>"
    have O: "\<not> closing c" using W(1) pong by (auto simp: winv_def inv_closing_def)
    have "g_pick c = (take_frame ?f (c\<lparr>pong := [], pongDue := False, pingDue := pingDue c\<rparr>))\<lparr>g_lane := Other, g_frame := ob ?f\<rparr>"
      using Pair pong by (simp add: g_pick_take pick_lane_def)
    from winv_pick_ctl [OF W(1) pong(2) O _ this W(2)] show ?thesis by (simp add: is_data_def)
  next
    case ping
    let ?f = "\<lparr>ob = frameWire OpPing (replicate headroom 0), okind = kindCtl\<rparr>"
    have O: "\<not> closing c" using W(1) ping by (auto simp: winv_def inv_closing_def)
    have U: "c\<lparr>pong := pong c, pongDue := pongDue c, pingDue := False\<rparr> = c\<lparr>pingDue := False\<rparr>" by simp
    have "g_pick c = (take_frame ?f (c\<lparr>pong := pong c, pongDue := pongDue c, pingDue := False\<rparr>))\<lparr>g_lane := Other, g_frame := ob ?f\<rparr>"
      unfolding U using Pair ping by (simp add: g_pick_take pick_lane_def)
    from winv_pick_ctl [OF W(1) ping(2) O _ this W(2)] show ?thesis by (simp add: is_data_def)
  next
    case (own f fs)
    have "g_pick c = (take_frame f (c\<lparr>pq := fs\<rparr>))\<lparr>g_lane := Own, g_frame := ob f\<rparr>"
      using Pair own by (simp add: g_pick_take pick_lane_def)
    from winv_pick_own [OF W(1) own(2) W(2) own(5) this] show ?thesis .
  next
    case (routed f fs)
    have "g_pick c = (take_frame f (c\<lparr>q := fs\<rparr>))\<lparr>g_lane := Routed, g_frame := ob f\<rparr>"
      using Pair routed by (simp add: g_pick_take pick_lane_def)
    from winv_pick_routed [OF W(1) routed(2) W(2) routed(6) this] show ?thesis .
  next
    case (close body)
    have "g_pick c = (take_frame \<lparr>ob = close_frame body, okind = kindClose\<rparr> (c\<lparr>closeSent := True\<rparr>))
                    \<lparr>g_lane := Other, g_frame := close_frame body\<rparr>"
      using Pair close by (simp add: g_pick_take pick_lane_def close_frame_def)
    from winv_pick_close [OF W(1) close(2) W(2) close(5-7) this] show ?thesis .
  next
    case stop
    then show ?thesis using Pair W winv_pick_stop by metis
  qed
qed
text \<open>Writing part or all of the frame.\<close>

lemma winv_wrote_part:
  assumes W: "winv c" "cur c = Some b" "n < length b"
  shows "winv (g_wrote cfg now n c)"
proof -
  have E: "g_wrote cfg now n c = c\<lparr>wire := wire c @ take n b, cur := Some (drop n b)\<rparr>"
    using W by (simp add: g_wrote_def drain_wrote_def Let_def)
  note I = winv_parts [OF W(1)]
  from I(1) obtain pre where P: "wire c = concat (map snd (g_out c)) @ pre" "pre @ b = g_frame c"
    using W(2) by (auto simp: inv_wire_def)
  show ?thesis
    unfolding E
  proof (rule winvI, goal_cases)
    case 1 show ?case using P by (simp add: inv_wire_def)
  next
    case 2 show ?case using I(2) W(2) by (auto simp: inv_lane_def lane_out_def)
  next
    case 3 show ?case using I(3) W(2) by (auto simp: inv_lane_def lane_out_def)
  next
    case 4 show ?case using I(4) W(2) by (simp add: inv_counts_def waiting_bytes_def waiting_replies_def)
  next
    case 5 show ?case using I(5) W(2) by (auto simp: inv_idle_def)
  next
    case 6 show ?case using I(6) W(2) by (simp add: inv_closing_def)
  next
    case 7 show ?case using I(7) W(2) by (simp add: inv_last_def)
  qed
qed

lemma finishedLocked_more [simp]:
  "g_out (finishedLocked cfg now c) = g_out c" "g_own (finishedLocked cfg now c) = g_own c"
  "g_routed (finishedLocked cfg now c) = g_routed c" "g_dropped (finishedLocked cfg now c) = g_dropped c"
  "g_failed (finishedLocked cfg now c) = g_failed c" "g_lane (finishedLocked cfg now c) = g_lane c"
  "g_frame (finishedLocked cfg now c) = g_frame c"
  by (simp_all add: finishedLocked_def releaseLocked_def Let_def split: kind.split)

lemma finishedLocked_counts:
  "queued (finishedLocked cfg now c) = (if is_data (curKind c) then max 0 (queued c - curSize c) else queued c)"
  "replies (finishedLocked cfg now c) = (if curKind c = kindReply then max 0 (replies c - curSize c) else replies c)"
  by (simp_all add: finishedLocked_def is_data_def split: kind.split)

lemma bytes_nonneg [simp]: "0 \<le> frames_bytes fs" "0 \<le> reply_bytes fs"
  by (induction fs) (auto simp: frames_bytes_def reply_bytes_def)

lemma winv_wrote_all:
  assumes W: "winv c" "cur c = Some b" "writing c"
  shows "winv (g_wrote cfg now (length b) c)"
proof -
  let ?c = "finishedLocked cfg now (c\<lparr>wire := wire c @ b\<rparr>)"
  have E: "g_wrote cfg now (length b) c = ?c\<lparr>g_out := g_out c @ [(g_lane c, g_frame c)]\<rparr>"
    using W by (simp add: g_wrote_def drain_wrote_def Let_def)
  note I = winv_parts [OF W(1)] and R = finishedLocked_counts
  from I(1) obtain pre where P: "wire c = concat (map snd (g_out c)) @ pre" "pre @ b = g_frame c"
    using W(2) by (auto simp: inv_wire_def)
  show ?thesis
    unfolding E
  proof (rule winvI, goal_cases)
    case 1 show ?case using P by (simp add: inv_wire_def)
  next
    case 2 show ?case using I(2) W(2) by (auto simp: inv_lane_def lane_out_def)
  next
    case 3 show ?case using I(3) W(2) by (auto simp: inv_lane_def lane_out_def)
  next
    case 4 show ?case using I(4) W(2) by (auto simp: inv_counts_def waiting_bytes_def waiting_replies_def R)
  next
    case 5 show ?case using W(3) by (simp add: inv_idle_def)
  next
    case 6 show ?case using I(6) W(2) by (simp add: inv_closing_def)
  next
    case 7 show ?case using I(7) W(2) by (auto simp: inv_last_def)
  qed
qed

text \<open>A failed write, and a close: the fields \<open>beginCloseLocked\<close> leaves.\<close>

lemma beginCloseLocked_fields:
  assumes "beginCloseLocked cfg flush c = (ok, c')"
  shows "cur c' = cur c" "curKind c' = curKind c" "curSize c' = curSize c" "wire c' = wire c" "writing c' = writing c"
    "closeFrame c' = closeFrame c" "closeSent c' = closeSent c" "closing c'"
    "ok \<longleftrightarrow> \<not> closing c" "\<not> ok \<Longrightarrow> c' = c" "ok \<Longrightarrow> \<not> pingDue c' \<and> \<not> pongDue c'"
    "pq c' = (if ok \<and> \<not> flush then [] else pq c)" "q c' = (if ok \<and> \<not> flush then [] else q c)"
    "queued c' = (if ok \<and> \<not> flush then 0 else queued c)" "replies c' = (if ok \<and> \<not> flush then 0 else replies c)"
  using assms by (auto simp: beginCloseLocked_def Let_def split: if_splits)

lemma beginCloseLocked_more:
  assumes "beginCloseLocked cfg flush c = (ok, c')"
  shows "g_lane c' = g_lane c" "g_frame c' = g_frame c" "g_out c' = g_out c" "g_own c' = g_own c" "g_routed c' = g_routed c"
    "g_dropped c' = g_dropped c" "g_failed c' = g_failed c"
  using assms by (auto simp: beginCloseLocked_def releaseLocked_def Let_def split: if_splits)

lemma winv_error:
  assumes W: "winv c" "cur c = Some b" "writing c"
  shows "winv (g_error cfg n c)"
proof -
  obtain ok c' where B: "beginCloseLocked cfg False (c\<lparr>wire := wire c @ take n b\<rparr>) = (ok, c')" by fastforce
  note F = beginCloseLocked_fields [OF B, simplified] beginCloseLocked_more [OF B, simplified]
  have E: "g_error cfg n c =
      c'\<lparr>cur := None, closeSent := True, writing := False, socket_closed := True, g_dropped := True, g_failed := True\<rparr>"
    using W(2) B by (simp add: g_error_def drain_error_def)
  note I = winv_parts [OF W(1)]
  from I(1) obtain pre where P: "wire c = concat (map snd (g_out c)) @ pre" "pre @ b = g_frame c"
    using W(2) by (auto simp: inv_wire_def)
  have pre: "prefix (pre @ take n b) (g_frame c)"
    unfolding P(2) [symmetric] by (simp add: take_is_prefix)
  have L: "\<not> pingDue c' \<and> \<not> pongDue c'" using F(9-11) I(6) by (cases ok) (auto simp: inv_closing_def)
  show ?thesis
    unfolding E
  proof (rule winvI, goal_cases)
    case 1 show ?case using P(1) pre by (simp add: inv_wire_def F(1-8,16-22))
  next
    case 2 show ?case using I(2) W(2) by (auto simp: inv_lane_def lane_out_def F(1-8,16-22) dest: append_prefixD split: if_splits)
  next
    case 3 show ?case using I(3) W(2) by (auto simp: inv_lane_def lane_out_def F(1-8,16-22) dest: append_prefixD split: if_splits)
  next
    case 4 show ?case using I(4) by (simp add: inv_counts_def F(12-15))
  next
    case 5 show ?case using L by (simp add: inv_idle_def)
  next
    case 6 show ?case using L I(6) by (simp add: inv_closing_def F(8,12-13))
  next
    case 7 show ?case by (simp add: inv_last_def)
  qed
qed

lemma winv_begin_close:
  assumes W: "winv c" and B: "beginCloseLocked cfg flush c = (True, c')"
  shows "winv (c'\<lparr>g_dropped := g_dropped c \<or> \<not> flush\<rparr>)"
proof -
  note F = beginCloseLocked_fields [OF B, simplified] beginCloseLocked_more [OF B, simplified]
  note O = winv_open_facts [OF W F(9)]
  note I = winv_parts [OF W(1)]
  show ?thesis
  proof (rule winvI, goal_cases)
    case 1 show ?case using I(1) by (simp add: inv_wire_def F cong: option.case_cong)
  next
    case 2 show ?case using I(2) O by (auto simp: inv_lane_def lane_out_def F)
  next
    case 3 show ?case using I(3) O by (auto simp: inv_lane_def lane_out_def F)
  next
    case 4 show ?case using I(4) O by (simp add: inv_counts_def waiting_bytes_def waiting_replies_def F)
  next
    case 5 show ?case using I(5) O by (auto simp: inv_idle_def F)
  next
    case 6 show ?case using I(6) O by (simp add: inv_closing_def F)
  next
    case 7 show ?case using O by (simp add: inv_last_def F)
  qed
qed

lemma winv_closeFrame:
  assumes W: "winv c" "closing c" "\<not> closeSent c" "\<not> g_failed c"
  shows "winv (c\<lparr>closeFrame := Some body, writing := True\<rparr>)"
  using W by (auto simp: winv_def inv_idle_def inv_closing_def inv_last_def)

lemma winv_close: "winv c \<Longrightarrow> winv (g_close cfg code flush c)"
proof (cases "beginCloseLocked cfg flush c")
  case (Pair ok c')
  assume W: "winv c"
  note F = beginCloseLocked_fields [OF Pair] beginCloseLocked_more [OF Pair]
  show ?thesis
  proof (cases ok)
    case False
    then have "g_close cfg code flush c = c" using Pair F(9,10) by (simp add: g_close_def closeWith_def)
    with W show ?thesis by simp
  next
    case True
    let ?c = "c'\<lparr>g_dropped := g_dropped c \<or> \<not> flush\<rparr>"
    have C: "\<not> closing c" using True F(9) by simp
    have "g_close cfg code flush c = (case code of None \<Rightarrow> ?c | Some body \<Rightarrow> ?c\<lparr>closeFrame := Some body, writing := True\<rparr>)"
      using True Pair C by (simp add: g_close_def closeWith_def kickLocked_def split: option.split)
    moreover have "winv ?c" using winv_begin_close W Pair True by simp
    moreover have "closing ?c" "\<not> closeSent ?c" "\<not> g_failed ?c" using F winv_open_facts [OF W C] by simp_all
    ultimately show ?thesis using winv_closeFrame [of ?c] by (simp split: option.split)
  qed
qed

lemma winv_wrote: "winv c \<Longrightarrow> writing c \<Longrightarrow> cur c = Some b \<Longrightarrow> n \<le> length b \<Longrightarrow> winv (g_wrote cfg now n c)"
  using winv_wrote_part winv_wrote_all le_neq_implies_less by metis

lemma wstep_winv: "wstep cfg c c' \<Longrightarrow> winv c \<Longrightarrow> winv c'"
  by (induction rule: wstep.induct)
     (auto simp: is_data_def intro: winv_enqueue winv_judge winv_ping winv_answerPing winv_pick winv_wrote winv_error winv_close
        winv_checkSlow winv_reader)

lemma wreach_winv: "wreach cfg c \<Longrightarrow> winv c"
  by (induction rule: wreach.induct) (auto intro: winv_init wstep_winv)
section \<open>Properties\<close>

lemma drain_fields:
  "wire (drain cfg now c) = wire c @ pending_wire c \<and> cur (drain cfg now c) = None \<and> pq (drain cfg now c) = [] \<and>
   q (drain cfg now c) = [] \<and> \<not> writing (drain cfg now c) \<and> (readerDone c \<longrightarrow> socket_closed (drain cfg now c))"
proof (induction cfg now c rule: drain.induct)
  case (1 cfg now c)
  show ?case
  proof (cases "nextLocked c")
    case (Pair ok c')
    show ?thesis
    proof (cases ok)
      case True
      then have N: "nextLocked c = (True, c')" using Pair by simp
      obtain b where b: "cur c' = Some b" using nextLocked_cur [OF N] by blast
      have R: "readerDone c' = readerDone c" using N by (cases rule: nextLocked_cases) auto
      show ?thesis
        using "1.IH" [OF N [symmetric]] pending_wire_next [OF N, of cfg now] nextLocked_wire [OF N] b R
        by (simp add: drain_rec(1) [OF N])
    next
      case False
      then show ?thesis using nextLocked_stop [of c c'] drain_rec(2) [of c c'] Pair by simp
    qed
  qed
qed

text \<open>
  A writer whose socket takes what it is given returns, having written, in this order: the rest
  of the frame already started, the pong due, the ping due, the relay's own messages, the routed
  frames, and the close frame last; nothing stays queued, and the socket is closed if the reader was
  already done with it.
\<close>

theorem drain_writes_everything:
  "wire (drain cfg now c) = wire c @
     (case cur c of None \<Rightarrow> [] | Some r \<Rightarrow> r) @
     (if pongDue c then pong_frame (pong c) else []) @ (if pingDue c then ping_frame else []) @
     concat (map ob (pq c)) @ concat (map ob (q c)) @
     (case closeFrame c of None \<Rightarrow> [] | Some body \<Rightarrow> if closeSent c then [] else close_frame body)
   \<and> cur (drain cfg now c) = None \<and> pq (drain cfg now c) = [] \<and> q (drain cfg now c) = [] \<and> \<not> writing (drain cfg now c)
   \<and> socket_closed (drain cfg now c) \<ge> readerDone c"
  using drain_fields [of cfg now c] by (simp add: pending_wire_def)

text \<open>A run used by the witnesses: a reply and two routed frames queued, part written, a flushed close, the rest written.\<close>

definition demo_cfg :: wcfg where
  "demo_cfg = \<lparr>QueueBytes = 4, SlowPeer = 5\<rparr>"

definition demo_queued :: gconn where
  "demo_queued = g_enqueue OpText (withHeadroom [7]) kindReply True
     (g_enqueue OpBinary (withHeadroom [1, 2]) kindData False gconn_init)"

definition demo_closing :: gconn where
  "demo_closing = g_close demo_cfg (Some [3, 232]) True (g_wrote demo_cfg 1 3 demo_queued)"

definition demo_done :: gconn where
  "demo_done = g_pick (g_wrote demo_cfg 4 4 (g_pick (g_wrote demo_cfg 3 3 (g_pick (g_wrote demo_cfg 2 1 demo_closing)))))"

lemmas demo_defs = frameWire_def withHeadroom_def header_len_def headroom_def op_defs wconn_init_def gconn_init_def wconn.defs

lemma demo_frames:
  "frameWire OpBinary (withHeadroom [1, 2]) = [130, 2, 1, 2]" "frameWire OpText (withHeadroom [7]) = [129, 1, 7]"
  "close_frame [3, 232] = [136, 2, 3, 232]"
  by (simp_all add: demo_defs close_frame_def)

lemma demo_queued_eval:
  "demo_queued = gconn_init\<lparr>cur := Some [130, 2, 1, 2], curSize := 4, queued := 7, replies := 3, writing := True,
     pq := [\<lparr>ob = [129, 1, 7], okind = kindReply\<rparr>], g_lane := Routed, g_frame := [130, 2, 1, 2], g_own := [[129, 1, 7]],
     g_routed := [[130, 2, 1, 2]]\<rparr>"
  by (simp add: demo_queued_def g_enqueue_def enqueue_def Let_def kickLocked_def demo_frames lane_of_def gconn_init_def
      wconn_init_def wconn.defs)

lemma demo_closing_eval:
  "demo_closing = demo_queued\<lparr>cur := Some [2], wire := [130, 2, 1], closing := True, closeFrame := Some [3, 232]\<rparr>"
  by (simp add: demo_closing_def g_close_def closeWith_def beginCloseLocked_def releaseLocked_def Let_def g_wrote_def
      drain_wrote_def demo_queued_eval kickLocked_def gconn_init_def wconn_init_def wconn.defs)

lemma demo_done_eval:
  "wire demo_done = [130, 2, 1, 2, 129, 1, 7, 136, 2, 3, 232]" "\<not> writing demo_done" "closing demo_done" "\<not> g_dropped demo_done"
  "closeFrame demo_done = Some [3, 232]" 
  by (simp_all add: demo_done_def demo_closing_eval demo_queued_eval g_pick_def drain_pick_def nextLocked_def take_frame_def
      g_wrote_def drain_wrote_def finishedLocked_def releaseLocked_def overLocked_def demo_cfg_def Let_def
      demo_frames [unfolded close_frame_def] gconn_init_def wconn_init_def wconn.defs pick_lane_def)
lemma demo_reach: "wreach demo_cfg demo_queued" "wreach demo_cfg demo_closing" "wreach demo_cfg demo_done"
proof -
  note n = wreach.next_step
  have [simp]: "headroom \<le> length (withHeadroom b)" for b by (simp add: withHeadroom_def)
  show 1: "wreach demo_cfg demo_queued"
    unfolding demo_queued_def by (rule n [OF n [OF wreach.start wstep.enq] wstep.enq]) simp_all
  show 2: "wreach demo_cfg demo_closing"
    unfolding demo_closing_def
    by (rule n [OF n [OF 1 wstep.wrote [where b = "[130, 2, 1, 2]"]] wstep.closed]) (simp_all add: demo_queued_eval)
  note D = demo_closing_eval demo_queued_eval g_pick_def drain_pick_def nextLocked_def take_frame_def g_wrote_def drain_wrote_def
    finishedLocked_def releaseLocked_def overLocked_def demo_cfg_def Let_def demo_frames [unfolded close_frame_def]
    gconn_init_def wconn_init_def wconn.defs pick_lane_def
  let ?a = "g_wrote demo_cfg 2 1 demo_closing" and ?b = "g_pick (g_wrote demo_cfg 2 1 demo_closing)"
  let ?d = "g_pick (g_wrote demo_cfg 3 3 ?b)"
  have 3: "wreach demo_cfg ?b"
    by (rule n [OF n [OF 2 wstep.wrote [where b = "[2]"]] wstep.pick]) (simp_all add: D)
  have 4: "wreach demo_cfg ?d"
    by (rule n [OF n [OF 3 wstep.wrote [where b = "[129, 1, 7]"]] wstep.pick]) (simp_all add: D)
  show "wreach demo_cfg demo_done"
    unfolding demo_done_def
    by (rule n [OF n [OF 4 wstep.wrote [where b = "[136, 2, 3, 232]"]] wstep.pick]) (simp_all add: D)
qed

text \<open>
  C24. However queueing, writing, pings, closes and failures interleave, the socket has taken whole
  frames one after another and then a beginning of one more, never bytes of two frames mixed; the
  relay's own messages among them are the first ones accepted, in the order they were accepted, and
  so are the routed frames.
\<close>

theorem wire_whole_frames_in_order:
  assumes "wreach cfg c"
  shows "(\<exists>part. wire c = concat (map snd (g_out c)) @ part \<and> prefix part (g_frame c))
       \<and> prefix (map snd (filter (\<lambda>f. fst f = Own) (g_out c))) (g_own c)
       \<and> prefix (map snd (filter (\<lambda>f. fst f = Routed) (g_out c))) (g_routed c)"
proof (intro conjI)
  note I = winv_parts [OF wreach_winv [OF assms]]
  show "\<exists>part. wire c = concat (map snd (g_out c)) @ part \<and> prefix part (g_frame c)"
  proof (cases "cur c")
    case None with I(1) show ?thesis by (auto simp: inv_wire_def)
  next
    case (Some r)
    with I(1) obtain pre where "wire c = concat (map snd (g_out c)) @ pre" "pre @ r = g_frame c" by (auto simp: inv_wire_def)
    then show ?thesis by (metis prefixI)
  qed
  show "prefix (map snd (filter (\<lambda>f. fst f = Own) (g_out c))) (g_own c)"
    using I(2) by (auto simp: inv_lane_def lane_out_def dest: append_prefixD)
  show "prefix (map snd (filter (\<lambda>f. fst f = Routed) (g_out c))) (g_routed c)"
    using I(3) by (auto simp: inv_lane_def lane_out_def dest: append_prefixD)
qed

theorem wire_whole_frames_in_order_witness:
  "wreach demo_cfg demo_closing \<and> (\<exists>part. wire demo_closing = concat (map snd (g_out demo_closing)) @ part \<and> prefix part (g_frame demo_closing))"
  using demo_reach(2) wire_whole_frames_in_order [OF demo_reach(2)] by blast

text \<open>
  C26. The byte counts that the slow-peer rule and back-pressure judge. They are never negative, and
  frames are dropped only on a connection that is closing (a close without flush, or a failed
  write). Until then they are exact: \<open>queued\<close> is the size of the data frames waiting in both lanes
  plus the whole frame being written, \<open>replies\<close> the part of it that answers the connection's own
  requests, and a connection with no writer has nothing waiting and both counts at zero. Of a
  connection that did drop frames the exact part says nothing: after a failed write the counts
  stay where they were.
\<close>

theorem queue_counts_exact:
  assumes "wreach cfg c"
  shows "0 \<le> queued c \<and> 0 \<le> replies c \<and> (g_dropped c \<longrightarrow> closing c)
     \<and> (\<not> g_dropped c \<longrightarrow>
          queued c = frames_bytes (pq c) + frames_bytes (q c) + (if cur c \<noteq> None \<and> is_data (curKind c) then int (length (g_frame c)) else 0)
        \<and> replies c = reply_bytes (pq c) + reply_bytes (q c) + (if cur c \<noteq> None \<and> curKind c = kindReply then int (length (g_frame c)) else 0)
        \<and> (writing c \<or> queued c = 0 \<and> replies c = 0 \<and> pq c = [] \<and> q c = []))"
proof -
  note I = winv_parts [OF wreach_winv [OF assms]]
  have pos: "0 \<le> queued c \<and> 0 \<le> replies c" using I(4) by (simp add: inv_counts_def)
  have drop: "g_dropped c \<longrightarrow> closing c" using I(6) by (simp add: inv_closing_def)
  have count: "queued c = waiting_bytes c" "replies c = waiting_replies c" if "\<not> g_dropped c"
    using I(4) that by (auto simp: inv_counts_def)
  have idle: "cur c = None \<and> pq c = [] \<and> q c = []" if "\<not> writing c" "\<not> g_dropped c"
    using I(5,6) that by (auto simp: inv_idle_def inv_closing_def)
  show ?thesis using pos drop count idle by (auto simp: waiting_bytes_def waiting_replies_def)
qed

theorem queue_counts_exact_witness:
  "wreach demo_cfg demo_queued \<and> queued demo_queued = 7 \<and> replies demo_queued = reply_bytes (pq demo_queued)"
  using demo_reach(1) queue_counts_exact [OF demo_reach(1)]
  by (simp add: demo_queued_eval gconn_init_def wconn_init_def wconn.defs is_data_def)

text \<open>
  C25. A flushed close loses nothing: when its writer has stopped and no write failed, everything
  accepted before the close is on the wire, whole and in order, followed by the close frame as the
  last frame of the connection.
\<close>

theorem flushed_close_delivers_all:
  assumes "wreach cfg c" "closing c" "closeFrame c = Some body" "\<not> writing c" "\<not> g_dropped c"
  shows "wire c = concat (map snd (g_out c))
       \<and> map snd (filter (\<lambda>f. fst f = Own) (g_out c)) = g_own c
       \<and> map snd (filter (\<lambda>f. fst f = Routed) (g_out c)) = g_routed c
       \<and> (\<exists>before. g_out c = before @ [(Other, close_frame body)])"
proof (intro conjI)
  note I = winv_parts [OF wreach_winv [OF assms(1)]]
  have F: "cur c = None" "\<not> g_failed c" "pq c = []" "q c = []" "closeSent c"
    using I(5,6) assms by (auto simp: inv_idle_def inv_closing_def)
  show "wire c = concat (map snd (g_out c))" using I(1) F by (simp add: inv_wire_def)
  show "map snd (filter (\<lambda>f. fst f = Own) (g_out c)) = g_own c" using I(2) F assms(5) by (simp add: inv_lane_def lane_out_def)
  show "map snd (filter (\<lambda>f. fst f = Routed) (g_out c)) = g_routed c" using I(3) F assms(5) by (simp add: inv_lane_def lane_out_def)
  have "g_out c \<noteq> []" "last (g_out c) = (Other, close_frame body)" using I(7) F assms(3) by (auto simp: inv_last_def)
  then show "\<exists>before. g_out c = before @ [(Other, close_frame body)]" by (metis append_butlast_last_id)
qed

theorem flushed_close_delivers_all_witness:
  "wreach demo_cfg demo_done \<and> wire demo_done = concat (map snd (g_out demo_done)) \<and>
   (\<exists>before. g_out demo_done = before @ [(Other, [136, 2, 3, 232])])"
  using demo_reach(3) flushed_close_delivers_all [OF demo_reach(3) demo_done_eval(3,5,2,4)] by (simp add: demo_frames)

end
