(* ===== verification/Relay_State.thy ===== *)
theory Relay_State
  imports Limiters Encoding "HOL-Library.AList"
begin

text \<open>
  The relay's tables (\<open>relay/internal/relay/server.go\<close>, \<open>network.go\<close>, \<open>idle.go\<close>, \<open>pairing.go\<close>): the
  networks it holds, the connections, the idle accounting, the pairing channels, and the limits.
  Objects the code points at (\<open>*network\<close>, \<open>*conn\<close>) are addresses into two heaps, so that a network
  the table has forgotten is told apart from the one it holds now under the same id. The shards of a
  table, which only spread its lock, are one table here.

  A connection is what its peers and handlers see of it: the messages accepted for sending, in
  order, and the close begun; how they reach the socket is theory \<open>Conn_Queue\<close>.
\<close>

section \<open>Rosters\<close>

type_synonym ID = bytes

record Member =
  m_ID :: ID
  m_Ed25519 :: bytes

text \<open>\<open>r_Raw\<close> is the roster as received, nil (\<open>None\<close>) in a compact record.\<close>

record Roster =
  r_Network :: ID
  r_Version :: int
  r_IssuedAt :: int
  r_NetworkKey :: bytes
  r_Primary :: ID
  r_Members :: "Member list"
  r_Raw :: "bytes option"

definition Roster_Member :: "Roster \<Rightarrow> ID \<Rightarrow> Member option" where
  "Roster_Member r i = find (\<lambda>m. m_ID m = i) (r_Members r)"

definition on_roster :: "Roster \<Rightarrow> ID \<Rightarrow> bool" where
  "on_roster r i \<longleftrightarrow> Roster_Member r i \<noteq> None"

lemma on_roster_iff: "on_roster r i \<longleftrightarrow> i \<in> m_ID ` set (r_Members r)"
  by (auto simp: on_roster_def Roster_Member_def find_None_iff image_iff)

section \<open>Connections\<close>

datatype connState = stateHello | stateRegistered | statePairing

text \<open>
  What the relay sends: the control messages, and the binary frames (routed, pair, and the
  \<open>unreachable\<close> answer), without headroom.
\<close>

datatype out_msg =
    Registered ID int "bytes option"
  | Shaping int bool
  | Pairing ID "string option"
  | PairEnd ID
  | ErrorMsg string string string
  | Usage string "u64" nat int int int rat bool
  | Routed bytes
  | PairFrame bytes
  | Unreachable ID

record rconn =
  c_ip :: string
  c_ipPending :: bool
  c_origin :: string
  c_originRef :: "string option"
  c_challenge :: bytes
  c_state :: connState
  c_network :: "nat option"
  c_id :: ID
  c_channel :: "nat option"
  c_pairs :: "(ID \<times> nat) list"
  c_holdUntil :: int
  c_out :: "out_msg list"
  c_close :: "(int \<times> bool) option"

definition closing :: "rconn \<Rightarrow> bool" where
  "closing c \<longleftrightarrow> c_close c \<noteq> None"

text \<open>Queueing a message: refused once closing (\<open>conn.enqueue\<close>).\<close>

definition send :: "out_msg \<Rightarrow> rconn \<Rightarrow> rconn" where
  "send m c = (if closing c then c else c\<lparr>c_out := c_out c @ [m]\<rparr>)"

text \<open>Closing, once (\<open>conn.closeWith\<close>): the code, and whether what is queued is still written.\<close>

definition close_conn :: "int \<Rightarrow> bool \<Rightarrow> rconn \<Rightarrow> rconn" where
  "close_conn code flush c = (if closing c then c else c\<lparr>c_close := Some (code, flush)\<rparr>)"

definition closeNormal :: int where "closeNormal = 1000"
definition closeBadRequest :: int where "closeBadRequest = 4000"
definition closeRateLimited :: int where "closeRateLimited = 4002"
definition closeReplaced :: int where "closeReplaced = 4005"
definition closeAuth :: int where "closeAuth = 4007"
definition closeNotMember :: int where "closeNotMember = 4008"

lemmas close_code_defs = closeNormal_def closeBadRequest_def closeRateLimited_def closeReplaced_def closeAuth_def closeNotMember_def

section \<open>Networks and the relay\<close>

text \<open>
  \<open>n_idleOwner\<close> stands for \<open>idleAt\<close> and \<open>idleOwner\<close>, which are set and cleared together: the key of
  the owner whose list holds the network.
\<close>

record network =
  n_id :: ID
  n_origin :: "string option"
  n_roster :: Roster
  n_members :: "(ID \<times> nat) list"
  n_emptySince :: int
  n_idleOwner :: "string option"
  n_idleSize :: int
  n_hour :: hourWindow
  n_rateTAT :: int
  n_ctlTAT :: int
  n_memberCtl :: "(ID \<times> int) list"
  n_usageTAT :: int
  n_rateNow :: int
  n_slowed :: bool
  n_slowedAt :: int

record idleOwner =
  o_order :: "nat list"
  o_bytes :: int

record channel =
  ch_id :: ID
  ch_newcomer :: nat
  ch_primary :: nat

record netLimits =
  RateBps :: int
  QuotaBytesHour :: int
  TrickleBps :: int

text \<open>An origin of the limits file; \<open>o_limits\<close> nil (\<open>None\<close>) is the defaults.\<close>

record origin =
  og_limits :: "netLimits option"
  og_named :: bool

record relay_cfg =
  cfg_env :: netLimits
  IdleRostersBytes :: int
  NetworkTTL :: int

record relay =
  cfg :: relay_cfg
  conns :: "nat \<Rightarrow> rconn"
  nets :: "nat \<Rightarrow> network"
  next_net :: nat
  table :: "(ID \<times> nat) list"
  owners :: "string \<Rightarrow> idleOwner option"
  byMost :: "string list"
  idle_bytes :: int
  chans :: "nat \<Rightarrow> channel"
  next_chan :: nat
  channels :: "(ID \<times> nat) list"
  ip_conns :: "ipConns option"
  ipNetworks :: "ipLimiter option"
  ipRegister :: "ipLimiter option"
  ipPair :: "ipLimiter option"
  limits :: netLimits
  origins :: "(string \<times> origin) list"
  slowNets :: "nat set"

definition upd_net :: "nat \<Rightarrow> (network \<Rightarrow> network) \<Rightarrow> relay \<Rightarrow> relay" where
  "upd_net n f s = s\<lparr>nets := (nets s)(n := f (nets s n))\<rparr>"

definition upd_conn :: "nat \<Rightarrow> (rconn \<Rightarrow> rconn) \<Rightarrow> relay \<Rightarrow> relay" where
  "upd_conn c f s = s\<lparr>conns := (conns s)(c := f (conns s c))\<rparr>"

text \<open>Applying a change to every connection of a list (the code's \<open>range\<close> over them).\<close>

definition upd_conns :: "nat list \<Rightarrow> (rconn \<Rightarrow> rconn) \<Rightarrow> relay \<Rightarrow> relay" where
  "upd_conns cs f s = s\<lparr>conns := (\<lambda>c. if c \<in> set cs then f (conns s c) else conns s c)\<rparr>"

definition networkOf :: "relay \<Rightarrow> ID \<Rightarrow> nat option" where
  "networkOf s i = map_of (table s) i"

lemma upd_net_simps [simp]:
  "conns (upd_net n f s) = conns s" "next_net (upd_net n f s) = next_net s" "table (upd_net n f s) = table s"
  "owners (upd_net n f s) = owners s" "byMost (upd_net n f s) = byMost s" "idle_bytes (upd_net n f s) = idle_bytes s"
  "channels (upd_net n f s) = channels s" "cfg (upd_net n f s) = cfg s" "limits (upd_net n f s) = limits s"
  "origins (upd_net n f s) = origins s" "chans (upd_net n f s) = chans s" "slowNets (upd_net n f s) = slowNets s"
  "next_chan (upd_net n f s) = next_chan s" "ip_conns (upd_net n f s) = ip_conns s"
  "nets (upd_net n f s) = (nets s)(n := f (nets s n))"
  by (simp_all add: upd_net_def)

lemma upd_conn_simps [simp]:
  "nets (upd_conn n f s) = nets s" "next_net (upd_conn n f s) = next_net s" "table (upd_conn n f s) = table s"
  "owners (upd_conn n f s) = owners s" "byMost (upd_conn n f s) = byMost s" "idle_bytes (upd_conn n f s) = idle_bytes s"
  "channels (upd_conn n f s) = channels s" "cfg (upd_conn n f s) = cfg s" "limits (upd_conn n f s) = limits s"
  "origins (upd_conn n f s) = origins s" "chans (upd_conn n f s) = chans s" "slowNets (upd_conn n f s) = slowNets s"
  "next_chan (upd_conn n f s) = next_chan s" "ip_conns (upd_conn n f s) = ip_conns s"
  "conns (upd_conn n f s) = (conns s)(n := f (conns s n))"
  by (simp_all add: upd_conn_def)

lemma upd_conns_simps [simp]:
  "nets (upd_conns cs f s) = nets s" "next_net (upd_conns cs f s) = next_net s" "table (upd_conns cs f s) = table s"
  "owners (upd_conns cs f s) = owners s" "byMost (upd_conns cs f s) = byMost s" "idle_bytes (upd_conns cs f s) = idle_bytes s"
  "channels (upd_conns cs f s) = channels s" "cfg (upd_conns cs f s) = cfg s" "limits (upd_conns cs f s) = limits s"
  "origins (upd_conns cs f s) = origins s" "chans (upd_conns cs f s) = chans s" "slowNets (upd_conns cs f s) = slowNets s"
  "next_chan (upd_conns cs f s) = next_chan s" "ip_conns (upd_conns cs f s) = ip_conns s"
  "conns (upd_conns cs f s) = (\<lambda>c. if c \<in> set cs then f (conns s c) else conns s c)"
  by (simp_all add: upd_conns_def)

lemma send_same [simp]:
  "c_ip (send m c) = c_ip c" "c_state (send m c) = c_state c" "c_network (send m c) = c_network c" "c_id (send m c) = c_id c"
  "c_close (send m c) = c_close c" "c_channel (send m c) = c_channel c" "c_pairs (send m c) = c_pairs c" "closing (send m c) = closing c"
  "c_ipPending (send m c) = c_ipPending c" "c_originRef (send m c) = c_originRef c"
  by (simp_all add: send_def closing_def)

lemma close_same [simp]:
  "c_ip (close_conn k b c) = c_ip c" "c_state (close_conn k b c) = c_state c" "c_network (close_conn k b c) = c_network c"
  "c_id (close_conn k b c) = c_id c" "c_out (close_conn k b c) = c_out c" "c_channel (close_conn k b c) = c_channel c"
  "c_pairs (close_conn k b c) = c_pairs c" "closing (close_conn k b c)" "c_ipPending (close_conn k b c) = c_ipPending c"
  "c_originRef (close_conn k b c) = c_originRef c"
  by (simp_all add: close_conn_def closing_def)

end
