(* ===== verification/Go_Heap.thy ===== *)
theory Go_Heap
  imports Prelude "HOL-Library.Multiset"
begin

text \<open>
  The part of Go's \<open>container/heap\<close> that the relay's idle accounting uses
  (\<open>relay/internal/relay/idle.go\<close>, type \<open>ownerHeap\<close>): a binary heap in a slice, ordered by
  \<open>Less(i, j) = h[i].bytes > h[j].bytes\<close>, so the element with the largest weight is at index 0. The
  weight \<open>w\<close> of an element is a parameter; an element's \<open>index\<close> field is its position in the slice
  (\<open>Swap\<close> and \<open>Push\<close> keep it so). \<open>Fix\<close> restores the order after one element's weight changed,
  whichever way it changed.
\<close>

section \<open>Definitions\<close>

definition swap :: "'a list \<Rightarrow> nat \<Rightarrow> nat \<Rightarrow> 'a list" where
  "swap h i j = h[i := h ! j, j := h ! i]"

definition parent :: "nat \<Rightarrow> nat" where
  "parent j = (j - 1) div 2"

function up :: "('a \<Rightarrow> int) \<Rightarrow> 'a list \<Rightarrow> nat \<Rightarrow> 'a list" where
  "up w h j = (let i = parent j
     in if i = j \<or> \<not> w (h ! j) > w (h ! i) then h else up w (swap h i j) i)"
  by auto
termination
  by (relation "measure (\<lambda>(w, h, j). j)") (auto simp: parent_def)

definition larger_child :: "('a \<Rightarrow> int) \<Rightarrow> 'a list \<Rightarrow> nat \<Rightarrow> nat \<Rightarrow> nat" where
  "larger_child w h i n = (let j1 = 2 * i + 1; j2 = j1 + 1
     in if j2 < n \<and> w (h ! j2) > w (h ! j1) then j2 else j1)"

text \<open>\<open>down\<close> also tells whether it moved the element.\<close>

function down :: "('a \<Rightarrow> int) \<Rightarrow> 'a list \<Rightarrow> nat \<Rightarrow> nat \<Rightarrow> bool \<times> 'a list" where
  "down w h i n =
     (if 2 * i + 1 \<ge> n then (False, h)
      else let j = larger_child w h i n
           in if \<not> w (h ! j) > w (h ! i) then (False, h)
              else (True, snd (down w (swap h i j) j n)))"
  by auto
termination
  by (relation "measure (\<lambda>(w, h, i, n). n - i)") (auto simp: larger_child_def Let_def split: if_splits)

declare up.simps [simp del] down.simps [simp del]

definition heap_Fix :: "('a \<Rightarrow> int) \<Rightarrow> 'a list \<Rightarrow> nat \<Rightarrow> 'a list" where
  "heap_Fix w h i = (case down w h i (length h) of (True, h') \<Rightarrow> h' | (False, h') \<Rightarrow> up w h' i)"

definition heap_Push :: "('a \<Rightarrow> int) \<Rightarrow> 'a list \<Rightarrow> 'a \<Rightarrow> 'a list" where
  "heap_Push w h x = up w (h @ [x]) (length h)"

definition heap_Remove :: "('a \<Rightarrow> int) \<Rightarrow> 'a list \<Rightarrow> nat \<Rightarrow> 'a list" where
  "heap_Remove w h i =
     (let n = length h - 1
      in if n = i then butlast h
         else let h1 = swap h i n
              in butlast (case down w h1 i n of (True, h') \<Rightarrow> h' | (False, h') \<Rightarrow> up w h' i))"

section \<open>The heap order\<close>

text \<open>The order on the first \<open>n\<close> elements, and the order but for the edges at one node.\<close>

definition edge_ok :: "('a \<Rightarrow> int) \<Rightarrow> 'a list \<Rightarrow> nat \<Rightarrow> bool" where
  "edge_ok w h j \<longleftrightarrow> w (h ! j) \<le> w (h ! parent j)"

definition heap_ok :: "('a \<Rightarrow> int) \<Rightarrow> 'a list \<Rightarrow> nat \<Rightarrow> bool" where
  "heap_ok w h n \<longleftrightarrow> (\<forall>j. 0 < j \<and> j < n \<longrightarrow> edge_ok w h j)"

definition heap_but :: "('a \<Rightarrow> int) \<Rightarrow> 'a list \<Rightarrow> nat \<Rightarrow> nat \<Rightarrow> bool" where
  "heap_but w h i n \<longleftrightarrow>
     (\<forall>j. 0 < j \<and> j < n \<and> j \<noteq> i \<and> parent j \<noteq> i \<longrightarrow> edge_ok w h j) \<and>
     (0 < i \<longrightarrow> (\<forall>j. 0 < j \<and> j < n \<and> parent j = i \<longrightarrow> w (h ! j) \<le> w (h ! parent i)))"

lemma parent_simps [simp]:
  "parent (2 * i + 1) = i" "parent (Suc (2 * i)) = i" "parent (2 * i + 2) = i" "parent (Suc (Suc (2 * i))) = i"
  "0 < j \<Longrightarrow> parent j < j" "parent 0 = 0"
  by (auto simp: parent_def)

lemma parent_less: "j < n \<Longrightarrow> parent j < n"
  by (simp add: parent_def)

lemma parent_eq: "0 < j \<Longrightarrow> parent j = i \<longleftrightarrow> j = 2 * i + 1 \<or> j = 2 * i + 2"
  by (auto simp: parent_def)

lemma parent_lt: "0 < j \<Longrightarrow> parent j = k \<Longrightarrow> k < j"
  by auto

lemma parent_neq_self: "0 < j \<Longrightarrow> parent j \<noteq> j"
  by (auto simp: parent_def)

lemma heap_top: "heap_ok w h n \<Longrightarrow> j < n \<Longrightarrow> w (h ! j) \<le> w (h ! 0)"
proof (induction j rule: less_induct)
  case (less j)
  show ?case
  proof (cases "j = 0")
    case False
    then have "w (h ! j) \<le> w (h ! parent j)" using less.prems by (simp add: heap_ok_def edge_ok_def)
    also have "\<dots> \<le> w (h ! 0)" using less False parent_less [of j n] by simp
    finally show ?thesis .
  qed simp
qed

section \<open>Permutation\<close>

lemma length_swap [simp]: "length (swap h i j) = length h"
  by (simp add: swap_def)

lemma nth_swap: "i < length h \<Longrightarrow> j < length h \<Longrightarrow> k < length h \<Longrightarrow>
   swap h i j ! k = (if k = j then h ! i else if k = i then h ! j else h ! k)"
  by (auto simp: swap_def nth_list_update)

lemma mset_swap_heap [simp]: "i < length h \<Longrightarrow> j < length h \<Longrightarrow> mset (swap h i j) = mset h"
  by (simp add: swap_def mset_swap)

lemma up_mset [simp]: "j < length h \<Longrightarrow> mset (up w h j) = mset h"
proof (induction w h j rule: up.induct)
  case (1 w h j)
  then show ?case by (subst up.simps) (auto simp: Let_def parent_less)
qed

lemma length_up [simp]: "length (up w h j) = length h"
proof (induction w h j rule: up.induct)
  case (1 w h j)
  then show ?case by (subst up.simps) (auto simp: Let_def)
qed

lemma larger_child_bounds: "2 * i + 1 < n \<Longrightarrow> larger_child w h i n < n \<and> i < larger_child w h i n \<and> parent (larger_child w h i n) = i"
  by (auto simp: larger_child_def Let_def)

lemma length_down [simp]: "length (snd (down w h i n)) = length h"
proof (induction w h i n rule: down.induct)
  case (1 w h i n)
  then show ?case by (subst down.simps) (auto simp: Let_def)
qed

lemma down_mset: "n \<le> length h \<Longrightarrow> mset (snd (down w h i n)) = mset h"
proof (induction w h i n rule: down.induct)
  case (1 w h i n)
  then show ?case using larger_child_bounds [of i n w h] by (subst down.simps) (auto simp: Let_def)
qed

lemma down_tail: "n \<le> k \<Longrightarrow> k < length h \<Longrightarrow> n \<le> length h \<Longrightarrow> snd (down w h i n) ! k = h ! k"
proof (induction w h i n rule: down.induct)
  case (1 w h i n)
  then show ?case using larger_child_bounds [of i n w h] by (subst down.simps) (auto simp: Let_def nth_swap)
qed

section \<open>Correctness\<close>

lemma larger_child_ge:
  assumes "0 < j" "j < n" "parent j = i"
  shows "w (h ! j) \<le> w (h ! larger_child w h i n)"
  using assms parent_eq [of j i] by (auto simp: larger_child_def Let_def)

lemma heap_but_ok:
  assumes B: "heap_but w h i n" and U: "0 < i \<longrightarrow> i < n \<longrightarrow> edge_ok w h i"
    and D: "\<And>j. 0 < j \<Longrightarrow> j < n \<Longrightarrow> parent j = i \<Longrightarrow> edge_ok w h j"
  shows "heap_ok w h n"
  using assms by (auto simp: heap_ok_def heap_but_def)

text \<open>One step down or up moves the one faulty node, and repairs the edges it leaves.\<close>

lemma heap_but_down:
  assumes B: "heap_but w h i n" and n: "n \<le> length h" "2 * i + 1 < n"
    and j: "j = larger_child w h i n" "w (h ! j) > w (h ! i)"
  shows "heap_but w (swap h i j) j n"
proof -
  have J: "j < n" "i < j" "parent j = i" using larger_child_bounds [OF n(2), of w h] j(1) by auto
  note N = nth_swap [of i h j]
  have i: "i < length h" "j < length h" using J n by auto
  have ok: "edge_ok w h k" if "0 < k" "k < n" "k \<noteq> i" "parent k \<noteq> i" for k
    using B that by (simp add: heap_but_def)
  have gp: "w (h ! k) \<le> w (h ! parent i)" if "0 < i" "0 < k" "k < n" "parent k = i" for k
    using B that by (simp add: heap_but_def)
  have e: "edge_ok w (swap h i j) k" if k: "0 < k" "k < n" "k \<noteq> j" "parent k \<noteq> j" for k
  proof -
    have kl: "k < length h" "parent k < length h" using k n parent_less [of k n] by auto
    show ?thesis
    proof (cases "k = i")
      case True
      then have "0 < i" "parent i \<noteq> i" "parent i \<noteq> j" using k parent_neq_self J by auto
      then show ?thesis using True gp [of j] J kl i by (simp add: edge_ok_def N)
    next
      case ki: False
      show ?thesis
      proof (cases "parent k = i")
        case True
        then show ?thesis using larger_child_ge [OF k(1,2) True, of w h] k J kl i ki
          by (simp add: edge_ok_def N j(1) [symmetric])
      next
        case False
        then show ?thesis using ok [OF k(1,2) ki False] k kl i ki by (simp add: edge_ok_def N)
      qed
    qed
  qed
  moreover have "w (swap h i j ! k) \<le> w (swap h i j ! parent j)" if k: "0 < k" "k < n" "parent k = j" for k
  proof -
    have kj: "j < k" "k \<noteq> i" using k J parent_simps(5) [of k] by auto
    then have "w (h ! k) \<le> w (h ! j)" using ok [of k] k J by (simp add: edge_ok_def)
    then show ?thesis using kj k n i J by (simp add: N)
  qed
  ultimately show ?thesis using J by (simp add: heap_but_def)
qed

lemma down_ok:
  "heap_but w h i n \<Longrightarrow> n \<le> length h \<Longrightarrow> (0 < i \<longrightarrow> i < n \<longrightarrow> edge_ok w h i) \<Longrightarrow> heap_ok w (snd (down w h i n)) n"
proof (induction w h i n rule: down.induct)
  case (1 w h i n)
  let ?j = "larger_child w h i n"
  consider "2 * i + 1 \<ge> n" | "2 * i + 1 < n" "\<not> w (h ! ?j) > w (h ! i)" | "2 * i + 1 < n" "w (h ! ?j) > w (h ! i)" by linarith
  then show ?case
  proof cases
    case 1
    then have "\<not> (0 < j \<and> j < n \<and> parent j = i)" for j using parent_eq [of j i] by auto
    then have "heap_ok w h n" using heap_but_ok [OF "1.prems"(1,3)] by blast
    then show ?thesis using 1 by (subst down.simps) simp
  next
    case 2
    have "heap_ok w h n"
    proof (rule heap_but_ok [OF "1.prems"(1,3)])
      fix j assume "0 < j" "j < n" "parent j = i"
      then show "edge_ok w h j" using larger_child_ge [of j n i w h] 2 by (simp add: edge_ok_def)
    qed
    then show ?thesis using 2 by (subst down.simps) (simp add: Let_def)
  next
    case 3
    have J: "?j < n" "i < ?j" "parent ?j = i" using larger_child_bounds [OF 3(1), of w h] by auto
    have "edge_ok w (swap h i ?j) ?j" using 3 J "1.prems"(2) by (simp add: edge_ok_def nth_swap)
    then have "heap_ok w (snd (down w (swap h i ?j) ?j n)) n"
      using "1.IH" [of ?j] 3 heap_but_down [OF "1.prems"(1,2) 3(1)] "1.prems"(2) by simp
    then show ?thesis using 3 by (subst down.simps) (simp add: Let_def)
  qed
qed
definition children_ok :: "('a \<Rightarrow> int) \<Rightarrow> 'a list \<Rightarrow> nat \<Rightarrow> nat \<Rightarrow> bool" where
  "children_ok w h i n \<longleftrightarrow> (\<forall>j. 0 < j \<and> j < n \<and> parent j = i \<longrightarrow> edge_ok w h j)"

lemma heap_but_up:
  assumes B: "heap_but w h j n" "children_ok w h j n" and n: "n \<le> length h" "j < n" "0 < j"
    and i: "i = parent j" "w (h ! j) > w (h ! i)"
  shows "heap_but w (swap h i j) i n \<and> children_ok w (swap h i j) i n"
proof -
  have ij: "i < j" "i < length h" "j < length h" using n i parent_less [of j n] by auto
  note N = nth_swap [of i h j]
  have ok: "edge_ok w h k" if "0 < k" "k < n" "k \<noteq> j" for k
    using B that by (cases "parent k = j") (auto simp: heap_but_def children_ok_def)
  have gp: "w (h ! k) \<le> w (h ! i)" if "0 < k" "k < n" "parent k = j" for k
    using B(1) n that by (simp add: heap_but_def i(1))
  have sib: "w (h ! k) \<le> w (h ! i)" if "0 < k" "k < n" "parent k = i" "k \<noteq> j" for k
    using ok [of k] that by (simp add: edge_ok_def)
  have top: "w (h ! i) \<le> w (h ! parent i)" if "0 < i"
    using ok [of i] that ij n by (simp add: edge_ok_def)
  have e: "edge_ok w (swap h i j) k" if k: "0 < k" "k < n" "k \<noteq> i" "parent k \<noteq> i" for k
  proof -
    have kl: "k < length h" "parent k < length h" "k \<noteq> j" using k n parent_less [of k n] i by auto
    show ?thesis
    proof (cases "parent k = j")
      case True then show ?thesis using gp [OF k(1,2)] kl k ij by (simp add: edge_ok_def N)
    next
      case False then show ?thesis using ok [OF k(1,2) kl(3)] kl k ij by (simp add: edge_ok_def N)
    qed
  qed
  moreover have "w (swap h i j ! k) \<le> w (swap h i j ! parent i)" if k: "0 < i" "0 < k" "k < n" "parent k = i" for k
  proof -
    have "parent i < i" using k by simp
    then have "swap h i j ! parent i = h ! parent i" using ij by (simp add: N)
    moreover have "w (swap h i j ! k) \<le> w (h ! i)"
      using sib [of k] k ij n parent_neq_self [of k] by (cases "k = j") (auto simp: N)
    ultimately show ?thesis using top k by simp
  qed
  moreover have "edge_ok w (swap h i j) k" if k: "0 < k" "k < n" "parent k = i" for k
    using sib [of k] k ij n parent_neq_self [of k] i(2) by (cases "k = j") (auto simp: edge_ok_def N)
  ultimately show ?thesis by (simp add: heap_but_def children_ok_def)
qed

lemma up_ok:
  "heap_but w h j n \<Longrightarrow> children_ok w h j n \<Longrightarrow> n \<le> length h \<Longrightarrow> j < n \<Longrightarrow> heap_ok w (up w h j) n"
proof (induction w h j rule: up.induct)
  case (1 w h j)
  show ?case
  proof (cases "parent j = j \<or> \<not> w (h ! j) > w (h ! parent j)")
    case True
    have "edge_ok w h j \<or> j = 0" using True parent_neq_self [of j] by (auto simp: edge_ok_def)
    then have "heap_ok w h n"
      using heap_but_ok [OF "1.prems"(1)] "1.prems"(2) by (auto simp: children_ok_def)
    then show ?thesis using True by (subst up.simps) (simp add: Let_def)
  next
    case False
    then have "0 < j" using parent_simps(6) by (cases j) auto
    note S = heap_but_up [OF "1.prems" this refl]
    have "heap_ok w (up w (swap h (parent j) j) (parent j)) n"
      using "1.IH" [OF refl] False S "1.prems" parent_less [of j n] by simp
    then show ?thesis using False by (subst up.simps) (simp add: Let_def)
  qed
qed

text \<open>\<open>down\<close> then, if it moved nothing, \<open>up\<close>: the body of \<open>Fix\<close> and of \<open>Remove\<close>.\<close>

definition settle :: "('a \<Rightarrow> int) \<Rightarrow> 'a list \<Rightarrow> nat \<Rightarrow> nat \<Rightarrow> 'a list" where
  "settle w h i n = (case down w h i n of (True, h') \<Rightarrow> h' | (False, h') \<Rightarrow> up w h' i)"

lemma down_cases:
  obtains (leaf) "2 * i + 1 \<ge> n" "down w h i n = (False, h)"
  | (stay) "2 * i + 1 < n" "w (h ! larger_child w h i n) \<le> w (h ! i)" "down w h i n = (False, h)"
  | (move) h' where "2 * i + 1 < n" "w (h ! larger_child w h i n) > w (h ! i)" "down w h i n = (True, h')"
proof -
  note D = down.simps [of w h i n]
  consider "2 * i + 1 \<ge> n" | "2 * i + 1 < n" "w (h ! larger_child w h i n) \<le> w (h ! i)"
    | "2 * i + 1 < n" "w (h ! larger_child w h i n) > w (h ! i)" by linarith
  then show ?thesis using D leaf stay move by cases (simp_all add: Let_def)
qed

lemma down_False: "down w h i n = (False, h') \<Longrightarrow> h' = h \<and> children_ok w h i n"
proof (cases rule: down_cases [of n i w h])
  case leaf
  assume "down w h i n = (False, h')"
  moreover have "\<not> (0 < j \<and> j < n \<and> parent j = i)" for j using leaf parent_eq [of j i] by auto
  ultimately show ?thesis using leaf by (auto simp: children_ok_def)
next
  case stay
  assume "down w h i n = (False, h')"
  moreover have "edge_ok w h j" if "0 < j" "j < n" "parent j = i" for j
    using larger_child_ge [OF that, of w h] stay that by (simp add: edge_ok_def)
  ultimately show ?thesis using stay by (simp add: children_ok_def)
qed simp

lemma down_True:
  assumes "down w h i n = (True, h')" "heap_but w h i n" "0 < i"
  shows "edge_ok w h i"
proof (cases rule: down_cases [of n i w h])
  case (move h'')
  then have "w (h ! larger_child w h i n) \<le> w (h ! parent i)"
    using larger_child_bounds [OF move(1), of w h] assms(2,3) by (simp add: heap_but_def)
  then show ?thesis using move by (simp add: edge_ok_def)
qed (use assms in simp_all)

lemma settle_eq: "settle w h i n = (if fst (down w h i n) then snd (down w h i n) else up w h i)"
  using down_False [of w h i n] by (auto simp: settle_def split: prod.split bool.split)

lemma settle_ok:
  assumes "heap_but w h i n" "n \<le> length h" "i < n"
  shows "heap_ok w (settle w h i n) n"
proof (cases "fst (down w h i n)")
  case True
  then have "down w h i n = (True, snd (down w h i n))" by (metis prod.collapse)
  then have "0 < i \<longrightarrow> edge_ok w h i" using down_True assms(1) by blast
  then show ?thesis using True down_ok [OF assms(1,2)] by (simp add: settle_eq)
next
  case False
  then have "down w h i n = (False, snd (down w h i n))" by (metis prod.collapse)
  then have "children_ok w h i n" using down_False by blast
  then show ?thesis using False up_ok [OF assms(1) _ assms(2,3)] by (simp add: settle_eq)
qed

lemma settle_mset: "n \<le> length h \<Longrightarrow> i < length h \<Longrightarrow> mset (settle w h i n) = mset h"
  by (simp add: settle_eq down_mset)

lemma up_tail: "j < n \<Longrightarrow> n \<le> k \<Longrightarrow> k < length h \<Longrightarrow> up w h j ! k = h ! k"
proof (induction w h j rule: up.induct)
  case (1 w h j)
  then show ?case using parent_less [of j n] by (subst up.simps) (auto simp: Let_def nth_swap)
qed

lemma settle_tail: "i < n \<Longrightarrow> n \<le> k \<Longrightarrow> k < length h \<Longrightarrow> n \<le> length h \<Longrightarrow> settle w h i n ! k = h ! k"
  by (simp add: settle_eq down_tail up_tail)

lemma length_settle [simp]: "length (settle w h i n) = length h"
  by (simp add: settle_eq)

lemma heap_Fix_settle: "heap_Fix w h i = settle w h i (length h)"
  by (simp add: heap_Fix_def settle_def)

text \<open>After one weight changed, the order can only fail at that element.\<close>

lemma heap_but_changed:
  assumes H: "heap_ok w h (length h)" and i: "i < length h" and D: "distinct h"
    and w: "\<And>x. x \<noteq> h ! i \<Longrightarrow> w' x = w x"
  shows "heap_but w' h i (length h)"
proof -
  have same: "w' (h ! k) = w (h ! k)" if "k < length h" "k \<noteq> i" for k
    using w that D i by (metis nth_eq_iff_index_eq)
  have e: "w (h ! k) \<le> w (h ! parent k)" if "0 < k" "k < length h" for k
    using H that by (simp add: heap_ok_def edge_ok_def)
  have "w' (h ! k) \<le> w' (h ! parent k)" if "0 < k" "k < length h" "k \<noteq> i" "parent k \<noteq> i" for k
    using e [OF that(1,2)] same [of k] same [of "parent k"] that parent_less [of k "length h"] by simp
  moreover have "w' (h ! k) \<le> w' (h ! parent i)" if k: "0 < i" "0 < k" "k < length h" "parent k = i" for k
  proof -
    have "w (h ! k) \<le> w (h ! i)" "w (h ! i) \<le> w (h ! parent i)" using e [of k] e [of i] k i by auto
    moreover have "k \<noteq> i" "parent i \<noteq> i" "parent i < length h" using k i parent_lt [of k i] parent_neq_self [of i] parent_less [of i] by auto
    ultimately show ?thesis using same [of k] same [of "parent i"] k by simp
  qed
  ultimately show ?thesis by (simp add: heap_but_def edge_ok_def)
qed

lemma heap_Fix_ok:
  assumes "heap_ok w h (length h)" "i < length h" "distinct h" "\<And>x. x \<noteq> h ! i \<Longrightarrow> w' x = w x"
  shows "heap_ok w' (heap_Fix w' h i) (length h) \<and> mset (heap_Fix w' h i) = mset h"
  using settle_ok [OF heap_but_changed [OF assms]] settle_mset [of "length h" h i w'] assms(2)
  by (simp add: heap_Fix_settle)

lemma heap_Push_ok:
  assumes H: "heap_ok w h (length h)"
  shows "heap_ok w (heap_Push w h x) (Suc (length h)) \<and> mset (heap_Push w h x) = add_mset x (mset h)"
proof -
  let ?h = "h @ [x]" and ?n = "length h"
  have no: "\<not> (0 < j \<and> j < Suc ?n \<and> parent j = ?n)" for j
    using parent_lt [of j ?n] by auto
  have "edge_ok w ?h j" if "0 < j" "j < Suc ?n" "j \<noteq> ?n" "parent j \<noteq> ?n" for j
    using H that parent_less [of j ?n] by (simp add: heap_ok_def edge_ok_def nth_append)
  then have "heap_but w ?h ?n (Suc ?n)" "children_ok w ?h ?n (Suc ?n)"
    using no by (auto simp: heap_but_def children_ok_def)
  from up_ok [OF this] show ?thesis by (simp add: heap_Push_def)
qed

lemma heap_ok_prefix: "heap_ok w h n \<Longrightarrow> m \<le> n \<Longrightarrow> heap_ok w h m"
  by (simp add: heap_ok_def)

lemma heap_ok_butlast: "heap_ok w h n \<Longrightarrow> length h = Suc n \<Longrightarrow> heap_ok w (butlast h) n"
  using parent_less [of _ n] by (simp add: heap_ok_def edge_ok_def nth_butlast)

text \<open>An element whose weight has changed without notice can still be removed: only the others count.\<close>

lemma heap_but_swapped:
  assumes H: "heap_ok w h (length h)" and i: "i < n" and n: "length h = Suc n"
    and D: "distinct h" and w: "\<And>x. x \<noteq> h ! i \<Longrightarrow> w' x = w x"
  shows "heap_but w' (swap h i n) i n"
proof -
  have N: "swap h i n ! k = (if k = i then h ! n else h ! k)" if "k < n" for k
    using that i n by (auto simp: nth_swap)
  have same: "w' (h ! k) = w (h ! k)" if "k < n" "k \<noteq> i" for k
    using w that D i n by (metis nth_eq_iff_index_eq less_SucI)
  have e: "w (h ! k) \<le> w (h ! parent k)" if "0 < k" "k < length h" for k
    using H that by (simp add: heap_ok_def edge_ok_def)
  have "edge_ok w' (swap h i n) k" if "0 < k" "k < n" "k \<noteq> i" "parent k \<noteq> i" for k
    using e [of k] that parent_less [of k n] n by (simp add: edge_ok_def N same)
  moreover have "w' (swap h i n ! k) \<le> w' (swap h i n ! parent i)" if k: "0 < i" "0 < k" "k < n" "parent k = i" for k
  proof -
    have "w (h ! k) \<le> w (h ! i)" "w (h ! i) \<le> w (h ! parent i)" using e [of k] e [of i] k i n by auto
    moreover have "k \<noteq> i" "parent i \<noteq> i" "parent i < n" using k i parent_lt [of k i] parent_neq_self [of i] parent_less [of i n] by auto
    ultimately show ?thesis using k by (simp add: N same)
  qed
  ultimately show ?thesis by (simp add: heap_but_def)
qed

lemma mset_butlast: "length h = Suc n \<Longrightarrow> mset h = add_mset (h ! n) (mset (butlast h))"
  by (cases h rule: rev_cases) auto

lemma heap_Remove_ok:
  assumes H: "heap_ok w h (length h)" and i: "i < length h" and D: "distinct h" and w: "\<And>x. x \<noteq> h ! i \<Longrightarrow> w' x = w x"
  shows "heap_ok w' (heap_Remove w' h i) (length h - 1) \<and> mset (heap_Remove w' h i) = mset h - {#h ! i#}"
proof -
  obtain n where n: "length h = Suc n" using i by (cases "length h") auto
  have n1: "length h - 1 = n" using n by simp
  show ?thesis
  proof (cases "n = i")
    case True
    have "w' (h ! k) = w (h ! k)" if "k < n" for k
      using w that D n True by (metis nth_eq_iff_index_eq less_SucI lessI less_irrefl)
    then have "heap_ok w' h n"
      using heap_ok_prefix [OF H, of n] n parent_less [of _ n] by (simp add: heap_ok_def edge_ok_def)
    then show ?thesis using True n mset_butlast [OF n] heap_ok_butlast [of w' h n] by (simp add: heap_Remove_def)
  next
    case False
    let ?s = "swap h i n" let ?t = "settle w' ?s i n"
    have i: "i < n" using False i n by auto
    have R: "heap_Remove w' h i = butlast ?t" using False n by (simp add: heap_Remove_def settle_def Let_def)
    have ok: "heap_ok w' ?t n" using settle_ok [OF heap_but_swapped [OF H i n D w]] n i by simp
    have t: "?t ! n = h ! i" using settle_tail [of i n n ?s w'] n i by (simp add: nth_swap)
    have m: "mset ?t = mset h" using settle_mset [of n ?s i w'] n i by simp
    have "mset h = add_mset (h ! i) (mset (butlast ?t))" using mset_butlast [of ?t n] n m t by simp
    then show ?thesis using heap_ok_butlast [OF ok] n R by simp
  qed
qed
section \<open>The contract the idle accounting relies on\<close>

text \<open>
  A collection whose first element has the largest weight, after elements were added and removed and
  after one weight at a time changed and was announced. Elements are named by themselves; the heap
  finds them by their \<open>index\<close> field.
\<close>

locale most_first =
  fixes valid :: "('a \<Rightarrow> int) \<Rightarrow> 'a list \<Rightarrow> bool"
    and push :: "('a \<Rightarrow> int) \<Rightarrow> 'a list \<Rightarrow> 'a \<Rightarrow> 'a list"
    and changed :: "('a \<Rightarrow> int) \<Rightarrow> 'a list \<Rightarrow> 'a \<Rightarrow> 'a list"
    and removed :: "('a \<Rightarrow> int) \<Rightarrow> 'a list \<Rightarrow> 'a \<Rightarrow> 'a list"
  assumes valid_Nil: "valid w []"
    and valid_hd: "valid w h \<Longrightarrow> x \<in> set h \<Longrightarrow> w x \<le> w (hd h)"
    and valid_cong: "valid w h \<Longrightarrow> (\<And>x. x \<in> set h \<Longrightarrow> w' x = w x) \<Longrightarrow> valid w' h"
    and push_valid: "valid w h \<Longrightarrow> valid w (push w h x)"
    and push_mset: "valid w h \<Longrightarrow> mset (push w h x) = add_mset x (mset h)"
    and changed_valid: "valid w h \<Longrightarrow> distinct h \<Longrightarrow> x \<in> set h \<Longrightarrow> (\<And>y. y \<noteq> x \<Longrightarrow> w' y = w y) \<Longrightarrow> valid w' (changed w' h x)"
    and changed_mset: "valid w h \<Longrightarrow> distinct h \<Longrightarrow> x \<in> set h \<Longrightarrow> (\<And>y. y \<noteq> x \<Longrightarrow> w' y = w y) \<Longrightarrow> mset (changed w' h x) = mset h"
    and removed_valid: "valid w h \<Longrightarrow> distinct h \<Longrightarrow> x \<in> set h \<Longrightarrow> (\<And>y. y \<noteq> x \<Longrightarrow> w' y = w y) \<Longrightarrow> valid w' (removed w' h x)"
    and removed_mset: "valid w h \<Longrightarrow> distinct h \<Longrightarrow> x \<in> set h \<Longrightarrow> (\<And>y. y \<noteq> x \<Longrightarrow> w' y = w y) \<Longrightarrow> mset (removed w' h x) = mset h - {#x#}"
begin

lemma push_set: "valid w h \<Longrightarrow> set (push w h x) = insert x (set h)"
  by (metis push_mset set_mset_add_mset_insert set_mset_mset)

lemma push_distinct: "valid w h \<Longrightarrow> distinct h \<Longrightarrow> x \<notin> set h \<Longrightarrow> distinct (push w h x)"
  by (metis distinct.simps(2) mset.simps(2) mset_eq_imp_distinct_iff push_mset)

lemma changed_set:
  "valid w h \<Longrightarrow> distinct h \<Longrightarrow> x \<in> set h \<Longrightarrow> (\<And>y. y \<noteq> x \<Longrightarrow> w' y = w y) \<Longrightarrow>
   set (changed w' h x) = set h \<and> distinct (changed w' h x)"
  by (metis changed_mset mset_eq_imp_distinct_iff mset_eq_setD)

lemma removed_set:
  assumes "valid w h" "distinct h" "x \<in> set h" "\<And>y. y \<noteq> x \<Longrightarrow> w' y = w y"
  shows "set (removed w' h x) = set h - {x} \<and> distinct (removed w' h x)"
proof -
  have "mset (removed w' h x) = mset (remove1 x h)" using removed_mset [OF assms] by simp
  from mset_eq_setD [OF this] mset_eq_imp_distinct_iff [OF this]
  have "set (removed w' h x) = set (remove1 x h)" "distinct (removed w' h x) = distinct (remove1 x h)" by simp_all
  then show ?thesis using assms(2) by simp
qed

end

definition index_of :: "'a list \<Rightarrow> 'a \<Rightarrow> nat" where
  "index_of h x = length (takeWhile (\<lambda>y. y \<noteq> x) h)"

lemma index_of_less [simp]: "x \<in> set h \<Longrightarrow> index_of h x < length h"
  by (induction h) (auto simp: index_of_def)

lemma nth_index_of [simp]: "x \<in> set h \<Longrightarrow> h ! index_of h x = x"
  by (induction h) (auto simp: index_of_def)

lemma heap_ok_cong:
  assumes "heap_ok w h (length h)" "\<And>x. x \<in> set h \<Longrightarrow> w' x = w x"
  shows "heap_ok w' h (length h)"
  using assms parent_less [of _ "length h"] by (simp add: heap_ok_def edge_ok_def)

interpretation heapq: most_first "\<lambda>w h. heap_ok w h (length h)" heap_Push "\<lambda>w h x. heap_Fix w h (index_of h x)"
  "\<lambda>w h x. heap_Remove w h (index_of h x)"
proof (unfold_locales, goal_cases)
  case (2 w h x)
  then obtain j where "j < length h" "h ! j = x" by (auto simp: in_set_conv_nth)
  with heap_top [OF 2(1), of j] show ?case by (cases h) auto
next
  case (3 w h w') then show ?case by (rule heap_ok_cong)
next
  case (4 w h x) then show ?case using heap_Push_ok [of w h x] by (simp add: heap_Push_def)
next
  case (6 w h x w')
  then show ?case using heap_Fix_ok [of w h "index_of h x" w'] by (metis index_of_less nth_index_of size_mset)
next
  case (7 w h x w')
  then show ?case using heap_Fix_ok [of w h "index_of h x" w'] by simp
next
  case (8 w h x w')
  have R: "heap_ok w' (heap_Remove w' h (index_of h x)) (length h - 1) \<and> mset (heap_Remove w' h (index_of h x)) = mset h - {#x#}"
    using heap_Remove_ok [of w h "index_of h x" w'] 8 by simp
  then have "length (heap_Remove w' h (index_of h x)) = length h - 1"
    using 8(3) by (metis size_Diff_singleton size_mset set_mset_mset)
  then show ?case using R by simp
next
  case (9 w h x w') then show ?case using heap_Remove_ok [of w h "index_of h x" w'] by simp
next
  case (5 w h x) then show ?case using heap_Push_ok [of w h x] by simp
qed (simp add: heap_ok_def)

end
