(* ===== verification/Idle_Rosters.thy ===== *)
theory Idle_Rosters
  imports Relay_State Go_Heap
begin

text \<open>
  The rosters the relay keeps for networks nobody is connected to
  (\<open>relay/internal/relay/idle.go\<close>): each counts against the address of the last member connected;
  over the budget, room is made at the address holding the most, whose longest idle roster is cut to
  a compact record and, only once it is one, forgotten. Addresses are in a heap by what they hold
  (\<open>Go_Heap\<close>). \<open>trim_act\<close> is one turn of the loop of \<open>trimIdle\<close>, which runs between other handlers;
  \<open>trimIdle\<close> itself may not return, so it is a partial function.
\<close>

section \<open>Operations\<close>

definition rosterCost :: "Roster \<Rightarrow> int" where
  "rosterCost r = (case r_Raw r of
       None \<Rightarrow> 64 + 56 * int (length (r_Members r))
     | Some raw \<Rightarrow> 64 + int (length raw) + 88 * int (length (r_Members r)))"

definition compactRoster :: "Roster \<Rightarrow> Roster" where
  "compactRoster r = \<lparr>r_Network = r_Network r, r_Version = r_Version r, r_IssuedAt = 0, r_NetworkKey = [],
     r_Primary = r_Primary r, r_Members = map (\<lambda>m. \<lparr>m_ID = m_ID m, m_Ed25519 = []\<rparr>) (r_Members r), r_Raw = None\<rparr>"

definition owner_bytes :: "relay \<Rightarrow> string \<Rightarrow> int" where
  "owner_bytes s k = (case owners s k of None \<Rightarrow> 0 | Some ow \<Rightarrow> o_bytes ow)"

definition fix_owner :: "string \<Rightarrow> relay \<Rightarrow> relay" where
  "fix_owner k s = s\<lparr>byMost := heap_Fix (owner_bytes s) (byMost s) (index_of (byMost s) k)\<rparr>"

text \<open>\<open>l.owners[owner]\<close>, made and pushed on the heap when it is missing.\<close>

definition get_owner :: "string \<Rightarrow> relay \<Rightarrow> relay" where
  "get_owner k s = (case owners s k of
       Some _ \<Rightarrow> s
     | None \<Rightarrow>
         let s = s\<lparr>owners := (owners s)(k := Some \<lparr>o_order = [], o_bytes = 0\<rparr>)\<rparr>
         in s\<lparr>byMost := heap_Push (owner_bytes s) (byMost s) k\<rparr>)"

definition upd_owner :: "string \<Rightarrow> (idleOwner \<Rightarrow> idleOwner) \<Rightarrow> relay \<Rightarrow> relay" where
  "upd_owner k f s = s\<lparr>owners := (owners s)(k := map_option f (owners s k))\<rparr>"

definition addLocked :: "nat \<Rightarrow> string \<Rightarrow> relay \<Rightarrow> relay" where
  "addLocked n owner s =
     (let s = get_owner owner s;
          sz = rosterCost (n_roster (nets s n));
          s = upd_net n (\<lambda>x. x\<lparr>n_idleOwner := Some owner, n_idleSize := sz\<rparr>) s;
          s = upd_owner owner (\<lambda>ow. ow\<lparr>o_order := o_order ow @ [n], o_bytes := o_bytes ow + sz\<rparr>) s
      in fix_owner owner (s\<lparr>idle_bytes := idle_bytes s + sz\<rparr>))"

definition resizeLocked :: "nat \<Rightarrow> relay \<Rightarrow> relay" where
  "resizeLocked n s =
     (case n_idleOwner (nets s n) of
        None \<Rightarrow> s
      | Some k \<Rightarrow>
          let sz = rosterCost (n_roster (nets s n)); d = sz - n_idleSize (nets s n);
              s = upd_owner k (\<lambda>ow. ow\<lparr>o_bytes := o_bytes ow + d\<rparr>) s;
              s = upd_net n (\<lambda>x. x\<lparr>n_idleSize := sz\<rparr>) (s\<lparr>idle_bytes := idle_bytes s + d\<rparr>)
          in fix_owner k s)"

definition removeLocked :: "nat \<Rightarrow> relay \<Rightarrow> relay" where
  "removeLocked n s =
     (case n_idleOwner (nets s n) of
        None \<Rightarrow> s
      | Some k \<Rightarrow>
          let sz = n_idleSize (nets s n);
              s = upd_owner k (\<lambda>ow. ow\<lparr>o_order := remove1 n (o_order ow), o_bytes := o_bytes ow - sz\<rparr>) s;
              s = upd_net n (\<lambda>x. x\<lparr>n_idleOwner := None, n_idleSize := 0\<rparr>) (s\<lparr>idle_bytes := idle_bytes s - sz\<rparr>)
          in case owners s k of
               None \<Rightarrow> s
             | Some ow \<Rightarrow>
                 if o_order ow = []
                 then s\<lparr>byMost := heap_Remove (owner_bytes s) (byMost s) (index_of (byMost s) k), owners := (owners s)(k := None)\<rparr>
                 else fix_owner k s)"

definition syncIdleLocked :: "nat \<Rightarrow> string \<Rightarrow> relay \<Rightarrow> relay" where
  "syncIdleLocked n owner s =
     (if IdleRostersBytes (cfg s) \<le> 0 then s
      else if n_members (nets s n) \<noteq> []
      then (if n_idleOwner (nets s n) \<noteq> None then removeLocked n s else s)
      else if n_idleOwner (nets s n) \<noteq> None then resizeLocked n s
      else addLocked n owner s)"

definition dropIdleLocked :: "nat \<Rightarrow> relay \<Rightarrow> relay" where
  "dropIdleLocked n s = (if n_idleOwner (nets s n) = None then s else removeLocked n s)"

text \<open>One turn of the loop: \<open>None\<close> when it returns.\<close>

definition trim_pick :: "relay \<Rightarrow> nat option" where
  "trim_pick s =
     (if idle_bytes s \<le> IdleRostersBytes (cfg s) \<or> byMost s = [] then None
      else map_option (\<lambda>ow. hd (o_order ow)) (owners s (hd (byMost s))))"

definition move_to_back :: "nat \<Rightarrow> relay \<Rightarrow> relay" where
  "move_to_back n s = (case n_idleOwner (nets s n) of
       None \<Rightarrow> s
     | Some k \<Rightarrow> upd_owner k (\<lambda>ow. ow\<lparr>o_order := remove1 n (o_order ow) @ [n]\<rparr>) s)"

definition trim_act :: "nat \<Rightarrow> relay \<Rightarrow> relay" where
  "trim_act n s =
     (if n_idleOwner (nets s n) \<noteq> None \<and> n_members (nets s n) = [] \<and> map_of (table s) (n_id (nets s n)) = Some n
      then if r_Raw (n_roster (nets s n)) \<noteq> None
           then move_to_back n (resizeLocked n (upd_net n (\<lambda>x. x\<lparr>n_roster := compactRoster (n_roster x)\<rparr>) s))
           else dropIdleLocked n (s\<lparr>table := AList.delete (n_id (nets s n)) (table s)\<rparr>)
      else s)"

partial_function (option) trim_loop :: "relay \<Rightarrow> relay option" where
  "trim_loop s = (case trim_pick s of None \<Rightarrow> Some s | Some n \<Rightarrow> trim_loop (trim_act n s))"

definition trimIdle :: "relay \<Rightarrow> relay option" where
  "trimIdle s = (if IdleRostersBytes (cfg s) \<le> 0 then Some s else trim_loop s)"

section \<open>The accounting is exact\<close>

definition sizes :: "relay \<Rightarrow> nat list \<Rightarrow> int" where
  "sizes s ns = (\<Sum>n\<leftarrow>ns. n_idleSize (nets s n))"

text \<open>
  Every owner on record holds some idle networks, is charged for exactly those, and is in the heap
  once; a network says it is idle at an owner exactly when it is in that owner's list; the total is
  the sum over the owners.
\<close>

definition owner_ok :: "relay \<Rightarrow> string \<Rightarrow> bool" where
  "owner_ok s k = (case owners s k of
       None \<Rightarrow> k \<notin> set (byMost s)
     | Some ow \<Rightarrow> k \<in> set (byMost s) \<and> o_order ow \<noteq> [] \<and> distinct (o_order ow) \<and> o_bytes ow = sizes s (o_order ow))"

definition in_list :: "relay \<Rightarrow> nat \<Rightarrow> string \<Rightarrow> bool" where
  "in_list s n k = (case owners s k of None \<Rightarrow> False | Some ow \<Rightarrow> n \<in> set (o_order ow))"

definition net_ok :: "relay \<Rightarrow> nat \<Rightarrow> bool" where
  "net_ok s n = (\<forall>k. n_idleOwner (nets s n) = Some k \<longleftrightarrow> in_list s n k)"

definition heap_part :: "relay \<Rightarrow> bool" where
  "heap_part s \<longleftrightarrow> heap_ok (owner_bytes s) (byMost s) (length (byMost s)) \<and> distinct (byMost s)"

definition idle_inv :: "relay \<Rightarrow> bool" where
  "idle_inv s \<longleftrightarrow> heap_part s \<and> (\<forall>k. owner_ok s k) \<and> (\<forall>n. net_ok s n) \<and>
     idle_bytes s = (\<Sum>k\<in>set (byMost s). owner_bytes s k)"

text \<open>What a network is charged for: the roster it holds, while nobody is connected.\<close>

definition size_ok :: "relay \<Rightarrow> nat \<Rightarrow> bool" where
  "size_ok s n \<longleftrightarrow> (n_idleOwner (nets s n) \<noteq> None \<longrightarrow>
     n_members (nets s n) = [] \<and> n_idleSize (nets s n) = rosterCost (n_roster (nets s n)))"

lemma sum_list_upd:
  assumes "distinct ns"
  shows "(\<Sum>x\<leftarrow>ns. if x = n then v else f x) = (\<Sum>x\<leftarrow>ns. f x) + (if n \<in> set ns then v - f n else 0 :: int)"
  using assms by (induction ns) (auto cong: map_cong)

lemma sizes_upd:
  assumes "distinct ns" "\<And>m. m \<noteq> n \<Longrightarrow> n_idleSize (nets s' m) = n_idleSize (nets s m)"
  shows "sizes s' ns = sizes s ns + (if n \<in> set ns then n_idleSize (nets s' n) - n_idleSize (nets s n) else 0)"
proof -
  have "n_idleSize (nets s' x) = (if x = n then n_idleSize (nets s' n) else n_idleSize (nets s x))" for x
    using assms(2) by auto
  then have "sizes s' ns = (\<Sum>x\<leftarrow>ns. if x = n then n_idleSize (nets s' n) else n_idleSize (nets s x))"
    by (simp add: sizes_def cong: map_cong)
  then show ?thesis using sum_list_upd [OF assms(1), of n] by (simp add: sizes_def)
qed

lemma fix_owner_simps [simp]:
  "nets (fix_owner k s) = nets s" "owners (fix_owner k s) = owners s" "idle_bytes (fix_owner k s) = idle_bytes s"
  "table (fix_owner k s) = table s" "conns (fix_owner k s) = conns s" "cfg (fix_owner k s) = cfg s"
  "owner_bytes (fix_owner k s) = owner_bytes s" "next_net (fix_owner k s) = next_net s" "channels (fix_owner k s) = channels s"
  "limits (fix_owner k s) = limits s" "origins (fix_owner k s) = origins s" "slowNets (fix_owner k s) = slowNets s"
  "chans (fix_owner k s) = chans s" "next_chan (fix_owner k s) = next_chan s" "ip_conns (fix_owner k s) = ip_conns s"
  by (simp_all add: fix_owner_def owner_bytes_def fun_eq_iff)

text \<open>After one owner's bytes changed, \<open>Fix\<close> puts the heap right again.\<close>

lemma fix_owner_heap:
  assumes H: "heap_part s0" "k \<in> set (byMost s0)" and s: "byMost s = byMost s0"
    and w: "\<And>j. j \<noteq> k \<Longrightarrow> owner_bytes s j = owner_bytes s0 j"
  shows "heap_part (fix_owner k s) \<and> set (byMost (fix_owner k s)) = set (byMost s0)"
proof -
  have h: "heap_ok (owner_bytes s0) (byMost s0) (length (byMost s0))" "distinct (byMost s0)" using H(1) by (simp_all add: heap_part_def)
  have v: "heap_ok (owner_bytes s) (byMost (fix_owner k s)) (length (byMost (fix_owner k s)))"
    using heapq.changed_valid [OF h H(2) w] by (simp add: fix_owner_def s)
  have "set (byMost (fix_owner k s)) = set (byMost s0) \<and> distinct (byMost (fix_owner k s))"
    using heapq.changed_set [OF h H(2) w] by (simp add: fix_owner_def s)
  with v show ?thesis by (simp add: heap_part_def)
qed

lemma get_owner_simps [simp]:
  "nets (get_owner k s) = nets s" "idle_bytes (get_owner k s) = idle_bytes s" "table (get_owner k s) = table s"
  "conns (get_owner k s) = conns s" "cfg (get_owner k s) = cfg s" "next_net (get_owner k s) = next_net s"
  "channels (get_owner k s) = channels s" "limits (get_owner k s) = limits s" "origins (get_owner k s) = origins s"
  "slowNets (get_owner k s) = slowNets s" "chans (get_owner k s) = chans s" "next_chan (get_owner k s) = next_chan s"
  "ip_conns (get_owner k s) = ip_conns s"
  by (simp_all add: get_owner_def Let_def split: option.split)

definition the_owner :: "relay \<Rightarrow> string \<Rightarrow> idleOwner" where
  "the_owner s k = (case owners s k of None \<Rightarrow> \<lparr>o_order = [], o_bytes = 0\<rparr> | Some ow \<Rightarrow> ow)"

lemma get_owner_owners: "owners (get_owner k s) = (owners s)(k := Some (the_owner s k))"
  by (auto simp: get_owner_def the_owner_def Let_def split: option.split)

lemma owner_bytes_the: "owner_bytes s k = o_bytes (the_owner s k)"
  by (simp add: owner_bytes_def the_owner_def split: option.split)

lemma get_owner_heap:
  assumes H: "heap_part s" "owner_ok s k"
  shows "heap_part (get_owner k s) \<and> set (byMost (get_owner k s)) = insert k (set (byMost s)) \<and> owner_bytes (get_owner k s) = owner_bytes s"
proof (cases "owners s k")
  case (Some ow)
  then show ?thesis using H by (auto simp: get_owner_def owner_ok_def)
next
  case None
  let ?s = "s\<lparr>owners := (owners s)(k := Some \<lparr>o_order = [], o_bytes = 0\<rparr>)\<rparr>"
  have w: "owner_bytes ?s = owner_bytes s" using None by (auto simp: owner_bytes_def fun_eq_iff)
  then have w': "owner_bytes (get_owner k s) = owner_bytes s" using None by (simp add: get_owner_def Let_def owner_bytes_def fun_eq_iff)
  have h: "heap_ok (owner_bytes s) (byMost s) (length (byMost s))" "distinct (byMost s)" using H(1) by (simp_all add: heap_part_def)
  have k: "k \<notin> set (byMost s)" using H(2) None by (simp add: owner_ok_def)
  have b: "byMost (get_owner k s) = heap_Push (owner_bytes s) (byMost s) k" using None w by (simp add: get_owner_def Let_def)
  show ?thesis
    using heapq.push_valid [OF h(1), of k] heapq.push_set [OF h(1), of k] heapq.push_distinct [OF h k] b w'
    by (simp add: heap_part_def)
qed
text \<open>
  The result of an operation on network \<open>n\<close> and owner \<open>k\<close>: the other owners and networks keep what
  they have, so the invariant is settled at \<open>n\<close> and \<open>k\<close>.
\<close>

lemma sum_insert_upd:
  assumes "finite A" "\<And>j. j \<noteq> k \<Longrightarrow> f' j = f j"
  shows "sum f' (insert k A) = sum f (insert k A) + (f' k - f k :: int)"
proof -
  have "sum f' (A - {k}) = sum f (A - {k})" using assms(2) by (intro sum.cong) auto
  then show ?thesis using assms(1) by (simp add: sum.insert_remove)
qed

lemma idle_inv_update:
  assumes I: "idle_inv s" and H: "heap_part s'"
    and O: "\<And>j. j \<noteq> k \<Longrightarrow> owners s' j = owners s j" and B: "\<And>j. j \<noteq> k \<Longrightarrow> j \<in> set (byMost s') \<longleftrightarrow> j \<in> set (byMost s)"
    and N: "\<And>m. m \<noteq> n \<Longrightarrow> n_idleSize (nets s' m) = n_idleSize (nets s m) \<and> n_idleOwner (nets s' m) = n_idleOwner (nets s m)"
    and L: "\<And>j. j \<noteq> k \<Longrightarrow> \<not> in_list s n j" and n: "n_idleOwner (nets s' n) = Some k \<longleftrightarrow> in_list s' n k"
    and n0: "\<And>j. j \<noteq> k \<Longrightarrow> n_idleOwner (nets s' n) \<noteq> Some j"
    and K: "owner_ok s' k" and M: "\<And>m. m \<noteq> n \<Longrightarrow> in_list s' m k \<longleftrightarrow> in_list s m k"
    and T: "idle_bytes s' = idle_bytes s + (owner_bytes s' k - owner_bytes s k)"
  shows "idle_inv s'"
proof -
  have oj: "owner_ok s' j" if "j \<noteq> k" for j
  proof (cases "owners s j")
    case None
    then show ?thesis using I O [OF that] B [OF that] by (auto simp: idle_inv_def owner_ok_def dest!: spec [of _ j])
  next
    case (Some ow)
    have "owner_ok s j" using I by (simp add: idle_inv_def)
    moreover have "n \<notin> set (o_order ow)" using L [OF that] Some by (simp add: in_list_def)
    ultimately show ?thesis
      using Some O [OF that] B [OF that] sizes_upd [of "o_order ow" n s' s] N by (simp add: owner_ok_def)
  qed
  have lj: "in_list s' m j \<longleftrightarrow> in_list s m j" if "j \<noteq> k" for m j using O [OF that] by (simp add: in_list_def)
  have "net_ok s' m" for m
  proof (cases "m = n")
    case True
    have "n_idleOwner (nets s' n) = Some j \<longleftrightarrow> in_list s' n j" for j using n n0 [of j] L [of j] lj [of j n] by (cases "j = k") auto
    then show ?thesis using True by (simp add: net_ok_def)
  next
    case False
    have "net_ok s m" using I by (simp add: idle_inv_def)
    then have "n_idleOwner (nets s' m) = Some j \<longleftrightarrow> in_list s' m j" for j
      using N [OF False] M [OF False] lj [of j m] by (cases "j = k") (auto simp: net_ok_def)
    then show ?thesis by (simp add: net_ok_def)
  qed
  moreover have "owner_ok s' j" for j using oj K by (cases "j = k") auto
  moreover have "idle_bytes s' = sum (owner_bytes s') (set (byMost s'))"
  proof -
    have w: "\<And>j. j \<noteq> k \<Longrightarrow> owner_bytes s' j = owner_bytes s j" using O by (simp add: owner_bytes_def)
    have out: "k \<notin> set (byMost x) \<Longrightarrow> owner_ok x k \<Longrightarrow> owner_bytes x k = 0" for x
      by (auto simp: owner_ok_def owner_bytes_def split: option.splits)
    have e: "insert k (set (byMost s')) = insert k (set (byMost s))" using B by auto
    have ins: "sum (owner_bytes x) (insert k (set (byMost x))) = sum (owner_bytes x) (set (byMost x))" if "owner_ok x k" for x
      using out [OF _ that] by (cases "k \<in> set (byMost x)") (auto simp: insert_absorb)
    have "sum (owner_bytes s') (set (byMost s')) = sum (owner_bytes s) (insert k (set (byMost s))) + (owner_bytes s' k - owner_bytes s k)"
      using ins [OF K] e sum_insert_upd [of "set (byMost s)" k "owner_bytes s'" "owner_bytes s"] w by simp
    also have "sum (owner_bytes s) (insert k (set (byMost s))) = idle_bytes s" using ins [of s] I by (simp add: idle_inv_def)
    finally show ?thesis using T by simp
  qed
  ultimately show ?thesis using H by (simp add: idle_inv_def)
qed

lemma upd_owner_simps [simp]:
  "nets (upd_owner k f s) = nets s" "idle_bytes (upd_owner k f s) = idle_bytes s" "table (upd_owner k f s) = table s"
  "conns (upd_owner k f s) = conns s" "cfg (upd_owner k f s) = cfg s" "next_net (upd_owner k f s) = next_net s"
  "channels (upd_owner k f s) = channels s" "limits (upd_owner k f s) = limits s" "origins (upd_owner k f s) = origins s"
  "slowNets (upd_owner k f s) = slowNets s" "chans (upd_owner k f s) = chans s" "next_chan (upd_owner k f s) = next_chan s"
  "ip_conns (upd_owner k f s) = ip_conns s" "byMost (upd_owner k f s) = byMost s"
  "owners (upd_owner k f s) = (owners s)(k := map_option f (owners s k))"
  by (simp_all add: upd_owner_def)

lemma not_idle_not_listed: "idle_inv s \<Longrightarrow> n_idleOwner (nets s n) = None \<Longrightarrow> \<not> in_list s n k"
  by (auto simp: idle_inv_def net_ok_def dest!: spec [of _ n])

lemma addLocked_fields:
  shows "nets (addLocked n k s) = (nets s)(n := (nets s n)\<lparr>n_idleOwner := Some k, n_idleSize := rosterCost (n_roster (nets s n))\<rparr>)"
    and "owners (addLocked n k s) = (owners s)(k := Some ((the_owner s k)\<lparr>o_order := o_order (the_owner s k) @ [n], o_bytes := o_bytes (the_owner s k) + rosterCost (n_roster (nets s n))\<rparr>))"
    and "idle_bytes (addLocked n k s) = idle_bytes s + rosterCost (n_roster (nets s n))"
  by (simp_all add: addLocked_def Let_def get_owner_owners)

lemma addLocked_heap:
  assumes "idle_inv s"
  shows "heap_part (addLocked n k s) \<and> set (byMost (addLocked n k s)) = insert k (set (byMost s))"
proof -
  have G: "heap_part (get_owner k s) \<and> set (byMost (get_owner k s)) = insert k (set (byMost s))"
    using get_owner_heap assms by (auto simp: idle_inv_def)
  have "heap_part (addLocked n k s) \<and> set (byMost (addLocked n k s)) = set (byMost (get_owner k s))"
    unfolding addLocked_def Let_def by (rule fix_owner_heap) (use G in \<open>auto simp: owner_bytes_def\<close>)
  then show ?thesis using G by simp
qed

lemma idle_inv_add:
  assumes I: "idle_inv s" and n: "n_idleOwner (nets s n) = None"
  shows "idle_inv (addLocked n k s)"
proof (rule idle_inv_update [OF I, where n = n and k = k])
  let ?s = "addLocked n k s"
  note F = addLocked_fields [of n k s]
  show "heap_part ?s" using addLocked_heap [OF I] by simp
  have "owner_ok s k" using I by (simp add: idle_inv_def)
  then have ow: "distinct (o_order (the_owner s k))" "o_bytes (the_owner s k) = sizes s (o_order (the_owner s k))"
    by (auto simp: owner_ok_def the_owner_def sizes_def split: option.splits)
  have out: "n \<notin> set (o_order (the_owner s k))"
    using not_idle_not_listed [OF I n, of k] by (auto simp: in_list_def the_owner_def split: option.splits)
  then have "sizes ?s (o_order (the_owner s k)) = sizes s (o_order (the_owner s k))"
    using sizes_upd [OF ow(1), of n ?s s] by (simp add: F)
  then show "owner_ok ?s k" using ow out addLocked_heap [OF I, of n k] by (simp add: owner_ok_def F sizes_def)
  show "idle_bytes ?s = idle_bytes s + (owner_bytes ?s k - owner_bytes s k)"
    unfolding owner_bytes_the [of s] by (simp add: F owner_bytes_def)
  show "\<And>j. j \<noteq> k \<Longrightarrow> \<not> in_list s n j" by (rule not_idle_not_listed [OF I n])
qed (use addLocked_heap [OF I, of n k] in \<open>auto simp: addLocked_fields in_list_def the_owner_def split: option.splits\<close>)
lemma idle_listed:
  assumes I: "idle_inv s" and n: "n_idleOwner (nets s n) = Some k"
  shows "\<exists>ow. owners s k = Some ow \<and> n \<in> set (o_order ow) \<and> k \<in> set (byMost s) \<and> distinct (o_order ow) \<and>
           o_bytes ow = sizes s (o_order ow)"
    and "\<And>j. j \<noteq> k \<Longrightarrow> \<not> in_list s n j"
proof -
  have "net_ok s n" "owner_ok s k" using I by (simp_all add: idle_inv_def)
  then show "\<exists>ow. owners s k = Some ow \<and> n \<in> set (o_order ow) \<and> k \<in> set (byMost s) \<and> distinct (o_order ow) \<and>
           o_bytes ow = sizes s (o_order ow)"
    and "\<And>j. j \<noteq> k \<Longrightarrow> \<not> in_list s n j"
    using n by (auto simp: net_ok_def in_list_def owner_ok_def split: option.splits dest: spec [of _ k])
qed

lemma resizeLocked_fields:
  assumes "n_idleOwner (nets s n) = Some k"
  shows "nets (resizeLocked n s) = (nets s)(n := (nets s n)\<lparr>n_idleSize := rosterCost (n_roster (nets s n))\<rparr>)"
    and "owners (resizeLocked n s) = (owners s)(k := map_option (\<lambda>ow. ow\<lparr>o_bytes := o_bytes ow + (rosterCost (n_roster (nets s n)) - n_idleSize (nets s n))\<rparr>) (owners s k))"
    and "idle_bytes (resizeLocked n s) = idle_bytes s + (rosterCost (n_roster (nets s n)) - n_idleSize (nets s n))"
  by (simp_all add: resizeLocked_def Let_def assms)

lemma resizeLocked_heap:
  assumes I: "idle_inv s" and n: "n_idleOwner (nets s n) = Some k"
  shows "heap_part (resizeLocked n s) \<and> set (byMost (resizeLocked n s)) = set (byMost s)"
  using I idle_listed(1) [OF I n]
  by (simp add: resizeLocked_def Let_def n, intro fix_owner_heap) (auto simp: idle_inv_def owner_bytes_def)

lemma idle_inv_resize:
  assumes I: "idle_inv s" and n: "n_idleOwner (nets s n) = Some k"
  shows "idle_inv (resizeLocked n s)"
proof -
  let ?s = "resizeLocked n s"
  note F = resizeLocked_fields [OF n] and H = resizeLocked_heap [OF I n]
  obtain ow where ow: "owners s k = Some ow" "n \<in> set (o_order ow)" "k \<in> set (byMost s)" "distinct (o_order ow)"
    "o_bytes ow = sizes s (o_order ow)" using idle_listed(1) [OF I n] by blast
  have sz: "sizes ?s (o_order ow) = sizes s (o_order ow) + (rosterCost (n_roster (nets s n)) - n_idleSize (nets s n))"
    using sizes_upd [OF ow(4), of n ?s s] ow(2) by (simp add: F)
  show ?thesis
  proof (rule idle_inv_update [OF I, where n = n and k = k])
    show "owner_ok ?s k" using ow sz H by (auto simp: owner_ok_def F)
    show "idle_bytes ?s = idle_bytes s + (owner_bytes ?s k - owner_bytes s k)" using ow by (simp add: owner_bytes_def F)
    show "\<And>j. j \<noteq> k \<Longrightarrow> \<not> in_list s n j" by (rule idle_listed(2) [OF I n])
  qed (use H n ow in \<open>auto simp: F in_list_def\<close>)
qed

lemma removeLocked_fields:
  assumes "n_idleOwner (nets s n) = Some k" "owners s k = Some ow"
  defines "left \<equiv> remove1 n (o_order ow)"
  shows "nets (removeLocked n s) = (nets s)(n := (nets s n)\<lparr>n_idleOwner := None, n_idleSize := 0\<rparr>)"
    and "owners (removeLocked n s) = (owners s)(k := if left = [] then None
           else Some (ow\<lparr>o_order := left, o_bytes := o_bytes ow - n_idleSize (nets s n)\<rparr>))"
    and "idle_bytes (removeLocked n s) = idle_bytes s - n_idleSize (nets s n)"
  by (simp_all add: removeLocked_def Let_def assms)

lemma owner_bytes_cong [simp]:
  "owner_bytes (upd_net m g s) = owner_bytes s" "owner_bytes (s\<lparr>idle_bytes := b\<rparr>) = owner_bytes s"
  by (simp_all add: owner_bytes_def fun_eq_iff)

lemma owner_bytes_upd: "owners s k = Some ow \<Longrightarrow> owner_bytes (upd_owner k f s) = (owner_bytes s)(k := o_bytes (f ow))"
  by (auto simp: owner_bytes_def fun_eq_iff)

lemma removeLocked_heap:
  assumes I: "idle_inv s" and n: "n_idleOwner (nets s n) = Some k" and ow: "owners s k = Some ow"
  shows "heap_part (removeLocked n s) \<and>
    set (byMost (removeLocked n s)) = (if remove1 n (o_order ow) = [] then set (byMost s) - {k} else set (byMost s))"
proof (cases "remove1 n (o_order ow) = []")
  case False
  then show ?thesis
    using I idle_listed(1) [OF I n] ow
    by (simp add: removeLocked_def Let_def n, intro fix_owner_heap) (auto simp: idle_inv_def owner_bytes_def)
next
  case True
  have k: "k \<in> set (byMost s)" "n \<in> set (o_order ow)" "distinct (o_order ow)" "o_bytes ow = sizes s (o_order ow)"
    using idle_listed(1) [OF I n] ow by auto
  then have "o_order ow = [n]" using True by (cases "o_order ow") (auto split: if_splits)
  then have z: "o_bytes ow = n_idleSize (nets s n)" using k(4) by (simp add: sizes_def)
  have h: "heap_ok (owner_bytes s) (byMost s) (length (byMost s))" "distinct (byMost s)" using I by (simp_all add: idle_inv_def heap_part_def)
  let ?w = "owner_bytes (removeLocked n s)"
  define v where "v = (owner_bytes s)(k := 0)"
  have r: "byMost (removeLocked n s) = heap_Remove v (byMost s) (index_of (byMost s) k)"
    using True owner_bytes_upd [OF ow, of "\<lambda>ow. ow\<lparr>o_order := remove1 n (o_order ow), o_bytes := o_bytes ow - n_idleSize (nets s n)\<rparr>"]
    by (simp add: removeLocked_def Let_def n ow z v_def)
  have w: "?w = v" using True ow by (auto simp: owner_bytes_def v_def fun_eq_iff removeLocked_fields [OF n ow])
  have v: "\<And>j. j \<noteq> k \<Longrightarrow> v j = owner_bytes s j" by (simp add: v_def)
  show ?thesis
    using heapq.removed_valid [OF h k(1) v] heapq.removed_set [OF h k(1) v] r w True by (simp add: heap_part_def)
qed

lemma idle_inv_remove:
  assumes I: "idle_inv s" and n: "n_idleOwner (nets s n) = Some k"
  shows "idle_inv (removeLocked n s)"
proof -
  let ?s = "removeLocked n s"
  obtain ow where ow: "owners s k = Some ow" "n \<in> set (o_order ow)" "k \<in> set (byMost s)" "distinct (o_order ow)"
    "o_bytes ow = sizes s (o_order ow)" using idle_listed(1) [OF I n] by blast
  note F = removeLocked_fields [OF n ow(1)] and H = removeLocked_heap [OF I n ow(1)]
  have s1: "sizes s (o_order ow) = n_idleSize (nets s n) + sizes s (remove1 n (o_order ow))"
    using ow(2) by (simp add: sizes_def sum_list_map_remove1)
  have s2: "sizes ?s (remove1 n (o_order ow)) = sizes s (remove1 n (o_order ow))"
    using sizes_upd [of "remove1 n (o_order ow)" n ?s s] ow(4) by (simp add: F)
  show ?thesis
  proof (rule idle_inv_update [OF I, where n = n and k = k])
    show "owner_ok ?s k" using ow s1 s2 H by (auto simp: owner_ok_def F)
    have "remove1 n (o_order ow) = [] \<Longrightarrow> o_bytes ow = n_idleSize (nets s n)" using s1 ow(5) by (simp add: sizes_def)
    then show "idle_bytes ?s = idle_bytes s + (owner_bytes ?s k - owner_bytes s k)" using ow by (simp add: owner_bytes_def F)
    show "\<And>j. j \<noteq> k \<Longrightarrow> \<not> in_list s n j" by (rule idle_listed(2) [OF I n])
    show "n_idleOwner (nets ?s n) = Some k \<longleftrightarrow> in_list ?s n k" using ow(4) by (auto simp: F in_list_def)
    show "in_list ?s m k \<longleftrightarrow> in_list s m k" if "m \<noteq> n" for m
    proof -
      have "m \<in> set (remove1 n (o_order ow)) \<longleftrightarrow> m \<in> set (o_order ow)" using that by simp
      then show ?thesis using ow(1) by (auto simp: F in_list_def)
    qed
  qed (use H in \<open>auto simp: F\<close>)
qed
lemma idle_inv_sync: "idle_inv s \<Longrightarrow> idle_inv (syncIdleLocked n k s)"
  by (auto simp: syncIdleLocked_def intro: idle_inv_add idle_inv_resize idle_inv_remove)

text \<open>A change that leaves the accounting's own fields alone leaves it exact.\<close>

lemma idle_inv_frame:
  assumes I: "idle_inv s" and f: "owners s' = owners s" "byMost s' = byMost s" "idle_bytes s' = idle_bytes s"
    "\<And>n. n_idleOwner (nets s' n) = n_idleOwner (nets s n)"
    "\<And>n. n_idleOwner (nets s n) \<noteq> None \<Longrightarrow> n_idleSize (nets s' n) = n_idleSize (nets s n)"
  shows "idle_inv s'"
proof -
  have o: "owner_bytes s' = owner_bytes s" using f(1) by (simp add: owner_bytes_def fun_eq_iff)
  have l: "in_list s' = in_list s" using f(1) by (simp add: in_list_def fun_eq_iff)
  have N: "net_ok s n" for n using I by (simp add: idle_inv_def)
  have "owner_ok s' k" for k
  proof (cases "owners s k")
    case (Some ow)
    have "n_idleSize (nets s' n) = n_idleSize (nets s n)" if "n \<in> set (o_order ow)" for n
    proof -
      have "in_list s n k" using that Some by (simp add: in_list_def)
      then have "n_idleOwner (nets s n) = Some k" using N [of n] by (simp add: net_ok_def)
      then show ?thesis using f(5) [of n] by simp
    qed
    then have "sizes s' (o_order ow) = sizes s (o_order ow)" by (simp add: sizes_def cong: map_cong)
    moreover have "owner_ok s k" using I by (simp add: idle_inv_def)
    ultimately show ?thesis using Some f by (simp add: owner_ok_def)
  next
    case None
    moreover have "owner_ok s k" using I by (simp add: idle_inv_def)
    ultimately show ?thesis using f by (simp add: owner_ok_def)
  qed
  moreover have "net_ok s' n" for n using N [of n] by (simp add: net_ok_def l f(4))
  ultimately show ?thesis using I f(2,3) o by (simp add: idle_inv_def heap_part_def)
qed

text \<open>What the idle operations leave alone.\<close>

definition no_idle :: "network \<Rightarrow> network" where
  "no_idle x = x\<lparr>n_idleOwner := None, n_idleSize := 0\<rparr>"

definition same_else :: "nat \<Rightarrow> relay \<Rightarrow> relay \<Rightarrow> bool" where
  "same_else n s s' \<longleftrightarrow> conns s' = conns s \<and> table s' = table s \<and> cfg s' = cfg s \<and> next_net s' = next_net s \<and>
     channels s' = channels s \<and> limits s' = limits s \<and> origins s' = origins s \<and> slowNets s' = slowNets s \<and> chans s' = chans s \<and>
     (\<forall>m. m \<noteq> n \<longrightarrow> nets s' m = nets s m) \<and> no_idle (nets s' n) = no_idle (nets s n)"

lemma no_idle_upd [simp]: "no_idle (x\<lparr>n_idleOwner := k\<rparr>) = no_idle x" "no_idle (x\<lparr>n_idleSize := z\<rparr>) = no_idle x"
  by (simp_all add: no_idle_def)

lemma same_else_refl: "same_else n s s"
  by (simp add: same_else_def)

lemma same_else_add: "same_else n s (addLocked n k s)"
  by (simp add: same_else_def addLocked_def Let_def)

lemma same_else_resize: "same_else n s (resizeLocked n s)"
  by (simp add: same_else_def resizeLocked_def Let_def split: option.split)

lemma same_else_remove: "same_else n s (removeLocked n s)"
  by (simp add: same_else_def removeLocked_def Let_def split: option.split)

lemma same_else_sync: "same_else n s (syncIdleLocked n k s)"
  by (simp add: syncIdleLocked_def same_else_refl same_else_add same_else_resize same_else_remove)

lemma no_idle_sel: "no_idle x = no_idle y \<Longrightarrow> n_members x = n_members y" "no_idle x = no_idle y \<Longrightarrow> n_roster x = n_roster y"
  "no_idle x = no_idle y \<Longrightarrow> n_id x = n_id y" "no_idle x = no_idle y \<Longrightarrow> n_hour x = n_hour y"
  "no_idle x = no_idle y \<Longrightarrow> n_rateNow x = n_rateNow y" "no_idle x = no_idle y \<Longrightarrow> n_slowed x = n_slowed y"
  "no_idle x = no_idle y \<Longrightarrow> n_origin x = n_origin y" "no_idle x = no_idle y \<Longrightarrow> n_emptySince x = n_emptySince y"
  by (cases x; cases y; simp add: no_idle_def)+

lemma same_elseD:
  assumes "same_else n s s'"
  shows "conns s' = conns s" "table s' = table s" "cfg s' = cfg s" "next_net s' = next_net s" "channels s' = channels s"
    "limits s' = limits s" "origins s' = origins s" "slowNets s' = slowNets s" "chans s' = chans s"
    "n_members (nets s' m) = n_members (nets s m)" "n_roster (nets s' m) = n_roster (nets s m)" "n_id (nets s' m) = n_id (nets s m)"
    "n_hour (nets s' m) = n_hour (nets s m)" "n_rateNow (nets s' m) = n_rateNow (nets s m)" "n_slowed (nets s' m) = n_slowed (nets s m)"
    "n_origin (nets s' m) = n_origin (nets s m)" "n_emptySince (nets s' m) = n_emptySince (nets s m)" "m \<noteq> n \<Longrightarrow> nets s' m = nets s m"
proof -
  have "no_idle (nets s' m) = no_idle (nets s m)" using assms by (cases "m = n") (auto simp: same_else_def)
  note P = no_idle_sel [OF this]
  show "n_members (nets s' m) = n_members (nets s m)" "n_roster (nets s' m) = n_roster (nets s m)" "n_id (nets s' m) = n_id (nets s m)"
    "n_hour (nets s' m) = n_hour (nets s m)" "n_rateNow (nets s' m) = n_rateNow (nets s m)" "n_slowed (nets s' m) = n_slowed (nets s m)"
    "n_origin (nets s' m) = n_origin (nets s m)" "n_emptySince (nets s' m) = n_emptySince (nets s m)"
    by (fact P)+
qed (use assms in \<open>simp_all add: same_else_def\<close>)

lemmas sync_same [simp] = same_elseD [OF same_else_sync]

lemma dropIdleLocked_same: "same_else n s (dropIdleLocked n s)"
  by (simp add: dropIdleLocked_def same_else_refl same_else_remove)

lemmas drop_same [simp] = same_elseD [OF dropIdleLocked_same]

lemma idle_inv_drop: "idle_inv s \<Longrightarrow> idle_inv (dropIdleLocked n s)"
  by (auto simp: dropIdleLocked_def intro: idle_inv_remove)

lemma dropped: "idle_inv s \<Longrightarrow> n_idleOwner (nets (dropIdleLocked n s) n) = None"
  using idle_listed(1) [of s n] by (auto simp: dropIdleLocked_def removeLocked_fields)

text \<open>After \<open>syncIdleLocked\<close> a network is charged for the roster it holds, or not at all.\<close>

lemma size_ok_sync:
  assumes I: "idle_inv s" and L: "IdleRostersBytes (cfg s) > 0"
  shows "size_ok (syncIdleLocked n k s) n"
    and "n_members (nets s n) = [] \<Longrightarrow> n_idleOwner (nets (syncIdleLocked n k s) n) \<noteq> None"
proof -
  have "size_ok (syncIdleLocked n k s) n \<and> (n_members (nets s n) = [] \<longrightarrow> n_idleOwner (nets (syncIdleLocked n k s) n) \<noteq> None)"
  proof (cases "n_idleOwner (nets s n)")
    case None
    then show ?thesis using L by (simp add: syncIdleLocked_def size_ok_def addLocked_fields)
  next
    case (Some j)
    then show ?thesis
      using L idle_listed(1) [OF I Some] by (auto simp: syncIdleLocked_def size_ok_def resizeLocked_fields removeLocked_fields)
  qed
  then show "size_ok (syncIdleLocked n k s) n"
    and "n_members (nets s n) = [] \<Longrightarrow> n_idleOwner (nets (syncIdleLocked n k s) n) \<noteq> None" by auto
qed

lemma size_ok_other: "same_else n s s' \<Longrightarrow> m \<noteq> n \<Longrightarrow> size_ok s' m = size_ok s m"
  by (simp add: size_ok_def same_elseD)

section \<open>Making room\<close>

lemma trim_pick_Some:
  assumes I: "idle_inv s" and p: "trim_pick s = Some n"
  shows "\<exists>k ow. n_idleOwner (nets s n) = Some k \<and> owners s k = Some ow \<and> hd (o_order ow) = n \<and>
           (\<forall>j. owners s j \<noteq> None \<longrightarrow> owner_bytes s j \<le> owner_bytes s k)"
proof -
  let ?k = "hd (byMost s)"
  obtain ow where ow: "owners s ?k = Some ow" "n = hd (o_order ow)" using p by (auto simp: trim_pick_def split: if_splits)
  have ok: "owner_ok s j" for j using I by (simp add: idle_inv_def)
  have "o_order ow \<noteq> []" using ok [of ?k] ow by (simp add: owner_ok_def)
  then have "in_list s n ?k" using ow by (simp add: in_list_def)
  moreover have "net_ok s n" using I by (simp add: idle_inv_def)
  ultimately have "n_idleOwner (nets s n) = Some ?k" by (simp add: net_ok_def)
  moreover have "owner_bytes s j \<le> owner_bytes s ?k" if "owners s j \<noteq> None" for j
  proof -
    have "j \<in> set (byMost s)" using ok [of j] that by (auto simp: owner_ok_def)
    moreover have "heap_ok (owner_bytes s) (byMost s) (length (byMost s))" using I by (simp add: idle_inv_def heap_part_def)
    ultimately show ?thesis by (rule_tac heapq.valid_hd)
  qed
  ultimately show ?thesis using ow by blast
qed

lemma trim_pick_None: "idle_inv s \<Longrightarrow> trim_pick s = None \<Longrightarrow> IdleRostersBytes (cfg s) \<ge> 0 \<Longrightarrow> idle_bytes s \<le> IdleRostersBytes (cfg s)"
proof -
  assume I: "idle_inv s" and p: "trim_pick s = None" and L: "IdleRostersBytes (cfg s) \<ge> 0"
  have "owner_ok s (hd (byMost s))" using I by (simp add: idle_inv_def)
  then have "idle_bytes s \<le> IdleRostersBytes (cfg s) \<or> byMost s = []"
    using p by (auto simp: trim_pick_def owner_ok_def split: if_splits option.splits)
  then show ?thesis using I L by (auto simp: idle_inv_def)
qed

text \<open>
  Every network in the accounting is one the table holds. The code means this to be so, and \<open>trimIdle\<close>
  relies on it to return.
\<close>

definition held :: "relay \<Rightarrow> bool" where
  "held s \<longleftrightarrow> (\<forall>n. n_idleOwner (nets s n) \<noteq> None \<longrightarrow> map_of (table s) (n_id (nets s n)) = Some n)"

definition idle_nets :: "relay \<Rightarrow> nat set" where
  "idle_nets s = {n. n_idleOwner (nets s n) \<noteq> None}"

definition full_nets :: "relay \<Rightarrow> nat set" where
  "full_nets s = {n \<in> idle_nets s. r_Raw (n_roster (nets s n)) \<noteq> None}"

lemma finite_idle: "idle_inv s \<Longrightarrow> finite (idle_nets s)"
proof -
  assume I: "idle_inv s"
  have "idle_nets s \<subseteq> (\<Union>k\<in>set (byMost s). set (o_order (the_owner s k)))"
    using idle_listed(1) [OF I] by (force simp: idle_nets_def the_owner_def)
  then show ?thesis by (rule finite_subset) simp
qed

lemma finite_full: "idle_inv s \<Longrightarrow> finite (full_nets s)"
  by (rule finite_subset [OF _ finite_idle]) (auto simp: full_nets_def)

lemma idle_inv_move: "idle_inv s \<Longrightarrow> idle_inv (move_to_back n s)"
proof (cases "n_idleOwner (nets s n)")
  case (Some k)
  assume I: "idle_inv s"
  let ?f = "\<lambda>ow. ow\<lparr>o_order := remove1 n (o_order ow) @ [n]\<rparr>" let ?s = "upd_owner k ?f s"
  obtain ow where ow: "owners s k = Some ow" "n \<in> set (o_order ow)" "k \<in> set (byMost s)" "distinct (o_order ow)"
    "o_bytes ow = sizes s (o_order ow)" using idle_listed(1) [OF I Some] by blast
  have b: "owner_bytes ?s = owner_bytes s" using ow(1) by (auto simp: owner_bytes_def fun_eq_iff)
  have "sizes s (remove1 n (o_order ow) @ [n]) = sizes s (o_order ow)"
    using ow(2) by (simp add: sizes_def sum_list_map_remove1)
  then have K: "owner_ok ?s k" using ow by (simp add: owner_ok_def sizes_def)
  have "idle_inv ?s"
    by (rule idle_inv_update [OF I, where n = n and k = k])
      (use I K b ow Some idle_listed(2) [OF I Some] in \<open>auto simp: idle_inv_def heap_part_def in_list_def\<close>)
  then show ?thesis using Some by (simp add: move_to_back_def)
qed (simp add: move_to_back_def)

lemma move_same [simp]:
  "nets (move_to_back n s) = nets s" "table (move_to_back n s) = table s" "cfg (move_to_back n s) = cfg s" "conns (move_to_back n s) = conns s"
  by (simp_all add: move_to_back_def split: option.split)
lemma compact_simps [simp]:
  "r_Version (compactRoster r) = r_Version r" "r_Primary (compactRoster r) = r_Primary r" "r_Network (compactRoster r) = r_Network r"
  "r_Raw (compactRoster r) = None" "on_roster (compactRoster r) i = on_roster r i"
  by (auto simp: compactRoster_def on_roster_iff image_iff)

text \<open>The two turns that do something, and what they leave.\<close>

lemma trim_compact:
  assumes I: "idle_inv s" and n: "n_idleOwner (nets s n) = Some k" "n_members (nets s n) = []"
    "map_of (table s) (n_id (nets s n)) = Some n" "r_Raw (n_roster (nets s n)) \<noteq> None"
  shows "idle_inv (trim_act n s)" "table (trim_act n s) = table s" "cfg (trim_act n s) = cfg s"
    "nets (trim_act n s) = (nets s)(n := (nets s n)\<lparr>n_roster := compactRoster (n_roster (nets s n)),
       n_idleSize := rosterCost (compactRoster (n_roster (nets s n)))\<rparr>)" "conns (trim_act n s) = conns s"
proof -
  let ?s = "upd_net n (\<lambda>x. x\<lparr>n_roster := compactRoster (n_roster x)\<rparr>) s"
  have A: "trim_act n s = move_to_back n (resizeLocked n ?s)" using n by (simp add: trim_act_def)
  have I': "idle_inv ?s" by (rule idle_inv_frame [OF I]) auto
  have k: "n_idleOwner (nets ?s n) = Some k" using n by simp
  show "idle_inv (trim_act n s)" unfolding A by (intro idle_inv_move idle_inv_resize [OF I' k])
  show "table (trim_act n s) = table s" "cfg (trim_act n s) = cfg s" "conns (trim_act n s) = conns s"
    using same_elseD(1-3) [OF same_else_resize [of n ?s]] by (simp_all add: A)
  show "nets (trim_act n s) = (nets s)(n := (nets s n)\<lparr>n_roster := compactRoster (n_roster (nets s n)),
       n_idleSize := rosterCost (compactRoster (n_roster (nets s n)))\<rparr>)"
    unfolding A by (simp add: resizeLocked_fields [OF k])
qed

lemma trim_forget:
  assumes I: "idle_inv s" and n: "n_idleOwner (nets s n) = Some k" "n_members (nets s n) = []"
    "map_of (table s) (n_id (nets s n)) = Some n" "r_Raw (n_roster (nets s n)) = None"
  shows "idle_inv (trim_act n s)" "table (trim_act n s) = AList.delete (n_id (nets s n)) (table s)" "cfg (trim_act n s) = cfg s"
    "nets (trim_act n s) = (nets s)(n := (nets s n)\<lparr>n_idleOwner := None, n_idleSize := 0\<rparr>)" "conns (trim_act n s) = conns s"
proof -
  let ?s = "s\<lparr>table := AList.delete (n_id (nets s n)) (table s)\<rparr>"
  have A: "trim_act n s = dropIdleLocked n ?s" using n by (simp add: trim_act_def)
  have I': "idle_inv ?s" by (rule idle_inv_frame [OF I]) auto
  have k: "n_idleOwner (nets ?s n) = Some k" using n by simp
  show "idle_inv (trim_act n s)" unfolding A by (intro idle_inv_drop I')
  show "table (trim_act n s) = AList.delete (n_id (nets s n)) (table s)" "cfg (trim_act n s) = cfg s" "conns (trim_act n s) = conns s"
    using same_elseD(1-3) [OF dropIdleLocked_same [of n ?s]] by (simp_all add: A)
  obtain ow where "owners ?s k = Some ow" using idle_listed(1) [OF I' k] by blast
  then show "nets (trim_act n s) = (nets s)(n := (nets s n)\<lparr>n_idleOwner := None, n_idleSize := 0\<rparr>)"
    unfolding A using k by (simp add: dropIdleLocked_def removeLocked_fields)
qed

definition trim_ok :: "relay \<Rightarrow> bool" where
  "trim_ok s \<longleftrightarrow> idle_inv s \<and> held s \<and> (\<forall>n. size_ok s n)"

text \<open>A turn of the loop on a sound state keeps it sound, and compacts or forgets one network.\<close>

lemma trim_turn:
  assumes T: "trim_ok s" and p: "trim_pick s = Some n"
  shows "trim_ok (trim_act n s)" "cfg (trim_act n s) = cfg s"
    "card (idle_nets (trim_act n s)) + card (full_nets (trim_act n s)) < card (idle_nets s) + card (full_nets s)"
proof -
  have I: "idle_inv s" and H: "held s" and S: "size_ok s m" for m using T by (auto simp: trim_ok_def)
  obtain k where k: "n_idleOwner (nets s n) = Some k" using trim_pick_Some [OF I p] by blast
  have n: "n_members (nets s n) = []" "map_of (table s) (n_id (nets s n)) = Some n"
    using S [of n] H k by (auto simp: size_ok_def held_def)
  have fin: "finite (idle_nets s)" "finite (full_nets s)" using finite_idle finite_full I by auto
  have mem: "n \<in> idle_nets s" using k by (simp add: idle_nets_def)
  have all: "trim_ok (trim_act n s) \<and> cfg (trim_act n s) = cfg s \<and>
    card (idle_nets (trim_act n s)) + card (full_nets (trim_act n s)) < card (idle_nets s) + card (full_nets s)"
  proof (cases "r_Raw (n_roster (nets s n)) = None")
    case False
    note C = trim_compact [OF I k n False]
    have "idle_nets (trim_act n s) = idle_nets s" by (auto simp: idle_nets_def C(4))
    moreover have "full_nets (trim_act n s) = full_nets s - {n}" by (auto simp: full_nets_def idle_nets_def C(4))
    moreover have "n \<in> full_nets s" using mem False by (simp add: full_nets_def)
    ultimately have "card (idle_nets (trim_act n s)) + card (full_nets (trim_act n s)) < card (idle_nets s) + card (full_nets s)"
      using fin card_Diff1_less [of "full_nets s" n] by simp
    moreover have "held (trim_act n s)" using H by (auto simp: held_def C(2,4))
    moreover have "size_ok (trim_act n s) m" for m using S [of m] n by (auto simp: size_ok_def C(4))
    ultimately show ?thesis using C(1,3) by (simp add: trim_ok_def)
  next
    case True
    note C = trim_forget [OF I k n True]
    have "idle_nets (trim_act n s) = idle_nets s - {n}" by (auto simp: idle_nets_def C(4))
    moreover have "full_nets (trim_act n s) = full_nets s" using True by (auto simp: full_nets_def idle_nets_def C(4))
    ultimately have "card (idle_nets (trim_act n s)) + card (full_nets (trim_act n s)) < card (idle_nets s) + card (full_nets s)"
      using fin card_Diff1_less [of "idle_nets s" n] mem by simp
    moreover have "held (trim_act n s)"
    proof -
      have "map_of (table (trim_act n s)) (n_id (nets s m)) = Some m" if "n_idleOwner (nets s m) \<noteq> None" "m \<noteq> n" for m
      proof -
        have "map_of (table s) (n_id (nets s m)) = Some m" using H that by (simp add: held_def)
        moreover from this have "n_id (nets s m) \<noteq> n_id (nets s n)" using n(2) that by auto
        ultimately show ?thesis by (simp add: C(2) delete_conv)
      qed
      then show ?thesis by (auto simp: held_def C(4))
    qed
    moreover have "size_ok (trim_act n s) m" for m using S [of m] by (auto simp: size_ok_def C(4))
    ultimately show ?thesis using C(1,3) by (simp add: trim_ok_def)
  qed
  then show "trim_ok (trim_act n s)" "cfg (trim_act n s) = cfg s"
    "card (idle_nets (trim_act n s)) + card (full_nets (trim_act n s)) < card (idle_nets s) + card (full_nets s)" by auto
qed

lemma trim_loop_returns:
  "trim_ok s \<Longrightarrow> IdleRostersBytes (cfg s) \<ge> 0 \<Longrightarrow>
   \<exists>s'. trim_loop s = Some s' \<and> trim_ok s' \<and> idle_bytes s' \<le> IdleRostersBytes (cfg s) \<and> cfg s' = cfg s"
proof (induction "card (idle_nets s) + card (full_nets s)" arbitrary: s rule: less_induct)
  case less
  show ?case
  proof (cases "trim_pick s")
    case None
    then show ?thesis using less.prems trim_pick_None [of s] by (subst trim_loop.simps) (auto simp: trim_ok_def)
  next
    case (Some n)
    note t = trim_turn [OF less.prems(1) Some]
    show ?thesis using less.hyps [OF t(3,1)] t(2) less.prems(2) Some by (subst trim_loop.simps) simp
  qed
qed

end
