(* ===== verification/Relay_Network.thy ===== *)
theory Relay_Network
  imports Idle_Rosters
begin

text \<open>
  Networks at the relay (\<open>relay/internal/relay/network.go\<close>, with \<open>limitsOf\<close> and the reload of
  \<open>limits_file.go\<close>, \<open>unregister\<close> and the janitor of \<open>server.go\<close>, and \<open>charge\<close> of \<open>read.go\<close>):
  registration and the effective roster, members evicted, replaced and demoted, shaping and what
  members are told of it, the quota, the control budget, usage, routing. Each definition that takes a
  network address is code run under that network's lock. Clock readings are arguments (\<open>now\<close>, the
  relay's monotonic nanoseconds). JSON decoding and the roster check are done before these functions.
\<close>

section \<open>Limits and shaping\<close>

definition ctlRate :: int where "ctlRate = 4096"
definition ctlBurst :: int where "ctlBurst = 128 * 1024"
definition netCtlRate :: int where "netCtlRate = 64 * ctlRate"
definition netCtlBurst :: int where "netCtlBurst = 64 * ctlBurst"
definition usageEvery :: int where "usageEvery = 10 * Second"
definition usageBurst :: int where "usageBurst = 1"
definition shapingGrace :: int where "shapingGrace = Second"
definition maxClockSkewMs :: int where "maxClockSkewMs = 300000"

definition limitsOf :: "relay \<Rightarrow> nat \<Rightarrow> netLimits" where
  "limitsOf s n =
     (case n_origin (nets s n) of
        None \<Rightarrow> limits s
      | Some o1 \<Rightarrow> (case map_of (origins s) o1 of
          None \<Rightarrow> limits s
        | Some og \<Rightarrow> (case og_limits og of None \<Rightarrow> limits s | Some l \<Rightarrow> l)))"

text \<open>The quota, in the floating point the code computes it; reading the window moves it on.\<close>

definition quotaLocked :: "nat \<Rightarrow> int \<Rightarrow> relay \<Rightarrow> rat \<times> bool \<times> relay" where
  "quotaLocked n now s =
     (let lim = limitsOf s n; quota = QuotaBytesHour lim
      in if quota \<le> 0 then (0, False, s)
         else let (tot, w) = hw_total (n_hour (nets s n)) now;
                  used = f64 (f64 (of_nat (unat tot)) / f64 (of_int quota))
              in (used, used \<ge> 1 \<and> TrickleBps lim > 0, upd_net n (\<lambda>x. x\<lparr>n_hour := w\<rparr>) s))"

definition shapingLocked :: "nat \<Rightarrow> int \<Rightarrow> relay \<Rightarrow> int \<times> bool \<times> relay" where
  "shapingLocked n now s =
     (let (used, slowed, s') = quotaLocked n now s; lim = limitsOf s n
      in if slowed then (TrickleBps lim, True, s') else (RateBps lim, False, s'))"

definition watchSlowed :: "nat \<Rightarrow> relay \<Rightarrow> relay" where
  "watchSlowed n s = s\<lparr>slowNets := insert n (slowNets s)\<rparr>"

definition reshapeLocked :: "nat \<Rightarrow> int \<Rightarrow> relay \<Rightarrow> bool \<times> relay" where
  "reshapeLocked n now s =
     (let (rate, slowed, s) = shapingLocked n now s
      in if rate = n_rateNow (nets s n) \<and> slowed = n_slowed (nets s n) then (False, s)
         else let s = (if slowed \<and> \<not> n_slowed (nets s n) then upd_net n (\<lambda>x. x\<lparr>n_slowedAt := now\<rparr>) s else s);
                  s = upd_net n (\<lambda>x. x\<lparr>n_rateNow := rate, n_slowed := slowed\<rparr>) s;
                  s = upd_conns (map snd (n_members (nets s n))) (send (Shaping rate slowed)) s
              in (True, if slowed then watchSlowed n s else s))"

definition shapeRateLocked :: "relay \<Rightarrow> nat \<Rightarrow> int \<Rightarrow> int" where
  "shapeRateLocked s n now =
     (if n_slowed (nets s n) \<and> now - n_slowedAt (nets s n) < shapingGrace then RateBps (limitsOf s n)
      else n_rateNow (nets s n))"

definition chargeLocked :: "nat \<Rightarrow> nat \<Rightarrow> int \<Rightarrow> relay \<Rightarrow> int \<times> relay" where
  "chargeLocked n sz now s =
     (let s = upd_net n (\<lambda>x. x\<lparr>n_hour := hw_add (n_hour x) (word_of_nat sz) now\<rparr>) s;
          s = snd (reshapeLocked n now s);
          (tat, wait) = spend (n_rateTAT (nets s n)) now (int sz) (shapeRateLocked s n now)
      in (wait, upd_net n (\<lambda>x. x\<lparr>n_rateTAT := tat\<rparr>) s))"

definition controlCeilingLocked :: "nat \<Rightarrow> int \<Rightarrow> relay \<Rightarrow> int \<times> int \<times> relay" where
  "controlCeilingLocked n now s =
     (let s = snd (reshapeLocked n now s); inForce = shapeRateLocked s n now
      in if inForce > 0
         then let rate = max 1 (min netCtlRate (go_quot inForce 2))
              in (rate, min netCtlBurst (max (4 * ctlBurst) rate), s)
         else (netCtlRate, netCtlBurst, s))"

text \<open>A member's control budget: 0 is the map's answer for a node it does not hold.\<close>

definition memberCtl :: "network \<Rightarrow> ID \<Rightarrow> int" where
  "memberCtl x i = (case map_of (n_memberCtl x) i of None \<Rightarrow> 0 | Some t \<Rightarrow> t)"

definition allowControl :: "nat \<Rightarrow> ID \<Rightarrow> int \<Rightarrow> nat \<Rightarrow> relay \<Rightarrow> bool \<times> relay" where
  "allowControl n i now sz s =
     (let t = max (memberCtl (nets s n) i) now + go_quot (int sz * Second) ctlRate
      in if t - now > go_quot (ctlBurst * Second) ctlRate then (False, s)
         else let (rate, burst, s) = controlCeilingLocked n now s;
                  (ok, tat) = allow (n_ctlTAT (nets s n)) now (go_quot (int sz * Second) rate) (go_quot (burst * Second) rate);
                  s = upd_net n (\<lambda>x. x\<lparr>n_ctlTAT := tat\<rparr>) s
              in if \<not> ok then (False, s)
                 else (True, upd_net n (\<lambda>x. x\<lparr>n_memberCtl := AList.update i t (n_memberCtl x)\<rparr>) s))"

text \<open>One network of the shaping loop's pass, and the pass over the networks it copied.\<close>

definition shaping_visit :: "int \<Rightarrow> nat \<Rightarrow> relay \<Rightarrow> relay" where
  "shaping_visit now n s =
     (let s = (if n_members (nets s n) \<noteq> [] then snd (reshapeLocked n now s) else s)
      in if \<not> n_slowed (nets s n) \<or> n_members (nets s n) = [] then s\<lparr>slowNets := slowNets s - {n}\<rparr> else s)"

definition reshapeAll :: "int \<Rightarrow> relay \<Rightarrow> relay" where
  "reshapeAll now s = fold (\<lambda>(i, n) s. snd (reshapeLocked n now s)) (table s) s"

section \<open>Connections and charges\<close>

definition holdFor :: "int \<Rightarrow> int \<Rightarrow> rconn \<Rightarrow> rconn" where
  "holdFor now wait c = (if wait > 0 then c\<lparr>c_holdUntil := max (c_holdUntil c) (now + wait)\<rparr> else c)"

definition charge :: "nat \<Rightarrow> nat \<Rightarrow> int \<Rightarrow> relay \<Rightarrow> relay" where
  "charge c sz now s =
     (case c_network (conns s c) of
        None \<Rightarrow> s
      | Some n \<Rightarrow>
          if c_state (conns s c) \<noteq> stateRegistered then s
          else let (wait, s) = chargeLocked n sz now s in upd_conn c (holdFor now wait) s)"

section \<open>Pairing channels\<close>

definition endChannel :: "nat \<Rightarrow> bool \<Rightarrow> bool \<Rightarrow> relay \<Rightarrow> relay" where
  "endChannel ch toPrimary toNewcomer s =
     (let i = ch_id (chans s ch); p = ch_primary (chans s ch); nc = ch_newcomer (chans s ch)
      in if map_of (channels s) i \<noteq> Some ch then s
         else let s = s\<lparr>channels := AList.delete i (channels s)\<rparr>;
                  s = upd_conn p (\<lambda>c. c\<lparr>c_pairs := AList.delete i (c_pairs c)\<rparr>) s;
                  s = (if toPrimary then upd_conn p (send (PairEnd i)) s else s);
                  s = (if toNewcomer then upd_conn nc (send (PairEnd i)) s else s)
              in upd_conn nc (close_conn closeNormal True) s)"

definition demote :: "nat \<Rightarrow> relay \<Rightarrow> relay" where
  "demote c s = fold (\<lambda>ch s. endChannel ch True True s) (map snd (c_pairs (conns s c))) s"

section \<open>Rosters and membership\<close>

definition isMember :: "ID \<Rightarrow> bytes \<Rightarrow> Roster \<Rightarrow> bool" where
  "isMember i pub r = (case Roster_Member r i of
       None \<Rightarrow> False
     | Some m \<Rightarrow> r_Raw r = None \<or> m_Ed25519 m = pub)"

definition sameMembers :: "Roster \<Rightarrow> Roster \<Rightarrow> bool" where
  "sameMembers a b \<longleftrightarrow> map m_ID (r_Members a) = map m_ID (r_Members b)"

definition adoptLocked :: "nat \<Rightarrow> Roster \<Rightarrow> int \<Rightarrow> relay \<Rightarrow> nat list \<times> nat option \<times> relay" where
  "adoptLocked n r now s =
     (let x = nets s n; old = r_Primary (n_roster x);
          demoted = (if r_Primary r \<noteq> old \<and> on_roster r old then map_of (n_members x) old else None);
          evict = map snd (filter (\<lambda>(i, c). \<not> on_roster r i) (n_members x));
          left = filter (\<lambda>(i, c). on_roster r i) (n_members x)
      in (evict, demoted, upd_net n (\<lambda>x. x\<lparr>n_roster := r, n_members := left,
            n_emptySince := (if left = [] then now else n_emptySince x)\<rparr>) s))"

definition after_adopt :: "nat list \<Rightarrow> nat option \<Rightarrow> relay \<Rightarrow> relay" where
  "after_adopt evict demoted s =
     (let s = upd_conns evict (close_conn closeNotMember False) s
      in case demoted of None \<Rightarrow> s | Some c \<Rightarrow> demote c s)"

definition new_network :: "Roster \<Rightarrow> string option \<Rightarrow> network" where
  "new_network r og = \<lparr>n_id = r_Network r, n_origin = og, n_roster = r, n_members = [], n_emptySince = 0,
     n_idleOwner = None, n_idleSize = 0, n_hour = hourWindow_zero, n_rateTAT = 0, n_ctlTAT = 0, n_memberCtl = [],
     n_usageTAT = 0, n_rateNow = 0, n_slowed = False, n_slowedAt = 0\<rparr>"

text \<open>
  \<open>admit\<close> in the sections it locks: finding or making the network, then, under its lock, settling the
  roster and taking the connection in, then what follows the unlock.
\<close>

datatype admit_found = NotMember | TooMany | Found nat

definition admit_find :: "nat \<Rightarrow> Roster \<Rightarrow> ID \<Rightarrow> bytes \<Rightarrow> int \<Rightarrow> relay \<Rightarrow> admit_found \<times> relay" where
  "admit_find c r i pub wall s =
     (case map_of (table s) (r_Network r) of
        Some n \<Rightarrow> (Found n, s)
      | None \<Rightarrow>
          if \<not> isMember i pub r then (NotMember, s)
          else let (ok, lm) = ipLimiter_allow (ipNetworks s) (c_ip (conns s c)) wall; s = s\<lparr>ipNetworks := lm\<rparr>
               in if \<not> ok then (TooMany, s)
                  else let n = next_net s
                       in (Found n, s\<lparr>nets := (nets s)(n := new_network r (c_originRef (conns s c))), next_net := Suc n,
                                      table := AList.update (r_Network r) n (table s)\<rparr>))"

definition settle_roster :: "nat \<Rightarrow> Roster \<Rightarrow> int \<Rightarrow> relay \<Rightarrow> nat list \<times> nat option \<times> bytes option \<times> relay" where
  "settle_roster n r now s =
     (let held = n_roster (nets s n)
      in if r_Version r > r_Version held
         then let (evict, demoted, s) = adoptLocked n r now s in (evict, demoted, None, s)
         else if r_Version r < r_Version held then ([], None, r_Raw held, s)
         else if r_Raw held = None \<and> sameMembers r held then ([], None, None, upd_net n (\<lambda>x. x\<lparr>n_roster := r\<rparr>) s)
         else ([], None, None, s))"

definition take_in :: "nat \<Rightarrow> nat \<Rightarrow> ID \<Rightarrow> bytes option \<Rightarrow> int \<Rightarrow> relay \<Rightarrow> relay" where
  "take_in c n i newer now s =
     (let s = upd_net n (\<lambda>x. x\<lparr>n_members := AList.update i c (n_members x)\<rparr>) s;
          s = upd_conn c (\<lambda>k. k\<lparr>c_network := Some n, c_id := i, c_state := stateRegistered\<rparr>) s;
          s = upd_conn c (send (Registered i (r_Version (n_roster (nets s n))) newer)) s;
          (told, s) = reshapeLocked n now s;
          s = (if told then s else upd_conn c (send (Shaping (n_rateNow (nets s n)) (n_slowed (nets s n)))) s);
          s = (if n_slowed (nets s n) then watchSlowed n s else s)
      in if c_ipPending (conns s c)
         then upd_conn c (\<lambda>k. k\<lparr>c_ipPending := False\<rparr>) (s\<lparr>ip_conns := registered (ip_conns s) (c_ip (conns s c))\<rparr>)
         else s)"

definition admit_locked :: "nat \<Rightarrow> nat \<Rightarrow> Roster \<Rightarrow> ID \<Rightarrow> bytes \<Rightarrow> int \<Rightarrow> relay \<Rightarrow> (nat list \<times> nat option \<times> bool \<times> nat option) \<times> relay" where
  "admit_locked c n r i pub now s =
     (let (evict, demoted, newer, s) = settle_roster n r now s;
          member = isMember i pub (n_roster (nets s n));
          old = (if member then map_of (n_members (nets s n)) i else None);
          s = (if member then take_in c n i newer now s else s)
      in ((evict, demoted, member, old), syncIdleLocked n (c_ip (conns s c)) s))"

definition admit_after :: "nat \<Rightarrow> nat list \<times> nat option \<times> bool \<times> nat option \<Rightarrow> relay \<Rightarrow> bool \<times> relay" where
  "admit_after c res s =
     (let (evict, demoted, member, old) = res; s = after_adopt evict demoted s
      in if \<not> member then (False, upd_conn c (close_conn closeNotMember False) s)
         else let s = upd_conn c (\<lambda>k. k\<lparr>c_origin := ''''\<rparr>) s
              in (True, case old of
                    None \<Rightarrow> s
                  | Some o1 \<Rightarrow> if o1 = c then s else upd_conn o1 (close_conn closeReplaced False) s))"

definition admit :: "nat \<Rightarrow> Roster \<Rightarrow> ID \<Rightarrow> bytes \<Rightarrow> int \<Rightarrow> int \<Rightarrow> relay \<Rightarrow> bool \<times> relay" where
  "admit c r i pub wall now s =
     (case admit_find c r i pub wall s of
        (NotMember, s) \<Rightarrow> (False, upd_conn c (close_conn closeNotMember False) s)
      | (TooMany, s) \<Rightarrow>
          (False, upd_conn c (close_conn closeRateLimited True)
             (upd_conn c (send (ErrorMsg ''rate_limited'' ''too many new networks from this address'' '''')) s))
      | (Found n, s) \<Rightarrow> (let (res, s) = admit_locked c n r i pub now s in admit_after c res s))"

section \<open>Handlers\<close>

text \<open>
  An answer to the connection's own request (\<open>reply\<close>): charged to its network as the frame on the
  wire, then queued. The payload's size is a parameter (\<open>sz\<close>), since it depends on the JSON encoding.
\<close>

definition wire_size :: "nat \<Rightarrow> nat" where
  "wire_size n = (if n > 0xffff then 10 + n else if n \<ge> 126 then 4 + n else 2 + n)"

definition reply_msg :: "(out_msg \<Rightarrow> nat) \<Rightarrow> nat \<Rightarrow> out_msg \<Rightarrow> int \<Rightarrow> relay \<Rightarrow> relay" where
  "reply_msg sz c m now s = upd_conn c (send m) (charge c (wire_size (sz m)) now s)"

definition sendError :: "(out_msg \<Rightarrow> nat) \<Rightarrow> nat \<Rightarrow> string \<Rightarrow> string \<Rightarrow> string \<Rightarrow> int \<Rightarrow> relay \<Rightarrow> relay" where
  "sendError sz c code msg i now s = reply_msg sz c (ErrorMsg code msg i) now s"

text \<open>
  A register message as decoded: absent fields are \<open>None\<close>; \<open>reg_ts\<close> is the parsed integer literal,
  \<open>reg_roster\<close> the raw JSON. \<open>None\<close> for the whole is a message that does not decode.
\<close>

record register_msg =
  reg_network :: "string option"
  reg_node :: "string option"
  reg_ed25519 :: "string option"
  reg_sig :: "string option"
  reg_ts :: "u64 option"
  reg_roster :: bytes

text \<open>What the handlers call and this theory does not define: SHA-256, Ed25519 verification, the roster check.\<close>

record crypto =
  sha256 :: "bytes \<Rightarrow> bytes"
  verify :: "bytes \<Rightarrow> bytes \<Rightarrow> bytes \<Rightarrow> bool"
  parse_roster :: "bytes \<Rightarrow> Roster option"

definition fail_reg :: "nat \<Rightarrow> int \<Rightarrow> relay \<Rightarrow> bool \<times> relay" where
  "fail_reg c code s = (False, upd_conn c (close_conn code False) s)"

definition is_obj :: "bytes \<Rightarrow> bool" where
  "is_obj b \<longleftrightarrow> b \<noteq> [] \<and> hd b = 0x7b"

text \<open>The shape of the message (step 1): ids, key, signature and time.\<close>

definition reg_shape :: "register_msg option \<Rightarrow> (string \<times> string \<times> bytes \<times> bytes \<times> bytes \<times> bytes \<times> u64 \<times> bytes) option" where
  "reg_shape om =
     (case om of
        None \<Rightarrow> None
      | Some m \<Rightarrow>
          (case (reg_network m, reg_node m, reg_ed25519 m, reg_sig m) of
             (Some nw, Some nd, Some ed, Some sg) \<Rightarrow>
               if \<not> is_obj (reg_roster m) then None
               else (case (ParseID nw, ParseID nd, DecodeKey ed 32, DecodeKey sg 64, reg_ts m) of
                       (Some netID, Some nodeID, Some pub, Some sig, Some ts) \<Rightarrow>
                         Some (nw, nd, netID, nodeID, pub, sig, ts, reg_roster m)
                     | _ \<Rightarrow> None)
           | _ \<Rightarrow> None))"

definition register :: "crypto \<Rightarrow> (out_msg \<Rightarrow> nat) \<Rightarrow> nat \<Rightarrow> register_msg option \<Rightarrow> int \<Rightarrow> int \<Rightarrow> int \<Rightarrow> relay \<Rightarrow> bool \<times> relay" where
  "register cr sz c om wall unix_ms now s =
     (let (ok, lm) = ipLimiter_allow (ipRegister s) (c_ip (conns s c)) wall; s = s\<lparr>ipRegister := lm\<rparr>
      in if \<not> ok
         then (False, upd_conn c (close_conn closeRateLimited True)
                 (sendError sz c ''rate_limited'' ''too many registrations from this address'' [] now s))
         else case reg_shape om of
           None \<Rightarrow> fail_reg c closeBadRequest s
         | Some (nw, nd, netID, nodeID, pub, sig, ts, raw) \<Rightarrow>
             if IDFromKey (sha256 cr) pub \<noteq> nodeID then fail_reg c closeAuth s
             else if \<not> verify cr pub (RegisterMessage nw nd (c_challenge (conns s c)) ts (c_origin (conns s c))) sig
             then fail_reg c closeAuth s
             else let d = unix_ms - uint ts
                  in if d > maxClockSkewMs \<or> d < - maxClockSkewMs then fail_reg c closeAuth s
                     else case parse_roster cr raw of
                       None \<Rightarrow> fail_reg c closeNotMember s
                     | Some r \<Rightarrow>
                         if r_Network r \<noteq> netID then fail_reg c closeNotMember s
                         else admit c r nodeID pub wall now s)"

text \<open>
  A pushed roster (section 4.2 of the protocol): its locked section, and the whole. The text of the
  error for an invalid roster is the checker's; it is not modelled.
\<close>

definition push_locked :: "nat \<Rightarrow> nat \<Rightarrow> Roster \<Rightarrow> int \<Rightarrow> relay \<Rightarrow> nat list \<times> nat option \<times> relay" where
  "push_locked c n r now s =
     (let (evict, demoted, s) = adoptLocked n r now s in (evict, demoted, syncIdleLocked n (c_ip (conns s c)) s))"

definition pushRoster :: "crypto \<Rightarrow> (out_msg \<Rightarrow> nat) \<Rightarrow> nat \<Rightarrow> bytes option \<Rightarrow> int \<Rightarrow> relay \<Rightarrow> relay" where
  "pushRoster cr sz c raw now s =
     (let bad = (\<lambda>m. sendError sz c ''bad_request'' m [] now s)
      in case raw of
           None \<Rightarrow> bad ''roster missing''
         | Some b \<Rightarrow>
             (case parse_roster cr b of
                None \<Rightarrow> bad ''roster''
              | Some r \<Rightarrow>
                  (case c_network (conns s c) of
                     None \<Rightarrow> s
                   | Some n \<Rightarrow>
                       if r_Network r \<noteq> n_id (nets s n) then bad ''roster is for another network''
                       else if r_Version r \<le> r_Version (n_roster (nets s n))
                       then (if r_Version r < r_Version (n_roster (nets s n)) then bad ''roster is older than the relay's'' else s)
                       else let (evict, demoted, s) = push_locked c n r now s in after_adopt evict demoted s)))"

definition usageRequest :: "(out_msg \<Rightarrow> nat) \<Rightarrow> nat \<Rightarrow> string option \<Rightarrow> int \<Rightarrow> relay \<Rightarrow> relay" where
  "usageRequest sz c oid now s =
     (case oid of
        None \<Rightarrow> sendError sz c ''bad_request'' ''usage needs a string id'' [] now s
      | Some i \<Rightarrow>
          (case c_network (conns s c) of
             None \<Rightarrow> s
           | Some n \<Rightarrow>
               if r_Primary (n_roster (nets s n)) \<noteq> c_id (conns s c)
               then sendError sz c ''forbidden'' ''only the primary may ask for usage'' i now s
               else let (ok, tat) = allow (n_usageTAT (nets s n)) now usageEvery (usageBurst * usageEvery);
                        s = upd_net n (\<lambda>x. x\<lparr>n_usageTAT := tat\<rparr>) s
                    in if \<not> ok then sendError sz c ''rate_limited'' ''usage asked too often'' i now s
                       else let (used, slowed, s) = quotaLocked n now s;
                                lim = limitsOf s n;
                                (tot, w) = hw_total (n_hour (nets s n)) now;
                                s = upd_net n (\<lambda>x. x\<lparr>n_hour := w\<rparr>) s;
                                m = Usage i tot (length (n_members (nets s n))) (RateBps lim) (QuotaBytesHour lim) (TrickleBps lim) used slowed
                            in reply_msg sz c m now s))"

text \<open>Routed frames: the bytes without headroom.\<close>

definition frameHeader :: nat where "frameHeader = 18"
definition typePair :: byte where "typePair = 0x06"
definition typeData :: byte where "typeData = 0x03"
definition typeControl :: byte where "typeControl = 0x08"

definition routed_type :: "byte \<Rightarrow> bool" where
  "routed_type t \<longleftrightarrow> t \<in> {0x01, 0x02, 0x03, 0x05, 0x07, 0x08}"

definition controlType :: "byte \<Rightarrow> bool" where
  "controlType t \<longleftrightarrow> t \<in> {0x01, 0x02, 0x05, 0x07, 0x08, 0x06}"

definition frame_peer :: "bytes \<Rightarrow> ID" where
  "frame_peer f = take 16 (drop 2 f)"

definition rewrite_frame :: "ID \<Rightarrow> bytes \<Rightarrow> bytes" where
  "rewrite_frame sender f =
     take 1 f @ [if f ! 1 = typeControl then typeData else f ! 1] @ sender @ drop frameHeader f"

text \<open>Queueing and whether it was taken.\<close>

definition try_send :: "nat \<Rightarrow> out_msg \<Rightarrow> relay \<Rightarrow> bool \<times> relay" where
  "try_send c m s = (\<not> closing (conns s c), upd_conn c (send m) s)"

definition route :: "(out_msg \<Rightarrow> nat) \<Rightarrow> nat \<Rightarrow> bytes \<Rightarrow> nat \<Rightarrow> int \<Rightarrow> relay \<Rightarrow> relay" where
  "route sz c f wire now s =
     (case c_network (conns s c) of
        None \<Rightarrow> s
      | Some n \<Rightarrow>
          let peer = frame_peer f;
              dst = map_of (n_members (nets s n)) peer;
              (wait, s) = chargeLocked n wire now s;
              s = upd_conn c (holdFor now wait) s;
              f = rewrite_frame (c_id (conns s c)) f;
              unreachable = (\<lambda>s. reply_msg sz c (Unreachable peer) now s)
          in case dst of
               None \<Rightarrow> unreachable s
             | Some d \<Rightarrow> (let (ok, s) = try_send d (Routed f) s in if ok then s else unreachable s))"

definition handleBinary :: "(out_msg \<Rightarrow> nat) \<Rightarrow> nat \<Rightarrow> bytes \<Rightarrow> nat \<Rightarrow> int \<Rightarrow> relay \<Rightarrow> bool \<times> relay" where
  "handleBinary sz c f wire now s =
     (let bad = (False, upd_conn c (close_conn closeBadRequest False) s)
      in if length f < frameHeader \<or> hd f \<noteq> 1 then bad
         else let peer = frame_peer f
              in case c_state (conns s c) of
                   statePairing \<Rightarrow>
                     (case c_channel (conns s c) of
                        None \<Rightarrow> bad
                      | Some ch \<Rightarrow>
                          if f ! 1 \<noteq> typePair \<or> peer \<noteq> ch_id (chans s ch) then bad
                          else (True, snd (try_send (ch_primary (chans s ch)) (PairFrame f) s)))
                 | stateRegistered \<Rightarrow>
                     if routed_type (f ! 1) then (True, route sz c f wire now s)
                     else if f ! 1 = typePair
                     then let s = charge c wire now s
                          in case map_of (channels s) peer of
                               None \<Rightarrow> (True, reply_msg sz c (Unreachable peer) now s)
                             | Some ch \<Rightarrow>
                                 if ch_primary (chans s ch) \<noteq> c then (True, reply_msg sz c (Unreachable peer) now s)
                                 else let (ok, s) = try_send (ch_newcomer (chans s ch)) (PairFrame f) s
                                      in (True, if ok then s else reply_msg sz c (Unreachable peer) now s)
                     else bad
                 | stateHello \<Rightarrow> bad)"

section \<open>Leaving, the janitor, and new limits\<close>

text \<open>\<open>unregister\<close>, up to \<open>trimIdle\<close>: the section under the network's lock.\<close>

definition unregister_net :: "nat \<Rightarrow> int \<Rightarrow> relay \<Rightarrow> relay" where
  "unregister_net c now s =
     (case c_network (conns s c) of
        None \<Rightarrow> s
      | Some n \<Rightarrow>
          let s = (if map_of (n_members (nets s n)) (c_id (conns s c)) = Some c
                   then upd_net n (\<lambda>x. let left = AList.delete (c_id (conns s c)) (n_members x)
                          in x\<lparr>n_members := left, n_emptySince := (if left = [] then now else n_emptySince x)\<rparr>) s
                   else s)
          in syncIdleLocked n (c_ip (conns s c)) s)"

text \<open>The rest of \<open>unregister\<close>: the address's count, and the channels the connection was part of.\<close>

definition unregister_rest :: "nat \<Rightarrow> relay \<Rightarrow> relay" where
  "unregister_rest c s =
     (let s = s\<lparr>ip_conns := release (ip_conns s) (c_ip (conns s c)) (c_ipPending (conns s c))\<rparr>;
          s = (case c_channel (conns s c) of None \<Rightarrow> s | Some ch \<Rightarrow> endChannel ch True False s)
      in fold (\<lambda>ch s. endChannel ch False True s) (map snd (c_pairs (conns s c))) s)"

definition unregister :: "nat \<Rightarrow> int \<Rightarrow> relay \<Rightarrow> relay option" where
  "unregister c now s =
     (case c_network (conns s c) of
        None \<Rightarrow> Some (unregister_rest c s)
      | Some n \<Rightarrow> map_option (unregister_rest c) (trimIdle (unregister_net c now s)))"

definition janitor_visit :: "int \<Rightarrow> ID \<times> nat \<Rightarrow> relay \<Rightarrow> relay" where
  "janitor_visit now e s =
     (let x = nets s (snd e)
      in if n_members x = [] \<and> now - n_emptySince x \<ge> NetworkTTL (cfg s)
         then dropIdleLocked (snd e) (s\<lparr>table := AList.delete (fst e) (table s)\<rparr>)
         else s)"

definition janitor_nets :: "int \<Rightarrow> relay \<Rightarrow> relay" where
  "janitor_nets now s = fold (janitor_visit now) (table s) s"

definition janitor_sweep :: "int \<Rightarrow> relay \<Rightarrow> relay" where
  "janitor_sweep wall s = s\<lparr>ipRegister := ipLimiter_sweep (ipRegister s) wall, ipPair := ipLimiter_sweep (ipPair s) wall,
     ipNetworks := ipLimiter_sweep (ipNetworks s) wall\<rparr>"

text \<open>The limits file, once decoded: overrides of the environment, and of each origin's over those.\<close>

record override =
  ov_rate :: "int option"
  ov_quota :: "int option"
  ov_trickle :: "int option"

definition over :: "override \<Rightarrow> netLimits \<Rightarrow> netLimits" where
  "over v l = \<lparr>RateBps = case_option (RateBps l) id (ov_rate v), QuotaBytesHour = case_option (QuotaBytesHour l) id (ov_quota v),
     TrickleBps = case_option (TrickleBps l) id (ov_trickle v)\<rparr>"

definition check :: "override \<Rightarrow> bool" where
  "check v \<longleftrightarrow> list_all (\<lambda>x. case x of None \<Rightarrow> True | Some n \<Rightarrow> 0 \<le> n) [ov_rate v, ov_quota v, ov_trickle v]"

definition envLimits :: "relay \<Rightarrow> netLimits" where
  "envLimits s = cfg_env (cfg s)"

definition originNamed :: "relay \<Rightarrow> string \<Rightarrow> string option" where
  "originNamed s host = (case map_of (origins s) host of
       None \<Rightarrow> None
     | Some og \<Rightarrow> if og_named og then Some host else None)"

definition name_origin :: "netLimits \<Rightarrow> string \<times> override \<Rightarrow> (string \<times> origin) list \<Rightarrow> (string \<times> origin) list" where
  "name_origin def e os = AList.update (fst e) \<lparr>og_limits = Some (over (snd e) def), og_named = True\<rparr> os"

definition unname_others :: "(string \<times> override) list \<Rightarrow> (string \<times> origin) list \<Rightarrow> (string \<times> origin) list" where
  "unname_others f os = map (\<lambda>(k, og). (k, if map_of f k = None then \<lparr>og_limits = None, og_named = False\<rparr> else og)) os"

definition ReloadLimits :: "override \<Rightarrow> (string \<times> override) list \<Rightarrow> int \<Rightarrow> relay \<Rightarrow> relay" where
  "ReloadLimits dflt f now s =
     (let def = over dflt (envLimits s); next = unname_others f (fold (name_origin def) f (origins s))
      in reshapeAll now (s\<lparr>limits := def, origins := next\<rparr>))"

section \<open>Pairing\<close>

text \<open>
  A newcomer asks for the network's primary (\<open>pairing.go\<close>). \<open>om\<close> is the decoded network and code; the
  channel's id is the fresh random value \<open>rnd\<close>.
\<close>

definition pair_primary :: "relay \<Rightarrow> ID \<Rightarrow> nat option" where
  "pair_primary s netID = (case networkOf s netID of
       None \<Rightarrow> None
     | Some n \<Rightarrow> map_of (n_members (nets s n)) (r_Primary (n_roster (nets s n))))"

definition open_channel :: "nat \<Rightarrow> nat \<Rightarrow> string \<Rightarrow> ID \<Rightarrow> relay \<Rightarrow> bool \<times> relay" where
  "open_channel c p code rnd s =
     (let ch = next_chan s;
          s = s\<lparr>chans := (chans s)(ch := \<lparr>ch_id = rnd, ch_newcomer = c, ch_primary = p\<rparr>), next_chan := Suc ch,
                channels := AList.update rnd ch (channels s)\<rparr>;
          s = upd_conn p (\<lambda>k. k\<lparr>c_pairs := AList.update rnd ch (c_pairs k)\<rparr>) s;
          s = upd_conn c (\<lambda>k. k\<lparr>c_state := statePairing, c_channel := Some ch\<rparr>) s;
          (ok, s) = try_send p (Pairing rnd (Some code)) s
      in if \<not> ok then (False, endChannel ch False True s)
         else (True, upd_conn c (send (Pairing rnd None)) s))"

definition pair :: "(out_msg \<Rightarrow> nat) \<Rightarrow> nat \<Rightarrow> (string \<times> string) option \<Rightarrow> ID \<Rightarrow> int \<Rightarrow> int \<Rightarrow> relay \<Rightarrow> bool \<times> relay" where
  "pair sz c om rnd wall now s =
     (case om of
        None \<Rightarrow> fail_reg c closeBadRequest s
      | Some (nw, code) \<Rightarrow>
          (case (ParseID nw, DecodeKey code 8) of
             (Some netID, Some _) \<Rightarrow>
               (let (ok, lm) = ipLimiter_allow (ipPair s) (c_ip (conns s c)) wall; s = s\<lparr>ipPair := lm\<rparr>
                in if \<not> ok
                   then (False, upd_conn c (close_conn closeRateLimited True)
                           (sendError sz c ''rate_limited'' ''too many pairing attempts from this address'' [] now s))
                   else case pair_primary s netID of
                     None \<Rightarrow> (False, upd_conn c (close_conn closeNormal True)
                               (sendError sz c ''unreachable'' ''the network's primary is not connected'' [] now s))
                   | Some p \<Rightarrow> open_channel c p code rnd s)
           | _ \<Rightarrow> fail_reg c closeBadRequest s))"

definition channelOf :: "relay \<Rightarrow> string option \<Rightarrow> nat option" where
  "channelOf s och = (case och of
       None \<Rightarrow> None
     | Some v \<Rightarrow> (case DecodeKey v IDLen of None \<Rightarrow> None | Some raw \<Rightarrow> map_of (channels s) raw))"

text \<open>
  A control message as decoded: \<open>Malformed\<close> is one that is not I-JSON or has no type; \<open>COther\<close> any other
  type. The argument \<open>i\<close> is its \<open>id\<close> (empty when absent), \<open>t\<close> its type as \<open>strconv.Quote\<close> writes it; both
  only go into the error a registered member gets.
\<close>

datatype control =
    CRegister "register_msg option"
  | CPair "(string \<times> string) option"
  | CPairEnd "string option"
  | CRoster "bytes option"
  | CUsage "string option"
  | COther
  | Malformed

definition handleText :: "crypto \<Rightarrow> (out_msg \<Rightarrow> nat) \<Rightarrow> nat \<Rightarrow> control \<Rightarrow> string \<Rightarrow> string \<Rightarrow> nat \<Rightarrow> ID \<Rightarrow> int \<Rightarrow> int \<Rightarrow> int \<Rightarrow> relay \<Rightarrow> bool \<times> relay" where
  "handleText cr sz c m t i wire rnd wall unix_ms now s =
     (let s = charge c wire now s; bad = (False, upd_conn c (close_conn closeBadRequest False) s)
      in if m = Malformed then bad
         else case c_state (conns s c) of
           stateHello \<Rightarrow>
             (case m of
                CRegister om \<Rightarrow> register cr sz c om wall unix_ms now s
              | CPair om \<Rightarrow> pair sz c om rnd wall now s
              | _ \<Rightarrow> bad)
         | statePairing \<Rightarrow>
             (case m of
                CPairEnd v \<Rightarrow>
                  (case channelOf s v of
                     Some ch \<Rightarrow> if c_channel (conns s c) = Some ch then (False, endChannel ch True False s) else bad
                   | None \<Rightarrow> bad)
              | _ \<Rightarrow> bad)
         | stateRegistered \<Rightarrow>
             (True,
              case m of
                CRoster raw \<Rightarrow> pushRoster cr sz c raw now s
              | CUsage oi \<Rightarrow> usageRequest sz c oi now s
              | CPairEnd v \<Rightarrow>
                  (case channelOf s v of
                     Some ch \<Rightarrow>
                       if map_of (channels s) (ch_id (chans s ch)) = Some ch \<and> ch_primary (chans s ch) = c
                       then endChannel ch False True s else s
                   | None \<Rightarrow> s)
              | _ \<Rightarrow> sendError sz c ''bad_request'' (''unknown message type '' @ t) i now s))"

end
