(* ===== verification/Relay_Invariant.thy ===== *)
theory Relay_Invariant
  imports Relay_Network
begin

text \<open>
  What holds of the relay however its handlers interleave. \<open>rstep\<close> is one section of a handler under
  the lock it takes (or one call on a connection), with the clock readings, the presented rosters and
  the new limits chosen freely; \<open>rreach\<close> are the states reachable from a relay that holds no network
  and whose connections have not spoken. The invariants: members are connected, on the effective
  roster, and belong to one network; members are told the shaping in force; the idle accounting is
  exact. Theory \<open>Relay_Safety\<close> shows that every section keeps them.
\<close>

section \<open>What the operations leave alone\<close>

text \<open>
  \<open>calm n s s'\<close>: an operation under network \<open>n\<close>'s lock that leaves membership, rosters, the tables and
  the idle accounting as they were, and may change counters, shaping and what was sent.
\<close>

definition net_core :: "network \<Rightarrow> ID \<times> string option \<times> Roster \<times> (ID \<times> nat) list \<times> int \<times> string option \<times> int" where
  "net_core x = (n_id x, n_origin x, n_roster x, n_members x, n_emptySince x, n_idleOwner x, n_idleSize x)"

definition conn_core :: "rconn \<Rightarrow> nat option \<times> ID \<times> connState \<times> nat option \<times> string" where
  "conn_core c = (c_network c, c_id c, c_state c, c_channel c, c_ip c)"

definition calm :: "relay \<Rightarrow> relay \<Rightarrow> bool" where
  "calm s s' \<longleftrightarrow> (\<forall>n. net_core (nets s' n) = net_core (nets s n)) \<and> (\<forall>c. conn_core (conns s' c) = conn_core (conns s c)) \<and>
     table s' = table s \<and> next_net s' = next_net s \<and> owners s' = owners s \<and> byMost s' = byMost s \<and> idle_bytes s' = idle_bytes s \<and>
     cfg s' = cfg s"

lemma calm_refl [simp]: "calm s s"
  by (simp add: calm_def)

lemma calm_trans: "calm s s' \<Longrightarrow> calm s' s'' \<Longrightarrow> calm s s''"
  by (simp add: calm_def)

lemma calm_net:
  assumes "calm s s'"
  shows "n_id (nets s' n) = n_id (nets s n)" "n_roster (nets s' n) = n_roster (nets s n)" "n_members (nets s' n) = n_members (nets s n)"
    "n_idleOwner (nets s' n) = n_idleOwner (nets s n)" "n_idleSize (nets s' n) = n_idleSize (nets s n)"
    "n_emptySince (nets s' n) = n_emptySince (nets s n)" "n_origin (nets s' n) = n_origin (nets s n)"
  using assms by (auto simp: calm_def net_core_def)

lemma calm_conn:
  assumes "calm s s'"
  shows "c_network (conns s' c) = c_network (conns s c)" "c_id (conns s' c) = c_id (conns s c)" "c_state (conns s' c) = c_state (conns s c)"
    "c_ip (conns s' c) = c_ip (conns s c)" "c_channel (conns s' c) = c_channel (conns s c)"
  using assms by (auto simp: calm_def conn_core_def)

lemma calm_upd_net: "net_core (f (nets s n)) = net_core (nets s n) \<Longrightarrow> calm s (upd_net n f s)"
  by (simp add: calm_def)

lemma calm_upd_conn: "conn_core (f (conns s c)) = conn_core (conns s c) \<Longrightarrow> calm s (upd_conn c f s)"
  by (simp add: calm_def)

lemma conn_core_send [simp]: "conn_core (send m c) = conn_core c" "conn_core (close_conn k b c) = conn_core c" "conn_core (holdFor now w c) = conn_core c"
  by (simp_all add: conn_core_def holdFor_def)

lemma calm_send [simp]: "calm s (upd_conn c (send m) s)" "calm s (upd_conn c (close_conn k b) s)" "calm s (upd_conn c (holdFor now w) s)"
  by (simp_all add: calm_upd_conn)

lemma calm_quota: "quotaLocked n now s = (u, b, s') \<Longrightarrow> calm s s'"
  by (auto simp: quotaLocked_def Let_def net_core_def intro!: calm_upd_net split: if_splits prod.splits)

lemma calm_shaping: "shapingLocked n now s = (r, b, s') \<Longrightarrow> calm s s'"
  by (auto simp: shapingLocked_def Let_def intro: calm_quota split: if_splits prod.splits)

text \<open>The shaping the members of a network were told last, and \<open>reshapeLocked\<close> in these terms.\<close>

definition shape :: "relay \<Rightarrow> nat \<Rightarrow> int \<times> bool" where
  "shape s n = (n_rateNow (nets s n), n_slowed (nets s n))"

lemma shapingLocked_same:
  "shapingLocked n now s = (r, b, s') \<Longrightarrow> conns s' = conns s \<and> shape s' m = shape s m"
  by (auto simp: shapingLocked_def quotaLocked_def Let_def shape_def split: if_splits prod.splits)

lemma watchSlowed_simps [simp]:
  "nets (watchSlowed n s) = nets s" "conns (watchSlowed n s) = conns s" "table (watchSlowed n s) = table s"
  "next_net (watchSlowed n s) = next_net s" "owners (watchSlowed n s) = owners s" "byMost (watchSlowed n s) = byMost s"
  "idle_bytes (watchSlowed n s) = idle_bytes s" "cfg (watchSlowed n s) = cfg s" "channels (watchSlowed n s) = channels s"
  "chans (watchSlowed n s) = chans s" "ip_conns (watchSlowed n s) = ip_conns s" "limits (watchSlowed n s) = limits s"
  "origins (watchSlowed n s) = origins s"
  by (simp_all add: watchSlowed_def)

text \<open>The state a change of shaping leaves, before the network is put on the slowed list.\<close>

definition reshaped :: "nat \<Rightarrow> int \<Rightarrow> int \<Rightarrow> bool \<Rightarrow> relay \<Rightarrow> relay" where
  "reshaped n now r b s1 =
     upd_conns (map snd (n_members (nets s1 n))) (send (Shaping r b))
       (upd_net n (\<lambda>x. x\<lparr>n_rateNow := r, n_slowed := b\<rparr>)
          (if b \<and> \<not> n_slowed (nets s1 n) then upd_net n (\<lambda>x. x\<lparr>n_slowedAt := now\<rparr>) s1 else s1))"

lemma reshapeLocked_eq:
  assumes "shapingLocked n now s = (r, b, s1)"
  shows "reshapeLocked n now s =
    (if (r, b) = shape s1 n then (False, s1) else (True, if b then watchSlowed n (reshaped n now r b s1) else reshaped n now r b s1))"
  using assms by (auto simp: reshapeLocked_def Let_def shape_def reshaped_def)

lemma calm_reshaped: "calm s1 (reshaped n now r b s1)"
  by (simp add: calm_def reshaped_def net_core_def)

lemma calm_watch [simp]: "calm s (watchSlowed n s') \<longleftrightarrow> calm s s'"
  by (simp add: calm_def)

lemma shape_watch [simp]: "shape (watchSlowed n s) = shape s"
  by (simp add: shape_def fun_eq_iff)

lemma reshaped_shape [simp]: "shape (reshaped n now r b s1) = (shape s1)(n := (r, b))"
  by (simp add: shape_def reshaped_def fun_eq_iff)

lemma reshaped_conns:
  "conns (reshaped n now r b s1) = (\<lambda>c. if c \<in> snd ` set (n_members (nets s1 n)) then send (Shaping r b) (conns s1 c) else conns s1 c)"
  by (auto simp: reshaped_def fun_eq_iff)

lemma reshapeLocked_effect:
  assumes "reshapeLocked n now s = (told, s')"
  shows "calm s s'" "\<not> told \<Longrightarrow> conns s' = conns s \<and> shape s' = shape s" "m \<noteq> n \<Longrightarrow> shape s' m = shape s m"
    "told \<Longrightarrow> conns s' = (\<lambda>c. if c \<in> snd ` set (n_members (nets s n)) then send (Shaping (fst (shape s' n)) (snd (shape s' n))) (conns s c) else conns s c)"
proof -
  obtain r b s1 where S: "shapingLocked n now s = (r, b, s1)" by (metis prod_cases3)
  note C1 = calm_shaping [OF S] and E1 = shapingLocked_same [OF S] and E = assms [unfolded reshapeLocked_eq [OF S]]
  have sh: "shape s1 = shape s" and cs: "conns s1 = conns s" using E1 by (auto simp: fun_eq_iff)
  have ms: "n_members (nets s1 n) = n_members (nets s n)" by (rule calm_net(3) [OF C1])
  show "calm s s'" using E C1 calm_trans [OF C1 calm_reshaped] by (auto split: if_splits)
  show "\<not> told \<Longrightarrow> conns s' = conns s \<and> shape s' = shape s" using E sh cs by (auto split: if_splits)
  show "m \<noteq> n \<Longrightarrow> shape s' m = shape s m" using E sh by (auto split: if_splits)
  show "told \<Longrightarrow> conns s' = (\<lambda>c. if c \<in> snd ` set (n_members (nets s n)) then send (Shaping (fst (shape s' n)) (snd (shape s' n))) (conns s c) else conns s c)"
    using E sh cs ms by (auto simp: reshaped_conns split: if_splits)
qed

section \<open>The step relation\<close>

definition shapings :: "out_msg list \<Rightarrow> (int \<times> bool) list" where
  "shapings ms = concat (map (\<lambda>m. case m of Shaping r b \<Rightarrow> [(r, b)] | _ \<Rightarrow> []) ms)"

definition is_shaping :: "out_msg \<Rightarrow> bool" where
  "is_shaping m = (case m of Shaping r b \<Rightarrow> True | _ \<Rightarrow> False)"

inductive rstep :: "relay \<Rightarrow> relay \<Rightarrow> bool" where
  admitted: "c_state (conns s c) = stateHello \<Longrightarrow> admit_find c r i pub wall s = (Found n, s1) \<Longrightarrow>
     admit_locked c n r i pub now s1 = (res, s') \<Longrightarrow> rstep s s'"
| pushed: "c_network (conns s c) = Some n \<Longrightarrow> r_Network r = n_id (nets s n) \<Longrightarrow> r_Version r > r_Version (n_roster (nets s n)) \<Longrightarrow>
     push_locked c n r now s = (evict, demoted, s') \<Longrightarrow> rstep s s'"
| sent: "\<not> is_shaping m \<Longrightarrow> rstep s (upd_conn c (send m) s)"
| closed: "rstep s (upd_conn c (close_conn k b) s)"
| held_back: "rstep s (upd_conn c (holdFor now w) s)"
| channel_ended: "rstep s (endChannel ch tp tn s)"
| channel_opened: "c_state (conns s c) = stateHello \<Longrightarrow> rstep s (snd (open_channel c p code rnd s))"
| counted: "(\<And>x. net_core (f x) = net_core x \<and> n_rateNow (f x) = n_rateNow x \<and> n_slowed (f x) = n_slowed x) \<Longrightarrow> rstep s (upd_net n f s)"
| reshape: "rstep s (snd (reshapeLocked n now s))"
| tables: "rstep s (s\<lparr>ipRegister := la, ipNetworks := lb, ipPair := lc, ip_conns := ld, limits := l, origins := os, slowNets := sl\<rparr>)"
| origin_used: "rstep s (upd_conn c (\<lambda>k. k\<lparr>c_origin := o1\<rparr>) s)"
| left: "closing (conns s c) \<Longrightarrow> rstep s (unregister_net c now s)"
| trimmed: "rstep s (trim_act n s)"
| expired: "n_id (nets s n) = i \<Longrightarrow> rstep s (janitor_visit now (i, n) s)"

definition rinit :: "relay \<Rightarrow> bool" where
  "rinit s \<longleftrightarrow> table s = [] \<and> next_net s = 0 \<and> owners s = (\<lambda>_. None) \<and> byMost s = [] \<and> idle_bytes s = 0 \<and>
     (\<forall>n. n_members (nets s n) = [] \<and> n_idleOwner (nets s n) = None) \<and>
     (\<forall>c. c_state (conns s c) = stateHello \<and> c_network (conns s c) = None)"

inductive rreach :: "relay \<Rightarrow> bool" where
  start: "rinit s \<Longrightarrow> rreach s"
| next_step: "rreach s \<Longrightarrow> rstep s s' \<Longrightarrow> rreach s'"

section \<open>The invariants\<close>

text \<open>Members of a network: one connection a node, registered there under that id, on the roster.\<close>

definition net_members_ok :: "relay \<Rightarrow> nat \<Rightarrow> bool" where
  "net_members_ok s n \<longleftrightarrow> distinct (map fst (n_members (nets s n))) \<and>
     (\<forall>(i, c) \<in> set (n_members (nets s n)). on_roster (n_roster (nets s n)) i \<and> c_network (conns s c) = Some n \<and>
        c_id (conns s c) = i \<and> c_state (conns s c) = stateRegistered)"

definition members_ok :: "relay \<Rightarrow> bool" where
  "members_ok s \<longleftrightarrow> (\<forall>n. net_members_ok s n)"

text \<open>A member whose connection is open was last told the shaping in force.\<close>

definition net_told :: "relay \<Rightarrow> nat \<Rightarrow> bool" where
  "net_told s n \<longleftrightarrow> (\<forall>(i, c) \<in> set (n_members (nets s n)). closing (conns s c) \<or>
     (shapings (c_out (conns s c)) \<noteq> [] \<and> last (shapings (c_out (conns s c))) = shape s n))"

definition told_ok :: "relay \<Rightarrow> bool" where
  "told_ok s \<longleftrightarrow> (\<forall>n. net_told s n)"

definition table_ok :: "relay \<Rightarrow> bool" where
  "table_ok s \<longleftrightarrow> (\<forall>i n. map_of (table s) i = Some n \<longrightarrow> n < next_net s \<and> n_id (nets s n) = i) \<and>
     (\<forall>n \<ge> next_net s. n_members (nets s n) = [] \<and> n_idleOwner (nets s n) = None) \<and>
     (\<forall>c n. c_network (conns s c) = Some n \<longrightarrow> n < next_net s) \<and>
     (\<forall>c. c_network (conns s c) \<noteq> None \<longleftrightarrow> c_state (conns s c) = stateRegistered)"

definition idle_ok :: "relay \<Rightarrow> bool" where
  "idle_ok s \<longleftrightarrow> idle_inv s \<and> (\<forall>n. size_ok s n) \<and> (IdleRostersBytes (cfg s) \<le> 0 \<longrightarrow> (\<forall>n. n_idleOwner (nets s n) = None))"

definition rinv :: "relay \<Rightarrow> bool" where
  "rinv s \<longleftrightarrow> members_ok s \<and> told_ok s \<and> table_ok s \<and> idle_ok s"

lemma shapings_simps [simp]:
  "shapings [] = []" "shapings (ms @ [m]) = shapings ms @ (case m of Shaping r b \<Rightarrow> [(r, b)] | _ \<Rightarrow> [])"
  by (simp_all add: shapings_def)

lemma shapings_send:
  "\<not> is_shaping m \<Longrightarrow> shapings (c_out (send m c)) = shapings (c_out c)"
  "\<not> closing c \<Longrightarrow> shapings (c_out (send (Shaping r b) c)) = shapings (c_out c) @ [(r, b)]"
  by (auto simp: send_def is_shaping_def split: out_msg.splits)

text \<open>Calm steps keep all but what was told; what was told needs the messages too.\<close>

lemma calm_members: "calm s s' \<Longrightarrow> members_ok s \<Longrightarrow> members_ok s'"
  by (simp add: members_ok_def net_members_ok_def calm_net calm_conn)

lemma calm_table: "calm s s' \<Longrightarrow> table_ok s \<Longrightarrow> table_ok s'"
  by (simp add: table_ok_def calm_net calm_conn) (simp add: calm_def)

lemma calm_idle: "calm s s' \<Longrightarrow> idle_ok s \<Longrightarrow> idle_ok s'"
proof -
  assume C: "calm s s'" and I: "idle_ok s"
  have "idle_inv s'" by (rule idle_inv_frame [of s]) (use C I in \<open>auto simp: idle_ok_def calm_net calm_def [of s s']\<close>)
  moreover have "size_ok s' n" for n using I by (auto simp: idle_ok_def size_ok_def calm_net [OF C])
  moreover have "cfg s' = cfg s" using C by (simp add: calm_def)
  ultimately show ?thesis using I by (simp add: idle_ok_def calm_net [OF C])
qed

text \<open>\<open>quiet\<close>: no connection opens again, and those open were told nothing new about shaping.\<close>

definition quiet_conn :: "rconn \<Rightarrow> rconn \<Rightarrow> bool" where
  "quiet_conn c c' \<longleftrightarrow> closing c' \<or> \<not> closing c \<and> shapings (c_out c') = shapings (c_out c)"

lemma holdFor_same [simp]: "closing (holdFor now w c) = closing c" "c_out (holdFor now w c) = c_out c"
  by (simp_all add: holdFor_def closing_def)

lemma quiet_conn_simps [simp]:
  "quiet_conn c c" "\<not> is_shaping m \<Longrightarrow> quiet_conn c (send m c)" "quiet_conn c (close_conn k b c)" "quiet_conn c (holdFor now w c)"
  by (auto simp: quiet_conn_def shapings_send)

lemma quiet_told:
  assumes "told_ok s" "\<And>c. quiet_conn (conns s c) (conns s' c)" "shape s' = shape s"
    "\<And>n. set (n_members (nets s' n)) \<subseteq> set (n_members (nets s n))"
  shows "told_ok s'"
proof -
  have "net_told s' n" for n
  proof -
    have "net_told s n" using assms(1) by (simp add: told_ok_def)
    then show ?thesis using assms(2,3,4) by (fastforce simp: net_told_def quiet_conn_def)
  qed
  then show ?thesis by (simp add: told_ok_def)
qed

lemma rinv_calm:
  assumes "rinv s" "calm s s'" "\<And>c. quiet_conn (conns s c) (conns s' c)" "shape s' = shape s"
  shows "rinv s'"
  using assms calm_members calm_table calm_idle quiet_told [of s s'] calm_net(3) [OF assms(2)] by (simp add: rinv_def)

lemma members_okD:
  "members_ok s \<Longrightarrow> (i, c) \<in> set (n_members (nets s n)) \<Longrightarrow> c_network (conns s c) = Some n"
  "members_ok s \<Longrightarrow> (i, c) \<in> set (n_members (nets s n)) \<Longrightarrow> c_id (conns s c) = i"
  "members_ok s \<Longrightarrow> (i, c) \<in> set (n_members (nets s n)) \<Longrightarrow> c_state (conns s c) = stateRegistered"
  "members_ok s \<Longrightarrow> (i, c) \<in> set (n_members (nets s n)) \<Longrightarrow> on_roster (n_roster (nets s n)) i"
  by (auto simp: members_ok_def net_members_ok_def dest!: spec [of _ n])

text \<open>Two networks share no connection.\<close>

lemma members_disjoint:
  "members_ok s \<Longrightarrow> (i, c) \<in> set (n_members (nets s n)) \<Longrightarrow> (j, c) \<in> set (n_members (nets s m)) \<Longrightarrow> n = m \<and> i = j"
  using members_okD by (metis option.inject)

lemma told_reshape:
  assumes M: "members_ok s" and T: "\<And>m. m \<noteq> n \<Longrightarrow> net_told s m" "\<not> told \<Longrightarrow> net_told s n"
    and R: "reshapeLocked n now s = (told, s')"
  shows "told_ok s'"
proof -
  note E = reshapeLocked_effect [OF R]
  have "net_told s' m" for m
  proof (cases told)
    case False
    then show ?thesis using T(1) [of m] T(2) E(1,2) by (cases "m = n") (simp_all add: net_told_def calm_net)
  next
    case True
    note C = E(4) [OF True]
    show ?thesis
    proof (cases "m = n")
      case m: True
      have "closing (conns s' c) \<or> (shapings (c_out (conns s' c)) \<noteq> [] \<and> last (shapings (c_out (conns s' c))) = shape s' n)"
        if "(i, c) \<in> set (n_members (nets s n))" for i c
      proof -
        have "c \<in> snd ` set (n_members (nets s n))" using that by force
        then have "conns s' c = send (Shaping (fst (shape s' n)) (snd (shape s' n))) (conns s c)" using C by simp
        then show ?thesis using shapings_send(2) [of "conns s c"] by (cases "closing (conns s c)") auto
      qed
      then show ?thesis using m E(1) by (auto simp: net_told_def calm_net)
    next
      case False
      have "conns s' c = conns s c" if "(i, c) \<in> set (n_members (nets s m))" for i c
        using C members_disjoint [OF M that] False by auto
      then show ?thesis using T(1) [OF False] E(3) [OF False] E(1) by (fastforce simp: net_told_def calm_net)
    qed
  qed
  then show ?thesis by (simp add: told_ok_def)
qed

lemma rinv_reshape: "rinv s \<Longrightarrow> rinv (snd (reshapeLocked n now s))"
  using told_reshape [of s n _ now] reshapeLocked_effect(1) [of n now s] calm_members calm_table calm_idle
  by (metis prod.collapse rinv_def told_ok_def)

section \<open>Sections that change membership\<close>

text \<open>Before \<open>syncIdleLocked\<close> settles it, only the network under the lock may be charged wrongly.\<close>

definition pre_sync :: "nat \<Rightarrow> relay \<Rightarrow> bool" where
  "pre_sync n s \<longleftrightarrow> members_ok s \<and> told_ok s \<and> table_ok s \<and> n < next_net s \<and> idle_inv s \<and> (\<forall>m. m \<noteq> n \<longrightarrow> size_ok s m) \<and>
     (IdleRostersBytes (cfg s) \<le> 0 \<longrightarrow> (\<forall>m. n_idleOwner (nets s m) = None))"

lemma told_frame:
  "told_ok s \<Longrightarrow> conns s' = conns s \<Longrightarrow> shape s' = shape s \<Longrightarrow> (\<And>n. set (n_members (nets s' n)) \<subseteq> set (n_members (nets s n))) \<Longrightarrow> told_ok s'"
  by (rule quiet_told) auto

lemma rinv_sync:
  assumes P: "pre_sync n s"
  shows "rinv (syncIdleLocked n k s)"
proof -
  let ?s = "syncIdleLocked n k s"
  have "members_ok ?s" using P by (simp add: pre_sync_def members_ok_def net_members_ok_def)
  moreover have "told_ok ?s" by (rule told_frame [of s]) (use P in \<open>auto simp: pre_sync_def shape_def fun_eq_iff\<close>)
  moreover have "table_ok ?s"
  proof -
    have "n_idleOwner (nets ?s m) = None" if "m \<ge> next_net s" for m
    proof -
      have "m \<noteq> n" using P that by (auto simp: pre_sync_def)
      then show ?thesis using P that by (auto simp: pre_sync_def table_ok_def)
    qed
    then show ?thesis using P by (simp add: pre_sync_def table_ok_def)
  qed
  moreover have "idle_ok ?s"
  proof (cases "IdleRostersBytes (cfg s) \<le> 0")
    case True
    then show ?thesis using P by (simp add: idle_ok_def pre_sync_def syncIdleLocked_def size_ok_def)
  next
    case False
    have "size_ok ?s m" for m
      using size_ok_sync(1) [of s n k] size_ok_other [OF same_else_sync [of n s k], of m] P False by (cases "m = n") (auto simp: pre_sync_def)
    then show ?thesis using False P idle_inv_sync [of s n k] by (simp add: idle_ok_def pre_sync_def)
  qed
  ultimately show ?thesis by (simp add: rinv_def)
qed

lemma rinv_pre: "rinv s \<Longrightarrow> n < next_net s \<Longrightarrow> pre_sync n s"
  by (simp add: rinv_def pre_sync_def idle_ok_def)

lemma distinct_map_fst_filter: "distinct (map fst xs) \<Longrightarrow> distinct (map fst (filter P xs))"
  by (induction xs) auto

text \<open>Replacing a network's roster and members by ones that fit.\<close>

lemma pre_sync_members:
  assumes P: "pre_sync n s"
    and f: "nets s' = (nets s)(n := x)" "conns s' = conns s" "table s' = table s" "next_net s' = next_net s" "cfg s' = cfg s"
      "owners s' = owners s" "byMost s' = byMost s" "idle_bytes s' = idle_bytes s"
    and x: "n_id x = n_id (nets s n)" "n_idleOwner x = n_idleOwner (nets s n)" "n_idleSize x = n_idleSize (nets s n)"
      "n_rateNow x = n_rateNow (nets s n)" "n_slowed x = n_slowed (nets s n)"
      "distinct (map fst (n_members x))" "set (n_members x) \<subseteq> set (n_members (nets s n))"
      "\<And>i c. (i, c) \<in> set (n_members x) \<Longrightarrow> on_roster (n_roster x) i"
  shows "pre_sync n s'"
proof -
  have M: "members_ok s" and T: "told_ok s" and B: "table_ok s" using P by (simp_all add: pre_sync_def)
  have "net_members_ok s' m" for m
  proof (cases "m = n")
    case True
    have "c_network (conns s c) = Some n \<and> c_id (conns s c) = i \<and> c_state (conns s c) = stateRegistered" if "(i, c) \<in> set (n_members x)" for i c
      using members_okD [OF M, of i c n] x(7) that by auto
    then show ?thesis using True x(6,8) f by (auto simp: net_members_ok_def)
  next
    case False
    then show ?thesis using M f by (simp add: members_ok_def net_members_ok_def)
  qed
  moreover have "told_ok s'" by (rule told_frame [OF T]) (use f x in \<open>auto simp: shape_def fun_eq_iff\<close>)
  moreover have "table_ok s'" using B P x f by (auto simp: table_ok_def pre_sync_def)
  moreover have "idle_inv s'" by (rule idle_inv_frame [of s]) (use P x f in \<open>auto simp: pre_sync_def\<close>)
  moreover have "size_ok s' m" if "m \<noteq> n" for m using P that f by (simp add: pre_sync_def size_ok_def)
  ultimately show ?thesis using P x f by (simp add: pre_sync_def members_ok_def)
qed

lemma pre_sync_adopt:
  assumes P: "pre_sync n s" and A: "adoptLocked n r now s = (evict, demoted, s')"
  shows "pre_sync n s'"
proof -
  let ?left = "filter (\<lambda>(i, c). on_roster r i) (n_members (nets s n))"
  let ?x = "(nets s n)\<lparr>n_roster := r, n_members := ?left, n_emptySince := if ?left = [] then now else n_emptySince (nets s n)\<rparr>"
  have s': "s' = upd_net n (\<lambda>_. ?x) s" using A by (simp add: adoptLocked_def Let_def upd_net_def)
  have D: "distinct (map fst (n_members (nets s n)))" using P by (auto simp: pre_sync_def members_ok_def net_members_ok_def)
  show ?thesis
    by (rule pre_sync_members [OF P, where x = ?x]) (use distinct_map_fst_filter [OF D] in \<open>auto simp: s'\<close>)
qed

lemma settle_cases:
  assumes "settle_roster n r now s = (evict, demoted, newer, s')"
  obtains (adopt) "r_Version r > r_Version (n_roster (nets s n))" "adoptLocked n r now s = (evict, demoted, s')" "newer = None"
  | (keep) "s' = s" "evict = []" "demoted = None"
  | (restore) "r_Version r = r_Version (n_roster (nets s n))" "sameMembers r (n_roster (nets s n))" "evict = []" "demoted = None"
      "s' = upd_net n (\<lambda>x. x\<lparr>n_roster := r\<rparr>) s"
proof -
  obtain e d t where A: "adoptLocked n r now s = (e, d, t)" by (metis prod_cases3)
  consider "r_Version r > r_Version (n_roster (nets s n))" | "r_Version r < r_Version (n_roster (nets s n))"
    | "r_Version r = r_Version (n_roster (nets s n))" by linarith
  then show ?thesis
  proof cases
    case 1 then show ?thesis using assms A adopt by (simp add: settle_roster_def Let_def)
  next
    case 2 then show ?thesis using assms keep by (simp add: settle_roster_def Let_def)
  next
    case 3
    show ?thesis
    proof (cases "r_Raw (n_roster (nets s n)) = None \<and> sameMembers r (n_roster (nets s n))")
      case True
      with 3 assms have "evict = []" "demoted = None" "s' = upd_net n (\<lambda>x. x\<lparr>n_roster := r\<rparr>) s"
        by (simp_all add: settle_roster_def Let_def)
      then show ?thesis using 3 True restore by blast
    next
      case False
      with 3 assms have "evict = []" "demoted = None" "s' = s" by (auto simp: settle_roster_def Let_def)
      then show ?thesis using keep by blast
    qed
  qed
qed

lemma sameMembers_on_roster: "sameMembers a b \<Longrightarrow> on_roster a i = on_roster b i"
  by (metis image_set on_roster_iff sameMembers_def)

lemma pre_sync_settle:
  assumes P: "pre_sync n s" and S: "settle_roster n r now s = (evict, demoted, newer, s')"
  shows "pre_sync n s'"
  using S
proof (cases rule: settle_cases)
  case adopt then show ?thesis using pre_sync_adopt [OF P] by blast
next
  case keep then show ?thesis using P by simp
next
  case restore
  let ?x = "(nets s n)\<lparr>n_roster := r\<rparr>"
  have M: "members_ok s" and D: "distinct (map fst (n_members (nets s n)))"
    using P by (auto simp: pre_sync_def members_ok_def net_members_ok_def)
  show ?thesis
    by (rule pre_sync_members [OF P, where x = ?x])
      (use restore D members_okD(4) [OF M] sameMembers_on_roster in \<open>auto simp: upd_net_def\<close>)
qed

lemma rinv_push:
  assumes I: "rinv s" and n: "c_network (conns s c) = Some n" and P: "push_locked c n r now s = (evict, demoted, s')"
  shows "rinv s'"
proof -
  have "n < next_net s" using I n by (auto simp: rinv_def table_ok_def)
  then have "pre_sync n s" using rinv_pre I by blast
  then show ?thesis using P pre_sync_adopt rinv_sync by (auto simp: push_locked_def split: prod.splits)
qed

lemma AList_update_set:
  "distinct (map fst al) \<Longrightarrow> (j, d) \<in> set (AList.update i c al) \<Longrightarrow> (j = i \<and> d = c) \<or> (j \<noteq> i \<and> (j, d) \<in> set al)"
  by (metis distinct_update map_of_SomeD map_of_is_SomeI update_Some_unfold)

end
