(* ===== verification/Relay_Safety.thy ===== *)
theory Relay_Safety
  imports Relay_Invariant
begin

text \<open>
  Every section of the relay's handlers keeps the invariants of theory \<open>Relay_Invariant\<close>; what follows
  for registration, routing, shaping and idle networks; and two states of the idle accounting that
  the code reaches and does not mean to.
\<close>

section \<open>Registration\<close>

lemma members_ok_take:
  assumes M: "members_ok s" and c: "c_state (conns s c) = stateHello" and i: "on_roster (n_roster (nets s n)) i"
    and f: "nets s' = (nets s)(n := (nets s n)\<lparr>n_members := AList.update i c (n_members (nets s n))\<rparr>)"
      "\<And>d. d \<noteq> c \<Longrightarrow> conns s' d = conns s d"
      "c_network (conns s' c) = Some n" "c_id (conns s' c) = i" "c_state (conns s' c) = stateRegistered"
  shows "members_ok s'"
proof -
  have nc: "d \<noteq> c" if "(j, d) \<in> set (n_members (nets s m))" for j d m using members_okD(3) [OF M that] c by auto
  have D: "distinct (map fst (n_members (nets s m)))" for m using M by (simp add: members_ok_def net_members_ok_def)
  have "net_members_ok s' m" for m
  proof (cases "m = n")
    case True
    have "on_roster (n_roster (nets s n)) j \<and> c_network (conns s' d) = Some n \<and> c_id (conns s' d) = j \<and> c_state (conns s' d) = stateRegistered"
      if jd: "(j, d) \<in> set (AList.update i c (n_members (nets s n)))" for j d
      using AList_update_set [OF D jd] members_okD [OF M, of j d n] nc [of j d n] f i by auto
    then show ?thesis using True D [of n] by (auto simp: net_members_ok_def f(1) distinct_update)
  next
    case False
    have "conns s' d = conns s d" if "(j, d) \<in> set (n_members (nets s m))" for j d using nc [OF that] f(2) by simp
    then show ?thesis using False D [of m] members_okD [OF M, of _ _ m] by (auto simp: net_members_ok_def f(1))
  qed
  then show ?thesis by (simp add: members_ok_def)
qed

text \<open>The state between the \<open>registered\<close> message and the shaping notice.\<close>

definition seat :: "nat \<Rightarrow> nat \<Rightarrow> ID \<Rightarrow> bytes option \<Rightarrow> relay \<Rightarrow> relay" where
  "seat c n i newer s =
     (let s = upd_net n (\<lambda>x. x\<lparr>n_members := AList.update i c (n_members x)\<rparr>) s;
          s = upd_conn c (\<lambda>k. k\<lparr>c_network := Some n, c_id := i, c_state := stateRegistered\<rparr>) s
      in upd_conn c (send (Registered i (r_Version (n_roster (nets s n))) newer)) s)"

lemma seat_simps:
  "nets (seat c n i newer s) = (nets s)(n := (nets s n)\<lparr>n_members := AList.update i c (n_members (nets s n))\<rparr>)"
  "d \<noteq> c \<Longrightarrow> conns (seat c n i newer s) d = conns s d"
  "c_network (conns (seat c n i newer s) c) = Some n" "c_id (conns (seat c n i newer s) c) = i"
  "c_state (conns (seat c n i newer s) c) = stateRegistered"
  "table (seat c n i newer s) = table s" "next_net (seat c n i newer s) = next_net s" "cfg (seat c n i newer s) = cfg s"
  "owners (seat c n i newer s) = owners s" "byMost (seat c n i newer s) = byMost s" "idle_bytes (seat c n i newer s) = idle_bytes s"
  "shape (seat c n i newer s) = shape s"
  by (simp_all add: seat_def Let_def shape_def fun_eq_iff)

lemma take_in_eq:
  assumes "reshapeLocked n now (seat c n i newer s) = (told, s2)"
  shows "\<exists>s3 s4. s3 = (if told then s2 else upd_conn c (send (Shaping (n_rateNow (nets s2 n)) (n_slowed (nets s2 n)))) s2) \<and>
    s4 = (if n_slowed (nets s3 n) then watchSlowed n s3 else s3) \<and>
    take_in c n i newer now s = (if c_ipPending (conns s4 c)
       then upd_conn c (\<lambda>k. k\<lparr>c_ipPending := False\<rparr>) (s4\<lparr>ip_conns := registered (ip_conns s4) (c_ip (conns s4 c))\<rparr>) else s4)"
  using assms by (simp add: take_in_def seat_def Let_def)

lemma pre_sync_seat:
  assumes P: "pre_sync n s" and c: "c_state (conns s c) = stateHello" and i: "on_roster (n_roster (nets s n)) i"
    and s'_def: "s' = seat c n i newer s"
  shows "members_ok s'" "table_ok s'" "idle_inv s'" "\<And>m. m \<noteq> n \<Longrightarrow> size_ok s' m"
    "IdleRostersBytes (cfg s') \<le> 0 \<Longrightarrow> n_idleOwner (nets s' m) = None" "n < next_net s'"
    "\<And>m. m \<noteq> n \<Longrightarrow> net_told s' m"
    "\<And>j d. (j, d) \<in> set (n_members (nets s' n)) \<Longrightarrow> d \<noteq> c \<Longrightarrow> closing (conns s' d) \<or>
       (shapings (c_out (conns s' d)) \<noteq> [] \<and> last (shapings (c_out (conns s' d))) = shape s' n)"
proof -
  note Q = P [unfolded pre_sync_def] and F = seat_simps [where c = c and n = n and i = i and newer = newer and s = s, folded s'_def]
  have M: "members_ok s" and T: "told_ok s" and B: "table_ok s" using Q by auto
  have nc: "d \<noteq> c" if "(j, d) \<in> set (n_members (nets s m))" for j d m using members_okD(3) [OF M that] c by auto
  show "members_ok s'" by (rule members_ok_take [OF M c i F(1-5)])
  show "table_ok s'"
  proof -
    have "c_network (conns s' d) = Some m \<Longrightarrow> m < next_net s'" for d m using B Q F by (cases "d = c") (auto simp: table_ok_def)
    moreover have "c_network (conns s' d) \<noteq> None \<longleftrightarrow> c_state (conns s' d) = stateRegistered" for d
      using B F by (cases "d = c") (auto simp: table_ok_def)
    moreover have "map_of (table s') j = Some m \<Longrightarrow> m < next_net s' \<and> n_id (nets s' m) = j" for j m
      using B F by (auto simp: table_ok_def)
    moreover have "next_net s' \<le> m \<Longrightarrow> n_members (nets s' m) = [] \<and> n_idleOwner (nets s' m) = None" for m
      using B F Q by (auto simp: table_ok_def)
    ultimately show ?thesis by (simp add: table_ok_def)
  qed
  show "idle_inv s'" by (rule idle_inv_frame [of s]) (use Q F in auto)
  show "\<And>m. m \<noteq> n \<Longrightarrow> size_ok s' m" using Q F by (simp add: size_ok_def)
  show "IdleRostersBytes (cfg s') \<le> 0 \<Longrightarrow> n_idleOwner (nets s' m) = None" using Q F by auto
  show "n < next_net s'" using Q F by simp
  show "net_told s' m" if "m \<noteq> n" for m
  proof -
    have "net_told s m" using T by (simp add: told_ok_def)
    moreover have "conns s' d = conns s d" if "(j, d) \<in> set (n_members (nets s m))" for j d using nc [OF that] F(2) by simp
    ultimately show ?thesis using that F(1,12) by (fastforce simp: net_told_def)
  qed
  show "closing (conns s' d) \<or> (shapings (c_out (conns s' d)) \<noteq> [] \<and> last (shapings (c_out (conns s' d))) = shape s' n)"
    if "(j, d) \<in> set (n_members (nets s' n))" "d \<noteq> c" for j d
  proof -
    have "distinct (map fst (n_members (nets s n)))" using M by (simp add: members_ok_def net_members_ok_def)
    then have "(j, d) \<in> set (n_members (nets s n))" using AList_update_set that F(1) by fastforce
    moreover have "net_told s n" using T by (simp add: told_ok_def)
    ultimately show ?thesis using F(2) [OF that(2)] F(12) by (auto simp: net_told_def)
  qed
qed
lemma pre_sync_take:
  assumes P: "pre_sync n s" and c: "c_state (conns s c) = stateHello" and i: "on_roster (n_roster (nets s n)) i"
  shows "pre_sync n (take_in c n i newer now s)"
proof -
  let ?s1 = "seat c n i newer s"
  note S = pre_sync_seat [OF P c i refl, where newer = newer]
  obtain told s2 where R: "reshapeLocked n now ?s1 = (told, s2)" by fastforce
  note E = reshapeLocked_effect [OF R]
  obtain s3 s4 where s3: "s3 = (if told then s2 else upd_conn c (send (Shaping (n_rateNow (nets s2 n)) (n_slowed (nets s2 n)))) s2)"
    and s4: "s4 = (if n_slowed (nets s3 n) then watchSlowed n s3 else s3)"
    and t: "take_in c n i newer now s = (if c_ipPending (conns s4 c)
       then upd_conn c (\<lambda>k. k\<lparr>c_ipPending := False\<rparr>) (s4\<lparr>ip_conns := registered (ip_conns s4) (c_ip (conns s4 c))\<rparr>) else s4)"
    using take_in_eq [OF R] by blast
  have C3: "calm ?s1 s3" using E(1) calm_trans [OF E(1) calm_send(1)] s3 by simp
  have Ct: "calm s3 (take_in c n i newer now s)" unfolding t s4 by (simp add: calm_def conn_core_def)
  have C: "calm ?s1 (take_in c n i newer now s)" by (rule calm_trans [OF C3 Ct])
  have T3: "told_ok s3"
  proof (cases told)
    case True
    then show ?thesis using told_reshape [OF S(1) S(7) _ R] s3 by simp
  next
    case False
    have s3: "s3 = upd_conn c (send (Shaping (fst (shape s2 n)) (snd (shape s2 n)))) s2" using s3 False by (simp add: shape_def)
    have sh: "shape s3 = shape ?s1" and cs: "\<And>d. d \<noteq> c \<Longrightarrow> conns s3 d = conns ?s1 d" using E(2) [OF False] s3 by (auto simp: shape_def fun_eq_iff)
    have ct: "closing (conns s3 c) \<or> (shapings (c_out (conns s3 c)) \<noteq> [] \<and> last (shapings (c_out (conns s3 c))) = shape s3 n)"
      using E(2) [OF False] shapings_send(2) [of "conns s2 c"] sh unfolding s3 by (cases "closing (conns s2 c)") (auto simp: shape_def)
    have "net_told s3 m" for m
    proof (cases "m = n")
      case True
      have "closing (conns s3 d) \<or> (shapings (c_out (conns s3 d)) \<noteq> [] \<and> last (shapings (c_out (conns s3 d))) = shape s3 n)"
        if "(j, d) \<in> set (n_members (nets ?s1 n))" for j d
        using ct S(8) [OF that] cs [of d] sh by (cases "d = c") auto
      then show ?thesis using True calm_net(3) [OF C3] by (auto simp: net_told_def)
    next
      case False
      have "d \<noteq> c" if "(j, d) \<in> set (n_members (nets ?s1 m))" for j d
        using members_okD(1) [OF S(1) that] False seat_simps(3) [of c n i newer s] by auto
      then show ?thesis using S(7) [OF False] calm_net(3) [OF C3] cs sh by (fastforce simp: net_told_def)
    qed
    then show ?thesis by (simp add: told_ok_def)
  qed
  have "told_ok (take_in c n i newer now s)"
    by (rule quiet_told [OF T3]) (auto simp: t s4 quiet_conn_def closing_def shape_def fun_eq_iff)
  moreover have "idle_inv (take_in c n i newer now s)"
    by (rule idle_inv_frame [OF S(3)]) (use C in \<open>auto simp: calm_net [OF C] calm_def [of ?s1]\<close>)
  moreover have "size_ok (take_in c n i newer now s) m" if "m \<noteq> n" for m
    using S(4) [OF that] by (simp add: size_ok_def calm_net [OF C])
  moreover have "n_idleOwner (nets (take_in c n i newer now s) m) = None" if "IdleRostersBytes (cfg (take_in c n i newer now s)) \<le> 0" for m
    using S(5) that C by (simp add: calm_net [OF C]) (simp add: calm_def)
  moreover have "next_net (take_in c n i newer now s) = next_net ?s1" using C by (simp add: calm_def)
  ultimately show ?thesis
    using calm_members [OF C S(1)] calm_table [OF C S(2)] S(6) by (simp add: pre_sync_def)
qed

lemma isMember_on_roster: "isMember i pub r \<Longrightarrow> on_roster r i"
  by (auto simp: isMember_def on_roster_def split: option.splits)

lemma adopt_conns: "adoptLocked n r now s = (e, d, s') \<Longrightarrow> conns s' = conns s"
  by (auto simp: adoptLocked_def Let_def)

lemma settle_conns: "settle_roster n r now s = (e, d, w, s') \<Longrightarrow> conns s' = conns s"
  by (erule settle_cases) (auto dest: adopt_conns)

lemma rinv_admit_locked:
  assumes P: "pre_sync n s" and c: "c_state (conns s c) = stateHello" and A: "admit_locked c n r i pub now s = (res, s')"
  shows "rinv s'"
proof -
  obtain e d w s1 where S: "settle_roster n r now s = (e, d, w, s1)" by (metis prod_cases4)
  have P1: "pre_sync n s1" by (rule pre_sync_settle [OF P S])
  have c1: "c_state (conns s1 c) = stateHello" using c settle_conns [OF S] by simp
  have "pre_sync n (if isMember i pub (n_roster (nets s1 n)) then take_in c n i w now s1 else s1)"
    using P1 pre_sync_take [OF P1 c1] isMember_on_roster by simp
  from rinv_sync [OF this] show ?thesis using A S by (auto simp: admit_locked_def Let_def)
qed

lemma pre_sync_find:
  assumes I: "rinv s" and F: "admit_find c r i pub wall s = (Found n, s')"
  shows "pre_sync n s' \<and> conns s' = conns s"
proof (cases "map_of (table s) (r_Network r)")
  case (Some m)
  then have "n = m \<and> s' = s" using F by (simp add: admit_find_def)
  moreover have "m < next_net s" using I Some by (auto simp: rinv_def table_ok_def)
  ultimately show ?thesis using rinv_pre [OF I] by simp
next
  case None
  obtain ok lm where L: "ipLimiter_allow (ipNetworks s) (c_ip (conns s c)) wall = (ok, lm)" by fastforce
  let ?x = "new_network r (c_originRef (conns s c))"
  have n: "n = next_net s" and s': "s' = s\<lparr>ipNetworks := lm, nets := (nets s)(n := ?x), next_net := Suc n,
      table := AList.update (r_Network r) n (table s)\<rparr>"
    using F None L by (auto simp: admit_find_def Let_def split: if_splits)
  have x: "n_members ?x = []" "n_idleOwner ?x = None" "n_id ?x = r_Network r" by (simp_all add: new_network_def)
  have old: "n_members (nets s n) = []" "n_idleOwner (nets s n) = None" using I n by (auto simp: rinv_def table_ok_def)
  have "net_members_ok s' m" for m
    using I by (cases "m = n") (auto simp: rinv_def members_ok_def net_members_ok_def s' x)
  moreover have "net_told s' m" for m
    using I by (cases "m = n") (auto simp: rinv_def told_ok_def net_told_def s' x shape_def)
  moreover have "table_ok s'"
    using I by (auto simp: rinv_def table_ok_def s' x n update_conv' less_Suc_eq split: if_splits)
  moreover have "idle_inv s'"
    by (rule idle_inv_frame [of s]) (use I old in \<open>auto simp: rinv_def idle_ok_def s' x\<close>)
  moreover have "size_ok s' m" for m using I x by (auto simp: rinv_def idle_ok_def size_ok_def s')
  ultimately show ?thesis using I x by (auto simp: pre_sync_def members_ok_def told_ok_def s' n rinv_def idle_ok_def)
qed

section \<open>Leaving and forgetting\<close>

lemma rinv_left:
  assumes I: "rinv s"
  shows "rinv (unregister_net c now s)"
proof (cases "c_network (conns s c)")
  case None
  then show ?thesis using I by (simp add: unregister_net_def)
next
  case (Some n)
  have "n < next_net s" using I Some by (auto simp: rinv_def table_ok_def)
  then have P: "pre_sync n s" by (rule rinv_pre [OF I])
  let ?left = "AList.delete (c_id (conns s c)) (n_members (nets s n))"
  let ?x = "(nets s n)\<lparr>n_members := ?left, n_emptySince := (if ?left = [] then now else n_emptySince (nets s n))\<rparr>"
  let ?s = "if map_of (n_members (nets s n)) (c_id (conns s c)) = Some c then upd_net n (\<lambda>_. ?x) s else s"
  have M: "members_ok s" and D: "distinct (map fst (n_members (nets s n)))"
    using P by (auto simp: pre_sync_def members_ok_def net_members_ok_def)
  have sub: "set ?left \<subseteq> set (n_members (nets s n))" by (auto simp: AList.delete_eq)
  have "pre_sync n (upd_net n (\<lambda>_. ?x) s)"
    by (rule pre_sync_members [OF P, where x = ?x]) (use sub D members_okD(4) [OF M] in \<open>auto intro: distinct_delete\<close>)
  then have "pre_sync n ?s" using P by simp
  moreover have "unregister_net c now s = syncIdleLocked n (c_ip (conns ?s c)) ?s"
    using Some by (simp add: unregister_net_def Let_def upd_net_def)
  ultimately show ?thesis using rinv_sync by metis
qed

text \<open>Forgetting a network nobody is connected to: the table, and the accounting if it was in it.\<close>

lemma rinv_forget:
  assumes I: "rinv s" and m: "n_members (nets s n) = []"
  shows "rinv (dropIdleLocked n (s\<lparr>table := AList.delete i (table s)\<rparr>))"
proof -
  let ?s = "s\<lparr>table := AList.delete i (table s)\<rparr>" let ?d = "dropIdleLocked n ?s"
  have "members_ok ?d" using I by (simp add: rinv_def members_ok_def net_members_ok_def)
  moreover have "told_ok ?d" by (rule told_frame [of s]) (use I in \<open>auto simp: rinv_def shape_def fun_eq_iff\<close>)
  moreover have Ii: "idle_inv ?s" by (rule idle_inv_frame [of s]) (use I in \<open>auto simp: rinv_def idle_ok_def\<close>)
  have own: "n_idleOwner (nets ?d k) = (if k = n then None else n_idleOwner (nets s k))" for k
    using dropped [OF Ii, of n] by auto
  have "table_ok ?d"
    using I by (auto simp: rinv_def table_ok_def own delete_conv split: if_splits)
  moreover have "idle_ok ?d"
  proof -
    have "size_ok ?d k" for k
      using I size_ok_other [OF dropIdleLocked_same, of k n ?s] own [of k]
      by (cases "k = n") (auto simp: rinv_def idle_ok_def size_ok_def)
    then show ?thesis using idle_inv_drop [OF Ii, of n] I own by (auto simp: idle_ok_def rinv_def)
  qed
  ultimately show ?thesis by (simp add: rinv_def)
qed

lemma rinv_compact:
  assumes I: "rinv s" and n: "n_idleOwner (nets s n) = Some k" "n_members (nets s n) = []"
    "map_of (table s) (n_id (nets s n)) = Some n" "r_Raw (n_roster (nets s n)) \<noteq> None"
  shows "rinv (trim_act n s)"
proof -
  have J: "idle_inv s" using I by (simp add: rinv_def idle_ok_def)
  note C = trim_compact [OF J n]
  have nn: "next_net (trim_act n s) = next_net s"
    using n by (simp add: trim_act_def) (simp add: move_to_back_def resizeLocked_def Let_def split: option.split)
  have "net_members_ok (trim_act n s) m" for m
    using I n(2) by (cases "m = n") (auto simp: rinv_def members_ok_def net_members_ok_def C)
  moreover have "told_ok (trim_act n s)" by (rule told_frame [of s]) (use I in \<open>auto simp: rinv_def shape_def fun_eq_iff C\<close>)
  moreover have "table_ok (trim_act n s)" using I n by (auto simp: rinv_def table_ok_def C nn)
  moreover have "size_ok (trim_act n s) m" for m using I n by (auto simp: rinv_def idle_ok_def size_ok_def C)
  moreover have "IdleRostersBytes (cfg s) \<le> 0 \<Longrightarrow> n_idleOwner (nets (trim_act n s) m) = None" for m
    using I n by (auto simp: rinv_def idle_ok_def C)
  ultimately show ?thesis using C(1,3) by (simp add: rinv_def members_ok_def idle_ok_def)
qed

lemma rinv_trim: "rinv s \<Longrightarrow> rinv (trim_act n s)"
proof (cases "n_idleOwner (nets s n) \<noteq> None \<and> n_members (nets s n) = [] \<and> map_of (table s) (n_id (nets s n)) = Some n")
  case False
  then show "rinv s \<Longrightarrow> ?thesis" unfolding trim_act_def by (simp only: if_False)
next
  case True
  assume I: "rinv s"
  show ?thesis
  proof (cases "r_Raw (n_roster (nets s n)) = None")
    case F: False
    then show ?thesis using rinv_compact [OF I] True by auto
  next
    case T: True
    then show ?thesis using rinv_forget [OF I, of n "n_id (nets s n)"] True by (simp add: trim_act_def)
  qed
qed

lemma rinv_janitor: "rinv s \<Longrightarrow> rinv (janitor_visit now (i, n) s)"
  by (simp add: janitor_visit_def Let_def rinv_forget)

section \<open>Channels\<close>

lemma endChannel_effect:
  "calm s (endChannel ch tp tn s) \<and> (\<forall>c. quiet_conn (conns s c) (conns (endChannel ch tp tn s) c)) \<and> shape (endChannel ch tp tn s) = shape s"
proof (cases "map_of (channels s) (ch_id (chans s ch)) = Some ch")
  case False
  then show ?thesis unfolding endChannel_def Let_def by simp
next
  case True
  let ?i = "ch_id (chans s ch)" and ?p = "ch_primary (chans s ch)" and ?n = "ch_newcomer (chans s ch)"
  have "conn_core (conns (endChannel ch tp tn s) c) = conn_core (conns s c) \<and> quiet_conn (conns s c) (conns (endChannel ch tp tn s) c)" for c
    using True by (auto simp: endChannel_def Let_def conn_core_def quiet_conn_def shapings_send is_shaping_def closing_def [of "_\<lparr>c_pairs := _\<rparr>"]) (auto simp: closing_def)
  moreover have "nets (endChannel ch tp tn s) = nets s" "table (endChannel ch tp tn s) = table s" "next_net (endChannel ch tp tn s) = next_net s"
    "owners (endChannel ch tp tn s) = owners s" "byMost (endChannel ch tp tn s) = byMost s" "idle_bytes (endChannel ch tp tn s) = idle_bytes s"
    "cfg (endChannel ch tp tn s) = cfg s"
    by (simp_all add: endChannel_def Let_def)
  ultimately show ?thesis by (simp add: calm_def shape_def fun_eq_iff)
qed
lemma rinv_pairing:
  assumes I: "rinv s" and c: "c_state (conns s c) = stateHello"
  shows "rinv (upd_conn c (\<lambda>k. k\<lparr>c_state := statePairing, c_channel := Some ch\<rparr>) s)" (is "rinv ?s")
proof -
  have M: "members_ok s" using I by (simp add: rinv_def)
  have nc: "d \<noteq> c" if "(j, d) \<in> set (n_members (nets s m))" for j d m using members_okD(3) [OF M that] c by auto
  have "net_members_ok ?s n" for n
    using nc [of _ _ n] M by (force simp: members_ok_def net_members_ok_def)
  moreover have "told_ok ?s" by (rule quiet_told [of s]) (use I in \<open>auto simp: rinv_def shape_def fun_eq_iff quiet_conn_def closing_def\<close>)
  moreover have "table_ok ?s" using I c by (auto simp: rinv_def table_ok_def)
  moreover have "idle_inv ?s" by (rule idle_inv_frame [of s]) (use I in \<open>auto simp: rinv_def idle_ok_def\<close>)
  moreover have "size_ok ?s n" for n using I by (simp add: rinv_def idle_ok_def size_ok_def)
  ultimately show ?thesis using I by (simp add: rinv_def members_ok_def idle_ok_def)
qed

lemma rinv_pairs:
  "rinv s \<Longrightarrow> rinv (upd_conn p (\<lambda>k. k\<lparr>c_pairs := g (c_pairs k)\<rparr>) (s\<lparr>chans := a, next_chan := b, channels := d\<rparr>))"
  by (erule rinv_calm) (auto simp: calm_def conn_core_def quiet_conn_def closing_def shape_def fun_eq_iff)

lemma rinv_send: "rinv s \<Longrightarrow> \<not> is_shaping m \<Longrightarrow> rinv (upd_conn c (send m) s)"
  by (erule rinv_calm) (auto simp: shape_def fun_eq_iff)

lemma rinv_endChannel: "rinv s \<Longrightarrow> rinv (endChannel ch tp tn s)"
  using endChannel_effect [of s ch tp tn] by (blast intro: rinv_calm)

lemma rinv_open_channel:
  assumes I: "rinv s" and c: "c_state (conns s c) = stateHello"
  shows "rinv (snd (open_channel c p code rnd s))"
proof -
  let ?ch = "next_chan s"
  let ?s1 = "upd_conn p (\<lambda>k. k\<lparr>c_pairs := AList.update rnd ?ch (c_pairs k)\<rparr>)
    (s\<lparr>chans := (chans s)(?ch := \<lparr>ch_id = rnd, ch_newcomer = c, ch_primary = p\<rparr>), next_chan := Suc ?ch,
       channels := AList.update rnd ?ch (channels s)\<rparr>)"
  let ?s2 = "upd_conn c (\<lambda>k. k\<lparr>c_state := statePairing, c_channel := Some ?ch\<rparr>) ?s1"
  let ?s3 = "upd_conn p (send (Pairing rnd (Some code))) ?s2"
  have "rinv ?s1" using rinv_pairs [OF I] by blast
  moreover have "c_state (conns ?s1 c) = stateHello" using c by auto
  ultimately have "rinv ?s2" by (rule rinv_pairing)
  then have "rinv ?s3" by (rule rinv_send) (simp add: is_shaping_def)
  moreover have "snd (open_channel c p code rnd s) =
      (if \<not> closing (conns ?s2 p) then upd_conn c (send (Pairing rnd None)) ?s3 else endChannel ?ch False True ?s3)"
    unfolding open_channel_def Let_def try_send_def by simp
  ultimately show ?thesis using rinv_send [of ?s3 "Pairing rnd None" c] rinv_endChannel [of ?s3] by (auto simp: is_shaping_def)
qed

section \<open>Every reachable state\<close>

lemma rstep_rinv: "rstep s s' \<Longrightarrow> rinv s \<Longrightarrow> rinv s'"
proof (induction rule: rstep.induct)
  case (admitted s c r i pub wall n s1 now res s')
  then show ?case using pre_sync_find [OF admitted.prems admitted.hyps(2)] rinv_admit_locked by metis
next
  case (pushed s c n r now evict demoted s') then show ?case using rinv_push by blast
next
  case (counted f s n) then show ?case
    by (intro rinv_calm [OF counted.prems]) (auto simp: calm_def shape_def fun_eq_iff)
next
  case (tables s la lb lc ld l os sl) then show ?case
    by (intro rinv_calm [OF tables.prems]) (auto simp: calm_def shape_def fun_eq_iff)
next
  case (origin_used s c o1) then show ?case
    by (intro rinv_calm [OF origin_used.prems]) (auto simp: calm_def conn_core_def quiet_conn_def closing_def shape_def fun_eq_iff)
next
  case (closed s c k b) then show ?case by (intro rinv_calm [OF closed.prems]) (auto simp: shape_def fun_eq_iff)
next
  case (held_back s c now w) then show ?case by (intro rinv_calm [OF held_back.prems]) (auto simp: shape_def fun_eq_iff)
qed (simp_all add: rinv_send rinv_endChannel rinv_open_channel rinv_reshape rinv_left rinv_trim rinv_janitor)

lemma rinit_rinv: "rinit s \<Longrightarrow> rinv s"
  by (auto simp: rinit_def rinv_def members_ok_def net_members_ok_def told_ok_def net_told_def table_ok_def idle_ok_def idle_inv_def
      heap_part_def heap_ok_def owner_ok_def net_ok_def in_list_def size_ok_def)

lemma rreach_rinv: "rreach s \<Longrightarrow> rinv s"
  by (induction rule: rreach.induct) (auto intro: rinit_rinv rstep_rinv)

section \<open>Every network without members is counted\<close>

text \<open>
  \<open>aside n s s'\<close>: an operation under network \<open>n\<close>'s lock that leaves the table of networks as it was and,
  of every other network, the members and the place in the idle accounting.
\<close>

definition aside :: "nat \<Rightarrow> relay \<Rightarrow> relay \<Rightarrow> bool" where
  "aside n s s' \<longleftrightarrow> table s' = table s \<and> cfg s' = cfg s \<and>
     (\<forall>m. m \<noteq> n \<longrightarrow> n_members (nets s' m) = n_members (nets s m) \<and> n_idleOwner (nets s' m) = n_idleOwner (nets s m))"

lemma aside_trans: "aside n s s' \<Longrightarrow> aside n s' s'' \<Longrightarrow> aside n s s''"
  by (simp add: aside_def)

lemma aside_calm: "calm s s' \<Longrightarrow> aside n s s'"
  by (simp add: aside_def calm_net) (simp add: calm_def)

lemma aside_sync: "aside n s (syncIdleLocked n k s)"
  by (simp add: aside_def)

lemma aside_adopt: "adoptLocked n r now s = (e, d, s') \<Longrightarrow> aside n s s'"
  by (auto simp: adoptLocked_def Let_def aside_def)

lemma aside_settle: "settle_roster n r now s = (e, d, w, s') \<Longrightarrow> aside n s s'"
  by (erule settle_cases) (auto dest: aside_adopt simp: aside_def)

lemma aside_take_in: "aside n s (take_in c n i w now s)"
proof -
  obtain told s2 where R: "reshapeLocked n now (seat c n i w s) = (told, s2)" by fastforce
  have a: "aside n s (seat c n i w s)" by (simp add: aside_def seat_simps)
  have "aside n s s2" by (rule aside_trans [OF a aside_calm [OF reshapeLocked_effect(1) [OF R]]])
  then show ?thesis using take_in_eq [OF R] by (auto simp: aside_def)
qed

lemma aside_admit_locked: "admit_locked c n r i pub now s = (res, s') \<Longrightarrow> aside n s s'"
proof -
  assume A: "admit_locked c n r i pub now s = (res, s')"
  obtain e d w s1 where S: "settle_roster n r now s = (e, d, w, s1)" by (metis prod_cases4)
  let ?t = "if isMember i pub (n_roster (nets s1 n)) then take_in c n i w now s1 else s1"
  have "aside n s ?t" using aside_settle [OF S] aside_trans [OF aside_settle [OF S] aside_take_in] by simp
  moreover have "s' = syncIdleLocked n (c_ip (conns ?t c)) ?t" using A S by (auto simp: admit_locked_def Let_def)
  ultimately show ?thesis using aside_trans [OF _ aside_sync] by metis
qed

text \<open>With a budget, a network in the table that has no members is in the accounting. Ids in the table are distinct.\<close>

definition counted_ok :: "relay \<Rightarrow> bool" where
  "counted_ok s \<longleftrightarrow> distinct (map fst (table s)) \<and>
     (IdleRostersBytes (cfg s) > 0 \<longrightarrow> (\<forall>i n. map_of (table s) i = Some n \<longrightarrow> n_members (nets s n) = [] \<longrightarrow> n_idleOwner (nets s n) \<noteq> None))"

lemma counted_calm: "calm s s' \<Longrightarrow> counted_ok s \<Longrightarrow> counted_ok s'"
  by (simp add: counted_ok_def calm_net) (simp add: calm_def)

lemma sync_counts:
  "IdleRostersBytes (cfg s) > 0 \<Longrightarrow> n_members (nets s n) = [] \<Longrightarrow> n_idleOwner (nets (syncIdleLocked n k s) n) \<noteq> None"
  by (auto simp: syncIdleLocked_def addLocked_fields resizeLocked_def Let_def)

lemma counted_sync:
  assumes "counted_ok s" "aside n s t"
  shows "counted_ok (syncIdleLocked n k t)"
proof -
  let ?u = "syncIdleLocked n k t"
  have u: "aside n s ?u" by (rule aside_trans [OF assms(2) aside_sync])
  have "n_idleOwner (nets ?u m) \<noteq> None"
    if "map_of (table s) i = Some m" "n_members (nets ?u m) = []" "IdleRostersBytes (cfg s) > 0" for i m
    using that u assms sync_counts [of t n k] by (cases "m = n") (auto simp: counted_ok_def aside_def)
  then show ?thesis using assms(1) u by (auto simp: counted_ok_def aside_def)
qed

lemma counted_forget:
  assumes C: "counted_ok s" and T: "table_ok s" and J: "idle_inv s" and i: "n_id (nets s n) = i"
  shows "counted_ok (dropIdleLocked n (s\<lparr>table := AList.delete i (table s)\<rparr>))"
proof -
  let ?s = "s\<lparr>table := AList.delete i (table s)\<rparr>"
  have "n_idleOwner (nets (dropIdleLocked n ?s) m) \<noteq> None"
    if m: "map_of (table ?s) j = Some m" "n_members (nets s m) = []" "IdleRostersBytes (cfg s) > 0" for j m
  proof -
    have j: "map_of (table s) j = Some m" "j \<noteq> i" using m(1) by (auto simp: delete_conv split: if_splits)
    then have "m \<noteq> n" using T i by (auto simp: table_ok_def)
    moreover have "n_idleOwner (nets s m) \<noteq> None" using C j(1) m(2,3) unfolding counted_ok_def by blast
    ultimately show ?thesis by simp
  qed
  then show ?thesis using C by (auto simp: counted_ok_def intro: distinct_delete)
qed

lemma counted_find:
  assumes C: "counted_ok s" and F: "admit_find c r i pub wall s = (Found n, s1)" and A: "admit_locked c n r i pub now s1 = (res, s')"
  shows "counted_ok s'"
proof -
  obtain e d w s2 where S: "settle_roster n r now s1 = (e, d, w, s2)" by (metis prod_cases4)
  let ?t = "if isMember i pub (n_roster (nets s2 n)) then take_in c n i w now s2 else s2"
  have a: "aside n s1 ?t" using aside_settle [OF S] aside_trans [OF aside_settle [OF S] aside_take_in] by simp
  have s': "s' = syncIdleLocked n (c_ip (conns ?t c)) ?t" using A S by (auto simp: admit_locked_def Let_def)
  have keys: "distinct (map fst (table s1))"
    using F C by (auto simp: admit_find_def Let_def counted_ok_def distinct_update split: option.splits if_splits prod.splits)
  have old: "map_of (table s) j = Some m \<and> nets s1 m = nets s m \<and> cfg s1 = cfg s" if "map_of (table s1) j = Some m" "m \<noteq> n" for j m
    using F that by (auto simp: admit_find_def Let_def update_conv' split: option.splits if_splits prod.splits)
  have u: "aside n s1 s'" by (rule aside_admit_locked [OF A])
  have "n_idleOwner (nets s' m) \<noteq> None"
    if "map_of (table s1) j = Some m" "n_members (nets s' m) = []" "IdleRostersBytes (cfg s1) > 0" for j m
  proof (cases "m = n")
    case True
    have "IdleRostersBytes (cfg ?t) > 0" "n_members (nets ?t n) = []" using a that True s' by (auto simp: aside_def)
    then show ?thesis using sync_counts True s' by metis
  next
    case False
    then show ?thesis using old [OF that(1) False] that(2,3) u C by (auto simp: counted_ok_def aside_def)
  qed
  then show ?thesis using keys u by (auto simp: counted_ok_def aside_def)
qed

lemma counted_trim:
  assumes I: "rinv s" and C: "counted_ok s"
  shows "counted_ok (trim_act n s)"
proof (cases "n_idleOwner (nets s n) \<noteq> None \<and> n_members (nets s n) = [] \<and> map_of (table s) (n_id (nets s n)) = Some n")
  case False
  then show ?thesis unfolding trim_act_def using C by (simp only: if_False)
next
  case True
  then obtain k where k: "n_idleOwner (nets s n) = Some k" by auto
  have J: "idle_inv s" and T: "table_ok s" using I by (simp_all add: rinv_def idle_ok_def)
  show ?thesis
  proof (cases "r_Raw (n_roster (nets s n)) = None")
    case r: True
    then show ?thesis using counted_forget [OF C T J refl, of n] True by (simp add: trim_act_def)
  next
    case False
    note P = trim_compact [OF J k] 
    show ?thesis using True False C by (auto simp: counted_ok_def P)
  qed
qed

lemma counted_left: "counted_ok s \<Longrightarrow> counted_ok (unregister_net c now s)"
  by (auto simp: unregister_net_def Let_def aside_def intro!: counted_sync split: option.split)

lemma counted_step: "rstep s s' \<Longrightarrow> rinv s \<Longrightarrow> counted_ok s \<Longrightarrow> counted_ok s'"
proof (induction rule: rstep.induct)
  case (admitted s c r i pub wall n s1 now res s')
  then show ?case using counted_find by blast
next
  case (pushed s c n r now evict demoted s')
  then show ?case using counted_sync aside_adopt by (auto simp: push_locked_def split: prod.splits)
next
  case (counted f s n)
  then show ?case by (intro counted_calm [OF _ counted.prems(2)]) (auto simp: calm_def)
next
  case (tables s la lb lc ld l os sl)
  then show ?case by (simp add: counted_ok_def)
next
  case (origin_used s c o1)
  then show ?case by (simp add: counted_ok_def)
next
  case (channel_ended s ch tp tn)
  then show ?case using endChannel_effect counted_calm by blast
next
  case (channel_opened s c p code rnd)
  have "table (snd (open_channel c p code rnd s)) = table s" "nets (snd (open_channel c p code rnd s)) = nets s" "cfg (snd (open_channel c p code rnd s)) = cfg s"
    by (simp_all add: open_channel_def try_send_def endChannel_def Let_def)
  then show ?case using channel_opened.prems by (simp add: counted_ok_def)
next
  case (reshape s n now)
  then show ?case using reshapeLocked_effect(1) [of n now s] counted_calm by (metis prod.collapse)
next
  case (expired s n i now)
  then show ?case using counted_forget [of s n i] by (auto simp: janitor_visit_def Let_def rinv_def idle_ok_def)
next
  case (left s c now)
  then show ?case by (simp add: counted_left)
next
  case (trimmed s n)
  then show ?case by (simp add: counted_trim)
qed (simp_all add: counted_ok_def)

lemma rreach_counted: "rreach s \<Longrightarrow> counted_ok s"
proof (induction rule: rreach.induct)
  case (start s)
  then show ?case by (simp add: rinit_def counted_ok_def)
next
  case (next_step s s')
  then show ?case using counted_step rreach_rinv by blast
qed

section \<open>Versions never go back\<close>

definition version :: "relay \<Rightarrow> nat \<Rightarrow> int" where
  "version s n = r_Version (n_roster (nets s n))"

lemma version_calm: "calm s s' \<Longrightarrow> version s' n = version s n"
  by (simp add: version_def calm_net)

lemma version_sync [simp]: "version (syncIdleLocked m k s) n = version s n"
  by (simp add: version_def)

lemma version_adopt:
  "adoptLocked m r now s = (e, d, s') \<Longrightarrow> version s' n = (if n = m then r_Version r else version s n)"
  by (auto simp: adoptLocked_def Let_def version_def)

lemma version_settle: "settle_roster m r now s = (e, d, w, s') \<Longrightarrow> version s' n \<ge> version s n"
  by (erule settle_cases) (auto simp: version_adopt, auto simp: version_def)

lemma version_take_in: "version (take_in c m i w now s) n = version s n"
proof -
  obtain told s2 where R: "reshapeLocked m now (seat c m i w s) = (told, s2)" by fastforce
  have v: "version (seat c m i w s) n = version s n" by (simp add: version_def seat_simps)
  obtain s3 s4 where s3: "s3 = (if told then s2 else upd_conn c (send (Shaping (n_rateNow (nets s2 m)) (n_slowed (nets s2 m)))) s2)"
    and s4: "s4 = (if n_slowed (nets s3 m) then watchSlowed m s3 else s3)"
    and t: "take_in c m i w now s = (if c_ipPending (conns s4 c)
       then upd_conn c (\<lambda>k. k\<lparr>c_ipPending := False\<rparr>) (s4\<lparr>ip_conns := registered (ip_conns s4) (c_ip (conns s4 c))\<rparr>) else s4)"
    using take_in_eq [OF R] by blast
  have "version (take_in c m i w now s) n = version s2 n" unfolding t s4 s3 by (simp add: version_def)
  then show ?thesis using version_calm [OF reshapeLocked_effect(1) [OF R]] v by simp
qed

lemma version_admit: "admit_locked c m r i pub now s = (res, s') \<Longrightarrow> version s' n \<ge> version s n"
proof -
  assume A: "admit_locked c m r i pub now s = (res, s')"
  obtain e d w s1 where S: "settle_roster m r now s = (e, d, w, s1)" by (metis prod_cases4)
  have "version s' n = version s1 n" using A S version_take_in by (auto simp: admit_locked_def Let_def)
  then show ?thesis using version_settle [OF S, of n] by simp
qed

lemma version_find: "admit_find c r i pub wall s = (Found m, s') \<Longrightarrow> n < next_net s \<Longrightarrow> version s' n = version s n"
  by (auto simp: admit_find_def version_def Let_def split: option.splits if_splits prod.splits)

lemma version_drop [simp]: "version (dropIdleLocked m s) n = version s n" "version (s\<lparr>table := t\<rparr>) n = version s n"
  by (simp_all add: version_def)

lemma version_trim: "version (trim_act m s) n = version s n"
proof -
  let ?s = "upd_net m (\<lambda>x. x\<lparr>n_roster := compactRoster (n_roster x)\<rparr>) s"
  have "version (move_to_back m (resizeLocked m ?s)) n = version s n"
    using same_elseD(11) [OF same_else_resize [of m ?s], of n] by (simp add: version_def)
  then show ?thesis by (simp add: trim_act_def)
qed

lemma version_left: "version (unregister_net c now s) n = version s n"
  by (cases "c_network (conns s c)") (simp_all add: unregister_net_def Let_def version_def)

lemma version_step: "rstep s s' \<Longrightarrow> n < next_net s \<Longrightarrow> version s' n \<ge> version s n"
proof (induction rule: rstep.induct)
  case (admitted s c r i pub wall m s1 now res s')
  then show ?case using version_find version_admit by metis
next
  case (pushed s c m r now evict demoted s')
  obtain e d s1 where A: "adoptLocked m r now s = (e, d, s1)" by (metis prod_cases3)
  then have "version s' n = version s1 n" using pushed.hyps(4) by (auto simp: push_locked_def)
  then show ?case using version_adopt [OF A, of n] pushed.hyps(3) by (auto simp: version_def)
next
  case (counted f s m)
  have "version (upd_net m f s) n = version s n" using counted.hyps [of "nets s m"] by (auto simp: version_def net_core_def)
  then show ?case by simp
next
  case (reshape s m now)
  then show ?case using reshapeLocked_effect(1) [of m now s] version_calm by (metis order_refl prod.collapse)
next
  case (channel_ended s ch tp tn) then show ?case using endChannel_effect version_calm by (metis order_refl)
next
  case (channel_opened s c p code rnd)
  have "nets (snd (open_channel c p code rnd s)) = nets s"
    by (simp add: open_channel_def Let_def try_send_def endChannel_def)
  then show ?case by (simp add: version_def)
next
  case (expired s i m now) then show ?case by (simp add: janitor_visit_def Let_def)
qed (simp_all add: version_trim version_left, simp_all add: version_def)
section \<open>The handlers are runs of sections\<close>

lemma reach_step: "rstep s s' \<Longrightarrow> rreach s \<Longrightarrow> rreach s'"
  by (rule rreach.next_step)

lemmas reach_simple = reach_step [OF rstep.closed] reach_step [OF rstep.held_back] reach_step [OF rstep.channel_ended]
  reach_step [OF rstep.origin_used] reach_step [OF rstep.trimmed]

lemma reach_send: "\<not> is_shaping m \<Longrightarrow> rreach s \<Longrightarrow> rreach (upd_conn c (send m) s)"
  by (rule reach_step [OF rstep.sent])

lemma reach_count:
  "(\<And>x. net_core (f x) = net_core x \<and> n_rateNow (f x) = n_rateNow x \<and> n_slowed (f x) = n_slowed x) \<Longrightarrow> rreach s \<Longrightarrow> rreach (upd_net n f s)"
  by (rule reach_step [OF rstep.counted])

lemma reach_tables:
  "rreach s \<Longrightarrow> rreach (s\<lparr>ipRegister := la, ipNetworks := lb, ipPair := lc, ip_conns := ld, limits := l, origins := os, slowNets := sl\<rparr>)"
  by (rule reach_step [OF rstep.tables])

lemma reach_table1 [intro]:
  "rreach s \<Longrightarrow> rreach (s\<lparr>ipRegister := la\<rparr>)" "rreach s \<Longrightarrow> rreach (s\<lparr>ipNetworks := lb\<rparr>)" "rreach s \<Longrightarrow> rreach (s\<lparr>ipPair := lc\<rparr>)"
  "rreach s \<Longrightarrow> rreach (s\<lparr>ip_conns := ld\<rparr>)" "rreach s \<Longrightarrow> rreach (s\<lparr>slowNets := sl\<rparr>)"
  "rreach s \<Longrightarrow> rreach (s\<lparr>limits := l, origins := os\<rparr>)"
  using reach_tables [where s = s and la = la and lb = "ipNetworks s" and lc = "ipPair s" and ld = "ip_conns s" and l = "limits s" and os = "origins s" and sl = "slowNets s"]
    reach_tables [where s = s and la = "ipRegister s" and lb = lb and lc = "ipPair s" and ld = "ip_conns s" and l = "limits s" and os = "origins s" and sl = "slowNets s"]
    reach_tables [where s = s and la = "ipRegister s" and lb = "ipNetworks s" and lc = lc and ld = "ip_conns s" and l = "limits s" and os = "origins s" and sl = "slowNets s"]
    reach_tables [where s = s and la = "ipRegister s" and lb = "ipNetworks s" and lc = "ipPair s" and ld = ld and l = "limits s" and os = "origins s" and sl = "slowNets s"]
    reach_tables [where s = s and la = "ipRegister s" and lb = "ipNetworks s" and lc = "ipPair s" and ld = "ip_conns s" and l = "limits s" and os = "origins s" and sl = sl]
    reach_tables [where s = s and la = "ipRegister s" and lb = "ipNetworks s" and lc = "ipPair s" and ld = "ip_conns s" and l = l and os = os and sl = "slowNets s"]
  by simp_all

lemma reach_fold: "(\<And>x s. x \<in> set xs \<Longrightarrow> rreach s \<Longrightarrow> rreach (f x s)) \<Longrightarrow> rreach s \<Longrightarrow> rreach (fold f xs s)"
  by (induction xs arbitrary: s) auto

lemma reach_close_all: "rreach s \<Longrightarrow> rreach (upd_conns cs (close_conn k b) s)"
proof (induction cs)
  case Nil then show ?case by (simp add: upd_conns_def)
next
  case (Cons c cs)
  have "close_conn k b (close_conn k b x) = close_conn k b x" for x by (simp add: close_conn_def closing_def)
  then have "upd_conns (c # cs) (close_conn k b) s = upd_conn c (close_conn k b) (upd_conns cs (close_conn k b) s)"
    by (auto simp: upd_conns_def upd_conn_def fun_eq_iff)
  then show ?case using Cons reach_simple(1) by metis
qed

lemma reach_demote: "rreach s \<Longrightarrow> rreach (demote c s)"
  unfolding demote_def by (rule reach_fold) (auto intro: reach_simple(3))

lemma reach_after_adopt: "rreach s \<Longrightarrow> rreach (after_adopt evict demoted s)"
  by (auto simp: after_adopt_def Let_def intro: reach_close_all reach_demote split: option.split)

lemma reach_admit:
  assumes R: "rreach s" and c: "c_state (conns s c) = stateHello"
  shows "rreach (snd (admit c r i pub wall now s))"
proof -
  obtain fd s1 where F: "admit_find c r i pub wall s = (fd, s1)" by fastforce
  show ?thesis
  proof (cases fd)
    case (Found n)
    obtain res s2 where A: "admit_locked c n r i pub now s1 = (res, s2)" by fastforce
    have "rreach s2" using reach_step [OF rstep.admitted [OF c F [unfolded Found] A] R] .
    then have "rreach (snd (admit_after c res s2))"
      by (auto simp: admit_after_def Let_def intro!: reach_simple reach_after_adopt split: prod.split option.split)
    then show ?thesis using F A Found by (simp add: admit_def)
  next
    case NotMember
    then have "s1 = s" using F by (auto simp: admit_find_def Let_def split: option.splits if_splits prod.splits)
    then show ?thesis using F NotMember R by (simp add: admit_def reach_simple)
  next
    case TooMany
    then have "\<exists>l. s1 = s\<lparr>ipNetworks := l\<rparr>" using F by (auto simp: admit_find_def Let_def split: option.splits if_splits prod.splits)
    then have "rreach s1" using R by auto
    then show ?thesis using F TooMany by (simp add: admit_def) (intro reach_simple reach_send, auto simp: is_shaping_def)
  qed
qed

lemma reach_charge_locked:
  assumes R: "rreach s"
  shows "rreach (snd (chargeLocked n sz now s))"
proof -
  let ?s1 = "upd_net n (\<lambda>x. x\<lparr>n_hour := hw_add (n_hour x) (word_of_nat sz) now\<rparr>) s"
  have 1: "rreach ?s1" by (rule reach_count [OF _ R]) (simp add: net_core_def)
  have 2: "rreach (snd (reshapeLocked n now ?s1))" by (rule reach_step [OF rstep.reshape 1])
  show ?thesis unfolding chargeLocked_def Let_def
    by (simp split: prod.split) (intro allI impI reach_count [OF _ 2], simp add: net_core_def)
qed

lemma reach_charge: "rreach s \<Longrightarrow> rreach (charge c sz now s)"
  using reach_charge_locked [of s _ sz now] by (auto simp: charge_def intro!: reach_simple split: option.split prod.split) (metis snd_conv)

lemma reach_reply: "rreach s \<Longrightarrow> \<not> is_shaping m \<Longrightarrow> rreach (reply_msg sz c m now s)"
  by (simp add: reply_msg_def reach_send reach_charge)

lemma reach_error: "rreach s \<Longrightarrow> rreach (sendError sz c code msg i now s)"
  by (simp add: sendError_def reach_reply is_shaping_def)

lemma calm_charge_locked: "calm s (snd (chargeLocked n sz now s))"
proof -
  let ?s1 = "upd_net n (\<lambda>x. x\<lparr>n_hour := hw_add (n_hour x) (word_of_nat sz) now\<rparr>) s"
  have 1: "calm s ?s1" by (rule calm_upd_net) (simp add: net_core_def)
  have 2: "calm ?s1 (snd (reshapeLocked n now ?s1))" using reshapeLocked_effect(1) [of n now ?s1 "fst (reshapeLocked n now ?s1)"] by simp
  have 3: "calm t (upd_net n (\<lambda>x. x\<lparr>n_rateTAT := v\<rparr>) t)" for t v by (rule calm_upd_net) (simp add: net_core_def)
  show ?thesis unfolding chargeLocked_def Let_def
    by (simp split: prod.split) (use calm_trans [OF calm_trans [OF 1 2] 3] in blast)
qed

lemma calm_charge: "calm s (charge c sz now s)"
proof -
  obtain wait s1 where C: "chargeLocked (the (c_network (conns s c))) sz now s = (wait, s1)" by fastforce
  have "calm s s1" using calm_charge_locked C by (metis snd_conv)
  then show ?thesis using C calm_trans [OF _ calm_send(3)] by (auto simp: charge_def split: option.split)
qed

lemmas charge_conn [simp] = calm_conn [OF calm_charge]
lemma reach_register:
  "rreach s \<Longrightarrow> c_state (conns s c) = stateHello \<Longrightarrow> rreach (snd (register cr sz c om wall ms now s))"
proof -
  assume R: "rreach s" and c: "c_state (conns s c) = stateHello"
  obtain ok lm where L: "ipLimiter_allow (ipRegister s) (c_ip (conns s c)) wall = (ok, lm)" by fastforce
  let ?s = "s\<lparr>ipRegister := lm\<rparr>"
  have R1: "rreach ?s" using R by auto
  have f: "rreach (snd (fail_reg c k ?s))" for k by (simp add: fail_reg_def reach_simple R1)
  have e: "rreach (upd_conn c (close_conn k b) (sendError sz c code msg i now ?s))" for k b code msg i
    by (intro reach_simple reach_error R1)
  have a: "rreach (snd (admit c r i pub wall now ?s))" for r i pub using reach_admit [OF R1] c by simp
  show ?thesis unfolding register_def L
    by (simp add: Let_def f e a split: option.split prod.split)
qed

lemma reach_push:
  assumes R: "rreach s"
  shows "rreach (pushRoster cr sz c raw now s)"
proof (cases raw)
  case None
  then show ?thesis using R by (simp add: pushRoster_def reach_error)
next
  case (Some b)
  show ?thesis
  proof (cases "parse_roster cr b")
    case None
    then show ?thesis using R Some by (simp add: pushRoster_def reach_error)
  next
    case r: (Some r)
    show ?thesis
    proof (cases "c_network (conns s c)")
      case None
      then show ?thesis using R Some r by (simp add: pushRoster_def)
    next
      case n: (Some n)
      obtain e d s1 where P: "push_locked c n r now s = (e, d, s1)" by (metis prod_cases3)
      have "rreach s1" if "r_Network r = n_id (nets s n)" "r_Version r > r_Version (n_roster (nets s n))"
        by (rule reach_step [OF rstep.pushed [OF n that P] R])
      then show ?thesis using R Some r n P by (auto simp: pushRoster_def Let_def intro: reach_error reach_after_adopt)
    qed
  qed
qed

lemma reach_quota: "rreach s \<Longrightarrow> quotaLocked n now s = (u, b, s') \<Longrightarrow> rreach s'"
  by (auto simp: quotaLocked_def Let_def net_core_def intro!: reach_count split: if_splits prod.splits)

lemma reach_usage: "rreach s \<Longrightarrow> rreach (usageRequest sz c oid now s)"
proof (cases oid)
  case None
  then show "rreach s \<Longrightarrow> ?thesis" by (simp add: usageRequest_def reach_error)
next
  case (Some i)
  assume R: "rreach s"
  show ?thesis
  proof (cases "c_network (conns s c)")
    case None
    then show ?thesis using R Some by (simp add: usageRequest_def)
  next
    case n: (Some n)
    obtain ok tat where A: "allow (n_usageTAT (nets s n)) now usageEvery (usageBurst * usageEvery) = (ok, tat)" by fastforce
    let ?s1 = "upd_net n (\<lambda>x. x\<lparr>n_usageTAT := tat\<rparr>) s"
    obtain u b s2 where Q: "quotaLocked n now ?s1 = (u, b, s2)" by (metis prod_cases3)
    obtain t w where H: "hw_total (n_hour (nets s2 n)) now = (t, w)" by fastforce
    have 1: "rreach ?s1" by (rule reach_count [OF _ R]) (simp add: net_core_def)
    have 2: "rreach s2" by (rule reach_quota [OF 1 Q])
    have 3: "rreach (upd_net n (\<lambda>x. x\<lparr>n_hour := w\<rparr>) s2)" by (rule reach_count [OF _ 2]) (simp add: net_core_def)
    show ?thesis using Some n A Q H R 1 3
      by (simp add: usageRequest_def Let_def reach_error) (simp add: reach_reply is_shaping_def)
  qed
qed

lemma reach_route: "rreach s \<Longrightarrow> rreach (route sz c f wire now s)"
proof (cases "c_network (conns s c)")
  case None
  then show "rreach s \<Longrightarrow> ?thesis" by (simp add: route_def)
next
  case (Some n)
  assume R: "rreach s"
  obtain wait s1 where C: "chargeLocked n wire now s = (wait, s1)" by fastforce
  have 1: "rreach s1" using reach_charge_locked [OF R, of n wire now] C by simp
  have 2: "rreach (upd_conn c (holdFor now wait) s1)" by (intro reach_simple 1)
  show ?thesis
    using Some C 2 by (simp add: route_def Let_def try_send_def reach_reply reach_send is_shaping_def split: option.split)
qed

lemma reach_binary:
  assumes R: "rreach s"
  shows "rreach (snd (handleBinary sz c f wire now s))"
proof -
  have bad: "rreach (upd_conn c (close_conn closeBadRequest False) s)" by (intro reach_simple R)
  have ch: "rreach (charge c wire now s)" by (rule reach_charge [OF R])
  show ?thesis
    using R bad ch
    by (simp add: handleBinary_def Let_def try_send_def reach_send reach_reply reach_route is_shaping_def split: connState.split option.split)
qed

lemma reach_pair:
  "rreach s \<Longrightarrow> c_state (conns s c) = stateHello \<Longrightarrow> rreach (snd (pair sz c om rnd wall now s))"
proof -
  assume R: "rreach s" and c: "c_state (conns s c) = stateHello"
  obtain ok lm where L: "ipLimiter_allow (ipPair s) (c_ip (conns s c)) wall = (ok, lm)" by fastforce
  let ?s = "s\<lparr>ipPair := lm\<rparr>"
  have R1: "rreach ?s" using R by auto
  have f: "rreach (snd (fail_reg c k s))" for k by (simp add: fail_reg_def reach_simple R)
  have e: "rreach (upd_conn c (close_conn k b) (sendError sz c code msg i now ?s))" for k b code msg i
    by (intro reach_simple reach_error R1)
  have o: "rreach (snd (open_channel c p code rnd ?s))" for p code
    by (rule reach_step [OF rstep.channel_opened R1]) (simp add: c)
  show ?thesis unfolding pair_def L by (simp add: Let_def f e o split: option.split prod.split)
qed

lemma reach_text:
  assumes R: "rreach s"
  shows "rreach (snd (handleText cr sz c m t i wire rnd wall ms now s))"
proof -
  let ?s = "charge c wire now s"
  have R1: "rreach ?s" by (rule reach_charge [OF R])
  have bad: "rreach (upd_conn c (close_conn closeBadRequest False) ?s)" by (intro reach_simple R1)
  have ec: "rreach (endChannel ch tp tn ?s)" for ch tp tn by (intro reach_simple R1)
  show ?thesis
  proof (cases "m = Malformed")
    case True
    then show ?thesis using bad by (simp add: handleText_def Let_def)
  next
    case False
    note D = handleText_def Let_def if_not_P [OF False]
    show ?thesis
    proof (cases "c_state (conns s c)")
      case stateHello
      then show ?thesis using False bad reach_register [OF R1] reach_pair [OF R1]
        by (cases m) (simp_all add: handleText_def Let_def)
    next
      case statePairing
      then show ?thesis using False bad ec by (cases m) (simp_all add: handleText_def Let_def split: option.split)
    next
      case stateRegistered
      then show ?thesis using False R1 ec reach_push [OF R1] reach_usage [OF R1] reach_error [OF R1]
        by (cases m) (simp_all add: handleText_def Let_def split: option.split)
    qed
  qed
qed

lemma reach_trim: "rreach s \<Longrightarrow> trimIdle s = Some s' \<Longrightarrow> rreach s'"
proof -
  assume R: "rreach s" and T: "trimIdle s = Some s'"
  have "trim_loop s = Some s' \<Longrightarrow> rreach s \<longrightarrow> rreach s'"
    by (rule trim_loop.raw_induct [where P = "\<lambda>s r. rreach s \<longrightarrow> rreach r"]) (auto intro: reach_simple split: option.splits)
  then show ?thesis using R T by (auto simp: trimIdle_def split: if_splits)
qed

lemma reach_unregister:
  assumes R: "rreach s" and c: "closing (conns s c)" and U: "unregister c now s = Some s'"
  shows "rreach s'"
proof -
  have rest: "rreach (unregister_rest c t)" if "rreach t" for t
    using that unfolding unregister_rest_def Let_def
    by (intro reach_fold) (auto intro!: reach_simple split: option.split)
  have "rreach (unregister_net c now s)" by (rule reach_step [OF rstep.left [OF c] R])
  then show ?thesis using U R rest reach_trim by (auto simp: unregister_def split: option.splits)
qed

lemma reach_reload: "rreach s \<Longrightarrow> rreach (ReloadLimits dflt f now s)"
proof -
  assume R: "rreach s"
  have "rreach (reshapeAll now t)" if "rreach t" for t
    unfolding reshapeAll_def using that by (intro reach_fold) (auto intro: reach_step [OF rstep.reshape])
  then show ?thesis using R by (auto simp: ReloadLimits_def Let_def)
qed

lemma janitor_ids: "n_id (nets (janitor_visit now e s) m) = n_id (nets s m)"
  by (simp add: janitor_visit_def Let_def)

lemma reach_janitor_fold:
  "rreach s \<Longrightarrow> (\<And>i n. (i, n) \<in> set xs \<Longrightarrow> n_id (nets s n) = i) \<Longrightarrow> rreach (fold (janitor_visit now) xs s)"
proof (induction xs arbitrary: s)
  case (Cons e xs)
  obtain i n where e: "e = (i, n)" by fastforce
  have "rreach (janitor_visit now e s)" unfolding e by (rule reach_step [OF rstep.expired Cons.prems(1)]) (simp add: Cons.prems(2) e)
  then show ?case using Cons.IH Cons.prems(2) by (simp add: janitor_ids)
qed simp

lemma reach_janitor: "rreach s \<Longrightarrow> rreach (janitor_sweep wall (janitor_nets now s))"
proof -
  assume R: "rreach s"
  have "n_id (nets s n) = i" if "(i, n) \<in> set (table s)" for i n
  proof -
    have "map_of (table s) i = Some n" using that rreach_counted [OF R] by (simp add: counted_ok_def)
    then show ?thesis using rreach_rinv [OF R] by (simp add: rinv_def table_ok_def)
  qed
  then have "rreach (janitor_nets now s)" unfolding janitor_nets_def using R by (intro reach_janitor_fold)
  then show ?thesis unfolding janitor_sweep_def by (intro reach_table1)
qed

lemma reach_shaping: "rreach s \<Longrightarrow> rreach (shaping_visit now n s)"
  by (auto simp: shaping_visit_def Let_def intro: reach_step [OF rstep.reshape])

end
