(* ===== verification/Relay_Properties.thy ===== *)
theory Relay_Properties
  imports Relay_Safety
begin

text \<open>
  What the relay guarantees to its networks, from the invariants of theory \<open>Relay_Safety\<close>: membership,
  isolation of networks, rosters that never go back, shaping the members know, the hourly quota, idle
  rosters within their budget; and two runs in which the idle accounting does what the code does not
  mean it to.
\<close>

section \<open>What handlers send and change\<close>

text \<open>Messages are only added, and no routed frame among them.\<close>

definition adds_quiet :: "relay \<Rightarrow> relay \<Rightarrow> bool" where
  "adds_quiet s s' \<longleftrightarrow> (\<forall>d. \<exists>a. c_out (conns s' d) = c_out (conns s d) @ a \<and> (\<forall>g. Routed g \<notin> set a))"

lemma adds_quiet_refl [simp]: "conns s' = conns s \<Longrightarrow> adds_quiet s s'"
  by (simp add: adds_quiet_def)

lemma adds_quiet_trans: "adds_quiet s s' \<Longrightarrow> adds_quiet s' s'' \<Longrightarrow> adds_quiet s s''"
  unfolding adds_quiet_def by (metis append.assoc in_set_conv_decomp set_append UnE)

lemma adds_quiet_send: "(\<And>g. m \<noteq> Routed g) \<Longrightarrow> adds_quiet s (upd_conn c (send m) s)"
  by (auto simp: adds_quiet_def send_def)

lemma adds_quiet_hold: "adds_quiet s (upd_conn c (holdFor now w) s)"
  by (auto simp: adds_quiet_def)

lemma adds_quiet_reshape: "reshapeLocked n now s = (told, s') \<Longrightarrow> adds_quiet s s'"
  using reshapeLocked_effect(2,4) [of n now s told s'] by (cases told) (auto simp: adds_quiet_def send_def)

lemma adds_quiet_charge_locked: "adds_quiet s (snd (chargeLocked n sz now s))"
proof -
  let ?s1 = "upd_net n (\<lambda>x. x\<lparr>n_hour := hw_add (n_hour x) (word_of_nat sz) now\<rparr>) s"
  obtain told s2 where R: "reshapeLocked n now ?s1 = (told, s2)" by fastforce
  have "adds_quiet s s2" using adds_quiet_trans [OF adds_quiet_refl adds_quiet_reshape [OF R]] by simp
  moreover have "conns (snd (chargeLocked n sz now s)) = conns s2"
    using R by (simp add: chargeLocked_def Let_def split: prod.split)
  ultimately show ?thesis by (simp add: adds_quiet_def)
qed

lemma adds_quiet_reply: "(\<And>g. m \<noteq> Routed g) \<Longrightarrow> adds_quiet s (reply_msg sz c m now s)"
proof -
  assume m: "\<And>g. m \<noteq> Routed g"
  have "adds_quiet s (charge c w now s)" for w
  proof (cases "c_network (conns s c)")
    case (Some n)
    obtain wait s1 where C: "chargeLocked n w now s = (wait, s1)" by fastforce
    have "adds_quiet s s1" using adds_quiet_charge_locked [of s n w now] C by simp
    then show ?thesis using Some C adds_quiet_trans [OF _ adds_quiet_hold] by (simp add: charge_def)
  qed (simp add: charge_def)
  then show ?thesis unfolding reply_msg_def using adds_quiet_trans adds_quiet_send [OF m] by blast
qed

section \<open>The shaping in force\<close>

text \<open>
  What the limits and the charges of the last hour say of a network's shaping at a time: the quota
  is spent once the charges, in the floating point the code divides in, reach it.
\<close>

definition in_force :: "relay \<Rightarrow> nat \<Rightarrow> int \<Rightarrow> int \<times> bool" where
  "in_force s n now =
     (let lim = limitsOf s n; used = f64 (f64 (of_nat (unat (fst (hw_total (n_hour (nets s n)) now)))) / f64 (of_int (QuotaBytesHour lim)))
      in if 0 < QuotaBytesHour lim \<and> 1 \<le> used \<and> 0 < TrickleBps lim then (TrickleBps lim, True) else (RateBps lim, False))"

definition told_in_force :: "relay \<Rightarrow> nat \<Rightarrow> int \<Rightarrow> bool" where
  "told_in_force s n now \<longleftrightarrow> (\<forall>(i, c) \<in> set (n_members (nets s n)). closing (conns s c) \<or>
     (shapings (c_out (conns s c)) \<noteq> [] \<and> last (shapings (c_out (conns s c))) = in_force s n now))"

text \<open>The rate senders are held to: that in force, but for a second the rate before the trickle.\<close>

definition held_to :: "relay \<Rightarrow> nat \<Rightarrow> int \<Rightarrow> int" where
  "held_to s n now =
     (if snd (in_force s n now) \<and> now - n_slowedAt (nets s n) < Second then RateBps (limitsOf s n) else fst (in_force s n now))"

lemma told_in_forceI: "rreach s \<Longrightarrow> shape s n = in_force s n now \<Longrightarrow> told_in_force s n now"
proof -
  assume R: "rreach s" and f: "shape s n = in_force s n now"
  have "net_told s n" using rreach_rinv [OF R] by (simp add: rinv_def told_ok_def)
  then show ?thesis unfolding net_told_def told_in_force_def f .
qed

lemma hw_total_again: "fst (hw_total (snd (hw_total w now)) now) = fst (hw_total w now)"
  by (simp add: hw_total_def Let_def advance_def)

lemma limitsOf_cong:
  "limits s' = limits s \<Longrightarrow> origins s' = origins s \<Longrightarrow> n_origin (nets s' n) = n_origin (nets s n) \<Longrightarrow> limitsOf s' n = limitsOf s n"
  by (simp only: limitsOf_def)

lemma in_force_cong:
  assumes "limits s' = limits s" "origins s' = origins s" "n_origin (nets s' n) = n_origin (nets s n)"
    "fst (hw_total (n_hour (nets s' n)) now) = fst (hw_total (n_hour (nets s n)) now)"
  shows "in_force s' n now = in_force s n now"
proof -
  have "limitsOf s' n = limitsOf s n" by (rule limitsOf_cong [OF assms(1-3)])
  then show ?thesis using assms(4) by (simp add: in_force_def)
qed

lemma shaping_in_force:
  assumes "shapingLocked n now s = (r, b, s1)"
  shows "(r, b) = in_force s n now" "in_force s1 n now = in_force s n now" "m \<noteq> n \<Longrightarrow> in_force s1 m t = in_force s m t"
    "limits s1 = limits s" "origins s1 = origins s"
proof -
  have s1: "s1 = (if QuotaBytesHour (limitsOf s n) \<le> 0 then s else upd_net n (\<lambda>x. x\<lparr>n_hour := snd (hw_total (n_hour (nets s n)) now)\<rparr>) s)"
    using assms by (auto simp: shapingLocked_def quotaLocked_def Let_def split: if_splits prod.splits)
  show "(r, b) = in_force s n now"
    using assms by (auto simp: shapingLocked_def quotaLocked_def in_force_def Let_def split: if_splits prod.splits)
  show "limits s1 = limits s" "origins s1 = origins s" by (simp_all add: s1)
  show "in_force s1 n now = in_force s n now" "m \<noteq> n \<Longrightarrow> in_force s1 m t = in_force s m t"
    by (auto intro!: in_force_cong simp: s1 hw_total_again)
qed

lemma reshape_in_force:
  assumes "reshapeLocked n now s = (told, s')"
  shows "shape s' n = in_force s' n now" "in_force s' n now = in_force s n now" "m \<noteq> n \<Longrightarrow> in_force s' m t = in_force s m t"
proof -
  obtain r b s1 where S: "shapingLocked n now s = (r, b, s1)" by (metis prod_cases3)
  note F = shaping_in_force [OF S] and E = assms [unfolded reshapeLocked_eq [OF S]]
  have R: "in_force (reshaped n now r b s1) m t = in_force s1 m t" "in_force (watchSlowed n x) m t = in_force x m t" for m t x
    by (auto intro!: in_force_cong simp: reshaped_def)
  show 1: "in_force s' n now = in_force s n now" "m \<noteq> n \<Longrightarrow> in_force s' m t = in_force s m t"
    using E F(2,3) R by (auto split: if_splits)
  show "shape s' n = in_force s' n now" using E F(1) 1(1) by (auto split: if_splits)
qed

lemma charge_in_force:
  shows "shape (snd (chargeLocked n sz now s)) n = in_force (snd (chargeLocked n sz now s)) n now"
    and "fst (chargeLocked n sz now s) = snd (spend (n_rateTAT (nets s n)) now (int sz) (held_to (snd (chargeLocked n sz now s)) n now))"
proof -
  let ?s1 = "upd_net n (\<lambda>x. x\<lparr>n_hour := hw_add (n_hour x) (word_of_nat sz) now\<rparr>) s"
  obtain told s2 where R: "reshapeLocked n now ?s1 = (told, s2)" by fastforce
  obtain tat wait where S: "spend (n_rateTAT (nets s2 n)) now (int sz) (shapeRateLocked s2 n now) = (tat, wait)" by fastforce
  have c: "chargeLocked n sz now s = (wait, upd_net n (\<lambda>x. x\<lparr>n_rateTAT := tat\<rparr>) s2)" using R S by (simp add: chargeLocked_def Let_def)
  let ?s' = "upd_net n (\<lambda>x. x\<lparr>n_rateTAT := tat\<rparr>) s2"
  have f: "in_force ?s' n now = in_force s2 n now" by (rule in_force_cong) simp_all
  have sh: "shape s2 n = in_force s2 n now" by (rule reshape_in_force(1) [OF R])
  show "shape (snd (chargeLocked n sz now s)) n = in_force (snd (chargeLocked n sz now s)) n now"
    using sh f by (simp add: c shape_def)
  have "n_rateTAT (nets s2 n) = n_rateTAT (nets s n)"
    using R by (auto simp: reshapeLocked_def shapingLocked_def quotaLocked_def watchSlowed_def Let_def split: if_splits prod.splits)
  moreover have "shapeRateLocked s2 n now = held_to ?s' n now"
    unfolding held_to_def f sh [symmetric] using limitsOf_cong [of ?s' s2 n] by (simp add: shapeRateLocked_def shape_def shapingGrace_def)
  ultimately show "fst (chargeLocked n sz now s) = snd (spend (n_rateTAT (nets s n)) now (int sz) (held_to (snd (chargeLocked n sz now s)) n now))"
    using S by (simp add: c)
qed

lemma visit_in_force: "n_members (nets s n) \<noteq> [] \<Longrightarrow> shape (shaping_visit now n s) n = in_force (shaping_visit now n s) n now"
proof -
  assume m: "n_members (nets s n) \<noteq> []"
  obtain told s' where R: "reshapeLocked n now s = (told, s')" by fastforce
  have "in_force (s'\<lparr>slowNets := x\<rparr>) n now = in_force s' n now" for x by (rule in_force_cong) simp_all
  moreover have "shape (s'\<lparr>slowNets := x\<rparr>) n = shape s' n" for x by (simp add: shape_def)
  ultimately show ?thesis using m R reshape_in_force(1) [OF R] by (simp add: shaping_visit_def Let_def)
qed

lemma reshape_fold_in_force:
  "(shape s n = in_force s n now \<or> n \<in> snd ` set es) \<Longrightarrow>
     shape (fold (\<lambda>(i, n) s. snd (reshapeLocked n now s)) es s) n = in_force (fold (\<lambda>(i, n) s. snd (reshapeLocked n now s)) es s) n now"
proof (induction es arbitrary: s)
  case (Cons e es)
  obtain i m where e: "e = (i, m)" by fastforce
  obtain told s' where R: "reshapeLocked m now s = (told, s')" by fastforce
  have "shape s' n = in_force s' n now \<or> n \<in> snd ` set es"
    using Cons.prems e reshape_in_force(1) [OF R] reshape_in_force(3) [OF R, of n now] reshapeLocked_effect(3) [OF R, of n] by (cases "n = m") auto
  then show ?case using Cons.IH R by (simp add: e)
qed simp

lemma reload_in_force:
  "(i, n) \<in> set (table s) \<Longrightarrow> shape (ReloadLimits dflt f now s) n = in_force (ReloadLimits dflt f now s) n now"
  unfolding ReloadLimits_def reshapeAll_def Let_def by (rule reshape_fold_in_force) force

lemma admit_in_force:
  assumes "admit_locked c n r i pub now s = ((e, d, True, q), s')"
  shows "shape s' n = in_force s' n now"
proof -
  obtain e d w s1 where S: "settle_roster n r now s = (e, d, w, s1)" by (metis prod_cases4)
  let ?t = "take_in c n i w now s1"
  have s': "s' = syncIdleLocked n (c_ip (conns ?t c)) ?t"
    using assms S by (auto simp: admit_locked_def Let_def split: if_splits)
  obtain told s2 where R: "reshapeLocked n now (seat c n i w s1) = (told, s2)" by fastforce
  have t: "limits ?t = limits s2 \<and> origins ?t = origins s2 \<and> nets ?t = nets s2" using take_in_eq [OF R] by auto
  have f: "in_force s' n now = in_force s2 n now" by (rule in_force_cong) (simp_all add: s' t)
  show ?thesis using reshape_in_force(1) [OF R] unfolding f by (simp add: s' shape_def t)
qed

section \<open>A run, for the witnesses\<close>

text \<open>
  One node, one network with a full roster of one member, two connections of that node from one
  address, and a budget of one byte for idle rosters.
\<close>

definition demo_node :: ID where "demo_node = replicate 16 7"
definition demo_net :: ID where "demo_net = replicate 16 9"
definition demo_key :: bytes where "demo_key = replicate 32 5"

definition demo_roster :: Roster where
  "demo_roster = \<lparr>r_Network = demo_net, r_Version = 1, r_IssuedAt = 0, r_NetworkKey = [], r_Primary = demo_node,
     r_Members = [\<lparr>m_ID = demo_node, m_Ed25519 = demo_key\<rparr>], r_Raw = Some [123, 125]\<rparr>"

definition demo_conn :: rconn where
  "demo_conn = \<lparr>c_ip = ''10.0.0.1'', c_ipPending = False, c_origin = [], c_originRef = None, c_challenge = [],
     c_state = stateHello, c_network = None, c_id = [], c_channel = None, c_pairs = [], c_holdUntil = 0, c_out = [], c_close = None\<rparr>"

definition demo_limits :: netLimits where
  "demo_limits = \<lparr>RateBps = 1000, QuotaBytesHour = 0, TrickleBps = 0\<rparr>"

definition demo_relay :: relay where
  "demo_relay = \<lparr>cfg = \<lparr>cfg_env = demo_limits, IdleRostersBytes = 1, NetworkTTL = 0\<rparr>, conns = (\<lambda>_. demo_conn),
     nets = (\<lambda>_. new_network demo_roster None), next_net = 0, table = [], owners = (\<lambda>_. None), byMost = [], idle_bytes = 0,
     chans = (\<lambda>_. \<lparr>ch_id = [], ch_newcomer = 0, ch_primary = 0\<rparr>), next_chan = 0, channels = [], ip_conns = None,
     ipNetworks = None, ipRegister = None, ipPair = None, limits = demo_limits, origins = [], slowNets = {}\<rparr>"

definition demo_one :: relay where
  "demo_one = snd (admit 2 demo_roster demo_node demo_key 0 0 demo_relay)"

lemma demo_init: "rinit demo_relay"
  by (simp add: rinit_def demo_relay_def new_network_def demo_conn_def)

lemmas demo_evals = admit_def admit_find_def admit_locked_def admit_after_def after_adopt_def settle_roster_def take_in_def Let_def
  demo_relay_def demo_roster_def demo_conn_def demo_limits_def new_network_def isMember_def Roster_Member_def
  ipLimiter_allow_def reshapeLocked_def shapingLocked_def quotaLocked_def limitsOf_def syncIdleLocked_def closing_def send_def

lemma demo_one_eq:
  "demo_one = demo_relay\<lparr>nets := (\<lambda>_. new_network demo_roster None)(0 := (new_network demo_roster None)\<lparr>n_members := [(demo_node, 2)], n_rateNow := 1000\<rparr>),
     next_net := 1, table := [(demo_net, 0)], conns := (\<lambda>_. demo_conn)(2 := demo_conn\<lparr>c_network := Some 0, c_id := demo_node,
       c_state := stateRegistered, c_out := [Registered demo_node 1 None, Shaping 1000 False]\<rparr>)\<rparr>"
  by (simp add: demo_one_def demo_evals upd_net_def upd_conn_def upd_conns_def fun_eq_iff)

lemma demo_one_eval:
  "n_members (nets demo_one 0) = [(demo_node, 2)]" "c_out (conns demo_one 2) = [Registered demo_node 1 None, Shaping 1000 False]"
  "n_roster (nets demo_one 0) = demo_roster" "table demo_one = [(demo_net, 0)]" "c_close (conns demo_one 2) = None"
  by (simp_all add: demo_one_eq demo_relay_def demo_conn_def new_network_def)

lemma singleton_heap:
  "heap_Push w [] x = [x]" "heap_Fix w [x] 0 = [x]" "heap_Remove w [x] 0 = []" "index_of [x] x = 0"
proof -
  have u: "up w [x] 0 = [x]" by (subst up.simps) simp
  have d: "down w [x] 0 1 = (False, [x])" by (subst down.simps) simp
  show "heap_Push w [] x = [x]" "heap_Fix w [x] 0 = [x]" "heap_Remove w [x] 0 = []" "index_of [x] x = 0"
    using u d by (simp_all add: heap_Push_def heap_Fix_def heap_Remove_def index_of_def)
qed

definition demo_two :: relay where
  "demo_two = snd (admit 3 demo_roster demo_node demo_key 0 0 demo_one)"

definition demo_idle :: relay where
  "demo_idle = unregister_net 3 0 demo_two"

lemma demo_two_eq:
  "demo_two = demo_one\<lparr>nets := (nets demo_one)(0 := (nets demo_one 0)\<lparr>n_members := [(demo_node, 3)]\<rparr>),
     conns := (conns demo_one)(2 := (conns demo_one 2)\<lparr>c_close := Some (4005, False)\<rparr>,
       3 := demo_conn\<lparr>c_network := Some 0, c_id := demo_node, c_state := stateRegistered,
         c_out := [Registered demo_node 1 None, Shaping 1000 False]\<rparr>)\<rparr>"
  by (simp add: demo_two_def demo_one_eq demo_evals sameMembers_def close_conn_def closeReplaced_def upd_net_def upd_conn_def
      upd_conns_def fun_eq_iff)

lemma demo_two_eval:
  "n_members (nets demo_two 0) = [(demo_node, 3)]" "c_close (conns demo_two 2) = Some (4005, False)" "c_close (conns demo_two 3) = None"
  "n_roster (nets demo_two 0) = demo_roster" "table demo_two = [(demo_net, 0)]" "owners demo_two = (\<lambda>_. None)" "byMost demo_two = []"
  "idle_bytes demo_two = 0" "n_idleOwner (nets demo_two 0) = None" "n_id (nets demo_two 0) = demo_net"
  "cfg demo_two = cfg demo_relay" "c_network (conns demo_two 2) = Some 0" "c_network (conns demo_two 3) = Some 0"
  "c_id (conns demo_two 3) = demo_node" "c_id (conns demo_two 2) = demo_node" "c_ip (conns demo_two 2) = ''10.0.0.1''" "c_ip (conns demo_two 3) = ''10.0.0.1''"
  by (simp_all add: demo_two_eq demo_one_eq demo_relay_def demo_conn_def new_network_def) (simp_all add: demo_roster_def)

lemma demo_cost: "rosterCost demo_roster = 154" "rosterCost (compactRoster demo_roster) = 120"
  by (simp_all add: rosterCost_def demo_roster_def compactRoster_def)

lemma first_owner: "owners s = (\<lambda>_. None) \<Longrightarrow> byMost s = [] \<Longrightarrow> byMost (addLocked n k s) = [k]"
  by (simp add: addLocked_def Let_def get_owner_def fix_owner_def singleton_heap)

lemma last_member_leaves:
  assumes "c_network (conns s c) = Some n" "n_members (nets s n) = [(c_id (conns s c), c)]" "IdleRostersBytes (cfg s) > 0"
    "n_idleOwner (nets s n) = None"
  shows "unregister_net c now s = addLocked n (c_ip (conns s c)) (upd_net n (\<lambda>x. x\<lparr>n_members := [], n_emptySince := now\<rparr>) s)"
proof -
  have "upd_net n (\<lambda>x. let left = AList.delete (c_id (conns s c)) (n_members x)
          in x\<lparr>n_members := left, n_emptySince := (if left = [] then now else n_emptySince x)\<rparr>) s =
        upd_net n (\<lambda>x. x\<lparr>n_members := [], n_emptySince := now\<rparr>) s"
    using assms(2) by (simp add: upd_net_def)
  then show ?thesis using assms by (simp add: unregister_net_def syncIdleLocked_def)
qed

lemma demo_idle_eq: "demo_idle = addLocked 0 ''10.0.0.1'' (upd_net 0 (\<lambda>x. x\<lparr>n_members := [], n_emptySince := 0\<rparr>) demo_two)"
  using last_member_leaves [of demo_two 3 0 0] by (simp add: demo_two_eval demo_idle_def) (simp add: demo_relay_def)

lemma demo_idle_eval:
  "n_members (nets demo_idle 0) = []" "n_roster (nets demo_idle 0) = demo_roster" "n_id (nets demo_idle 0) = demo_net"
  "n_idleOwner (nets demo_idle 0) = Some ''10.0.0.1''" "n_idleSize (nets demo_idle 0) = 154" "table demo_idle = [(demo_net, 0)]"
  "owners demo_idle = [''10.0.0.1'' \<mapsto> \<lparr>o_order = [0], o_bytes = 154\<rparr>]" "byMost demo_idle = [''10.0.0.1'']"
  "idle_bytes demo_idle = 154" "cfg demo_idle = cfg demo_relay" "conns demo_idle = conns demo_two"
  unfolding demo_idle_eq
  by (simp_all add: addLocked_fields the_owner_def demo_two_eval demo_cost first_owner same_elseD [OF same_else_add])
text \<open>The loop compacts the roster, then forgets the network, and returns.\<close>

definition demo_cut :: relay where "demo_cut = trim_act 0 demo_idle"
definition demo_gone :: relay where "demo_gone = trim_act 0 demo_cut"

lemma demo_cut_eq: "demo_cut = move_to_back 0 (resizeLocked 0 (upd_net 0 (\<lambda>x. x\<lparr>n_roster := compactRoster (n_roster x)\<rparr>) demo_idle))"
  by (simp add: demo_cut_def trim_act_def demo_idle_eval) (simp add: demo_roster_def)

lemma demo_cut_eval:
  "n_members (nets demo_cut 0) = []" "n_roster (nets demo_cut 0) = compactRoster demo_roster" "n_id (nets demo_cut 0) = demo_net"
  "n_idleOwner (nets demo_cut 0) = Some ''10.0.0.1''" "n_idleSize (nets demo_cut 0) = 120" "table demo_cut = [(demo_net, 0)]"
  "owners demo_cut = [''10.0.0.1'' \<mapsto> \<lparr>o_order = [0], o_bytes = 120\<rparr>]" "byMost demo_cut = [''10.0.0.1'']"
  "idle_bytes demo_cut = 120" "cfg demo_cut = cfg demo_relay" "conns demo_cut = conns demo_two"
  unfolding demo_cut_eq
  by (simp_all add: move_to_back_def resizeLocked_def Let_def fix_owner_def demo_idle_eval demo_cost singleton_heap)

lemma demo_gone_eval:
  "n_members (nets demo_gone 0) = []" "n_roster (nets demo_gone 0) = compactRoster demo_roster" "n_id (nets demo_gone 0) = demo_net"
  "n_idleOwner (nets demo_gone 0) = None" "table demo_gone = []" "owners demo_gone = (\<lambda>_. None)" "byMost demo_gone = []"
  "idle_bytes demo_gone = 0" "cfg demo_gone = cfg demo_relay" "conns demo_gone = conns demo_two"
proof -
  have eq: "demo_gone = dropIdleLocked 0 (demo_cut\<lparr>table := []\<rparr>)"
    by (simp add: demo_gone_def trim_act_def demo_cut_eval)
  show "n_members (nets demo_gone 0) = []" "n_roster (nets demo_gone 0) = compactRoster demo_roster" "n_id (nets demo_gone 0) = demo_net"
    "n_idleOwner (nets demo_gone 0) = None" "table demo_gone = []" "owners demo_gone = (\<lambda>_. None)" "byMost demo_gone = []"
    "idle_bytes demo_gone = 0" "cfg demo_gone = cfg demo_relay" "conns demo_gone = conns demo_two"
    unfolding eq by (simp_all add: dropIdleLocked_def removeLocked_def Let_def demo_cut_eval singleton_heap)
qed

lemma demo_trim: "trimIdle demo_idle = Some demo_gone"
proof -
  have p: "trim_pick demo_idle = Some 0" "trim_pick demo_cut = Some 0" "trim_pick demo_gone = None"
    by (simp_all add: trim_pick_def demo_idle_eval demo_cut_eval demo_gone_eval) (simp_all add: demo_relay_def)
  have "trim_loop demo_idle = trim_loop demo_cut" by (subst trim_loop.simps) (simp add: p demo_cut_def)
  also have "\<dots> = trim_loop demo_gone" by (subst trim_loop.simps) (simp add: p demo_gone_def)
  also have "\<dots> = Some demo_gone" by (subst trim_loop.simps) (simp add: p)
  finally show ?thesis by (simp add: trimIdle_def demo_idle_eval) (simp add: demo_relay_def)
qed

text \<open>A turn that changes nothing is taken again and again.\<close>

lemma trim_loop_stuck:
  assumes p: "trim_pick s = Some n" and a: "trim_act n s = s"
  shows "trim_loop s = None"
proof (rule ccontr)
  assume "trim_loop s \<noteq> None"
  then obtain r where r: "trim_loop s = Some r" by auto
  have "\<not> (\<exists>n. trim_pick s = Some n \<and> trim_act n s = s)"
    by (rule trim_loop.raw_induct [where P = "\<lambda>s r. \<not> (\<exists>n. trim_pick s = Some n \<and> trim_act n s = s)", OF _ r])
      (auto split: option.splits)
  with p a show False by blast
qed

definition demo_stale :: relay where
  "demo_stale = unregister_net 2 0 (unregister_rest 3 demo_gone)"

lemma demo_rest: "unregister_rest 3 demo_gone = demo_gone\<lparr>ip_conns := release (ip_conns demo_gone) ''10.0.0.1'' False\<rparr>"
  by (simp add: unregister_rest_def Let_def demo_gone_eval demo_two_eq demo_conn_def)

lemma demo_stale_eval:
  "n_members (nets demo_stale 0) = []" "n_id (nets demo_stale 0) = demo_net" "table demo_stale = []"
  "owners demo_stale = [''10.0.0.1'' \<mapsto> \<lparr>o_order = [0], o_bytes = 120\<rparr>]" "byMost demo_stale = [''10.0.0.1'']"
  "idle_bytes demo_stale = 120" "cfg demo_stale = cfg demo_relay"
proof -
  have eq: "demo_stale = addLocked 0 ''10.0.0.1'' (demo_gone\<lparr>ip_conns := release (ip_conns demo_gone) ''10.0.0.1'' False\<rparr>)"
    unfolding demo_stale_def demo_rest
    by (simp add: unregister_net_def demo_gone_eval demo_two_eval syncIdleLocked_def Let_def) (simp add: demo_relay_def)
  show "n_members (nets demo_stale 0) = []" "n_id (nets demo_stale 0) = demo_net" "table demo_stale = []"
    "owners demo_stale = [''10.0.0.1'' \<mapsto> \<lparr>o_order = [0], o_bytes = 120\<rparr>]" "byMost demo_stale = [''10.0.0.1'']"
    "idle_bytes demo_stale = 120" "cfg demo_stale = cfg demo_relay"
    unfolding eq by (simp_all add: addLocked_fields the_owner_def demo_gone_eval demo_cost first_owner same_elseD [OF same_else_add])
qed

lemma demo_stale_stuck: "trimIdle demo_stale = None"
proof -
  have "trim_loop demo_stale = None"
    by (rule trim_loop_stuck [where n = 0])
      (simp_all add: trim_pick_def trim_act_def demo_stale_eval, simp add: demo_relay_def)
  then show ?thesis by (simp add: trimIdle_def demo_stale_eval) (simp add: demo_relay_def)
qed

lemma demo_relay_reach: "rreach demo_one" "rreach demo_two"
proof -
  show 1: "rreach demo_one" unfolding demo_one_def
    by (rule reach_admit [OF rreach.start [OF demo_init]]) (simp add: demo_relay_def demo_conn_def)
  show "rreach demo_two" unfolding demo_two_def by (rule reach_admit [OF 1]) (simp add: demo_one_eq demo_conn_def)
qed

text \<open>The second connection closes and is unregistered: the network is left with no member.\<close>

definition demo_closed :: relay where
  "demo_closed = upd_conn 3 (close_conn closeNormal False) demo_two"

definition demo_left :: relay where
  "demo_left = unregister_net 3 0 demo_closed"

lemma demo_left_eq: "demo_left = addLocked 0 ''10.0.0.1'' (upd_net 0 (\<lambda>x. x\<lparr>n_members := [], n_emptySince := 0\<rparr>) demo_closed)"
  using last_member_leaves [of demo_closed 3 0 0]
  by (simp add: demo_two_eval demo_left_def demo_closed_def) (simp add: demo_relay_def)

lemma demo_left_eval:
  "n_members (nets demo_left 0) = []" "n_idleOwner (nets demo_left 0) = Some ''10.0.0.1''" "table demo_left = [(demo_net, 0)]"
  "owners demo_left = [''10.0.0.1'' \<mapsto> \<lparr>o_order = [0], o_bytes = 154\<rparr>]" "idle_bytes demo_left = 154" "cfg demo_left = cfg demo_relay"
  "n_id (nets demo_left 0) = demo_net" "n_roster (nets demo_left 0) = demo_roster" "n \<noteq> 0 \<Longrightarrow> n_idleOwner (nets demo_left n) = None"
  unfolding demo_left_eq demo_closed_def
  by (simp_all add: addLocked_fields the_owner_def demo_two_eval demo_cost first_owner same_elseD [OF same_else_add])
    (simp add: demo_two_eq demo_one_eq demo_relay_def new_network_def)

lemma demo_left_reach: "rreach demo_left"
proof -
  have "rreach demo_closed" unfolding demo_closed_def by (rule reach_step [OF rstep.closed demo_relay_reach(2)])
  moreover have "closing (conns demo_closed 3)" by (simp add: demo_closed_def)
  ultimately show ?thesis unfolding demo_left_def using reach_step [OF rstep.left] by blast
qed

section \<open>Properties\<close>

text \<open>
  C1. Revoked nodes are never connected. In every reachable state, whatever the interleaving of
  registrations, pushed rosters, replacements and departures, a node the relay counts as connected to
  a network is on that network's effective roster, its connection is registered there under that id,
  and that connection counts for no other node and no other network.
\<close>

theorem connected_members_on_roster:
  assumes "rreach s" and "map_of (n_members (nets s n)) i = Some c"
  shows "on_roster (n_roster (nets s n)) i \<and> c_network (conns s c) = Some n \<and> c_id (conns s c) = i \<and> c_state (conns s c) = stateRegistered
    \<and> (\<forall>m j. map_of (n_members (nets s m)) j = Some c \<longrightarrow> m = n \<and> j = i)"
proof -
  have M: "members_ok s" using rreach_rinv [OF assms(1)] by (simp add: rinv_def)
  note m = map_of_SomeD [OF assms(2)]
  have "m' = n \<and> j = i" if "map_of (n_members (nets s m')) j = Some c" for m' j
    using members_disjoint [OF M m map_of_SomeD [OF that]] by auto
  then show ?thesis using members_okD [OF M m] by auto
qed

theorem connected_members_on_roster_witness:
  "rreach demo_one \<and> on_roster (n_roster (nets demo_one 0)) demo_node \<and> c_network (conns demo_one 2) = Some 0"
proof -
  have "map_of (n_members (nets demo_one 0)) demo_node = Some 2" by (simp add: demo_one_eval)
  from connected_members_on_roster [OF demo_relay_reach(1) this] demo_relay_reach(1) show ?thesis by simp
qed

text \<open>
  C5. Members are told the shaping in force. \<open>in_force\<close> is the specification: the trickle rate once the
  charges of the last hour reach the network's quota, its rate otherwise, from the limits the relay
  holds now. In every reachable state the last notice an open member was sent is the shaping the
  relay keeps for its network; and in any run, right after a charge to a network, a pass of the
  shaping loop over one with members, a registration, or new limits (then of every network in the
  table), what its open members were told last is \<open>in_force\<close> at that time. A charge is held to that
  rate, but for the second after the trickle was announced, when it is held to the rate before.
\<close>

theorem members_told_shaping_in_force:
  assumes "rreach s"
  shows "(\<forall>n i c. map_of (n_members (nets s n)) i = Some c \<and> \<not> closing (conns s c) \<longrightarrow>
        shapings (c_out (conns s c)) \<noteq> [] \<and> last (shapings (c_out (conns s c))) = (n_rateNow (nets s n), n_slowed (nets s n)))
    \<and> told_in_force (snd (chargeLocked n sz now s)) n now
    \<and> (n_members (nets s n) \<noteq> [] \<longrightarrow> told_in_force (shaping_visit now n s) n now)
    \<and> (\<forall>(i, m)\<in>set (table s). told_in_force (ReloadLimits dflt f now s) m now)
    \<and> (\<forall>c r i pub wall m s1 e d q s2. c_state (conns s c) = stateHello \<longrightarrow> admit_find c r i pub wall s = (Found m, s1) \<longrightarrow>
         admit_locked c m r i pub now s1 = ((e, d, True, q), s2) \<longrightarrow> told_in_force s2 m now)
    \<and> fst (chargeLocked n sz now s) = snd (spend (n_rateTAT (nets s n)) now (int sz) (held_to (snd (chargeLocked n sz now s)) n now))"
proof (intro conjI)
  have "net_told s n" for n using rreach_rinv [OF assms] by (simp add: rinv_def told_ok_def)
  then show "\<forall>n i c. map_of (n_members (nets s n)) i = Some c \<and> \<not> closing (conns s c) \<longrightarrow>
        shapings (c_out (conns s c)) \<noteq> [] \<and> last (shapings (c_out (conns s c))) = (n_rateNow (nets s n), n_slowed (nets s n))"
    unfolding net_told_def shape_def by (blast dest: map_of_SomeD)
  show "told_in_force (snd (chargeLocked n sz now s)) n now"
    by (rule told_in_forceI [OF reach_charge_locked [OF assms] charge_in_force(1)])
  show "n_members (nets s n) \<noteq> [] \<longrightarrow> told_in_force (shaping_visit now n s) n now"
    using told_in_forceI [OF reach_shaping [OF assms] visit_in_force] by blast
  show "\<forall>(i, m)\<in>set (table s). told_in_force (ReloadLimits dflt f now s) m now"
    using told_in_forceI [OF reach_reload [OF assms] reload_in_force] by blast
  show "\<forall>c r i pub wall m s1 e d q s2. c_state (conns s c) = stateHello \<longrightarrow> admit_find c r i pub wall s = (Found m, s1) \<longrightarrow>
         admit_locked c m r i pub now s1 = ((e, d, True, q), s2) \<longrightarrow> told_in_force s2 m now"
    using told_in_forceI [OF reach_step [OF rstep.admitted assms] admit_in_force] by blast
  show "fst (chargeLocked n sz now s) = snd (spend (n_rateTAT (nets s n)) now (int sz) (held_to (snd (chargeLocked n sz now s)) n now))"
    by (rule charge_in_force(2))
qed

definition demo_slow :: relay where
  "demo_slow = ReloadLimits \<lparr>ov_rate = Some 500, ov_quota = None, ov_trickle = None\<rparr> [] 7 demo_one"

lemma demo_slow_eval:
  "n_members (nets demo_slow 0) = [(demo_node, 2)]" "\<not> closing (conns demo_slow 2)" "in_force demo_slow 0 7 = (500, False)"
  by (simp_all add: demo_slow_def ReloadLimits_def reshapeAll_def Let_def over_def envLimits_def unname_others_def demo_one_eq demo_relay_def
     reshapeLocked_def shapingLocked_def quotaLocked_def limitsOf_def demo_limits_def new_network_def in_force_def upd_conns_def closing_def demo_conn_def)

theorem members_told_shaping_in_force_witness:
  "last (shapings (c_out (conns demo_slow 2))) = (500, False)"
proof -
  have "told_in_force demo_slow 0 7"
    using members_told_shaping_in_force [OF demo_relay_reach(1)] unfolding demo_slow_def by (auto simp: demo_one_eval)
  then show ?thesis using demo_slow_eval by (simp add: told_in_force_def)
qed

text \<open>
  C3. A roster never goes back. From one section to the next, the version of the roster the relay holds
  for a network only grows, through registrations with older rosters, pushes, compaction and trimming
  alike, for as long as the relay holds the network.
\<close>

theorem roster_version_never_decreases:
  assumes "rstep s s'" and "n < next_net s"
  shows "r_Version (n_roster (nets s n)) \<le> r_Version (n_roster (nets s' n))"
  using version_step [OF assms] by (simp add: version_def)

theorem roster_version_never_decreases_witness:
  "r_Version (n_roster (nets demo_idle 0)) \<le> r_Version (n_roster (nets (trim_act 0 demo_idle) 0))"
proof -
  have "0 < next_net demo_idle" by (simp add: demo_idle_eq addLocked_def Let_def demo_two_eq demo_one_eq)
  from roster_version_never_decreases [OF rstep.trimmed this] show ?thesis by simp
qed
lemma rewrite_frame_parts:
  "length i = 16 \<Longrightarrow> frameHeader \<le> length f \<Longrightarrow> frame_peer (rewrite_frame i f) = i \<and> drop frameHeader (rewrite_frame i f) = drop frameHeader f"
  by (cases f) (simp_all add: frame_peer_def rewrite_frame_def frameHeader_def)

text \<open>
  C2. Networks are isolated. In every reachable state, a routed frame that a member's connection
  handles reaches at most the connection registered in the same network under the node id the frame
  names, and it arrives with the sender's own node id in place of that one (and control as data), the
  body as it was: no member can reach another network or speak for another node.
\<close>

theorem route_stays_in_network:
  assumes "rreach s" and "c_network (conns s c) = Some n"
    and "Routed g \<in> set (c_out (conns (route sz c f wire now s) d))" and "Routed g \<notin> set (c_out (conns s d))"
  shows "c_network (conns s d) = Some n \<and> c_id (conns s d) = frame_peer f \<and> g = rewrite_frame (c_id (conns s c)) f
    \<and> (length (c_id (conns s c)) = 16 \<and> frameHeader \<le> length f \<longrightarrow> frame_peer g = c_id (conns s c) \<and> drop frameHeader g = drop frameHeader f)"
proof -
  let ?peer = "frame_peer f"
  obtain wait s1 where C: "chargeLocked n wire now s = (wait, s1)" by fastforce
  let ?s2 = "upd_conn c (holdFor now wait) s1"
  have c1: "calm s s1" using calm_charge_locked [of s n wire now] C by simp
  have id: "c_id (conns ?s2 c) = c_id (conns s c)" using calm_conn(2) [OF c1] by (simp add: holdFor_def)
  have q2: "adds_quiet s ?s2"
    using adds_quiet_trans [OF _ adds_quiet_hold] adds_quiet_charge_locked [of s n wire now] C by simp
  have no: False if "adds_quiet s (route sz c f wire now s)"
    using that assms(3,4) unfolding adds_quiet_def by (metis UnE set_append)
  have un: "adds_quiet t (reply_msg sz c (Unreachable ?peer) now t)" for t by (rule adds_quiet_reply) simp
  show ?thesis
  proof (cases "map_of (n_members (nets s n)) ?peer")
    case None
    then have "route sz c f wire now s = reply_msg sz c (Unreachable ?peer) now ?s2"
      using assms(2) C by (simp add: route_def Let_def)
    then show ?thesis using no adds_quiet_trans [OF q2 un] by simp
  next
    case (Some e)
    let ?g = "rewrite_frame (c_id (conns s c)) f"
    have r: "route sz c f wire now s = (if closing (conns ?s2 e) then reply_msg sz c (Unreachable ?peer) now (upd_conn e (send (Routed ?g)) ?s2)
        else upd_conn e (send (Routed ?g)) ?s2)"
      using assms(2) C Some id by (simp add: route_def Let_def try_send_def)
    have M: "members_ok s" using rreach_rinv [OF assms(1)] by (simp add: rinv_def)
    note m = members_okD [OF M map_of_SomeD [OF Some]]
    show ?thesis
    proof (cases "closing (conns ?s2 e)")
      case True
      then have "upd_conn e (send (Routed ?g)) ?s2 = ?s2" by (simp add: upd_conn_def send_def fun_upd_idem)
      then show ?thesis using r True no adds_quiet_trans [OF q2 un] by simp
    next
      case False
      obtain a where a: "c_out (conns ?s2 d) = c_out (conns s d) @ a" "Routed g \<notin> set a" using q2 unfolding adds_quiet_def by blast
      have "d = e \<and> g = ?g"
        using assms(3,4) r False a by (cases "d = e") (auto simp: send_def)
      then show ?thesis using m rewrite_frame_parts by simp
    qed
  qed
qed

lemma demo_route:
  "Routed ([1, 3] @ demo_node) \<in> set (c_out (conns (route (\<lambda>_. 0) 2 ([1, 3] @ demo_node) 20 0 demo_one) 2))"
proof -
  have "frame_peer ([1, 3] @ demo_node) = demo_node" "rewrite_frame demo_node ([1, 3] @ demo_node) = [1, 3] @ demo_node"
    by (simp_all add: frame_peer_def rewrite_frame_def frameHeader_def typeControl_def typeData_def demo_node_def)
  then show ?thesis
    by (simp add: route_def demo_one_eq demo_relay_def demo_limits_def new_network_def demo_conn_def chargeLocked_def Let_def reshapeLocked_def
        shapingLocked_def quotaLocked_def limitsOf_def spend_def shapeRateLocked_def try_send_def holdFor_def closing_def send_def
        hw_add_def hourWindow_zero_def go_quot_def)
qed

theorem route_stays_in_network_witness:
  "c_network (conns demo_one 2) = Some 0 \<and> c_id (conns demo_one 2) = frame_peer ([1, 3] @ demo_node)"
proof -
  have "c_network (conns demo_one 2) = Some 0" "Routed ([1, 3] @ demo_node) \<notin> set (c_out (conns demo_one 2))"
    by (simp_all add: demo_one_eq)
  from route_stays_in_network [OF demo_relay_reach(1) this(1) demo_route this(2)] show ?thesis by simp
qed

text \<open>
  C4. A roster's holder cannot undo a revocation. A node that presents a valid roster no newer than the
  relay's, and that the relay's roster does not list, is refused and closed, and nobody's membership
  changes.
\<close>

theorem revoked_node_refused:
  assumes "map_of (table s) (r_Network r) = Some n" and "r_Version r \<le> r_Version (n_roster (nets s n))"
    and "\<not> on_roster (n_roster (nets s n)) i"
  shows "fst (admit c r i pub wall now s) = False
    \<and> closing (conns (snd (admit c r i pub wall now s)) c)
    \<and> n_members (nets (snd (admit c r i pub wall now s)) m) = n_members (nets s m)"
proof -
  obtain e d w s1 where S: "settle_roster n r now s = (e, d, w, s1)" by (metis prod_cases4)
  have s1: "e = [] \<and> d = None \<and> \<not> on_roster (n_roster (nets s1 n)) i \<and> n_members (nets s1 m) = n_members (nets s m)"
    using S
  proof (cases rule: settle_cases)
    case restore then show ?thesis using assms(3) sameMembers_on_roster by simp
  qed (use assms in auto)
  have nm: "\<not> isMember i pub (n_roster (nets s1 n))" using s1 isMember_on_roster by blast
  have A: "admit_locked c n r i pub now s = (([], None, False, None), syncIdleLocked n (c_ip (conns s1 c)) s1)"
    using S s1 nm by (simp add: admit_locked_def Let_def)
  have "admit c r i pub wall now s =
      (False, upd_conn c (close_conn closeNotMember False) (upd_conns [] (close_conn closeNotMember False) (syncIdleLocked n (c_ip (conns s1 c)) s1)))"
    using assms(1) A by (simp add: admit_def admit_find_def admit_after_def after_adopt_def)
  then show ?thesis using s1 by simp
qed

theorem revoked_node_refused_witness:
  "fst (admit 3 demo_roster demo_net demo_key 0 0 demo_one) = False"
proof -
  have "\<not> on_roster (n_roster (nets demo_one 0)) demo_net"
    by (simp add: demo_one_eval on_roster_iff demo_roster_def demo_node_def demo_net_def)
  then show ?thesis using revoked_node_refused [of demo_one demo_roster 0 demo_net 3 demo_key 0 0 0]
    by (simp add: demo_one_eval) (simp add: demo_roster_def)
qed
text \<open>The idle networks are exactly those the owners' lists hold, each once.\<close>

lemma idle_total:
  assumes I: "idle_inv s"
  shows "idle_bytes s = (\<Sum>n\<in>idle_nets s. n_idleSize (nets s n))"
proof -
  let ?A = "\<lambda>k. set (o_order (the_owner s k))"
  have own: "k \<in> set (byMost s) \<Longrightarrow> \<exists>ow. owners s k = Some ow \<and> distinct (o_order ow) \<and> o_bytes ow = sizes s (o_order ow)" for k
    using I by (auto simp: idle_inv_def owner_ok_def dest!: spec [of _ k] split: option.splits)
  have mem: "n_idleOwner (nets s n) = Some k \<longleftrightarrow> in_list s n k" for n k using I by (simp add: idle_inv_def net_ok_def)
  have A: "n \<in> ?A k \<longleftrightarrow> in_list s n k" for n k by (simp add: in_list_def the_owner_def split: option.split)
  have U: "idle_nets s = (\<Union>k\<in>set (byMost s). ?A k)"
    using idle_listed(1) [OF I] mem A by (fastforce simp: idle_nets_def)
  have "owner_bytes s k = (\<Sum>n\<in>?A k. n_idleSize (nets s n))" if "k \<in> set (byMost s)" for k
    using own [OF that] by (auto simp: owner_bytes_def the_owner_def sizes_def sum_list_distinct_conv_sum_set)
  then have "idle_bytes s = (\<Sum>k\<in>set (byMost s). \<Sum>n\<in>?A k. n_idleSize (nets s n))" using I by (simp add: idle_inv_def)
  also have "\<dots> = (\<Sum>n\<in>(\<Union>k\<in>set (byMost s). ?A k). n_idleSize (nets s n))"
  proof (rule sum.UNION_disjoint [symmetric])
    have "j = k" if "n \<in> ?A j" "n \<in> ?A k" for j k n using that A mem by (metis option.inject)
    then show "\<forall>j\<in>set (byMost s). \<forall>k\<in>set (byMost s). j \<noteq> k \<longrightarrow> ?A j \<inter> ?A k = {}" by blast
  qed auto
  finally show ?thesis using U by simp
qed

text \<open>
  C21. The idle budget is measured exactly. In every reachable state the bytes counted against
  \<open>LINK_IDLE_ROSTERS_BYTES\<close> are the cost of the rosters of the networks in the accounting; each address
  on record lists exactly the networks charged to it, each once, and its bytes are the cost of their
  rosters; what it is charged is at most what the address at the top of the heap is; a network in
  the accounting has no member connected; and, when there is a budget, every network the relay
  holds that has no member connected is in it.
\<close>

theorem idle_accounting_exact:
  assumes "rreach s"
  shows "idle_bytes s = (\<Sum>n\<in>idle_nets s. rosterCost (n_roster (nets s n)))
    \<and> (\<forall>k ow. owners s k = Some ow \<longrightarrow> distinct (o_order ow) \<and> set (o_order ow) = {n. n_idleOwner (nets s n) = Some k}
          \<and> o_bytes ow = (\<Sum>n\<leftarrow>o_order ow. rosterCost (n_roster (nets s n))) \<and> o_bytes ow \<le> owner_bytes s (hd (byMost s)))
    \<and> (\<forall>n k. n_idleOwner (nets s n) = Some k \<longrightarrow> owners s k \<noteq> None \<and> n_members (nets s n) = [])
    \<and> (IdleRostersBytes (cfg s) > 0 \<longrightarrow>
         (\<forall>i n. map_of (table s) i = Some n \<longrightarrow> n_members (nets s n) = [] \<longrightarrow> n_idleOwner (nets s n) \<noteq> None))"
proof (intro conjI allI impI)
  have I: "idle_inv s" and S: "size_ok s n" for n using rreach_rinv [OF assms] by (auto simp: rinv_def idle_ok_def)
  have O: "owner_ok s k" and N: "net_ok s n" for k n using I by (auto simp: idle_inv_def)
  have cost: "n_idleSize (nets s n) = rosterCost (n_roster (nets s n))" if "n_idleOwner (nets s n) = Some k" for n k
    using S [of n] that by (simp add: size_ok_def)
  have "(\<Sum>n\<in>idle_nets s. n_idleSize (nets s n)) = (\<Sum>n\<in>idle_nets s. rosterCost (n_roster (nets s n)))"
    using S by (intro sum.cong) (auto simp: idle_nets_def size_ok_def)
  then show "idle_bytes s = (\<Sum>n\<in>idle_nets s. rosterCost (n_roster (nets s n)))" using idle_total [OF I] by simp
  fix k ow assume k: "owners s k = Some ow"
  show "distinct (o_order ow)" using O [of k] k by (simp add: owner_ok_def)
  show listed: "set (o_order ow) = {n. n_idleOwner (nets s n) = Some k}" using N k by (auto simp: net_ok_def in_list_def)
  have "map (\<lambda>n. n_idleSize (nets s n)) (o_order ow) = map (\<lambda>n. rosterCost (n_roster (nets s n))) (o_order ow)"
    using listed cost by (intro map_cong) auto
  then show "o_bytes ow = (\<Sum>n\<leftarrow>o_order ow. rosterCost (n_roster (nets s n)))" using O [of k] k by (simp only: owner_ok_def sizes_def option.case)
  have "k \<in> set (byMost s)" using O [of k] k by (simp add: owner_ok_def)
  moreover have "heap_ok (owner_bytes s) (byMost s) (length (byMost s))" using I by (simp add: idle_inv_def heap_part_def)
  ultimately show "o_bytes ow \<le> owner_bytes s (hd (byMost s))"
    using heapq.valid_hd [of "owner_bytes s" "byMost s" k] k by (simp add: owner_bytes_def)
next
  fix n k assume "n_idleOwner (nets s n) = Some k"
  moreover have "net_ok s n" "size_ok s n" using rreach_rinv [OF assms] by (auto simp: rinv_def idle_ok_def idle_inv_def)
  ultimately show "owners s k \<noteq> None" "n_members (nets s n) = []" by (auto simp: net_ok_def in_list_def size_ok_def dest!: spec [of _ k] split: option.splits)
next
  fix i n assume "IdleRostersBytes (cfg s) > 0" "map_of (table s) i = Some n" "n_members (nets s n) = []"
  then show "n_idleOwner (nets s n) \<noteq> None" using rreach_counted [OF assms] unfolding counted_ok_def by blast
qed

theorem idle_accounting_exact_witness:
  "map_of (table demo_left) demo_net = Some 0 \<and> n_members (nets demo_left 0) = [] \<and> n_idleOwner (nets demo_left 0) \<noteq> None
   \<and> idle_bytes demo_left = 154 \<and> (\<Sum>n\<in>idle_nets demo_left. rosterCost (n_roster (nets demo_left n))) = 154
   \<and> (\<Sum>n\<leftarrow>[0]. rosterCost (n_roster (nets demo_left n))) = 154"
proof -
  note P = idle_accounting_exact [OF demo_left_reach]
  have "(\<Sum>n\<in>idle_nets demo_left. rosterCost (n_roster (nets demo_left n))) = 154" using P by (simp add: demo_left_eval)
  moreover have "(\<Sum>n\<leftarrow>[0]. rosterCost (n_roster (nets demo_left n))) = 154"
    using P unfolding demo_left_eval(4) by (metis (no_types, lifting) fun_upd_same idleOwner.select_convs)
  moreover have "IdleRostersBytes (cfg demo_left) > 0" by (simp add: demo_left_eval demo_relay_def)
  ultimately show ?thesis by (simp add: demo_left_eval)
qed

text \<open>
  C22. Making room ends, within the budget. When every network in the accounting is one the table still
  holds, \<open>trimIdle\<close> returns, and leaves the idle rosters within \<open>LINK_IDLE_ROSTERS_BYTES\<close>.
\<close>

theorem trimIdle_returns_within_budget:
  assumes "rreach s" and "held s" and "IdleRostersBytes (cfg s) > 0"
  shows "\<exists>s'. trimIdle s = Some s' \<and> idle_bytes s' \<le> IdleRostersBytes (cfg s)"
proof -
  have "trim_ok s" using rreach_rinv [OF assms(1)] assms(2) by (simp add: trim_ok_def rinv_def idle_ok_def)
  then show ?thesis using trim_loop_returns [of s] assms(3) by (auto simp: trimIdle_def)
qed

theorem trimIdle_returns_within_budget_witness:
  "rreach demo_left \<and> held demo_left \<and> idle_bytes demo_left = 154 \<and> (\<exists>s'. trimIdle demo_left = Some s' \<and> idle_bytes s' \<le> 1)"
proof -
  have h: "held demo_left" unfolding held_def
    by (metis demo_left_eval(3,7,9) map_of_Cons_code(2) option.distinct(1))
  have c: "IdleRostersBytes (cfg demo_left) = 1" by (simp add: demo_left_eval demo_relay_def)
  show ?thesis
    using demo_left_reach h trimIdle_returns_within_budget [OF demo_left_reach h] demo_left_eval(5) by (simp add: c)
qed

text \<open>
  C32. A replaced connection can hang the relay's trimming. On an empty relay with a budget for idle
  rosters of one byte: a node registers twice, so its first connection is replaced and closed; the
  second leaves, and its \<open>unregister\<close> returns, the network cut and forgotten; when the first is
  unregistered, it puts the forgotten network back in the accounting, where the loop of \<open>trimIdle\<close>
  finds it again and again, changes nothing, and never returns.
\<close>

theorem unregister_of_replaced_connection_never_returns:
  "rreach demo_two \<and> closing (conns demo_two 2)
   \<and> unregister 3 0 demo_two = Some (unregister_rest 3 demo_gone)
   \<and> unregister 2 0 (unregister_rest 3 demo_gone) = None"
proof -
  have n3: "c_network (conns demo_two 3) = Some 0" and n2: "c_network (conns (unregister_rest 3 demo_gone) 2) = Some 0"
    by (simp_all add: demo_two_eval demo_rest demo_gone_eval)
  have "unregister 3 0 demo_two = map_option (unregister_rest 3) (trimIdle demo_idle)" using n3 by (simp add: unregister_def demo_idle_def)
  moreover have "unregister 2 0 (unregister_rest 3 demo_gone) = map_option (unregister_rest 2) (trimIdle demo_stale)"
    using n2 by (simp add: unregister_def demo_stale_def)
  ultimately show ?thesis using demo_relay_reach(2) demo_trim demo_stale_stuck by (simp add: closing_def demo_two_eval)
qed
section \<open>A record forgotten before a full roster\<close>

text \<open>
  Two networks of one address, a budget of 250 bytes. The first has a large roster; the second's is
  small. Their members leave one after the other.
\<close>

definition big_roster :: Roster where
  "big_roster = demo_roster\<lparr>r_Network := replicate 16 8, r_Raw := Some (replicate 300 32)\<rparr>"

definition member_net :: "Roster \<Rightarrow> nat \<Rightarrow> network" where
  "member_net r c = (new_network r None)\<lparr>n_members := [(demo_node, c)], n_rateNow := 1000\<rparr>"

definition member_conn :: "nat \<Rightarrow> rconn" where
  "member_conn n = demo_conn\<lparr>c_network := Some n, c_id := demo_node, c_state := stateRegistered,
     c_out := [Registered demo_node 1 None, Shaping 1000 False]\<rparr>"

definition two_joined :: relay where
  "two_joined = demo_relay\<lparr>cfg := \<lparr>cfg_env = demo_limits, IdleRostersBytes = 250, NetworkTTL = 0\<rparr>,
     nets := (nets demo_relay)(4 := member_net big_roster 2, 5 := member_net demo_roster 3), next_net := 6,
     table := [(replicate 16 8, 4), (demo_net, 5)], conns := (conns demo_relay)(2 := member_conn 4, 3 := member_conn 5)\<rparr>"

definition two_a :: relay where "two_a = unregister_net 2 0 two_joined"
definition two_b :: relay where "two_b = trim_act 4 two_a"
definition two_c :: relay where "two_c = unregister_net 3 0 (unregister_rest 2 two_b)"
definition two_d :: relay where "two_d = trim_act 4 two_c"

lemma two_cost: "rosterCost big_roster = 452" "rosterCost (compactRoster big_roster) = 120"
  by (simp_all add: rosterCost_def big_roster_def demo_roster_def compactRoster_def)

lemma two_joined_eval:
  "nets two_joined 4 = member_net big_roster 2" "nets two_joined 5 = member_net demo_roster 3" "conns two_joined 2 = member_conn 4"
  "conns two_joined 3 = member_conn 5" "owners two_joined = (\<lambda>_. None)" "byMost two_joined = []" "idle_bytes two_joined = 0"
  "table two_joined = [(replicate 16 8, 4), (demo_net, 5)]" "IdleRostersBytes (cfg two_joined) = 250" "ip_conns two_joined = None"
  by (simp_all add: two_joined_def demo_relay_def)

lemma member_simps [simp]:
  "n_members (member_net r c) = [(demo_node, c)]" "n_roster (member_net r c) = r" "n_id (member_net r c) = r_Network r"
  "n_idleOwner (member_net r c) = None" "c_network (member_conn n) = Some n" "c_id (member_conn n) = demo_node"
  "c_ip (member_conn n) = ''10.0.0.1''" "c_pairs (member_conn n) = []" "c_channel (member_conn n) = None" "c_ipPending (member_conn n) = False"
  by (simp_all add: member_net_def member_conn_def new_network_def demo_conn_def)

lemma two_a_eq: "two_a = addLocked 4 ''10.0.0.1'' (upd_net 4 (\<lambda>x. x\<lparr>n_members := [], n_emptySince := 0\<rparr>) two_joined)"
  using last_member_leaves [of two_joined 2 4 0] by (simp add: two_joined_eval two_a_def)

lemma two_a_eval:
  "nets two_a 5 = member_net demo_roster 3" "n_members (nets two_a 4) = []" "n_roster (nets two_a 4) = big_roster" "n_id (nets two_a 4) = replicate 16 8"
  "n_idleOwner (nets two_a 4) = Some ''10.0.0.1''" "n_idleSize (nets two_a 4) = 452" "table two_a = [(replicate 16 8, 4), (demo_net, 5)]"
  "owners two_a = [''10.0.0.1'' \<mapsto> \<lparr>o_order = [4], o_bytes = 452\<rparr>]" "byMost two_a = [''10.0.0.1'']"
  "idle_bytes two_a = 452" "IdleRostersBytes (cfg two_a) = 250" "conns two_a = conns two_joined"
  unfolding two_a_eq
  by (simp_all add: addLocked_fields the_owner_def two_cost first_owner two_joined_eval same_elseD [OF same_else_add])
     (simp add: big_roster_def)

lemma two_b_eq: "two_b = move_to_back 4 (resizeLocked 4 (upd_net 4 (\<lambda>x. x\<lparr>n_roster := compactRoster (n_roster x)\<rparr>) two_a))"
  by (simp add: two_b_def trim_act_def two_a_eval) (simp add: big_roster_def)

lemma two_b_eval:
  "nets two_b 5 = member_net demo_roster 3" "n_members (nets two_b 4) = []" "n_roster (nets two_b 4) = compactRoster big_roster"
  "n_id (nets two_b 4) = replicate 16 8"
  "n_idleOwner (nets two_b 4) = Some ''10.0.0.1''" "n_idleSize (nets two_b 4) = 120" "table two_b = [(replicate 16 8, 4), (demo_net, 5)]"
  "owners two_b = [''10.0.0.1'' \<mapsto> \<lparr>o_order = [4], o_bytes = 120\<rparr>]" "byMost two_b = [''10.0.0.1'']"
  "idle_bytes two_b = 120" "IdleRostersBytes (cfg two_b) = 250" "conns two_b = conns two_joined"
  unfolding two_b_eq
  by (simp_all add: move_to_back_def resizeLocked_def Let_def fix_owner_def two_a_eval two_cost singleton_heap)

lemma two_rest: "unregister_rest 2 two_b = two_b\<lparr>ip_conns := release (ip_conns two_b) ''10.0.0.1'' False\<rparr>"
  by (simp add: unregister_rest_def Let_def two_b_eval two_joined_eval)

lemma two_c_eq: "two_c = addLocked 5 ''10.0.0.1'' (upd_net 5 (\<lambda>x. x\<lparr>n_members := [], n_emptySince := 0\<rparr>) (unregister_rest 2 two_b))"
  using last_member_leaves [of "unregister_rest 2 two_b" 3 5 0] by (simp add: two_rest two_b_eval two_joined_eval two_c_def)

lemma same_owner: "byMost s = [k] \<Longrightarrow> owners s k = Some ow \<Longrightarrow> byMost (addLocked n k s) = [k]"
  by (simp add: addLocked_def Let_def get_owner_def fix_owner_def singleton_heap)

lemma two_c_eval:
  "n_members (nets two_c 4) = []" "n_roster (nets two_c 4) = compactRoster big_roster" "n_id (nets two_c 4) = replicate 16 8"
  "n_idleOwner (nets two_c 4) = Some ''10.0.0.1''" "n_idleSize (nets two_c 4) = 120" "n_roster (nets two_c 5) = demo_roster"
  "n_idleOwner (nets two_c 5) = Some ''10.0.0.1''" "table two_c = [(replicate 16 8, 4), (demo_net, 5)]"
  "owners two_c = [''10.0.0.1'' \<mapsto> \<lparr>o_order = [4, 5], o_bytes = 274\<rparr>]" "byMost two_c = [''10.0.0.1'']"
  "idle_bytes two_c = 274" "IdleRostersBytes (cfg two_c) = 250"
  unfolding two_c_eq
  by (simp_all add: addLocked_fields the_owner_def two_rest two_b_eval demo_cost same_owner same_elseD [OF same_else_add])

lemma two_d_eval:
  "table two_d = [(demo_net, 5)]" "n_roster (nets two_d 5) = demo_roster" "n_idleOwner (nets two_d 5) = Some ''10.0.0.1''"
  "idle_bytes two_d = 154" "IdleRostersBytes (cfg two_d) = 250"
proof -
  have "demo_net \<noteq> replicate 16 8" by (simp add: demo_net_def)
  then have eq: "two_d = dropIdleLocked 4 (two_c\<lparr>table := [(demo_net, 5)]\<rparr>)"
    by (simp add: two_d_def trim_act_def two_c_eval)
  show "table two_d = [(demo_net, 5)]" "n_roster (nets two_d 5) = demo_roster" "n_idleOwner (nets two_d 5) = Some ''10.0.0.1''"
    "idle_bytes two_d = 154" "IdleRostersBytes (cfg two_d) = 250"
    unfolding eq by (simp_all add: dropIdleLocked_def removeLocked_def Let_def two_c_eval)
qed

lemma two_trims: "trimIdle two_a = Some two_b" "trimIdle two_c = Some two_d"
proof -
  have p: "trim_pick two_a = Some 4" "trim_pick two_b = None" "trim_pick two_c = Some 4" "trim_pick two_d = None"
    by (simp_all add: trim_pick_def two_a_eval two_b_eval two_c_eval two_d_eval)
  have "trim_loop two_b = Some two_b" "trim_loop two_d = Some two_d" by (subst trim_loop.simps, simp add: p)+
  then have "trim_loop two_a = Some two_b" "trim_loop two_c = Some two_d"
    by (subst trim_loop.simps, simp add: p two_b_def two_d_def)+
  then show "trimIdle two_a = Some two_b" "trimIdle two_c = Some two_d" by (simp_all add: trimIdle_def two_a_eval two_c_eval)
qed

text \<open>
  C33. A compact record is forgotten while its address still holds a full roster. The first network's
  roster is cut to a record (120 bytes) when its member leaves; when the second's member leaves, its
  roster is put behind the record, 274 bytes in all, and the relay forgets the record, 154 bytes left,
  and keeps the full roster. Cutting the roster first would have left both as records, 240 bytes,
  within the budget of 250, and the first network would go on refusing its revoked members.
\<close>

theorem record_forgotten_before_full_roster:
  "unregister 2 0 two_joined = Some (unregister_rest 2 two_b)
   \<and> map_of (table (unregister_rest 2 two_b)) (r_Network big_roster) = Some 4 \<and> r_Raw (n_roster (nets (unregister_rest 2 two_b) 4)) = None
   \<and> unregister 3 0 (unregister_rest 2 two_b) = Some (unregister_rest 3 two_d)
   \<and> map_of (table two_d) (r_Network big_roster) = None
   \<and> n_idleOwner (nets two_d 5) = n_idleOwner (nets two_b 4) \<and> r_Raw (n_roster (nets two_d 5)) \<noteq> None
   \<and> rosterCost (compactRoster big_roster) + rosterCost (compactRoster demo_roster) \<le> IdleRostersBytes (cfg two_d)"
proof -
  have r: "r_Network big_roster = replicate 16 8" "r_Raw demo_roster \<noteq> None" "demo_net \<noteq> replicate 16 8"
    by (simp_all add: big_roster_def demo_roster_def demo_net_def)
  have "unregister 2 0 two_joined = Some (unregister_rest 2 two_b)"
    using two_trims(1) by (simp add: unregister_def two_joined_eval two_a_def)
  moreover have "c_network (conns (unregister_rest 2 two_b) 3) = Some 5" by (simp add: two_rest two_b_eval two_joined_eval)
  then have "unregister 3 0 (unregister_rest 2 two_b) = Some (unregister_rest 3 two_d)"
    using two_trims(2) by (simp add: unregister_def two_c_def)
  ultimately show ?thesis using r by (simp add: two_rest two_b_eval two_d_eval two_cost demo_cost)
qed
section \<open>The quota and control ahead of shaping\<close>

text \<open>
  The hourly quota is exact. For a network with a quota and a trickle rate, below \<open>2^53\<close> bytes, the
  relay's floating-point comparison slows the network exactly when the bytes of the hour reach the
  quota: rounding never slows it early nor lets it past.
\<close>

theorem quota_exact:
  assumes "quotaLocked n now s = (used, slowed, s')" and "0 < QuotaBytesHour (limitsOf s n)" and "QuotaBytesHour (limitsOf s n) \<le> 2 ^ 53"
    and "0 < TrickleBps (limitsOf s n)" and "uint (fst (hw_total (n_hour (nets s n)) now)) \<le> 2 ^ 53"
  shows "slowed \<longleftrightarrow> QuotaBytesHour (limitsOf s n) \<le> uint (fst (hw_total (n_hour (nets s n)) now))"
proof -
  let ?q = "QuotaBytesHour (limitsOf s n)" and ?t = "uint (fst (hw_total (n_hour (nets s n)) now))"
  have t: "0 \<le> ?t" "\<bar>?t\<bar> \<le> 2 ^ 53" "\<bar>?q\<bar> \<le> 2 ^ 53" using assms by auto
  have u: "of_nat (unat (fst (hw_total (n_hour (nets s n)) now))) = (of_int ?t :: rat)" unfolding uint_nat of_int_of_nat_eq ..
  have "slowed \<longleftrightarrow> f64 (f64 (of_int ?t) / f64 (of_int ?q)) \<ge> 1"
    using assms(1,2,4) unfolding quotaLocked_def Let_def u [symmetric]
    by (simp add: case_prod_unfold) (metis)
  also have "\<dots> \<longleftrightarrow> ?q \<le> ?t"
    using f64.rnd_int [OF t(2)] f64.rnd_int [OF t(3)] f64.rnd_quotient_ge_1 [of ?t ?q] assms t by simp
  finally show ?thesis .
qed

theorem quota_exact_witness:
  "fst (snd (quotaLocked 0 0 (demo_one\<lparr>limits := \<lparr>RateBps = 0, QuotaBytesHour = 10, TrickleBps = 5\<rparr>\<rparr>))) = False"
proof -
  let ?s = "demo_one\<lparr>limits := \<lparr>RateBps = 0, QuotaBytesHour = 10, TrickleBps = 5\<rparr>\<rparr>"
  have l: "limitsOf ?s 0 = \<lparr>RateBps = 0, QuotaBytesHour = 10, TrickleBps = 5\<rparr>" by (simp add: limitsOf_def demo_one_eq new_network_def)
  have h: "fst (hw_total (n_hour (nets ?s 0)) 0) = 0"
    by (simp add: demo_one_eq new_network_def hw_total_def hourWindow_zero_def go_quot_def)
  obtain u b t where Q: "quotaLocked 0 0 ?s = (u, b, t)" by (metis prod_cases3)
  show ?thesis using quota_exact [OF Q] l h Q by simp
qed

lemma ceiling_half:
  assumes "controlCeilingLocked n now s = (rate, burst, s')" and "2 \<le> shapeRateLocked s' n now"
  shows "2 * rate \<le> shapeRateLocked s' n now"
proof -
  let ?f = "shapeRateLocked (snd (reshapeLocked n now s)) n now"
  have s': "s' = snd (reshapeLocked n now s)"
    using assms(1) unfolding controlCeilingLocked_def Let_def by (simp split: if_splits)
  then have f: "2 \<le> ?f" using assms(2) by simp
  then have "rate = max 1 (min netCtlRate (?f div 2))"
    using assms(1) unfolding controlCeilingLocked_def Let_def by (auto simp: go_quot_def)
  then show ?thesis using f unfolding s' by (simp add: max_def min_def) linarith
qed

lemma ceiling_bounds:
  assumes "controlCeilingLocked n now s = (rate, burst, s')"
  shows "1 \<le> rate \<and> rate \<le> netCtlRate \<and> 4 * ctlBurst \<le> burst \<and> burst \<le> netCtlBurst"
  using assms unfolding controlCeilingLocked_def Let_def
  by (cases "shapeRateLocked (snd (reshapeLocked n now s)) n now > 0")
     (simp_all add: netCtlRate_def ctlRate_def netCtlBurst_def ctlBurst_def, linarith)

text \<open>
  Control frames are no way around the rate. Whatever rate is in force, what the relay reads ahead of
  shaping for a whole network is capped at half of it (one byte per second at least) and at 64 members'
  budgets, and the burst is never below four members' bursts, so one member's burst cannot empty it.
\<close>

theorem control_ceiling_within_rate:
  assumes "controlCeilingLocked n now s = (rate, burst, s')" and "2 \<le> shapeRateLocked s' n now"
  shows "1 \<le> rate \<and> rate \<le> netCtlRate \<and> 4 * ctlBurst \<le> burst \<and> burst \<le> netCtlBurst \<and> 2 * rate \<le> shapeRateLocked s' n now"
  using ceiling_bounds [OF assms(1)] ceiling_half [OF assms] by simp

theorem control_ceiling_within_rate_witness:
  "2 * fst (controlCeilingLocked 0 0 (demo_one\<lparr>limits := \<lparr>RateBps = 10, QuotaBytesHour = 0, TrickleBps = 0\<rparr>\<rparr>)) \<le> 10"
proof -
  let ?s = "demo_one\<lparr>limits := \<lparr>RateBps = 10, QuotaBytesHour = 0, TrickleBps = 0\<rparr>\<rparr>"
  obtain r b t where Q: "controlCeilingLocked 0 0 ?s = (r, b, t)" by (metis prod_cases3)
  have t: "t = snd (reshapeLocked 0 0 ?s)"
    using Q unfolding controlCeilingLocked_def Let_def by (simp split: if_splits)
  have "shapeRateLocked t 0 0 = 10" unfolding t
    by (simp add: shapeRateLocked_def reshapeLocked_def shapingLocked_def quotaLocked_def limitsOf_def demo_one_eq new_network_def
        watchSlowed_def Let_def)
  then show ?thesis using control_ceiling_within_rate [OF Q] Q by simp
qed

end
