(* ===== verification/Utf8.thy ===== *)
theory Utf8
  imports Prelude "HOL-Library.List_Lexorder" "HOL-Library.Char_ord"
begin

text \<open>
  UTF-8 as Go reads it (\<open>unicode/utf8\<close>, and the \<open>range\<close> over a string) and UTF-16 as
  \<open>unicode/utf16\<close> writes it. Both JSON codecs of the program and the pairing codes rest on them: a
  string is valid, or an invalid byte reads as U+FFFD; object names are sorted by UTF-16 units.
  The result other theories use is that two valid strings with the same UTF-16 form are equal.
\<close>

section \<open>Decoding\<close>

definition cont :: "nat \<Rightarrow> bool" where
  "cont b \<longleftrightarrow> 0x80 \<le> b \<and> b \<le> 0xBF"

text \<open>
  One rune from the front of the bytes, and how many bytes it took (\<open>utf8.DecodeRune\<close>): the
  second byte's range depends on the first (no overlong forms, no surrogates, nothing past
  U+10FFFF). \<open>None\<close> where Go gives \<open>RuneError\<close> with width 1.
\<close>

definition second_ok :: "nat \<Rightarrow> nat \<Rightarrow> bool" where
  "second_ok b0 b1 \<longleftrightarrow>
     (if b0 = 0xE0 then 0xA0 \<le> b1 \<and> b1 \<le> 0xBF
      else if b0 = 0xED then 0x80 \<le> b1 \<and> b1 \<le> 0x9F
      else if b0 = 0xF0 then 0x90 \<le> b1 \<and> b1 \<le> 0xBF
      else if b0 = 0xF4 then 0x80 \<le> b1 \<and> b1 \<le> 0x8F
      else cont b1)"

fun decode_rune :: "nat list \<Rightarrow> (nat \<times> nat) option" where
  "decode_rune [] = None"
| "decode_rune (b0 # bs) =
     (if b0 < 0x80 then Some (b0, 1)
      else if 0xC2 \<le> b0 \<and> b0 \<le> 0xDF
      then (case bs of b1 # _ \<Rightarrow> if second_ok b0 b1 then Some ((b0 - 0xC0) * 64 + (b1 - 0x80), 2) else None | _ \<Rightarrow> None)
      else if 0xE0 \<le> b0 \<and> b0 \<le> 0xEF
      then (case bs of b1 # b2 # _ \<Rightarrow>
              if second_ok b0 b1 \<and> cont b2 then Some ((b0 - 0xE0) * 4096 + (b1 - 0x80) * 64 + (b2 - 0x80), 3) else None
            | _ \<Rightarrow> None)
      else if 0xF0 \<le> b0 \<and> b0 \<le> 0xF4
      then (case bs of b1 # b2 # b3 # _ \<Rightarrow>
              if second_ok b0 b1 \<and> cont b2 \<and> cont b3
              then Some ((b0 - 0xF0) * 262144 + (b1 - 0x80) * 4096 + (b2 - 0x80) * 64 + (b3 - 0x80), 4) else None
            | _ \<Rightarrow> None)
      else None)"

lemma decode_rune_width: "decode_rune bs = Some (r, n) \<Longrightarrow> 0 < n \<and> n \<le> length bs"
  by (cases bs) (auto split: if_splits list.splits)

declare decode_rune.simps(2) [simp del]

function runes_of :: "nat list \<Rightarrow> nat list" where
  "runes_of bs =
     (case bs of
        [] \<Rightarrow> []
      | _ # _ \<Rightarrow> (case decode_rune bs of
            None \<Rightarrow> 0xFFFD # runes_of (tl bs)
          | Some (r, n) \<Rightarrow> r # runes_of (drop n bs)))"
  by pat_completeness auto
termination by (relation "measure length") (auto dest: decode_rune_width)

declare runes_of.simps [simp del]

function valid_codes :: "nat list \<Rightarrow> bool" where
  "valid_codes bs =
     (case bs of
        [] \<Rightarrow> True
      | _ # _ \<Rightarrow> (case decode_rune bs of None \<Rightarrow> False | Some (r, n) \<Rightarrow> valid_codes (drop n bs)))"
  by pat_completeness auto
termination by (relation "measure length") (auto dest: decode_rune_width)

declare valid_codes.simps [simp del]

definition codes :: "string \<Rightarrow> nat list" where
  "codes s = map of_char s"

definition runes :: "string \<Rightarrow> nat list" where
  "runes s = runes_of (codes s)"

definition ValidString :: "string \<Rightarrow> bool" where
  "ValidString s = valid_codes (codes s)"

section \<open>Encoding\<close>

definition encode_rune :: "nat \<Rightarrow> nat list" where
  "encode_rune r =
     (if r < 0x80 then [r]
      else if r < 0x800 then [0xC0 + r div 64, 0x80 + r mod 64]
      else if r < 0x10000 then [0xE0 + r div 4096, 0x80 + r div 64 mod 64, 0x80 + r mod 64]
      else [0xF0 + r div 262144, 0x80 + r div 4096 mod 64, 0x80 + r div 64 mod 64, 0x80 + r mod 64])"

definition scalar :: "nat \<Rightarrow> bool" where
  "scalar r \<longleftrightarrow> r < 0x110000 \<and> \<not> (0xD800 \<le> r \<and> r \<le> 0xDFFF)"

definition utf16_rune :: "nat \<Rightarrow> nat list" where
  "utf16_rune r = (if r < 0x10000 then [r] else [0xD800 + (r - 0x10000) div 1024, 0xDC00 + (r - 0x10000) mod 1024])"

definition utf16 :: "string \<Rightarrow> nat list" where
  "utf16 s = concat (map utf16_rune (runes s))"

section \<open>Valid strings are their runes\<close>

lemma digits64:
  assumes "b < (64 :: nat)"
  shows "(a * 64 + b) div 64 = a" "(a * 64 + b) mod 64 = b"
  using assms by simp_all

lemma decode_rune_encode:
  assumes "decode_rune bs = Some (r, n)"
  shows "take n bs = encode_rune r \<and> scalar r"
proof -
  obtain b0 t where bs: "bs = b0 # t" using assms by (cases bs) auto
  consider "b0 < 0x80" | "0xC2 \<le> b0" "b0 \<le> 0xDF" | "0xE0 \<le> b0" "b0 \<le> 0xEF" | "0xF0 \<le> b0" "b0 \<le> 0xF4"
    using assms unfolding bs by (simp add: decode_rune.simps(2) split: if_splits)
  then show ?thesis
  proof cases
    case 1
    then show ?thesis using assms by (auto simp: bs decode_rune.simps(2) encode_rune_def scalar_def)
  next
    case 2
    then obtain b1 where b: "take n bs = [b0, b1]" "cont b1" "r = (b0 - 0xC0) * 64 + (b1 - 0x80)"
      using assms by (auto simp: bs decode_rune.simps(2) second_ok_def split: list.splits if_splits)
    define x y where "x = b0 - 0xC0" and "y = b1 - 0x80"
    then have xy: "b0 = 0xC0 + x" "b1 = 0x80 + y" "r = x * 64 + y" "2 \<le> x" "x < 32" "y < 64"
      using 2 b by (auto simp: cont_def)
    then show ?thesis using digits64 [of y x] b(1) by (simp add: encode_rune_def scalar_def)
  next
    case 3
    then obtain b1 b2 where b: "take n bs = [b0, b1, b2]" "second_ok b0 b1" "cont b2"
        "r = (b0 - 0xE0) * 4096 + (b1 - 0x80) * 64 + (b2 - 0x80)"
      using assms by (auto simp: bs decode_rune.simps(2) split: list.splits if_splits)
    define x y z where xyz: "x = b0 - 0xE0" "y = b1 - 0x80" "z = b2 - 0x80"
    have req: "r = (x * 64 + y) * 64 + z" using b(4) [folded xyz] by simp
    have xy': "b0 = 0xE0 + x" "b1 = 0x80 + y" "b2 = 0x80 + z" "x < 16" "y < 64" "z < 64"
        "x = 0 \<Longrightarrow> 32 \<le> y" "x = 13 \<Longrightarrow> y < 32"
      using 3 b(2,3) by (auto simp: xyz cont_def second_ok_def split: if_splits)
    note xy = xy'(1-3) req xy'(4-8)
    from xy have "\<not> r < 0x800" "r < 0x10000" "scalar r" by (cases "x = 0"; cases "x = 13"; simp add: scalar_def; linarith)+
    moreover have "r div 64 = x * 64 + y" "r mod 64 = z" unfolding xy(4) by (rule digits64 [OF xy(7)])+
    moreover from this(1) have "r div 4096 = x" "r div 64 mod 64 = y"
      using digits64 [OF xy(6)] div_mult2_eq [of r 64 64] by simp_all
    ultimately show ?thesis using b(1) xy(1,2,3) by (simp add: encode_rune_def)
  next
    case 4
    then obtain b1 b2 b3 where b: "take n bs = [b0, b1, b2, b3]" "second_ok b0 b1" "cont b2" "cont b3"
        "r = (b0 - 0xF0) * 262144 + (b1 - 0x80) * 4096 + (b2 - 0x80) * 64 + (b3 - 0x80)"
      using assms by (auto simp: bs decode_rune.simps(2) split: list.splits if_splits)
    define x y z u where xyz: "x = b0 - 0xF0" "y = b1 - 0x80" "z = b2 - 0x80" "u = b3 - 0x80"
    have req: "r = ((x * 64 + y) * 64 + z) * 64 + u" using b(5) [folded xyz] by simp
    have xy': "b0 = 0xF0 + x" "b1 = 0x80 + y" "b2 = 0x80 + z" "b3 = 0x80 + u"
        "x \<le> 4" "y < 64" "z < 64" "u < 64" "x = 0 \<Longrightarrow> 16 \<le> y" "x = 4 \<Longrightarrow> y < 16"
      using 4 b(2,3,4) by (auto simp: xyz cont_def second_ok_def split: if_splits)
    note xy = xy'(1-4) req xy'(5-10)
    from xy have "\<not> r < 0x10000" "r < 0x110000" by (cases "x = 0"; cases "x = 4"; simp; linarith)+
    then have "\<not> r < 0x80" "\<not> r < 0x800" "\<not> r < 0x10000" "scalar r" by (simp_all add: scalar_def)
    moreover have "r div 64 = (x * 64 + y) * 64 + z" "r mod 64 = u" unfolding xy(5) by (rule digits64 [OF xy(9)])+
    moreover from this(1) have "r div 4096 = x * 64 + y" "r div 64 mod 64 = z"
      using digits64 [OF xy(8), of "x * 64 + y"] div_mult2_eq [of r 64 64] by presburger+
    moreover from this(1) have "r div 262144 = x" "r div 4096 mod 64 = y"
      using digits64 [OF xy(7), of x] div_mult2_eq [of r 4096 64] by simp_all
    ultimately show ?thesis using b(1) xy(1-4) by (simp add: encode_rune_def)
  qed
qed

lemma valid_runes:
  "valid_codes bs \<Longrightarrow> concat (map encode_rune (runes_of bs)) = bs \<and> list_all scalar (runes_of bs)"
proof (induction bs rule: valid_codes.induct)
  case (1 bs)
  show ?case
  proof (cases "decode_rune bs")
    case None
    then have "bs = []" using 1(2) by (cases bs) (auto simp: valid_codes.simps [of "_ # _"])
    then show ?thesis by (simp add: runes_of.simps)
  next
    case (Some p)
    obtain r n where p: "p = (r, n)" by fastforce
    obtain b t where bs: "bs = b # t" using Some by (cases bs) auto
    have v: "valid_codes (drop n bs)" using 1(2) Some p by (simp add: bs valid_codes.simps [of "b # t"])
    have "runes_of bs = r # runes_of (drop n bs)" using Some p by (simp add: bs runes_of.simps [of "b # t"])
    moreover have "concat (map encode_rune (runes_of (drop n bs))) = drop n bs \<and> list_all scalar (runes_of (drop n bs))"
      using 1(1) [OF bs Some p [symmetric] v] .
    ultimately show ?thesis using decode_rune_encode [of bs r n] Some p append_take_drop_id [of n bs] by simp
  qed
qed

section \<open>UTF-16 order separates valid strings\<close>

lemma utf16_rune_eq:
  assumes "utf16_rune r @ xs = utf16_rune q @ ys" and "scalar r" and "scalar q"
  shows "r = q \<and> xs = ys"
proof -
  have low: "(r - 0x10000) div 1024 < 1024" if "scalar r" for r
  proof -
    have "r - 0x10000 < 1024 * 1024" using that unfolding scalar_def by arith
    then show ?thesis by (simp add: less_mult_imp_div_less)
  qed
  consider "r < 0x10000" "q < 0x10000" | "0x10000 \<le> r" "0x10000 \<le> q" | "r < 0x10000" "0x10000 \<le> q" | "0x10000 \<le> r" "q < 0x10000"
    by linarith
  then show ?thesis
  proof cases
    case 2
    then have "(r - 0x10000) div 1024 = (q - 0x10000) div 1024" "(r - 0x10000) mod 1024 = (q - 0x10000) mod 1024" "xs = ys"
      using assms(1) by (auto simp: utf16_rune_def)
    then have "r - 0x10000 = q - 0x10000" by (metis div_mult_mod_eq)
    then show ?thesis using 2 \<open>xs = ys\<close> by simp
  next
    case 3
    then have "r = 0xD800 + (q - 0x10000) div 1024" using assms(1) by (auto simp: utf16_rune_def)
    then show ?thesis using assms(2) low [OF assms(3)] by (simp add: scalar_def)
  next
    case 4
    then have "q = 0xD800 + (r - 0x10000) div 1024" using assms(1) by (auto simp: utf16_rune_def)
    then show ?thesis using assms(3) low [OF assms(2)] by (simp add: scalar_def)
  qed (use assms(1) in \<open>auto simp: utf16_rune_def\<close>)
qed

lemma utf16_runes_inject:
  "concat (map utf16_rune rs) = concat (map utf16_rune qs) \<Longrightarrow> list_all scalar rs \<Longrightarrow> list_all scalar qs \<Longrightarrow> rs = qs"
proof (induction rs arbitrary: qs)
  case Nil
  then show ?case by (cases qs) (auto simp: utf16_rune_def split: if_splits)
next
  case (Cons r rs)
  show ?case
  proof (cases qs)
    case Nil
    then show ?thesis using Cons.prems by (auto simp: utf16_rune_def split: if_splits)
  next
    case (Cons q qs')
    have "r = q \<and> concat (map utf16_rune rs) = concat (map utf16_rune qs')"
      using Cons.prems Cons by (intro utf16_rune_eq) simp_all
    then show ?thesis using Cons.IH [of qs'] Cons.prems Cons by simp
  qed
qed

lemma codes_inject: "codes s = codes t \<Longrightarrow> s = t"
proof -
  have "inj (of_char :: char \<Rightarrow> nat)" by (rule injI) simp
  then show "codes s = codes t \<Longrightarrow> s = t" unfolding codes_def by (simp add: inj_map_eq_map)
qed

lemma utf16_inject: "ValidString s \<Longrightarrow> ValidString t \<Longrightarrow> utf16 s = utf16 t \<Longrightarrow> s = t"
proof -
  assume v: "ValidString s" "ValidString t" and u: "utf16 s = utf16 t"
  have c: "concat (map encode_rune (runes s)) = codes s" "list_all scalar (runes s)"
    "concat (map encode_rune (runes t)) = codes t" "list_all scalar (runes t)"
    using v valid_runes by (simp_all add: ValidString_def runes_def)
  have "runes s = runes t" using utf16_runes_inject [OF _ c(2,4)] u by (simp add: utf16_def)
  then have "codes s = codes t" using c(1,3) by simp
  then show "s = t" by (rule codes_inject)
qed

text \<open>ASCII strings are valid, each character its own rune.\<close>

lemma ascii_codes:
  "list_all (\<lambda>b. b < 0x80) bs \<Longrightarrow> valid_codes bs \<and> runes_of bs = bs"
proof (induction bs)
  case Nil
  then show ?case by (simp add: valid_codes.simps runes_of.simps)
next
  case (Cons b bs)
  then have "decode_rune (b # bs) = Some (b, 1)" by (simp add: decode_rune.simps(2))
  then show ?case using Cons by (simp add: valid_codes.simps [of "b # bs"] runes_of.simps [of "b # bs"])
qed

definition ascii :: "string \<Rightarrow> bool" where
  "ascii s \<longleftrightarrow> list_all (\<lambda>c. of_char c < (0x80 :: nat)) s"

lemma ascii_valid: "ascii s \<Longrightarrow> ValidString s" and ascii_runes: "ascii s \<Longrightarrow> runes s = codes s"
  using ascii_codes [of "codes s"] by (simp_all add: ascii_def ValidString_def runes_def codes_def list_all_iff)

end
