(* ===== verification/Json.thy ===== *)
theory Json
  imports Utf8 Float64
begin

text \<open>
  JSON documents of the protocol: the strict parser both sides have over \<open>encoding/json\<close>'s token
  stream, and RFC 8785 canonicalisation (\<open>relay/internal/link/jcs.go\<close> and its copy
  \<open>client-go/jcs.go\<close>). A decoded value is a tree of type \<open>json\<close>; an object is the list of its
  members, in any order. The decoder of \<open>encoding/json\<close> is a parameter: the tokens it yields for a
  text, and whether they end at the end of the text (\<open>True\<close>) or in an error. Errors are \<open>None\<close>.
\<close>

section \<open>Values and numbers\<close>

text \<open>\<open>JNum\<close> is a \<open>json.Number\<close> (the literal), \<open>JInt\<close> a Go \<open>int64\<close> put in a tree by the client.\<close>

datatype json = JNull | JBool bool | JStr string | JNum string | JInt int | JArr "json list" | JObj "(string \<times> json) list"

definition is_digit :: "char \<Rightarrow> bool" where
  "is_digit c \<longleftrightarrow> 48 \<le> (of_char c :: nat) \<and> of_char c \<le> (57 :: nat)"

definition digit_val :: "char \<Rightarrow> nat" where
  "digit_val c = of_char c - 48"

definition dec_val :: "string \<Rightarrow> nat" where
  "dec_val ds = undigits 10 (map digit_val ds)"

text \<open>
  A JSON number literal in its parts: sign, integer digits (no leading zero), fraction digits,
  exponent. \<open>None\<close> for text that is not one.
\<close>

definition starts :: "string \<Rightarrow> char \<Rightarrow> bool" where
  "starts s c \<longleftrightarrow> s \<noteq> [] \<and> hd s = c"

text \<open>A leading sign, if any: whether it is a minus, and the rest.\<close>

definition cut_sign :: "string \<Rightarrow> bool \<times> string" where
  "cut_sign s = (if starts s (CHR ''-'') then (True, tl s) else if starts s (CHR ''+'') then (False, tl s) else (False, s))"

definition split_exp :: "string \<Rightarrow> int option" where
  "split_exp s =
     (if s = [] then Some 0
      else if starts s (CHR ''e'') \<or> starts s (CHR ''E'')
      then let (neg, ds) = cut_sign (tl s)
           in if ds = [] \<or> \<not> list_all is_digit ds then None
              else Some (if neg then - int (dec_val ds) else int (dec_val ds))
      else None)"

definition split_number :: "string \<Rightarrow> (bool \<times> string \<times> string \<times> int) option" where
  "split_number s =
     (let neg = starts s (CHR ''-''); s1 = (if neg then tl s else s);
          ip = takeWhile is_digit s1; r1 = dropWhile is_digit s1
      in if ip = [] \<or> (hd ip = CHR ''0'' \<and> tl ip \<noteq> []) then None
         else if starts r1 (CHR ''.'')
         then let fp = takeWhile is_digit (tl r1); r3 = dropWhile is_digit (tl r1)
              in if fp = [] then None else map_option (\<lambda>e. (neg, ip, fp, e)) (split_exp r3)
         else map_option (\<lambda>e. (neg, ip, [], e)) (split_exp r1))"

definition is_number :: "string \<Rightarrow> bool" where
  "is_number s \<longleftrightarrow> split_number s \<noteq> None"

definition number_value :: "bool \<times> string \<times> string \<times> int \<Rightarrow> rat" where
  "number_value p =
     (let (neg, ip, fp, e) = p; v = of_nat (dec_val (ip @ fp)) * 10 powi (e - int (length fp))
      in if neg then - v else v)"

text \<open>
  \<open>strconv.ParseFloat\<close>: the nearest double and whether there was an error. Beyond the largest
  double it gives infinity and an error. Text that is not a literal gives 0 and an error; the
  decoder yields literals only.
\<close>

datatype go_float = Fin rat | Infinite

definition ParseFloat :: "string \<Rightarrow> go_float \<times> bool" where
  "ParseFloat s =
     (case split_number s of
        None \<Rightarrow> (Fin 0, True)
      | Some p \<Rightarrow> let f = f64 (number_value p) in if \<bar>f\<bar> \<ge> 2 ^ 1024 then (Infinite, True) else (Fin f, False))"

section \<open>Parsing\<close>

datatype token = TDelim char | TStr string | TNum string | TBool bool | TNull

text \<open>
  The value at the front of the tokens and what is left, for a test of numbers to refuse and of
  a depth to refuse. \<open>parse_members\<close> and \<open>parse_elems\<close> are the loops over \<open>dec.More()\<close>: when the next
  token closes the object or array they take it and stop. A stream that ends early is an error.
\<close>

function (sequential)
  parse_value :: "(string \<Rightarrow> bool) \<Rightarrow> (nat \<Rightarrow> bool) \<Rightarrow> nat \<Rightarrow> token list \<Rightarrow> (json \<times> token list) option" and
  parse_members :: "(string \<Rightarrow> bool) \<Rightarrow> (nat \<Rightarrow> bool) \<Rightarrow> nat \<Rightarrow> (string \<times> json) list \<Rightarrow> token list \<Rightarrow> (json \<times> token list) option" and
  parse_elems :: "(string \<Rightarrow> bool) \<Rightarrow> (nat \<Rightarrow> bool) \<Rightarrow> nat \<Rightarrow> json list \<Rightarrow> token list \<Rightarrow> (json \<times> token list) option" where
  "parse_value bad deep d [] = None"
| "parse_value bad deep d (TDelim c # ts) =
     (if deep d then None
      else if c = CHR ''{'' then parse_members bad deep d [] ts
      else if c = CHR ''['' then parse_elems bad deep d [] ts
      else None)"
| "parse_value bad deep d (TNum s # ts) = (if bad s then None else Some (JNum s, ts))"
| "parse_value bad deep d (TStr s # ts) = Some (JStr s, ts)"
| "parse_value bad deep d (TBool b # ts) = Some (JBool b, ts)"
| "parse_value bad deep d (TNull # ts) = Some (JNull, ts)"
| "parse_members bad deep d m (TDelim c # ts) = (if c = CHR ''}'' then Some (JObj m, ts) else None)"
| "parse_members bad deep d m (TStr k # ts) =
     (if map_of m k \<noteq> None then None
      else case parse_value bad deep (Suc d) ts of
        None \<Rightarrow> None
      | Some (v, rest) \<Rightarrow> parse_members bad deep d (m @ [(k, v)]) rest)"
| "parse_members bad deep d m _ = None"
| "parse_elems bad deep d a ts =
     (case ts of
        [] \<Rightarrow> None
      | t # ts' \<Rightarrow>
          if t = TDelim (CHR '']'') then Some (JArr a, ts')
          else case parse_value bad deep (Suc d) ts of
            None \<Rightarrow> None
          | Some (v, rest) \<Rightarrow> parse_elems bad deep d (a @ [v]) rest)"
  by pat_completeness auto

lemma parse_shorter:
  "parse_value_parse_members_parse_elems_dom (Inl (bad, deep, d, ts)) \<Longrightarrow> parse_value bad deep d ts = Some (v, rest) \<Longrightarrow> length rest < length ts"
  "parse_value_parse_members_parse_elems_dom (Inr (Inl (bad, deep, d, m, ts))) \<Longrightarrow> parse_members bad deep d m ts = Some (v, rest) \<Longrightarrow> length rest < length ts"
  "parse_value_parse_members_parse_elems_dom (Inr (Inr (bad, deep, d, a, ts))) \<Longrightarrow> parse_elems bad deep d a ts = Some (v, rest) \<Longrightarrow> length rest < length ts"
proof (induction bad deep d ts and bad deep d m ts and bad deep d a ts arbitrary: v rest and v rest and v rest
    rule: parse_value_parse_members_parse_elems.pinduct)
  case (8 bad deep d m k ts)
  then show ?case by (auto simp: parse_members.psimps split: if_splits option.splits) fastforce
next
  case (10 bad deep d a ts)
  then show ?case by (auto simp: parse_elems.psimps split: if_splits option.splits list.splits) fastforce+
qed (auto simp: parse_value.psimps parse_members.psimps split: if_splits)

termination parse_value
  by (relation "measure (\<lambda>x. case x of Inl (bad, deep, d, ts) \<Rightarrow> 2 * length ts | Inr (Inl (bad, deep, d, m, ts)) \<Rightarrow> 2 * length ts
        | Inr (Inr (bad, deep, d, a, ts)) \<Rightarrow> 2 * length ts + 1)")
     (auto dest!: parse_shorter)

text \<open>
  A \<open>\uXXXX\<close> escape of half a surrogate pair, refused by both sides before the decoder runs. The
  two scans stop at different places on a malformed escape, which the decoder refuses.
\<close>

definition hex_val :: "nat \<Rightarrow> nat option" where
  "hex_val c =
     (if 48 \<le> c \<and> c \<le> 57 then Some (c - 48) else if 97 \<le> c \<and> c \<le> 102 then Some (c - 87)
      else if 65 \<le> c \<and> c \<le> 70 then Some (c - 55) else None)"

definition hex4 :: "nat list \<Rightarrow> nat option" where
  "hex4 bs = (if length bs < 4 then None else map_option (undigits 16) (those_list (map hex_val (take 4 bs))))"

definition escapedUnit :: "nat list \<Rightarrow> nat option" where
  "escapedUnit bs = (if length bs < 6 \<or> bs ! 0 \<noteq> 92 \<or> bs ! 1 \<noteq> 117 then None else hex4 (drop 2 bs))"

text \<open>The relay's scan: \<open>True\<close> when a lone surrogate is found; the argument tells if inside a string.\<close>

fun checkSurrogateEscapes :: "bool \<Rightarrow> nat list \<Rightarrow> bool" where
  "checkSurrogateEscapes inString [] = False"
| "checkSurrogateEscapes inString (c # ds) =
     (if \<not> inString then checkSurrogateEscapes (c = 34) ds
      else if c = 34 then checkSurrogateEscapes False ds
      else if c = 92
      then (case escapedUnit (c # ds) of
              None \<Rightarrow> checkSurrogateEscapes True (drop 1 ds)
            | Some r \<Rightarrow>
                if 0xd800 \<le> r \<and> r < 0xdc00
                then (case escapedUnit (drop 5 ds) of
                        None \<Rightarrow> True
                      | Some low \<Rightarrow> if low < 0xdc00 \<or> low > 0xdfff then True else checkSurrogateEscapes True (drop 11 ds))
                else if 0xdc00 \<le> r \<and> r \<le> 0xdfff then True
                else checkSurrogateEscapes True (drop 5 ds))
      else checkSurrogateEscapes True ds)"

text \<open>The client's.\<close>

fun checkSurrogates :: "bool \<Rightarrow> nat list \<Rightarrow> bool" where
  "checkSurrogates inString [] = False"
| "checkSurrogates inString (c # ds) =
     (if \<not> inString then checkSurrogates (c = 34) ds
      else if c = 34 then checkSurrogates False ds
      else if c = 92
      then if ds = [] then False
           else if hd ds \<noteq> 117 then checkSurrogates True (drop 1 ds)
           else (case hex4 (drop 1 ds) of
                   None \<Rightarrow> False
                 | Some u \<Rightarrow>
                     if 0xd800 \<le> u \<and> u \<le> 0xdbff
                     then (case (if length ds \<ge> 11 \<and> ds ! 5 = 92 \<and> ds ! 6 = 117 then hex4 (drop 7 ds) else None) of
                             None \<Rightarrow> True
                           | Some lo \<Rightarrow> if lo < 0xdc00 \<or> lo > 0xdfff then True else checkSurrogates True (drop 11 ds))
                     else if 0xdc00 \<le> u \<and> u \<le> 0xdfff then True
                     else checkSurrogates True (drop 5 ds))
      else checkSurrogates True ds)"

text \<open>
  The grammar of JSON strings (RFC 8259, which \<open>encoding/json\<close> implements) as far as \<open>\u\<close> escapes go:
  every \<open>\u\<close> in a string is followed by four hexadecimal digits. Whether those name a surrogate, and
  whether a surrogate has its other half, is of no matter here: \<open>encoding/json\<close> takes a lone one too.
\<close>

fun escapes_ok :: "bool \<Rightarrow> nat list \<Rightarrow> bool" where
  "escapes_ok inString [] = True"
| "escapes_ok inString (c # ds) =
     (if \<not> inString then escapes_ok (c = 34) ds
      else if c = 34 then escapes_ok False ds
      else if c = 92
      then if ds \<noteq> [] \<and> hd ds = 117 then hex4 (drop 1 ds) \<noteq> None \<and> escapes_ok True (drop 5 ds)
           else escapes_ok True (drop 1 ds)
      else escapes_ok True ds)"

definition MaxJSONDepth :: nat where "MaxJSONDepth = 32"

text \<open>The relay's \<open>ParseJSON\<close> and the client's \<open>parseJSON\<close>, over the decoder's tokens.\<close>

definition ParseJSON :: "(string \<Rightarrow> token list \<times> bool) \<Rightarrow> string \<Rightarrow> json option" where
  "ParseJSON dec data =
     (if \<not> ValidString data then None
      else if checkSurrogateEscapes False (codes data) then None
      else let (ts, eof) = dec data;
               bad = (\<lambda>t. snd (ParseFloat t) \<or> fst (ParseFloat t) = Infinite)
           in case parse_value bad (\<lambda>d. d \<ge> MaxJSONDepth) 0 ts of
                None \<Rightarrow> None
              | Some (v, rest) \<Rightarrow> if rest = [] \<and> eof then Some v else None)"

definition parseJSON :: "(string \<Rightarrow> token list \<times> bool) \<Rightarrow> string \<Rightarrow> json option" where
  "parseJSON dec data =
     (if \<not> ValidString data then None
      else if checkSurrogates False (codes data) then None
      else let (ts, eof) = dec data;
               bad = (\<lambda>t. snd (ParseFloat t) \<and> fst (ParseFloat t) = Infinite)
           in case parse_value bad (\<lambda>depth. depth > 32) 1 ts of
                None \<Rightarrow> None
              | Some (v, rest) \<Rightarrow> if rest = [] \<and> eof then Some v else None)"

section \<open>Canonical form\<close>

definition hex_char :: "nat \<Rightarrow> char" where
  "hex_char n = ''0123456789abcdef'' ! n"

definition jcs_char :: "char \<Rightarrow> string" where
  "jcs_char c =
     (let n = of_char c :: nat
      in if n = 0x22 \<or> n = 0x5c then [CHR 0x5c, c]
         else if n = 0x08 then [CHR 0x5c, CHR ''b''] else if n = 0x09 then [CHR 0x5c, CHR ''t'']
         else if n = 0x0a then [CHR 0x5c, CHR ''n''] else if n = 0x0c then [CHR 0x5c, CHR ''f'']
         else if n = 0x0d then [CHR 0x5c, CHR ''r'']
         else if n < 0x20 then [CHR 0x5c, CHR ''u'', CHR ''0'', CHR ''0'', hex_char (n div 16), hex_char (n mod 16)]
         else [c])"

definition appendJCSString :: "string \<Rightarrow> string option" where
  "appendJCSString s =
     (if \<not> ValidString s then None else Some (CHR 0x22 # concat (map jcs_char s) @ [CHR 0x22]))"

text \<open>Decimal digits, as \<open>strconv.FormatInt\<close> writes them.\<close>

fun dec_digits :: "nat \<Rightarrow> string" where
  "dec_digits n = (if n < 10 then [char_of (48 + n)] else dec_digits (n div 10) @ [char_of (48 + n mod 10)])"

declare dec_digits.simps [simp del]

definition FormatInt :: "int \<Rightarrow> string" where
  "FormatInt i = (if i < 0 then CHR ''-'' # dec_digits (nat (- i)) else dec_digits (nat i))"

text \<open>
  \<open>strconv.FormatFloat(f, 'e', -1, 64)\<close> of a positive double: the shortest digits that read back
  as it, the closest to it among those, and the decimal exponent.
\<close>

definition ilog10 :: "rat \<Rightarrow> int" where
  "ilog10 x =
     (let (p, q) = quotient_of x;
          k = int (length (dec_digits (nat p))) - int (length (dec_digits (nat q)))
      in if 10 powi k \<le> x then k else k - 1)"

definition digits_at :: "rat \<Rightarrow> int \<Rightarrow> nat \<Rightarrow> int option" where
  "digits_at f e k =
     (let u = 10 powi (e - int k + 1); m = \<lfloor>f / u\<rfloor>; ok = (\<lambda>m. f64 (of_int m * u) = f)
      in if ok m \<and> ok (m + 1) then Some (if f - of_int m * u \<le> of_int (m + 1) * u - f then m else m + 1)
         else if ok m then Some m else if ok (m + 1) then Some (m + 1) else None)"

definition strip_zeros :: "string \<Rightarrow> string" where
  "strip_zeros ds = rev (dropWhile (\<lambda>c. c = CHR ''0'') (rev ds))"

definition shortest :: "rat \<Rightarrow> string \<times> int" where
  "shortest f =
     (let e = ilog10 f
      in case List.map_filter (\<lambda>k. map_option (\<lambda>m. (k, m)) (digits_at f e k)) [1..<18] of
           [] \<Rightarrow> ([], 0)
         | (k, m) # _ \<Rightarrow> (let ds = dec_digits (nat m) in (strip_zeros ds, e + int (length ds) - int k)))"

definition appendJCSNumber :: "go_float \<Rightarrow> string option" where
  "appendJCSNumber g =
     (case g of
        Infinite \<Rightarrow> None
      | Fin f \<Rightarrow>
          if f = 0 then Some ''0''
          else let sign = (if f < 0 then ''-'' else []);
                   (digits, exp) = shortest \<bar>f\<bar>;
                   k = int (length digits); n = exp + 1
               in Some (sign @
                   (if k \<le> n \<and> n \<le> 21 then digits @ replicate (nat (n - k)) (CHR ''0'')
                    else if 0 < n \<and> n \<le> 21 then take (nat n) digits @ ''.'' @ drop (nat n) digits
                    else if - 6 < n \<and> n \<le> 0 then ''0.'' @ replicate (nat (- n)) (CHR ''0'') @ digits
                    else take 1 digits @ (if k > 1 then ''.'' @ drop 1 digits else []) @ ''e'' @
                         (if n - 1 \<ge> 0 then ''+'' else []) @ FormatInt (n - 1))))"

fun comma_join :: "string list \<Rightarrow> string" where
  "comma_join [] = []"
| "comma_join [x] = x"
| "comma_join (x # y # xs) = x @ '','' @ comma_join (y # xs)"

definition member_text :: "string \<times> string option \<Rightarrow> string option" where
  "member_text p = (case (appendJCSString (fst p), snd p) of (Some k, Some v) \<Rightarrow> Some (k @ '':'' @ v) | _ \<Rightarrow> None)"

text \<open>
  \<open>Canonicalize\<close>: members in the order of the UTF-16 units of their names (\<open>compareUTF16\<close>). Names of
  an object are distinct.
\<close>

fun appendJCS :: "json \<Rightarrow> string option" where
  "appendJCS JNull = Some ''null''"
| "appendJCS (JBool b) = Some (if b then ''true'' else ''false'')"
| "appendJCS (JStr s) = appendJCSString s"
| "appendJCS (JNum s) = (case ParseFloat s of (f, err) \<Rightarrow> if err then None else appendJCSNumber f)"
| "appendJCS (JInt i) = appendJCSNumber (Fin (f64 (of_int i)))"
| "appendJCS (JArr xs) = map_option (\<lambda>ys. ''['' @ comma_join ys @ '']'') (those_list (map appendJCS xs))"
| "appendJCS (JObj m) =
     map_option (\<lambda>ys. ''{'' @ comma_join ys @ ''}'')
       (those_list (map member_text (sort_key (\<lambda>p. utf16 (fst p)) (map (\<lambda>(k, v). (k, appendJCS v)) m))))"

end
