(* ===== verification/Json_Properties.thy ===== *)
theory Json_Properties
  imports Json "HOL-Library.Multiset"
begin

text \<open>
  What the two JSON codecs promise: the parsers accept exactly the documents with distinct names, at
  most 32 arrays and objects open at once, and numbers in range, whole; the relay and the client
  accept the same texts; the canonical form does not depend on the order of names, and an integer is
  written in decimal digits however it was held.
\<close>

section \<open>What the parser accepts\<close>

text \<open>The tokens of a value, and the documents a parser accepts below \<open>d\<close> open arrays and objects.\<close>

fun tokens_of :: "json \<Rightarrow> token list" where
  "tokens_of JNull = [TNull]"
| "tokens_of (JBool b) = [TBool b]"
| "tokens_of (JStr s) = [TStr s]"
| "tokens_of (JNum s) = [TNum s]"
| "tokens_of (JInt i) = []"
| "tokens_of (JArr xs) = TDelim (CHR ''['') # concat (map tokens_of xs) @ [TDelim (CHR '']'')]"
| "tokens_of (JObj m) = TDelim (CHR ''{'') # concat (map (\<lambda>(k, v). TStr k # tokens_of v) m) @ [TDelim (CHR ''}'')]"

fun acceptable :: "(string \<Rightarrow> bool) \<Rightarrow> (nat \<Rightarrow> bool) \<Rightarrow> nat \<Rightarrow> json \<Rightarrow> bool" where
  "acceptable bad deep d (JNum s) = (\<not> bad s)"
| "acceptable bad deep d (JInt i) = False"
| "acceptable bad deep d (JArr xs) = (\<not> deep d \<and> list_all (acceptable bad deep (Suc d)) xs)"
| "acceptable bad deep d (JObj m) =
     (\<not> deep d \<and> distinct (map fst m) \<and> list_all (\<lambda>(k, v). acceptable bad deep (Suc d) v) m)"
| "acceptable bad deep d _ = True"

abbreviation member_tokens :: "(string \<times> json) list \<Rightarrow> token list" where
  "member_tokens m \<equiv> concat (map (\<lambda>(k, v). TStr k # tokens_of v) m)"

lemma parse_sound:
  "parse_value bad deep d ts = Some (v, rest) \<Longrightarrow> ts = tokens_of v @ rest \<and> acceptable bad deep d v"
  "parse_members bad deep d m ts = Some (v, rest) \<Longrightarrow> distinct (map fst m) \<Longrightarrow>
     \<exists>m'. v = JObj (m @ m') \<and> ts = member_tokens m' @ TDelim (CHR ''}'') # rest \<and> distinct (map fst (m @ m'))
       \<and> list_all (\<lambda>(k, v). acceptable bad deep (Suc d) v) m'"
  "parse_elems bad deep d a ts = Some (v, rest) \<Longrightarrow>
     \<exists>a'. v = JArr (a @ a') \<and> ts = concat (map tokens_of a') @ TDelim (CHR '']'') # rest \<and> list_all (acceptable bad deep (Suc d)) a'"
proof (induction bad deep d ts and bad deep d m ts and bad deep d a ts arbitrary: v rest and v rest and v rest
    rule: parse_value_parse_members_parse_elems.induct)
  case (2 bad deep d c ts)
  then show ?case by (auto split: if_splits)
next
  case (8 bad deep d m k ts)
  have k: "map_of m k = None" using 8(3) by (auto split: if_splits)
  then obtain x mid where x: "map_of m k = None" "parse_value bad deep (Suc d) ts = Some (x, mid)"
      "parse_members bad deep d (m @ [(k, x)]) mid = Some (v, rest)"
    using 8(3) by (cases "parse_value bad deep (Suc d) ts") (simp_all split: prod.splits)
  then have "distinct (map fst (m @ [(k, x)]))" using 8(4) by (auto simp: map_of_eq_None_iff)
  then obtain m' where "v = JObj ((m @ [(k, x)]) @ m')" "mid = member_tokens m' @ TDelim (CHR ''}'') # rest"
      "distinct (map fst ((m @ [(k, x)]) @ m'))" "list_all (\<lambda>(k, v). acceptable bad deep (Suc d) v) m'"
    using 8(2) [OF _ x(2) refl x(3)] x(1) by blast
  moreover have "ts = tokens_of x @ mid \<and> acceptable bad deep (Suc d) x" using 8(1) x(1,2) by simp
  ultimately show ?case by (intro exI [of _ "(k, x) # m'"]) simp
next
  case (10 bad deep d a ts)
  then obtain t ts' where ts: "ts = t # ts'" by (cases ts) auto
  show ?case
  proof (cases "t = TDelim (CHR '']'')")
    case True
    then show ?thesis using 10(3) by (auto simp: ts parse_elems.simps)
  next
    case False
    then obtain x mid where x: "parse_value bad deep (Suc d) ts = Some (x, mid)" "parse_elems bad deep d (a @ [x]) mid = Some (v, rest)"
      using 10(3) by (auto simp: ts parse_elems.simps [of _ _ _ _ "_ # _"] split: option.splits)
    obtain a' where "v = JArr ((a @ [x]) @ a')" "mid = concat (map tokens_of a') @ TDelim (CHR '']'') # rest" "list_all (acceptable bad deep (Suc d)) a'"
      using 10(2) [OF ts False x(1) refl x(2)] by blast
    moreover have "ts = tokens_of x @ mid \<and> acceptable bad deep (Suc d) x" using 10(1) [OF ts False x(1)] .
    ultimately show ?thesis by (intro exI [of _ "x # a'"]) simp
  qed
qed (auto split: if_splits)

lemma tokens_start: "acceptable bad deep d v \<Longrightarrow> \<exists>t ts. tokens_of v = t # ts \<and> t \<noteq> TDelim (CHR '']'')"
  by (cases v) auto

declare parse_elems.simps [simp del]

lemma parse_elems_complete:
  assumes "\<And>x r. x \<in> set xs \<Longrightarrow> parse_value bad deep (Suc d) (tokens_of x @ r) = Some (x, r)"
    and "list_all (acceptable bad deep (Suc d)) xs"
  shows "parse_elems bad deep d a (concat (map tokens_of xs) @ TDelim (CHR '']'') # rest) = Some (JArr (a @ xs), rest)"
  using assms
proof (induction xs arbitrary: a)
  case Nil
  then show ?case by (simp add: parse_elems.simps)
next
  case (Cons x xs)
  let ?ts = "tokens_of x @ concat (map tokens_of xs) @ TDelim (CHR '']'') # rest"
  obtain t ts where t: "tokens_of x = t # ts" "t \<noteq> TDelim (CHR '']'')" using tokens_start Cons.prems(2) by fastforce
  have "parse_elems bad deep d a ?ts = parse_elems bad deep d (a @ [x]) (concat (map tokens_of xs) @ TDelim (CHR '']'') # rest)"
    using Cons.prems(1) [of x] t by (simp add: parse_elems.simps [of _ _ _ _ "_ # _"])
  then show ?case using Cons.IH [of "a @ [x]"] Cons.prems by simp
qed

lemma parse_members_complete:
  assumes "\<And>k x r. (k, x) \<in> set m' \<Longrightarrow> parse_value bad deep (Suc d) (tokens_of x @ r) = Some (x, r)"
    and "distinct (map fst (m @ m'))"
  shows "parse_members bad deep d m (member_tokens m' @ TDelim (CHR ''}'') # rest) = Some (JObj (m @ m'), rest)"
  using assms
proof (induction m' arbitrary: m)
  case Nil
  then show ?case by simp
next
  case (Cons p m')
  obtain k x where p: "p = (k, x)" by fastforce
  have k: "map_of m k = None" using Cons.prems(2) p by (auto simp: map_of_eq_None_iff)
  have d: "distinct (map fst ((m @ [(k, x)]) @ m'))" using Cons.prems(2) p by simp
  have IH: "parse_members bad deep d (m @ [(k, x)]) (member_tokens m' @ TDelim (CHR ''}'') # rest) = Some (JObj ((m @ [(k, x)]) @ m'), rest)"
    using Cons.IH [OF _ d] Cons.prems(1) by auto
  have "parse_value bad deep (Suc d) (tokens_of x @ r) = Some (x, r)" for r using Cons.prems(1) p by auto
  then show ?case using k IH by (simp add: p)
qed

lemma parse_complete: "acceptable bad deep d v \<Longrightarrow> parse_value bad deep d (tokens_of v @ rest) = Some (v, rest)"
proof (induction v arbitrary: d rest)
  case (JArr xs)
  then have "parse_value bad deep (Suc d) (tokens_of x @ r) = Some (x, r)" if "x \<in> set xs" for x r
    using that by (auto simp: list_all_iff)
  then show ?case using parse_elems_complete [of xs bad deep d "[]" rest] JArr.prems by simp
next
  case (JObj m)
  then have "parse_value bad deep (Suc d) (tokens_of x @ r) = Some (x, r)" if "(k, x) \<in> set m" for k x r
    using that by (fastforce simp: list_all_iff)
  then show ?case using parse_members_complete [of m bad deep d "[]" rest] JObj.prems by simp
qed auto

lemma parse_exact: "parse_value bad deep d ts = Some (v, rest) \<longleftrightarrow> ts = tokens_of v @ rest \<and> acceptable bad deep d v"
  using parse_sound(1) parse_complete by blast

section \<open>The two parsers agree\<close>

lemma parse_rest: "parse_value bad deep d ts = Some (v, rest) \<Longrightarrow> set rest \<subseteq> set ts"
  using parse_sound(1) by fastforce

lemma parse_cong:
  "(\<And>k. deep (d + k) = deep' (d' + k)) \<Longrightarrow> (\<And>s. TNum s \<in> set ts \<Longrightarrow> bad s = bad' s) \<Longrightarrow>
     parse_value bad deep d ts = parse_value bad' deep' d' ts"
  "(\<And>k. deep (d + k) = deep' (d' + k)) \<Longrightarrow> (\<And>s. TNum s \<in> set ts \<Longrightarrow> bad s = bad' s) \<Longrightarrow>
     parse_members bad deep d m ts = parse_members bad' deep' d' m ts"
  "(\<And>k. deep (d + k) = deep' (d' + k)) \<Longrightarrow> (\<And>s. TNum s \<in> set ts \<Longrightarrow> bad s = bad' s) \<Longrightarrow>
     parse_elems bad deep d a ts = parse_elems bad' deep' d' a ts"
proof (induction bad deep d ts and bad deep d m ts and bad deep d a ts arbitrary: d' and d' and d'
    rule: parse_value_parse_members_parse_elems.induct)
  case (2 bad deep d c ts)
  have "deep d = deep' d'" using 2(3) [of 0] by simp
  moreover have "parse_members bad deep d [] ts = parse_members bad' deep' d' [] ts" if "\<not> deep d" "c = CHR ''{''"
    using 2(1) [OF that] 2(3,4) by simp
  moreover have "parse_elems bad deep d [] ts = parse_elems bad' deep' d' [] ts" if "\<not> deep d" "c \<noteq> CHR ''{''" "c = CHR ''[''"
    using 2(2) [OF that] 2(3,4) by simp
  ultimately show ?case by simp
next
  case (8 bad deep d m k ts)
  have shift: "deep (Suc d + k) = deep' (Suc d' + k)" for k using 8(3) [of "Suc k"] by simp
  show ?case
  proof (cases "map_of m k")
    case None
    then have eq: "parse_value bad deep (Suc d) ts = parse_value bad' deep' (Suc d') ts"
      using 8(1) [of "Suc d'"] shift 8(4) by simp
    show ?thesis
    proof (cases "parse_value bad deep (Suc d) ts")
      case None
      then show ?thesis using eq by simp
    next
      case (Some p)
      obtain x mid where p: "p = (x, mid)" by fastforce
      have "parse_members bad deep d (m @ [(k, x)]) mid = parse_members bad' deep' d' (m @ [(k, x)]) mid"
        using 8(2) [OF _ Some p [symmetric]] \<open>map_of m k = None\<close> 8(3,4) parse_rest Some p by fastforce
      then show ?thesis using Some p eq by simp
    qed
  qed simp
next
  case (10 bad deep d a ts)
  have shift: "deep (Suc d + k) = deep' (Suc d' + k)" for k using 10(3) [of "Suc k"] by simp
  show ?case
  proof (cases ts)
    case Nil
    then show ?thesis by (simp add: parse_elems.simps)
  next
    case (Cons t ts')
    show ?thesis
    proof (cases "t = TDelim (CHR '']'')")
      case True
      then show ?thesis by (simp add: Cons parse_elems.simps [of _ _ _ _ "_ # _"])
    next
      case False
      then have eq: "parse_value bad deep (Suc d) ts = parse_value bad' deep' (Suc d') ts"
        using 10(1) [OF Cons False, of "Suc d'"] shift 10(4) by simp
      show ?thesis
      proof (cases "parse_value bad deep (Suc d) ts")
        case None
        then show ?thesis using eq False by (simp add: Cons parse_elems.simps [of _ _ _ _ "_ # _"])
      next
        case (Some p)
        obtain x mid where p: "p = (x, mid)" by fastforce
        have "parse_elems bad deep d (a @ [x]) mid = parse_elems bad' deep' d' (a @ [x]) mid"
          using 10(2) [OF Cons False Some p [symmetric]] 10(3,4) parse_rest Some p by fastforce
        moreover have "parse_value bad deep (Suc d) (t # ts') = Some (x, mid)" "parse_value bad' deep' (Suc d') (t # ts') = Some (x, mid)"
          using Some p eq Cons by simp_all
        ultimately show ?thesis using False by (simp add: Cons parse_elems.simps [of _ _ _ _ "_ # _"])
      qed
    qed
  qed
next
  case (3 bad deep d s ts)
  then show ?case by simp
qed auto

text \<open>The scans for lone surrogates give the same answer unless an escape is malformed.\<close>

lemma escapedUnit_hex4: "escapedUnit (92 # 117 # ds) = hex4 ds"
  by (auto simp: escapedUnit_def hex4_def)

lemma escapedUnit_other: "ds = [] \<or> hd ds \<noteq> 117 \<Longrightarrow> escapedUnit (92 # ds) = None"
  by (cases ds) (auto simp: escapedUnit_def)

lemma escapedUnit_drop5:
  "escapedUnit (drop 5 ds) = (if length ds \<ge> 11 \<and> ds ! 5 = 92 \<and> ds ! 6 = 117 then hex4 (drop 7 ds) else None)"
  by (auto simp: escapedUnit_def)

text \<open>Past a well-formed second escape the text is well-formed again.\<close>

lemma escapes_ok_pair:
  assumes "escapes_ok True (drop 5 ds)" "escapedUnit (drop 5 ds) = Some low"
  shows "escapes_ok True (drop 11 ds)"
proof -
  obtain es where es: "drop 5 ds = 92 # 117 # es"
    using assms(2) by (cases "drop 5 ds"; cases "tl (drop 5 ds)") (auto simp: escapedUnit_def split: if_splits)
  have "drop 11 ds = drop 6 (drop 5 ds)" by simp
  also have "\<dots> = drop 4 es" by (simp only: es) simp
  finally have "drop 11 ds = drop 4 es" .
  then show ?thesis using assms(1) by (simp add: es)
qed

lemma surrogate_scans_agree: "escapes_ok b ds \<Longrightarrow> checkSurrogateEscapes b ds = checkSurrogates b ds"
proof (induction b ds rule: checkSurrogates.induct)
  case (1 b)
  then show ?case by simp
next
  case (2 b c ds)
  show ?case
  proof (cases "b \<and> c = 92 \<and> ds \<noteq> [] \<and> hd ds = 117")
    case False
    then show ?thesis using 2 escapedUnit_other [of ds] by (auto split: if_splits)
  next
    case True
    then obtain ds' where ds: "ds = 117 # ds'" by (cases ds) auto
    have u: "escapedUnit (c # ds) = hex4 (drop 1 ds)" using True by (simp add: ds escapedUnit_hex4)
    obtain r where r: "hex4 (drop 1 ds) = Some r" and ok: "escapes_ok True (drop 5 ds)" using 2(7) True by auto
    show ?thesis
      using True u r ok 2(4-6) escapedUnit_drop5 [of ds] escapes_ok_pair [OF ok] by (auto split: option.splits if_splits)
  qed
qed

lemma ParseFloat_number: "is_number s \<Longrightarrow> snd (ParseFloat s) \<longleftrightarrow> fst (ParseFloat s) = Infinite"
  by (auto simp: is_number_def ParseFloat_def Let_def split: if_splits)

lemma parse_same:
  assumes numbers: "\<And>data s. TNum s \<in> set (fst (dec data)) \<Longrightarrow> is_number s"
    and escapes: "\<And>data. \<not> escapes_ok False (codes data) \<Longrightarrow> \<not> snd (dec data)"
  shows "ParseJSON dec data = parseJSON dec data"
proof -
  obtain ts eof where dec: "dec data = (ts, eof)" by fastforce
  have "parse_value (\<lambda>t. snd (ParseFloat t) \<or> fst (ParseFloat t) = Infinite) (\<lambda>d. d \<ge> MaxJSONDepth) 0 ts
      = parse_value (\<lambda>t. snd (ParseFloat t) \<and> fst (ParseFloat t) = Infinite) (\<lambda>d. d > 32) 1 ts"
    using numbers [of _ data] dec by (intro parse_cong(1)) (auto simp: MaxJSONDepth_def ParseFloat_number)
  moreover have "checkSurrogateEscapes False (codes data) = checkSurrogates False (codes data)" if eof
    using surrogate_scans_agree escapes [of data] dec that by auto
  ultimately show ?thesis by (auto simp: ParseJSON_def parseJSON_def dec split: option.splits)
qed

text \<open>
  C34. The relay and the client read the same documents. For every text, the relay's parser and the
  client's give the same value or both refuse, though they count depth from different numbers,
  test numbers differently and stop at different places on a malformed escape. What this rests on
  of \<open>encoding/json\<close>: the numbers it yields are JSON literals, and it ends in an error on a text in
  which some \<open>\u\<close> of a string is not followed by four hexadecimal digits. A lone surrogate it takes.
\<close>

theorem parsers_agree:
  assumes numbers: "\<And>data s. TNum s \<in> set (fst (dec data)) \<Longrightarrow> is_number s"
    and escapes: "\<And>data. \<not> escapes_ok False (codes data) \<Longrightarrow> \<not> snd (dec data)"
  shows "ParseJSON dec data = parseJSON dec data"
  using assms by (rule parse_same)

theorem parsers_agree_witness:
  "ParseJSON (\<lambda>data. ([TNum ''7''], escapes_ok False (codes data))) ''7'' = parseJSON (\<lambda>data. ([TNum ''7''], escapes_ok False (codes data))) ''7''"
  by (rule parsers_agree) (auto simp: is_number_def split_number_def split_exp_def is_digit_def starts_def)

text \<open>
  The relay accepts exactly the documents of the protocol: valid UTF-8 with no escaped lone
  surrogate, whose tokens are those of one value and nothing more, with names distinct in every
  object, at most 32 arrays and objects open at once, and every number finite as a double.
\<close>

theorem ParseJSON_exact:
  "ParseJSON dec data = Some v \<longleftrightarrow>
     ValidString data \<and> \<not> checkSurrogateEscapes False (codes data) \<and> dec data = (tokens_of v, True)
     \<and> acceptable (\<lambda>t. snd (ParseFloat t) \<or> fst (ParseFloat t) = Infinite) (\<lambda>d. d \<ge> 32) 0 v"
proof -
  obtain ts eof where dec: "dec data = (ts, eof)" by fastforce
  have whole: "(case r of None \<Rightarrow> None | Some (v, rest) \<Rightarrow> if rest = [] \<and> eof then Some v else None) = Some v \<longleftrightarrow> r = Some (v, []) \<and> eof"
    for r :: "(json \<times> token list) option" by (auto split: option.splits)
  show ?thesis
    unfolding ParseJSON_def dec prod.case Let_def MaxJSONDepth_def
    using parse_exact [of _ _ 0 ts v "[]"] whole by auto
qed

section \<open>The canonical form\<close>

lemma those_list_None: "None \<in> set xs \<Longrightarrow> those_list xs = None"
  by (induction xs rule: those_list.induct) auto

text \<open>The order of names does not matter.\<close>

lemma member_texts_perm:
  assumes "mset m = mset m'" and "distinct (map fst m)"
  shows "those_list (map member_text (sort_key (\<lambda>p. utf16 (fst p)) m)) = those_list (map member_text (sort_key (\<lambda>p. utf16 (fst p)) m'))"
proof (cases "\<forall>p\<in>set m. ValidString (fst p)")
  case True
  have "inj_on (\<lambda>p. utf16 (fst p)) (set m)"
  proof (rule inj_onI)
    fix p q assume pq: "p \<in> set m" "q \<in> set m" "utf16 (fst p) = utf16 (fst q)"
    then have "fst p = fst q" using True utf16_inject by blast
    then show "p = q" using assms(2) pq(1,2) by (auto simp: distinct_map dest: inj_onD)
  qed
  moreover have "mset m = mset (sort_key (\<lambda>p. utf16 (fst p)) m')" "sorted (map (\<lambda>p. utf16 (fst p)) (sort_key (\<lambda>p. utf16 (fst p)) m'))"
    using assms(1) by (simp_all only: mset_sort sorted_sort_key)
  ultimately have "sort_key (\<lambda>p. utf16 (fst p)) m = sort_key (\<lambda>p. utf16 (fst p)) m'"
    by (intro sort_key_inj_key_eq)
  then show ?thesis by simp
next
  case False
  then obtain p where p: "p \<in> set m" "\<not> ValidString (fst p)" by blast
  then have "member_text p = None" by (simp add: member_text_def appendJCSString_def)
  moreover have "p \<in> set m'" using p assms(1) by (metis set_mset_mset)
  ultimately have "those_list (map member_text (sort_key (\<lambda>p. utf16 (fst p)) xs)) = None" if "xs = m \<or> xs = m'" for xs
    using p that by (intro those_list_None) force
  then show ?thesis by simp
qed

lemma appendJCS_perm:
  assumes "mset (map (\<lambda>(k, v). (k, appendJCS v)) m) = mset (map (\<lambda>(k, v). (k, appendJCS v)) m')" and "distinct (map fst m)"
  shows "appendJCS (JObj m) = appendJCS (JObj m')"
proof -
  have "distinct (map fst (map (\<lambda>(k, v). (k, appendJCS v)) m))" using assms(2) by (simp add: case_prod_beta comp_def)
  then show ?thesis using member_texts_perm [OF assms(1)] by simp
qed

section \<open>Integers are written in decimal\<close>

lemma char_zero: "char_of (48 :: nat) = CHR ''0''"
  by (simp add: char_of_def bit_iff_odd)

lemma dec_digits_small: "n < 10 \<Longrightarrow> dec_digits n = [char_of (48 + n)]"
  by (simp add: dec_digits.simps)

lemma dec_digits_snoc: "0 < m \<Longrightarrow> d < 10 \<Longrightarrow> dec_digits (m * 10 + d) = dec_digits m @ [char_of (48 + d)]"
  by (subst dec_digits.simps) simp

lemma dec_digits_length: "0 < n \<Longrightarrow> 10 ^ (length (dec_digits n) - 1) \<le> n \<and> n < 10 ^ length (dec_digits n) \<and> 0 < length (dec_digits n)"
proof (induction n rule: dec_digits.induct)
  case (1 n)
  show ?case
  proof (cases "n < 10")
    case True
    then show ?thesis using 1(2) by (simp add: dec_digits_small)
  next
    case False
    define q where "q = n div 10"
    define l where "l = length (dec_digits q)"
    have "10 ^ (l - 1) \<le> q \<and> q < 10 ^ l \<and> 0 < l" using 1(1) [OF False] False unfolding q_def l_def by simp
    then have "10 ^ l \<le> 10 * q" "10 * q + 10 \<le> 10 * 10 ^ l" "0 < l" by (cases l; simp)+
    moreover have "10 * q \<le> n" "n < 10 * q + 10" unfolding q_def by linarith+
    moreover have "length (dec_digits n) = Suc l" using False by (subst dec_digits.simps) (simp add: l_def q_def)
    ultimately show ?thesis by simp
  qed
qed

lemma dec_digits_power: "0 < m \<Longrightarrow> dec_digits (m * 10 ^ j) = dec_digits m @ replicate j (CHR ''0'')"
proof (induction j)
  case (Suc j)
  have "dec_digits (m * 10 ^ Suc j) = dec_digits (m * 10 ^ j * 10 + 0)" by (simp add: algebra_simps)
  also have "\<dots> = dec_digits (m * 10 ^ j) @ [CHR ''0'']" using Suc.prems dec_digits_snoc [of "m * 10 ^ j" 0] by (simp add: char_zero)
  finally show ?case using Suc by (simp add: replicate_append_same)
qed simp

lemma strip_zeros_dec: "\<not> 10 dvd m \<Longrightarrow> strip_zeros (dec_digits m) = dec_digits m"
proof -
  assume m: "\<not> 10 dvd m"
  have "\<exists>ds. dec_digits m = ds @ [char_of (48 + m mod 10)]"
    by (cases "m < 10") (simp add: dec_digits_small, subst dec_digits.simps, simp)
  then obtain ds where ds: "dec_digits m = ds @ [char_of (48 + m mod 10)]" by blast
  have "of_char (char_of (48 + m mod 10) :: char) = (48 + m mod 10)" by simp
  moreover have "of_char (CHR ''0'') = (48 :: nat)" by simp
  moreover have "0 < m mod 10" using m by (simp add: dvd_eq_mod_eq_0)
  ultimately have "char_of (48 + m mod 10) \<noteq> CHR ''0''" by (metis add_cancel_right_right less_irrefl)
  then show ?thesis by (simp add: strip_zeros_def ds)
qed

lemma digits_at_int:
  assumes "0 < n" "n < 2 ^ 53" "k \<le> e + 1"
  shows "digits_at (of_nat n) (int e) k = (if 10 ^ (e + 1 - k) dvd n then Some (int (n div 10 ^ (e + 1 - k))) else None)"
proof -
  define u where "u = (10 :: nat) ^ (e + 1 - k)"
  have u: "10 powi (int e - int k + 1) = (of_nat u :: rat)" "0 < u" using assms(3)
    by (simp_all add: u_def power_int_def nat_diff_distrib algebra_simps Suc_diff_le)
  have fl: "\<lfloor>of_nat n / (of_nat u :: rat)\<rfloor> = int (n div u)" by (simp add: floor_divide_of_nat_eq)
  have exact: "f64 (of_int (int m) * of_nat u) = of_nat n \<longleftrightarrow> m * u = n" for m
  proof (cases "m * u \<le> 2 ^ 53")
    case True
    then have "int (m * u) \<le> int (2 ^ 53)" by (simp only: of_nat_le_iff)
    then have "\<bar>int (m * u)\<bar> \<le> 2 ^ 53" by simp
    then have "f64 (of_int (int (m * u))) = of_int (int (m * u))" by (rule f64.rnd_int)
    then show ?thesis by (metis of_int_of_nat_eq of_nat_eq_iff of_nat_mult)
  next
    case False
    then have "int (2 ^ 53) \<le> int (m * u)" by (simp only: of_nat_le_iff)
    then have "of_int (2 ^ 53) \<le> (of_int (int (m * u)) :: rat)" by (subst of_int_le_iff) simp
    then have "of_int (2 ^ 53) \<le> f64 (of_int (int (m * u)))" by (intro f64.rnd_ge_int) simp_all
    moreover have "of_int (int n) < (of_int (2 ^ 53) :: rat)" using assms(2) by (subst of_int_less_iff) simp
    ultimately show ?thesis using False assms(2) by (auto simp: algebra_simps)
  qed
  have "n div u * u = n \<longleftrightarrow> u dvd n" by (simp add: dvd_eq_mod_eq_0) (metis div_mult_mod_eq add_cancel_left_right)
  moreover have "(n div u + 1) * u \<noteq> n"
  proof -
    have "n mod u < u" using u(2) by simp
    moreover have "n div u * u + n mod u = n" by simp
    ultimately have "n < n div u * u + u" by linarith
    then show ?thesis by simp
  qed
  ultimately have "f64 (of_int (int (n div u)) * of_nat u) = of_nat n \<longleftrightarrow> u dvd n" "f64 (of_int (int (n div u) + 1) * of_nat u) \<noteq> of_nat n"
    using exact [of "n div u"] exact [of "n div u + 1"] by (simp_all add: algebra_simps)
  then show ?thesis unfolding digits_at_def Let_def u(1) fl by (simp add: u_def)
qed

lemma ilog10_int: "0 < n \<Longrightarrow> ilog10 (of_nat n) = int (length (dec_digits n)) - 1"
proof -
  assume n: "0 < n"
  have q: "quotient_of (of_nat n) = (int n, 1)" by (simp add: of_nat_rat quotient_of_Fract Rat.normalize_def)
  have "10 ^ (length (dec_digits n) - 1) \<le> n" "0 < length (dec_digits n)" using dec_digits_length [OF n] by simp_all
  then have "10 powi (int (length (dec_digits n)) - 1) \<le> (of_nat n :: rat)"
  proof -
    assume l: "10 ^ (length (dec_digits n) - 1) \<le> n" "0 < length (dec_digits n)"
    have "of_nat (10 ^ (length (dec_digits n) - 1)) \<le> (of_nat n :: rat)" using l(1) by (simp only: of_nat_le_iff)
    moreover have "int (length (dec_digits n)) - 1 = int (length (dec_digits n) - 1)" using l(2) by linarith
    ultimately show ?thesis by (simp only: power_int_of_nat of_nat_power of_nat_numeral)
  qed
  then show ?thesis by (simp add: ilog10_def q dec_digits_small)
qed

lemma shortest_int:
  assumes "0 < n" "n < 2 ^ 53"
  obtains m j where "\<not> 10 dvd m" "0 < m" "n = m * 10 ^ j" "length (dec_digits n) = length (dec_digits m) + j"
    "shortest (of_nat n) = (dec_digits m, int (length (dec_digits n)) - 1)"
proof -
  define e where "e = length (dec_digits n) - 1"
  have l: "10 ^ e \<le> n" "n < 10 ^ Suc e" "length (dec_digits n) = Suc e"
    using dec_digits_length [OF assms(1)] unfolding e_def by simp_all
  have "e < 16"
  proof (rule ccontr)
    assume "\<not> e < 16"
    then have "(10 :: nat) ^ 16 \<le> 10 ^ e" by (intro power_increasing) simp_all
    then show False using l(1) assms(2) by simp
  qed
  define P where "P = (\<lambda>k. 1 \<le> k \<and> k \<le> Suc e \<and> 10 ^ (e + 1 - k) dvd n)"
  have "P (Suc e)" by (simp add: P_def)
  define k where "k = (LEAST k. P k)"
  have k: "P k" and least: "\<And>i. i < k \<Longrightarrow> \<not> P i" using LeastI [of P, OF \<open>P (Suc e)\<close>] not_less_Least by (auto simp: k_def)
  define j m where "j = e + 1 - k" and "m = n div 10 ^ j"
  have n: "n = m * 10 ^ j" "0 < m" using k assms(1) by (auto simp: P_def m_def j_def)
  have dl: "length (dec_digits n) = length (dec_digits m) + j" using dec_digits_power [OF n(2)] n(1) by simp
  then have mk: "length (dec_digits m) = k" using k l(3) by (simp add: P_def j_def)
  have nd: "\<not> 10 dvd m"
  proof
    assume "10 dvd m"
    then obtain q where q: "m = 10 * q" by (elim dvdE)
    then have qn: "n = q * 10 ^ Suc j" "0 < q" using n by simp_all
    then have "k = length (dec_digits q) + 1" using mk q dec_digits_power [OF qn(2), of 1] by (simp add: mult.commute)
    then have "P (k - 1)" using k dec_digits_length [OF qn(2)] qn(1) by (auto simp: P_def j_def Suc_diff_le Suc_le_eq)
    then show False using least [of "k - 1"] k by (simp add: P_def)
  qed
  have at: "digits_at (of_nat n) (int e) i = (if P i then Some (int (n div 10 ^ (e + 1 - i))) else None)" if "1 \<le> i" "i \<le> Suc e" for i
    using digits_at_int [OF assms, of i e] that by (simp add: P_def)
  have ks: "[1..<18] = [1..<k] @ k # [Suc k..<18]" 
  proof -
    have "1 \<le> k" "k < 18" using k \<open>e < 16\<close> by (simp_all add: P_def)
    then have "[1..<18] = [1..<k] @ [k..<18]" using upt_add_eq_append [of 1 k "18 - k"] by simp
    then show ?thesis using \<open>k < 18\<close> upt_conv_Cons [of k 18] by simp
  qed
  have "List.map_filter (\<lambda>k. map_option (\<lambda>m. (k, m)) (digits_at (of_nat n) (int e) k)) [1..<k] = []"
    using at least k by (auto simp: List.map_filter_def P_def filter_empty_conv)
  then have "\<exists>r. List.map_filter (\<lambda>k. map_option (\<lambda>m. (k, m)) (digits_at (of_nat n) (int e) k)) [1..<18] = (k, int m) # r"
    using at [of k] k unfolding ks by (simp add: List.map_filter_def P_def m_def j_def)
  then have "shortest (of_nat n) = (dec_digits m, int (length (dec_digits n)) - 1)"
    using ilog10_int [OF assms(1)] l(3) mk strip_zeros_dec [OF nd] by (auto simp: shortest_def Let_def)
  with that nd n dl show ?thesis by blast
qed

lemma JInt_digits:
  assumes "n < 2 ^ 53"
  shows "appendJCS (JInt (int n)) = Some (dec_digits n)"
proof (cases "n = 0")
  case True
  then show ?thesis by (simp add: appendJCSNumber_def dec_digits_small char_zero)
next
  case False
  then have n0: "0 < n" by simp
  obtain m j where m: "\<not> 10 dvd m" "0 < m" "n = m * 10 ^ j" "length (dec_digits n) = length (dec_digits m) + j"
      "shortest (of_nat n) = (dec_digits m, int (length (dec_digits n)) - 1)"
    using shortest_int [OF n0 assms] .
  have "length (dec_digits n) \<le> 21"
  proof (rule ccontr)
    assume "\<not> length (dec_digits n) \<le> 21"
    then have "(10 :: nat) ^ 21 \<le> 10 ^ (length (dec_digits n) - 1)" by (intro power_increasing) simp_all
    then show False using dec_digits_length [OF n0] assms by simp
  qed
  moreover have "int n \<le> int (2 ^ 53)" using assms by (simp only: of_nat_le_iff)
  then have "f64 (of_int (int n)) = of_nat n" using f64.rnd_int [of "int n"] by simp
  moreover have "dec_digits n = dec_digits m @ replicate j (CHR ''0'')" using dec_digits_power [OF m(2), of j] m(3) by simp
  ultimately show ?thesis using m(4,5) n0 by (simp add: appendJCSNumber_def Let_def)
qed

text \<open>
  Integers are canonical in decimal. A version or a time below \<open>2^53\<close>, held as an integer and
  formatted through a double as JCS prescribes, is written as its decimal digits, and the same as a
  number literal of those digits read from a document: re-encoding a roster does not change it.
\<close>

theorem integers_canonical:
  assumes "n < 2 ^ 53"
  shows "appendJCS (JInt (int n)) = Some (dec_digits n)"
  using assms by (rule JInt_digits)

theorem integers_canonical_witness: "appendJCS (JInt (int 1048576)) = Some (dec_digits 1048576)"
  by (rule integers_canonical) simp

end
