(* ===== verification/Ed25519.thy ===== *)
theory Ed25519
  imports Prelude
begin

unbundle bit_operations_syntax

text \<open>
  The strict Ed25519 verification of the protocol, written twice: the relay's
  (\<open>relay/internal/link/ed25519.go\<close>, on big integers) and the client's (\<open>client-go/signed.go\<close> and
  \<open>smallOrderEd25519\<close> of \<open>client-go/primary.go\<close>, on bytes). \<open>crypto/ed25519\<close>'s own check of the
  equation is the parameter \<open>vrf\<close>. The theorem is that both accept the same signatures, so that a
  roster or a registration cannot be valid for one and not for the other.
\<close>

section \<open>Hexadecimal constants\<close>

definition hex_digit :: "char \<Rightarrow> nat" where
  "hex_digit c = (if of_char c \<ge> (97 :: nat) then of_char c - 87 else of_char c - 48)"

fun unhex :: "string \<Rightarrow> bytes" where
  "unhex (a # b # s) = word_of_nat (16 * hex_digit a + hex_digit b) # unhex s"
| "unhex _ = []"

section \<open>The relay\<close>

definition fieldP :: nat where
  "fieldP = 2 ^ 255 - 19"

definition smallOrder :: "bytes list" where
  "smallOrder = map unhex [
     ''0100000000000000000000000000000000000000000000000000000000000000'',
     ''ecffffffffffffffffffffffffffffffffffffffffffffffffffffffffffff7f'',
     ''0000000000000000000000000000000000000000000000000000000000000000'',
     ''0000000000000000000000000000000000000000000000000000000000000080'',
     ''c7176a703d4dd84fba3c0b760d10670f2a2053fa2c39ccc64ec7fd7792ac037a'',
     ''c7176a703d4dd84fba3c0b760d10670f2a2053fa2c39ccc64ec7fd7792ac03fa'',
     ''26e8958fc2b227b045c3f489f2ef98f0d5dfac05d3c63339b13802886d53fc05'',
     ''26e8958fc2b227b045c3f489f2ef98f0d5dfac05d3c63339b13802886d53fc85'']"

definition canonicalPoint :: "bytes \<Rightarrow> bool" where
  "canonicalPoint p =
     (if length p \<noteq> 32 then False
      else let sign = drop_bit 7 (p ! 31);
               le = p[31 := (p ! 31) AND 0x7f];
               y = be_nat (rev le)
           in if y \<ge> fieldP then False
              else \<not> (sign = 1 \<and> (y = 1 \<or> y = fieldP - 1)))"

definition IsSmallOrder :: "bytes \<Rightarrow> bool" where
  "IsSmallOrder p = list_ex (\<lambda>s. p = s) smallOrder"

definition VerifyEd25519 :: "(bytes \<Rightarrow> bytes \<Rightarrow> bytes \<Rightarrow> bool) \<Rightarrow> bytes \<Rightarrow> bytes \<Rightarrow> bytes \<Rightarrow> bool" where
  "VerifyEd25519 vrf pub msg sig =
     (if length pub \<noteq> 32 \<or> length sig \<noteq> 64 then False
      else let r = take 32 sig
           in if \<not> canonicalPoint pub \<or> \<not> canonicalPoint r \<or> IsSmallOrder pub \<or> IsSmallOrder r then False
              else vrf pub msg sig)"

section \<open>The client\<close>

definition smallOrderPoints :: "bytes list" where
  "smallOrderPoints = map unhex [
     ''0000000000000000000000000000000000000000000000000000000000000000'',
     ''0100000000000000000000000000000000000000000000000000000000000000'',
     ''26e8958fc2b227b045c3f489f2ef98f0d5dfac05d3c63339b13802886d53fc05'',
     ''c7176a703d4dd84fba3c0b760d10670f2a2053fa2c39ccc64ec7fd7792ac037a'',
     ''ecffffffffffffffffffffffffffffffffffffffffffffffffffffffffffff7f'',
     ''edffffffffffffffffffffffffffffffffffffffffffffffffffffffffffff7f'',
     ''eeffffffffffffffffffffffffffffffffffffffffffffffffffffffffffff7f'']"

definition smallOrderEd25519 :: "bytes \<Rightarrow> bool" where
  "smallOrderEd25519 b =
     list_ex (\<lambda>bad.
       let diff = foldl (\<lambda>d i. d OR (b ! i XOR bad ! i)) 0 [0..<31];
           diff = diff OR ((b ! 31 AND 0x7f) XOR bad ! 31)
       in diff = 0) smallOrderPoints"

definition canonicalEd25519 :: "bytes \<Rightarrow> bool" where
  "canonicalEd25519 b =
     (let mid = take 30 (drop 1 b);
          high = list_all (\<lambda>x. x = 0xff) mid
      in if high \<and> b ! 31 AND 0x7f = 0x7f \<and> b ! 0 \<ge> 0xed then False
         else if b ! 31 AND 0x80 \<noteq> 0
         then let rest = b ! 31 AND 0x7f; zeros = list_all (\<lambda>x. x = 0) mid
              in if zeros \<and> rest = 0 \<and> b ! 0 = 1 then False
                 else \<not> (high \<and> rest = 0x7f \<and> b ! 0 = 0xec)
         else True)"

definition verifyEd25519 :: "(bytes \<Rightarrow> bytes \<Rightarrow> bytes \<Rightarrow> bool) \<Rightarrow> bytes \<Rightarrow> bytes \<Rightarrow> bytes \<Rightarrow> bool" where
  "verifyEd25519 vrf pub message sig =
     (if length pub \<noteq> 32 \<or> length sig \<noteq> 64 then False
      else let r = take 32 sig
           in if \<not> canonicalEd25519 pub \<or> smallOrderEd25519 pub \<or> \<not> canonicalEd25519 r \<or> smallOrderEd25519 r then False
              else vrf pub message sig)"

section \<open>Encodings as numbers\<close>

text \<open>A 32-byte encoding as its first byte, the thirty in the middle, and the last.\<close>

lemma split_encoding:
  assumes "length (p :: bytes) = 32"
  obtains a mid z where "p = a # mid @ [z]" "length mid = 30"
proof -
  obtain a q where q: "p = a # q" "length q = 31" using assms by (cases p) auto
  then obtain mid z where "q = mid @ [z]" "length mid = 30" by (cases q rule: rev_cases) auto
  with q show ?thesis using that by blast
qed

lemma be_nat_Cons_snoc: "be_nat (rev (a # mid @ [z])) = unat a + 256 * be_nat (rev mid) + 256 ^ Suc (length mid) * unat z"
proof -
  have app: "undigits 256 (d # ds) = d * 256 ^ length ds + undigits 256 ds" for d ds
    by (induction ds rule: rev_induct) (simp_all add: undigits_def algebra_simps)
  have snoc: "be_nat (xs @ [a]) = be_nat xs * 256 + unat a" for xs by (simp add: be_nat_def)
  have "be_nat (z # rev mid) = unat z * 256 ^ length mid + be_nat (rev mid)" by (simp add: be_nat_def app)
  then have "be_nat ((z # rev mid) @ [a]) = (unat z * 256 ^ length mid + be_nat (rev mid)) * 256 + unat a"
    by (simp only: snoc)
  then show ?thesis by (simp add: algebra_simps)
qed

lemma be_nat_snoc: "be_nat (xs @ [a]) = be_nat xs * 256 + unat a"
  by (simp add: be_nat_def)

lemma be_nat_replicate: "be_nat (replicate (Suc n) a) = be_nat (replicate n a) * 256 + unat a"
  unfolding replicate_Suc replicate_append_same [symmetric] by (rule be_nat_snoc)

lemma be_nat_replicate_ff: "be_nat (replicate n 0xff) + 1 = 256 ^ n"
  by (induction n) (simp_all add: be_nat_replicate del: replicate.simps(2), simp add: be_nat_def)

lemma be_nat_replicate_0: "be_nat (replicate n 0) = 0"
  by (induction n) (simp_all add: be_nat_replicate del: replicate.simps(2), simp add: be_nat_def)

lemma be_nat_inject: "length xs = length ys \<Longrightarrow> be_nat xs = be_nat ys \<Longrightarrow> xs = ys"
  by (metis be_bytes_be_nat)

lemma all_ff_iff: "length mid = n \<Longrightarrow> list_all (\<lambda>x. x = (0xff :: byte)) mid \<longleftrightarrow> be_nat (rev mid) + 1 = 256 ^ n"
proof
  assume l: "length mid = n" and "list_all (\<lambda>x. x = 0xff) mid"
  then have "mid = replicate n 0xff" using replicate_length_same [where xs = mid and x = "0xff"] by (simp add: list_all_iff)
  then show "be_nat (rev mid) + 1 = 256 ^ n" using be_nat_replicate_ff [of n] by simp
next
  assume l: "length mid = n" and e: "be_nat (rev mid) + 1 = 256 ^ n"
  then have "be_nat (rev mid) = be_nat (replicate n 0xff)" using be_nat_replicate_ff [of n] by simp
  then have "rev mid = replicate n 0xff" using l by (intro be_nat_inject) simp_all
  then have "set (rev mid) \<subseteq> {0xff}" by (auto simp del: set_rev)
  then show "list_all (\<lambda>x. x = 0xff) mid" by (auto simp: list_all_iff)
qed

lemma all_0_iff: "length mid = n \<Longrightarrow> list_all (\<lambda>x. x = (0 :: byte)) mid \<longleftrightarrow> be_nat (rev mid) = 0"
proof
  assume l: "length mid = n" and "list_all (\<lambda>x. x = 0) mid"
  then have "mid = replicate n 0" using replicate_length_same [where xs = mid and x = 0] by (simp add: list_all_iff)
  then show "be_nat (rev mid) = 0" by (simp add: be_nat_replicate_0)
next
  assume l: "length mid = n" and e: "be_nat (rev mid) = 0"
  then have "rev mid = replicate n 0" using be_nat_replicate_0 [of n] by (intro be_nat_inject) simp_all
  then have "set (rev mid) \<subseteq> {0}" by (auto simp del: set_rev)
  then show "list_all (\<lambda>x. x = 0) mid" by (auto simp: list_all_iff)
qed

section \<open>Canonical encodings\<close>

lemma unat_low7: "unat (z AND 0x7f :: byte) = unat z mod 128"
proof -
  have "z AND 0x7f = take_bit 7 z" by (simp add: take_bit_eq_mask mask_eq_exp_minus_1)
  then show ?thesis by (simp add: take_bit_eq_mod unat_mod_distrib)
qed

lemma unat_sign: "unat (drop_bit 7 z :: byte) = unat z div 128"
  by (simp add: drop_bit_eq_div unat_div_distrib)

lemma sign_bit: "drop_bit 7 (z :: byte) = 1 \<longleftrightarrow> 128 \<le> unat z"
proof -
  have "drop_bit 7 z = 1 \<longleftrightarrow> unat (drop_bit 7 z) = 1" by (metis unat_1 word_unat_eq_iff)
  then show ?thesis using unat_byte_bound [of z] unfolding unat_sign by linarith
qed

lemma sign_mask: "(z :: byte) AND 0x80 \<noteq> 0 \<longleftrightarrow> 128 \<le> unat z"
proof -
  have "z AND 0x80 \<noteq> 0 \<longleftrightarrow> bit z 7" using and_exp_eq_0_iff_not_bit [of z 7] by simp
  also have "\<dots> \<longleftrightarrow> bit (unat z) 7" by (simp add: bit_unsigned_iff)
  also have "\<dots> \<longleftrightarrow> odd (unat z div 128)" by (simp add: bit_iff_odd)
  also have "unat z div 128 = (if 128 \<le> unat z then 1 else 0)" using unat_byte_bound [of z] by (auto simp: div_eq_0_iff div_nat_eqI)
  finally show ?thesis by simp
qed

lemma field_digits:
  assumes "a < 256" "M < 256 ^ 30" "t < (128 :: nat)"
  shows "a + 256 * M + 256 ^ 31 * t \<ge> fieldP \<longleftrightarrow> M + 1 = 256 ^ 30 \<and> t = 127 \<and> a \<ge> 0xed"
    and "a + 256 * M + 256 ^ 31 * t = 1 \<longleftrightarrow> M = 0 \<and> t = 0 \<and> a = 1"
    and "a + 256 * M + 256 ^ 31 * t = fieldP - 1 \<longleftrightarrow> M + 1 = 256 ^ 30 \<and> t = 127 \<and> a = 0xec"
proof -
  have P: "fieldP = 0xed + 256 * (256 ^ 30 - 1) + 256 ^ 31 * 127" by (simp add: fieldP_def)
  consider "t < 127" | "t = 127" "M + 1 < 256 ^ 30" | "t = 127" "M + 1 = 256 ^ 30" using assms by linarith
  then have "(a + 256 * M + 256 ^ 31 * t \<ge> fieldP \<longleftrightarrow> M + 1 = 256 ^ 30 \<and> t = 127 \<and> a \<ge> 0xed)
    \<and> (a + 256 * M + 256 ^ 31 * t = fieldP - 1 \<longleftrightarrow> M + 1 = 256 ^ 30 \<and> t = 127 \<and> a = 0xec)"
    by cases (use assms in \<open>simp_all add: P\<close>)
  then show "a + 256 * M + 256 ^ 31 * t \<ge> fieldP \<longleftrightarrow> M + 1 = 256 ^ 30 \<and> t = 127 \<and> a \<ge> 0xed"
    and "a + 256 * M + 256 ^ 31 * t = fieldP - 1 \<longleftrightarrow> M + 1 = 256 ^ 30 \<and> t = 127 \<and> a = 0xec" by blast+
  show "a + 256 * M + 256 ^ 31 * t = 1 \<longleftrightarrow> M = 0 \<and> t = 0 \<and> a = 1"
    using assms by (cases "M = 0"; cases "t = 0") auto
qed

lemma canonical_agree:
  assumes "length p = 32"
  shows "canonicalEd25519 p \<longleftrightarrow> canonicalPoint p"
proof -
  obtain a mid z where p: "p = a # mid @ [z]" and l: "length mid = 30" using split_encoding [OF assms] .
  let ?t = "unat z mod 128" and ?M = "be_nat (rev mid)"
  have idx: "p ! 31 = z" "p ! 0 = a" "take 30 (drop 1 p) = mid" "p[31 := x] = a # mid @ [x]" for x
    using l by (simp_all add: p nth_append list_update_append)
  have y: "be_nat (rev (a # mid @ [z AND 0x7f])) = unat a + 256 * ?M + 256 ^ 31 * ?t"
    unfolding be_nat_Cons_snoc l unat_low7 by simp
  have b: "unat a < 256" "?M < 256 ^ 30" "?t < 128" using be_nat_bound [of "rev mid"] l by simp_all
  have w: "(a \<ge> 0xed) = (unat a \<ge> 0xed)" "(a = 1) = (unat a = 1)" "(a = 0xec) = (unat a = 0xec)"
    "(z AND 0x7f = 0x7f) = (?t = 0x7f)" "(z AND 0x7f = 0) = (?t = 0)"
    by (simp_all add: word_le_nat_alt word_unat_eq_iff unat_low7)
  show ?thesis
    unfolding canonicalEd25519_def canonicalPoint_def Let_def idx all_ff_iff [OF l] all_0_iff [OF l] w sign_mask sign_bit
      y field_digits [OF b] using assms by auto
qed

section \<open>Points of small order\<close>

lemma or_fold_0: "foldl (\<lambda>d i. d OR f i) x is = (0 :: byte) \<longleftrightarrow> x = 0 \<and> (\<forall>i\<in>set is. f i = 0)"
  by (induction "is" arbitrary: x) (auto simp: or_eq_0_iff)

lemma xor_0_iff: "x XOR y = 0 \<longleftrightarrow> x = (y :: byte)"
  by (auto simp: bit_eq_iff bit_simps)

lemma smallOrderEd25519_iff:
  assumes "length b = 32"
  shows "smallOrderEd25519 b \<longleftrightarrow> (\<exists>bad\<in>set smallOrderPoints. take 31 b = take 31 bad \<and> b ! 31 AND 0x7f = bad ! 31)"
proof -
  have len: "length bad = 32" if "bad \<in> set smallOrderPoints" for bad
    using that by (auto simp: smallOrderPoints_def)
  have "(foldl (\<lambda>d i. d OR (b ! i XOR bad ! i)) 0 [0..<31] OR ((b ! 31 AND 0x7f) XOR bad ! 31) = 0)
      \<longleftrightarrow> take 31 b = take 31 bad \<and> b ! 31 AND 0x7f = bad ! 31" if "bad \<in> set smallOrderPoints" for bad
    using assms len [OF that] by (auto simp: or_eq_0_iff or_fold_0 list_eq_iff_nth_eq xor_0_iff)
  then show ?thesis by (auto simp: smallOrderEd25519_def list_ex_iff Let_def)
qed

lemma smallOrder_eval:
  "smallOrder = [
     [0x01, 0x00, 0x00, 0x00, 0x00, 0x00, 0x00, 0x00, 0x00, 0x00, 0x00, 0x00, 0x00, 0x00, 0x00, 0x00,
      0x00, 0x00, 0x00, 0x00, 0x00, 0x00, 0x00, 0x00, 0x00, 0x00, 0x00, 0x00, 0x00, 0x00, 0x00, 0x00],
     [0xec, 0xff, 0xff, 0xff, 0xff, 0xff, 0xff, 0xff, 0xff, 0xff, 0xff, 0xff, 0xff, 0xff, 0xff, 0xff,
      0xff, 0xff, 0xff, 0xff, 0xff, 0xff, 0xff, 0xff, 0xff, 0xff, 0xff, 0xff, 0xff, 0xff, 0xff, 0x7f],
     [0x00, 0x00, 0x00, 0x00, 0x00, 0x00, 0x00, 0x00, 0x00, 0x00, 0x00, 0x00, 0x00, 0x00, 0x00, 0x00,
      0x00, 0x00, 0x00, 0x00, 0x00, 0x00, 0x00, 0x00, 0x00, 0x00, 0x00, 0x00, 0x00, 0x00, 0x00, 0x00],
     [0x00, 0x00, 0x00, 0x00, 0x00, 0x00, 0x00, 0x00, 0x00, 0x00, 0x00, 0x00, 0x00, 0x00, 0x00, 0x00,
      0x00, 0x00, 0x00, 0x00, 0x00, 0x00, 0x00, 0x00, 0x00, 0x00, 0x00, 0x00, 0x00, 0x00, 0x00, 0x80],
     [0xc7, 0x17, 0x6a, 0x70, 0x3d, 0x4d, 0xd8, 0x4f, 0xba, 0x3c, 0x0b, 0x76, 0x0d, 0x10, 0x67, 0x0f,
      0x2a, 0x20, 0x53, 0xfa, 0x2c, 0x39, 0xcc, 0xc6, 0x4e, 0xc7, 0xfd, 0x77, 0x92, 0xac, 0x03, 0x7a],
     [0xc7, 0x17, 0x6a, 0x70, 0x3d, 0x4d, 0xd8, 0x4f, 0xba, 0x3c, 0x0b, 0x76, 0x0d, 0x10, 0x67, 0x0f,
      0x2a, 0x20, 0x53, 0xfa, 0x2c, 0x39, 0xcc, 0xc6, 0x4e, 0xc7, 0xfd, 0x77, 0x92, 0xac, 0x03, 0xfa],
     [0x26, 0xe8, 0x95, 0x8f, 0xc2, 0xb2, 0x27, 0xb0, 0x45, 0xc3, 0xf4, 0x89, 0xf2, 0xef, 0x98, 0xf0,
      0xd5, 0xdf, 0xac, 0x05, 0xd3, 0xc6, 0x33, 0x39, 0xb1, 0x38, 0x02, 0x88, 0x6d, 0x53, 0xfc, 0x05],
     [0x26, 0xe8, 0x95, 0x8f, 0xc2, 0xb2, 0x27, 0xb0, 0x45, 0xc3, 0xf4, 0x89, 0xf2, 0xef, 0x98, 0xf0,
      0xd5, 0xdf, 0xac, 0x05, 0xd3, 0xc6, 0x33, 0x39, 0xb1, 0x38, 0x02, 0x88, 0x6d, 0x53, 0xfc, 0x85]]"
  unfolding smallOrder_def by (simp add: hex_digit_def)

lemma smallOrderPoints_eval:
  "smallOrderPoints = [
     [0x00, 0x00, 0x00, 0x00, 0x00, 0x00, 0x00, 0x00, 0x00, 0x00, 0x00, 0x00, 0x00, 0x00, 0x00, 0x00,
      0x00, 0x00, 0x00, 0x00, 0x00, 0x00, 0x00, 0x00, 0x00, 0x00, 0x00, 0x00, 0x00, 0x00, 0x00, 0x00],
     [0x01, 0x00, 0x00, 0x00, 0x00, 0x00, 0x00, 0x00, 0x00, 0x00, 0x00, 0x00, 0x00, 0x00, 0x00, 0x00,
      0x00, 0x00, 0x00, 0x00, 0x00, 0x00, 0x00, 0x00, 0x00, 0x00, 0x00, 0x00, 0x00, 0x00, 0x00, 0x00],
     [0x26, 0xe8, 0x95, 0x8f, 0xc2, 0xb2, 0x27, 0xb0, 0x45, 0xc3, 0xf4, 0x89, 0xf2, 0xef, 0x98, 0xf0,
      0xd5, 0xdf, 0xac, 0x05, 0xd3, 0xc6, 0x33, 0x39, 0xb1, 0x38, 0x02, 0x88, 0x6d, 0x53, 0xfc, 0x05],
     [0xc7, 0x17, 0x6a, 0x70, 0x3d, 0x4d, 0xd8, 0x4f, 0xba, 0x3c, 0x0b, 0x76, 0x0d, 0x10, 0x67, 0x0f,
      0x2a, 0x20, 0x53, 0xfa, 0x2c, 0x39, 0xcc, 0xc6, 0x4e, 0xc7, 0xfd, 0x77, 0x92, 0xac, 0x03, 0x7a],
     [0xec, 0xff, 0xff, 0xff, 0xff, 0xff, 0xff, 0xff, 0xff, 0xff, 0xff, 0xff, 0xff, 0xff, 0xff, 0xff,
      0xff, 0xff, 0xff, 0xff, 0xff, 0xff, 0xff, 0xff, 0xff, 0xff, 0xff, 0xff, 0xff, 0xff, 0xff, 0x7f],
     [0xed, 0xff, 0xff, 0xff, 0xff, 0xff, 0xff, 0xff, 0xff, 0xff, 0xff, 0xff, 0xff, 0xff, 0xff, 0xff,
      0xff, 0xff, 0xff, 0xff, 0xff, 0xff, 0xff, 0xff, 0xff, 0xff, 0xff, 0xff, 0xff, 0xff, 0xff, 0x7f],
     [0xee, 0xff, 0xff, 0xff, 0xff, 0xff, 0xff, 0xff, 0xff, 0xff, 0xff, 0xff, 0xff, 0xff, 0xff, 0xff,
      0xff, 0xff, 0xff, 0xff, 0xff, 0xff, 0xff, 0xff, 0xff, 0xff, 0xff, 0xff, 0xff, 0xff, 0xff, 0x7f]]"
  unfolding smallOrderPoints_def by (simp add: hex_digit_def)

lemma small_order_lists:
  "list_all smallOrderEd25519 smallOrder"
  "list_all (\<lambda>bad. list_all (\<lambda>q. canonicalEd25519 q \<longrightarrow> IsSmallOrder q) [take 31 bad @ [bad ! 31], take 31 bad @ [bad ! 31 OR 0x80]]) smallOrderPoints"
proof -
  have "\<exists>bad\<in>set smallOrderPoints. take 31 b = take 31 bad \<and> b ! 31 AND 0x7f = bad ! 31" "length b = 32" if "b \<in> set smallOrder" for b
    using that unfolding smallOrder_eval smallOrderPoints_eval by (simp, elim disjE, simp_all)+
  then show "list_all smallOrderEd25519 smallOrder" by (simp add: list_all_iff smallOrderEd25519_iff)
  show "list_all (\<lambda>bad. list_all (\<lambda>q. canonicalEd25519 q \<longrightarrow> IsSmallOrder q) [take 31 bad @ [bad ! 31], take 31 bad @ [bad ! 31 OR 0x80]]) smallOrderPoints"
    unfolding smallOrderPoints_eval IsSmallOrder_def smallOrder_eval by (simp add: canonicalEd25519_def Let_def)
qed

lemma sign_cases: "(z :: byte) = z AND 0x7f \<or> z = (z AND 0x7f) OR 0x80"
proof -
  have "z = (z AND 0x7f) OR (z AND 0x80)"
  proof -
    have "(0x7f OR 0x80 :: byte) = - 1" by simp
    then show ?thesis by (metis and.right_neutral bit.conj_disj_distrib)
  qed
  moreover have "z AND 0x80 = 0 \<or> z AND 0x80 = 0x80"
  proof -
    have "z AND 2 ^ n = (if bit z n then 2 ^ n else 0)" for n
      by (rule bit_word_eqI) (auto simp: bit_and_iff bit_exp_iff)
    from this [of 7] show ?thesis by (simp split: if_splits)
  qed
  ultimately show ?thesis by (metis or.right_neutral)
qed

lemma small_order_agree:
  assumes l: "length p = 32" and c: "canonicalEd25519 p"
  shows "smallOrderEd25519 p \<longleftrightarrow> IsSmallOrder p"
proof
  assume "IsSmallOrder p"
  then show "smallOrderEd25519 p" using small_order_lists(1) by (auto simp: IsSmallOrder_def list_ex_iff list_all_iff)
next
  assume "smallOrderEd25519 p"
  then obtain bad where bad: "bad \<in> set smallOrderPoints" "take 31 p = take 31 bad" "p ! 31 AND 0x7f = bad ! 31"
    using smallOrderEd25519_iff [OF l] by blast
  have "p = take 31 p @ [p ! 31]" using l by (simp add: take_Suc_conv_app_nth [symmetric])
  then have "p = take 31 bad @ [bad ! 31] \<or> p = take 31 bad @ [bad ! 31 OR 0x80]"
    using bad(2,3) sign_cases [of "p ! 31"] by metis
  then show "IsSmallOrder p" using small_order_lists(2) bad(1) c by (auto simp: list_all_iff)
qed

lemma verify_same: "VerifyEd25519 vrf pub msg sig = verifyEd25519 vrf pub msg sig"
proof (cases "length pub = 32 \<and> length sig = 64")
  case True
  then have "length pub = 32" "length (take 32 sig) = 32" by simp_all
  then show ?thesis
    using canonical_agree small_order_agree by (auto simp: VerifyEd25519_def verifyEd25519_def Let_def)
qed (auto simp: VerifyEd25519_def verifyEd25519_def)

text \<open>
  C35. The relay and the client verify alike. Whatever \<open>crypto/ed25519\<close> answers, the relay's
  verification, which compares 255-bit numbers and a list of eight encodings, and the client's, which
  compares bytes and a list of seven with the sign bit masked, give the same answer on every key,
  message and signature, of any length.
\<close>

theorem verifications_agree: "VerifyEd25519 vrf pub msg sig = verifyEd25519 vrf pub msg sig"
  by (rule verify_same)

end
