(* ===== verification/Rosters.thy ===== *)
theory Rosters
  imports Relay_State Json_Properties Ed25519 "HOL-Library.Monad_Syntax"
begin

text \<open>
  Rosters, the signed lists of a network's members, on both sides: the relay's check
  (\<open>relay/internal/link/roster.go\<close>) and the client's (\<open>client-go/roster.go\<close>), with the making of a
  network, its placing at a relay, and the signing of the next roster. The primitives neither file
  defines are the fields of \<open>primitives\<close>: SHA-256, \<open>crypto/ed25519\<close>'s verification, the public half
  and the signature of the network key a seed derives, and what \<open>net/url\<close> says of a URL after its
  scheme. A check that fails is \<open>None\<close>; its message is not modelled.
\<close>

record primitives =
  pr_sha :: "bytes \<Rightarrow> bytes"
  pr_verify :: "bytes \<Rightarrow> bytes \<Rightarrow> bytes \<Rightarrow> bool"
  pr_netpub :: "bytes \<Rightarrow> bytes"
  pr_netsign :: "bytes \<Rightarrow> bytes \<Rightarrow> bytes"
  pr_url_rest :: "string \<Rightarrow> bool"

definition guard :: "bool \<Rightarrow> unit option" where
  "guard b = (if b then Some () else None)"

lemma guard_Some [simp]: "guard b = Some u \<longleftrightarrow> b"
  by (simp add: guard_def)

text \<open>Type assertions on a decoded tree.\<close>

fun as_string :: "json option \<Rightarrow> string option" where
  "as_string (Some (JStr s)) = Some s"
| "as_string _ = None"

fun as_object :: "json \<Rightarrow> (string \<times> json) list option" where
  "as_object (JObj m) = Some m"
| "as_object _ = None"

fun as_array :: "json option \<Rightarrow> json list option" where
  "as_array (Some (JArr a)) = Some a"
| "as_array _ = None"

section \<open>The relay's check\<close>

definition rosterContext :: string where "rosterContext = ''frontier-link/1/roster''"

definition MaxRosterBytes :: nat where "MaxRosterBytes = 65000"

definition maxSafeInteger :: int where "maxSafeInteger = 2 ^ 53 - 1"

text \<open>\<open>strconv.ParseInt(s, 10, 64)\<close>.\<close>

definition ParseInt :: "string \<Rightarrow> int option" where
  "ParseInt s =
     (let (neg, ds) = cut_sign s;
          v = (if neg then - int (dec_val ds) else int (dec_val ds))
      in if ds = [] \<or> \<not> list_all is_digit ds then None
         else if v < - (2 ^ 63) \<or> v \<ge> 2 ^ 63 then None else Some v)"

definition integer :: "json option \<Rightarrow> int option" where
  "integer v =
     (case v of
        Some (JNum n) \<Rightarrow>
          if starts n (CHR ''-'') then None
          else (case ParseInt n of
                  None \<Rightarrow> None
                | Some i \<Rightarrow> if i > maxSafeInteger \<or> i < - maxSafeInteger then None else Some i)
      | _ \<Rightarrow> None)"

definition keyField :: "(string \<times> json) list \<Rightarrow> string \<Rightarrow> bytes option" where
  "keyField m name = DecodeKey (case as_string (map_of m name) of None \<Rightarrow> [] | Some s \<Rightarrow> s) 32"

definition SigningInput :: "(string \<times> json) list \<Rightarrow> bytes option" where
  "SigningInput roster =
     map_option (\<lambda>canon. str_bytes (rosterContext @ canon)) (appendJCS (JObj (filter (\<lambda>(k, v). k \<noteq> ''signature'') roster)))"

definition roster_entry :: "primitives \<Rightarrow> json \<Rightarrow> (string \<times> Member) option" where
  "roster_entry pr mv = do {
     m \<leftarrow> as_object mv;
     let idStr = (case as_string (map_of m ''id'') of None \<Rightarrow> [] | Some s \<Rightarrow> s);
     i \<leftarrow> ParseID idStr;
     pub \<leftarrow> keyField m ''ed25519'';
     x \<leftarrow> keyField m ''x25519'';
     guard (IDFromKey (pr_sha pr) pub = i);
     Some (idStr, \<lparr>m_ID = i, m_Ed25519 = pub\<rparr>)
   }"

fun roster_entries :: "primitives \<Rightarrow> string option \<Rightarrow> json list \<Rightarrow> Member list option" where
  "roster_entries pr prev [] = Some []"
| "roster_entries pr prev (mv # mvs) = do {
     (idStr, e) \<leftarrow> roster_entry pr mv;
     guard (case prev of None \<Rightarrow> True | Some p \<Rightarrow> \<not> idStr \<le> p);
     es \<leftarrow> roster_entries pr (Some idStr) mvs;
     Some (e # es)
   }"

definition roster_of_object :: "primitives \<Rightarrow> bytes \<Rightarrow> (string \<times> json) list \<Rightarrow> Roster option" where
  "roster_of_object pr raw obj = do {
     netStr \<leftarrow> as_string (map_of obj ''network'');
     network \<leftarrow> ParseID netStr;
     version \<leftarrow> integer (map_of obj ''version'');
     guard (\<not> version < 1);
     issuedAt \<leftarrow> integer (map_of obj ''issuedAt'');
     guard (\<not> issuedAt < 0);
     relay \<leftarrow> as_string (map_of obj ''relay'');
     networkKey \<leftarrow> keyField obj ''networkKey'';
     primaryStr \<leftarrow> as_string (map_of obj ''primary'');
     primary \<leftarrow> ParseID primaryStr;
     members \<leftarrow> as_array (map_of obj ''members'');
     guard (members \<noteq> []);
     entries \<leftarrow> roster_entries pr None members;
     let r = \<lparr>r_Network = network, r_Version = version, r_IssuedAt = issuedAt, r_NetworkKey = networkKey,
              r_Primary = primary, r_Members = entries, r_Raw = Some raw\<rparr>;
     guard (Roster_Member r primary \<noteq> None);
     guard (IDFromKey (pr_sha pr) networkKey = network);
     whole \<leftarrow> appendJCS (JObj obj);
     guard (\<not> length whole > MaxRosterBytes);
     sigStr \<leftarrow> as_string (map_of obj ''signature'');
     sig \<leftarrow> DecodeKey sigStr 64;
     msg \<leftarrow> SigningInput obj;
     guard (VerifyEd25519 (pr_verify pr) networkKey msg sig);
     Some r
   }"

definition ParseRoster :: "primitives \<Rightarrow> (string \<Rightarrow> token list \<times> bool) \<Rightarrow> string \<Rightarrow> Roster option" where
  "ParseRoster pr dec raw = do {
     tree \<leftarrow> ParseJSON dec raw;
     obj \<leftarrow> as_object tree;
     roster_of_object pr (str_bytes raw) obj
   }"

section \<open>The client's rosters\<close>

record RosterMember =
  rm_ID :: string
  rm_Ed25519 :: string
  rm_X25519 :: string
  rm_extra :: "(string \<times> json) list"

record UnsignedRoster =
  u_Network :: string
  u_Version :: int
  u_IssuedAt :: int
  u_Relay :: string
  u_NetworkKey :: string
  u_Primary :: string
  u_Members :: "RosterMember list"

record SignedRoster = UnsignedRoster +
  s_Signature :: string
  s_extra :: "(string \<times> json) list"

text \<open>The lookup: a binary search, then, for a roster that may be unsorted, every entry.\<close>

function bsearch :: "RosterMember list \<Rightarrow> string \<Rightarrow> nat \<Rightarrow> nat \<Rightarrow> nat" where
  "bsearch ms i lo hi =
     (if lo < hi
      then let h = (lo + hi) div 2
           in if rm_ID (ms ! h) < i then bsearch ms i (h + 1) hi else bsearch ms i lo h
      else lo)"
  by pat_completeness auto
termination by (relation "measure (\<lambda>(ms, i, lo, hi). hi - lo)") auto

declare bsearch.simps [simp del]

definition member_in :: "RosterMember list \<Rightarrow> string \<Rightarrow> RosterMember option" where
  "member_in ms i =
     (let k = bsearch ms i 0 (length ms)
      in if k < length ms \<and> rm_ID (ms ! k) = i then Some (ms ! k) else find (\<lambda>m. rm_ID m = i) ms)"

definition member_of :: "('a SignedRoster_scheme) \<Rightarrow> string \<Rightarrow> RosterMember option" where
  "member_of r i = member_in (u_Members r) i"

definition member_tree :: "RosterMember \<Rightarrow> json" where
  "member_tree m =
     JObj (fold (\<lambda>(k, v) t. AList.update k v t)
       [(''id'', JStr (rm_ID m)), (''ed25519'', JStr (rm_Ed25519 m)), (''x25519'', JStr (rm_X25519 m))] (rm_extra m))"

definition unsigned_tree :: "('a UnsignedRoster_scheme) \<Rightarrow> (string \<times> json) list" where
  "unsigned_tree u =
     [(''network'', JStr (u_Network u)), (''version'', JInt (u_Version u)), (''issuedAt'', JInt (u_IssuedAt u)),
      (''relay'', JStr (u_Relay u)), (''networkKey'', JStr (u_NetworkKey u)), (''primary'', JStr (u_Primary u)),
      (''members'', JArr (map member_tree (u_Members u)))]"

definition roster_tree :: "SignedRoster \<Rightarrow> bool \<Rightarrow> (string \<times> json) list" where
  "roster_tree r withSignature =
     (let t = fold (\<lambda>(k, v) t. if k \<noteq> ''signature'' then AList.update k v t else t) (s_extra r) (unsigned_tree r)
      in if withSignature then AList.update ''signature'' (JStr (s_Signature r)) t else t)"

definition Roster_JCS :: "SignedRoster \<Rightarrow> string option" where
  "Roster_JCS r = appendJCS (JObj (roster_tree r True))"

definition Roster_Size :: "SignedRoster \<Rightarrow> nat option" where
  "Roster_Size r = map_option length (Roster_JCS r)"

definition SigningBytes :: "SignedRoster \<Rightarrow> bytes option" where
  "SigningBytes r = map_option (\<lambda>canon. str_bytes (rosterContext @ canon)) (appendJCS (JObj (roster_tree r False)))"

definition safeInteger :: "json option \<Rightarrow> int option" where
  "safeInteger v =
     (case v of
        Some (JNum n) \<Rightarrow>
          if length n = 0 \<or> length n > 16 then None
          else if \<not> list_all is_digit n then None
          else (case ParseInt n of None \<Rightarrow> None | Some i \<Rightarrow> if i > 2 ^ 53 - 1 then None else Some i)
      | _ \<Rightarrow> None)"

definition without :: "(string \<times> json) list \<Rightarrow> string list \<Rightarrow> (string \<times> json) list" where
  "without m keys = filter (\<lambda>(k, v). k \<notin> set keys) m"

definition member_from_tree :: "json \<Rightarrow> RosterMember option" where
  "member_from_tree mv = do {
     m \<leftarrow> as_object mv;
     i \<leftarrow> as_string (map_of m ''id'');
     ed \<leftarrow> as_string (map_of m ''ed25519'');
     x \<leftarrow> as_string (map_of m ''x25519'');
     Some \<lparr>rm_ID = i, rm_Ed25519 = ed, rm_X25519 = x, rm_extra = without m [''id'', ''ed25519'', ''x25519'']\<rparr>
   }"

definition rosterFromTree :: "json \<Rightarrow> SignedRoster option" where
  "rosterFromTree tree = do {
     obj \<leftarrow> as_object tree;
     network \<leftarrow> as_string (map_of obj ''network'');
     version \<leftarrow> safeInteger (map_of obj ''version'');
     issuedAt \<leftarrow> safeInteger (map_of obj ''issuedAt'');
     relay \<leftarrow> as_string (map_of obj ''relay'');
     networkKey \<leftarrow> as_string (map_of obj ''networkKey'');
     primary \<leftarrow> as_string (map_of obj ''primary'');
     members \<leftarrow> as_array (map_of obj ''members'');
     ms \<leftarrow> those_list (map member_from_tree members);
     sig \<leftarrow> as_string (map_of obj ''signature'');
     Some \<lparr>u_Network = network, u_Version = version, u_IssuedAt = issuedAt, u_Relay = relay, u_NetworkKey = networkKey,
           u_Primary = primary, u_Members = ms, s_Signature = sig,
           s_extra = without obj [''network'', ''version'', ''issuedAt'', ''relay'', ''networkKey'', ''primary'', ''members'', ''signature'']\<rparr>
   }"

definition DecodeRoster :: "(string \<Rightarrow> token list \<times> bool) \<Rightarrow> string \<Rightarrow> SignedRoster option" where
  "DecodeRoster dec data = do { tree \<leftarrow> parseJSON dec data; rosterFromTree tree }"

definition NodeIDFromEd25519 :: "(bytes \<Rightarrow> bytes) \<Rightarrow> bytes \<Rightarrow> string" where
  "NodeIDFromEd25519 sha pub = b32 (take 16 (sha pub))"

definition memberProblem :: "primitives \<Rightarrow> RosterMember \<Rightarrow> unit option" where
  "memberProblem pr m = do {
     guard (IsNodeID (rm_ID m));
     ed \<leftarrow> fromB64uLen (rm_Ed25519 m) 32;
     x \<leftarrow> fromB64uLen (rm_X25519 m) 32;
     guard (NodeIDFromEd25519 (pr_sha pr) ed = rm_ID m)
   }"

text \<open>\<open>Problem\<close>'s loop over the members: sorted, and each an entry.\<close>

fun members_valid :: "primitives \<Rightarrow> string option \<Rightarrow> RosterMember list \<Rightarrow> bool" where
  "members_valid pr prev [] = True"
| "members_valid pr prev (m # ms) =
     (IsNodeID (rm_ID m) \<and> (case prev of None \<Rightarrow> True | Some p \<Rightarrow> \<not> p \<ge> rm_ID m)
      \<and> (case fromB64uLen (rm_Ed25519 m) 32 of
           None \<Rightarrow> False
         | Some ed \<Rightarrow> fromB64uLen (rm_X25519 m) 32 \<noteq> None \<and> NodeIDFromEd25519 (pr_sha pr) ed = rm_ID m)
      \<and> members_valid pr (Some (rm_ID m)) ms)"

text \<open>\<open>Some ()\<close> where \<open>Problem\<close> returns nil.\<close>

definition Problem :: "primitives \<Rightarrow> SignedRoster \<Rightarrow> unit option" where
  "Problem pr r = do {
     guard (IsNodeID (u_Network r));
     guard (\<not> (u_Version r < 1 \<or> u_Version r > 2 ^ 53 - 1));
     guard (\<not> (u_IssuedAt r < 0 \<or> u_IssuedAt r > 2 ^ 53 - 1));
     networkKey \<leftarrow> fromB64uLen (u_NetworkKey r) 32;
     guard (NodeIDFromEd25519 (pr_sha pr) networkKey = u_Network r);
     guard (IsNodeID (u_Primary r));
     guard (members_valid pr None (u_Members r));
     guard (u_Primary r \<in> rm_ID ` set (u_Members r));
     sz \<leftarrow> Roster_Size r;
     guard (\<not> sz > MaxRosterBytes);
     sig \<leftarrow> fromB64uLen (s_Signature r) 64;
     signed \<leftarrow> SigningBytes r;
     guard (verifyEd25519 (pr_verify pr) networkKey signed sig)
   }"

definition ValidateRoster :: "primitives \<Rightarrow> (string \<Rightarrow> token list \<times> bool) \<Rightarrow> string \<Rightarrow> SignedRoster option" where
  "ValidateRoster pr dec data = do { r \<leftarrow> DecodeRoster dec data; Problem pr r; Some r }"

definition AcceptanceProblem :: "primitives \<Rightarrow> SignedRoster \<Rightarrow> string \<Rightarrow> int \<Rightarrow> unit option" where
  "AcceptanceProblem pr candidate pinnedNetworkKey heldVersion = do {
     Problem pr candidate;
     guard (u_NetworkKey candidate = pinnedNetworkKey);
     guard (\<not> u_Version candidate \<le> heldVersion)
   }"

section \<open>Relay URLs\<close>

text \<open>
  The scheme \<open>net/url\<close> reads (\<open>getScheme\<close>, then lowercased): letters, and after the first
  character digits and \<open>+-.\<close>, up to a colon. \<open>None\<close> is an error; without a scheme it is empty.
\<close>

definition is_alpha :: "char \<Rightarrow> bool" where
  "is_alpha c \<longleftrightarrow> 65 \<le> (of_char c :: nat) \<and> of_char c \<le> (90 :: nat) \<or> 97 \<le> (of_char c :: nat) \<and> of_char c \<le> (122 :: nat)"

fun getScheme :: "string \<Rightarrow> string \<Rightarrow> string option" where
  "getScheme acc [] = Some []"
| "getScheme acc (c # s) =
     (if is_alpha c then getScheme (acc @ [c]) s
      else if is_digit c \<or> c \<in> set ''+-.'' then (if acc = [] then Some [] else getScheme (acc @ [c]) s)
      else if c = CHR '':'' then (if acc = [] then None else Some (map to_lower acc))
      else Some [])"

definition url_Parse :: "primitives \<Rightarrow> string \<Rightarrow> string option" where
  "url_Parse pr s = (case getScheme [] s of None \<Rightarrow> None | Some sch \<Rightarrow> if pr_url_rest pr s then Some sch else None)"

definition CutPrefix :: "string \<Rightarrow> string \<Rightarrow> string option" where
  "CutPrefix s p = (if take (length p) s = p then Some (drop (length p) s) else None)"

definition IsRelayURL :: "primitives \<Rightarrow> string \<Rightarrow> bool" where
  "IsRelayURL pr s =
     (case (case CutPrefix s ''ws://'' of Some rest \<Rightarrow> Some rest | None \<Rightarrow> CutPrefix s ''wss://'') of
        None \<Rightarrow> False
      | Some rest \<Rightarrow> if rest = [] \<or> hd rest \<in> set ''/?#'' then False else url_Parse pr s \<noteq> None)"

definition IsPlaced :: "('a UnsignedRoster_scheme) \<Rightarrow> bool" where
  "IsPlaced r \<longleftrightarrow> u_Relay r \<noteq> []"

section \<open>Making and placing networks\<close>

datatype roster_error = ErrInvalid | ErrRosterFull nat

record NetworkKey =
  nk_seed :: bytes
  nk_id :: string
  nk_edPub :: bytes

record Identity =
  id_ID :: string
  id_edPub :: bytes
  id_xPub :: bytes

definition NetworkKeyFromSeed :: "primitives \<Rightarrow> bytes \<Rightarrow> NetworkKey option" where
  "NetworkKeyFromSeed pr seed =
     (if length seed \<noteq> 32 then None
      else Some \<lparr>nk_seed = seed, nk_id = NodeIDFromEd25519 (pr_sha pr) (pr_netpub pr seed), nk_edPub = pr_netpub pr seed\<rparr>)"

definition MemberFromIdentity :: "Identity \<Rightarrow> RosterMember" where
  "MemberFromIdentity i = \<lparr>rm_ID = id_ID i, rm_Ed25519 = b64u (id_edPub i), rm_X25519 = b64u (id_xPub i), rm_extra = []\<rparr>"

definition signed_roster :: "UnsignedRoster \<Rightarrow> string \<Rightarrow> (string \<times> json) list \<Rightarrow> SignedRoster" where
  "signed_roster u sig ext = \<lparr>u_Network = u_Network u, u_Version = u_Version u, u_IssuedAt = u_IssuedAt u, u_Relay = u_Relay u,
     u_NetworkKey = u_NetworkKey u, u_Primary = u_Primary u, u_Members = u_Members u, s_Signature = sig, s_extra = ext\<rparr>"

definition SignRoster :: "primitives \<Rightarrow> UnsignedRoster \<Rightarrow> NetworkKey \<Rightarrow> SignedRoster option" where
  "SignRoster pr u key = do {
     let u = u\<lparr>u_Members := sort_key rm_ID (u_Members u)\<rparr>;
     signed \<leftarrow> SigningBytes (signed_roster u [] []);
     let r = signed_roster u (b64u (pr_netsign pr (nk_seed key) signed)) [];
     Problem pr r;
     Some r
   }"

definition CreateNetwork :: "primitives \<Rightarrow> Identity \<Rightarrow> string \<Rightarrow> int \<Rightarrow> bytes \<Rightarrow> (SignedRoster \<times> bytes) option" where
  "CreateNetwork pr primary relay now networkSeed = do {
     key \<leftarrow> NetworkKeyFromSeed pr networkSeed;
     r \<leftarrow> SignRoster pr \<lparr>u_Network = nk_id key, u_Version = 1, u_IssuedAt = now, u_Relay = relay, u_NetworkKey = b64u (nk_edPub key),
            u_Primary = id_ID primary, u_Members = [MemberFromIdentity primary]\<rparr> key;
     Some (r, nk_seed key)
   }"

text \<open>The members of version 1 beside the primary; \<open>None\<close> for an entry that is not one or is listed twice.\<close>

fun listed_members :: "primitives \<Rightarrow> RosterMember list \<Rightarrow> RosterMember list \<Rightarrow> RosterMember list option" where
  "listed_members pr acc [] = Some acc"
| "listed_members pr acc (m # ms) =
     (if memberProblem pr m = None then None
      else if rm_ID m \<in> rm_ID ` set acc then None
      else listed_members pr (acc @ [m\<lparr>rm_extra := []\<rparr>]) ms)"

definition sig_room :: string where "sig_room = replicate 86 (CHR ''A'')"

definition CreateNetworkWith ::
  "primitives \<Rightarrow> Identity option \<Rightarrow> string \<Rightarrow> RosterMember list \<Rightarrow> int \<Rightarrow> bytes option \<Rightarrow> int \<Rightarrow> bytes \<Rightarrow> roster_error + SignedRoster \<times> bytes" where
  "CreateNetworkWith pr oprimary relay ms nowMs oseed clock fresh =
     (case oprimary of
        None \<Rightarrow> Inl ErrInvalid
      | Some primary \<Rightarrow>
          let now = (if nowMs = 0 then clock else nowMs); seed = (case oseed of None \<Rightarrow> fresh | Some sd \<Rightarrow> sd)
          in if (case oseed of None \<Rightarrow> False | Some sd \<Rightarrow> length sd \<noteq> 32) then Inl ErrInvalid
             else if now < 0 \<or> now > 2 ^ 53 - 1 then Inl ErrInvalid
             else case listed_members pr [MemberFromIdentity primary] ms of
               None \<Rightarrow> Inl ErrInvalid
             | Some members \<Rightarrow>
                 (case NetworkKeyFromSeed pr seed of
                    None \<Rightarrow> Inl ErrInvalid
                  | Some key \<Rightarrow>
                      let u = \<lparr>u_Network = nk_id key, u_Version = 1, u_IssuedAt = now, u_Relay = relay, u_NetworkKey = b64u (nk_edPub key),
                               u_Primary = id_ID primary, u_Members = sort_key rm_ID members\<rparr>
                      in case Roster_Size (signed_roster u sig_room []) of
                           None \<Rightarrow> Inl ErrInvalid
                         | Some sz \<Rightarrow>
                             if sz > MaxRosterBytes then Inl (ErrRosterFull sz)
                             else case SignRoster pr u key of None \<Rightarrow> Inl ErrInvalid | Some r \<Rightarrow> Inr (r, nk_seed key)))"

definition PlaceNetwork :: "primitives \<Rightarrow> SignedRoster option \<Rightarrow> bytes \<Rightarrow> string \<Rightarrow> int \<Rightarrow> int \<Rightarrow> roster_error + SignedRoster" where
  "PlaceNetwork pr orr networkSeed relay nowMs clock =
     (case orr of
        None \<Rightarrow> Inl ErrInvalid
      | Some r \<Rightarrow>
          if Problem pr r = None then Inl ErrInvalid
          else if IsPlaced r then Inl ErrInvalid
          else if \<not> IsRelayURL pr relay then Inl ErrInvalid
          else case NetworkKeyFromSeed pr networkSeed of
            None \<Rightarrow> Inl ErrInvalid
          | Some key \<Rightarrow>
              if b64u (nk_edPub key) \<noteq> u_NetworkKey r then Inl ErrInvalid
              else let nowMs = (if nowMs = 0 then clock else nowMs)
                   in if nowMs < 0 \<or> nowMs > 2 ^ 53 - 1 then Inl ErrInvalid
                      else let nxt = r\<lparr>u_Version := u_Version r + 1, u_IssuedAt := max nowMs (u_IssuedAt r), u_Relay := relay, s_Signature := sig_room\<rparr>
                           in case Roster_Size nxt of
                                None \<Rightarrow> Inl ErrInvalid
                              | Some sz \<Rightarrow>
                                  if sz > MaxRosterBytes then Inl (ErrRosterFull sz)
                                  else case SigningBytes nxt of
                                    None \<Rightarrow> Inl ErrInvalid
                                  | Some msg \<Rightarrow>
                                      let nxt = nxt\<lparr>s_Signature := b64u (pr_netsign pr (nk_seed key) msg)\<rparr>
                                      in if Problem pr nxt = None then Inl ErrInvalid else Inr nxt)"

definition sameKey :: "string \<Rightarrow> bytes \<Rightarrow> bool" where
  "sameKey b64 raw = (case fromB64uLen b64 32 of None \<Rightarrow> False | Some k \<Rightarrow> length raw = 32 \<and> k = raw)"

section \<open>Resignations\<close>

record resignation =
  rs_Node :: string
  rs_TS :: int
  rs_Sig :: string

definition parseResignation :: "(string \<Rightarrow> token list \<times> bool) \<Rightarrow> string \<Rightarrow> resignation option" where
  "parseResignation dec data = do {
     tree \<leftarrow> parseJSON dec data;
     obj \<leftarrow> as_object tree;
     node \<leftarrow> as_string (map_of obj ''node'');
     ts \<leftarrow> safeInteger (map_of obj ''ts'');
     guard (\<not> ts < 0);
     sig \<leftarrow> as_string (map_of obj ''sig'');
     Some \<lparr>rs_Node = node, rs_TS = ts, rs_Sig = sig\<rparr>
   }"

definition verifyResignation :: "primitives \<Rightarrow> resignation \<Rightarrow> string \<Rightarrow> bytes \<Rightarrow> bool" where
  "verifyResignation pr r network pub =
     (case fromB64uLen (rs_Sig r) 64 of
        None \<Rightarrow> False
      | Some sig \<Rightarrow> verifyEd25519 (pr_verify pr) pub (resignSigningBytes network (rs_Node r) (rs_TS r)) sig)"

end
