(* ===== verification/Roster_Properties.thy ===== *)
theory Roster_Properties
  imports Rosters
begin

text \<open>
  What the two roster checks promise: a roster valid for the client is valid at the relay and means
  the same there, and the other way round when no string of it holds a line break (the relay's key
  decoder skips those); the client's lookup by binary search finds what a search of every entry
  finds; placing a network changes its relay and nothing else it signs.
\<close>

section \<open>Numbers\<close>

lemma dec_val_Nil [simp]: "dec_val [] = 0"
  by (simp add: dec_val_def)

lemma dec_val_lower: "n \<noteq> [] \<Longrightarrow> list_all is_digit n \<Longrightarrow> hd n \<noteq> CHR ''0'' \<Longrightarrow> 10 ^ (length n - 1) \<le> dec_val n"
proof (induction n rule: rev_induct)
  case (snoc d ds)
  show ?case
  proof (cases "ds = []")
    case True
    then have "d \<noteq> CHR ''0''" using snoc.prems by simp
    then have "of_char d \<noteq> (of_char (CHR ''0'') :: nat)" by (simp only: of_char_eq_iff not_False_eq_True)
    then have "of_char d \<noteq> (48 :: nat)" by simp
    then show ?thesis using snoc.prems True by (auto simp: dec_val_def digit_val_def is_digit_def undigits_def)
  next
    case False
    then have "10 ^ (length ds - 1) \<le> dec_val ds" using snoc by simp
    then have "10 ^ (length ds - 1) * 10 \<le> dec_val (ds @ [d])" by (simp add: dec_val_def)
    then show ?thesis using False by (cases ds) simp_all
  qed
qed simp

text \<open>A literal of digits alone, and what both sides read of it.\<close>

lemma starts_Nil [simp]: "\<not> starts [] c"
  by (simp add: starts_def)

lemma digits_unsigned: "list_all is_digit n \<Longrightarrow> \<not> starts n (CHR ''-'') \<and> \<not> starts n (CHR ''+'') \<and> cut_sign n = (False, n)"
  by (cases n) (auto simp: starts_def is_digit_def cut_sign_def)

lemma digits_number:
  assumes "is_number n" "list_all is_digit n"
  shows "split_number n = Some (False, n, [], 0)" "n \<noteq> []" "hd n = CHR ''0'' \<Longrightarrow> n = ''0''"
proof -
  have t: "takeWhile is_digit n = n" "dropWhile is_digit n = []" using assms(2) by (simp_all add: list_all_iff)
  have "split_number n = (if n = [] \<or> hd n = CHR ''0'' \<and> tl n \<noteq> [] then None else Some (False, n, [], 0))"
    using digits_unsigned [OF assms(2)] by (simp add: split_number_def Let_def t split_exp_def)
  then show "split_number n = Some (False, n, [], 0)" "n \<noteq> []" "hd n = CHR ''0'' \<Longrightarrow> n = ''0''"
    using assms(1) by (auto simp: is_number_def split: if_splits) (cases n, auto)
qed

lemma ParseInt_digits:
  "n \<noteq> [] \<Longrightarrow> list_all is_digit n \<Longrightarrow> ParseInt n = (if int (dec_val n) \<ge> 2 ^ 63 then None else Some (int (dec_val n)))"
  using digits_unsigned [of n] by (simp add: ParseInt_def)

lemma ParseInt_number:
  assumes "is_number n" "\<not> starts n (CHR ''-'')" "ParseInt n = Some i"
  shows "list_all is_digit n"
proof -
  have "\<not> starts n (CHR ''+'')"
    using assms(1,2) by (cases n) (auto simp: is_number_def split_number_def starts_def is_digit_def)
  then have "cut_sign n = (False, n)" using assms(2) by (simp add: cut_sign_def)
  then show ?thesis using assms(3) by (auto simp: ParseInt_def Let_def split: if_splits)
qed

lemma integers_agree:
  assumes "is_number n"
  shows "integer (Some (JNum n)) = safeInteger (Some (JNum n))"
proof (cases "list_all is_digit n")
  case True
  note d = digits_number [OF assms True]
  have long: "int (2 ^ 53) \<le> int (dec_val n)" if "length n > 16"
  proof -
    have "hd n \<noteq> CHR ''0''" using d(3) that by auto
    then have "10 ^ (length n - 1) \<le> dec_val n" using dec_val_lower d(2) True by blast
    moreover have "(10 :: nat) ^ 16 \<le> 10 ^ (length n - 1)" using that by (intro power_increasing) simp_all
    ultimately show ?thesis by (subst of_nat_le_iff) simp
  qed
  show ?thesis
    using digits_unsigned [OF True] d(2) True long ParseInt_digits [OF d(2) True]
    by (auto simp: integer_def safeInteger_def maxSafeInteger_def)
next
  case False
  then have "\<not> starts n (CHR ''-'') \<Longrightarrow> ParseInt n = None" using ParseInt_number [OF assms] by fastforce
  then show ?thesis using False by (auto simp: integer_def safeInteger_def)
qed

section \<open>Keys and ids\<close>

lemma fromB64uLen_DecodeKey: "fromB64uLen s n = Some b \<Longrightarrow> DecodeKey s n = Some b"
  by (auto simp: fromB64uLen_def fromB64u_def DecodeKey_def split: if_splits)

lemma DecodeKey_fromB64uLen: "CR \<notin> set s \<Longrightarrow> LF \<notin> set s \<Longrightarrow> fromB64uLen s n = DecodeKey s n"
  by (simp add: fromB64uLen_def fromB64u_def DecodeKey_def)

lemma IsNodeID_iff: "IsNodeID s \<longleftrightarrow> (\<exists>i. length i = IDLen \<and> s = ID_String i)"
  by (auto simp: IsNodeID_def nodeIDToBytes_Some_iff not_None_eq)

lemma ParseID_IsNodeID: "ParseID s = Some i \<Longrightarrow> IsNodeID s" and IsNodeID_ParseID: "IsNodeID s \<Longrightarrow> \<exists>i. ParseID s = Some i"
  by (auto simp: IsNodeID_iff ParseID_Some_iff)

text \<open>An id derived from a key, as bytes at the relay and as text at the client; the hash is 32 bytes.\<close>

lemma derived_agree:
  assumes "length (pr_sha pr pub) = 32" "ParseID s = Some i"
  shows "IDFromKey (pr_sha pr) pub = i \<longleftrightarrow> NodeIDFromEd25519 (pr_sha pr) pub = s"
proof -
  have s: "s = ID_String i" "length i = IDLen" using assms(2) by (simp_all add: ParseID_Some_iff)
  have "NodeIDFromEd25519 (pr_sha pr) pub = ID_String (IDFromKey (pr_sha pr) pub)"
    by (simp add: NodeIDFromEd25519_def IDFromKey_def ID_String_b32 IDLen_def)
  moreover have "length (IDFromKey (pr_sha pr) pub) = IDLen" using assms(1) by (simp add: IDFromKey_def IDLen_def)
  ultimately show ?thesis using s ID_String_inject by metis
qed

section \<open>The canonical form of a roster read and written again\<close>

lemma distinct_keys_set: "distinct (map fst m) \<Longrightarrow> (k, v) \<in> set m \<longleftrightarrow> map_of m k = Some v"
  by simp

lemma appendJCS_map_cong:
  assumes "distinct (map fst a)" "distinct (map fst b)" "\<And>k. map_option appendJCS (map_of a k) = map_option appendJCS (map_of b k)"
  shows "appendJCS (JObj a) = appendJCS (JObj b)"
proof (rule appendJCS_perm [OF _ assms(1)])
  let ?f = "\<lambda>(k, v). (k, appendJCS v)"
  have keys: "map fst (map ?f m) = map fst m" for m by (induction m) auto
  have d: "distinct (map ?f a)" "distinct (map ?f b)"
    using assms(1,2) keys [of a] keys [of b] by (metis distinct_map)+
  have mem: "(k, x) \<in> set (map ?f m) \<longleftrightarrow> map_option appendJCS (map_of m k) = Some x" if "distinct (map fst m)" for m k x
    unfolding map_option_eq_Some by (auto simp: distinct_keys_set [OF that, symmetric])
  have "(k, x) \<in> set (map ?f a) \<longleftrightarrow> (k, x) \<in> set (map ?f b)" for k x
    using mem [OF assms(1)] mem [OF assms(2)] assms(3) by presburger
  then have "set (map ?f a) = set (map ?f b)" by (simp only: set_eq_iff split_paired_all) simp
  then show "mset (map ?f a) = mset (map ?f b)" using d by (simp only: set_eq_iff_mset_eq_distinct)
qed

lemma ParseFloat_integer:
  assumes "is_number n" "safeInteger (Some (JNum n)) = Some i"
  shows "ParseFloat n = (Fin (of_int i), False)" "f64 (of_int i) = of_int i"
proof -
  have n: "list_all is_digit n" "n \<noteq> []" "ParseInt n = Some i" "i \<le> 2 ^ 53 - 1"
    using assms(2) by (auto simp: safeInteger_def split: if_splits option.splits)
  then have i: "i = int (dec_val n)" using ParseInt_digits [of n] by (auto split: if_splits)
  have v: "number_value (False, n, [], 0) = of_int i" by (simp add: number_value_def i)
  show f: "f64 (of_int i) = of_int i" using f64.rnd_int [of i] n(4) i by simp
  moreover have "\<bar>of_int i :: rat\<bar> < 2 ^ 1024"
  proof -
    have "(of_int i :: rat) \<le> of_int (2 ^ 53 - 1)" using n(4) by (simp only: of_int_le_iff)
    moreover have "(of_int (2 ^ 53 - 1) :: rat) < 2 ^ 1024" by simp
    ultimately show ?thesis using i by simp
  qed
  ultimately show "ParseFloat n = (Fin (of_int i), False)" using digits_number(1) [OF assms(1) n(1)] v by (simp add: ParseFloat_def Let_def)
qed

lemma appendJCS_integer:
  "is_number n \<Longrightarrow> safeInteger (Some (JNum n)) = Some i \<Longrightarrow> appendJCS (JInt i) = appendJCS (JNum n)"
  using ParseFloat_integer by simp

lemma map_of_fold_update:
  "distinct (map fst ext) \<Longrightarrow>
   map_of (fold (\<lambda>(k, v) t. if k \<noteq> z then AList.update k v t else t) ext t) k
     = (if k \<noteq> z \<and> map_of ext k \<noteq> None then map_of ext k else map_of t k)"
proof (induction ext arbitrary: t)
  case (Cons p ext)
  obtain a b where p: "p = (a, b)" by fastforce
  have "map_of ext a = None" using Cons.prems p by (simp add: map_of_eq_None_iff)
  then show ?case using Cons p by (auto simp: update_conv')
qed simp

lemma distinct_fold_update:
  "distinct (map fst t) \<Longrightarrow> distinct (map fst (fold (\<lambda>(k, v) t. if k \<noteq> z then AList.update k v t else t) ext t))"
  by (induction ext arbitrary: t) (auto simp: distinct_update)

lemma map_of_without: "map_of (without m ks) k = (if k \<in> set ks then None else map_of m k)"
  by (induction m) (auto simp: without_def)

lemma distinct_without: "distinct (map fst m) \<Longrightarrow> distinct (map fst (without m ks))"
  by (induction m) (auto simp: without_def)

lemma as_string_Some [simp]: "as_string x = Some s \<longleftrightarrow> x = Some (JStr s)"
  by (cases x rule: as_string.cases) auto

lemma as_object_Some [simp]: "as_object x = Some m \<longleftrightarrow> x = JObj m"
  by (cases x) auto

lemma as_array_Some [simp]: "as_array x = Some a \<longleftrightarrow> x = Some (JArr a)"
  by (cases x rule: as_array.cases) auto

lemma member_tree_JCS:
  assumes "member_from_tree mv = Some m" "acceptable bad deep d mv"
  shows "appendJCS (member_tree m) = appendJCS mv"
proof -
  obtain o1 where mv: "mv = JObj o1" and f: "map_of o1 ''id'' = Some (JStr (rm_ID m))" "map_of o1 ''ed25519'' = Some (JStr (rm_Ed25519 m))"
      "map_of o1 ''x25519'' = Some (JStr (rm_X25519 m))" "rm_extra m = without o1 [''id'', ''ed25519'', ''x25519'']"
    using assms(1) by (auto simp: member_from_tree_def bind_eq_Some_conv)
  have d: "distinct (map fst o1)" using assms(2) by (simp add: mv)
  show ?thesis unfolding member_tree_def mv
  proof (rule appendJCS_map_cong)
    show "distinct (map fst (fold (\<lambda>(k, v). AList.update k v) [(''id'', JStr (rm_ID m)), (''ed25519'', JStr (rm_Ed25519 m)), (''x25519'', JStr (rm_X25519 m))] (rm_extra m)))"
      using d by (simp add: f(4) distinct_update distinct_without)
    show "distinct (map fst o1)" by (rule d)
    fix k
    show "map_option appendJCS (map_of (fold (\<lambda>(k, v). AList.update k v) [(''id'', JStr (rm_ID m)), (''ed25519'', JStr (rm_Ed25519 m)), (''x25519'', JStr (rm_X25519 m))] (rm_extra m)) k)
      = map_option appendJCS (map_of o1 k)"
      using f by (auto simp: update_conv' map_of_without)
  qed
qed

lemma safeInteger_literal: "safeInteger v = Some i \<Longrightarrow> \<exists>n. v = Some (JNum n)"
  by (auto simp: safeInteger_def split: option.splits json.splits)

lemma roster_tree_map:
  assumes "rosterFromTree (JObj obj) = Some r" "distinct (map fst obj)" "k \<noteq> ''signature'' \<or> w"
    and "\<And>n. k \<in> {''version'', ''issuedAt''} \<Longrightarrow> map_of obj k = Some (JNum n) \<Longrightarrow> is_number n"
    and "\<And>mv ms. map_of obj ''members'' = Some (JArr ms) \<Longrightarrow> mv \<in> set ms \<Longrightarrow> acceptable bad deep d mv"
  shows "map_option appendJCS (map_of (roster_tree r w) k) = map_option appendJCS (map_of obj k)"
proof -
  obtain ms where f: "map_of obj ''network'' = Some (JStr (u_Network r))" "safeInteger (map_of obj ''version'') = Some (u_Version r)"
      "safeInteger (map_of obj ''issuedAt'') = Some (u_IssuedAt r)" "map_of obj ''relay'' = Some (JStr (u_Relay r))"
      "map_of obj ''networkKey'' = Some (JStr (u_NetworkKey r))" "map_of obj ''primary'' = Some (JStr (u_Primary r))"
      "map_of obj ''members'' = Some (JArr ms)" "those_list (map member_from_tree ms) = Some (u_Members r)"
      "map_of obj ''signature'' = Some (JStr (s_Signature r))"
      "s_extra r = without obj [''network'', ''version'', ''issuedAt'', ''relay'', ''networkKey'', ''primary'', ''members'', ''signature'']"
    using assms(1) by (auto simp: rosterFromTree_def bind_eq_Some_conv)
  have ext: "distinct (map fst (s_extra r))" using assms(2) by (simp add: f(10) distinct_without)
  have num: "map_option appendJCS (Some (JInt i)) = map_option appendJCS (map_of obj k)"
    if h: "safeInteger (map_of obj k) = Some i" "k \<in> {''version'', ''issuedAt''}" for i
  proof -
    obtain n where n: "map_of obj k = Some (JNum n)" using safeInteger_literal [OF h(1)] by blast
    then have "is_number n" using assms(4) h(2) by blast
    then show ?thesis using h n appendJCS_integer by simp
  qed
  have mem: "appendJCS (JArr (map member_tree (u_Members r))) = appendJCS (JArr ms)"
  proof -
    have "map member_from_tree ms = map Some (u_Members r)" using f(8) by (simp add: those_list_map_Some)
    then have "list_all2 (\<lambda>mv m. member_from_tree mv = Some m) ms (u_Members r)"
      by (auto simp: list_all2_conv_all_nth list_eq_iff_nth_eq)
    then have "list_all2 (\<lambda>mv m. appendJCS (member_tree m) = appendJCS mv) ms (u_Members r)"
      using assms(5) [OF f(7)] member_tree_JCS [of _ _ bad deep d] by (auto simp: list_all2_conv_all_nth)
    then have "map appendJCS (map member_tree (u_Members r)) = map appendJCS ms"
      by (auto simp: list_all2_conv_all_nth list_eq_iff_nth_eq)
    then show ?thesis by (simp del: map_map)
  qed
  let ?K = "{''network'', ''version'', ''issuedAt'', ''relay'', ''networkKey'', ''primary'', ''members''}"
  have known: "map_option appendJCS (map_of (unsigned_tree r) k) = map_option appendJCS (map_of obj k)" if "k \<in> ?K"
    using that f num mem by (auto simp: unsigned_tree_def)
  have base: "map_of (unsigned_tree r) k = None" if "k \<notin> ?K"
    using that by (simp add: unsigned_tree_def)
  have sgk: "''signature'' \<notin> ?K" by simp
  have extk: "map_of (s_extra r) k = (if k \<in> ?K \<or> k = ''signature'' then None else map_of obj k)"
    unfolding f(10) map_of_without by (rule if_cong) (simp_all only: list.set insert_iff empty_iff disj_assoc disj_ac)
  have tree: "map_of (roster_tree r w) k =
      (if k = ''signature'' then Some (JStr (s_Signature r)) else if k \<in> ?K then map_of (unsigned_tree r) k else map_of obj k)"
  proof (cases "k = ''signature''")
    case True
    then show ?thesis using assms(3) by (simp only: roster_tree_def Let_def update_conv' fun_upd_same if_True not_True_eq_False simp_thms)
  next
    case False
    then have "map_of (roster_tree r w) k = (if map_of (s_extra r) k \<noteq> None then map_of (s_extra r) k else map_of (unsigned_tree r) k)"
      using map_of_fold_update [OF ext, of "''signature''" "unsigned_tree r" k]
      by (cases w) (simp_all only: roster_tree_def Let_def update_conv' fun_upd_def if_True if_False simp_thms)
    then show ?thesis using False extk base by (cases "k \<in> ?K"; cases "map_of obj k") (simp_all only: if_True if_False simp_thms option.distinct)
  qed
  show ?thesis using tree known f(9) sgk by (cases "k = ''signature''"; cases "k \<in> ?K") (simp_all only: if_True if_False simp_thms)
qed

section \<open>The members\<close>

text \<open>No string of a document holds a line break.\<close>

fun no_breaks :: "json \<Rightarrow> bool" where
  "no_breaks (JStr s) = (CR \<notin> set s \<and> LF \<notin> set s)"
| "no_breaks (JArr xs) = list_all no_breaks xs"
| "no_breaks (JObj m) = list_all (\<lambda>(k, v). no_breaks v) m"
| "no_breaks _ = True"

lemma no_breaks_field: "no_breaks (JObj m) \<Longrightarrow> map_of m k = Some (JStr s) \<Longrightarrow> CR \<notin> set s \<and> LF \<notin> set s"
  by (fastforce simp: list_all_iff dest: map_of_SomeD)

lemma empty_key: "DecodeKey [] 32 = None" and empty_id: "ParseID [] = None"
  by (simp_all add: DecodeKey_def B64u_DecodeString_def strip_newlines_def ParseID_def rx_decode.simps)

lemma entry_of_member:
  assumes "member_from_tree mv = Some m" "IsNodeID (rm_ID m)" "fromB64uLen (rm_Ed25519 m) 32 = Some ed"
    "fromB64uLen (rm_X25519 m) 32 = Some x" "NodeIDFromEd25519 (pr_sha pr) ed = rm_ID m" "length (pr_sha pr ed) = 32"
  obtains e where "roster_entry pr mv = Some (rm_ID m, e)" "ID_String (m_ID e) = rm_ID m" "length (m_ID e) = IDLen"
proof -
  obtain i where i: "ParseID (rm_ID m) = Some i" using IsNodeID_ParseID assms(2) by blast
  have "IDFromKey (pr_sha pr) ed = i" using derived_agree [OF assms(6) i] assms(5) by simp
  then have "roster_entry pr mv = Some (rm_ID m, \<lparr>m_ID = i, m_Ed25519 = ed\<rparr>)"
    using assms(1) i fromB64uLen_DecodeKey [OF assms(3)] fromB64uLen_DecodeKey [OF assms(4)]
    by (auto simp: member_from_tree_def roster_entry_def keyField_def bind_eq_Some_conv Let_def)
  then show ?thesis using that i by (simp add: ParseID_Some_iff)
qed

lemma member_of_entry:
  assumes "roster_entry pr mv = Some (s, e)" "no_breaks mv" "\<And>x. length (pr_sha pr x) = 32"
  obtains m where "member_from_tree mv = Some m" "rm_ID m = s" "ID_String (m_ID e) = s" "length (m_ID e) = IDLen"
    "IsNodeID s" "fromB64uLen (rm_Ed25519 m) 32 = Some (m_Ed25519 e)" "fromB64uLen (rm_X25519 m) 32 \<noteq> None"
    "NodeIDFromEd25519 (pr_sha pr) (m_Ed25519 e) = s"
proof -
  obtain o1 i pub x where mv: "mv = JObj o1"
      and f: "ParseID (case as_string (map_of o1 ''id'') of None \<Rightarrow> [] | Some s \<Rightarrow> s) = Some i" "keyField o1 ''ed25519'' = Some pub"
        "keyField o1 ''x25519'' = Some x" "IDFromKey (pr_sha pr) pub = i"
        "s = (case as_string (map_of o1 ''id'') of None \<Rightarrow> [] | Some s \<Rightarrow> s)" "e = \<lparr>m_ID = i, m_Ed25519 = pub\<rparr>"
    using assms(1) by (auto simp: roster_entry_def bind_eq_Some_conv Let_def)
  have id: "map_of o1 ''id'' = Some (JStr s)" using f(1,5) empty_id by (cases "as_string (map_of o1 ''id'')") auto
  obtain ed xs where k: "map_of o1 ''ed25519'' = Some (JStr ed)" "map_of o1 ''x25519'' = Some (JStr xs)"
      "DecodeKey ed 32 = Some pub" "DecodeKey xs 32 = Some x"
    using f(2,3) empty_key unfolding keyField_def
    by (cases "as_string (map_of o1 ''ed25519'')"; cases "as_string (map_of o1 ''x25519'')") auto
  have c: "fromB64uLen ed 32 = Some pub" "fromB64uLen xs 32 = Some x"
    using k no_breaks_field assms(2) unfolding mv by (metis DecodeKey_fromB64uLen)+
  have p: "ParseID s = Some i" using f(1,5) by simp
  show ?thesis
    using that [of "\<lparr>rm_ID = s, rm_Ed25519 = ed, rm_X25519 = xs, rm_extra = without o1 [''id'', ''ed25519'', ''x25519'']\<rparr>"]
      id k c f(4,6) p derived_agree [OF assms(3) p] ParseID_IsNodeID [OF p]
    by (auto simp: mv member_from_tree_def ParseID_Some_iff)
qed

lemma entries_of_members:
  assumes "map member_from_tree mvs = map Some ms" "members_valid pr prev ms" "\<And>x. length (pr_sha pr x) = 32"
  shows "\<exists>es. roster_entries pr prev mvs = Some es \<and> map (\<lambda>e. ID_String (m_ID e)) es = map rm_ID ms \<and> list_all (\<lambda>e. length (m_ID e) = IDLen) es"
  using assms(1,2)
proof (induction mvs arbitrary: ms prev)
  case (Cons mv mvs)
  then obtain m ms' where ms: "ms = m # ms'" "member_from_tree mv = Some m" "map member_from_tree mvs = map Some ms'"
    by (cases ms) auto
  obtain ed x where v: "IsNodeID (rm_ID m)" "fromB64uLen (rm_Ed25519 m) 32 = Some ed" "fromB64uLen (rm_X25519 m) 32 = Some x"
      "NodeIDFromEd25519 (pr_sha pr) ed = rm_ID m" "members_valid pr (Some (rm_ID m)) ms'"
      "case prev of None \<Rightarrow> True | Some p \<Rightarrow> \<not> rm_ID m \<le> p"
    using Cons.prems(2) unfolding ms(1) by (auto split: option.splits)
  obtain e where e: "roster_entry pr mv = Some (rm_ID m, e)" "ID_String (m_ID e) = rm_ID m" "length (m_ID e) = IDLen"
    using entry_of_member [OF ms(2) v(1-4) assms(3)] .
  obtain es where "roster_entries pr (Some (rm_ID m)) mvs = Some es" "map (\<lambda>e. ID_String (m_ID e)) es = map rm_ID ms'" "list_all (\<lambda>e. length (m_ID e) = IDLen) es"
    using Cons.IH [OF ms(3) v(5)] by blast
  then show ?case using e v(6) by (auto simp: ms(1) bind_eq_Some_conv)
qed simp

lemma members_of_entries:
  assumes "roster_entries pr prev mvs = Some es" "list_all no_breaks mvs" "\<And>x. length (pr_sha pr x) = 32"
  shows "\<exists>ms. map member_from_tree mvs = map Some ms \<and> members_valid pr prev ms \<and> map (\<lambda>e. ID_String (m_ID e)) es = map rm_ID ms
    \<and> list_all (\<lambda>e. length (m_ID e) = IDLen) es"
  using assms(1,2)
proof (induction mvs arbitrary: es prev)
  case (Cons mv mvs)
  then obtain s e es' where e: "roster_entry pr mv = Some (s, e)" "case prev of None \<Rightarrow> True | Some p \<Rightarrow> \<not> s \<le> p"
      "roster_entries pr (Some s) mvs = Some es'" "es = e # es'"
    by (auto simp: bind_eq_Some_conv)
  obtain m where m: "member_from_tree mv = Some m" "rm_ID m = s" "ID_String (m_ID e) = s" "length (m_ID e) = IDLen"
    "IsNodeID s" "fromB64uLen (rm_Ed25519 m) 32 = Some (m_Ed25519 e)" "fromB64uLen (rm_X25519 m) 32 \<noteq> None"
    "NodeIDFromEd25519 (pr_sha pr) (m_Ed25519 e) = s"
    using member_of_entry [OF e(1) _ assms(3)] Cons.prems(2) by auto
  obtain ms where "map member_from_tree mvs = map Some ms" "members_valid pr (Some s) ms" "map (\<lambda>e. ID_String (m_ID e)) es' = map rm_ID ms"
      "list_all (\<lambda>e. length (m_ID e) = IDLen) es'"
    using Cons.IH [OF e(3)] Cons.prems(2) by auto
  then show ?case using e(2,4) m by (intro exI [of _ "m # ms"]) (auto split: option.splits)
qed simp

section \<open>Whole rosters\<close>

lemma distinct_roster_tree:
  assumes "distinct (map fst (s_extra r))"
  shows "distinct (map fst (roster_tree r w))"
proof -
  have "distinct (map fst (unsigned_tree r))" by (simp add: unsigned_tree_def)
  then show ?thesis by (auto simp: roster_tree_def Let_def intro!: distinct_update distinct_fold_update)
qed

lemma rosterFromTree_extra:
  "rosterFromTree (JObj obj) = Some r \<Longrightarrow> distinct (map fst obj) \<Longrightarrow> distinct (map fst (s_extra r))"
  by (auto simp: rosterFromTree_def bind_eq_Some_conv distinct_without)

text \<open>A document with JSON numbers that a parser accepted.\<close>

definition read_object :: "(string \<times> json) list \<Rightarrow> bool" where
  "read_object obj \<longleftrightarrow> (\<exists>bad deep d. acceptable bad deep d (JObj obj)) \<and> (\<forall>k n. map_of obj k = Some (JNum n) \<longrightarrow> is_number n)"

lemma read_object_distinct: "read_object obj \<Longrightarrow> distinct (map fst obj)"
  by (auto simp: read_object_def)

lemma roster_tree_field:
  assumes "rosterFromTree (JObj obj) = Some r" "read_object obj" "k \<noteq> ''signature'' \<or> w"
  shows "map_option appendJCS (map_of (roster_tree r w) k) = map_option appendJCS (map_of obj k)"
proof -
  obtain bad deep d where a: "acceptable bad deep d (JObj obj)" using assms(2) by (auto simp: read_object_def)
  have "acceptable bad deep (Suc (Suc d)) mv" if "map_of obj ''members'' = Some (JArr ms)" "mv \<in> set ms" for ms mv
    using a that by (auto simp: list_all_iff dest!: map_of_SomeD)
  then show ?thesis
    using assms read_object_distinct [OF assms(2)] by (intro roster_tree_map) (auto simp: read_object_def)
qed

lemma JCS_read:
  assumes "rosterFromTree (JObj obj) = Some r" "read_object obj"
  shows "Roster_JCS r = appendJCS (JObj obj)"
  unfolding Roster_JCS_def
  using assms roster_tree_field [OF assms]
  by (intro appendJCS_map_cong) (simp_all add: distinct_roster_tree rosterFromTree_extra read_object_distinct)

lemma SigningBytes_read:
  assumes "rosterFromTree (JObj obj) = Some r" "read_object obj"
  shows "SigningBytes r = SigningInput obj"
proof -
  let ?o = "without obj [''signature'']"
  have "map_option appendJCS (map_of (roster_tree r False) k) = map_option appendJCS (map_of ?o k)" for k
  proof (cases "k = ''signature''")
    case True
    have "map_of (roster_tree r False) k = None"
      using map_of_fold_update [OF rosterFromTree_extra [OF assms(1) read_object_distinct [OF assms(2)]], of "''signature''" "unsigned_tree r" k] True
      by (simp add: roster_tree_def unsigned_tree_def)
    then show ?thesis using True by (simp add: map_of_without)
  qed (use roster_tree_field [OF assms] in \<open>simp add: map_of_without\<close>)
  then have "appendJCS (JObj (roster_tree r False)) = appendJCS (JObj ?o)"
    using assms by (intro appendJCS_map_cong) (simp_all add: distinct_roster_tree rosterFromTree_extra read_object_distinct distinct_without)
  moreover have "?o = filter (\<lambda>(k, v). k \<noteq> ''signature'') obj" by (auto simp: without_def intro: filter_cong)
  ultimately show ?thesis by (simp only: SigningBytes_def SigningInput_def)
qed

definition same_roster :: "Roster \<Rightarrow> SignedRoster \<Rightarrow> bool" where
  "same_roster R r \<longleftrightarrow> ID_String (r_Network R) = u_Network r \<and> r_Version R = u_Version r \<and> r_IssuedAt R = u_IssuedAt r
     \<and> Some (r_NetworkKey R) = fromB64uLen (u_NetworkKey r) 32 \<and> ID_String (r_Primary R) = u_Primary r
     \<and> map (\<lambda>e. ID_String (m_ID e)) (r_Members R) = map rm_ID (u_Members r)"

lemma on_members:
  assumes "map (\<lambda>e. ID_String (m_ID e)) es = map rm_ID ms" "list_all (\<lambda>e. length (m_ID e) = IDLen) es" "length i = IDLen"
  shows "i \<in> m_ID ` set es \<longleftrightarrow> ID_String i \<in> rm_ID ` set ms"
proof -
  have "rm_ID ` set ms = (\<lambda>e. ID_String (m_ID e)) ` set es" using assms(1) by (metis image_set)
  moreover have "ID_String i = ID_String (m_ID e) \<longleftrightarrow> i = m_ID e" if "e \<in> set es" for e
    using that assms(2,3) ID_String_inject by (auto simp: list_all_iff)
  ultimately show ?thesis by (auto simp: image_iff)
qed

lemma object_numbers:
  assumes "read_object obj" "map_of obj k = Some (JNum n)"
  shows "integer (map_of obj k) = safeInteger (map_of obj k)"
  using assms integers_agree by (auto simp: read_object_def)

lemma integer_literal: "integer v = Some i \<Longrightarrow> \<exists>n. v = Some (JNum n)"
  by (auto simp: integer_def split: option.splits json.splits)

lemma fields_agree: "read_object obj \<Longrightarrow> integer (map_of obj k) = safeInteger (map_of obj k)"
  using object_numbers integer_literal safeInteger_literal by (metis not_None_eq)

lemma Roster_Member_ne: "Roster_Member R i \<noteq> None \<longleftrightarrow> i \<in> m_ID ` set (r_Members R)"
  by (metis on_roster_def on_roster_iff)

lemma client_valid_relay_valid:
  assumes r: "rosterFromTree (JObj obj) = Some r" and p: "Problem pr r = Some ()" and ok: "read_object obj" "\<And>x. length (pr_sha pr x) = 32"
  shows "\<exists>R. roster_of_object pr raw obj = Some R \<and> same_roster R r"
proof -
  obtain mvs where f: "map_of obj ''network'' = Some (JStr (u_Network r))" "safeInteger (map_of obj ''version'') = Some (u_Version r)"
      "safeInteger (map_of obj ''issuedAt'') = Some (u_IssuedAt r)" "map_of obj ''relay'' = Some (JStr (u_Relay r))"
      "map_of obj ''networkKey'' = Some (JStr (u_NetworkKey r))" "map_of obj ''primary'' = Some (JStr (u_Primary r))"
      "map_of obj ''members'' = Some (JArr mvs)" "map member_from_tree mvs = map Some (u_Members r)"
      "map_of obj ''signature'' = Some (JStr (s_Signature r))"
    using r by (auto simp: rosterFromTree_def bind_eq_Some_conv those_list_map_Some)
  obtain key whole sg msg where q: "IsNodeID (u_Network r)" "1 \<le> u_Version r" "0 \<le> u_IssuedAt r" "fromB64uLen (u_NetworkKey r) 32 = Some key"
      "NodeIDFromEd25519 (pr_sha pr) key = u_Network r" "IsNodeID (u_Primary r)" "members_valid pr None (u_Members r)"
      "u_Primary r \<in> rm_ID ` set (u_Members r)" "Roster_JCS r = Some whole" "length whole \<le> MaxRosterBytes" "fromB64uLen (s_Signature r) 64 = Some sg"
      "SigningBytes r = Some msg" "verifyEd25519 (pr_verify pr) key msg sg"
    using p by (auto simp: Problem_def Roster_Size_def bind_eq_Some_conv)
  obtain net prim where ids: "ParseID (u_Network r) = Some net" "ParseID (u_Primary r) = Some prim"
    using IsNodeID_ParseID q(1,6) by meson
  obtain es where es: "roster_entries pr None mvs = Some es" "map (\<lambda>e. ID_String (m_ID e)) es = map rm_ID (u_Members r)"
      "list_all (\<lambda>e. length (m_ID e) = IDLen) es"
    using entries_of_members [OF f(8) q(7) ok(2)] by blast
  have n: "IDFromKey (pr_sha pr) key = net" using derived_agree [OF ok(2) ids(1)] q(5) by simp
  have mem: "prim \<in> m_ID ` set es" using on_members [OF es(2,3)] ids(2) q(8) by (simp add: ParseID_Some_iff)
  have ne: "mvs \<noteq> []" using q(8) f(8) by auto
  have k: "keyField obj ''networkKey'' = Some key" using fromB64uLen_DecodeKey [OF q(4)] f(5) by (simp add: keyField_def)
  have whole: "appendJCS (JObj obj) = Some whole" using JCS_read [OF r ok(1)] q(9) by metis
  have msg: "SigningInput obj = Some msg" using SigningBytes_read [OF r ok(1)] q(12) by metis
  have "roster_of_object pr raw obj = Some \<lparr>r_Network = net, r_Version = u_Version r, r_IssuedAt = u_IssuedAt r, r_NetworkKey = key,
      r_Primary = prim, r_Members = es, r_Raw = Some raw\<rparr>"
    unfolding roster_of_object_def
    using f(1-7,9) q(2,3,10,13) ids es(1) n mem ne k whole msg fromB64uLen_DecodeKey [OF q(11)]
    by (simp add: Roster_Member_ne guard_def Let_def fields_agree [OF ok(1)] verify_same del: not_None_eq appendJCS.simps)
  then show ?thesis using ids es q(4) by (auto simp: same_roster_def ParseID_Some_iff)
qed

lemma keyField_literal:
  assumes "keyField obj k = Some key" "no_breaks (JObj obj)"
  obtains s where "map_of obj k = Some (JStr s)" "fromB64uLen s 32 = Some key"
proof -
  obtain s where s: "map_of obj k = Some (JStr s)" "DecodeKey s 32 = Some key"
    using assms(1) empty_key unfolding keyField_def by (cases "as_string (map_of obj k)") auto
  then show ?thesis using that no_breaks_field [OF assms(2) s(1)] by (simp add: DecodeKey_fromB64uLen)
qed

lemma relay_valid_client_valid:
  assumes R: "roster_of_object pr raw obj = Some R" and nb: "no_breaks (JObj obj)" and ok: "read_object obj" "\<And>x. length (pr_sha pr x) = 32"
  shows "\<exists>r. rosterFromTree (JObj obj) = Some r \<and> Problem pr r = Some ()"
proof -
  obtain net nstr ver iat rel key prim pstr mvs es whole sgs sg msg where
      f: "map_of obj ''network'' = Some (JStr nstr)" "ParseID nstr = Some net" "safeInteger (map_of obj ''version'') = Some ver" "1 \<le> ver"
        "safeInteger (map_of obj ''issuedAt'') = Some iat" "0 \<le> iat" "map_of obj ''relay'' = Some (JStr rel)" "keyField obj ''networkKey'' = Some key"
        "map_of obj ''primary'' = Some (JStr pstr)" "ParseID pstr = Some prim" "map_of obj ''members'' = Some (JArr mvs)"
        "roster_entries pr None mvs = Some es" "prim \<in> m_ID ` set es" "IDFromKey (pr_sha pr) key = net"
        "appendJCS (JObj obj) = Some whole" "length whole \<le> MaxRosterBytes" "map_of obj ''signature'' = Some (JStr sgs)"
        "DecodeKey sgs 64 = Some sg" "SigningInput obj = Some msg" "VerifyEd25519 (pr_verify pr) key msg sg"
    using R unfolding roster_of_object_def bind_eq_Some_conv Let_def Roster_Member_ne fields_agree [OF ok(1)] guard_Some
    by (elim exE conjE) (simp del: appendJCS.simps)
  obtain ks where ks: "map_of obj ''networkKey'' = Some (JStr ks)" "fromB64uLen ks 32 = Some key" using keyField_literal [OF f(8) nb] .
  have sg: "fromB64uLen sgs 64 = Some sg" using f(18) no_breaks_field [OF nb f(17)] by (simp add: DecodeKey_fromB64uLen)
  have "list_all no_breaks mvs" using nb map_of_SomeD [OF f(11)] by (fastforce simp: list_all_iff)
  then obtain ms where ms: "map member_from_tree mvs = map Some ms" "members_valid pr None ms" "map (\<lambda>e. ID_String (m_ID e)) es = map rm_ID ms"
      "list_all (\<lambda>e. length (m_ID e) = IDLen) es"
    using members_of_entries [OF f(12) _ ok(2)] by blast
  define r where "r = \<lparr>u_Network = nstr, u_Version = ver, u_IssuedAt = iat, u_Relay = rel, u_NetworkKey = ks, u_Primary = pstr, u_Members = ms,
    s_Signature = sgs, s_extra = without obj [''network'', ''version'', ''issuedAt'', ''relay'', ''networkKey'', ''primary'', ''members'', ''signature'']\<rparr>"
  have r: "rosterFromTree (JObj obj) = Some r"
    using f(1,3,5,7,9,11,17) ks(1) ms(1) those_list_map_Some [of member_from_tree mvs ms] by (simp add: rosterFromTree_def r_def)
  have safe: "ver \<le> 2 ^ 53 - 1" "iat \<le> 2 ^ 53 - 1" using f(3,5) by (auto simp: safeInteger_def split: option.splits json.splits if_splits)
  have net: "NodeIDFromEd25519 (pr_sha pr) key = nstr" using derived_agree [OF ok(2) f(2)] f(14) by blast
  have prim: "pstr \<in> rm_ID ` set ms" using on_members [OF ms(3,4)] f(10,13) by (simp add: ParseID_Some_iff)
  have wh: "Roster_JCS r = Some whole" and sb: "SigningBytes r = Some msg" using JCS_read [OF r ok(1)] SigningBytes_read [OF r ok(1)] f(15,19) by metis+
  have "Problem pr r = Some ()"
    unfolding Problem_def Roster_Size_def wh sb bind_eq_Some_conv guard_Some
    using f(4,6,16,20) safe ks(2) net prim sg ms(2) ParseID_IsNodeID [OF f(2)] ParseID_IsNodeID [OF f(10)] by (simp add: r_def verify_same)
  then show ?thesis using r by blast
qed

lemma token_member: "map_of obj k = Some (JNum n) \<Longrightarrow> TNum n \<in> set (tokens_of (JObj obj))"
  by (force dest: map_of_SomeD)

lemma parsed_object:
  assumes "ParseJSON dec data = Some (JObj obj)" "\<And>s. TNum s \<in> set (fst (dec data)) \<Longrightarrow> is_number s"
  shows "read_object obj"
proof -
  obtain bad deep ts eof where "dec data = (ts, eof)" "parse_value bad deep 0 ts = Some (JObj obj, [])"
    using assms(1) by (cases "dec data") (auto simp: ParseJSON_def split: option.splits if_splits)
  then have "acceptable bad deep 0 (JObj obj)" "fst (dec data) = tokens_of (JObj obj)" by (auto simp: parse_exact)
  then show ?thesis using assms(2) token_member unfolding read_object_def by metis
qed

section \<open>Sizes\<close>

text \<open>Strings of printable ASCII but the quote and the backslash, which are written as they are.\<close>

definition plain :: "string \<Rightarrow> bool" where
  "plain s \<longleftrightarrow> list_all (\<lambda>c. 0x20 \<le> (of_char c :: nat) \<and> of_char c < (0x80 :: nat) \<and> of_char c \<noteq> (0x22 :: nat) \<and> of_char c \<noteq> (0x5c :: nat)) s"

lemma plain_JCS: "plain s \<Longrightarrow> appendJCSString s = Some (CHR 0x22 # s @ [CHR 0x22])"
proof -
  assume p: "plain s"
  then have "map jcs_char s = map (\<lambda>c. [c]) s" by (auto simp: plain_def list_all_iff jcs_char_def Let_def)
  then have "concat (map jcs_char s) = s" by (simp only: concat_map_singleton list.map_ident)
  moreover have "ValidString s" using p by (auto simp: plain_def ascii_def list_all_iff intro!: ascii_valid)
  ultimately show ?thesis by (simp add: appendJCSString_def)
qed

lemma plain_b64u: "plain (b64u b)"
proof -
  have "plain b64u_alphabet" by (simp add: plain_def b64u_alphabet_def)
  then show ?thesis using rx_encode_chars [OF b64c.radix_codec_axioms, of b] by (auto simp: plain_def b64u_def list_all_iff)
qed

lemma plain_ID: "plain (b32 b)"
proof -
  have "id_char c \<Longrightarrow> 0x20 \<le> (of_char c :: nat) \<and> of_char c < (0x80 :: nat) \<and> of_char c \<noteq> (0x22 :: nat) \<and> of_char c \<noteq> (0x5c :: nat)" for c
    by (auto simp: id_char_def)
  then show ?thesis using id_chars_b32 [of b] unfolding plain_def b32_def list_all_iff by blast
qed

lemma length_b64u: "length (b64u b) \<le> 2 * length b"
proof (induction b rule: length_induct)
  case (1 b)
  show ?case
  proof (cases "b = []")
    case False
    have "length (b64u b) = group_chars 6 (min (length b) 3) + length (b64u (drop 3 b))"
      using False by (simp add: b64u_def rx_encode.simps [of 6 3 b64u_alphabet b])
    moreover have "length (b64u (drop 3 b)) \<le> 2 * (length b - 3)" using 1 [rule_format, of "drop 3 b"] False by simp
    moreover have "group_chars 6 (min (length b) 3) \<le> 2 * min (length b) 3" by (simp add: group_chars_def)
    ultimately show ?thesis by simp
  qed (simp add: b64u_def rx_encode.simps)
qed

lemma length_comma_join: "length (comma_join xs) \<le> (\<Sum>x\<leftarrow>xs. length x + 1)"
  by (induction xs rule: comma_join.induct) auto

lemma object_size:
  assumes "\<And>k v. (k, v) \<in> set m \<Longrightarrow> plain k \<and> (\<exists>t. appendJCS v = Some t \<and> length t \<le> B k)"
  shows "\<exists>w. appendJCS (JObj m) = Some w \<and> length w \<le> 2 + (\<Sum>p\<leftarrow>m. length (fst p) + B (fst p) + 4)"
proof -
  let ?xs = "map (\<lambda>(k, v). (k, appendJCS v)) m" and ?s = "sort_key (\<lambda>p. utf16 (fst p))"
  let ?g = "\<lambda>p. CHR 0x22 # fst p @ [CHR 0x22] @ '':'' @ the (snd p)"
  have each: "member_text p = Some (?g p) \<and> length (?g p) + 1 \<le> length (fst p) + B (fst p) + 4" if p: "p \<in> set ?xs" for p
  proof -
    obtain k v where kv: "(k, v) \<in> set m" "p = (k, appendJCS v)" using p by auto
    then show ?thesis using assms [OF kv(1)] plain_JCS [of k] by (auto simp: member_text_def)
  qed
  have "those_list (map member_text (?s ?xs)) = Some (map ?g (?s ?xs))"
    using each by (simp add: those_list_map_Some)
  then have w: "appendJCS (JObj m) = Some (''{'' @ comma_join (map ?g (?s ?xs)) @ ''}'')" by simp
  have "length (comma_join (map ?g (?s ?xs))) \<le> (\<Sum>p\<leftarrow>?s ?xs. length (?g p) + 1)"
    using length_comma_join [of "map ?g (?s ?xs)"] by (simp add: comp_def)
  moreover have "(\<Sum>p\<leftarrow>?s ?xs. length (?g p) + 1) = (\<Sum>p\<leftarrow>?xs. length (?g p) + 1)"
    by (simp only: sum_mset_sum_list [symmetric] mset_map mset_sort)
  moreover have "(\<Sum>p\<leftarrow>?xs. length (?g p) + 1) \<le> (\<Sum>p\<leftarrow>?xs. length (fst p) + B (fst p) + 4)"
    using each by (intro sum_list_mono) blast
  moreover have "(\<Sum>p\<leftarrow>?xs. length (fst p) + B (fst p) + 4) = (\<Sum>p\<leftarrow>m. length (fst p) + B (fst p) + 4)"
    by (simp add: comp_def case_prod_beta)
  ultimately have "length (comma_join (map ?g (?s ?xs))) \<le> (\<Sum>p\<leftarrow>m. length (fst p) + B (fst p) + 4)" by (simp only:)
  then show ?thesis using w by (simp del: appendJCS.simps)
qed

lemma string_size: "ValidString s \<Longrightarrow> \<exists>t. appendJCS (JStr s) = Some t \<and> length t \<le> 6 * length s + 2"
proof -
  have "length (jcs_char c) \<le> 6" for c by (simp add: jcs_char_def Let_def)
  then have "length (concat (map jcs_char s)) \<le> 6 * length s" by (induction s) (simp_all add: add_mono)
  then show "ValidString s \<Longrightarrow> ?thesis" by (simp add: appendJCSString_def)
qed

lemma plain_size: "plain s \<Longrightarrow> length s + 2 \<le> n \<Longrightarrow> \<exists>t. appendJCS (JStr s) = Some t \<and> length t \<le> n"
  using plain_JCS by simp

lemma int_size: "0 \<le> i \<Longrightarrow> i < 2 ^ 53 \<Longrightarrow> \<exists>t. appendJCS (JInt i) = Some t \<and> length t \<le> 21"
proof -
  assume i: "0 \<le> i" "i < 2 ^ 53"
  have n: "nat i < 2 ^ 53" using i by (simp add: nat_less_iff)
  have "length (dec_digits (nat i)) \<le> 21"
  proof (cases "nat i = 0")
    case False
    then have "10 ^ (length (dec_digits (nat i)) - 1) \<le> nat i" using dec_digits_length [of "nat i"] by (simp only: neq0_conv)
    also have "nat i < 2 ^ 53" by (rule n)
    also have "(2 :: nat) ^ 53 < 10 ^ 21" by simp
    finally have "length (dec_digits (nat i)) - 1 < 21" by (simp only: power_strict_increasing_iff one_less_numeral_iff semiring_norm)
    then show ?thesis by simp
  qed (simp add: dec_digits_small)
  then show ?thesis using JInt_digits [OF n] i(1) by simp
qed

lemma member_size:
  assumes "rm_extra m = []" "plain (rm_ID m)" "length (rm_ID m) \<le> 26" "rm_Ed25519 m = b64u ed" "rm_X25519 m = b64u x" "length ed = 32" "length x = 32"
  shows "\<exists>t. appendJCS (member_tree m) = Some t \<and> length t \<le> 450"
proof -
  let ?t = "[(''id'', JStr (rm_ID m)), (''ed25519'', JStr (rm_Ed25519 m)), (''x25519'', JStr (rm_X25519 m))]"
  have v: "\<exists>t. appendJCS (JStr (rm_ID m)) = Some t \<and> length t \<le> 100" "\<exists>t. appendJCS (JStr (rm_Ed25519 m)) = Some t \<and> length t \<le> 100"
      "\<exists>t. appendJCS (JStr (rm_X25519 m)) = Some t \<and> length t \<le> 100"
    using assms plain_b64u length_b64u [of ed] length_b64u [of x] by (intro plain_size; simp)+
  have n: "plain ''id''" "plain ''ed25519''" "plain ''x25519''" by (simp_all add: plain_def)
  have "plain k \<and> (\<exists>t. appendJCS v = Some t \<and> length t \<le> 100)" if "(k, v) \<in> set ?t" for k v
    using that v n by (auto simp del: appendJCS.simps)
  then obtain t where "appendJCS (JObj ?t) = Some t" "length t \<le> 2 + (\<Sum>p\<leftarrow>?t. length (fst p) + 100 + 4)"
    using object_size [of ?t "\<lambda>_. 100"] by blast
  then show ?thesis by (simp add: member_tree_def assms(1) del: appendJCS.simps)
qed

section \<open>Making and placing a network\<close>

text \<open>An identity of this protocol: keys of 32 bytes and the id they give.\<close>

definition identity_ok :: "primitives \<Rightarrow> Identity \<Rightarrow> bool" where
  "identity_ok pr p \<longleftrightarrow> length (id_edPub p) = 32 \<and> length (id_xPub p) = 32 \<and> id_ID p = NodeIDFromEd25519 (pr_sha pr) (id_edPub p)"

lemma derived_ID:
  assumes "length (pr_sha pr k) = 32"
  shows "IsNodeID (NodeIDFromEd25519 (pr_sha pr) k)" "plain (NodeIDFromEd25519 (pr_sha pr) k)" "length (NodeIDFromEd25519 (pr_sha pr) k) = 26"
proof -
  show "plain (NodeIDFromEd25519 (pr_sha pr) k)" by (simp add: NodeIDFromEd25519_def plain_ID)
  show "IsNodeID (NodeIDFromEd25519 (pr_sha pr) k)"
    using assms by (auto simp: IsNodeID_iff NodeIDFromEd25519_def ID_String_b32 IDLen_def intro!: exI [of _ "take 16 (pr_sha pr k)"])
  show "length (NodeIDFromEd25519 (pr_sha pr) k) = 26" using assms by (simp add: NodeIDFromEd25519_def b32_def length_rx_encode_16)
qed

lemma fromB64uLen_b64u: "fromB64uLen (b64u b) n = (if length b = n then Some b else None)"
  by (simp add: fromB64uLen_def fromB64u_def b64u_no_newlines)

text \<open>A roster of one identity, as a new network has it.\<close>

definition one_member :: "primitives \<Rightarrow> Identity \<Rightarrow> bytes \<Rightarrow> SignedRoster \<Rightarrow> bool" where
  "one_member pr p key r \<longleftrightarrow> u_Network r = NodeIDFromEd25519 (pr_sha pr) key \<and> u_NetworkKey r = b64u key \<and> u_Primary r = id_ID p
     \<and> u_Members r = [MemberFromIdentity p] \<and> s_extra r = [] \<and> 1 \<le> u_Version r \<and> u_Version r < 2 ^ 53 \<and> 0 \<le> u_IssuedAt r \<and> u_IssuedAt r < 2 ^ 53
     \<and> ValidString (u_Relay r) \<and> length (u_Relay r) \<le> 10000"

lemma one_member_size:
  assumes "\<And>x. length (pr_sha pr x) = 32" "identity_ok pr p" "length key = 32" "one_member pr p key r" "plain (s_Signature r)" "length (s_Signature r) \<le> 128"
  shows "\<exists>w. appendJCS (JObj (roster_tree r sig)) = Some w \<and> length w \<le> MaxRosterBytes"
proof -
  note o = assms(4) [unfolded one_member_def] and i = assms(2) [unfolded identity_ok_def]
  define B where "B k = (if k = ''relay'' then 60002 else 600 :: nat)" for k :: string
  obtain mt where mt: "appendJCS (member_tree (MemberFromIdentity p)) = Some mt" "length mt \<le> 450"
    using member_size [of "MemberFromIdentity p" "id_edPub p" "id_xPub p"] i derived_ID [of pr "id_edPub p"] assms(1) by (auto simp: MemberFromIdentity_def)
  have v: "\<exists>t. appendJCS (JStr (u_Network r)) = Some t \<and> length t \<le> 600" "\<exists>t. appendJCS (JInt (u_Version r)) = Some t \<and> length t \<le> 600"
      "\<exists>t. appendJCS (JInt (u_IssuedAt r)) = Some t \<and> length t \<le> 600" "\<exists>t. appendJCS (JStr (u_Relay r)) = Some t \<and> length t \<le> 60002"
      "\<exists>t. appendJCS (JStr (u_NetworkKey r)) = Some t \<and> length t \<le> 600" "\<exists>t. appendJCS (JStr (u_Primary r)) = Some t \<and> length t \<le> 600"
      "\<exists>t. appendJCS (JArr (map member_tree (u_Members r))) = Some t \<and> length t \<le> 600" "\<exists>t. appendJCS (JStr (s_Signature r)) = Some t \<and> length t \<le> 600"
  proof -
    show "\<exists>t. appendJCS (JStr (u_Network r)) = Some t \<and> length t \<le> 600" "\<exists>t. appendJCS (JStr (u_Primary r)) = Some t \<and> length t \<le> 600"
        "\<exists>t. appendJCS (JStr (u_NetworkKey r)) = Some t \<and> length t \<le> 600" "\<exists>t. appendJCS (JStr (s_Signature r)) = Some t \<and> length t \<le> 600"
      using o i assms derived_ID [of pr] plain_b64u length_b64u [of key] by (intro plain_size; simp)+
    show "\<exists>t. appendJCS (JInt (u_Version r)) = Some t \<and> length t \<le> 600" "\<exists>t. appendJCS (JInt (u_IssuedAt r)) = Some t \<and> length t \<le> 600"
      using int_size [of "u_Version r"] int_size [of "u_IssuedAt r"] o by force+
    show "\<exists>t. appendJCS (JStr (u_Relay r)) = Some t \<and> length t \<le> 60002" using string_size [of "u_Relay r"] o by fastforce
    show "\<exists>t. appendJCS (JArr (map member_tree (u_Members r))) = Some t \<and> length t \<le> 600" using o mt by simp
  qed
  have n: "plain ''network''" "plain ''version''" "plain ''issuedAt''" "plain ''relay''" "plain ''networkKey''" "plain ''primary''" "plain ''members''" "plain ''signature''"
    by (simp_all add: plain_def)
  let ?t = "roster_tree r sig"
  have t: "?t = unsigned_tree r @ (if sig then [(''signature'', JStr (s_Signature r))] else [])" using o by (simp add: roster_tree_def unsigned_tree_def)
  have "plain k \<and> (\<exists>t. appendJCS v = Some t \<and> length t \<le> B k)" if "(k, v) \<in> set ?t" for k v
    using that n v unfolding t by (auto simp: unsigned_tree_def B_def simp del: appendJCS.simps split: if_splits)
  then obtain w where "appendJCS (JObj ?t) = Some w" "length w \<le> 2 + (\<Sum>p\<leftarrow>?t. length (fst p) + B (fst p) + 4)" using object_size [of ?t B] by blast
  moreover have "2 + (\<Sum>p\<leftarrow>?t. length (fst p) + B (fst p) + 4) \<le> MaxRosterBytes" unfolding t by (simp add: unsigned_tree_def B_def MaxRosterBytes_def)
  ultimately show ?thesis by auto
qed

lemma one_member_valid:
  assumes "\<And>x. length (pr_sha pr x) = 32" "identity_ok pr p" "length key = 32" "one_member pr p key r"
    and "s_Signature r = b64u sg" "length sg = 64" "\<And>msg. SigningBytes r = Some msg \<Longrightarrow> verifyEd25519 (pr_verify pr) key msg sg"
  shows "Problem pr r = Some ()"
proof -
  note o = assms(4) [unfolded one_member_def] and i = assms(2) [unfolded identity_ok_def]
  have sz: "\<exists>w. appendJCS (JObj (roster_tree r sig)) = Some w \<and> length w \<le> MaxRosterBytes" for sig
    using one_member_size [OF assms(1-4)] assms(5,6) plain_b64u length_b64u [of sg] by simp
  obtain whole where wh: "Roster_JCS r = Some whole" "length whole \<le> MaxRosterBytes" using sz [of True] by (auto simp: Roster_JCS_def simp del: appendJCS.simps)
  obtain msg where msg: "SigningBytes r = Some msg" using sz [of False] by (auto simp: SigningBytes_def simp del: appendJCS.simps)
  have "members_valid pr None (u_Members r)" using o i derived_ID(1) [OF assms(1)] by (simp add: MemberFromIdentity_def fromB64uLen_b64u)
  moreover have "u_Primary r \<in> rm_ID ` set (u_Members r)" using o by (simp add: MemberFromIdentity_def)
  moreover have "IsNodeID (u_Network r)" "IsNodeID (u_Primary r)" using o i derived_ID(1) [OF assms(1)] by simp_all
  ultimately show ?thesis
    unfolding Problem_def Roster_Size_def wh(1) msg bind_eq_Some_conv guard_Some
    using o wh(2) assms(3,5,6,7) msg by (simp add: fromB64uLen_b64u)
qed

lemma SigningBytes_unsigned: "SigningBytes (r\<lparr>s_Signature := sig\<rparr>) = SigningBytes r"
  by (simp add: SigningBytes_def roster_tree_def unsigned_tree_def)

text \<open>
  A network can be made. For any identity, any seed of 32 bytes, any time a double holds exactly
  and any relay string of valid UTF-8 up to 10,000 bytes (the empty one for a network not yet placed),
  \<open>CreateNetwork\<close> returns a roster, version 1, valid, with the identity as its primary and only member.
  What this rests on: hashes, keys and signatures have their lengths, and what the network key signs
  verifies under it.
\<close>

theorem create_network:
  assumes "\<And>x. length (pr_sha pr x) = 32" "identity_ok pr p" "length seed = 32" "length (pr_netpub pr seed) = 32"
    and signs: "\<And>msg. length (pr_netsign pr seed msg) = 64 \<and> verifyEd25519 (pr_verify pr) (pr_netpub pr seed) msg (pr_netsign pr seed msg)"
    and "0 \<le> now" "now < 2 ^ 53" "ValidString relay" "length relay \<le> 10000"
  shows "\<exists>r. CreateNetwork pr p relay now seed = Some (r, seed) \<and> Problem pr r = Some () \<and> u_Version r = 1 \<and> u_IssuedAt r = now
    \<and> u_Relay r = relay \<and> u_Primary r = id_ID p \<and> u_Members r = [MemberFromIdentity p]"
proof -
  let ?u = "\<lparr>u_Network = NodeIDFromEd25519 (pr_sha pr) (pr_netpub pr seed), u_Version = 1, u_IssuedAt = now, u_Relay = relay,
     u_NetworkKey = b64u (pr_netpub pr seed), u_Primary = id_ID p, u_Members = [MemberFromIdentity p]\<rparr>"
  have one: "one_member pr p (pr_netpub pr seed) (signed_roster ?u sig [])" for sig
    using assms by (simp add: one_member_def signed_roster_def)
  have upd: "signed_roster ?u sig [] = (signed_roster ?u [] [])\<lparr>s_Signature := sig\<rparr>" for sig by (simp add: signed_roster_def)
  have "\<exists>w. appendJCS (JObj (roster_tree (signed_roster ?u [] []) False)) = Some w"
    using one_member_size [OF assms(1,2,4) one [of "[]"]] by (auto simp: signed_roster_def plain_def simp del: appendJCS.simps)
  then obtain msg where msg: "SigningBytes (signed_roster ?u [] []) = Some msg" by (auto simp: SigningBytes_def simp del: appendJCS.simps)
  let ?r = "signed_roster ?u (b64u (pr_netsign pr seed msg)) []"
  have "SigningBytes ?r = Some msg" using msg SigningBytes_unsigned upd by metis
  then have ok: "Problem pr ?r = Some ()" using one_member_valid [OF assms(1,2,4) one, of "b64u (pr_netsign pr seed msg)" "pr_netsign pr seed msg"] signs by (simp add: signed_roster_def)
  have "CreateNetwork pr p relay now seed = Some (?r, seed)"
    using msg ok assms(3) by (simp add: CreateNetwork_def NetworkKeyFromSeed_def SignRoster_def)
  then show ?thesis using ok by (simp add: signed_roster_def)
qed

text \<open>A concrete world: a hash and keys of fixed bytes, and a signature scheme that accepts.\<close>

definition demo_pr :: primitives where
  "demo_pr = \<lparr>pr_sha = \<lambda>x. replicate 32 0, pr_verify = \<lambda>k m s. True, pr_netpub = \<lambda>s. replicate 32 1, pr_netsign = \<lambda>s m. replicate 64 1, pr_url_rest = \<lambda>s. True\<rparr>"

definition demo_identity :: Identity where
  "demo_identity = \<lparr>id_ID = NodeIDFromEd25519 (pr_sha demo_pr) (replicate 32 1), id_edPub = replicate 32 1, id_xPub = replicate 32 2\<rparr>"

lemma demo_ok:
  "length (pr_sha demo_pr x) = 32" "identity_ok demo_pr demo_identity" "length (pr_netpub demo_pr s) = 32"
  "length (pr_netsign demo_pr s m) = 64 \<and> verifyEd25519 (pr_verify demo_pr) (pr_netpub demo_pr s) m (pr_netsign demo_pr s m)"
proof -
  show "length (pr_sha demo_pr x) = 32" "identity_ok demo_pr demo_identity" "length (pr_netpub demo_pr s) = 32"
    by (simp_all add: demo_pr_def demo_identity_def identity_ok_def)
  have "\<not> smallOrderEd25519 (replicate 32 1)" "canonicalEd25519 (replicate 32 1)" by code_simp+
  moreover have "take 32 (replicate 64 1) = (replicate 32 1 :: bytes)" by simp
  ultimately show "length (pr_netsign demo_pr s m) = 64 \<and> verifyEd25519 (pr_verify demo_pr) (pr_netpub demo_pr s) m (pr_netsign demo_pr s m)"
    by (simp add: demo_pr_def verifyEd25519_def Let_def)
qed

theorem create_network_witness:
  "\<exists>r. CreateNetwork demo_pr demo_identity [] 5 (replicate 32 9) = Some (r, replicate 32 9) \<and> Problem demo_pr r = Some () \<and> u_Version r = 1 \<and> u_IssuedAt r = 5
    \<and> u_Relay r = [] \<and> u_Primary r = id_ID demo_identity \<and> u_Members r = [MemberFromIdentity demo_identity]"
  by (rule create_network) (simp_all only: demo_ok length_replicate, simp_all add: ascii_valid ascii_def)

text \<open>
  Placing a network changes its relay and nothing else. What \<open>PlaceNetwork\<close> returns is valid, is
  the roster it was given with the relay, the next version, a time not before the last one and a new
  signature, names a relay, and is one every holder of the old roster accepts under the key it pinned.
\<close>

theorem place_network:
  assumes "PlaceNetwork pr (Some r) seed relay nowMs clock = Inr r'"
  shows "Problem pr r' = Some () \<and> IsPlaced r' \<and> IsRelayURL pr (u_Relay r')
    \<and> r' = r\<lparr>u_Version := u_Version r + 1, u_IssuedAt := max (if nowMs = 0 then clock else nowMs) (u_IssuedAt r), u_Relay := relay, s_Signature := s_Signature r'\<rparr>
    \<and> AcceptanceProblem pr r' (u_NetworkKey r) (u_Version r) = Some ()"
proof -
  have "\<not> IsRelayURL pr []" by (simp add: IsRelayURL_def CutPrefix_def)
  moreover have f: "Problem pr r' = Some ()" "IsRelayURL pr relay"
      "r' = r\<lparr>u_Version := u_Version r + 1, u_IssuedAt := max (if nowMs = 0 then clock else nowMs) (u_IssuedAt r), u_Relay := relay, s_Signature := s_Signature r'\<rparr>"
    using assms unfolding PlaceNetwork_def by (auto simp: Let_def split: if_splits option.splits)
  moreover have "u_Relay r' = relay" "u_NetworkKey r' = u_NetworkKey r" "u_Version r' = u_Version r + 1" by (subst f(3), simp)+
  ultimately show ?thesis by (auto simp: IsPlaced_def AcceptanceProblem_def guard_def)
qed

lemma demo_placed:
  assumes "one_member demo_pr demo_identity (replicate 32 1) r" "s_Signature r = b64u (replicate 64 1)" "u_Relay r = []" "u_Version r = 1" "u_IssuedAt r = 5"
  shows "PlaceNetwork demo_pr (Some r) (replicate 32 9) ''ws://a'' 7 0 = Inr (r\<lparr>u_Version := 2, u_IssuedAt := 7, u_Relay := ''ws://a''\<rparr>)"
proof -
  let ?n = "r\<lparr>u_Version := 2, u_IssuedAt := 7, u_Relay := ''ws://a''\<rparr>"
  have key: "pr_netpub demo_pr s = replicate 32 1" "pr_netsign demo_pr s m = replicate 64 1" for s m by (simp_all add: demo_pr_def)
  have signs: "verifyEd25519 (pr_verify demo_pr) (replicate 32 1) m (replicate 64 1)" for m using demo_ok(4) [of undefined m] by (simp add: key)
  have k: "u_NetworkKey r = b64u (replicate 32 1)" using assms(1) by (simp add: one_member_def)
  have url: "IsRelayURL demo_pr ''ws://a''"
    by (simp add: IsRelayURL_def CutPrefix_def url_Parse_def is_alpha_def is_digit_def demo_pr_def)
  have "one_member demo_pr demo_identity (replicate 32 1) (?n\<lparr>s_Signature := sg\<rparr>)" for sg
    using assms(1) by (simp add: one_member_def ascii_valid ascii_def)
  note one = this [of sig_room] this [of "b64u (replicate 64 1)"]
  have sg: "?n\<lparr>s_Signature := b64u (replicate 64 1)\<rparr> = ?n" using assms(2) by simp
  have valid: "Problem demo_pr r = Some ()" "Problem demo_pr ?n = Some ()"
    using one_member_valid [OF demo_ok(1,2) _ assms(1) assms(2)] one_member_valid [OF demo_ok(1,2) _ one(2), of "replicate 64 1"] signs assms(2) by (simp_all add: sg)
  have room: "plain sig_room" "length sig_room \<le> 128" by (simp_all add: plain_def sig_room_def list_all_iff)
  obtain w m where "Roster_JCS (?n\<lparr>s_Signature := sig_room\<rparr>) = Some w" "length w \<le> MaxRosterBytes" "SigningBytes (?n\<lparr>s_Signature := sig_room\<rparr>) = Some m"
    using one_member_size [OF demo_ok(1,2) _ one(1), of True] one_member_size [OF demo_ok(1,2) _ one(1), of False]
    by (auto simp: room Roster_JCS_def SigningBytes_def simp del: appendJCS.simps)
  then show ?thesis
    using valid url k assms(2-5) by (simp add: sg PlaceNetwork_def IsPlaced_def NetworkKeyFromSeed_def key Roster_Size_def Let_def)
qed

definition demo_roster :: SignedRoster where
  "demo_roster = \<lparr>u_Network = NodeIDFromEd25519 (pr_sha demo_pr) (replicate 32 1), u_Version = 1, u_IssuedAt = 5, u_Relay = [], u_NetworkKey = b64u (replicate 32 1),
     u_Primary = id_ID demo_identity, u_Members = [MemberFromIdentity demo_identity], s_Signature = b64u (replicate 64 1), s_extra = []\<rparr>"

lemma demo_one: "one_member demo_pr demo_identity (replicate 32 1) demo_roster"
  by (simp add: one_member_def demo_roster_def ascii_valid ascii_def)

theorem place_network_witness:
  "AcceptanceProblem demo_pr (demo_roster\<lparr>u_Version := 2, u_IssuedAt := 7, u_Relay := ''ws://a''\<rparr>) (u_NetworkKey demo_roster) (u_Version demo_roster) = Some ()"
proof -
  have "PlaceNetwork demo_pr (Some demo_roster) (replicate 32 9) ''ws://a'' 7 0 = Inr (demo_roster\<lparr>u_Version := 2, u_IssuedAt := 7, u_Relay := ''ws://a''\<rparr>)"
    by (rule demo_placed [OF demo_one]) (simp_all add: demo_roster_def)
  from place_network [OF this] show ?thesis by blast
qed

section \<open>The two checks agree\<close>

text \<open>
  C23. The relay and the client agree on rosters. A text the client takes for a valid roster is one
  for the relay, with the same network, version, time, key, primary and members; and a text the relay
  takes for a roster is one for the client, with the same meaning, when no string in it holds a line
  break (the relay's key decoder skips those, the client's refuses them). The relay reads the
  signed bytes from the document, the client rebuilds them from the fields it keeps: they are the
  same bytes. What this rests on: the tokens of \<open>encoding/json\<close> as in the agreement of the parsers,
  and a hash of 32 bytes.
\<close>

theorem rosters_agree:
  assumes numbers: "\<And>data s. TNum s \<in> set (fst (dec data)) \<Longrightarrow> is_number s"
    and escapes: "\<And>data. \<not> escapes_ok False (codes data) \<Longrightarrow> \<not> snd (dec data)"
    and hash: "\<And>x. length (pr_sha pr x) = 32"
  shows "(\<forall>r. ValidateRoster pr dec data = Some r \<longrightarrow> (\<exists>R. ParseRoster pr dec data = Some R \<and> same_roster R r))
    \<and> (\<forall>R tree. ParseRoster pr dec data = Some R \<longrightarrow> ParseJSON dec data = Some tree \<longrightarrow> no_breaks tree \<longrightarrow>
         (\<exists>r. ValidateRoster pr dec data = Some r \<and> same_roster R r))"
proof -
  have same: "parseJSON dec data = ParseJSON dec data" using parse_same [OF numbers escapes] by simp
  have fwd: "\<exists>R. ParseRoster pr dec data = Some R \<and> same_roster R r" if v: "ValidateRoster pr dec data = Some r" for r
  proof -
    obtain obj where o: "ParseJSON dec data = Some (JObj obj)" "rosterFromTree (JObj obj) = Some r" "Problem pr r = Some ()"
      using v by (auto simp: ValidateRoster_def DecodeRoster_def same bind_eq_Some_conv) (auto simp: rosterFromTree_def bind_eq_Some_conv)
    then show ?thesis
      using client_valid_relay_valid [OF o(2,3) parsed_object [OF o(1) numbers] hash] by (simp add: ParseRoster_def)
  qed
  have bwd: "\<exists>r. ValidateRoster pr dec data = Some r" if R: "ParseRoster pr dec data = Some R" "ParseJSON dec data = Some tree" "no_breaks tree" for R tree
  proof -
    obtain obj where o: "tree = JObj obj" "roster_of_object pr (str_bytes data) obj = Some R"
      using R by (auto simp: ParseRoster_def bind_eq_Some_conv)
    have "read_object obj" using parsed_object numbers R(2) o(1) by blast
    then obtain r where "rosterFromTree (JObj obj) = Some r" "Problem pr r = Some ()"
      using relay_valid_client_valid [OF o(2) _ _ hash] R(3) o(1) by blast
    then show ?thesis using R(2) o(1) by (simp add: ValidateRoster_def DecodeRoster_def same)
  qed
  show ?thesis using fwd bwd by (metis option.inject)
qed

definition demo_tree :: json where
  "demo_tree = JObj [(''network'', JStr (u_Network demo_roster)), (''version'', JNum ''1''), (''issuedAt'', JNum ''5''), (''relay'', JStr []),
     (''networkKey'', JStr (u_NetworkKey demo_roster)), (''primary'', JStr (u_Primary demo_roster)),
     (''members'', JArr [JObj [(''id'', JStr (id_ID demo_identity)), (''ed25519'', JStr (b64u (replicate 32 1))), (''x25519'', JStr (b64u (replicate 32 2)))]]),
     (''signature'', JStr (b64u (replicate 64 1)))]"

definition demo_dec :: "string \<Rightarrow> token list \<times> bool" where
  "demo_dec data = (tokens_of demo_tree, escapes_ok False (codes data))"

lemma demo_numbers: "TNum s \<in> set (tokens_of demo_tree) \<Longrightarrow> is_number s"
  by (auto simp: demo_tree_def is_number_def split_number_def split_exp_def is_digit_def starts_def)

lemma demo_valid: "ValidateRoster demo_pr demo_dec [] = Some demo_roster"
proof -
  have int: "safeInteger (Some (JNum ''1'')) = Some 1" "safeInteger (Some (JNum ''5'')) = Some 5" by code_simp+
  then have num: "snd (ParseFloat ''1'') = False" "snd (ParseFloat ''5'') = False"
    using ParseFloat_integer(1) demo_numbers by (simp_all add: demo_tree_def)
  have "acceptable (\<lambda>t. snd (ParseFloat t) \<and> fst (ParseFloat t) = Infinite) (\<lambda>depth. depth > 32) 1 demo_tree"
    by (simp add: demo_tree_def num)
  then have "parse_value (\<lambda>t. snd (ParseFloat t) \<and> fst (ParseFloat t) = Infinite) (\<lambda>depth. depth > 32) 1 (tokens_of demo_tree) = Some (demo_tree, [])"
    by (simp add: parse_exact)
  then have "parseJSON demo_dec [] = Some demo_tree" by (simp add: parseJSON_def demo_dec_def codes_def ascii_valid ascii_def)
  moreover have "rosterFromTree demo_tree = Some demo_roster"
    by (simp add: int demo_tree_def rosterFromTree_def member_from_tree_def without_def demo_roster_def MemberFromIdentity_def demo_identity_def)
  moreover have "Problem demo_pr demo_roster = Some ()"
    using demo_ok(4) by (intro one_member_valid [OF demo_ok(1,2) _ demo_one, of "replicate 64 1"]) (simp_all add: demo_roster_def demo_pr_def)
  ultimately show ?thesis by (simp add: ValidateRoster_def DecodeRoster_def)
qed

theorem rosters_agree_witness:
  "\<exists>R. ParseRoster demo_pr demo_dec [] = Some R \<and> ValidateRoster demo_pr demo_dec [] = Some demo_roster \<and> same_roster R demo_roster"
  using rosters_agree [of demo_dec demo_pr "[]"] demo_numbers demo_ok(1) demo_valid by (auto simp: demo_dec_def)

end
