(* ===== verification/Peer_Limits.thy ===== *)
theory Peer_Limits
  imports Limiters "HOL-Library.AList"
begin

text \<open>
  The rates a member of the network holds its peers to (\<open>client-go/limits.go\<close>): the handshake-inits
  it reads and the resets it answers, each id with budgets of its own. A bucket's zero time is
  \<open>None\<close>. The ids off the roster are a list, the most recently seen first (\<open>byID\<close> is its index, so a
  lookup by id is a search). Where the code ranges over a map, the order the map is walked in is a
  parameter, a function of the map.
\<close>

section \<open>Buckets\<close>

record bucket =
  bk_tokens :: rat
  bk_at :: "int option"

definition bucket_zero :: bucket where
  "bucket_zero = \<lparr>bk_tokens = 0, bk_at = None\<rparr>"

definition available :: "bucket \<Rightarrow> int \<Rightarrow> rat \<Rightarrow> rat \<Rightarrow> bool \<times> bucket" where
  "available b now rate burst =
     (let t = (case bk_at b of
                 None \<Rightarrow> burst
               | Some a \<Rightarrow> (let d = Seconds (now - a) in if d > 0 then min burst (f64 (bk_tokens b + f64 (d * rate))) else bk_tokens b))
      in (t \<ge> 1, \<lparr>bk_tokens = t, bk_at = Some now\<rparr>))"

definition take_token :: "bucket \<Rightarrow> int \<Rightarrow> rat \<Rightarrow> rat \<Rightarrow> bool \<times> bucket" where
  "take_token b now rate burst =
     (case available b now rate burst of
        (ok, b') \<Rightarrow> if ok then (True, b'\<lparr>bk_tokens := f64 (bk_tokens b' - 1)\<rparr>) else (False, b'))"

section \<open>The budgets of ids\<close>

record peerLimit =
  pl_id :: string
  pl_inits :: bucket
  pl_fails :: bucket
  pl_resets :: bucket
  pl_resetAt :: "(u32 \<times> int) list"

record peerLimits =
  pl_members :: "string \<rightharpoonup> peerLimit"
  pl_strangers :: "peerLimit list"
  pl_ceiling :: bucket
  pl_allResets :: bucket

definition strangerIDs :: nat where "strangerIDs = 256"
definition resetIndices :: nat where "resetIndices = 64"
definition resetIndexEvery :: int where "resetIndexEvery = Second"

definition newPeerLimits :: peerLimits where
  "newPeerLimits = \<lparr>pl_members = Map.empty, pl_strangers = [], pl_ceiling = bucket_zero, pl_allResets = bucket_zero\<rparr>"

definition new_limit :: "string \<Rightarrow> peerLimit" where
  "new_limit i = \<lparr>pl_id = i, pl_inits = bucket_zero, pl_fails = bucket_zero, pl_resets = bucket_zero, pl_resetAt = []\<rparr>"

definition forget :: "peerLimits \<Rightarrow> (string \<Rightarrow> bool) \<Rightarrow> peerLimits" where
  "forget l onRoster = l\<lparr>pl_members := (\<lambda>i. if onRoster i then pl_members l i else None)\<rparr>"

text \<open>
  \<open>get\<close>: the id's entry, made when it has none; an id off the roster comes to the front, and the
  least recently seen leaves when the list is full.
\<close>

definition get :: "peerLimits \<Rightarrow> string \<Rightarrow> bool \<Rightarrow> peerLimits \<times> peerLimit" where
  "get l i member =
     (if member
      then (case pl_members l i of
              Some p \<Rightarrow> (l, p)
            | None \<Rightarrow> (l\<lparr>pl_members := (pl_members l)(i \<mapsto> new_limit i)\<rparr>, new_limit i))
      else case find (\<lambda>p. pl_id p = i) (pl_strangers l) of
             Some p \<Rightarrow> (l\<lparr>pl_strangers := p # filter (\<lambda>q. pl_id q \<noteq> i) (pl_strangers l)\<rparr>, p)
           | None \<Rightarrow>
               (l\<lparr>pl_strangers := new_limit i # (if length (pl_strangers l) \<ge> strangerIDs then butlast (pl_strangers l) else pl_strangers l)\<rparr>,
                new_limit i))"

text \<open>Writing through the pointer \<open>get\<close> returned.\<close>

definition store :: "peerLimits \<Rightarrow> bool \<Rightarrow> peerLimit \<Rightarrow> peerLimits" where
  "store l member p =
     (if member then l\<lparr>pl_members := (pl_members l)(pl_id p \<mapsto> p)\<rparr>
      else l\<lparr>pl_strangers := map (\<lambda>q. if pl_id q = pl_id p then p else q) (pl_strangers l)\<rparr>)"

definition failedInit :: "peerLimits \<Rightarrow> string \<Rightarrow> int \<Rightarrow> peerLimits" where
  "failedInit l i now =
     (let (l, p) = get l i True in store l True (p\<lparr>pl_fails := snd (take_token (pl_fails p) now 2 4)\<rparr>))"

definition allowInit :: "peerLimits \<Rightarrow> string \<Rightarrow> bool \<Rightarrow> int \<Rightarrow> bool \<times> peerLimits" where
  "allowInit l i member now =
     (let (l, p) = get l i member
      in if member
         then let (ok, fb) = available (pl_fails p) now 2 4
              in if \<not> ok then (False, store l True (p\<lparr>pl_fails := fb\<rparr>))
                 else let (ok, ib) = take_token (pl_inits p) now 16 32
                      in (ok, store l True (p\<lparr>pl_fails := fb, pl_inits := ib\<rparr>))
         else let (ok, ib) = take_token (pl_inits p) now 4 8; l = store l False (p\<lparr>pl_inits := ib\<rparr>)
              in if \<not> ok then (False, l)
                 else let (ok, cb) = take_token (pl_ceiling l) now 128 256 in (ok, l\<lparr>pl_ceiling := cb\<rparr>))"

text \<open>The trimming of the indices remembered for an id, first those past their second, then any.\<close>

fun evict :: "u32 list \<Rightarrow> (u32 \<times> int) list \<Rightarrow> (u32 \<times> int) list" where
  "evict [] m = m"
| "evict (i # is) m = (if length m < resetIndices then m else evict is (AList.delete i m))"

definition trim_indices :: "((u32 \<times> int) list \<Rightarrow> u32 list) \<Rightarrow> int \<Rightarrow> (u32 \<times> int) list \<Rightarrow> (u32 \<times> int) list" where
  "trim_indices walk now m =
     (if length m \<ge> resetIndices
      then let m = filter (\<lambda>(i, t). \<not> now - t \<ge> resetIndexEvery) m in evict (walk m) m
      else m)"

definition allowReset ::
  "((u32 \<times> int) list \<Rightarrow> u32 list) \<Rightarrow> peerLimits \<Rightarrow> string \<Rightarrow> bool \<Rightarrow> u32 \<Rightarrow> int \<Rightarrow> bool \<times> peerLimits" where
  "allowReset walk l i member idx now =
     (let (l, p) = get l i member
      in if (case map_of (pl_resetAt p) idx of None \<Rightarrow> False | Some t \<Rightarrow> now - t < resetIndexEvery) then (False, l)
         else let (ok, rb) = take_token (pl_resets p) now 32 64; p = p\<lparr>pl_resets := rb\<rparr>; l = store l member p
              in if \<not> ok then (False, l)
                 else let (ok, ab) = (if member then (True, pl_allResets l) else take_token (pl_allResets l) now 128 256);
                          l = l\<lparr>pl_allResets := ab\<rparr>
                      in if \<not> ok then (False, l)
                         else (True, store l member (p\<lparr>pl_resetAt := AList.update idx now (trim_indices walk now (pl_resetAt p))\<rparr>)))"

section \<open>Sequences of calls\<close>

datatype limit_call =
    CInit string bool int
  | CFailed string int
  | CReset string bool u32 int
  | CForget "string list"

fun serve :: "((u32 \<times> int) list \<Rightarrow> u32 list) \<Rightarrow> peerLimits \<Rightarrow> limit_call \<Rightarrow> bool \<times> peerLimits" where
  "serve walk l (CInit i member now) = allowInit l i member now"
| "serve walk l (CFailed i now) = (True, failedInit l i now)"
| "serve walk l (CReset i member idx now) = allowReset walk l i member idx now"
| "serve walk l (CForget roster) = (True, forget l (\<lambda>i. i \<in> set roster))"

fun served :: "((u32 \<times> int) list \<Rightarrow> u32 list) \<Rightarrow> peerLimits \<Rightarrow> limit_call list \<Rightarrow> (limit_call \<times> bool) list" where
  "served walk l [] = []"
| "served walk l (c # cs) = (case serve walk l c of (ok, l') \<Rightarrow> (c, ok) # served walk l' cs)"

text \<open>A call charged to the budgets member \<open>i\<close> has on the roster.\<close>

fun charged :: "string \<Rightarrow> limit_call \<Rightarrow> bool" where
  "charged i (CInit j member now) = (j = i \<and> member)"
| "charged i (CFailed j now) = (j = i)"
| "charged i (CReset j member idx now) = (j = i \<and> member)"
| "charged i (CForget roster) = False"

fun is_forget :: "limit_call \<Rightarrow> bool" where
  "is_forget (CForget roster) = True"
| "is_forget _ = False"

lemma members_get: "pl_members (fst (get l j member)) i = (if member \<and> i = j then Some (snd (get l j member)) else pl_members l i)"
  by (auto simp: get_def split: option.splits)

lemma members_store: "pl_members (store l member p) i = (if member \<and> i = pl_id p then Some p else pl_members l i)"
  by (auto simp: store_def)

lemma snd_get: "snd (get l j member) = (if member then case pl_members l j of None \<Rightarrow> new_limit j | Some p \<Rightarrow> p
    else case find (\<lambda>p. pl_id p = j) (pl_strangers l) of None \<Rightarrow> new_limit j | Some p \<Rightarrow> p)"
  by (auto simp: get_def split: option.splits)

text \<open>Entries are kept under their ids.\<close>

definition keyed :: "peerLimits \<Rightarrow> bool" where
  "keyed l \<longleftrightarrow> (\<forall>j p. pl_members l j = Some p \<longrightarrow> pl_id p = j)"

lemma id_get: "keyed l \<Longrightarrow> pl_id (snd (get l j member)) = j"
  by (auto simp: snd_get keyed_def new_limit_def find_Some_iff split: option.splits)

lemma get_cases:
  assumes "keyed l"
  obtains l1 p where "get l j member = (l1, p)" "pl_id p = j" "keyed l1"
    "\<And>i. pl_members l1 i = (if member \<and> i = j then Some p else pl_members l i)"
    "member \<Longrightarrow> p = (case pl_members l j of None \<Rightarrow> new_limit j | Some p \<Rightarrow> p)"
proof -
  obtain l1 p where g: "get l j member = (l1, p)" by fastforce
  then have m: "\<And>i. pl_members l1 i = (if member \<and> i = j then Some p else pl_members l i)" using members_get [of l j member, unfolded g] by simp
  moreover have "pl_id p = j" using id_get [OF assms, of j member] g by simp
  moreover have "keyed l1" using assms m \<open>pl_id p = j\<close> by (simp add: keyed_def)
  ultimately show ?thesis using that g snd_get [of l j member] by (simp split: option.splits)
qed

text \<open>What a call does to the entries of members, and what it answers a member.\<close>

lemma serve_other:
  assumes "keyed l" "\<not> charged i c" "\<not> is_forget c"
  shows "pl_members (snd (serve walk l c)) i = pl_members l i"
proof (cases c)
  case (CInit j member now)
  obtain l1 p where g: "get l j member = (l1, p)" "pl_id p = j" "\<And>i. pl_members l1 i = (if member \<and> i = j then Some p else pl_members l i)"
    using get_cases [OF assms(1), of j member] by metis
  show ?thesis using assms(2) unfolding CInit serve.simps allowInit_def g(1) by (simp add: members_store Let_def g(2,3) split: prod.splits)
next
  case (CFailed j now)
  obtain l1 p where g: "get l j True = (l1, p)" "pl_id p = j" "\<And>i. pl_members l1 i = (if i = j then Some p else pl_members l i)"
    using get_cases [OF assms(1), of j True] by metis
  show ?thesis using assms(2) unfolding CFailed serve.simps failedInit_def g(1) by (simp add: members_store g(2,3))
next
  case (CReset j member idx now)
  obtain l1 p where g: "get l j member = (l1, p)" "pl_id p = j" "\<And>i. pl_members l1 i = (if member \<and> i = j then Some p else pl_members l i)"
    using get_cases [OF assms(1), of j member] by metis
  show ?thesis
    using assms(2) unfolding CReset serve.simps allowReset_def g(1)
    by (simp add: members_store Let_def g(2,3) split: prod.splits) blast
qed (use assms in auto)

lemma serve_own:
  assumes "keyed l" "keyed l'" "pl_members l i = pl_members l' i" "charged i c"
  shows "fst (serve walk l c) = fst (serve walk l' c) \<and> pl_members (snd (serve walk l c)) i = pl_members (snd (serve walk l' c)) i"
proof -
  obtain l1 p where g: "get l i True = (l1, p)" "pl_id p = i" "p = (case pl_members l i of None \<Rightarrow> new_limit i | Some p \<Rightarrow> p)" "pl_members l1 i = Some p"
    using get_cases [OF assms(1), of i True] by metis
  obtain l1' p' where g': "get l' i True = (l1', p')" "p' = (case pl_members l' i of None \<Rightarrow> new_limit i | Some p \<Rightarrow> p)" "pl_members l1' i = Some p'"
    using get_cases [OF assms(2), of i True] by metis
  have "p' = p" using g(3) g'(2) assms(3) by simp
  then show ?thesis
  proof (cases c)
    case (CReset j member idx now)
    then show ?thesis using assms(4) \<open>p' = p\<close> unfolding CReset
      by (simp add: allowReset_def Let_def g(1,2,4) g'(1,3) members_store split: prod.splits)
  qed (use assms(4) \<open>p' = p\<close> in \<open>auto simp: allowInit_def failedInit_def Let_def g(1,2,4) g'(1,3) members_store split: prod.splits\<close>)
qed

lemma serve_keyed:
  assumes "keyed l"
  shows "keyed (snd (serve walk l c))"
proof -
  have own: "pl_id p = i" if c: "charged i c" "pl_members (snd (serve walk l c)) i = Some p" for i p
  proof -
    obtain l1 q where g: "get l i True = (l1, q)" "pl_id q = i" "pl_members l1 i = Some q" using get_cases [OF assms, of i True] by metis
    show ?thesis using c g(2) by (cases c) (auto simp: allowInit_def failedInit_def allowReset_def Let_def g(1,3) members_store split: prod.splits if_splits)
  qed
  have "pl_id p = i" if "\<not> charged i c" "pl_members (snd (serve walk l c)) i = Some p" for i p
  proof (cases "is_forget c")
    case True
    then show ?thesis using that assms by (cases c) (auto simp: forget_def keyed_def split: if_splits)
  next
    case False
    then show ?thesis using serve_other [OF assms that(1) False, of walk] that(2) assms by (simp add: keyed_def)
  qed
  then show ?thesis using own unfolding keyed_def by metis
qed

lemma served_isolated:
  "keyed l \<Longrightarrow> keyed l' \<Longrightarrow> pl_members l i = pl_members l' i \<Longrightarrow>
   filter (\<lambda>(c, ok). charged i c) (served walk l cs) =
   filter (\<lambda>(c, ok). charged i c) (served walk l' (filter (\<lambda>c. charged i c \<or> is_forget c) cs))"
proof (induction cs arbitrary: l l')
  case (Cons c cs)
  obtain ok l1 where c: "serve walk l c = (ok, l1)" by fastforce
  obtain ok' l1' where c': "serve walk l' c = (ok', l1')" by fastforce
  have k: "keyed l1" "keyed l1'" using serve_keyed [OF Cons.prems(1), of walk c] serve_keyed [OF Cons.prems(2), of walk c] c c' by simp_all
  consider "charged i c" | "is_forget c" "\<not> charged i c" | "\<not> charged i c" "\<not> is_forget c" by blast
  then show ?case
  proof cases
    case 1
    then show ?thesis using serve_own [OF Cons.prems 1, of walk] Cons.IH [OF k] c c' by simp
  next
    case 2
    then have "pl_members l1 i = pl_members l1' i" using c c' Cons.prems(3) by (cases c) (auto simp: forget_def)
    then show ?thesis using 2 Cons.IH [OF k] c c' by simp
  next
    case 3
    then have "pl_members l1 i = pl_members l' i" using serve_other [OF Cons.prems(1) 3, of walk] c Cons.prems(3) by simp
    then show ?thesis using 3 Cons.IH [OF k(1) Cons.prems(2)] c by simp
  qed
qed simp

text \<open>
  C37. A peer spends only its own budgets. In every sequence of handshake-inits, failed inits, resets
  and roster changes, from any ids on or off the roster, a member's own calls are answered as if
  nobody else's had been made: no flood under other ids, the member's own id off the roster
  included, takes an init or a reset from it.
\<close>

theorem member_budgets_isolated:
  "filter (\<lambda>(c, ok). charged i c) (served walk newPeerLimits cs) =
   filter (\<lambda>(c, ok). charged i c) (served walk newPeerLimits (filter (\<lambda>c. charged i c \<or> is_forget c) cs))"
  by (rule served_isolated) (simp_all add: keyed_def newPeerLimits_def)

section \<open>Bounds\<close>

definition bucket_ok :: "rat \<Rightarrow> bucket \<Rightarrow> bool" where
  "bucket_ok burst b \<longleftrightarrow> bk_at b = None \<or> 0 \<le> bk_tokens b \<and> bk_tokens b \<le> burst"

definition limit_ok :: "rat \<Rightarrow> peerLimit \<Rightarrow> bool" where
  "limit_ok burst p \<longleftrightarrow> bucket_ok burst (pl_inits p) \<and> bucket_ok 4 (pl_fails p) \<and> bucket_ok 64 (pl_resets p) \<and> length (pl_resetAt p) \<le> resetIndices"

definition limits_ok :: "peerLimits \<Rightarrow> bool" where
  "limits_ok l \<longleftrightarrow> length (pl_strangers l) \<le> strangerIDs \<and> distinct (map pl_id (pl_strangers l))
     \<and> (\<forall>p\<in>set (pl_strangers l). limit_ok 8 p) \<and> (\<forall>i p. pl_members l i = Some p \<longrightarrow> limit_ok 32 p)
     \<and> bucket_ok 256 (pl_ceiling l) \<and> bucket_ok 256 (pl_allResets l)"

lemma Seconds_pos_nonneg: "0 < Seconds d \<Longrightarrow> 0 \<le> rate \<Longrightarrow> 0 \<le> f64 (Seconds d * rate)"
  by (intro f64.rnd_nonneg) simp

lemma available_ok:
  assumes "bucket_ok burst b" "0 \<le> rate" "0 \<le> burst"
  shows "bucket_ok burst (snd (available b now rate burst))"
proof -
  have "0 \<le> f64 (bk_tokens b + f64 (Seconds (now - a) * rate))" if "0 < Seconds (now - a)" "0 \<le> bk_tokens b" for a
    using Seconds_pos_nonneg [OF that(1) assms(2)] that(2) by (intro f64.rnd_nonneg) simp
  then show ?thesis using assms by (auto simp: available_def bucket_ok_def Let_def split: option.splits)
qed

lemma take_token_ok:
  assumes "bucket_ok (of_int k) b" "0 \<le> rate" "0 \<le> k" "k \<le> 2 ^ 53"
  shows "bucket_ok (of_int k) (snd (take_token b now rate (of_int k)))"
proof -
  obtain ok b1 where a: "available b now rate (of_int k) = (ok, b1)" by fastforce
  then have b1: "bucket_ok (of_int k) b1" using available_ok [OF assms(1,2)] assms(3) by (metis of_int_0_le_iff snd_conv)
  have "0 \<le> f64 (t - 1) \<and> f64 (t - 1) \<le> of_int k" if "1 \<le> t" "t \<le> of_int k" for t
    using that assms(3,4) by (intro conjI f64.rnd_nonneg f64.rnd_le_int) simp_all
  moreover have "ok \<longleftrightarrow> 1 \<le> bk_tokens b1" "bk_at b1 = Some now" using a by (auto simp: available_def Let_def split: option.splits)
  ultimately show ?thesis using b1 by (auto simp: take_token_def a bucket_ok_def)
qed

lemmas bucket_bounds = take_token_ok [of 4, simplified] take_token_ok [of 8, simplified] take_token_ok [of 32, simplified]
  take_token_ok [of 64, simplified] take_token_ok [of 256, simplified] available_ok [of 4, simplified]

lemma new_limit_ok: "limit_ok burst (new_limit i)"
  by (simp add: limit_ok_def new_limit_def bucket_ok_def bucket_zero_def)

lemma get_ok:
  assumes "limits_ok l" "keyed l" "get l i member = (l1, p)"
  shows "limits_ok l1" "limit_ok (if member then 32 else 8) p" "pl_id p = i" "keyed l1" "\<not> member \<Longrightarrow> i \<in> pl_id ` set (pl_strangers l1)"
proof -
  have sub: "set (butlast xs) \<subseteq> set xs" "distinct (map pl_id xs) \<Longrightarrow> distinct (map pl_id (butlast xs))" for xs
    by (auto dest: in_set_butlastD simp: map_butlast distinct_butlast)
  show "pl_id p = i" using id_get [OF assms(2), of i member] assms(3) by simp
  then show "keyed l1" using get_cases [OF assms(2), of i member] assms(3) by (metis Pair_inject)
  have "limits_ok l1 \<and> limit_ok (if member then 32 else 8) p \<and> (\<not> member \<longrightarrow> i \<in> pl_id ` set (pl_strangers l1))"
  proof (cases member)
    case True
    then show ?thesis
      using assms(1,3) new_limit_ok by (auto simp: get_def limits_ok_def split: option.splits if_splits)
  next
    case False
    let ?xs = "pl_strangers l"
    have d: "distinct (map pl_id (filter P ?xs))" for P using assms(1) by (simp add: limits_ok_def distinct_map_filter)
    show ?thesis
    proof (cases "find (\<lambda>p. pl_id p = i) ?xs")
      case None
      let ?k = "if length ?xs \<ge> strangerIDs then butlast ?xs else ?xs"
      have e: "l1 = l\<lparr>pl_strangers := new_limit i # ?k\<rparr>" "p = new_limit i" using assms(3) False None by (auto simp: get_def)
      have "i \<notin> pl_id ` set ?xs" using None by (auto simp: find_None_iff)
      moreover have "length ?k < strangerIDs" using assms(1) by (auto simp: limits_ok_def strangerIDs_def)
      moreover have "set ?k \<subseteq> set ?xs" "distinct (map pl_id ?k)" using sub [of ?xs] assms(1) by (auto simp: limits_ok_def)
      ultimately show ?thesis
        using False assms(1) new_limit_ok unfolding e limits_ok_def by (auto simp: new_limit_def)
    next
      case (Some q)
      then have q: "q \<in> set ?xs" "pl_id q = i" by (auto simp: find_Some_iff)
      have e: "l1 = l\<lparr>pl_strangers := q # filter (\<lambda>x. pl_id x \<noteq> i) ?xs\<rparr>" "p = q" using assms(3) False Some by (auto simp: get_def)
      have "length (filter (\<lambda>x. pl_id x \<noteq> i) ?xs) < length ?xs" using q by (intro length_filter_less [of q]) auto
      then show ?thesis using False assms(1) q d unfolding e limits_ok_def by auto
    qed
  qed
  then show "limits_ok l1" "limit_ok (if member then 32 else 8) p" "\<not> member \<Longrightarrow> i \<in> pl_id ` set (pl_strangers l1)" by blast+
qed

lemma store_ok:
  assumes "limits_ok l" "limit_ok (if member then 32 else 8) p"
  shows "limits_ok (store l member p)"
proof (cases member)
  case False
  have "map pl_id (map (\<lambda>q. if pl_id q = pl_id p then p else q) xs) = map pl_id xs" for xs by (induction xs) auto
  then show ?thesis using assms False unfolding limits_ok_def store_def by (auto simp del: map_map)
qed (use assms in \<open>auto simp: store_def limits_ok_def\<close>)

lemma evict_bound: "fst ` set m \<subseteq> set ks \<Longrightarrow> length (evict ks m) < resetIndices"
proof (induction ks arbitrary: m)
  case (Cons k ks)
  have "fst ` set (AList.delete k m) \<subseteq> set ks" using Cons.prems by (auto simp: AList.delete_eq)
  then show ?case using Cons.IH by simp
qed (simp add: resetIndices_def)

lemma length_update_le: "length (AList.update k v m) \<le> Suc (length m)"
  by (induction m) auto

lemma trim_bound: "(\<And>m. set (walk m) = fst ` set m) \<Longrightarrow> length (AList.update i t (trim_indices walk now m)) \<le> resetIndices"
  using length_update_le [of i t "trim_indices walk now m"] evict_bound [of "filter (\<lambda>(i, t). \<not> now - t \<ge> resetIndexEvery) m" "walk (filter (\<lambda>(i, t). \<not> now - t \<ge> resetIndexEvery) m)"]
  by (auto simp: trim_indices_def Let_def)

lemma serve_ok:
  assumes "limits_ok l" "keyed l" and walk: "\<And>m. set (walk m) = fst ` set m"
  shows "limits_ok (snd (serve walk l c))"
proof (cases c)
  case (CInit i member now)
  obtain l1 p where g: "get l i member = (l1, p)" by fastforce
  note ok = get_ok [OF assms(1,2) g]
  show ?thesis
  proof (cases member)
    case True
    then show ?thesis using ok(1,2) bucket_bounds g unfolding CInit
      by (auto simp: allowInit_def Let_def limit_ok_def intro!: store_ok split: prod.splits) (metis snd_conv zero_le_numeral)+
  next
    case False
    obtain ok1 ib where t: "take_token (pl_inits p) now 4 8 = (ok1, ib)" by fastforce
    have "limits_ok (store l1 False (p\<lparr>pl_inits := ib\<rparr>))"
      using ok(1,2) False bucket_bounds(2) [of "pl_inits p" 4 now] t by (intro store_ok) (simp_all add: limit_ok_def)
    moreover have "bucket_ok 256 (snd (take_token (pl_ceiling (store l1 False (p\<lparr>pl_inits := ib\<rparr>))) now 128 256))"
      using calculation by (intro bucket_bounds(5)) (simp_all add: limits_ok_def)
    moreover have "get l i False = (l1, p)" using g False by simp
    ultimately show ?thesis
      using False t unfolding CInit serve.simps allowInit_def by (auto simp: Let_def limits_ok_def split: prod.split)
  qed
next
  case (CFailed i now)
  obtain l1 p where g: "get l i True = (l1, p)" by fastforce
  note ok = get_ok [OF assms(1,2) g]
  show ?thesis using ok(1,2) bucket_bounds(1) [of "pl_fails p" 2 now] unfolding CFailed
    by (auto simp: failedInit_def g limit_ok_def intro!: store_ok)
next
  case (CReset i member idx now)
  obtain l1 p where g: "get l i member = (l1, p)" by fastforce
  note ok = get_ok [OF assms(1,2) g]
  obtain ok1 rb where t: "take_token (pl_resets p) now 32 64 = (ok1, rb)" by fastforce
  let ?l2 = "store l1 member (p\<lparr>pl_resets := rb\<rparr>)"
  have p1: "limit_ok (if member then 32 else 8) (p\<lparr>pl_resets := rb\<rparr>)"
    using ok(2) bucket_bounds(4) [of "pl_resets p" 32 now] t by (simp add: limit_ok_def)
  then have l2: "limits_ok ?l2" using ok(1) by (intro store_ok)
  obtain ok2 ab where t2: "(if member then (True, pl_allResets ?l2) else take_token (pl_allResets ?l2) now 128 256) = (ok2, ab)" by fastforce
  have "bucket_ok 256 ab"
    using l2 t2 bucket_bounds(5) [of "pl_allResets ?l2" 128 now] by (auto simp: limits_ok_def split: if_splits)
  then have l3: "limits_ok (?l2\<lparr>pl_allResets := ab\<rparr>)" using l2 by (simp add: limits_ok_def)
  have "limit_ok (if member then 32 else 8) (p\<lparr>pl_resets := rb, pl_resetAt := AList.update idx now (trim_indices walk now (pl_resetAt p))\<rparr>)"
    using p1 trim_bound [OF walk] by (simp add: limit_ok_def)
  then show ?thesis using ok(1) l2 l3 unfolding CReset serve.simps allowReset_def g prod.case t Let_def
    by (simp add: t2 store_ok)
next
  case (CForget roster)
  then show ?thesis using assms(1) by (auto simp: forget_def limits_ok_def)
qed

text \<open>
  What peers make a member remember is bounded. However the calls come, at most 256 ids off the
  roster are kept, each once, at most 64 receiver indices for an id, and no bucket ever holds less
  than nothing or more than its burst; so what one instant can draw is a burst.
\<close>

theorem limits_bounded:
  assumes walk: "\<And>m. set (walk m) = fst ` set m"
  shows "limits_ok (fold (\<lambda>c l. snd (serve walk l c)) cs newPeerLimits)"
proof -
  have "limits_ok l \<Longrightarrow> keyed l \<Longrightarrow> limits_ok (fold (\<lambda>c l. snd (serve walk l c)) cs l)" for l
    using walk by (induction cs arbitrary: l) (simp_all add: serve_ok serve_keyed)
  moreover have "limits_ok newPeerLimits" "keyed newPeerLimits"
    by (simp_all add: limits_ok_def keyed_def newPeerLimits_def bucket_ok_def bucket_zero_def)
  ultimately show ?thesis by blast
qed

theorem limits_bounded_witness:
  "limits_ok (fold (\<lambda>c l. snd (serve (map fst) l c)) [CInit ''a'' False 5, CReset ''b'' True 7 6, CForget []] newPeerLimits)"
  by (rule limits_bounded) simp

end
