(* ===== verification/Stamps.thy ===== *)
theory Stamps
  imports Rosters
begin

text \<open>
  The stamps that keep a recorded handshake-init from being read twice (\<open>client-go/sessions.go\<close>,
  \<open>lastStamp\<close>, \<open>rosterAdded\<close>, \<open>retainedStamps\<close>, the stamps of \<open>rosterChanged\<close> and the check of
  \<open>onInit\<close>; \<open>nextStampAfter\<close> of \<open>client-go/member.go\<close>). A roster is here the list of its members' ids,
  which is what these functions ask of it. Wall times are Unix milliseconds, times of the monotonic
  clock nanoseconds. Where the code ranges over the map of stamps, the order is the parameter \<open>walk\<close>.
\<close>

lemma member_in_None: "member_in ms i = None \<longleftrightarrow> i \<notin> rm_ID ` set ms"
proof (cases "bsearch ms i 0 (length ms) < length ms \<and> rm_ID (ms ! bsearch ms i 0 (length ms)) = i")
  case True
  then have "i \<in> rm_ID ` set ms" using nth_mem [of "bsearch ms i 0 (length ms)" ms] by (intro image_eqI [of _ _ "ms ! bsearch ms i 0 (length ms)"]) simp_all
  then show ?thesis using True by (simp add: member_in_def)
next
  case False
  then have "member_in ms i = find (\<lambda>m. rm_ID m = i) ms" by (simp only: member_in_def Let_def if_False)
  then show ?thesis by (auto simp: find_None_iff)
qed

record stamp_state =
  ss_stamps :: "(string \<times> u64) list"
  ss_startedMono :: int
  ss_addedMono :: "string \<rightharpoonup> int"
  ss_order :: "string list"
  ss_retained :: "string \<rightharpoonup> u64"

definition new_stamps :: "int \<Rightarrow> stamp_state" where
  "new_stamps monoNow = \<lparr>ss_stamps = [], ss_startedMono = monoNow, ss_addedMono = Map.empty, ss_order = [], ss_retained = Map.empty\<rparr>"

definition stampWindowMs :: int where "stampWindowMs = 10 * 60 * 1000"
definition retainedCap :: nat where "retainedCap = 1024"

text \<open>\<open>time.Duration.Milliseconds\<close>.\<close>

definition Milliseconds :: "int \<Rightarrow> int" where
  "Milliseconds d = go_quot d 1000000"

definition lastStamp :: "stamp_state \<Rightarrow> int \<Rightarrow> int \<Rightarrow> string \<Rightarrow> u64" where
  "lastStamp st wallNow monoNow i =
     (let joined = max (ss_startedMono st) (case ss_addedMono st i of None \<Rightarrow> 0 | Some t \<Rightarrow> t);
          floor = word_of_int (max (wallNow - Milliseconds (monoNow - joined) - stampWindowMs) 0)
      in max (case map_of (ss_stamps st) i of None \<Rightarrow> 0 | Some s \<Rightarrow> s) floor)"

section \<open>Retained stamps\<close>

definition retained_drop :: "stamp_state \<Rightarrow> string \<Rightarrow> stamp_state" where
  "retained_drop st i = st\<lparr>ss_retained := (ss_retained st)(i := None), ss_order := remove1 i (ss_order st)\<rparr>"

fun trim_retained :: "string list \<Rightarrow> (string \<rightharpoonup> u64) \<Rightarrow> string list \<times> (string \<rightharpoonup> u64)" where
  "trim_retained [] m = ([], m)"
| "trim_retained (x # xs) m = (if length (x # xs) > retainedCap then trim_retained xs (m(x := None)) else (x # xs, m))"

definition retained_put :: "stamp_state \<Rightarrow> string \<Rightarrow> u64 \<Rightarrow> stamp_state" where
  "retained_put st i s =
     (let st = (if ss_retained st i \<noteq> None then retained_drop st i else st);
          (ord, m) = trim_retained (ss_order st @ [i]) ((ss_retained st)(i \<mapsto> s))
      in st\<lparr>ss_order := ord, ss_retained := m\<rparr>)"

definition retained_take :: "stamp_state \<Rightarrow> string \<Rightarrow> u64 option \<times> stamp_state" where
  "retained_take st i =
     (case ss_retained st i of None \<Rightarrow> (None, st) | Some s \<Rightarrow> (Some s, retained_drop st i))"

section \<open>Roster changes\<close>

text \<open>\<open>rosterAdded\<close>, for one member of the new roster and then for all.\<close>

definition member_added :: "string list \<Rightarrow> int \<Rightarrow> stamp_state \<Rightarrow> string \<Rightarrow> stamp_state" where
  "member_added old now st i =
     (if i \<in> set old then st
      else let st = st\<lparr>ss_addedMono := (ss_addedMono st)(i \<mapsto> now)\<rparr>
           in case retained_take st i of
                (Some s, st) \<Rightarrow> st\<lparr>ss_stamps := AList.update i s (ss_stamps st)\<rparr>
              | (None, st) \<Rightarrow> st\<lparr>ss_stamps := AList.delete i (ss_stamps st)\<rparr>)"

definition rosterAdded :: "string list \<Rightarrow> string list \<Rightarrow> int \<Rightarrow> stamp_state \<Rightarrow> stamp_state" where
  "rosterAdded old nxt now st = foldl (member_added old now) st nxt"

text \<open>The loops of \<open>rosterChanged\<close> over the stamps and the times of addition.\<close>

definition retire_stamp :: "string list \<Rightarrow> stamp_state \<Rightarrow> string \<times> u64 \<Rightarrow> stamp_state" where
  "retire_stamp roster st p =
     (if fst p \<in> set roster then st
      else let st = retained_put st (fst p) (snd p) in st\<lparr>ss_stamps := AList.delete (fst p) (ss_stamps st)\<rparr>)"

definition rosterChanged_stamps :: "((string \<times> u64) list \<Rightarrow> (string \<times> u64) list) \<Rightarrow> string list \<Rightarrow> stamp_state \<Rightarrow> stamp_state" where
  "rosterChanged_stamps walk roster st =
     (let st = foldl (retire_stamp roster) st (walk (ss_stamps st))
      in st\<lparr>ss_addedMono := (\<lambda>i. if i \<in> set roster then ss_addedMono st i else None)\<rparr>)"

section \<open>Inits\<close>

text \<open>The check of \<open>onInit\<close>; \<open>None\<close> where the init is dropped and charged as failed.\<close>

definition accept_stamp :: "stamp_state \<Rightarrow> int \<Rightarrow> int \<Rightarrow> string \<Rightarrow> u64 \<Rightarrow> stamp_state option" where
  "accept_stamp st wallNow monoNow i stamp =
     (if stamp > word_of_int (max wallNow 0) + word_of_int stampWindowMs \<or> stamp \<le> lastStamp st wallNow monoNow i then None
      else Some (st\<lparr>ss_stamps := AList.update i stamp (ss_stamps st)\<rparr>))"

text \<open>The sender's side.\<close>

definition nextStampAfter :: "int \<Rightarrow> u64 \<Rightarrow> u64" where
  "nextStampAfter wallNowMs lastSt = (if wallNowMs > 0 \<and> word_of_int wallNowMs > lastSt + 1 then word_of_int wallNowMs else lastSt + 1)"

lemma nextStampAfter_greater: "lastSt + 1 \<noteq> 0 \<Longrightarrow> lastSt < nextStampAfter wall lastSt"
proof -
  assume "lastSt + 1 \<noteq> 0"
  then have "lastSt < lastSt + 1" using unatSuc [of lastSt] by (simp add: word_less_nat_alt add.commute)
  then show ?thesis by (auto simp: nextStampAfter_def)
qed

section \<open>Runs\<close>

datatype stamp_event = SInit string u64 int int | SRoster "string list" int

fun stamp_step ::
  "((string \<times> u64) list \<Rightarrow> (string \<times> u64) list) \<Rightarrow> string list \<times> stamp_state \<Rightarrow> stamp_event \<Rightarrow> (string \<times> u64) list \<times> string list \<times> stamp_state" where
  "stamp_step walk (roster, st) (SInit i stamp wall monoNow) =
     (if i \<notin> set roster then ([], roster, st)
      else case accept_stamp st wall monoNow i stamp of None \<Rightarrow> ([], roster, st) | Some st' \<Rightarrow> ([(i, stamp)], roster, st'))"
| "stamp_step walk (roster, st) (SRoster nxt monoNow) = ([], nxt, rosterChanged_stamps walk nxt (rosterAdded roster nxt monoNow st))"

text \<open>The inits accepted in a run of events, in order.\<close>

fun accepted :: "((string \<times> u64) list \<Rightarrow> (string \<times> u64) list) \<Rightarrow> string list \<times> stamp_state \<Rightarrow> stamp_event list \<Rightarrow> (string \<times> u64) list" where
  "accepted walk s [] = []"
| "accepted walk s (e # es) = (case stamp_step walk s e of (acc, s') \<Rightarrow> acc @ accepted walk s' es)"

section \<open>No stamp is taken twice\<close>

text \<open>The retained stamps and their order agree.\<close>

definition order_ok :: "stamp_state \<Rightarrow> bool" where
  "order_ok st \<longleftrightarrow> distinct (ss_order st) \<and> set (ss_order st) = dom (ss_retained st)"

lemma order_ok_cong: "ss_order st' = ss_order st \<Longrightarrow> ss_retained st' = ss_retained st \<Longrightarrow> order_ok st' = order_ok st"
  by (simp add: order_ok_def)

lemma drop_order_ok: "order_ok st \<Longrightarrow> order_ok (retained_drop st i)"
  by (auto simp: order_ok_def retained_drop_def)

lemma trim_short: "length xs \<le> retainedCap \<Longrightarrow> trim_retained xs m = (xs, m)"
  by (cases xs) auto

lemma put_short:
  assumes "order_ok st" "card (insert i (dom (ss_retained st))) \<le> retainedCap"
  shows "ss_retained (retained_put st i s) = (ss_retained st)(i \<mapsto> s)" "order_ok (retained_put st i s)" "ss_stamps (retained_put st i s) = ss_stamps st"
proof -
  define st1 where "st1 = (if ss_retained st i \<noteq> None then retained_drop st i else st)"
  have o: "order_ok st1" using assms(1) drop_order_ok by (simp add: st1_def)
  have r: "ss_retained st1 = (ss_retained st)(i := None)" by (auto simp: st1_def retained_drop_def)
  have "length (ss_order st1) = card (dom (ss_retained st1))" using o by (metis order_ok_def distinct_card)
  moreover have "Suc (card (dom (ss_retained st1))) = card (insert i (dom (ss_retained st)))"
    using card.insert_remove [of "dom (ss_retained st)" i] assms(1) finite_set [of "ss_order st"] by (simp add: r order_ok_def)
  ultimately have len: "length (ss_order st1 @ [i]) \<le> retainedCap" using assms(2) by simp
  have eq: "retained_put st i s = st1\<lparr>ss_order := ss_order st1 @ [i], ss_retained := (ss_retained st1)(i \<mapsto> s)\<rparr>"
    using trim_short [OF len] unfolding retained_put_def st1_def [symmetric] Let_def by simp
  show "ss_retained (retained_put st i s) = (ss_retained st)(i \<mapsto> s)" by (simp add: eq r)
  show "order_ok (retained_put st i s)" using o r by (auto simp: eq order_ok_def)
  show "ss_stamps (retained_put st i s) = ss_stamps st" by (simp add: eq st1_def retained_drop_def)
qed

lemma member_added_eq:
  assumes "order_ok st" "distinct (map fst (ss_stamps st))"
  shows "order_ok (member_added old now st i)" "distinct (map fst (ss_stamps (member_added old now st i)))"
    "ss_retained (member_added old now st i) j = (if j = i \<and> i \<notin> set old then None else ss_retained st j)"
    "map_of (ss_stamps (member_added old now st i)) j = (if j = i \<and> i \<notin> set old then ss_retained st i else map_of (ss_stamps st) j)"
proof -
  let ?t = "member_added old now st i"
  have "order_ok ?t \<and> distinct (map fst (ss_stamps ?t)) \<and> ss_retained ?t j = (if j = i \<and> i \<notin> set old then None else ss_retained st j)
      \<and> map_of (ss_stamps ?t) j = (if j = i \<and> i \<notin> set old then ss_retained st i else map_of (ss_stamps st) j)"
  proof (cases "i \<in> set old")
    case False
    show ?thesis
    proof (cases "ss_retained st i")
      case None
      then have "?t = st\<lparr>ss_addedMono := (ss_addedMono st)(i \<mapsto> now), ss_stamps := AList.delete i (ss_stamps st)\<rparr>"
        using False by (simp add: member_added_def Let_def retained_take_def)
      then show ?thesis using assms False None by (simp add: order_ok_def distinct_delete delete_conv')
    next
      case (Some s)
      then have "?t = (retained_drop (st\<lparr>ss_addedMono := (ss_addedMono st)(i \<mapsto> now)\<rparr>) i)\<lparr>ss_stamps := AList.update i s (ss_stamps st)\<rparr>"
        using False by (simp add: member_added_def Let_def retained_take_def retained_drop_def)
      then show ?thesis using assms False Some by (auto simp: order_ok_def retained_drop_def distinct_update update_conv')
    qed
  qed (use assms in \<open>simp add: member_added_def\<close>)
  then show "order_ok ?t" "distinct (map fst (ss_stamps ?t))" "ss_retained ?t j = (if j = i \<and> i \<notin> set old then None else ss_retained st j)"
      "map_of (ss_stamps ?t) j = (if j = i \<and> i \<notin> set old then ss_retained st i else map_of (ss_stamps st) j)" by blast+
qed

lemma rosterAdded_eq:
  assumes "distinct nxt" "order_ok st" "distinct (map fst (ss_stamps st))"
  shows "order_ok (rosterAdded old nxt now st) \<and> distinct (map fst (ss_stamps (rosterAdded old nxt now st)))
    \<and> (\<forall>j. ss_retained (rosterAdded old nxt now st) j = (if j \<in> set nxt \<and> j \<notin> set old then None else ss_retained st j))
    \<and> (\<forall>j. map_of (ss_stamps (rosterAdded old nxt now st)) j = (if j \<in> set nxt \<and> j \<notin> set old then ss_retained st j else map_of (ss_stamps st) j))"
  using assms unfolding rosterAdded_def
proof (induction nxt arbitrary: st)
  case (Cons i nxt)
  show ?case using Cons.IH [of "member_added old now st i"] Cons.prems member_added_eq [OF Cons.prems(2,3), of old now i] by auto
qed simp

lemma retire_stamps_eq:
  assumes "finite U" "card U \<le> retainedCap" "dom (ss_retained st) \<subseteq> U" "fst ` set ps \<subseteq> U" "\<And>k v. (k, v) \<in> set ps \<Longrightarrow> v = f k"
    and "order_ok st" "distinct (map fst (ss_stamps st))"
  shows "order_ok (foldl (retire_stamp roster) st ps) \<and> distinct (map fst (ss_stamps (foldl (retire_stamp roster) st ps)))
    \<and> (\<forall>j. ss_retained (foldl (retire_stamp roster) st ps) j = (if j \<in> fst ` set ps - set roster then Some (f j) else ss_retained st j))
    \<and> (\<forall>j. map_of (ss_stamps (foldl (retire_stamp roster) st ps)) j = (if j \<in> fst ` set ps - set roster then None else map_of (ss_stamps st) j))"
  using assms(3-7)
proof (induction ps arbitrary: st)
  case (Cons p ps)
  obtain k v where p: "p = (k, v)" by fastforce
  have v: "v = f k" using Cons.prems(3) p by simp
  let ?t = "retire_stamp roster st p"
  have "card (insert k (dom (ss_retained st))) \<le> card U" using Cons.prems(1,2) p assms(1) by (intro card_mono) auto
  then have cap: "card (insert k (dom (ss_retained st))) \<le> retainedCap" using assms(2) by linarith
  note put = put_short [OF Cons.prems(4) cap, of v]
  have t: "order_ok ?t" "distinct (map fst (ss_stamps ?t))" "\<And>j. ss_retained ?t j = (if j = k \<and> k \<notin> set roster then Some (f k) else ss_retained st j)"
      "\<And>j. map_of (ss_stamps ?t) j = (if j = k \<and> k \<notin> set roster then None else map_of (ss_stamps st) j)"
    using Cons.prems(4,5) put order_ok_cong [of "?t" "retained_put st k v"] v
    by (auto simp: retire_stamp_def p Let_def distinct_delete delete_conv')
  have "dom (ss_retained ?t) \<subseteq> U" using t(3) Cons.prems(1,2) p by (auto simp: dom_def subset_iff split: if_splits)
  then show ?case using Cons.IH [of ?t] t Cons.prems p by auto
qed simp

definition stamps_inv :: "string set \<Rightarrow> string list \<Rightarrow> stamp_state \<Rightarrow> (string \<rightharpoonup> u64) \<Rightarrow> bool" where
  "stamps_inv U roster st hi \<longleftrightarrow> distinct (map fst (ss_stamps st)) \<and> fst ` set (ss_stamps st) \<subseteq> set roster \<and> set roster \<subseteq> U
     \<and> order_ok st \<and> dom (ss_retained st) \<subseteq> U
     \<and> (\<forall>i s. hi i = Some s \<longrightarrow> (if i \<in> set roster then map_of (ss_stamps st) i = Some s else ss_retained st i = Some s))"

lemma stamps_inv_roster:
  assumes inv: "stamps_inv U roster st hi" and U: "finite U" "card U \<le> retainedCap" and nxt: "distinct nxt" "set nxt \<subseteq> U"
    and walk: "\<And>m. set (walk m) = set m"
  shows "stamps_inv U nxt (rosterChanged_stamps walk nxt (rosterAdded roster nxt now st)) hi"
proof -
  note i = inv [unfolded stamps_inv_def]
  define a where "a = rosterAdded roster nxt now st"
  have a: "order_ok a" "distinct (map fst (ss_stamps a))" "\<And>j. ss_retained a j = (if j \<in> set nxt \<and> j \<notin> set roster then None else ss_retained st j)"
      "\<And>j. map_of (ss_stamps a) j = (if j \<in> set nxt \<and> j \<notin> set roster then ss_retained st j else map_of (ss_stamps st) j)"
    using rosterAdded_eq [OF nxt(1), of st roster now] i by (auto simp: a_def)
  have keys: "j \<in> fst ` set (ss_stamps a) \<longleftrightarrow> map_of (ss_stamps a) j \<noteq> None" for j by (simp add: map_of_eq_None_iff)
  have st_keys: "map_of (ss_stamps st) j = None" if "j \<notin> set roster" for j using i that by (auto simp: map_of_eq_None_iff)
  have sub: "fst ` set (ss_stamps a) \<subseteq> U"
  proof
    fix j assume "j \<in> fst ` set (ss_stamps a)"
    then have "map_of (ss_stamps a) j \<noteq> None" using keys by simp
    then have "j \<in> set nxt \<or> map_of (ss_stamps st) j \<noteq> None" using a(4) [of j] by (auto split: if_splits)
    then have "j \<in> set nxt \<or> j \<in> set roster" using st_keys [of j] by fast
    then show "j \<in> U" using i nxt(2) by auto
  qed
  define f where "f j = the (map_of (ss_stamps a) j)" for j
  have fv: "v = f k" if "(k, v) \<in> set (walk (ss_stamps a))" for k v
    using that a(2) by (simp add: walk f_def)
  define b where "b = foldl (retire_stamp nxt) a (walk (ss_stamps a))"
  have da: "dom (ss_retained a) \<subseteq> U" using a(3) i by (auto simp: dom_def subset_iff split: if_splits)
  have b: "order_ok b" "distinct (map fst (ss_stamps b))"
      "\<And>j. ss_retained b j = (if j \<in> fst ` set (ss_stamps a) - set nxt then Some (f j) else ss_retained a j)"
      "\<And>j. map_of (ss_stamps b) j = (if j \<in> fst ` set (ss_stamps a) - set nxt then None else map_of (ss_stamps a) j)"
    using retire_stamps_eq [OF U da, of "walk (ss_stamps a)" f nxt] fv a(1,2) sub unfolding b_def walk by blast+
  have bk: "fst ` set (ss_stamps b) \<subseteq> set nxt"
  proof
    fix j assume "j \<in> fst ` set (ss_stamps b)"
    then have "map_of (ss_stamps b) j \<noteq> None" by (simp add: map_of_eq_None_iff)
    then show "j \<in> set nxt" using b(4) [of j] keys [of j] by (auto split: if_splits)
  qed
  have db: "dom (ss_retained b) \<subseteq> U" using b(3) da sub by (auto simp: dom_def subset_iff split: if_splits)
  have hi: "if j \<in> set nxt then map_of (ss_stamps b) j = Some s else ss_retained b j = Some s" if "hi j = Some s" for j s
  proof (cases "j \<in> set roster")
    case True
    then have "map_of (ss_stamps a) j = Some s" using i that a(4) by auto
    then show ?thesis using b(3,4) [of j] keys [of j] by (auto simp: f_def)
  next
    case False
    then have r: "ss_retained st j = Some s" using i that by auto
    show ?thesis
    proof (cases "j \<in> set nxt")
      case True
      then show ?thesis using r False a(4) [of j] b(4) [of j] by simp
    next
      case n: False
      then have "map_of (ss_stamps a) j = None" using a(4) [of j] st_keys False by simp
      then show ?thesis using n r a(3) [of j] b(3) [of j] keys [of j] by simp
    qed
  qed
  have "rosterChanged_stamps walk nxt a = b\<lparr>ss_addedMono := (\<lambda>i. if i \<in> set nxt then ss_addedMono b i else None)\<rparr>"
    unfolding rosterChanged_stamps_def b_def Let_def by (rule refl)
  then show ?thesis using b(1,2) bk db hi nxt(2) unfolding stamps_inv_def a_def [symmetric] by (simp add: order_ok_def)
qed

lemma lastStamp_ge: "map_of (ss_stamps st) i = Some s \<Longrightarrow> s \<le> lastStamp st wall monoNow i"
  by (simp add: lastStamp_def Let_def)

lemma accept_above:
  assumes "accept_stamp st wall monoNow i stamp = Some st'"
  shows "st' = st\<lparr>ss_stamps := AList.update i stamp (ss_stamps st)\<rparr>" "map_of (ss_stamps st) i = Some s \<Longrightarrow> s < stamp"
  using assms lastStamp_ge [of st i s wall monoNow] by (auto simp: accept_stamp_def not_le split: if_splits intro: le_less_trans)

lemma accepted_sorted:
  assumes "stamps_inv U roster st hi" "finite U" "card U \<le> retainedCap" "\<And>m. set (walk m) = set m"
    and "\<And>nxt t. SRoster nxt t \<in> set es \<Longrightarrow> distinct nxt \<and> set nxt \<subseteq> U"
  shows "sorted_wrt (\<lambda>(i, s) (j, t). i = j \<longrightarrow> s < t) (accepted walk (roster, st) es)
    \<and> (\<forall>(i, t)\<in>set (accepted walk (roster, st) es). \<forall>s. hi i = Some s \<longrightarrow> s < t)"
  using assms(1,5)
proof (induction es arbitrary: roster st hi)
  case (Cons e es)
  note tail = Cons.prems(2) [OF list.set_intros(2)]
  show ?case
  proof (cases e)
    case (SInit i stamp wall monoNow)
    show ?thesis
    proof (cases "i \<in> set roster \<and> accept_stamp st wall monoNow i stamp \<noteq> None")
      case False
      then have "stamp_step walk (roster, st) e = ([], roster, st)" by (auto simp: SInit split: option.splits)
      then show ?thesis using Cons.IH [OF Cons.prems(1) tail] by simp
    next
      case True
      then obtain st' where a: "i \<in> set roster" "accept_stamp st wall monoNow i stamp = Some st'" by auto
      note acc = accept_above [OF a(2)]
      have "stamps_inv U roster st' (hi(i \<mapsto> stamp))"
        using Cons.prems(1) a(1) acc(1) by (auto simp: stamps_inv_def order_ok_def distinct_update update_conv' dom_update)
      from Cons.IH [OF this tail]
      have IH: "sorted_wrt (\<lambda>(i, s) (j, t). i = j \<longrightarrow> s < t) (accepted walk (roster, st') es)"
          "\<forall>(j, t)\<in>set (accepted walk (roster, st') es). \<forall>s. (hi(i \<mapsto> stamp)) j = Some s \<longrightarrow> s < t" by auto
      have above: "s < stamp" if "hi i = Some s" for s
        using Cons.prems(1) a(1) acc(2) that by (auto simp: stamps_inv_def)
      have step: "accepted walk (roster, st) (e # es) = (i, stamp) # accepted walk (roster, st') es" using a by (simp add: SInit)
      show ?thesis unfolding step using IH above by (fastforce split: if_splits)
    qed
  next
    case (SRoster nxt t)
    have "stamps_inv U nxt (rosterChanged_stamps walk nxt (rosterAdded roster nxt t st)) hi"
      using Cons.prems SRoster assms(2-4) by (intro stamps_inv_roster) auto
    from Cons.IH [OF this tail] show ?thesis by (simp add: SRoster)
  qed
qed simp

text \<open>
  C36. No init is taken twice. Whatever inits arrive, in whatever order, under any clocks, and however
  members leave the roster and come back, the stamps of the inits accepted from one member strictly
  increase: a recorded init, from before a removal included, is refused for good. The one bound is
  on memory: the rosters of the run name at most 1,024 ids in all, the number of stamps retained of
  ids that left.
\<close>

theorem no_init_accepted_twice:
  assumes "\<And>m. set (walk m) = set m" "finite U" "card U \<le> retainedCap" "set roster \<subseteq> U"
    and "\<And>nxt t. SRoster nxt t \<in> set es \<Longrightarrow> distinct nxt \<and> set nxt \<subseteq> U"
  shows "sorted_wrt (\<lambda>(i, s) (j, t). i = j \<longrightarrow> s < t) (accepted walk (roster, new_stamps started) es)"
proof -
  have "stamps_inv U roster (new_stamps started) Map.empty"
    using assms(4) by (simp add: stamps_inv_def new_stamps_def order_ok_def)
  then show ?thesis using accepted_sorted [where es = es and walk = walk] assms(1,2,3,5) by blast
qed

theorem no_init_accepted_twice_witness:
  "let es = [SInit ''a'' 650000 100000 0, SRoster [''b''] 5, SInit ''b'' 1 0 6, SRoster [''a'', ''b''] 7, SInit ''a'' 650000 200000 8, SInit ''a'' 650001 200000 9];
       acc = accepted id ([''a'', ''b''], new_stamps 0) es
   in sorted_wrt (\<lambda>(i, s) (j, t). i = j \<longrightarrow> s < t) acc \<and> acc = [(''a'', 650000), (''b'', 1), (''a'', 650001)]"
  unfolding Let_def
proof
  show "sorted_wrt (\<lambda>(i, s) (j, t). i = j \<longrightarrow> s < t)
      (accepted id ([''a'', ''b''], new_stamps 0)
        [SInit ''a'' 650000 100000 0, SRoster [''b''] 5, SInit ''b'' 1 0 6, SRoster [''a'', ''b''] 7, SInit ''a'' 650000 200000 8, SInit ''a'' 650001 200000 9])"
    by (rule no_init_accepted_twice [where U = "{''a'', ''b''}"]) (auto simp: retainedCap_def)
  show "accepted id ([''a'', ''b''], new_stamps 0)
      [SInit ''a'' 650000 100000 0, SRoster [''b''] 5, SInit ''b'' 1 0 6, SRoster [''a'', ''b''] 7, SInit ''a'' 650000 200000 8, SInit ''a'' 650001 200000 9]
    = [(''a'', 650000), (''b'', 1), (''a'', 650001)]"
    by code_simp
qed

end
