(* ===== verification/Session_State.thy ===== *)
theory Session_State
  imports Frames Peer_Limits Stamps
begin

text \<open>
  The state of the client's session manager (\<open>client-go/sessions.go\<close>): sessions, handshakes under
  way, outbound messages and per-peer state are objects the code shares by pointer, here entries of
  stores indexed by address; a pointer is an address, nil is \<open>None\<close>. The member's task list, the
  messages the application has not taken, the frames handed to the relay socket and the manager's
  calls into the member are fields too. A callback is a value of \<open>callback\<close>, a task a value of
  \<open>task\<close>, a running timer a flag. Times are nanoseconds of the monotonic clock, \<open>mg_wall\<close> Unix
  milliseconds. The Noise library is the parameter \<open>noise\<close>. \<open>mg_panicked\<close> says that the random source
  failed, on which the code panics; \<open>mg_stuck\<close> that the code would dereference nil or never return.
\<close>

section \<open>Errors\<close>

datatype ErrorCode =
    CodeUnreachable | CodeRefused | CodeRevoked | CodeReplaced | CodeTimeout | CodeClosed | CodePairing
  | CodeRosterFull | CodeRateLimited | CodeInvalid

record Error =
  e_Code :: ErrorCode
  e_Message :: string
  e_Peer :: string
  e_Reason :: int

definition unreachableError :: "string \<Rightarrow> Error" where
  "unreachableError p = \<lparr>e_Code = CodeUnreachable, e_Message = ''peer '' @ p @ '' is not connected'', e_Peer = p, e_Reason = 0\<rparr>"

definition refusedError :: "string \<Rightarrow> int \<Rightarrow> Error" where
  "refusedError p reason = \<lparr>e_Code = CodeRefused,
     e_Message = ''peer '' @ p @ '' refused the session (reason '' @ FormatInt reason @ '')'', e_Peer = p, e_Reason = reason\<rparr>"

definition timeoutError :: "string \<Rightarrow> Error" where
  "timeoutError what = \<lparr>e_Code = CodeTimeout, e_Message = what @ '' timed out'', e_Peer = [], e_Reason = 0\<rparr>"

definition closedError :: "string \<Rightarrow> Error" where
  "closedError what = \<lparr>e_Code = CodeClosed, e_Message = (if what = [] then ''the member is closed'' else what), e_Peer = [], e_Reason = 0\<rparr>"

definition invalidError :: "string \<Rightarrow> Error" where
  "invalidError msg = \<lparr>e_Code = CodeInvalid, e_Message = msg, e_Peer = [], e_Reason = 0\<rparr>"

section \<open>Constants\<close>

definition MaxMessage :: int where "MaxMessage = 64 * 1024 * 1024"
definition maxNoiseMessage :: nat where "maxNoiseMessage = 65535"
definition maxPlaintext :: nat where "maxPlaintext = maxNoiseMessage - 16"
definition maxFragment :: int where "maxFragment = int maxPlaintext - 2"
definition InitialCredit :: int where "InitialCredit = 1024 * 1024"
definition CreditBatchBytes :: int where "CreditBatchBytes = 65536"
definition PaceFloorBytes :: int where "PaceFloorBytes = 65536"
definition paceMinFragment :: int where "paceMinFragment = 16384"
definition fragmentFrameOverhead :: int where "fragmentFrameOverhead = 40"
definition pacedMinFragment :: int where "pacedMinFragment = 1024"
definition maxSessionsPerPeer :: nat where "maxSessionsPerPeer = 8"
definition maxHeldMessagesPerPeer :: int where "maxHeldMessagesPerPeer = 65536"
definition refusedNotOnRoster :: byte where "refusedNotOnRoster = 1"
definition initPayloadLen :: nat where "initPayloadLen = 16"

definition peerBufferLimit :: "int \<Rightarrow> int" where
  "peerBufferLimit wnd = 2 * MaxMessage + 4 * wnd"

definition pacedFragment :: "int \<Rightarrow> int" where
  "pacedFragment rateBps =
     (if rateBps \<le> 0 then maxFragment else max pacedMinFragment (min maxFragment (go_quot (7 * rateBps) 32)))"

section \<open>Objects\<close>

text \<open>
  What the manager uses of \<open>flynn/noise\<close>: a cipher state encrypts or decrypts one message and moves
  to its next nonce, or fails; a handshake state is made (with the randomness of the argument), and
  reads and writes messages, the second of which gives the two cipher states.
\<close>

record ('c, 'h) noise =
  n_encrypt :: "'c \<Rightarrow> bytes \<Rightarrow> (bytes \<times> 'c) option"
  n_decrypt :: "'c \<Rightarrow> bytes \<Rightarrow> (bytes \<times> 'c) option"
  n_new :: "nat \<Rightarrow> bool \<Rightarrow> string \<Rightarrow> bytes option \<Rightarrow> 'h option"
  n_read :: "'h \<Rightarrow> bytes \<Rightarrow> (bytes \<times> ('c \<times> 'c) option \<times> 'h) option"
  n_write :: "'h \<Rightarrow> bytes \<Rightarrow> (bytes \<times> ('c \<times> 'c) option \<times> 'h) option"
  n_peer :: "'h \<Rightarrow> bytes option"

type_synonym addr = nat

text \<open>A Go slice of bytes that starts its array: its bytes and its capacity; nil is \<open>([], 0)\<close>.\<close>

type_synonym slice = "bytes \<times> nat"

record 'c session =
  s_peer :: string
  s_localIndex :: u32
  s_remoteIndex :: u32
  s_initiator :: bool
  s_send :: 'c
  s_recv :: 'c
  s_createdAt :: int
  s_lastActivity :: int
  s_sent :: nat
  s_received :: nat
  s_ended :: bool
  s_endErr :: "Error option"
  s_retired :: bool
  s_activeSends :: int
  s_sendCredit :: int
  s_inflight :: int
  s_rateAt :: int
  s_rateCur :: int
  s_ratePrev :: int
  s_creditTimer :: bool
  s_partial :: slice
  s_partialLen :: int
  s_partialCredited :: int
  s_held :: int
  s_owed :: int
  s_allowance :: int

text \<open>
  Callbacks: the closure \<open>startHead\<close> hands to \<open>ensureSession\<close> for the message at an address, the one
  \<open>sendControl\<close> does (with the message and the number of the caller's own callback), and the empty
  one of a rekey. Tasks: a queue's head is started; a callback runs with a session or an error; the
  rest of a message goes back to the gate; a message is finished; a caller of \<open>sendControl\<close> is told.
\<close>

datatype callback = CbHead addr | CbControl sessionMessage nat | CbNone

datatype task = TStartHead addr | TCall callback "addr option" "Error option" | TMore addr | TFinish addr | TTell nat "Error option"

record 'h pendingInit =
  p_peer :: string
  p_localIndex :: u32
  p_hs :: 'h
  p_timer :: bool
  p_waiters :: "callback list"

datatype indexEntry = ES addr | EP addr

record peerState =
  ps_current :: "addr option"
  ps_sessions :: "addr list"
  ps_pending :: "addr option"
  ps_queue :: "addr list"
  ps_buffered :: int
  ps_heldCount :: int

record outMsg =
  o_peer :: string
  o_bytes :: bytes
  o_off :: nat
  o_s :: "addr option"
  o_running :: bool
  o_started :: bool
  o_finished :: bool
  o_done :: "Error option option"
  o_timer :: bool

text \<open>A complete message the application has not taken, with what its release returns.\<close>

record heldMsg =
  h_from :: string
  h_bytes :: bytes
  h_s :: addr
  h_ps :: addr
  h_size :: int
  h_uncredited :: int

text \<open>
  Calls into the member. Each is the last thing its step does to the manager, but for two: counting a
  message sent, which touches no session, and handing over a session message that is the member's,
  after which the manager looks at the session once more (\<open>resume\<close> below), whatever the member did
  to it. \<open>Told\<close> is the call of the callback a caller of \<open>sendControl\<close> gave.
\<close>

datatype member_call =
  AskPrimary | PeerVersion string u64 | SessionControl string sessionMessage addr | CountSent string nat | Told nat "Error option"

record timing =
  t_Idle :: int
  t_RekeyInterval :: int
  t_RetireGrace :: int
  t_RekeyMessages :: nat

text \<open>
  The configuration, with the member's own id, and the orders in which Go walks the maps that
  \<open>allowReset\<close> trims and \<open>rosterChanged\<close> reads, which are any.
\<close>

record config =
  cf_timing :: timing
  cf_window :: int
  cf_self :: string
  cf_walk :: "(u32 \<times> int) list \<Rightarrow> u32 list"
  cf_stamp_walk :: "(string \<times> u64) list \<Rightarrow> (string \<times> u64) list"

text \<open>
  The manager. \<open>mg_asked\<close> counts the frames put to the relay connection, taken or not; \<open>mg_connected\<close>
  and \<open>mg_writable\<close> are the connection's answers by that count, so that within one step it can take one
  frame and refuse the next (a queue that overflows), or have a pump stop between two fragments.
  They are any functions: the connection's, not the manager's.
\<close>

record ('c, 'h) manager =
  mg_peers :: "(string \<times> addr) list"
  mg_pst :: "addr \<Rightarrow> peerState"
  mg_npst :: nat
  mg_sess :: "addr \<Rightarrow> 'c session"
  mg_nsess :: nat
  mg_pend :: "addr \<Rightarrow> 'h pendingInit"
  mg_npend :: nat
  mg_outs :: "addr \<Rightarrow> outMsg"
  mg_byIndex :: "u32 \<rightharpoonup> indexEntry"
  mg_closed :: bool
  mg_gate :: "addr list"
  mg_pumping :: bool
  mg_repump :: bool
  mg_awaiting :: bool
  mg_rateBps :: int
  mg_paceDue :: int
  mg_paceTimer :: bool
  mg_creditsSent :: nat
  mg_messagesReceived :: nat
  mg_initsRead :: nat
  mg_limits :: peerLimits
  mg_stamps :: stamp_state
  mg_draws :: "u32 list"
  mg_seed :: nat
  mg_panicked :: bool
  mg_stuck :: bool
  mg_tasks :: "task list"
  mg_held :: "heldMsg list"
  mg_connected :: "nat \<Rightarrow> bool"
  mg_writable :: "nat \<Rightarrow> bool"
  mg_asked :: nat
  mg_controlFeature :: bool
  mg_lastSent :: u64
  mg_frames :: "bytes list"
  mg_calls :: "member_call list"
  mg_roster :: SignedRoster
  mg_mono :: int
  mg_wall :: int

definition upd_s :: "('c, 'h) manager \<Rightarrow> addr \<Rightarrow> ('c session \<Rightarrow> 'c session) \<Rightarrow> ('c, 'h) manager" where
  "upd_s st s f = st\<lparr>mg_sess := (mg_sess st)(s := f (mg_sess st s))\<rparr>"

definition upd_p :: "('c, 'h) manager \<Rightarrow> addr \<Rightarrow> (peerState \<Rightarrow> peerState) \<Rightarrow> ('c, 'h) manager" where
  "upd_p st a f = st\<lparr>mg_pst := (mg_pst st)(a := f (mg_pst st a))\<rparr>"

definition upd_pend :: "('c, 'h) manager \<Rightarrow> addr \<Rightarrow> ('h pendingInit \<Rightarrow> 'h pendingInit) \<Rightarrow> ('c, 'h) manager" where
  "upd_pend st p f = st\<lparr>mg_pend := (mg_pend st)(p := f (mg_pend st p))\<rparr>"

definition upd_o :: "('c, 'h) manager \<Rightarrow> addr \<Rightarrow> (outMsg \<Rightarrow> outMsg) \<Rightarrow> ('c, 'h) manager" where
  "upd_o st o' f = st\<lparr>mg_outs := (mg_outs st)(o' := f (mg_outs st o'))\<rparr>"

definition later :: "('c, 'h) manager \<Rightarrow> task \<Rightarrow> ('c, 'h) manager" where
  "later st t = st\<lparr>mg_tasks := mg_tasks st @ [t]\<rparr>"

definition call :: "('c, 'h) manager \<Rightarrow> member_call \<Rightarrow> ('c, 'h) manager" where
  "call st c = st\<lparr>mg_calls := mg_calls st @ [c]\<rparr>"

lemmas upd_defs = upd_s_def upd_p_def upd_pend_def upd_o_def later_def call_def

definition member_roster :: "('c, 'h) manager \<Rightarrow> string \<Rightarrow> RosterMember option" where
  "member_roster st i = member_of (mg_roster st) i"

text \<open>
  \<open>Member.sendFrame\<close>: a control frame goes as data to a relay without the feature; false when the
  peer is no node id, the frame is too large or the relay connection does not take it.
\<close>

definition sendFrame :: "('c, 'h) manager \<Rightarrow> byte \<Rightarrow> string \<Rightarrow> bytes \<Rightarrow> bool \<times> ('c, 'h) manager" where
  "sendFrame st typ p body =
     (let typ = (if typ = frameControl \<and> \<not> mg_controlFeature st then frameData else typ)
      in case nodeIDToBytes p of
           None \<Rightarrow> (False, st)
         | Some i \<Rightarrow>
             (case encodeFrame typ i body of
                None \<Rightarrow> (False, st)
              | Some f \<Rightarrow>
                  let st' = st\<lparr>mg_asked := Suc (mg_asked st)\<rparr>
                  in if mg_connected st (mg_asked st) then (True, st'\<lparr>mg_frames := mg_frames st @ [f]\<rparr>) else (False, st')))"

end
