(* ===== verification/Sessions.thy ===== *)
theory Sessions
  imports Session_State
begin

text \<open>
  The session manager's operations (\<open>client-go/sessions.go\<close>), in the order of the file. Each takes the
  Noise library \<open>N\<close> and the configuration \<open>cf\<close> where it uses them. \<open>endSession\<close> calls \<open>pump\<close>, and
  \<open>pump\<close> reaches \<open>endSession\<close> again through \<open>transmit\<close>, where the nested call only notes that the pump
  must run once more; so \<open>endSession\<close> and \<open>transmit\<close> take what \<open>pump\<close> does as an argument \<open>pm\<close>.
\<close>

section \<open>Peers and indices\<close>

definition new_peerState :: peerState where
  "new_peerState = \<lparr>ps_current = None, ps_sessions = [], ps_pending = None, ps_queue = [], ps_buffered = 0, ps_heldCount = 0\<rparr>"

definition peer :: "('c, 'h) manager \<Rightarrow> string \<Rightarrow> addr \<times> ('c, 'h) manager" where
  "peer st i =
     (case map_of (mg_peers st) i of
        Some a \<Rightarrow> (a, st)
      | None \<Rightarrow> (mg_npst st, st\<lparr>mg_peers := mg_peers st @ [(i, mg_npst st)], mg_pst := (mg_pst st)(mg_npst st := new_peerState), mg_npst := Suc (mg_npst st)\<rparr>))"

text \<open>The random source is the list of words it will give; when it ends the code panics.\<close>

definition newIndex :: "('c, 'h) manager \<Rightarrow> u32 option \<times> ('c, 'h) manager" where
  "newIndex st =
     (case dropWhile (\<lambda>i. \<not> (i \<noteq> 0 \<and> mg_byIndex st i = None)) (mg_draws st) of
        [] \<Rightarrow> (None, st\<lparr>mg_draws := [], mg_panicked := True\<rparr>)
      | i # ds \<Rightarrow> (Some i, st\<lparr>mg_draws := ds\<rparr>))"

definition failPending :: "('c, 'h) manager \<Rightarrow> addr \<Rightarrow> Error \<Rightarrow> ('c, 'h) manager" where
  "failPending st a err =
     (case ps_pending (mg_pst st a) of
        None \<Rightarrow> st
      | Some p \<Rightarrow>
          let st = upd_pend st p (\<lambda>p. p\<lparr>p_timer := False\<rparr>);
              st = upd_p st a (\<lambda>ps. ps\<lparr>ps_pending := None\<rparr>);
              i = p_localIndex (mg_pend st p);
              st = (if mg_byIndex st i = Some (EP p) then st\<lparr>mg_byIndex := (mg_byIndex st)(i := None)\<rparr> else st)
          in st\<lparr>mg_tasks := mg_tasks st @ map (\<lambda>w. TCall w None (Some err)) (p_waiters (mg_pend st p))\<rparr>)"

definition initiate :: "('c, 'h) noise \<Rightarrow> ('c, 'h) manager \<Rightarrow> string \<Rightarrow> callback \<Rightarrow> ('c, 'h) manager" where
  "initiate N st i cb =
     (let fail = (\<lambda>st err. later st (TCall cb None (Some err)))
      in if mg_closed st then fail st (closedError [])
         else case member_roster st i of
           None \<Rightarrow> fail st (invalidError (i @ '' is not on the roster''))
         | Some mem \<Rightarrow>
             (case peer st i of (a, st) \<Rightarrow>
                (case ps_pending (mg_pst st a) of
                   Some p \<Rightarrow> upd_pend st p (\<lambda>p. p\<lparr>p_waiters := p_waiters p @ [cb]\<rparr>)
                 | None \<Rightarrow>
                     (case fromB64uLen (rm_X25519 mem) 32 of
                        None \<Rightarrow> fail st (invalidError (i @ '' has no usable x25519 key''))
                      | Some rs \<Rightarrow>
                          let handshakeFailed = closedError (''handshake with '' @ i @ '' failed'');
                              ohs = n_new N (mg_seed st) True (u_Network (mg_roster st)) (Some rs);
                              st = st\<lparr>mg_seed := Suc (mg_seed st)\<rparr>
                          in case ohs of
                               None \<Rightarrow> fail st handshakeFailed
                             | Some hs \<Rightarrow>
                                 (case newIndex st of
                                    (None, st) \<Rightarrow> st
                                  | (Some localIndex, st) \<Rightarrow>
                                      let stamp = nextStampAfter (mg_wall st) (mg_lastSent st); st = st\<lparr>mg_lastSent := stamp\<rparr>
                                      in case n_write N hs (u64be (word_of_int (u_Version (mg_roster st))) @ u64be stamp) of
                                           None \<Rightarrow> fail st handshakeFailed
                                         | Some (msg1, _, hs) \<Rightarrow>
                                             let p = mg_npend st;
                                                 st = st\<lparr>mg_pend := (mg_pend st)(p := \<lparr>p_peer = i, p_localIndex = localIndex, p_hs = hs, p_timer = True, p_waiters = [cb]\<rparr>),
                                                        mg_npend := Suc p\<rparr>;
                                                 st = upd_p st a (\<lambda>ps. ps\<lparr>ps_pending := Some p\<rparr>);
                                                 st = st\<lparr>mg_byIndex := (mg_byIndex st)(localIndex \<mapsto> EP p)\<rparr>
                                             in case sendFrame st frameHandshakeInit i (handshakeInitBody localIndex msg1) of
                                                  (True, st) \<Rightarrow> st
                                                | (False, st) \<Rightarrow> failPending st a (closedError ''not connected to the relay''))))))"

definition maybeRekey :: "('c, 'h) noise \<Rightarrow> config \<Rightarrow> ('c, 'h) manager \<Rightarrow> addr \<Rightarrow> ('c, 'h) manager" where
  "maybeRekey N cf st s =
     (let x = mg_sess st s; t = cf_timing cf
      in if \<not> s_initiator x \<or> s_retired x \<or> s_ended x then st
         else if mg_mono st - s_createdAt x \<ge> t_RekeyInterval t \<or> s_sent x \<ge> t_RekeyMessages t \<or> s_received x \<ge> t_RekeyMessages t
         then (case peer st (s_peer x) of (a, st) \<Rightarrow> if ps_pending (mg_pst st a) = None then initiate N st (s_peer x) CbNone else st)
         else st)"

section \<open>The outbound queue\<close>

definition enqueue_out :: "('c, 'h) manager \<Rightarrow> addr \<Rightarrow> ('c, 'h) manager" where
  "enqueue_out st o' =
     (case peer st (o_peer (mg_outs st o')) of (a, st) \<Rightarrow>
        let st = upd_p st a (\<lambda>ps. ps\<lparr>ps_queue := ps_queue ps @ [o']\<rparr>)
        in if length (ps_queue (mg_pst st a)) = 1 then later st (TStartHead a) else st)"

definition finishOut :: "('c, 'h) noise \<Rightarrow> config \<Rightarrow> ('c, 'h) manager \<Rightarrow> addr \<Rightarrow> Error option \<Rightarrow> ('c, 'h) manager" where
  "finishOut N cf st o' err =
     (if o_finished (mg_outs st o') then st
      else
        let st = upd_o st o' (\<lambda>x. x\<lparr>o_finished := True, o_timer := False\<rparr>);
            st = (case o_s (mg_outs st o') of
                    None \<Rightarrow> st
                  | Some s \<Rightarrow> maybeRekey N cf (upd_s st s (\<lambda>x. x\<lparr>s_activeSends := s_activeSends x - 1\<rparr>)) s);
            x = mg_outs st o';
            st = (if err = None then call st (CountSent (o_peer x) (length (o_bytes x))) else st);
            st = upd_o st o' (\<lambda>x. x\<lparr>o_done := Some err\<rparr>)
        in case map_of (mg_peers st) (o_peer x) of
             None \<Rightarrow> st
           | Some a \<Rightarrow>
               let q = ps_queue (mg_pst st a)
               in if o' \<in> set q
                  then let st = upd_p st a (\<lambda>ps. ps\<lparr>ps_queue := remove1 o' q\<rparr>) in if hd q = o' then later st (TStartHead a) else st
                  else st)"

section \<open>Ending a session and sending on it\<close>

text \<open>All \<open>endSession\<close> does before it pumps.\<close>

definition end_state :: "('c, 'h) manager \<Rightarrow> addr \<Rightarrow> Error \<Rightarrow> ('c, 'h) manager" where
  "end_state st s err =
     (let st = upd_s st s (\<lambda>x. x\<lparr>s_ended := True, s_endErr := Some err\<rparr>);
          x = mg_sess st s;
          st = (if mg_byIndex st (s_localIndex x) = Some (ES s) then st\<lparr>mg_byIndex := (mg_byIndex st)(s_localIndex x := None)\<rparr> else st);
          st = (case map_of (mg_peers st) (s_peer x) of
                  None \<Rightarrow> st
                | Some a \<Rightarrow> upd_p st a (\<lambda>ps. ps\<lparr>ps_sessions := remove1 s (ps_sessions ps),
                    ps_current := (if ps_current ps = Some s then None else ps_current ps), ps_buffered := ps_buffered ps - s_partialLen x\<rparr>))
      in upd_s st s (\<lambda>x. x\<lparr>s_partial := ([], 0), s_partialLen := 0, s_partialCredited := 0, s_creditTimer := False\<rparr>))"

definition endSession :: "(('c, 'h) manager \<Rightarrow> ('c, 'h) manager) \<Rightarrow> ('c, 'h) manager \<Rightarrow> addr \<Rightarrow> Error \<Rightarrow> ('c, 'h) manager" where
  "endSession pm st s err = (if s_ended (mg_sess st s) then st else pm (end_state st s err))"

definition transmit ::
  "('c, 'h) noise \<Rightarrow> (('c, 'h) manager \<Rightarrow> ('c, 'h) manager) \<Rightarrow> ('c, 'h) manager \<Rightarrow> addr \<Rightarrow> sessionMessage \<Rightarrow> bool \<times> Error option \<times> ('c, 'h) manager" where
  "transmit N pm st s msg =
     (let x = mg_sess st s
      in if s_ended x then (False, None, st)
         else let plaintext = encodeSessionMessage msg
              in if length plaintext > maxPlaintext
                 then (False, Some (invalidError (''a '' @ sessionMessage_name msg @ '' session message exceeds '' @ FormatInt (int maxPlaintext) @ '' bytes'')), st)
                 else case n_encrypt N (s_send x) plaintext of
                   None \<Rightarrow> (False, None, endSession pm st s (closedError (''session with '' @ s_peer x @ '' is exhausted'')))
                 | Some (ct, c) \<Rightarrow>
                     let st = upd_s st s (\<lambda>x. x\<lparr>s_send := c, s_sent := Suc (s_sent x), s_lastActivity := mg_mono st\<rparr>);
                         typ = (if mtyp msg = sessMessage then frameData else frameControl)
                     in case sendFrame st typ (s_peer x) (dataBody (s_remoteIndex x) ct) of (ok, st) \<Rightarrow> (ok, None, st))"

section \<open>The gate\<close>

definition rollRate :: "'c session \<Rightarrow> int \<Rightarrow> 'c session" where
  "rollRate x now =
     (let d = now - s_rateAt x
      in if d \<ge> 2 * Second \<or> d < 0 then x\<lparr>s_ratePrev := 0, s_rateCur := 0, s_rateAt := now\<rparr>
         else if d \<ge> Second then x\<lparr>s_ratePrev := s_rateCur x, s_rateCur := 0, s_rateAt := s_rateAt x + Second\<rparr>
         else x)"

definition pace :: "('c, 'h) manager \<Rightarrow> addr \<Rightarrow> int \<times> ('c, 'h) manager" where
  "pace st s =
     (let st = upd_s st s (\<lambda>x. rollRate x (mg_mono st));
          credited = max (s_ratePrev (mg_sess st s)) (s_rateCur (mg_sess st s))
      in if mg_rateBps st > 0
         then (max (pacedFragment (mg_rateBps st)) (min credited (go_quot (mg_rateBps st) 2)), st)
         else (max PaceFloorBytes (go_quot (3 * credited) 2), st))"

definition runFragment ::
  "('c, 'h) noise \<Rightarrow> config \<Rightarrow> (('c, 'h) manager \<Rightarrow> ('c, 'h) manager) \<Rightarrow> ('c, 'h) manager \<Rightarrow> addr \<Rightarrow> addr \<Rightarrow> ('c, 'h) manager" where
  "runFragment N cf pm st o' s =
     (let largest = pacedFragment (mg_rateBps st)
      in case pace st s of (pc, st) \<Rightarrow>
         let x = mg_outs st o';
             room = max (min paceMinFragment largest) (pc - s_inflight (mg_sess st s));
             n = min (min (int (length (o_bytes x)) - int (o_off x)) largest) (min (max (s_sendCredit (mg_sess st s)) 0) room);
             more = int (o_off x) + n < int (length (o_bytes x))
         in case transmit N pm st s (sm_message more (take (nat n) (drop (o_off x) (o_bytes x)))) of (ok, err, st) \<Rightarrow>
            let err = (if err = None \<and> \<not> ok
                       then (case s_endErr (mg_sess st s) of Some e \<Rightarrow> Some e | None \<Rightarrow> Some (closedError ''not connected to the relay'')) else err)
            in if err \<noteq> None then finishOut N cf st o' err
               else
                 let st = (if mg_rateBps st > 0
                           then let pc = go_quot (mg_rateBps st * 7) 8; cost = go_quot ((n + fragmentFrameOverhead) * Second) (max pc 1)
                                in st\<lparr>mg_paceDue := max (mg_paceDue st) (mg_mono st) + cost\<rparr>
                           else st);
                     st = upd_o st o' (\<lambda>x. x\<lparr>o_started := True, o_off := o_off x + nat n\<rparr>);
                     st = upd_s st s (\<lambda>x. x\<lparr>s_sendCredit := s_sendCredit x - n, s_inflight := s_inflight x + n\<rparr>)
                 in if o_off (mg_outs st o') < length (o_bytes x) then later st (TMore o') else later st (TFinish o'))"

text \<open>What \<open>pump\<close> does while it is already running.\<close>

definition nested_pump :: "('c, 'h) manager \<Rightarrow> ('c, 'h) manager" where
  "nested_pump st = st\<lparr>mg_repump := True\<rparr>"

definition drop_at :: "nat \<Rightarrow> 'a list \<Rightarrow> 'a list" where
  "drop_at i xs = take i xs @ drop (Suc i) xs"

text \<open>
  The fields every function above leaves alone but \<open>endSession\<close> and \<open>transmit\<close>: sessions are neither
  made nor ended, nothing a session received or was granted changes, the gate stays.
\<close>

definition s_core :: "'c session \<Rightarrow> string \<times> u32 \<times> bool \<times> slice \<times> int \<times> int \<times> int \<times> int \<times> int" where
  "s_core x = (s_peer x, s_localIndex x, s_ended x, s_partial x, s_partialLen x, s_partialCredited x, s_held x, s_owed x, s_allowance x)"

definition p_core :: "peerState \<Rightarrow> addr option \<times> addr list \<times> int \<times> int" where
  "p_core ps = (ps_current ps, ps_sessions ps, ps_buffered ps, ps_heldCount ps)"

definition quiet_task :: "task \<Rightarrow> bool" where
  "quiet_task t = (case t of TCall cb os oe \<Rightarrow> os = None \<and> oe \<noteq> None | TMore o' \<Rightarrow> False | _ \<Rightarrow> True)"

definition fresh_peers :: "('c, 'h) manager \<Rightarrow> ('c, 'h) manager \<Rightarrow> bool" where
  "fresh_peers st st' \<longleftrightarrow> mg_npst st \<le> mg_npst st' \<and>
     (\<exists>new. mg_peers st' = mg_peers st @ new \<and> distinct (map fst new) \<and> distinct (map snd new)
        \<and> (\<forall>(i, a)\<in>set new. map_of (mg_peers st) i = None \<and> mg_npst st \<le> a \<and> a < mg_npst st'))
     \<and> (\<forall>a. p_core (mg_pst st' a) = (if mg_npst st \<le> a \<and> a < mg_npst st' then p_core new_peerState else p_core (mg_pst st a)))"

definition still :: "('c, 'h) manager \<Rightarrow> ('c, 'h) manager \<Rightarrow> bool" where
  "still st st' \<longleftrightarrow> mg_nsess st' = mg_nsess st \<and> (\<forall>s. s_core (mg_sess st' s) = s_core (mg_sess st s)) \<and> mg_held st' = mg_held st
     \<and> mg_gate st' = mg_gate st \<and> mg_pumping st' = mg_pumping st \<and> mg_repump st' = mg_repump st \<and> mg_closed st' = mg_closed st \<and> mg_stuck st' = mg_stuck st
     \<and> (\<forall>i s. mg_byIndex st' i = Some (ES s) \<longleftrightarrow> mg_byIndex st i = Some (ES s)) \<and> (\<forall>o'. o_s (mg_outs st' o') = o_s (mg_outs st o'))
     \<and> mg_stamps st' = mg_stamps st \<and> mg_roster st' = mg_roster st \<and> (\<exists>ts. mg_tasks st' = mg_tasks st @ ts \<and> list_all quiet_task ts) \<and> fresh_peers st st'"

lemma fresh_peers_refl: "mg_peers st' = mg_peers st \<Longrightarrow> mg_npst st' = mg_npst st \<Longrightarrow> (\<And>a. p_core (mg_pst st' a) = p_core (mg_pst st a)) \<Longrightarrow> fresh_peers st st'"
  by (auto simp: fresh_peers_def)

lemma fresh_peers_trans:
  assumes "fresh_peers a b" "fresh_peers b c"
  shows "fresh_peers a c"
proof -
  obtain n where n: "mg_npst a \<le> mg_npst b" "mg_peers b = mg_peers a @ n" "distinct (map fst n)" "distinct (map snd n)"
      "\<forall>(i, x)\<in>set n. map_of (mg_peers a) i = None \<and> mg_npst a \<le> x \<and> x < mg_npst b"
      "\<forall>x. p_core (mg_pst b x) = (if mg_npst a \<le> x \<and> x < mg_npst b then p_core new_peerState else p_core (mg_pst a x))"
    using assms(1) by (auto simp: fresh_peers_def)
  obtain m where m: "mg_npst b \<le> mg_npst c" "mg_peers c = mg_peers b @ m" "distinct (map fst m)" "distinct (map snd m)"
      "\<forall>(i, x)\<in>set m. map_of (mg_peers b) i = None \<and> mg_npst b \<le> x \<and> x < mg_npst c"
      "\<forall>x. p_core (mg_pst c x) = (if mg_npst b \<le> x \<and> x < mg_npst c then p_core new_peerState else p_core (mg_pst b x))"
    using assms(2) by (auto simp: fresh_peers_def)
  have out: "fst p \<notin> fst ` set n \<and> snd p \<notin> snd ` set n" if "p \<in> set m" for p
  proof -
    have "map_of (mg_peers b) (fst p) = None" "mg_npst b \<le> snd p" using m(5) that by auto
    moreover have "x < mg_npst b" if "x \<in> snd ` set n" for x using n(5) that by auto
    ultimately have "snd p \<notin> snd ` set n" "fst p \<notin> fst ` set n" by (meson not_le, simp add: n(2) map_of_eq_None_iff)
    then show ?thesis by (intro conjI)
  qed
  have "fst ` set n \<inter> fst ` set m = {}" by (rule Int_emptyI) (metis imageE out)
  moreover have "snd ` set n \<inter> snd ` set m = {}" by (rule Int_emptyI) (metis imageE out)
  ultimately have d: "distinct (map fst (n @ m))" "distinct (map snd (n @ m))" using n(3,4) m(3,4) by simp_all
  have "\<forall>(i, x)\<in>set (n @ m). map_of (mg_peers a) i = None \<and> mg_npst a \<le> x \<and> x < mg_npst c"
    using n(1,5) m(1,5) by (auto simp: n(2) map_add_None)
  then show ?thesis unfolding fresh_peers_def using n m d by (auto intro!: exI [of _ "n @ m"])
qed

lemma still_refl [simp]: "still st st"
  by (simp add: still_def fresh_peers_refl)

lemma still_trans [trans]: "still a b \<Longrightarrow> still b c \<Longrightarrow> still a c"
  using fresh_peers_trans [of a b c] unfolding still_def by (auto simp: list_all_append)

text \<open>Handshakes under way are indexed under their own indices.\<close>

definition epi :: "('c, 'h) manager \<Rightarrow> bool" where
  "epi st \<longleftrightarrow> (\<forall>i p. mg_byIndex st i = Some (EP p) \<longrightarrow> p < mg_npend st \<and> p_localIndex (mg_pend st p) = i)"

lemma still_same:
  assumes "mg_nsess st' = mg_nsess st" "\<And>s. s_core (mg_sess st' s) = s_core (mg_sess st s)" "mg_held st' = mg_held st"
    "mg_gate st' = mg_gate st" "mg_pumping st' = mg_pumping st" "mg_repump st' = mg_repump st" "mg_closed st' = mg_closed st" "mg_stuck st' = mg_stuck st"
    "\<And>i s. mg_byIndex st' i = Some (ES s) \<longleftrightarrow> mg_byIndex st i = Some (ES s)" "\<And>o'. o_s (mg_outs st' o') = o_s (mg_outs st o')"
    "mg_stamps st' = mg_stamps st" "mg_roster st' = mg_roster st" "mg_tasks st' = mg_tasks st @ ts" "list_all quiet_task ts"
    "mg_peers st' = mg_peers st" "mg_npst st' = mg_npst st" "\<And>a. p_core (mg_pst st' a) = p_core (mg_pst st a)"
  shows "still st st'"
  unfolding still_def using assms by (auto intro!: fresh_peers_refl)

lemma still_later: "quiet_task t \<Longrightarrow> still st (later st t)"
  by (rule still_same [where ts = "[t]"]) (simp_all add: later_def)

lemma still_call: "still st (call st c)"
  by (rule still_same [where ts = "[]"]) (simp_all add: call_def)

lemma still_upd_s: "(\<And>x. s_core (f x) = s_core x) \<Longrightarrow> still st (upd_s st s f)"
  by (rule still_same [where ts = "[]"]) (simp_all add: upd_s_def)

lemma still_upd_p: "(\<And>x. p_core (f x) = p_core x) \<Longrightarrow> still st (upd_p st a f)"
  by (rule still_same [where ts = "[]"]) (simp_all add: upd_p_def)

lemma still_upd_o: "(\<And>x. o_s (f x) = o_s x) \<Longrightarrow> still st (upd_o st o' f)"
  by (rule still_same [where ts = "[]"]) (simp_all add: upd_o_def)

lemma still_upd_pend: "still st (upd_pend st p f)"
  by (rule still_same [where ts = "[]"]) (simp_all add: upd_pend_def)

lemma still_peer: "still st (snd (peer st i))"
proof (cases "map_of (mg_peers st) i")
  case None
  have "fresh_peers st (snd (peer st i))"
    by (auto simp: fresh_peers_def peer_def None intro!: exI [of _ "[(i, mg_npst st)]"])
  then show ?thesis by (simp add: still_def peer_def None)
qed (simp add: peer_def)

lemma still_sendFrame: "still st (snd (sendFrame st typ p body))"
  by (rule still_same [where ts = "[]"]) (simp_all add: sendFrame_def Let_def split: option.splits)

lemma still_newIndex: "still st (snd (newIndex st))"
  by (rule still_same [where ts = "[]"]) (simp_all add: newIndex_def split: list.splits)

lemma still_failPending: "still st (failPending st a err)"
proof (cases "ps_pending (mg_pst st a)")
  case (Some p)
  show ?thesis
    by (rule still_same [where ts = "map (\<lambda>w. TCall w None (Some err)) (p_waiters (mg_pend st p))"])
       (simp_all add: failPending_def Some upd_defs Let_def p_core_def list_all_iff quiet_task_def)
qed (simp add: failPending_def)

lemma newIndex_fresh:
  assumes "newIndex st = (Some i, st')"
  shows "i \<noteq> 0 \<and> mg_byIndex st i = None"
proof (cases "dropWhile (\<lambda>i. \<not> (i \<noteq> 0 \<and> mg_byIndex st i = None)) (mg_draws st)")
  case Nil
  then show ?thesis using assms unfolding newIndex_def by (simp only: list.case prod.inject option.distinct simp_thms)
next
  case (Cons j ds)
  then have "i = j" using assms unfolding newIndex_def by (simp only: list.case prod.inject option.inject simp_thms)
  then show ?thesis using Cons by (simp only: dropWhile_eq_Cons_conv simp_thms)
qed

definition tame :: "('c, 'h) manager \<Rightarrow> ('c, 'h) manager \<Rightarrow> bool" where
  "tame st st' \<longleftrightarrow> still st st' \<and> (epi st \<longrightarrow> epi st')"

lemma tame_refl [simp]: "tame st st"
  by (simp add: tame_def)

lemma tame_trans [trans]: "tame a b \<Longrightarrow> tame b c \<Longrightarrow> tame a c"
  unfolding tame_def using still_trans by blast

lemma epi_same:
  "mg_byIndex st' = mg_byIndex st \<Longrightarrow> mg_npend st' = mg_npend st \<Longrightarrow> (\<And>p. p_localIndex (mg_pend st' p) = p_localIndex (mg_pend st p)) \<Longrightarrow> epi st \<Longrightarrow> epi st'"
  by (simp add: epi_def)

lemma tame_same:
  assumes "still st st'" "mg_byIndex st' = mg_byIndex st" "mg_npend st' = mg_npend st" "\<And>p. p_localIndex (mg_pend st' p) = p_localIndex (mg_pend st p)"
  shows "tame st st'"
  unfolding tame_def using assms epi_same by blast

lemma tame_later: "quiet_task t \<Longrightarrow> tame st (later st t)"
  by (rule tame_same [OF still_later]) (simp_all add: later_def)

lemma tame_call: "tame st (call st c)"
  by (rule tame_same [OF still_call]) (simp_all add: call_def)

lemma tame_upd_s: "(\<And>x. s_core (f x) = s_core x) \<Longrightarrow> tame st (upd_s st s f)"
  by (rule tame_same [OF still_upd_s]) (simp_all add: upd_s_def)

lemma tame_upd_p: "(\<And>x. p_core (f x) = p_core x) \<Longrightarrow> tame st (upd_p st a f)"
  by (rule tame_same [OF still_upd_p]) (simp_all add: upd_p_def)

lemma tame_upd_o: "(\<And>x. o_s (f x) = o_s x) \<Longrightarrow> tame st (upd_o st o' f)"
  by (rule tame_same [OF still_upd_o]) (simp_all add: upd_o_def)

lemma tame_upd_pend: "(\<And>x. p_localIndex (f x) = p_localIndex x) \<Longrightarrow> tame st (upd_pend st p f)"
  by (rule tame_same [OF still_upd_pend]) (simp_all add: upd_pend_def)

lemma tame_peer: "tame st (snd (peer st i))"
  by (rule tame_same [OF still_peer]) (simp_all add: peer_def split: option.splits)

lemma tame_sendFrame: "tame st (snd (sendFrame st typ p body))"
  by (rule tame_same [OF still_sendFrame]) (simp_all add: sendFrame_def Let_def split: option.splits)

lemma tame_newIndex: "tame st (snd (newIndex st))"
  by (rule tame_same [OF still_newIndex]) (simp_all add: newIndex_def split: list.splits)

lemma tame_failPending: "tame st (failPending st a err)"
proof (cases "ps_pending (mg_pst st a)")
  case (Some p)
  let ?t = "failPending st a err"
  have i: "mg_byIndex ?t j = Some e \<Longrightarrow> mg_byIndex st j = Some e" for j e
    by (simp add: failPending_def Some upd_defs Let_def split: if_splits)
  have p: "p_localIndex (mg_pend ?t q) = p_localIndex (mg_pend st q)" "mg_npend ?t = mg_npend st" for q
    by (simp_all add: failPending_def Some upd_defs Let_def)
  have "epi st \<Longrightarrow> epi ?t" unfolding epi_def p using i by blast
  then show ?thesis by (simp add: tame_def still_failPending)
qed (simp add: failPending_def)

lemma tame_fields: "tame st (st\<lparr>mg_seed := k\<rparr>)" "tame st (st\<lparr>mg_lastSent := v\<rparr>)"
  by (rule tame_same [OF still_same [where ts = "[]"]]; simp)+

lemma newIndex_same: "newIndex st = (r, st') \<Longrightarrow> mg_byIndex st' = mg_byIndex st \<and> mg_npend st' = mg_npend st"
  by (auto simp: newIndex_def split: list.splits)

text \<open>The last steps of \<open>initiate\<close>: the handshake is stored and its first message sent.\<close>

lemma tame_pending:
  assumes "mg_byIndex st i = None"
  shows "tame st (upd_p (st\<lparr>mg_pend := (mg_pend st)(mg_npend st := x\<lparr>p_localIndex := i\<rparr>), mg_npend := Suc (mg_npend st)\<rparr>) a (\<lambda>ps. ps\<lparr>ps_pending := pp\<rparr>)
    \<lparr>mg_byIndex := (mg_byIndex st)(i \<mapsto> EP (mg_npend st))\<rparr>)"
  unfolding tame_def
proof
  show "still st (upd_p (st\<lparr>mg_pend := (mg_pend st)(mg_npend st := x\<lparr>p_localIndex := i\<rparr>), mg_npend := Suc (mg_npend st)\<rparr>) a (\<lambda>ps. ps\<lparr>ps_pending := pp\<rparr>)
    \<lparr>mg_byIndex := (mg_byIndex st)(i \<mapsto> EP (mg_npend st))\<rparr>)"
    by (rule still_same [where ts = "[]"]) (use assms in \<open>auto simp: upd_p_def p_core_def\<close>)
qed (auto simp: epi_def upd_p_def less_Suc_eq)

lemma tame_initiate: "tame st (initiate N st i cb)"
proof -
  have fail: "tame st0 (later st0 (TCall cb None (Some err)))" for st0 :: "('a, 'b) manager" and err by (rule tame_later) (simp add: quiet_task_def)
  show ?thesis
  proof (cases "mg_closed st \<or> member_roster st i = None")
    case True
    then show ?thesis using fail by (auto simp: initiate_def)
  next
    case False
    then obtain mem where mem: "\<not> mg_closed st" "member_roster st i = Some mem" by auto
    obtain a st1 where p: "peer st i = (a, st1)" by fastforce
    have t1: "tame st st1" using tame_peer [of st i] p by simp
    show ?thesis
    proof (cases "ps_pending (mg_pst st1 a)")
      case (Some q)
      then have "initiate N st i cb = upd_pend st1 q (\<lambda>p. p\<lparr>p_waiters := p_waiters p @ [cb]\<rparr>)"
        using mem p by (simp add: initiate_def)
      then show ?thesis using tame_trans [OF t1 tame_upd_pend] by simp
    next
      case none: None
      show ?thesis
      proof (cases "fromB64uLen (rm_X25519 mem) 32")
        case None
        then show ?thesis using mem p none tame_trans [OF t1 fail] by (simp add: initiate_def)
      next
        case (Some rs)
        define st2 where "st2 = st1\<lparr>mg_seed := Suc (mg_seed st1)\<rparr>"
        have t2: "tame st st2" using tame_trans [OF t1 tame_fields(1)] by (simp add: st2_def)
        show ?thesis
        proof (cases "n_new N (mg_seed st1) True (u_Network (mg_roster st1)) (Some rs)")
          case None
          then show ?thesis using mem p none Some tame_trans [OF t2 fail] by (simp add: initiate_def Let_def st2_def)
        next
          case (Some hs)
          note hs = this \<open>fromB64uLen (rm_X25519 mem) 32 = Some rs\<close>
          obtain oi st3 where n: "newIndex st2 = (oi, st3)" by fastforce
          have t3: "tame st st3" using tame_trans [OF t2 tame_newIndex] n by (metis snd_conv)
          show ?thesis
          proof (cases oi)
            case None
            then show ?thesis using mem p none hs n t3 by (simp add: initiate_def Let_def st2_def)
          next
            case (Some li)
            define st4 where "st4 = st3\<lparr>mg_lastSent := nextStampAfter (mg_wall st3) (mg_lastSent st3)\<rparr>"
            have t4: "tame st st4" using tame_trans [OF t3 tame_fields(2)] by (simp add: st4_def)
            have fresh: "mg_byIndex st4 li = None"
              using newIndex_fresh [of st2 li st3] newIndex_same [OF n] n Some by (simp add: st4_def)
            show ?thesis
            proof (cases "n_write N hs (u64be (word_of_int (u_Version (mg_roster st4))) @ u64be (mg_lastSent st4))")
              case None
              then show ?thesis using mem p none hs n Some tame_trans [OF t4 fail] by (simp add: initiate_def Let_def st2_def st4_def)
            next
              case w: (Some r)
              obtain msg1 cs hs' where r: "r = (msg1, cs, hs')" by (cases r)
              define st5 where "st5 = upd_p (st4\<lparr>mg_pend := (mg_pend st4)(mg_npend st4 := \<lparr>p_peer = i, p_localIndex = li, p_hs = hs', p_timer = True, p_waiters = [cb]\<rparr>),
                  mg_npend := Suc (mg_npend st4)\<rparr>) a (\<lambda>ps. ps\<lparr>ps_pending := Some (mg_npend st4)\<rparr>)\<lparr>mg_byIndex := (mg_byIndex st4)(li \<mapsto> EP (mg_npend st4))\<rparr>"
              have "tame st4 st5"
                using tame_pending [OF fresh, of "\<lparr>p_peer = i, p_localIndex = li, p_hs = hs', p_timer = True, p_waiters = [cb]\<rparr>" a "Some (mg_npend st4)"] by (simp add: st5_def)
              then have t5: "tame st st5" by (rule tame_trans [OF t4])
              obtain ok st6 where f: "sendFrame st5 frameHandshakeInit i (handshakeInitBody li msg1) = (ok, st6)" by fastforce
              have t6: "tame st st6" using tame_trans [OF t5 tame_sendFrame] f by (metis snd_conv)
              have "initiate N st i cb = (if ok then st6 else failPending st6 a (closedError ''not connected to the relay''))"
                using mem p none hs n Some w r f by (simp add: initiate_def Let_def st2_def st4_def st5_def upd_p_def)
              then show ?thesis using t6 tame_trans [OF t6 tame_failPending] by simp
            qed
          qed
        qed
      qed
    qed
  qed
qed

lemma tame_maybeRekey: "tame st (maybeRekey N cf st s)"
proof -
  have "tame st (case peer st i of (a, st) \<Rightarrow> if ps_pending (mg_pst st a) = None then initiate N st i CbNone else st)" for i
    using tame_peer [of st i] tame_trans [OF tame_peer [of st i] tame_initiate] by (cases "peer st i") simp
  then show ?thesis by (simp add: maybeRekey_def Let_def)
qed

lemma tame_finishOut: "tame st (finishOut N cf st o' err)"
proof (cases "o_finished (mg_outs st o')")
  case False
  define a where "a = upd_o st o' (\<lambda>x. x\<lparr>o_finished := True, o_timer := False\<rparr>)"
  define b where "b = (case o_s (mg_outs a o') of None \<Rightarrow> a
    | Some s \<Rightarrow> maybeRekey N cf (upd_s a s (\<lambda>x. x\<lparr>s_activeSends := s_activeSends x - 1\<rparr>)) s)"
  define x where "x = mg_outs b o'"
  define c where "c = upd_o (if err = None then call b (CountSent (o_peer x) (length (o_bytes x))) else b) o' (\<lambda>x. x\<lparr>o_done := Some err\<rparr>)"
  have "tame st a" unfolding a_def by (rule tame_upd_o) simp
  moreover have "tame a b" unfolding b_def
    by (auto split: option.split intro!: tame_trans [OF tame_upd_s tame_maybeRekey] simp: s_core_def)
  moreover have "tame b c" unfolding c_def by (auto intro: tame_trans [OF tame_call tame_upd_o] tame_upd_o)
  ultimately have t: "tame st c" using tame_trans by blast
  have "tame c (case map_of (mg_peers c) (o_peer x) of None \<Rightarrow> c | Some a \<Rightarrow>
      let q = ps_queue (mg_pst c a) in if o' \<in> set q then let st = upd_p c a (\<lambda>ps. ps\<lparr>ps_queue := remove1 o' q\<rparr>) in if hd q = o' then later st (TStartHead a) else st else c)"
    by (auto split: option.split simp: Let_def p_core_def quiet_task_def intro!: tame_upd_p tame_trans [OF tame_upd_p tame_later])
  with t have "tame st (case map_of (mg_peers c) (o_peer x) of None \<Rightarrow> c | Some a \<Rightarrow>
      let q = ps_queue (mg_pst c a) in if o' \<in> set q then let st = upd_p c a (\<lambda>ps. ps\<lparr>ps_queue := remove1 o' q\<rparr>) in if hd q = o' then later st (TStartHead a) else st else c)"
    by (rule tame_trans)
  then show ?thesis using False unfolding finishOut_def Let_def a_def b_def c_def x_def by (simp only: if_False)
qed (simp add: finishOut_def)

lemma tame_enqueue: "tame st (enqueue_out st o')"
proof -
  have "tame st' (let st = upd_p st' a (\<lambda>ps. ps\<lparr>ps_queue := ps_queue ps @ [o']\<rparr>) in if length (ps_queue (mg_pst st a)) = 1 then later st (TStartHead a) else st)" for st' :: "('a, 'b) manager" and a
    by (auto simp: Let_def p_core_def quiet_task_def intro!: tame_upd_p tame_trans [OF tame_upd_p tame_later])
  then show ?thesis using tame_trans [OF tame_peer [of st "o_peer (mg_outs st o')"]] by (cases "peer st (o_peer (mg_outs st o'))") (simp add: enqueue_out_def)
qed

lemma core_rollRate [simp]: "s_core (rollRate x now) = s_core x"
  by (simp add: rollRate_def Let_def s_core_def)

lemma tame_pace: "tame st (snd (pace st s))"
  by (simp add: pace_def Let_def tame_upd_s)

lemma tame_paceDue: "tame st (st\<lparr>mg_paceDue := t\<rparr>)" "tame st (st\<lparr>mg_paceTimer := b\<rparr>)" "tame st (st\<lparr>mg_awaiting := b\<rparr>)"
  by (rule tame_same [OF still_same [where ts = "[]"]]; simp)+

section \<open>What a transmission may do\<close>

text \<open>A step is still, or ends one live session and is still again, noting that the pump must run once more.\<close>

lemma end_state_fields:
  "mg_gate (end_state st s err) = mg_gate st" "mg_nsess (end_state st s err) = mg_nsess st" "mg_held (end_state st s err) = mg_held st"
  "mg_pumping (end_state st s err) = mg_pumping st" "mg_repump (end_state st s err) = mg_repump st" "mg_closed (end_state st s err) = mg_closed st" "mg_stuck (end_state st s err) = mg_stuck st"
  "mg_outs (end_state st s err) = mg_outs st" "mg_tasks (end_state st s err) = mg_tasks st" "mg_peers (end_state st s err) = mg_peers st"
  "mg_npst (end_state st s err) = mg_npst st" "mg_npend (end_state st s err) = mg_npend st" "mg_pend (end_state st s err) = mg_pend st"
  "mg_stamps (end_state st s err) = mg_stamps st" "mg_roster (end_state st s err) = mg_roster st" "mg_mono (end_state st s err) = mg_mono st"
  "mg_sess (end_state st s err) = (mg_sess st)(s := (mg_sess st s)\<lparr>s_ended := True, s_endErr := Some err, s_partial := ([], 0), s_partialLen := 0, s_partialCredited := 0, s_creditTimer := False\<rparr>)"
  "mg_byIndex (end_state st s err) = (if mg_byIndex st (s_localIndex (mg_sess st s)) = Some (ES s) then (mg_byIndex st)(s_localIndex (mg_sess st s) := None) else mg_byIndex st)"
  "mg_pst (end_state st s err) = (case map_of (mg_peers st) (s_peer (mg_sess st s)) of None \<Rightarrow> mg_pst st
     | Some a \<Rightarrow> (mg_pst st)(a := (mg_pst st a)\<lparr>ps_sessions := remove1 s (ps_sessions (mg_pst st a)),
         ps_current := (if ps_current (mg_pst st a) = Some s then None else ps_current (mg_pst st a)), ps_buffered := ps_buffered (mg_pst st a) - s_partialLen (mg_sess st s)\<rparr>))"
  by (simp_all add: end_state_def Let_def upd_s_def upd_p_def split: option.split)

lemma transmit_cases:
  assumes "transmit N pm st s msg = (ok, err, st')"
  obtains (still) "tame st st'" "mg_nsess st' = mg_nsess st" "\<not> ok \<or> \<not> s_ended (mg_sess st s)"
    | (ended) e where "\<not> s_ended (mg_sess st s)" "st' = pm (end_state st s e)" "\<not> ok" "err = None"
proof (cases "s_ended (mg_sess st s) \<or> length (encodeSessionMessage msg) > maxPlaintext")
  case True
  then have "st' = st \<and> \<not> ok" using assms by (auto simp: transmit_def Let_def split: if_splits)
  then show ?thesis using still by simp
next
  case False
  show ?thesis
  proof (cases "n_encrypt N (s_send (mg_sess st s)) (encodeSessionMessage msg)")
    case None
    then show ?thesis using assms False ended by (auto simp: transmit_def Let_def endSession_def)
  next
    case (Some r)
    obtain ct c where r: "r = (ct, c)" by fastforce
    define u where "u = upd_s st s (\<lambda>x. x\<lparr>s_send := c, s_sent := Suc (s_sent x), s_lastActivity := mg_mono st\<rparr>)"
    have "\<exists>typ. sendFrame u typ (s_peer (mg_sess st s)) (dataBody (s_remoteIndex (mg_sess st s)) ct) = (ok, st')"
      using assms False Some r by (auto simp: transmit_def Let_def u_def split: prod.splits)
    then have "tame u st'" using tame_sendFrame by (metis snd_conv)
    moreover have "tame st u" unfolding u_def by (rule tame_upd_s) (simp add: s_core_def)
    ultimately have "tame st st'" using tame_trans by blast
    then show ?thesis using False by (intro still) (auto simp: tame_def still_def)
  qed
qed

text \<open>
  A fragment sent from the gate, with the nested pump: a tame step, or one and the end of the session
  and the note to pump again; then a tame step, and perhaps the task that goes on with the message.
\<close>

lemma runFragment_steps:
  assumes "st' = runFragment N cf nested_pump st o' s"
  obtains a b c where "tame st a" "b = a \<or> (\<exists>e. \<not> s_ended (mg_sess a s) \<and> b = nested_pump (end_state a s e))" "tame b c"
    "st' = c \<or> st' = later c (TMore o') \<or> st' = later c (TFinish o')"
proof -
  obtain pc a where p: "pace st s = (pc, a)" by fastforce
  have pa: "tame st a" using tame_pace [of st s] p by simp
  define x where "x = mg_outs a o'"
  define n where "n = min (min (int (length (o_bytes x)) - int (o_off x)) (pacedFragment (mg_rateBps st)))
      (min (max (s_sendCredit (mg_sess a s)) 0) (max (min paceMinFragment (pacedFragment (mg_rateBps st))) (pc - s_inflight (mg_sess a s))))"
  obtain ok err b where t: "transmit N nested_pump a s (sm_message (int (o_off x) + n < int (length (o_bytes x))) (take (nat n) (drop (o_off x) (o_bytes x)))) = (ok, err, b)"
    by (metis prod_cases3)
  define e where "e = (if err = None \<and> \<not> ok then (case s_endErr (mg_sess b s) of Some e \<Rightarrow> Some e | None \<Rightarrow> Some (closedError ''not connected to the relay'')) else err)"
  define d where "d = (if mg_rateBps b > 0 then b\<lparr>mg_paceDue := max (mg_paceDue b) (mg_mono b) + go_quot ((n + fragmentFrameOverhead) * Second) (max (go_quot (mg_rateBps b * 7) 8) 1)\<rparr> else b)"
  define f where "f = upd_s (upd_o d o' (\<lambda>x. x\<lparr>o_started := True, o_off := o_off x + nat n\<rparr>)) s (\<lambda>x. x\<lparr>s_sendCredit := s_sendCredit x - n, s_inflight := s_inflight x + n\<rparr>)"
  have st': "st' = (if e \<noteq> None then finishOut N cf b o' e
      else if o_off (mg_outs f o') < length (o_bytes x) then later f (TMore o') else later f (TFinish o'))"
    unfolding assms runFragment_def p prod.case x_def [symmetric] Let_def n_def [symmetric] t e_def [symmetric] d_def [symmetric] f_def [symmetric] by simp
  have "tame b d" by (simp add: d_def tame_paceDue)
  moreover have "tame d f" unfolding f_def by (rule tame_trans [OF tame_upd_o tame_upd_s]) (simp_all add: s_core_def)
  ultimately have bf: "tame b f" by (rule tame_trans)
  have "\<exists>c. tame b c \<and> (st' = c \<or> st' = later c (TMore o') \<or> st' = later c (TFinish o'))"
    unfolding st' using bf tame_finishOut [of b N cf o' e] by auto
  then obtain c where c: "tame b c" "st' = c \<or> st' = later c (TMore o') \<or> st' = later c (TFinish o')" by blast
  show ?thesis using t
  proof (cases rule: transmit_cases)
    case still
    show ?thesis by (rule that [OF tame_trans [OF pa still(1)] _ c]) simp
  next
    case (ended e)
    show ?thesis by (rule that [OF pa _ c]) (use ended in blast)
  qed
qed

lemma tame_core:
  assumes "tame a b"
  shows "s_ended (mg_sess b x) = s_ended (mg_sess a x)" "mg_gate b = mg_gate a" "mg_nsess b = mg_nsess a" "mg_repump b = mg_repump a"
    "o_s (mg_outs b o') = o_s (mg_outs a o')"
  using assms by (auto simp: tame_def still_def s_core_def)

lemma runFragment_gate: "mg_gate (runFragment N cf nested_pump st o' s) = mg_gate st"
proof (rule runFragment_steps [of _ N cf st o' s, OF refl])
  fix a b c
  let ?r = "runFragment N cf nested_pump st o' s"
  assume t: "tame st a" "tame b c" and "b = a \<or> (\<exists>e. \<not> s_ended (mg_sess a s) \<and> b = nested_pump (end_state a s e))"
    and "?r = c \<or> ?r = later c (TMore o') \<or> ?r = later c (TFinish o')"
  then show ?thesis using tame_core(2) [OF t(1)] tame_core(2) [OF t(2)] by (auto simp: nested_pump_def end_state_fields later_def)
qed

section \<open>The pump\<close>

text \<open>
  \<open>pumpOnce\<close> from place \<open>i\<close> of the gate. A message in the gate has a session; where it had none the
  code would dereference nil.
\<close>

function pump_once :: "('c, 'h) noise \<Rightarrow> config \<Rightarrow> nat \<Rightarrow> ('c, 'h) manager \<Rightarrow> ('c, 'h) manager" where
  "pump_once N cf i st =
     (if i < length (mg_gate st)
      then let o' = mg_gate st ! i; x = mg_outs st o'; cut = st\<lparr>mg_gate := drop_at i (mg_gate st)\<rparr>
           in if o_finished x then pump_once N cf i cut
              else case o_s x of
                None \<Rightarrow> st\<lparr>mg_stuck := True\<rparr>
              | Some s \<Rightarrow>
                  if s_ended (mg_sess st s) \<or> mg_closed st
                  then pump_once N cf i (finishOut N cf cut o' (Some (case s_endErr (mg_sess st s) of Some e \<Rightarrow> e | None \<Rightarrow> closedError [])))
                  else if o_bytes x \<noteq> [] \<and> s_sendCredit (mg_sess st s) \<le> 0 then pump_once N cf (Suc i) st
                  else (case pace st s of (pc, st) \<Rightarrow>
                    if s_inflight (mg_sess st s) \<ge> pc then pump_once N cf (Suc i) st
                    else if \<not> mg_writable st (mg_asked st) then st\<lparr>mg_awaiting := True\<rparr>
                    else if mg_rateBps st > 0 \<and> mg_paceDue st - mg_mono st > 0 then st\<lparr>mg_paceTimer := True\<rparr>
                    else pump_once N cf i (runFragment N cf nested_pump (st\<lparr>mg_gate := drop_at i (mg_gate st)\<rparr>) o' s))
      else st)"
  by pat_completeness auto

lemma length_drop_at: "i < length xs \<Longrightarrow> length (drop_at i xs) = length xs - 1"
  by (simp add: drop_at_def)

lemma pace_fields: "pace st s = (pc, st') \<Longrightarrow> mg_gate st' = mg_gate st \<and> mg_nsess st' = mg_nsess st \<and> mg_repump st' = mg_repump st \<and> (\<forall>x. s_ended (mg_sess st' x) = s_ended (mg_sess st x))"
  using tame_pace [of st s] by (auto simp: tame_def still_def s_core_def)

lemma pace_gate: "(pc, st') = pace st s \<Longrightarrow> mg_gate st' = mg_gate st"
  by (metis pace_fields)

lemma finishOut_fields:
  "mg_gate (finishOut N cf st o' e) = mg_gate st" "mg_nsess (finishOut N cf st o' e) = mg_nsess st" "mg_repump (finishOut N cf st o' e) = mg_repump st"
  "s_ended (mg_sess (finishOut N cf st o' e) x) = s_ended (mg_sess st x)"
  using tame_finishOut [of st N cf o' e] by (auto simp: tame_def still_def s_core_def)

termination pump_once
  by (relation "measure (\<lambda>(N, cf, i, st). 2 * length (mg_gate st) - i)")
     (auto simp: length_drop_at finishOut_fields runFragment_gate dest!: pace_gate)

declare pump_once.simps [simp del]

text \<open>The live sessions, which only ending one makes fewer.\<close>

definition live :: "('c, 'h) manager \<Rightarrow> addr set" where
  "live st = {s. s < mg_nsess st \<and> \<not> s_ended (mg_sess st s)}"

lemma finite_live [simp]: "finite (live st)"
  by (simp add: live_def)

lemma live_same: "mg_nsess st' = mg_nsess st \<Longrightarrow> (\<And>x. s_ended (mg_sess st' x) = s_ended (mg_sess st x)) \<Longrightarrow> live st' = live st"
  by (simp add: live_def)

text \<open>
  Each message in the gate has a session that exists. \<open>pumpOnce\<close> keeps that, makes no session, and
  asks for another round only when it ended one.
\<close>

definition gate_ok :: "('c, 'h) manager \<Rightarrow> bool" where
  "gate_ok st \<longleftrightarrow> (\<forall>o'\<in>set (mg_gate st). \<exists>s<mg_nsess st. o_s (mg_outs st o') = Some s)"

lemma set_drop_at: "set (drop_at i xs) \<subseteq> set xs"
  by (auto simp: drop_at_def dest: in_set_takeD in_set_dropD)

text \<open>What holds after every step of \<open>pumpOnce\<close> holds after it.\<close>

lemma pump_once_rule:
  assumes cut: "\<And>st i. P st \<Longrightarrow> i < length (mg_gate st) \<Longrightarrow> P (st\<lparr>mg_gate := drop_at i (mg_gate st)\<rparr>)"
    and fin: "\<And>st o' e. P st \<Longrightarrow> P (finishOut N cf st o' e)"
    and pac: "\<And>st s. P st \<Longrightarrow> P (snd (pace st s))"
    and run: "\<And>st i s. P st \<Longrightarrow> i < length (mg_gate st) \<Longrightarrow> o_s (mg_outs st (mg_gate st ! i)) = Some s \<Longrightarrow> \<not> s_ended (mg_sess st s) \<Longrightarrow>
        P (runFragment N cf nested_pump (st\<lparr>mg_gate := drop_at i (mg_gate st)\<rparr>) (mg_gate st ! i) s)"
    and flags: "\<And>st. P st \<Longrightarrow> P (st\<lparr>mg_awaiting := True\<rparr>)" "\<And>st. P st \<Longrightarrow> P (st\<lparr>mg_paceTimer := True\<rparr>)"
      "\<And>st i. P st \<Longrightarrow> i < length (mg_gate st) \<Longrightarrow> o_s (mg_outs st (mg_gate st ! i)) = None \<Longrightarrow> P (st\<lparr>mg_stuck := True\<rparr>)"
  shows "P st \<Longrightarrow> P (pump_once N cf i st)"
proof -
  have "N' = N \<Longrightarrow> cf' = cf \<Longrightarrow> P st \<Longrightarrow> P (pump_once N' cf' i st)" for N' cf' i st
  proof (induction N' cf' i st rule: pump_once.induct)
    case (1 N' cf' i st)
    note IH = 1(1-5) and eq = 1(6,7) and P = 1(8)
    let ?o = "mg_gate st ! i"
    let ?x = "mg_outs st ?o" and ?cut = "st\<lparr>mg_gate := drop_at i (mg_gate st)\<rparr>"
    show ?case
    proof (cases "i < length (mg_gate st)")
      case False
      then show ?thesis using P by (simp add: pump_once.simps [of N' cf' i st])
    next
      case i: True
      have cut': "P ?cut" using cut P i by blast
      show ?thesis
      proof (cases "o_finished ?x")
        case True
        then show ?thesis using IH(1) [OF i refl refl refl True eq cut'] i by (simp add: pump_once.simps [of N' cf' i st] Let_def)
      next
        case nf: False
        show ?thesis
        proof (cases "o_s ?x")
          case None
          then show ?thesis using flags(3) [OF P i None] i nf by (simp add: pump_once.simps [of N' cf' i st] Let_def)
        next
          case (Some s)
          show ?thesis
          proof (cases "s_ended (mg_sess st s) \<or> mg_closed st")
            case True
            then have "pump_once N' cf' i st = pump_once N' cf' i (finishOut N' cf' ?cut ?o (Some (case s_endErr (mg_sess st s) of Some e \<Rightarrow> e | None \<Rightarrow> closedError [])))"
              using i nf Some by (subst pump_once.simps) (simp add: Let_def)
            then show ?thesis using IH(2) [OF i refl refl refl nf Some True eq] fin [OF cut'] eq by simp
          next
            case ne: False
            show ?thesis
            proof (cases "outMsg.o_bytes ?x \<noteq> [] \<and> s_sendCredit (mg_sess st s) \<le> 0")
              case True
              then show ?thesis
                using IH(3) [OF i refl refl refl nf Some ne True eq P] i nf Some ne by (simp add: pump_once.simps [of N' cf' i st] Let_def)
            next
              case cr: False
              obtain pc a where pc: "pace st s = (pc, a)" by fastforce
              have Pa: "P a" using pac [OF P, of s] pc by simp
              have g: "mg_gate a = mg_gate st" using pace_gate pc by metis
              have same: "o_s (mg_outs a ?o) = Some s" "\<not> s_ended (mg_sess a s)"
                using tame_pace [of st s] pc Some ne by (auto simp: tame_def still_def s_core_def)
              have st': "pump_once N' cf' i st = (if s_inflight (mg_sess a s) \<ge> pc then pump_once N' cf' (Suc i) a
                  else if \<not> mg_writable a (mg_asked a) then a\<lparr>mg_awaiting := True\<rparr>
                  else if mg_rateBps a > 0 \<and> mg_paceDue a - mg_mono a > 0 then a\<lparr>mg_paceTimer := True\<rparr>
                  else pump_once N' cf' i (runFragment N' cf' nested_pump (a\<lparr>mg_gate := drop_at i (mg_gate a)\<rparr>) ?o s))"
                by (subst pump_once.simps) (simp only: Let_def i nf Some ne cr pc if_True if_False option.case prod.case simp_thms)
              show ?thesis
                unfolding st' using IH(4) [OF i refl refl refl nf Some ne cr pc [symmetric] _ eq Pa] IH(5) [OF i refl refl refl nf Some ne cr pc [symmetric] _ _ _ eq]
                  run [of a i s] Pa g i same flags(1,2) [OF Pa] eq by auto
            qed
          qed
        qed
      qed
    qed
  qed
  then show "P st \<Longrightarrow> P (pump_once N cf i st)" by blast
qed

lemma gate_ok_tame: "tame st st' \<Longrightarrow> gate_ok st \<Longrightarrow> gate_ok st'"
  by (auto simp: gate_ok_def tame_def still_def)

lemma gate_ok_cut: "gate_ok st \<Longrightarrow> gate_ok (st\<lparr>mg_gate := drop_at i (mg_gate st)\<rparr>)"
  using set_drop_at by (fastforce simp: gate_ok_def)

text \<open>
  A round of the pump asks for another only after it took a message out of the gate, so the rounds
  come to an end.
\<close>

lemma pump_once_shrinks:
  "length (mg_gate (pump_once N cf i st)) \<le> length (mg_gate st) \<and>
     (mg_repump (pump_once N cf i st) \<longrightarrow> mg_repump st \<or> length (mg_gate (pump_once N cf i st)) < length (mg_gate st))"
proof (rule pump_once_rule [where P = "\<lambda>st'. length (mg_gate st') \<le> length (mg_gate st) \<and> (mg_repump st' \<longrightarrow> mg_repump st \<or> length (mg_gate st') < length (mg_gate st))"])
  fix st' :: "('a, 'b) manager" and s
  assume "length (mg_gate st') \<le> length (mg_gate st) \<and> (mg_repump st' \<longrightarrow> mg_repump st \<or> length (mg_gate st') < length (mg_gate st))"
  then show "length (mg_gate (snd (pace st' s))) \<le> length (mg_gate st) \<and> (mg_repump (snd (pace st' s)) \<longrightarrow> mg_repump st \<or> length (mg_gate (snd (pace st' s))) < length (mg_gate st))"
    using tame_pace [of st' s] by (simp add: tame_def still_def)
qed (auto simp: length_drop_at finishOut_fields runFragment_gate)

function pump_loop :: "('c, 'h) noise \<Rightarrow> config \<Rightarrow> ('c, 'h) manager \<Rightarrow> ('c, 'h) manager" where
  "pump_loop N cf st =
     (let st = pump_once N cf 0 (st\<lparr>mg_repump := False\<rparr>) in if \<not> mg_repump st then st else pump_loop N cf st)"
  by pat_completeness auto

termination pump_loop
proof (relation "measure (\<lambda>(N, cf, st). length (mg_gate st))", goal_cases)
  case (2 N cf st x)
  then show ?case using pump_once_shrinks [of N cf 0 "st\<lparr>mg_repump := False\<rparr>"] by simp
qed simp

declare pump_loop.simps [simp del]

definition pump :: "('c, 'h) noise \<Rightarrow> config \<Rightarrow> ('c, 'h) manager \<Rightarrow> ('c, 'h) manager" where
  "pump N cf st =
     (if mg_pumping st then nested_pump st
      else (pump_loop N cf (st\<lparr>mg_pumping := True\<rparr>))\<lparr>mg_pumping := False\<rparr>)"

text \<open>What every round keeps, the pump keeps.\<close>

lemma pump_loop_rule:
  assumes "\<And>st. P st \<Longrightarrow> P (st\<lparr>mg_repump := False\<rparr>)" "\<And>st. P st \<Longrightarrow> P (pump_once N cf 0 st)"
  shows "P st \<Longrightarrow> P (pump_loop N cf st)"
proof (induction "length (mg_gate st)" arbitrary: st rule: less_induct)
  case less
  let ?r = "pump_once N cf 0 (st\<lparr>mg_repump := False\<rparr>)"
  have P: "P ?r" using assms less.prems by blast
  show ?case
  proof (cases "mg_repump ?r")
    case True
    then have "length (mg_gate ?r) < length (mg_gate st)" using pump_once_shrinks [of N cf 0 "st\<lparr>mg_repump := False\<rparr>"] by simp
    then show ?thesis using less.hyps P True by (simp add: pump_loop.simps [of N cf st] Let_def)
  next
    case False
    then show ?thesis using P by (simp add: pump_loop.simps [of N cf st] Let_def)
  qed
qed

lemma pump_loop_quiet: "\<not> mg_repump (pump_loop N cf st)"
proof (induction "length (mg_gate st)" arbitrary: st rule: less_induct)
  case less
  let ?r = "pump_once N cf 0 (st\<lparr>mg_repump := False\<rparr>)"
  show ?case
  proof (cases "mg_repump ?r")
    case True
    then have "length (mg_gate ?r) < length (mg_gate st)" using pump_once_shrinks [of N cf 0 "st\<lparr>mg_repump := False\<rparr>"] by simp
    then show ?thesis using less.hyps True by (simp add: pump_loop.simps [of N cf st] Let_def)
  next
    case False
    then show ?thesis by (simp add: pump_loop.simps [of N cf st] Let_def)
  qed
qed

end
