(* ===== verification/Session_Ops.thy ===== *)
theory Session_Ops
  imports Sessions
begin

text \<open>
  The entry points of the session manager (\<open>client-go/sessions.go\<close>): tasks, timers, frames from the
  relay, roster changes and the sweep, over the operations of \<open>Sessions\<close>; \<open>admit\<close> and the release of
  a message the application took are the member's (\<open>client-go/member.go\<close>). \<open>fmt.Sprintf\<close> with \<open>%s\<close> is
  concatenation. Where the code ranges over a copy of a slice, the model folds over the list; where it
  ranges over the map of peers, over \<open>mg_peers\<close> as it is when the loop starts, whose order is any
  (\<open>Session_Properties\<close> lets it change between steps).
\<close>

section \<open>Finding a session\<close>

definition expired :: "config \<Rightarrow> ('c, 'h) manager \<Rightarrow> addr \<Rightarrow> bool" where
  "expired cf st s =
     (\<not> s_initiator (mg_sess st s) \<and> mg_mono st - s_createdAt (mg_sess st s) > t_RekeyInterval (cf_timing cf) + t_RetireGrace (cf_timing cf))"

definition crossing :: "('c, 'h) manager \<Rightarrow> addr \<Rightarrow> bool" where
  "crossing st s = (s_partialLen (mg_sess st s) > 0 \<or> s_activeSends (mg_sess st s) > 0)"

definition ensureSession :: "('c, 'h) noise \<Rightarrow> config \<Rightarrow> ('c, 'h) manager \<Rightarrow> string \<Rightarrow> callback \<Rightarrow> ('c, 'h) manager" where
  "ensureSession N cf st i cb =
     (case (case map_of (mg_peers st) i of None \<Rightarrow> None | Some a \<Rightarrow> ps_current (mg_pst st a)) of
        None \<Rightarrow> initiate N st i cb
      | Some c \<Rightarrow>
          if expired cf st c
          then initiate N (if crossing st c then upd_s st c (\<lambda>x. x\<lparr>s_retired := True\<rparr>)
                           else endSession (pump N cf) st c (closedError (''session with '' @ i @ '' expired''))) i cb
          else if \<not> s_ended (mg_sess st c) then later (maybeRekey N cf st c) (TCall cb (Some c) None)
          else initiate N st i cb)"

definition startHead :: "('c, 'h) noise \<Rightarrow> config \<Rightarrow> ('c, 'h) manager \<Rightarrow> addr \<Rightarrow> ('c, 'h) manager" where
  "startHead N cf st a =
     (let st = upd_p st a (\<lambda>ps. ps\<lparr>ps_queue := dropWhile (\<lambda>o'. o_finished (mg_outs st o')) (ps_queue ps)\<rparr>)
      in case ps_queue (mg_pst st a) of
           [] \<Rightarrow> st
         | o' # _ \<Rightarrow>
             if o_running (mg_outs st o') then st
             else ensureSession N cf (upd_o st o' (\<lambda>x. x\<lparr>o_running := True\<rparr>)) (o_peer (mg_outs st o')) (CbHead o'))"

definition sendControl :: "('c, 'h) noise \<Rightarrow> config \<Rightarrow> ('c, 'h) manager \<Rightarrow> string \<Rightarrow> sessionMessage \<Rightarrow> nat \<Rightarrow> ('c, 'h) manager" where
  "sendControl N cf st i msg k =
     (if mg_closed st then later st (TTell k (Some (closedError []))) else ensureSession N cf st i (CbControl msg k))"

text \<open>A message joins the gate, and the gate is pumped.\<close>

definition to_gate :: "('c, 'h) noise \<Rightarrow> config \<Rightarrow> ('c, 'h) manager \<Rightarrow> addr \<Rightarrow> ('c, 'h) manager" where
  "to_gate N cf st o' = pump N cf (st\<lparr>mg_gate := mg_gate st @ [o']\<rparr>)"

text \<open>The closures of \<open>startHead\<close>, \<open>sendControl\<close> and \<open>maybeRekey\<close>, given a session or an error.\<close>

fun run_callback :: "('c, 'h) noise \<Rightarrow> config \<Rightarrow> ('c, 'h) manager \<Rightarrow> callback \<Rightarrow> addr option \<Rightarrow> Error option \<Rightarrow> ('c, 'h) manager" where
  "run_callback N cf st (CbHead o') os oe =
     (if o_finished (mg_outs st o') then st
      else case oe of
        Some e \<Rightarrow> finishOut N cf st o' (Some e)
      | None \<Rightarrow>
          (case os of
             None \<Rightarrow> st\<lparr>mg_stuck := True\<rparr>
           | Some s \<Rightarrow> to_gate N cf (upd_s (upd_o st o' (\<lambda>x. x\<lparr>o_s := Some s\<rparr>)) s (\<lambda>x. x\<lparr>s_activeSends := s_activeSends x + 1\<rparr>)) o'))"
| "run_callback N cf st (CbControl msg k) os oe =
     (case oe of
        Some e \<Rightarrow> call st (Told k (Some e))
      | None \<Rightarrow>
          (case os of
             None \<Rightarrow> st\<lparr>mg_stuck := True\<rparr>
           | Some s \<Rightarrow> (case transmit N (pump N cf) st s msg of (ok, e, st) \<Rightarrow> call st (Told k e))))"
| "run_callback N cf st CbNone os oe = st"

fun run_task :: "('c, 'h) noise \<Rightarrow> config \<Rightarrow> ('c, 'h) manager \<Rightarrow> task \<Rightarrow> ('c, 'h) manager" where
  "run_task N cf st (TStartHead a) = startHead N cf st a"
| "run_task N cf st (TCall cb os oe) = run_callback N cf st cb os oe"
| "run_task N cf st (TMore o') = (if \<not> o_finished (mg_outs st o') then to_gate N cf st o' else st)"
| "run_task N cf st (TFinish o') = finishOut N cf st o' None"
| "run_task N cf st (TTell k e) = call st (Told k e)"

text \<open>The first task of the list (\<open>Member.unlock\<close> runs them in order).\<close>

definition next_task :: "('c, 'h) noise \<Rightarrow> config \<Rightarrow> ('c, 'h) manager \<Rightarrow> ('c, 'h) manager" where
  "next_task N cf st = (case mg_tasks st of [] \<Rightarrow> st | t # ts \<Rightarrow> run_task N cf (st\<lparr>mg_tasks := ts\<rparr>) t)"

section \<open>Credit\<close>

text \<open>The loop of \<open>flushCredit\<close>.\<close>

function send_credit :: "('c, 'h) noise \<Rightarrow> config \<Rightarrow> nat \<Rightarrow> ('c, 'h) manager \<Rightarrow> addr \<Rightarrow> ('c, 'h) manager" where
  "send_credit N cf owed st s =
     (if owed > 0
      then let n = min owed 0xffffffff;
               st = upd_s st s (\<lambda>x. x\<lparr>s_owed := s_owed x - int n, s_allowance := s_allowance x + int n\<rparr>);
               st = st\<lparr>mg_creditsSent := Suc (mg_creditsSent st)\<rparr>
           in case transmit N (pump N cf) st s (sm_credit (word_of_nat n)) of (ok, e, st) \<Rightarrow>
                if \<not> ok then st else send_credit N cf (owed - n) st s
      else st)"
  by pat_completeness auto

termination send_credit
  by (relation "measure (\<lambda>(N, cf, owed, st, s). owed)") auto

declare send_credit.simps [simp del]

definition flushCredit :: "('c, 'h) noise \<Rightarrow> config \<Rightarrow> ('c, 'h) manager \<Rightarrow> addr \<Rightarrow> bool \<Rightarrow> ('c, 'h) manager" where
  "flushCredit N cf st s now =
     (let x = mg_sess st s
      in if s_ended x \<or> s_owed x \<le> 0 then st
         else if \<not> now \<and> s_owed x < CreditBatchBytes then upd_s st s (\<lambda>x. x\<lparr>s_creditTimer := True\<rparr>)
         else send_credit N cf (nat (s_owed x)) (upd_s st s (\<lambda>x. x\<lparr>s_creditTimer := False\<rparr>)) s)"

definition credit_due :: "('c, 'h) noise \<Rightarrow> config \<Rightarrow> ('c, 'h) manager \<Rightarrow> addr \<Rightarrow> ('c, 'h) manager" where
  "credit_due N cf st s = flushCredit N cf (upd_s st s (\<lambda>x. x\<lparr>s_creditTimer := False\<rparr>)) s True"

section \<open>Sessions made\<close>

definition newSession :: "('c, 'h) manager \<Rightarrow> string \<Rightarrow> u32 \<Rightarrow> u32 \<Rightarrow> bool \<Rightarrow> 'c \<Rightarrow> 'c \<Rightarrow> addr \<times> ('c, 'h) manager" where
  "newSession st i loc rem initiator tx rx =
     (let now = mg_mono st;
          x = \<lparr>s_peer = i, s_localIndex = loc, s_remoteIndex = rem, s_initiator = initiator, s_send = tx, s_recv = rx,
               s_createdAt = now, s_lastActivity = now, s_sent = 0, s_received = 0, s_ended = False, s_endErr = None, s_retired = False,
               s_activeSends = 0, s_sendCredit = InitialCredit, s_inflight = 0, s_rateAt = now, s_rateCur = 0, s_ratePrev = 0,
               s_creditTimer = False, s_partial = ([], 0), s_partialLen = 0, s_partialCredited = 0, s_held = 0, s_owed = 0,
               s_allowance = InitialCredit\<rparr>
      in (mg_nsess st, st\<lparr>mg_sess := (mg_sess st)(mg_nsess st := x), mg_nsess := Suc (mg_nsess st)\<rparr>))"

text \<open>
  The last loop of \<open>adopt\<close>, with as much fuel as there are sessions: it ends one each time round, so
  it never runs out (\<open>Session_Properties\<close>).
\<close>

fun trim_sessions :: "('c, 'h) noise \<Rightarrow> config \<Rightarrow> nat \<Rightarrow> ('c, 'h) manager \<Rightarrow> addr \<Rightarrow> string \<Rightarrow> ('c, 'h) manager" where
  "trim_sessions N cf fuel st a i =
     (if length (ps_sessions (mg_pst st a)) > maxSessionsPerPeer
      then case fuel of
             0 \<Rightarrow> st\<lparr>mg_stuck := True\<rparr>
           | Suc fuel' \<Rightarrow>
               let ss = ps_sessions (mg_pst st a); oldest = (if ps_current (mg_pst st a) = Some (ss ! 0) then ss ! 1 else ss ! 0)
               in trim_sessions N cf fuel' (endSession (pump N cf) st oldest (closedError (''too many sessions with '' @ i))) a i
      else st)"

declare trim_sessions.simps [simp del]

definition adopt :: "('c, 'h) noise \<Rightarrow> config \<Rightarrow> ('c, 'h) manager \<Rightarrow> addr \<Rightarrow> ('c, 'h) manager" where
  "adopt N cf st s =
     (let i = s_peer (mg_sess st s) in
      case peer st i of (a, st) \<Rightarrow>
        let st = st\<lparr>mg_byIndex := (mg_byIndex st)(s_localIndex (mg_sess st s) \<mapsto> ES s)\<rparr>;
            st = upd_p st a (\<lambda>ps. ps\<lparr>ps_sessions := ps_sessions ps @ [s]\<rparr>);
            extra = cf_window cf - InitialCredit;
            st = (if extra > 0 then flushCredit N cf (upd_s st s (\<lambda>x. x\<lparr>s_owed := s_owed x + extra\<rparr>)) s False else st);
            prev = ps_current (mg_pst st a);
            st = upd_p st a (\<lambda>ps. ps\<lparr>ps_current := Some s\<rparr>);
            st = (case prev of
                    None \<Rightarrow> st
                  | Some q \<Rightarrow> if q \<noteq> s then upd_s st q (\<lambda>x. x\<lparr>s_retired := True, s_lastActivity := max (s_lastActivity x) (mg_mono st)\<rparr>) else st)
        in trim_sessions N cf (length (ps_sessions (mg_pst st a))) st a i)"

section \<open>Fragments\<close>

definition growAppend :: "slice \<Rightarrow> bytes \<Rightarrow> slice" where
  "growAppend buf b =
     (let need = length (fst buf) + length b
      in (fst buf @ b,
          if need > snd buf then min (max (max (snd buf * 2) need) 4096) (max need (nat MaxMessage)) else snd buf))"

definition onFragment :: "('c, 'h) noise \<Rightarrow> config \<Rightarrow> ('c, 'h) manager \<Rightarrow> addr \<Rightarrow> bool \<Rightarrow> bytes \<Rightarrow> ('c, 'h) manager" where
  "onFragment N cf st s mr b =
     (let n = int (length b); i = s_peer (mg_sess st s); refuse = (\<lambda>st msg. endSession (pump N cf) st s (closedError (i @ msg)))
      in case peer st i of (a, st) \<Rightarrow>
         let x = mg_sess st s; ps = mg_pst st a
         in if mr \<and> n = 0 then refuse st '' sent an empty fragment saying more follow''
            else if n > s_allowance x then refuse st '' sent message bytes beyond the credit granted''
            else if s_partialLen x + n > MaxMessage then refuse st '' sent a message over 64 MiB''
            else if ps_buffered ps + n > peerBufferLimit (cf_window cf) then refuse st '' left more buffered than this member keeps for a peer''
            else if \<not> mr \<and> ps_heldCount ps \<ge> maxHeldMessagesPerPeer then refuse st '' sent more messages than this member holds untaken''
            else
              let st = upd_s st s (\<lambda>x. x\<lparr>s_allowance := s_allowance x - n, s_partial := (if n > 0 then growAppend (s_partial x) b else s_partial x),
                         s_partialLen := s_partialLen x + n\<rparr>);
                  st = upd_p st a (\<lambda>ps. ps\<lparr>ps_buffered := ps_buffered ps + n\<rparr>)
              in if mr
                 then if s_held (mg_sess st s) = 0
                      then flushCredit N cf (upd_s st s (\<lambda>x. x\<lparr>s_owed := s_owed x + n, s_partialCredited := s_partialCredited x + n\<rparr>)) s False
                      else st
                 else
                   let x = mg_sess st s; whole = take (nat (s_partialLen x)) (fst (s_partial x));
                       st = st\<lparr>mg_messagesReceived := Suc (mg_messagesReceived st)\<rparr>;
                       uncredited = s_partialLen x - s_partialCredited x;
                       st = upd_s st s (\<lambda>x. x\<lparr>s_partial := ([], 0), s_partialLen := 0, s_partialCredited := 0, s_held := s_held x + 1\<rparr>);
                       st = upd_p st a (\<lambda>ps. ps\<lparr>ps_heldCount := ps_heldCount ps + 1\<rparr>)
                   in st\<lparr>mg_held := mg_held st @ [\<lparr>h_from = i, h_bytes = whole, h_s = s, h_ps = a, h_size = int (length whole), h_uncredited = uncredited\<rparr>]\<rparr>)"

text \<open>
  The application takes a message, the one at place \<open>k\<close> of those it was given: what \<open>release\<close> does,
  once, since the message leaves the list.
\<close>

definition release_msg :: "('c, 'h) noise \<Rightarrow> config \<Rightarrow> ('c, 'h) manager \<Rightarrow> nat \<Rightarrow> ('c, 'h) manager" where
  "release_msg N cf st k =
     (if k < length (mg_held st)
      then let h = mg_held st ! k; s = h_s h;
               st = st\<lparr>mg_held := drop_at k (mg_held st)\<rparr>;
               st = upd_s st s (\<lambda>x. x\<lparr>s_held := s_held x - 1\<rparr>);
               st = upd_p st (h_ps h) (\<lambda>ps. ps\<lparr>ps_heldCount := ps_heldCount ps - 1, ps_buffered := ps_buffered ps - h_size h\<rparr>);
               st = upd_s st s (\<lambda>x. x\<lparr>s_owed := s_owed x + h_uncredited h\<rparr>);
               st = (if s_held (mg_sess st s) = 0 \<and> s_partialLen (mg_sess st s) > s_partialCredited (mg_sess st s)
                     then upd_s st s (\<lambda>x. x\<lparr>s_owed := s_owed x + (s_partialLen x - s_partialCredited x), s_partialCredited := s_partialLen x\<rparr>) else st)
           in flushCredit N cf st s False
      else st)"

section \<open>Frames from the relay\<close>

definition onData :: "('c, 'h) noise \<Rightarrow> config \<Rightarrow> ('c, 'h) manager \<Rightarrow> string \<Rightarrow> bytes \<Rightarrow> ('c, 'h) manager" where
  "onData N cf st from body =
     (let fin = (\<lambda>st s msg. endSession (pump N cf) st s (closedError (''session with '' @ from @ msg)))
      in case parseData body of
           None \<Rightarrow> st
         | Some (idx, ct) \<Rightarrow>
             let os = (case mg_byIndex st idx of Some (ES s) \<Rightarrow> Some s | _ \<Rightarrow> None)
             in case (case os of None \<Rightarrow> None
                      | Some s \<Rightarrow> if s_peer (mg_sess st s) \<noteq> from \<or> s_ended (mg_sess st s) \<or> (expired cf st s \<and> \<not> crossing st s) then None else Some s) of
                  None \<Rightarrow>
                    (let st = (case os of None \<Rightarrow> st | Some s \<Rightarrow> if s_peer (mg_sess st s) = from then fin st s '' expired'' else st)
                     in case allowReset (cf_walk cf) (mg_limits st) from (member_roster st from \<noteq> None) idx (mg_mono st) of
                          (ok, l) \<Rightarrow> let st = st\<lparr>mg_limits := l\<rparr> in if ok then snd (sendFrame st frameReset from (u32be idx)) else st)
                | Some s \<Rightarrow>
                    if length ct > maxNoiseMessage then fin st s '' carried a frame over 65535 bytes''
                    else case n_decrypt N (s_recv (mg_sess st s)) ct of
                      None \<Rightarrow> fin st s '' lost a frame''
                    | Some (plaintext, c) \<Rightarrow>
                        let st = upd_s st s (\<lambda>x. x\<lparr>s_recv := c, s_received := Suc (s_received x), s_lastActivity := mg_mono st\<rparr>)
                        in case decodeSessionMessage plaintext of
                             None \<Rightarrow> fin st s '' carried a malformed message''
                           | Some msg \<Rightarrow>
                               if mtyp msg = sessMessage then maybeRekey N cf (onFragment N cf st s (mmore msg) (mbytes msg)) s
                               else if mtyp msg = sessCredit
                               then let c = int (unat (credit msg)); took = min (s_inflight (mg_sess st s)) c;
                                        st = upd_s st s (\<lambda>x. x\<lparr>s_sendCredit := min (s_sendCredit x + c) (2 ^ 53), s_inflight := s_inflight x - took\<rparr>);
                                        st = upd_s st s (\<lambda>x. rollRate x (mg_mono st));
                                        st = upd_s st s (\<lambda>x. x\<lparr>s_rateCur := s_rateCur x + took\<rparr>)
                                    in maybeRekey N cf (pump N cf st) s
                               else call st (SessionControl from msg s))"

text \<open>
  The member has acted on the manager's oldest call; where the call was a session message, the code
  after it runs now.
\<close>

definition resume :: "('c, 'h) noise \<Rightarrow> config \<Rightarrow> ('c, 'h) manager \<Rightarrow> ('c, 'h) manager" where
  "resume N cf st =
     (case mg_calls st of
        [] \<Rightarrow> st
      | c # cs \<Rightarrow> let st = st\<lparr>mg_calls := cs\<rparr> in (case c of SessionControl from msg s \<Rightarrow> maybeRekey N cf st s | _ \<Rightarrow> st))"

text \<open>The Noise library reads a message, and gives the other side's static key where it knows it.\<close>

definition onInit :: "('c, 'h) noise \<Rightarrow> config \<Rightarrow> ('c, 'h) manager \<Rightarrow> string \<Rightarrow> bytes \<Rightarrow> ('c, 'h) manager" where
  "onInit N cf st from body =
     (case parseHandshakeInit body of
        None \<Rightarrow> st
      | Some (senderIndex, msg1) \<Rightarrow>
          if senderIndex = 0 then st
          else
            let onRoster = (member_roster st from \<noteq> None); failed = (\<lambda>st. st\<lparr>mg_limits := failedInit (mg_limits st) from (mg_mono st)\<rparr>)
            in case allowInit (mg_limits st) from onRoster (mg_mono st) of (ok, l) \<Rightarrow>
               let st = st\<lparr>mg_limits := l\<rparr>
               in if \<not> ok then (if \<not> onRoster then call st AskPrimary else st)
                  else
                    let st = st\<lparr>mg_initsRead := Suc (mg_initsRead st)\<rparr>;
                        ohs = n_new N (mg_seed st) False (u_Network (mg_roster st)) None; st = st\<lparr>mg_seed := Suc (mg_seed st)\<rparr>
                    in case ohs of
                         None \<Rightarrow> st
                       | Some hs \<Rightarrow>
                           (case n_read N hs msg1 of
                              None \<Rightarrow> if onRoster then failed st else st
                            | Some (payload, _, hs) \<Rightarrow>
                                let hasVersion = (length payload = initPayloadLen);
                                    version = (if hasVersion then Uint64 payload else 0); stamp = (if hasVersion then Uint64 (drop 8 payload) else 0)
                                in if (case member_roster st from of None \<Rightarrow> True
                                       | Some mem \<Rightarrow> (case n_peer N hs of None \<Rightarrow> True | Some rs \<Rightarrow> \<not> sameKey (rm_X25519 mem) rs))
                                   then let st = snd (sendFrame st frameRefused from [refusedNotOnRoster])
                                        in if onRoster then failed st else if hasVersion then call st (PeerVersion from version) else st
                                   else if \<not> hasVersion then failed st
                                   else case accept_stamp (mg_stamps st) (mg_wall st) (mg_mono st) from stamp of
                                     None \<Rightarrow> failed st
                                   | Some ss \<Rightarrow>
                                       (case newIndex (st\<lparr>mg_stamps := ss\<rparr>) of
                                          (None, st) \<Rightarrow> st
                                        | (Some localIndex, st) \<Rightarrow>
                                            (case n_write N hs (u64be (word_of_int (u_Version (mg_roster st)))) of
                                               Some (msg2, Some (toInitiator, toResponder), _) \<Rightarrow>
                                                 (case sendFrame st frameHandshakeResp from (handshakeRespBody localIndex senderIndex msg2) of
                                                    (False, st) \<Rightarrow> st
                                                  | (True, st) \<Rightarrow>
                                                      (case newSession st from localIndex senderIndex False toResponder toInitiator of
                                                         (s, st) \<Rightarrow> call (adopt N cf st s) (PeerVersion from version)))
                                             | _ \<Rightarrow> st))))"

definition onResp :: "('c, 'h) noise \<Rightarrow> config \<Rightarrow> ('c, 'h) manager \<Rightarrow> string \<Rightarrow> bytes \<Rightarrow> ('c, 'h) manager" where
  "onResp N cf st from body =
     (case parseHandshakeResp body of
        None \<Rightarrow> st
      | Some (senderIndex, receiverIndex, msg2) \<Rightarrow>
          (case (case mg_byIndex st receiverIndex of Some (EP p) \<Rightarrow> Some p | _ \<Rightarrow> None) of
             None \<Rightarrow> st
           | Some p \<Rightarrow>
               if p_peer (mg_pend st p) \<noteq> from \<or> senderIndex = 0 then st
               else case peer st from of (a, st) \<Rightarrow>
                 (case n_read N (p_hs (mg_pend st p)) msg2 of
                    Some (payload, Some (toResponder, toInitiator), hs) \<Rightarrow>
                      let st = upd_pend st p (\<lambda>p. p\<lparr>p_hs := hs\<rparr>)
                      in if length payload \<noteq> 8 then failPending st a (closedError (''handshake with '' @ from @ '' failed''))
                         else if (case member_roster st from of None \<Rightarrow> True
                                  | Some mem \<Rightarrow> (case n_peer N hs of None \<Rightarrow> \<not> sameKey (rm_X25519 mem) [] | Some rs \<Rightarrow> \<not> sameKey (rm_X25519 mem) rs))
                         then failPending st a (invalidError (from @ '' is no longer on the roster''))
                         else
                           let st = upd_pend st p (\<lambda>p. p\<lparr>p_timer := False\<rparr>);
                               st = (if ps_pending (mg_pst st a) = Some p then upd_p st a (\<lambda>ps. ps\<lparr>ps_pending := None\<rparr>) else st)
                           in case newSession st from (p_localIndex (mg_pend st p)) senderIndex True toResponder toInitiator of (s, st) \<Rightarrow>
                                let st = adopt N cf st s;
                                    st = st\<lparr>mg_tasks := mg_tasks st @ map (\<lambda>w. TCall w (Some s) None) (p_waiters (mg_pend st p))\<rparr>
                                in call st (PeerVersion from (Uint64 payload))
                  | Some (payload, None, hs) \<Rightarrow>
                      failPending (upd_pend st p (\<lambda>p. p\<lparr>p_hs := hs\<rparr>)) a (closedError (''handshake with '' @ from @ '' failed''))
                  | None \<Rightarrow> failPending st a (closedError (''handshake with '' @ from @ '' failed'')))))"

section \<open>Sessions dropped\<close>

text \<open>The handshake under way with a peer fails and its sessions end.\<close>

definition drop_peer :: "('c, 'h) noise \<Rightarrow> config \<Rightarrow> Error \<Rightarrow> addr \<Rightarrow> ('c, 'h) manager \<Rightarrow> ('c, 'h) manager" where
  "drop_peer N cf err a st =
     (let st = failPending st a err in fold (\<lambda>s st. endSession (pump N cf) st s err) (ps_sessions (mg_pst st a)) st)"

definition dropAll :: "('c, 'h) noise \<Rightarrow> config \<Rightarrow> ('c, 'h) manager \<Rightarrow> Error \<Rightarrow> ('c, 'h) manager" where
  "dropAll N cf st err = fold (\<lambda>(i, a). drop_peer N cf err a) (mg_peers st) st"

definition onUnreachable :: "('c, 'h) noise \<Rightarrow> config \<Rightarrow> ('c, 'h) manager \<Rightarrow> string \<Rightarrow> ('c, 'h) manager" where
  "onUnreachable N cf st i = (case map_of (mg_peers st) i of None \<Rightarrow> st | Some a \<Rightarrow> drop_peer N cf (unreachableError i) a st)"

definition onRefused :: "('c, 'h) noise \<Rightarrow> config \<Rightarrow> ('c, 'h) manager \<Rightarrow> string \<Rightarrow> int \<Rightarrow> ('c, 'h) manager" where
  "onRefused N cf st i reason = (case map_of (mg_peers st) i of None \<Rightarrow> st | Some a \<Rightarrow> drop_peer N cf (refusedError i reason) a st)"

definition onReset :: "('c, 'h) noise \<Rightarrow> config \<Rightarrow> ('c, 'h) manager \<Rightarrow> string \<Rightarrow> u32 \<Rightarrow> ('c, 'h) manager" where
  "onReset N cf st i index =
     (case map_of (mg_peers st) i of
        None \<Rightarrow> st
      | Some a \<Rightarrow> fold (\<lambda>s st. if s_remoteIndex (mg_sess st s) = index then endSession (pump N cf) st s (closedError (i @ '' reset the session'')) else st)
                    (ps_sessions (mg_pst st a)) st)"

definition handleFrame :: "('c, 'h) noise \<Rightarrow> config \<Rightarrow> ('c, 'h) manager \<Rightarrow> frame \<Rightarrow> string \<Rightarrow> ('c, 'h) manager" where
  "handleFrame N cf st f from =
     (if mg_closed st then st
      else if ftyp f = frameHandshakeInit then onInit N cf st from (fbody f)
      else if ftyp f = frameHandshakeResp then onResp N cf st from (fbody f)
      else if ftyp f = frameData \<or> ftyp f = frameControl then onData N cf st from (fbody f)
      else if ftyp f = frameUnreachable then onUnreachable N cf st from
      else if ftyp f = frameRefused then onRefused N cf st from (case fbody f of [] \<Rightarrow> 0 | b # _ \<Rightarrow> int (unat b))
      else if ftyp f = frameReset then (if length (fbody f) \<ge> 4 then onReset N cf st from (Uint32 (fbody f)) else st)
      else st)"

section \<open>The member\<close>

text \<open>\<open>Member.adoptRoster\<close>'s two calls with the roster between them: \<open>rosterAdded\<close>, then \<open>rosterChanged\<close>.\<close>

definition rosterChanged :: "('c, 'h) noise \<Rightarrow> config \<Rightarrow> ('c, 'h) manager \<Rightarrow> ('c, 'h) manager" where
  "rosterChanged N cf st =
     (let ids = map rm_ID (u_Members (mg_roster st));
          st = st\<lparr>mg_limits := forget (mg_limits st) (\<lambda>i. member_roster st i \<noteq> None), mg_stamps := rosterChanged_stamps (cf_stamp_walk cf) ids (mg_stamps st)\<rparr>
      in fold (\<lambda>(i, a) st. if member_roster st i \<noteq> None then st else drop_peer N cf (invalidError (i @ '' is no longer on the roster'')) a st) (mg_peers st) st)"

definition new_roster :: "('c, 'h) noise \<Rightarrow> config \<Rightarrow> ('c, 'h) manager \<Rightarrow> SignedRoster \<Rightarrow> ('c, 'h) manager" where
  "new_roster N cf st r =
     (let st = st\<lparr>mg_stamps := rosterAdded (map rm_ID (u_Members (mg_roster st))) (map rm_ID (u_Members r)) (mg_mono st) (mg_stamps st)\<rparr>
      in rosterChanged N cf (st\<lparr>mg_roster := r\<rparr>))"

definition close :: "('c, 'h) noise \<Rightarrow> config \<Rightarrow> ('c, 'h) manager \<Rightarrow> ('c, 'h) manager" where
  "close N cf st =
     (if mg_closed st then st else dropAll N cf (st\<lparr>mg_closed := True, mg_paceTimer := False\<rparr>) (closedError []))"

definition setRate :: "('c, 'h) noise \<Rightarrow> config \<Rightarrow> ('c, 'h) manager \<Rightarrow> int \<Rightarrow> ('c, 'h) manager" where
  "setRate N cf st rate =
     (if rate = mg_rateBps st then st
      else let st = st\<lparr>mg_rateBps := rate\<rparr> in pump N cf (if rate = 0 then st\<lparr>mg_paceTimer := False\<rparr> else st))"

text \<open>A message for the application to send, made at an address and admitted.\<close>

definition new_out :: "string \<Rightarrow> bytes \<Rightarrow> outMsg" where
  "new_out i b = \<lparr>o_peer = i, o_bytes = b, o_off = 0, o_s = None, o_running = False, o_started = False, o_finished = False, o_done = None, o_timer = False\<rparr>"

definition admit_out :: "config \<Rightarrow> ('c, 'h) manager \<Rightarrow> addr \<Rightarrow> ('c, 'h) manager" where
  "admit_out cf st o' =
     (let x = mg_outs st o'; fail = (\<lambda>err. upd_o st o' (\<lambda>x. x\<lparr>o_finished := True, o_done := Some (Some err)\<rparr>))
      in if mg_closed st then fail (closedError [])
         else if int (length (o_bytes x)) > MaxMessage then fail (invalidError ''message exceeds 64 MiB'')
         else if o_peer x = cf_self cf then fail (invalidError ''cannot send to self'')
         else if member_roster st (o_peer x) = None then fail (invalidError (o_peer x @ '' is not on the roster''))
         else enqueue_out st o')"

section \<open>The sweep and the timers\<close>

definition sweep_session :: "('c, 'h) noise \<Rightarrow> config \<Rightarrow> int \<Rightarrow> addr \<Rightarrow> ('c, 'h) manager \<Rightarrow> ('c, 'h) manager" where
  "sweep_session N cf now s st =
     (let x = mg_sess st s; t = cf_timing cf; quiet = now - s_lastActivity x;
          idleOK = (s_activeSends x = 0 \<and> s_partialLen x = 0 \<and> s_held x = 0);
          fin = (\<lambda>msg. endSession (pump N cf) st s (closedError (''session with '' @ s_peer x @ msg)))
      in if quiet \<ge> t_Idle t then fin '' went idle''
         else if expired cf st s \<and> idleOK then fin '' expired''
         else if s_retired x \<and> quiet \<ge> t_RetireGrace t \<and> idleOK then fin '' was replaced''
         else if s_sent x + s_received x > 0 then maybeRekey N cf st s
         else st)"

definition sweep_peer :: "('c, 'h) noise \<Rightarrow> config \<Rightarrow> int \<Rightarrow> string \<times> addr \<Rightarrow> ('c, 'h) manager \<Rightarrow> ('c, 'h) manager" where
  "sweep_peer N cf now p st =
     (let st = fold (sweep_session N cf now) (ps_sessions (mg_pst st (snd p))) st; ps = mg_pst st (snd p)
      in if ps_sessions ps = [] \<and> ps_pending ps = None \<and> ps_queue ps = [] \<and> ps_heldCount ps = 0 \<and> member_roster st (fst p) = None
         then st\<lparr>mg_peers := AList.delete (fst p) (mg_peers st)\<rparr> else st)"

definition sweep :: "('c, 'h) noise \<Rightarrow> config \<Rightarrow> ('c, 'h) manager \<Rightarrow> ('c, 'h) manager" where
  "sweep N cf st = fold (sweep_peer N cf (mg_mono st)) (mg_peers st) st"

text \<open>The sweep's tick, the handshake timer of \<open>initiate\<close>, the pace timer, and the socket drained.\<close>

definition sweep_due :: "('c, 'h) noise \<Rightarrow> config \<Rightarrow> ('c, 'h) manager \<Rightarrow> ('c, 'h) manager" where
  "sweep_due N cf st = (if mg_closed st then st else sweep N cf st)"

definition handshake_due :: "('c, 'h) manager \<Rightarrow> addr \<Rightarrow> addr \<Rightarrow> ('c, 'h) manager" where
  "handshake_due st a p =
     (let st = upd_pend st p (\<lambda>p. p\<lparr>p_timer := False\<rparr>)
      in if ps_pending (mg_pst st a) = Some p then failPending st a (timeoutError (''handshake with '' @ p_peer (mg_pend st p))) else st)"

definition pace_due :: "('c, 'h) noise \<Rightarrow> config \<Rightarrow> ('c, 'h) manager \<Rightarrow> ('c, 'h) manager" where
  "pace_due N cf st = pump N cf (st\<lparr>mg_paceTimer := False\<rparr>)"

definition socket_drained :: "('c, 'h) noise \<Rightarrow> config \<Rightarrow> ('c, 'h) manager \<Rightarrow> ('c, 'h) manager" where
  "socket_drained N cf st = pump N cf (st\<lparr>mg_awaiting := False\<rparr>)"

text \<open>What \<open>sessionInfo\<close> reports.\<close>

record SessionInfo =
  si_Peer :: string
  si_LocalIndex :: u32
  si_RemoteIndex :: u32
  si_Initiator :: bool
  si_Current :: bool
  si_Sent :: nat
  si_Received :: nat
  si_SendCredit :: int
  si_Inflight :: int

definition sessionInfo :: "('c, 'h) manager \<Rightarrow> string \<Rightarrow> SessionInfo list" where
  "sessionInfo st i =
     concat (map (\<lambda>(j, a). if i \<noteq> [] \<and> j \<noteq> i then []
               else map (\<lambda>s. let x = mg_sess st s in \<lparr>si_Peer = j, si_LocalIndex = s_localIndex x, si_RemoteIndex = s_remoteIndex x,
                        si_Initiator = s_initiator x, si_Current = (ps_current (mg_pst st a) = Some s), si_Sent = s_sent x, si_Received = s_received x,
                        si_SendCredit = s_sendCredit x, si_Inflight = s_inflight x\<rparr>) (ps_sessions (mg_pst st a))) (mg_peers st))"

end
