(* ===== verification/Session_Invariant.thy ===== *)
theory Session_Invariant
  imports Session_Ops
begin

text \<open>
  What the session manager's state always satisfies. The locale \<open>steady\<close> is the contract between the
  pump and an invariant: what is kept by tame steps, by the end of a session and by the moves of the
  gate is kept by \<open>pump\<close>, \<open>endSession\<close>, \<open>transmit\<close> and the functions over them. The invariant \<open>sinv\<close>
  says that the tables agree with the sessions, that a peer's buffered bytes and held messages are
  counted exactly and within bounds, and that each session's credit is conserved.
\<close>

section \<open>What the pump keeps\<close>

locale steady =
  fixes P :: "('c, 'h) manager \<Rightarrow> bool"
  assumes tame: "P st \<Longrightarrow> tame st st' \<Longrightarrow> P st'"
    and ending: "P st \<Longrightarrow> s < mg_nsess st \<Longrightarrow> \<not> s_ended (mg_sess st s) \<Longrightarrow> P (end_state st s e)"
    and gate: "P st \<Longrightarrow> set g \<subseteq> set (mg_gate st) \<Longrightarrow> P (st\<lparr>mg_gate := g\<rparr>)"
    and flags: "P st \<Longrightarrow> P (st\<lparr>mg_repump := b\<rparr>)" "P st \<Longrightarrow> P (st\<lparr>mg_pumping := b\<rparr>)"
    and more: "P st \<Longrightarrow> o_s (mg_outs st o') = Some s \<Longrightarrow> s < mg_nsess st \<Longrightarrow> P (later st (TMore o'))"
    and valid: "P st \<Longrightarrow> gate_ok st"
begin

lemma runFragment:
  assumes "P st" "o_s (mg_outs st o') = Some s" "s < mg_nsess st"
  shows "P (runFragment N cf nested_pump st o' s)"
proof (rule runFragment_steps [of _ N cf st o' s, OF refl])
  let ?r = "runFragment N cf nested_pump st o' s"
  fix a b c
  assume t: "tame st a" "tame b c" and b: "b = a \<or> (\<exists>e. \<not> s_ended (mg_sess a s) \<and> b = nested_pump (end_state a s e))"
    and r: "?r = c \<or> ?r = later c (TMore o') \<or> ?r = later c (TFinish o')"
  have a: "P a" "s < mg_nsess a" using tame [OF assms(1) t(1)] tame_core(3) [OF t(1)] assms(3) by simp_all
  have "P b" using b a ending flags(1) by (auto simp: nested_pump_def)
  then have c: "P c" using tame t(2) by blast
  have "o_s (mg_outs b o') = o_s (mg_outs a o')" "mg_nsess b = mg_nsess a" using b by (auto simp: nested_pump_def end_state_fields)
  then have "o_s (mg_outs c o') = Some s" "s < mg_nsess c" using tame_core(3,5) [OF t(1)] tame_core(3,5) [OF t(2)] assms(2,3) by simp_all
  then show "P ?r" using r c more tame [OF c tame_later [of "TFinish o'"]] by (auto simp: quiet_task_def)
qed

lemma in_gate:
  assumes "P st" "i < length (mg_gate st)"
  obtains s where "o_s (mg_outs st (mg_gate st ! i)) = Some s" "s < mg_nsess st"
  using valid [OF assms(1)] nth_mem [OF assms(2)] by (auto simp: gate_ok_def)

lemma pump_once: "P st \<Longrightarrow> P (pump_once N cf i st)"
proof (rule pump_once_rule [where P = P])
  show "P (st\<lparr>mg_gate := drop_at i (mg_gate st)\<rparr>)" if "P st" for st i using gate [OF that set_drop_at] .
  show "P (finishOut N cf st o' e)" if "P st" for st o' e using tame [OF that tame_finishOut] .
  show "P (snd (pace st s))" if "P st" for st s using tame [OF that tame_pace] .
  show "P (st\<lparr>mg_awaiting := True\<rparr>)" "P (st\<lparr>mg_paceTimer := True\<rparr>)" if "P st" for st using tame [OF that tame_paceDue(3)] tame [OF that tame_paceDue(2)] .
  show "P (st\<lparr>mg_stuck := True\<rparr>)" if "P st" "i < length (mg_gate st)" "o_s (mg_outs st (mg_gate st ! i)) = None" for st i
    using in_gate [OF that(1,2)] that(3) by (metis option.distinct(1))
  show "P (runFragment N cf nested_pump (st\<lparr>mg_gate := drop_at i (mg_gate st)\<rparr>) (mg_gate st ! i) s)"
    if "P st" "i < length (mg_gate st)" "o_s (mg_outs st (mg_gate st ! i)) = Some s" for st i s
  proof (rule runFragment [OF gate [OF that(1) set_drop_at]])
    note h = that
    obtain s' where "o_s (mg_outs st (mg_gate st ! i)) = Some s'" "s' < mg_nsess st" using in_gate [OF h(1,2)] .
    then show "s < mg_nsess (st\<lparr>mg_gate := drop_at i (mg_gate st)\<rparr>)" using that(3) by simp
  qed (simp add: that(3))
qed

lemma pump: "P st \<Longrightarrow> P (pump N cf st)"
  using pump_loop_rule [where P = P and N = N and cf = cf, OF flags(1) pump_once] flags
  by (simp add: pump_def nested_pump_def)

lemma endSession: "P st \<Longrightarrow> s < mg_nsess st \<Longrightarrow> P (endSession (pump N cf) st s e)"
  using ending pump by (simp add: endSession_def)

lemma transmit:
  assumes "P st" "s < mg_nsess st"
  shows "P (snd (snd (transmit N (pump N cf) st s msg)))"
proof -
  obtain ok err st' where t: "transmit N (pump N cf) st s msg = (ok, err, st')" by (metis prod_cases3)
  then have "P st'"
  proof (cases rule: transmit_cases)
    case still
    then show ?thesis using tame assms(1) by blast
  next
    case (ended e)
    then show ?thesis using pump ending assms by simp
  qed
  then show ?thesis using t by simp
qed

end

section \<open>The invariant\<close>

text \<open>The messages not taken that count for a peer, and those of a session.\<close>

definition held_size :: "('c, 'h) manager \<Rightarrow> addr \<Rightarrow> int" where
  "held_size st a = (\<Sum>h\<leftarrow>filter (\<lambda>h. h_ps h = a) (mg_held st). h_size h)"

definition held_count :: "('c, 'h) manager \<Rightarrow> addr \<Rightarrow> nat" where
  "held_count st a = length (filter (\<lambda>h. h_ps h = a) (mg_held st))"

definition held_of :: "('c, 'h) manager \<Rightarrow> addr \<Rightarrow> nat" where
  "held_of st s = length (filter (\<lambda>h. h_s h = s) (mg_held st))"

definition uncredited_of :: "('c, 'h) manager \<Rightarrow> addr \<Rightarrow> int" where
  "uncredited_of st s = (\<Sum>h\<leftarrow>filter (\<lambda>h. h_s h = s) (mg_held st). h_uncredited h)"

text \<open>
  The tables: each peer's sessions are live, its own and at most \<open>k\<close>; each live session is listed by
  its peer and indexed, and nothing else is.
\<close>

definition peers_wf :: "('c, 'h) manager \<Rightarrow> bool" where
  "peers_wf st \<longleftrightarrow> distinct (map fst (mg_peers st)) \<and> distinct (map snd (mg_peers st)) \<and> (\<forall>a\<in>snd ` set (mg_peers st). a < mg_npst st)"

definition listed :: "(addr \<Rightarrow> nat) \<Rightarrow> ('c, 'h) manager \<Rightarrow> string \<Rightarrow> addr \<Rightarrow> bool" where
  "listed k st i a \<longleftrightarrow>
     distinct (ps_sessions (mg_pst st a)) \<and> length (ps_sessions (mg_pst st a)) \<le> k a
     \<and> (\<forall>s\<in>set (ps_sessions (mg_pst st a)). s \<in> live st \<and> s_peer (mg_sess st s) = i)
     \<and> (\<forall>c. ps_current (mg_pst st a) = Some c \<longrightarrow> c < mg_nsess st \<and> (c \<in> live st \<longrightarrow> c \<in> set (ps_sessions (mg_pst st a))))"

definition indexed :: "('c, 'h) manager \<Rightarrow> bool" where
  "indexed st \<longleftrightarrow> (\<forall>i s. mg_byIndex st i = Some (ES s) \<longleftrightarrow> s \<in> live st \<and> s_localIndex (mg_sess st s) = i)"

definition at_peer :: "('c, 'h) manager \<Rightarrow> addr \<Rightarrow> bool" where
  "at_peer st s \<longleftrightarrow> (\<exists>a. (s_peer (mg_sess st s), a) \<in> set (mg_peers st) \<and> s \<in> set (ps_sessions (mg_pst st a)))"

text \<open>What a peer left buffered is counted exactly, and bounded.\<close>

definition buffer_ok :: "config \<Rightarrow> ('c, 'h) manager \<Rightarrow> addr \<Rightarrow> bool" where
  "buffer_ok cf st a \<longleftrightarrow>
     ps_buffered (mg_pst st a) = (\<Sum>s\<leftarrow>ps_sessions (mg_pst st a). s_partialLen (mg_sess st s)) + held_size st a
     \<and> ps_heldCount (mg_pst st a) = int (held_count st a)
     \<and> ps_buffered (mg_pst st a) \<le> peerBufferLimit (cf_window cf) \<and> ps_heldCount (mg_pst st a) \<le> maxHeldMessagesPerPeer"

text \<open>A reassembly buffer holds its bytes and no more than as much again, or 4096.\<close>

definition slice_ok :: "slice \<Rightarrow> bool" where
  "slice_ok b \<longleftrightarrow> length (fst b) \<le> snd b \<and> snd b \<le> max 4096 (2 * length (fst b)) \<and> int (snd b) \<le> MaxMessage"

text \<open>
  The credit of a session: what the peer may still send, what it is owed, and the bytes here that
  were not credited back make up the window.
\<close>

definition receiving :: "config \<Rightarrow> ('c, 'h) manager \<Rightarrow> addr \<Rightarrow> bool" where
  "receiving cf st s \<longleftrightarrow> (let x = mg_sess st s in
     int (length (fst (s_partial x))) = s_partialLen x \<and> slice_ok (s_partial x)
     \<and> 0 \<le> s_partialCredited x \<and> s_partialCredited x \<le> s_partialLen x \<and> s_partialLen x \<le> MaxMessage
     \<and> s_held x = int (held_of st s) \<and> (s_ended x \<longrightarrow> s_partialLen x = 0)
     \<and> (\<not> s_ended x \<longrightarrow> 0 \<le> s_allowance x \<and> 0 \<le> s_owed x \<and> (s_held x = 0 \<longrightarrow> s_partialCredited x = s_partialLen x)
          \<and> s_allowance x + s_owed x + (s_partialLen x - s_partialCredited x) + uncredited_of st s = cf_window cf))"

definition held_ok :: "('c, 'h) manager \<Rightarrow> bool" where
  "held_ok st \<longleftrightarrow> (\<forall>h\<in>set (mg_held st). h_s h < mg_nsess st \<and> h_ps h \<in> snd ` set (mg_peers st) \<and> h_size h = int (length (h_bytes h))
     \<and> h_size h \<le> MaxMessage \<and> 0 \<le> h_uncredited h \<and> h_uncredited h \<le> h_size h)"

text \<open>Tasks name sessions that exist.\<close>

definition task_ok :: "('c, 'h) manager \<Rightarrow> task \<Rightarrow> bool" where
  "task_ok st t = (case t of
     TCall cb os oe \<Rightarrow> (case os of Some s \<Rightarrow> s < mg_nsess st | None \<Rightarrow> oe \<noteq> None)
   | TMore o' \<Rightarrow> (case o_s (mg_outs st o') of Some s \<Rightarrow> s < mg_nsess st | None \<Rightarrow> False)
   | _ \<Rightarrow> True)"

text \<open>The check of \<open>newMember\<close> on the window.\<close>

definition window_ok :: "config \<Rightarrow> bool" where
  "window_ok cf \<longleftrightarrow> \<not> (cf_window cf < InitialCredit \<or> cf_window cf > 0xffffffff)"

definition sinv :: "(addr \<Rightarrow> nat) \<Rightarrow> config \<Rightarrow> ('c, 'h) manager \<Rightarrow> bool" where
  "sinv k cf st \<longleftrightarrow> window_ok cf \<and> peers_wf st \<and> (\<forall>(i, a)\<in>set (mg_peers st). listed k st i a \<and> buffer_ok cf st a) \<and> (\<forall>s\<in>live st. at_peer st s) \<and> indexed st \<and> epi st
     \<and> (\<forall>s<mg_nsess st. receiving cf st s) \<and> held_ok st \<and> gate_ok st \<and> (\<forall>t\<in>set (mg_tasks st). task_ok st t) \<and> \<not> mg_stuck st"

lemmas sinv_defs = sinv_def peers_wf_def listed_def indexed_def at_peer_def buffer_ok_def receiving_def held_ok_def task_ok_def gate_ok_def
  held_size_def held_count_def held_of_def uncredited_of_def live_def epi_def

lemma sinvD:
  assumes "sinv k cf st"
  shows "peers_wf st" "\<And>i a. (i, a) \<in> set (mg_peers st) \<Longrightarrow> listed k st i a" "\<And>i a. (i, a) \<in> set (mg_peers st) \<Longrightarrow> buffer_ok cf st a"
    "\<And>s. s \<in> live st \<Longrightarrow> at_peer st s" "indexed st" "epi st" "\<And>s. s < mg_nsess st \<Longrightarrow> receiving cf st s" "held_ok st" "gate_ok st"
    "\<And>t. t \<in> set (mg_tasks st) \<Longrightarrow> task_ok st t" "\<not> mg_stuck st" "window_ok cf"
  using assms by (auto simp: sinv_def)

lemma sinvI:
  assumes "peers_wf st" "\<And>i a. (i, a) \<in> set (mg_peers st) \<Longrightarrow> listed k st i a" "\<And>i a. (i, a) \<in> set (mg_peers st) \<Longrightarrow> buffer_ok cf st a"
    "\<And>s. s \<in> live st \<Longrightarrow> at_peer st s" "indexed st" "epi st" "\<And>s. s < mg_nsess st \<Longrightarrow> receiving cf st s" "held_ok st" "gate_ok st"
    "\<And>t. t \<in> set (mg_tasks st) \<Longrightarrow> task_ok st t" "\<not> mg_stuck st" "window_ok cf"
  shows "sinv k cf st"
  using assms by (auto simp: sinv_def)

section \<open>Tame steps\<close>

lemma p_coreD: "p_core x = p_core y \<Longrightarrow> ps_current x = ps_current y \<and> ps_sessions x = ps_sessions y \<and> ps_buffered x = ps_buffered y \<and> ps_heldCount x = ps_heldCount y"
  by (simp add: p_core_def)

lemma s_coreD:
  "s_core x = s_core y \<Longrightarrow> s_peer x = s_peer y \<and> s_localIndex x = s_localIndex y \<and> s_ended x = s_ended y \<and> s_partial x = s_partial y \<and> s_partialLen x = s_partialLen y
     \<and> s_partialCredited x = s_partialCredited y \<and> s_held x = s_held y \<and> s_owed x = s_owed y \<and> s_allowance x = s_allowance y"
  by (simp add: s_core_def)

text \<open>The parts of the state the invariant reads, after a tame step.\<close>

lemma tame_view:
  assumes "tame st st'"
  shows "mg_nsess st' = mg_nsess st" "mg_held st' = mg_held st" "live st' = live st" "mg_stuck st' = mg_stuck st" "mg_gate st' = mg_gate st"
    "\<And>s. s_core (mg_sess st' s) = s_core (mg_sess st s)" "indexed st' = indexed st" "epi st \<Longrightarrow> epi st'" "gate_ok st' = gate_ok st"
    "\<And>a. held_size st' a = held_size st a" "\<And>a. held_count st' a = held_count st a" "\<And>s. held_of st' s = held_of st s" "\<And>s. uncredited_of st' s = uncredited_of st s"
    "\<And>s. receiving cf st' s = receiving cf st s"
proof -
  have st: "mg_nsess st' = mg_nsess st" "mg_held st' = mg_held st" "mg_stuck st' = mg_stuck st" "mg_gate st' = mg_gate st" "\<And>s. s_core (mg_sess st' s) = s_core (mg_sess st s)"
      "\<And>i s. mg_byIndex st' i = Some (ES s) \<longleftrightarrow> mg_byIndex st i = Some (ES s)" "\<And>o'. o_s (mg_outs st' o') = o_s (mg_outs st o')"
    using assms by (simp_all add: tame_def still_def)
  have c: "s_peer (mg_sess st' s) = s_peer (mg_sess st s) \<and> s_localIndex (mg_sess st' s) = s_localIndex (mg_sess st s) \<and> s_ended (mg_sess st' s) = s_ended (mg_sess st s)" for s
    using s_coreD [OF st(5)] by blast
  show "mg_nsess st' = mg_nsess st" "mg_held st' = mg_held st" "mg_stuck st' = mg_stuck st" "mg_gate st' = mg_gate st" "\<And>s. s_core (mg_sess st' s) = s_core (mg_sess st s)"
    using st by simp_all
  show l: "live st' = live st" using st(1) c by (simp add: live_def)
  show "indexed st' = indexed st" using st(6) c l by (simp add: indexed_def)
  show "epi st \<Longrightarrow> epi st'" using assms by (simp add: tame_def)
  show "gate_ok st' = gate_ok st" using st by (simp add: gate_ok_def)
  show h: "\<And>a. held_size st' a = held_size st a" "\<And>a. held_count st' a = held_count st a" "\<And>s. held_of st' s = held_of st s" "\<And>s. uncredited_of st' s = uncredited_of st s"
    using st(2) by (simp_all add: held_size_def held_count_def held_of_def uncredited_of_def)
  show "\<And>s. receiving cf st' s = receiving cf st s"
    unfolding receiving_def Let_def h using s_coreD [OF st(5)] by metis
qed

lemma tame_peers:
  assumes "tame st st'" "peers_wf st"
  shows "peers_wf st'" "\<And>i a. (i, a) \<in> set (mg_peers st) \<Longrightarrow> (i, a) \<in> set (mg_peers st') \<and> p_core (mg_pst st' a) = p_core (mg_pst st a)"
    "\<And>i a. (i, a) \<in> set (mg_peers st') \<Longrightarrow> (i, a) \<in> set (mg_peers st) \<or> mg_npst st \<le> a \<and> p_core (mg_pst st' a) = p_core new_peerState"
    "\<And>i a. map_of (mg_peers st) i = Some a \<Longrightarrow> map_of (mg_peers st') i = Some a"
proof -
  obtain new where n: "mg_npst st \<le> mg_npst st'" "mg_peers st' = mg_peers st @ new" "distinct (map fst new)" "distinct (map snd new)"
      "\<forall>(i, a)\<in>set new. map_of (mg_peers st) i = None \<and> mg_npst st \<le> a \<and> a < mg_npst st'"
      "\<forall>a. p_core (mg_pst st' a) = (if mg_npst st \<le> a \<and> a < mg_npst st' then p_core new_peerState else p_core (mg_pst st a))"
    using assms(1) by (auto simp: tame_def still_def fresh_peers_def)
  have new: "fst p \<notin> fst ` set (mg_peers st)" "mg_npst st \<le> snd p" "snd p < mg_npst st'" if "p \<in> set new" for p
    using bspec [OF n(5) that] by (cases p, simp add: map_of_eq_None_iff)+
  have old: "snd p < mg_npst st" if "p \<in> set (mg_peers st)" for p using assms(2) that by (simp add: peers_wf_def)
  have f: "fst ` set (mg_peers st) \<inter> fst ` set new = {}" by (rule Int_emptyI) (metis imageE new(1))
  have g: "snd ` set (mg_peers st) \<inter> snd ` set new = {}"
  proof (rule Int_emptyI)
    fix a
    assume "a \<in> snd ` set (mg_peers st)" "a \<in> snd ` set new"
    then obtain p q where "p \<in> set (mg_peers st)" "a = snd p" "q \<in> set new" "a = snd q" by blast
    then show False using new(2) [of q] old [of p] by simp
  qed
  have b: "\<forall>a\<in>snd ` set (mg_peers st). a < mg_npst st'" "\<forall>a\<in>snd ` set new. a < mg_npst st'"
    using less_le_trans [OF old n(1)] new(3) by simp_all
  show "peers_wf st'"
    using assms(2) n(3,4) f g b by (simp add: peers_wf_def n(2) image_Un ball_Un)
  show "(i, a) \<in> set (mg_peers st') \<and> p_core (mg_pst st' a) = p_core (mg_pst st a)" if "(i, a) \<in> set (mg_peers st)" for i a
    using n(6) old [OF that] that by (simp add: n(2))
  show "(i, a) \<in> set (mg_peers st) \<or> mg_npst st \<le> a \<and> p_core (mg_pst st' a) = p_core new_peerState" if "(i, a) \<in> set (mg_peers st')" for i a
    using that n(6) new [of "(i, a)"] by (auto simp: n(2))
  show "map_of (mg_peers st') i = Some a" if "map_of (mg_peers st) i = Some a" for i a
    using that by (simp add: n(2) map_add_Some_iff)
qed

lemma window_pos: "window_ok cf \<Longrightarrow> 0 \<le> peerBufferLimit (cf_window cf)"
  by (auto simp: window_ok_def peerBufferLimit_def MaxMessage_def InitialCredit_def)

lemma no_held:
  assumes "held_ok st" "a \<notin> snd ` set (mg_peers st)"
  shows "held_size st a = 0" "held_count st a = 0"
proof -
  have "filter (\<lambda>h. h_ps h = a) (mg_held st) = []" using assms by (auto simp: held_ok_def filter_empty_conv)
  then show "held_size st a = 0" "held_count st a = 0" by (simp_all add: held_size_def held_count_def)
qed

lemma task_ok_mono:
  "task_ok st t \<Longrightarrow> mg_nsess st \<le> mg_nsess st' \<Longrightarrow> (\<And>o'. o_s (mg_outs st' o') = o_s (mg_outs st o')) \<Longrightarrow> task_ok st' t"
  by (auto simp: task_ok_def split: task.splits option.splits)

lemma listed_cong:
  assumes "listed k st i a" "p_core (mg_pst st' a) = p_core (mg_pst st a)" "live st' = live st" "mg_nsess st' = mg_nsess st" "\<And>s. s_peer (mg_sess st' s) = s_peer (mg_sess st s)"
  shows "listed k st' i a"
  using assms(1,3-5) p_coreD [OF assms(2)] by (simp add: listed_def)

lemma sinv_tame:
  assumes "sinv k cf st" "tame st st'"
  shows "sinv k cf st'"
proof (rule sinvI)
  note v = tame_view [OF assms(2)] and w = tame_peers [OF assms(2) sinvD(1) [OF assms(1)]] and c = s_coreD [OF tame_view(6) [OF assms(2)]]
  show "peers_wf st'" "indexed st'" "epi st'" "gate_ok st'" "\<not> mg_stuck st'" "window_ok cf" using w(1) v sinvD [OF assms(1)] by simp_all
  show "receiving cf st' s" if "s < mg_nsess st'" for s using v(1,14) sinvD(7) [OF assms(1)] that by metis
  show "held_ok st'"
  proof -
    have "a \<in> snd ` set (mg_peers st')" if "a \<in> snd ` set (mg_peers st)" for a using w(2) that by force
    then show ?thesis using sinvD(8) [OF assms(1)] v(1,2) by (auto simp: held_ok_def)
  qed
  show "at_peer st' s" if "s \<in> live st'" for s
  proof -
    have "at_peer st s" using sinvD(4) [OF assms(1)] that v(3) by simp
    then obtain a where "(s_peer (mg_sess st s), a) \<in> set (mg_peers st)" "s \<in> set (ps_sessions (mg_pst st a))" by (auto simp: at_peer_def)
    then show ?thesis using w(2) p_coreD c unfolding at_peer_def by metis
  qed
  show "task_ok st' t" if "t \<in> set (mg_tasks st')" for t
  proof -
    obtain ts where ts: "mg_tasks st' = mg_tasks st @ ts" "list_all quiet_task ts" using assms(2) by (auto simp: tame_def still_def)
    show ?thesis
    proof (cases "t \<in> set (mg_tasks st)")
      case True
      show ?thesis by (rule task_ok_mono [OF sinvD(10) [OF assms(1) True]]) (simp_all add: v(1) tame_core(5) [OF assms(2)])
    next
      case False
      then have "quiet_task t" using ts that by (simp add: list_all_iff)
      then show ?thesis by (auto simp: quiet_task_def task_ok_def split: task.splits option.splits)
    qed
  qed
  have "listed k st' i a \<and> buffer_ok cf st' a" if m: "(i, a) \<in> set (mg_peers st')" for i a
  proof (cases "(i, a) \<in> set (mg_peers st)")
    case True
    have p: "p_core (mg_pst st' a) = p_core (mg_pst st a)" using w(2) [OF True] by simp
    have "listed k st' i a" by (rule listed_cong [OF sinvD(2) [OF assms(1) True] p v(3,1)]) (use c in simp)
    moreover have "s_partialLen (mg_sess st' s) = s_partialLen (mg_sess st s)" for s using c by simp
    then have "buffer_ok cf st' a" using sinvD(3) [OF assms(1) True] p_coreD [OF p] v(10,11) by (simp add: buffer_ok_def)
    ultimately show ?thesis by blast
  next
    case False
    then have n: "mg_npst st \<le> a" "p_core (mg_pst st' a) = p_core new_peerState" using w(3) [OF m] by simp_all
    then have "a \<notin> snd ` set (mg_peers st)" using sinvD(1) [OF assms(1)] by (auto simp: peers_wf_def)
    then have "held_size st' a = 0" "held_count st' a = 0" using no_held [OF sinvD(8) [OF assms(1)]] v(10,11) by simp_all
    then show ?thesis using p_coreD [OF n(2)] window_pos sinvD(12) [OF assms(1)]
      by (simp add: listed_def buffer_ok_def new_peerState_def maxHeldMessagesPerPeer_def)
  qed
  then show "\<And>i a. (i, a) \<in> set (mg_peers st') \<Longrightarrow> listed k st' i a" "\<And>i a. (i, a) \<in> set (mg_peers st') \<Longrightarrow> buffer_ok cf st' a" by blast+
qed

section \<open>The end of a session\<close>

lemma sinv_mono:
  assumes "sinv k cf st" "\<And>a. k a \<le> k' a"
  shows "sinv k' cf st"
proof (rule sinvI)
  show "listed k' st i a" if "(i, a) \<in> set (mg_peers st)" for i a
    using sinvD(2) [OF assms(1) that] assms(2) [of a] by (simp add: listed_def)
qed (use sinvD [OF assms(1)] in simp_all)

lemma peer_addr:
  assumes "peers_wf st" "(i, a) \<in> set (mg_peers st)"
  shows "map_of (mg_peers st) i = Some a" "\<And>j. (j, a) \<in> set (mg_peers st) \<Longrightarrow> j = i" "\<And>b. (i, b) \<in> set (mg_peers st) \<Longrightarrow> b = a"
proof -
  have d: "distinct (map fst (mg_peers st))" "distinct (map snd (mg_peers st))" using assms(1) by (simp_all add: peers_wf_def)
  show m: "map_of (mg_peers st) i = Some a" using d(1) assms(2) by simp
  show "j = i" if "(j, a) \<in> set (mg_peers st)" for j using inj_onD [OF conjunct2 [OF d(2) [unfolded distinct_map]], of "(j, a)" "(i, a)"] that assms(2) by simp
  show "b = a" if "(i, b) \<in> set (mg_peers st)" for b using m map_of_is_SomeI [OF d(1) that] by simp
qed

lemma live_end: "live (end_state st s e) = live st - {s}"
  by (auto simp: live_def end_state_fields)

lemma indexed_end:
  assumes "indexed st" "s \<in> live st"
  shows "indexed (end_state st s e)"
proof -
  have b: "mg_byIndex st i = Some (ES x) \<longleftrightarrow> x \<in> live st \<and> s_localIndex (mg_sess st x) = i" for i x using assms(1) by (simp add: indexed_def)
  have s: "mg_byIndex st (s_localIndex (mg_sess st s)) = Some (ES s)" using b assms(2) by blast
  have "mg_byIndex (end_state st s e) i = Some (ES x) \<longleftrightarrow> x \<in> live st - {s} \<and> s_localIndex (mg_sess (end_state st s e) x) = i" for i x
    using b [of i x] s by (auto simp: end_state_fields)
  then show ?thesis by (simp add: indexed_def live_end)
qed

lemma slice_nil: "slice_ok ([], 0)"
  by (simp add: slice_ok_def MaxMessage_def)

lemma sinv_end:
  assumes inv: "sinv k cf st" and s: "s \<in> live st" and a: "(s_peer (mg_sess st s), a) \<in> set (mg_peers st)"
  shows "sinv (k(a := k a - 1)) cf (end_state st s e)"
proof (rule sinvI)
  let ?t = "end_state st s e" and ?i = "s_peer (mg_sess st s)"
  note D = sinvD [OF inv] and f = end_state_fields [of st s e] and P = peer_addr [OF D(1)]
  have m: "map_of (mg_peers st) ?i = Some a" using P(1) [OF a] .
  have sl: "s < mg_nsess st" "\<not> s_ended (mg_sess st s)" using s by (simp_all add: live_def)
  have in_a: "s \<in> set (ps_sessions (mg_pst st a))" using D(4) [OF s] P(3) [OF a] by (auto simp: at_peer_def)
  have other: "s \<notin> set (ps_sessions (mg_pst st b))" if "(i, b) \<in> set (mg_peers st)" "b \<noteq> a" for i b
    using D(2) [OF that(1)] P(3) [OF a, of b] that by (auto simp: listed_def)
  have pst: "mg_pst ?t = (mg_pst st)(a := (mg_pst st a)\<lparr>ps_sessions := remove1 s (ps_sessions (mg_pst st a)),
      ps_current := (if ps_current (mg_pst st a) = Some s then None else ps_current (mg_pst st a)), ps_buffered := ps_buffered (mg_pst st a) - s_partialLen (mg_sess st s)\<rparr>)"
    unfolding f(19) m by simp
  show "peers_wf ?t" "\<not> mg_stuck ?t" "window_ok cf" using D by (simp_all add: peers_wf_def f)
  show "gate_ok ?t" using D(9) by (simp add: gate_ok_def f)
  show "held_ok ?t" using D(8) by (simp only: held_ok_def f)
  show "epi ?t" using D(6) by (simp add: epi_def f)
  show "indexed ?t" by (rule indexed_end [OF D(5) s])
  show "task_ok ?t t" if "t \<in> set (mg_tasks ?t)" for t
    by (rule task_ok_mono [OF D(10)]) (use that in \<open>simp_all add: f\<close>)
  have h: "held_size ?t b = held_size st b" "held_count ?t b = held_count st b" "held_of ?t x = held_of st x" "uncredited_of ?t x = uncredited_of st x" for b x
    by (simp_all add: held_size_def held_count_def held_of_def uncredited_of_def f)
  show "receiving cf ?t x" if "x < mg_nsess ?t" for x
    using D(7) [of x] that slice_nil by (cases "x = s") (simp_all add: receiving_def h f Let_def MaxMessage_def)
  show "at_peer ?t x" if "x \<in> live ?t" for x
  proof -
    have x: "x \<in> live st" "x \<noteq> s" using that by (simp_all add: live_end)
    then obtain b where "(s_peer (mg_sess st x), b) \<in> set (mg_peers st)" "x \<in> set (ps_sessions (mg_pst st b))" using D(4) by (auto simp: at_peer_def)
    then show ?thesis using x(2) by (auto simp: at_peer_def f(10,17) pst intro!: exI [of _ b])
  qed
  have "listed (k(a := k a - 1)) ?t i b \<and> buffer_ok cf ?t b" if "(i, b) \<in> set (mg_peers ?t)" for i b
  proof -
    have ib: "(i, b) \<in> set (mg_peers st)" using that by (simp add: f)
    note L = D(2) [OF ib, unfolded listed_def] and B = D(3) [OF ib, unfolded buffer_ok_def]
    show ?thesis
    proof (cases "b = a")
      case True
      let ?ss = "ps_sessions (mg_pst st a)"
      have d: "distinct ?ss" using L True by simp
      have sum: "(\<Sum>x\<leftarrow>?ss. s_partialLen (mg_sess st x)) = s_partialLen (mg_sess st s) + (\<Sum>x\<leftarrow>remove1 s ?ss. s_partialLen (mg_sess st x))"
        by (rule sum_list_map_remove1) (rule in_a)
      have "(\<Sum>x\<leftarrow>remove1 s ?ss. s_partialLen (mg_sess ?t x)) = (\<Sum>x\<leftarrow>remove1 s ?ss. s_partialLen (mg_sess st x))"
        by (rule arg_cong [of _ _ sum_list], rule map_cong) (use d in \<open>auto simp: f(17)\<close>)
      moreover have "0 \<le> s_partialLen (mg_sess st s)" using D(7) [OF sl(1)] by (simp add: receiving_def Let_def)
      ultimately have "buffer_ok cf ?t a" using B True sum by (simp add: buffer_ok_def pst h)
      moreover have "listed (k(a := k a - 1)) ?t i a"
        using L True d in_a by (auto simp: listed_def pst live_end f(2,17) length_remove1)
      ultimately show ?thesis using True by simp
    next
      case False
      have ns: "s \<notin> set (ps_sessions (mg_pst st b))" using other [OF ib False] .
      have "(\<Sum>x\<leftarrow>ps_sessions (mg_pst st b). s_partialLen (mg_sess ?t x)) = (\<Sum>x\<leftarrow>ps_sessions (mg_pst st b). s_partialLen (mg_sess st x))"
        by (rule arg_cong [of _ _ sum_list], rule map_cong) (use ns in \<open>auto simp: f(17)\<close>)
      then have "buffer_ok cf ?t b" using B False by (simp add: buffer_ok_def pst h)
      moreover have "listed (k(a := k a - 1)) ?t i b" using L False ns by (auto simp: listed_def pst live_end f(2,17))
      ultimately show ?thesis by simp
    qed
  qed
  then show "\<And>i b. (i, b) \<in> set (mg_peers ?t) \<Longrightarrow> listed (k(a := k a - 1)) ?t i b" "\<And>i b. (i, b) \<in> set (mg_peers ?t) \<Longrightarrow> buffer_ok cf ?t b" by blast+
qed

lemma sinv_ending:
  assumes "sinv k cf st" "s < mg_nsess st" "\<not> s_ended (mg_sess st s)"
  shows "sinv k cf (end_state st s e)"
proof -
  have s: "s \<in> live st" using assms by (simp add: live_def)
  then obtain a where a: "(s_peer (mg_sess st s), a) \<in> set (mg_peers st)" using sinvD(4) [OF assms(1)] by (auto simp: at_peer_def)
  show ?thesis by (rule sinv_mono [OF sinv_end [OF assms(1) s a]]) simp
qed

section \<open>The pump keeps the invariant\<close>

text \<open>
  What a state owes to an earlier one: peers keep their addresses, sessions their peers, an ended
  session stays ended, the manager is as closed as it was, and one that is closed makes no session.
\<close>

definition after :: "('c, 'h) manager \<Rightarrow> ('c, 'h) manager \<Rightarrow> bool" where
  "after st0 st \<longleftrightarrow> mg_nsess st0 \<le> mg_nsess st \<and> (\<forall>i a. map_of (mg_peers st0) i = Some a \<longrightarrow> map_of (mg_peers st) i = Some a)
     \<and> (\<forall>s<mg_nsess st0. s_peer (mg_sess st s) = s_peer (mg_sess st0 s) \<and> (s_ended (mg_sess st0 s) \<longrightarrow> s_ended (mg_sess st s)))
     \<and> mg_closed st = mg_closed st0 \<and> (mg_closed st0 \<longrightarrow> mg_nsess st = mg_nsess st0)"

lemma after_refl [simp]: "after st st"
  by (simp add: after_def)

lemma after_trans: "after a b \<Longrightarrow> after b c \<Longrightarrow> after a c"
  by (auto simp: after_def)

lemma after_tame:
  assumes "peers_wf st" "tame st st'"
  shows "after st st'"
  using tame_view(1) [OF assms(2)] tame_peers(4) [OF assms(2,1)] s_coreD [OF tame_view(6) [OF assms(2)]] assms(2) by (auto simp: after_def tame_def still_def)

lemma after_fields:
  "after st0 (st\<lparr>mg_gate := g\<rparr>) = after st0 st" "after st0 (st\<lparr>mg_repump := b\<rparr>) = after st0 st" "after st0 (st\<lparr>mg_pumping := b\<rparr>) = after st0 st"
  "after st0 (later st t) = after st0 st" "after st0 st \<Longrightarrow> after st0 (end_state st s e)"
  by (simp_all add: after_def later_def end_state_fields)

text \<open>The invariant only reads some of the state, and its parts read less.\<close>

lemma buffer_cong:
  assumes "buffer_ok cf st a" "ps_sessions (mg_pst st' a) = ps_sessions (mg_pst st a)" "ps_buffered (mg_pst st' a) = ps_buffered (mg_pst st a)"
    "ps_heldCount (mg_pst st' a) = ps_heldCount (mg_pst st a)" "held_size st' a = held_size st a" "held_count st' a = held_count st a"
    "\<And>s. s \<in> set (ps_sessions (mg_pst st a)) \<Longrightarrow> s_partialLen (mg_sess st' s) = s_partialLen (mg_sess st s)"
  shows "buffer_ok cf st' a"
proof -
  have "(\<Sum>s\<leftarrow>ps_sessions (mg_pst st a). s_partialLen (mg_sess st' s)) = (\<Sum>s\<leftarrow>ps_sessions (mg_pst st a). s_partialLen (mg_sess st s))"
    by (rule arg_cong [of _ _ sum_list], rule map_cong) (simp_all add: assms(7))
  then show ?thesis using assms(1-6) by (simp add: buffer_ok_def)
qed

lemma receiving_cong:
  assumes "receiving cf st s" "s_core (mg_sess st' s) = s_core (mg_sess st s)" "held_of st' s = held_of st s" "uncredited_of st' s = uncredited_of st s"
  shows "receiving cf st' s"
  using assms(1,3,4) s_coreD [OF assms(2)] unfolding receiving_def Let_def by metis

lemma sinv_update:
  assumes "sinv k cf st" "mg_peers st' = mg_peers st" "mg_npst st' = mg_npst st" "mg_nsess st' = mg_nsess st" "mg_byIndex st' = mg_byIndex st"
    "mg_npend st' = mg_npend st" "\<And>p. p_localIndex (mg_pend st' p) = p_localIndex (mg_pend st p)" "mg_stuck st' = mg_stuck st"
    "\<And>s. s_peer (mg_sess st' s) = s_peer (mg_sess st s) \<and> s_localIndex (mg_sess st' s) = s_localIndex (mg_sess st s) \<and> s_ended (mg_sess st' s) = s_ended (mg_sess st s)"
    "\<And>a. ps_sessions (mg_pst st' a) = ps_sessions (mg_pst st a) \<and> ps_current (mg_pst st' a) = ps_current (mg_pst st a)"
    "\<And>i a. (i, a) \<in> set (mg_peers st) \<Longrightarrow> buffer_ok cf st' a" "\<And>s. s < mg_nsess st \<Longrightarrow> receiving cf st' s" "held_ok st'" "gate_ok st'"
    "\<And>t. t \<in> set (mg_tasks st') \<Longrightarrow> task_ok st' t"
  shows "sinv k cf st'"
proof (rule sinvI)
  note D = sinvD [OF assms(1)]
  have l: "live st' = live st" using assms(4,9) by (simp add: live_def)
  show "peers_wf st'" "epi st'" "\<not> mg_stuck st'" "window_ok cf" using D assms by (simp_all add: peers_wf_def epi_def)
  show "indexed st'" using D(5) l assms(5,9) by (simp add: indexed_def)
  show "held_ok st'" "gate_ok st'" "\<And>t. t \<in> set (mg_tasks st') \<Longrightarrow> task_ok st' t" using assms(13-15) .
  show "at_peer st' s" if "s \<in> live st'" for s using D(4) [of s] that assms(9,10) by (simp add: at_peer_def l assms(2))
  show "listed k st' i a" if "(i, a) \<in> set (mg_peers st')" for i a
    using D(2) [of i a] that by (simp add: listed_def l assms(2,4,9,10))
  show "buffer_ok cf st' a" if "(i, a) \<in> set (mg_peers st')" for i a using assms(2,11) that by metis
  show "receiving cf st' s" if "s < mg_nsess st'" for s using assms(4,12) that by metis
qed

lemma sinv_same:
  assumes "sinv k cf st" "mg_peers st' = mg_peers st" "mg_npst st' = mg_npst st" "\<And>a. p_core (mg_pst st' a) = p_core (mg_pst st a)"
    "mg_nsess st' = mg_nsess st" "\<And>s. s_core (mg_sess st' s) = s_core (mg_sess st s)" "mg_byIndex st' = mg_byIndex st"
    "mg_npend st' = mg_npend st" "\<And>p. p_localIndex (mg_pend st' p) = p_localIndex (mg_pend st p)" "mg_held st' = mg_held st" "mg_stuck st' = mg_stuck st"
    "\<And>o'. o_s (mg_outs st' o') = o_s (mg_outs st o')" "\<And>o'. o' \<in> set (mg_gate st') \<Longrightarrow> \<exists>s<mg_nsess st. o_s (mg_outs st o') = Some s"
    "\<And>t. t \<in> set (mg_tasks st') \<Longrightarrow> task_ok st t"
  shows "sinv k cf st'"
proof (rule sinv_update [OF assms(1-3,5,7-9,11)])
  note D = sinvD [OF assms(1)] and c = s_coreD [OF assms(6)] and p = p_coreD [OF assms(4)]
  have h: "held_size st' b = held_size st b" "held_count st' b = held_count st b" "held_of st' x = held_of st x" "uncredited_of st' x = uncredited_of st x" for b x
    by (simp_all add: held_size_def held_count_def held_of_def uncredited_of_def assms(10))
  show "held_ok st'" using D(8) by (simp only: held_ok_def assms(2,5,10))
  show "gate_ok st'" using assms(13) by (simp add: gate_ok_def assms(5,12))
  show "task_ok st' t" if "t \<in> set (mg_tasks st')" for t by (rule task_ok_mono [OF assms(14) [OF that]]) (simp_all add: assms(5,12))
  show "buffer_ok cf st' a" if "(i, a) \<in> set (mg_peers st)" for i a
    by (rule buffer_cong [OF D(3) [OF that]]) (use c p h in simp_all)
  show "receiving cf st' s" if "s < mg_nsess st" for s
    by (rule receiving_cong [OF D(7) [OF that] assms(6)]) (simp_all add: h)
qed (use s_coreD [OF assms(6)] p_coreD [OF assms(4)] in simp_all)

lemma sinv_gate:
  assumes "sinv k cf st" "gate_ok (st\<lparr>mg_gate := g\<rparr>)"
  shows "sinv k cf (st\<lparr>mg_gate := g\<rparr>)"
  by (rule sinv_same [OF assms(1)]) (use assms sinvD(10) [OF assms(1)] in \<open>auto simp: gate_ok_def\<close>)

lemma sinv_fields:
  assumes "sinv k cf st"
  shows "sinv k cf (st\<lparr>mg_repump := b\<rparr>)" "sinv k cf (st\<lparr>mg_pumping := b\<rparr>)" "sinv k cf (st\<lparr>mg_closed := b\<rparr>)" "sinv k cf (st\<lparr>mg_roster := r\<rparr>)"
    "sinv k cf (st\<lparr>mg_stamps := ss\<rparr>)" "sinv k cf (st\<lparr>mg_limits := l\<rparr>)" "sinv k cf (st\<lparr>mg_rateBps := n\<rparr>)" "sinv k cf (st\<lparr>mg_paceTimer := b\<rparr>)"
    "sinv k cf (st\<lparr>mg_awaiting := b\<rparr>)" "sinv k cf (st\<lparr>mg_initsRead := m\<rparr>)" "sinv k cf (st\<lparr>mg_seed := m\<rparr>)" "sinv k cf (st\<lparr>mg_creditsSent := m\<rparr>)"
    "sinv k cf (st\<lparr>mg_messagesReceived := m\<rparr>)" "sinv k cf (st\<lparr>mg_calls := cs\<rparr>)" "sinv k cf (st\<lparr>mg_mono := n\<rparr>)" "sinv k cf (st\<lparr>mg_wall := n\<rparr>)"
    "sinv k cf (st\<lparr>mg_draws := ds\<rparr>)" "sinv k cf (st\<lparr>mg_connected := ans\<rparr>)" "sinv k cf (st\<lparr>mg_writable := ans\<rparr>)" "sinv k cf (st\<lparr>mg_controlFeature := b\<rparr>)"
  using sinvD(9,10) [OF assms] by (auto intro!: sinv_same [OF assms] simp: gate_ok_def)

lemma sinv_later:
  assumes "sinv k cf st" "task_ok st t"
  shows "sinv k cf (later st t)"
  by (rule sinv_same [OF assms(1)]) (use sinvD(9,10) [OF assms(1)] assms(2) in \<open>auto simp: gate_ok_def later_def\<close>)

interpretation sv: steady "\<lambda>st. sinv k cf st \<and> after st0 st" for k cf st0
proof
  fix st st' :: "('a, 'b) manager"
  assume "sinv k cf st \<and> after st0 st" "tame st st'"
  then show "sinv k cf st' \<and> after st0 st'" using sinv_tame after_tame [OF sinvD(1)] after_trans by blast
next
  fix st :: "('a, 'b) manager" and g
  assume P: "sinv k cf st \<and> after st0 st" and g: "set g \<subseteq> set (mg_gate st)"
  have "gate_ok (st\<lparr>mg_gate := g\<rparr>)" using sinvD(9) [of k cf st] P g by (simp add: gate_ok_def subset_iff)
  then show "sinv k cf (st\<lparr>mg_gate := g\<rparr>) \<and> after st0 (st\<lparr>mg_gate := g\<rparr>)" using P sinv_gate [OF conjunct1 [OF P]] by (simp add: after_fields)
next
  fix st :: "('a, 'b) manager" and o' s
  assume "sinv k cf st \<and> after st0 st" "o_s (mg_outs st o') = Some s" "s < mg_nsess st"
  then show "sinv k cf (later st (TMore o')) \<and> after st0 (later st (TMore o'))" by (auto intro!: sinv_later simp: task_ok_def after_fields)
qed (auto simp: sinv_ending after_fields sinv_fields sinvD(9))

lemma sinv_pump: "sinv k cf st \<Longrightarrow> sinv k cf (pump N cf' st) \<and> after st (pump N cf' st)"
  by (rule sv.pump) simp

lemma sinv_endSession: "sinv k cf st \<Longrightarrow> s < mg_nsess st \<Longrightarrow> sinv k cf (endSession (pump N cf') st s e) \<and> after st (endSession (pump N cf') st s e)"
  by (rule sv.endSession) simp_all

lemma sinv_transmit:
  "sinv k cf st \<Longrightarrow> s < mg_nsess st \<Longrightarrow> sinv k cf (snd (snd (transmit N (pump N cf') st s msg))) \<and> after st (snd (snd (transmit N (pump N cf') st s msg)))"
  by (rule sv.transmit) simp_all

end
