(* ===== verification/Session_Steps.thy ===== *)
theory Session_Steps
  imports Session_Invariant
begin

text \<open>
  Every operation of the session manager keeps the invariant \<open>sinv\<close>: one lemma for each, from the
  callbacks and the credit up to the frames, the roster and the sweep.
\<close>

definition keeps :: "(addr \<Rightarrow> nat) \<Rightarrow> config \<Rightarrow> ('c, 'h) manager \<Rightarrow> ('c, 'h) manager \<Rightarrow> bool" where
  "keeps k cf st st' \<longleftrightarrow> sinv k cf st' \<and> after st st'"

lemma keeps_trans [trans]: "keeps k cf a b \<Longrightarrow> keeps k cf b c \<Longrightarrow> keeps k cf a c"
  using after_trans by (auto simp: keeps_def)

lemma keeps_refl: "sinv k cf st \<Longrightarrow> keeps k cf st st"
  by (simp add: keeps_def)

lemma keepsD: "keeps k cf st st' \<Longrightarrow> sinv k cf st'" "keeps k cf st st' \<Longrightarrow> s < mg_nsess st \<Longrightarrow> s < mg_nsess st'"
  "keeps k cf st st' \<Longrightarrow> map_of (mg_peers st) i = Some a \<Longrightarrow> map_of (mg_peers st') i = Some a"
  "keeps k cf st st' \<Longrightarrow> s < mg_nsess st \<Longrightarrow> s_peer (mg_sess st' s) = s_peer (mg_sess st s)"
  "keeps k cf st st' \<Longrightarrow> s < mg_nsess st \<Longrightarrow> s_ended (mg_sess st s) \<Longrightarrow> s_ended (mg_sess st' s)"
  by (auto simp: keeps_def after_def)

lemma keeps_tame: "sinv k cf st \<Longrightarrow> tame st st' \<Longrightarrow> keeps k cf st st'"
  using sinv_tame after_tame [OF sinvD(1)] by (metis keeps_def)

lemma keeps_tame': "keeps k cf a b \<Longrightarrow> tame b c \<Longrightarrow> keeps k cf a c"
  using keeps_trans keeps_tame keepsD(1) by blast

lemma held_ok_cong: "held_ok st \<Longrightarrow> mg_held st' = mg_held st \<Longrightarrow> mg_nsess st' = mg_nsess st \<Longrightarrow> mg_peers st' = mg_peers st \<Longrightarrow> held_ok st'"
  by (simp only: held_ok_def)

lemma keeps_pump: "sinv k cf st \<Longrightarrow> keeps k cf st (pump N cf' st)"
  by (simp add: keeps_def sinv_pump)

lemma keeps_end: "sinv k cf st \<Longrightarrow> s < mg_nsess st \<Longrightarrow> keeps k cf st (endSession (pump N cf') st s e)"
  by (simp add: keeps_def sinv_endSession)

lemma keeps_transmit: "sinv k cf st \<Longrightarrow> s < mg_nsess st \<Longrightarrow> keeps k cf st (snd (snd (transmit N (pump N cf') st s msg)))"
  by (simp add: keeps_def sinv_transmit)

text \<open>Changes to fields that neither the invariant nor \<open>after\<close> reads.\<close>

lemma keeps_field:
  assumes "sinv k cf st'" "mg_nsess st' = mg_nsess st" "mg_peers st' = mg_peers st" "mg_sess st' = mg_sess st" "mg_closed st' = mg_closed st"
  shows "keeps k cf st st'"
  using assms by (simp add: keeps_def after_def)

lemmas keeps_call = keeps_tame [OF _ tame_call]
lemmas keeps_sendFrame = keeps_tame [OF _ tame_sendFrame]
lemmas keeps_initiate = keeps_tame [OF _ tame_initiate]
lemmas keeps_maybeRekey = keeps_tame [OF _ tame_maybeRekey]
lemmas keeps_finishOut = keeps_tame [OF _ tame_finishOut]
lemmas keeps_failPending = keeps_tame [OF _ tame_failPending]

section \<open>Finding a session\<close>

lemma current_valid:
  assumes "sinv k cf st" "map_of (mg_peers st) i = Some a" "ps_current (mg_pst st a) = Some c"
  shows "c < mg_nsess st"
  using sinvD(2) [OF assms(1) map_of_SomeD [OF assms(2)]] assms(3) by (simp add: listed_def)

lemma keeps_ensureSession:
  assumes "sinv k cf st"
  shows "keeps k cf st (ensureSession N cf' st i cb)"
proof (cases "case map_of (mg_peers st) i of None \<Rightarrow> None | Some a \<Rightarrow> ps_current (mg_pst st a)")
  case None
  then show ?thesis using keeps_initiate [OF assms] by (simp add: ensureSession_def)
next
  case (Some c)
  then have c: "c < mg_nsess st" using current_valid [OF assms] by (auto split: option.splits)
  let ?e = "if crossing st c then upd_s st c (\<lambda>x. x\<lparr>s_retired := True\<rparr>) else endSession (pump N cf') st c (closedError (''session with '' @ i @ '' expired''))"
  have "keeps k cf st ?e"
    using keeps_tame [OF assms tame_upd_s [of "\<lambda>x. x\<lparr>s_retired := True\<rparr>"]] keeps_end [OF assms c] by (simp add: s_core_def)
  then have 1: "keeps k cf st (initiate N ?e i cb)" using keeps_trans [OF _ keeps_initiate] keepsD(1) by blast
  have m: "keeps k cf st (maybeRekey N cf' st c)" by (rule keeps_maybeRekey [OF assms])
  have "keeps k cf (maybeRekey N cf' st c) (later (maybeRekey N cf' st c) (TCall cb (Some c) None))"
    using sinv_later [OF keepsD(1) [OF m], of "TCall cb (Some c) None"] keepsD(2) [OF m c] by (intro keeps_field) (simp_all add: task_ok_def later_def)
  then have 2: "keeps k cf st (later (maybeRekey N cf' st c) (TCall cb (Some c) None))" by (rule keeps_trans [OF m])
  show ?thesis using 1 2 keeps_initiate [OF assms] Some by (simp add: ensureSession_def)
qed

lemma keeps_startHead:
  assumes "sinv k cf st"
  shows "keeps k cf st (startHead N cf' st a)"
proof -
  let ?t = "upd_p st a (\<lambda>ps. ps\<lparr>ps_queue := dropWhile (\<lambda>o'. o_finished (mg_outs st o')) (ps_queue ps)\<rparr>)"
  have t: "keeps k cf st ?t" by (rule keeps_tame [OF assms tame_upd_p]) (simp add: p_core_def)
  have "keeps k cf st (ensureSession N cf' (upd_o ?t o' (\<lambda>x. x\<lparr>o_running := True\<rparr>)) i cb)" for o' i cb
  proof -
    have "keeps k cf ?t (upd_o ?t o' (\<lambda>x. x\<lparr>o_running := True\<rparr>))" by (rule keeps_tame [OF keepsD(1) [OF t] tame_upd_o]) simp
    then show ?thesis using keeps_trans [OF t] keeps_trans keeps_ensureSession keepsD(1) by blast
  qed
  then show ?thesis using t by (simp add: startHead_def Let_def split: list.split)
qed

lemma keeps_sendControl: "sinv k cf st \<Longrightarrow> keeps k cf st (sendControl N cf' st i msg n)"
  using keeps_ensureSession keeps_tame [OF _ tame_later, of k cf st "TTell n (Some (closedError []))"] by (auto simp: sendControl_def quiet_task_def)

section \<open>Tasks\<close>

lemma keeps_to_gate:
  assumes "sinv k cf st" "o_s (mg_outs st o') = Some s" "s < mg_nsess st"
  shows "keeps k cf st (to_gate N cf' st o')"
proof -
  have "gate_ok (st\<lparr>mg_gate := mg_gate st @ [o']\<rparr>)" using sinvD(9) [OF assms(1)] assms(2,3) by (simp add: gate_ok_def)
  then have g: "sinv k cf (st\<lparr>mg_gate := mg_gate st @ [o']\<rparr>)" by (rule sinv_gate [OF assms(1)])
  then have "keeps k cf st (st\<lparr>mg_gate := mg_gate st @ [o']\<rparr>)" by (rule keeps_field) simp_all
  then show ?thesis unfolding to_gate_def by (rule keeps_trans) (rule keeps_pump [OF g])
qed

lemma sinv_bind:
  assumes "sinv k cf st" "s < mg_nsess st"
  shows "sinv k cf (upd_o st o' (\<lambda>x. x\<lparr>o_s := Some s\<rparr>))"
proof (rule sinv_update [OF assms(1)])
  let ?t = "upd_o st o' (\<lambda>x. x\<lparr>o_s := Some s\<rparr>)"
  note D = sinvD [OF assms(1)]
  have h: "held_size ?t b = held_size st b" "held_count ?t b = held_count st b" "held_of ?t x = held_of st x" "uncredited_of ?t x = uncredited_of st x" for b x
    by (simp_all add: held_size_def held_count_def held_of_def uncredited_of_def upd_o_def)
  show "held_ok ?t" by (rule held_ok_cong [OF D(8)]) (simp_all add: upd_o_def)
  show "gate_ok ?t" using D(9) assms(2) by (auto simp: gate_ok_def upd_o_def)
  show "task_ok ?t t" if "t \<in> set (mg_tasks ?t)" for t
    using D(10) [of t] that assms(2) by (auto simp: task_ok_def upd_o_def split: task.splits option.splits)
  show "buffer_ok cf ?t a" if "(i, a) \<in> set (mg_peers st)" for i a
    by (rule buffer_cong [OF D(3) [OF that]]) (simp_all add: h, simp_all add: upd_o_def)
  show "receiving cf ?t x" if "x < mg_nsess st" for x
    by (rule receiving_cong [OF D(7) [OF that]]) (simp_all add: h, simp_all add: upd_o_def)
qed (simp_all add: upd_o_def)

lemma keeps_callback:
  assumes "sinv k cf st" "task_ok st (TCall cb os oe)"
  shows "keeps k cf st (run_callback N cf' st cb os oe)"
proof (cases cb)
  case (CbHead o')
  have "keeps k cf st (to_gate N cf' (upd_s (upd_o st o' (\<lambda>x. x\<lparr>o_s := Some s\<rparr>)) s (\<lambda>x. x\<lparr>s_activeSends := s_activeSends x + 1\<rparr>)) o')" if s: "s < mg_nsess st" for s
  proof -
    let ?a = "upd_o st o' (\<lambda>x. x\<lparr>o_s := Some s\<rparr>)"
    let ?b = "upd_s ?a s (\<lambda>x. x\<lparr>s_activeSends := s_activeSends x + 1\<rparr>)"
    have a: "keeps k cf st ?a" by (rule keeps_field [OF sinv_bind [OF assms(1) s]]) (simp_all add: upd_o_def)
    have b: "keeps k cf ?a ?b" by (rule keeps_tame [OF keepsD(1) [OF a] tame_upd_s]) (simp add: s_core_def)
    have "keeps k cf ?b (to_gate N cf' ?b o')" by (rule keeps_to_gate [OF keepsD(1) [OF b], of o' s]) (simp_all add: upd_o_def upd_s_def s)
    then show ?thesis using keeps_trans a b by blast
  qed
  then show ?thesis using assms keeps_refl [OF assms(1)] keeps_finishOut [OF assms(1)]
    by (auto simp: CbHead task_ok_def split: option.splits)
next
  case (CbControl msg n)
  have "keeps k cf st (case transmit N (pump N cf') st s msg of (ok, e, st) \<Rightarrow> call st (Told n e))" if "s < mg_nsess st" for s
  proof -
    obtain ok e st' where t: "transmit N (pump N cf') st s msg = (ok, e, st')" by (metis prod_cases3)
    then have "keeps k cf st st'" using keeps_transmit [OF assms(1) that, of N cf' msg] by simp
    then show ?thesis using t keeps_tame' [OF _ tame_call] by simp
  qed
  then show ?thesis using assms keeps_call [OF assms(1)] by (auto simp: CbControl task_ok_def split: option.splits)
next
  case CbNone
  then show ?thesis using keeps_refl [OF assms(1)] by simp
qed

lemma keeps_task:
  assumes "sinv k cf st" "task_ok st t"
  shows "keeps k cf st (run_task N cf' st t)"
proof (cases t)
  case (TMore o')
  then show ?thesis using assms(2) keeps_to_gate [OF assms(1)] keeps_refl [OF assms(1)] by (auto simp: task_ok_def split: option.splits)
qed (use assms keeps_startHead keeps_callback keeps_finishOut keeps_call in auto)

lemma keeps_next_task:
  assumes "sinv k cf st"
  shows "keeps k cf st (next_task N cf' st)"
proof (cases "mg_tasks st")
  case Nil
  then show ?thesis using keeps_refl [OF assms] by (simp add: next_task_def)
next
  case (Cons t ts)
  let ?a = "st\<lparr>mg_tasks := ts\<rparr>"
  have a: "sinv k cf ?a" by (rule sinv_same [OF assms]) (use sinvD(9,10) [OF assms] Cons in \<open>simp_all add: gate_ok_def\<close>)
  have "task_ok ?a t" by (rule task_ok_mono [OF sinvD(10) [OF assms]]) (simp_all add: Cons)
  then have "keeps k cf ?a (run_task N cf' ?a t)" by (rule keeps_task [OF a])
  moreover have "keeps k cf st ?a" by (rule keeps_field [OF a]) simp_all
  ultimately show ?thesis using keeps_trans by (simp add: next_task_def Cons) blast
qed

section \<open>Credit\<close>

lemma held_same:
  assumes "mg_held st' = mg_held st"
  shows "held_size st' b = held_size st b" "held_count st' b = held_count st b" "held_of st' x = held_of st x" "uncredited_of st' x = uncredited_of st x"
  by (simp_all add: held_size_def held_count_def held_of_def uncredited_of_def assms)

lemma sinv_upd_recv:
  assumes "sinv k cf st" "receiving cf (upd_s st s f) s"
    and f: "s_peer (f (mg_sess st s)) = s_peer (mg_sess st s)" "s_localIndex (f (mg_sess st s)) = s_localIndex (mg_sess st s)"
      "s_ended (f (mg_sess st s)) = s_ended (mg_sess st s)" "s_partialLen (f (mg_sess st s)) = s_partialLen (mg_sess st s)"
  shows "sinv k cf (upd_s st s f)"
proof (rule sinv_update [OF assms(1)])
  let ?t = "upd_s st s f"
  note D = sinvD [OF assms(1)]
  have h: "mg_held ?t = mg_held st" by (simp add: upd_s_def)
  show "held_ok ?t" by (rule held_ok_cong [OF D(8)]) (simp_all add: upd_s_def)
  show "gate_ok ?t" using D(9) by (simp add: gate_ok_def upd_s_def)
  show "task_ok ?t t" if "t \<in> set (mg_tasks ?t)" for t
    by (rule task_ok_mono [OF D(10)]) (use that in \<open>simp_all add: upd_s_def\<close>)
  show "buffer_ok cf ?t a" if "(i, a) \<in> set (mg_peers st)" for i a
    by (rule buffer_cong [OF D(3) [OF that]]) (simp_all add: held_same [OF h], simp_all add: upd_s_def f)
  show "receiving cf ?t x" if "x < mg_nsess st" for x
  proof (cases "x = s")
    case False
    show ?thesis by (rule receiving_cong [OF D(7) [OF that]]) (simp_all add: held_same [OF h], simp_all add: upd_s_def False)
  qed (simp add: assms(2))
qed (simp_all add: upd_s_def f)

lemma keeps_upd_recv:
  assumes "sinv k cf st" "receiving cf (upd_s st s f) s"
    and f: "s_peer (f (mg_sess st s)) = s_peer (mg_sess st s)" "s_localIndex (f (mg_sess st s)) = s_localIndex (mg_sess st s)"
      "s_ended (f (mg_sess st s)) = s_ended (mg_sess st s)" "s_partialLen (f (mg_sess st s)) = s_partialLen (mg_sess st s)"
  shows "keeps k cf st (upd_s st s f)"
  using sinv_upd_recv [OF assms] f by (simp add: keeps_def after_def upd_s_def)

text \<open>Credit goes from what is owed to what the peer may send.\<close>

lemma keeps_grant:
  assumes "sinv k cf st" "s \<in> live st" "0 \<le> n" "n \<le> s_owed (mg_sess st s)"
  shows "keeps k cf st (upd_s st s (\<lambda>x. x\<lparr>s_owed := s_owed x - n, s_allowance := s_allowance x + n\<rparr>))"
proof (rule keeps_upd_recv [OF assms(1)])
  let ?t = "upd_s st s (\<lambda>x. x\<lparr>s_owed := s_owed x - n, s_allowance := s_allowance x + n\<rparr>)"
  have h: "mg_held ?t = mg_held st" by (simp add: upd_s_def)
  show "receiving cf ?t s"
    using sinvD(7) [OF assms(1), of s] assms(2-4) by (simp add: receiving_def Let_def held_same [OF h]) (simp add: upd_s_def live_def)
qed simp_all

lemma transmit_ok:
  assumes "transmit N pm st s msg = (True, e, st')"
  shows "tame st st'" "\<not> s_ended (mg_sess st s)"
  using assms by (cases rule: transmit_cases, simp_all)+

lemma keeps_send_credit:
  "sinv k cf st \<Longrightarrow> s \<in> live st \<Longrightarrow> int owed \<le> s_owed (mg_sess st s) \<Longrightarrow> keeps k cf st (send_credit N cf' owed st s)"
proof (induction owed arbitrary: st rule: less_induct)
  case (less owed)
  show ?case
  proof (cases "owed = 0")
    case True
    then show ?thesis using keeps_refl [OF less.prems(1)] by (simp add: send_credit.simps)
  next
    case False
    define n where "n = min owed 0xffffffff"
    define a where "a = upd_s st s (\<lambda>x. x\<lparr>s_owed := s_owed x - int n, s_allowance := s_allowance x + int n\<rparr>)"
    define b where "b = a\<lparr>mg_creditsSent := Suc (mg_creditsSent a)\<rparr>"
    have n: "0 < n" "n \<le> owed" using False by (auto simp: n_def)
    have ka: "keeps k cf st a" unfolding a_def by (rule keeps_grant [OF less.prems(1,2)]) (use n less.prems(3) in simp_all)
    have kb: "keeps k cf st b" by (rule keeps_trans [OF ka]) (rule keeps_field, simp_all add: b_def sinv_fields keepsD(1) [OF ka])
    have s: "s < mg_nsess b" "s \<in> live b" "s_owed (mg_sess b s) = s_owed (mg_sess st s) - int n"
      using less.prems(2) by (simp_all add: b_def a_def upd_s_def live_def)
    obtain ok e c where t: "transmit N (pump N cf') b s (sm_credit (word_of_nat n)) = (ok, e, c)" by (metis prod_cases3)
    have kc: "keeps k cf b c" using keeps_transmit [OF keepsD(1) [OF kb] s(1), of N cf' "sm_credit (word_of_nat n)"] t by simp
    have eq: "send_credit N cf' owed st s = (if ok then send_credit N cf' (owed - n) c s else c)"
      using False t by (subst send_credit.simps) (simp add: Let_def n_def [symmetric] a_def [symmetric] b_def [symmetric])
    show ?thesis
    proof (cases ok)
      case True
      have tc: "tame b c" using t True by (intro transmit_ok(1)) simp
      have "s \<in> live c" "s_owed (mg_sess c s) = s_owed (mg_sess b s)" using tame_view(3) [OF tc] s(2) s_coreD [OF tame_view(6) [OF tc]] by simp_all
      then have "keeps k cf c (send_credit N cf' (owed - n) c s)" using n less.prems(3) s(3) by (intro less.IH keepsD(1) [OF kc]) simp_all
      then show ?thesis using eq True keeps_trans [OF kb] keeps_trans [OF kc] by simp
    next
      case False
      then show ?thesis using eq keeps_trans [OF kb kc] by simp
    qed
  qed
qed

lemma keeps_flushCredit:
  assumes "sinv k cf st" "s < mg_nsess st"
  shows "keeps k cf st (flushCredit N cf' st s now)"
proof (cases "s_ended (mg_sess st s) \<or> s_owed (mg_sess st s) \<le> 0")
  case True
  then show ?thesis using keeps_refl [OF assms(1)] by (simp add: flushCredit_def)
next
  case False
  have k: "keeps k cf st (upd_s st s (\<lambda>x. x\<lparr>s_creditTimer := b\<rparr>))" for b
    by (rule keeps_tame [OF assms(1) tame_upd_s]) (simp add: s_core_def)
  let ?t = "upd_s st s (\<lambda>x. x\<lparr>s_creditTimer := False\<rparr>)"
  have "keeps k cf ?t (send_credit N cf' (nat (s_owed (mg_sess st s))) ?t s)"
    by (rule keeps_send_credit [OF keepsD(1) [OF k]]) (use False assms(2) in \<open>simp_all add: upd_s_def live_def\<close>)
  then show ?thesis using k keeps_trans [OF k] False by (simp add: flushCredit_def Let_def)
qed

lemma keeps_credit_due:
  assumes "sinv k cf st" "s < mg_nsess st"
  shows "keeps k cf st (credit_due N cf' st s)"
proof -
  have k: "keeps k cf st (upd_s st s (\<lambda>x. x\<lparr>s_creditTimer := False\<rparr>))"
    by (rule keeps_tame [OF assms(1) tame_upd_s]) (simp add: s_core_def)
  show ?thesis unfolding credit_due_def by (rule keeps_trans [OF k keeps_flushCredit [OF keepsD(1) [OF k] keepsD(2) [OF k assms(2)]]])
qed

section \<open>Sessions made\<close>

text \<open>A session that has received nothing joins its peer's, under an index no session has.\<close>

definition register_session :: "('c, 'h) manager \<Rightarrow> addr \<Rightarrow> 'c session \<Rightarrow> ('c, 'h) manager" where
  "register_session st a x = st\<lparr>mg_sess := (mg_sess st)(mg_nsess st := x), mg_nsess := Suc (mg_nsess st), mg_byIndex := (mg_byIndex st)(s_localIndex x \<mapsto> ES (mg_nsess st)),
     mg_pst := (mg_pst st)(a := (mg_pst st a)\<lparr>ps_sessions := ps_sessions (mg_pst st a) @ [mg_nsess st]\<rparr>)\<rparr>"

lemma register_fields:
  "mg_peers (register_session st a x) = mg_peers st" "mg_npst (register_session st a x) = mg_npst st" "mg_nsess (register_session st a x) = Suc (mg_nsess st)"
  "mg_sess (register_session st a x) = (mg_sess st)(mg_nsess st := x)" "mg_byIndex (register_session st a x) = (mg_byIndex st)(s_localIndex x \<mapsto> ES (mg_nsess st))"
  "mg_pst (register_session st a x) = (mg_pst st)(a := (mg_pst st a)\<lparr>ps_sessions := ps_sessions (mg_pst st a) @ [mg_nsess st]\<rparr>)"
  "mg_held (register_session st a x) = mg_held st" "mg_gate (register_session st a x) = mg_gate st" "mg_closed (register_session st a x) = mg_closed st" "mg_outs (register_session st a x) = mg_outs st" "mg_tasks (register_session st a x) = mg_tasks st"
  "mg_stuck (register_session st a x) = mg_stuck st" "mg_npend (register_session st a x) = mg_npend st" "mg_pend (register_session st a x) = mg_pend st"
  by (simp_all add: register_session_def)

lemma live_register: "\<not> s_ended x \<Longrightarrow> live (register_session st a x) = insert (mg_nsess st) (live st)"
  by (auto simp: live_def register_fields)

definition fresh_session :: "config \<Rightarrow> 'c session \<Rightarrow> bool" where
  "fresh_session cf x \<longleftrightarrow> \<not> s_ended x \<and> s_partial x = ([], 0) \<and> s_partialLen x = 0 \<and> s_partialCredited x = 0 \<and> s_held x = 0 \<and> 0 \<le> s_owed x \<and> 0 \<le> s_allowance x
     \<and> s_allowance x + s_owed x = cf_window cf"

lemma sinv_register:
  assumes inv: "sinv k cf st" and a: "(s_peer x, a) \<in> set (mg_peers st)" and x: "fresh_session cf x"
    and i: "\<And>y. mg_byIndex st (s_localIndex x) \<noteq> Some (ES y)"
  shows "sinv (k(a := Suc (k a))) cf (register_session st a x)"
proof (rule sinvI)
  let ?t = "register_session st a x" and ?n = "mg_nsess st"
  note D = sinvD [OF inv] and f = register_fields [of st a x] and P = peer_addr [OF D(1)] and h = held_same [OF register_fields(7)]
  have ne: "\<not> s_ended x" using x by (simp add: fresh_session_def)
  note l = live_register [OF ne, of st a]
  have lt: "y < ?n" if "y \<in> live st" for y using that by (simp add: live_def)
  have old: "y < ?n" if "(j, b) \<in> set (mg_peers st)" "y \<in> set (ps_sessions (mg_pst st b))" for j b y
    using D(2) [OF that(1)] that(2) by (auto simp: listed_def live_def)
  show "peers_wf ?t" "\<not> mg_stuck ?t" "window_ok cf" using D by (simp_all add: peers_wf_def f)
  show "gate_ok ?t" using D(9) by (auto simp: gate_ok_def f intro: less_SucI)
  show "held_ok ?t" using D(8) by (auto simp: held_ok_def f(1,3,7))
  show "epi ?t" using D(6) by (auto simp: epi_def f)
  show "indexed ?t"
  proof -
    have b: "mg_byIndex st j = Some (ES y) \<longleftrightarrow> y \<in> live st \<and> s_localIndex (mg_sess st y) = j" for j y using D(5) by (simp add: indexed_def)
    show ?thesis unfolding indexed_def l f(4,5) using b i lt by (auto split: if_splits)
  qed
  show "task_ok ?t t" if "t \<in> set (mg_tasks ?t)" for t
    by (rule task_ok_mono [OF D(10)]) (use that in \<open>simp_all add: f\<close>)
  show "receiving cf ?t y" if "y < mg_nsess ?t" for y
  proof (cases "y = ?n")
    case True
    have "filter (\<lambda>h. h_s h = ?n) (mg_held st) = []" using D(8) by (auto simp: held_ok_def filter_empty_conv)
    then have "held_of st ?n = 0" "uncredited_of st ?n = 0" by (simp_all add: held_of_def uncredited_of_def)
    then show ?thesis using x slice_nil by (simp add: True receiving_def h f(4) Let_def fresh_session_def MaxMessage_def)
  next
    case False
    show ?thesis by (rule receiving_cong [OF D(7)]) (use that False in \<open>simp_all add: f h\<close>)
  qed
  show "at_peer ?t y" if "y \<in> live ?t" for y
  proof (cases "y = ?n")
    case True
    then show ?thesis using a by (auto simp: at_peer_def f(1,4,6) intro!: exI [of _ a])
  next
    case False
    then have "at_peer st y" using D(4) that l by simp
    then show ?thesis using False by (auto simp: at_peer_def f(1,4,6))
  qed
  have "listed (k(a := Suc (k a))) ?t j b \<and> buffer_ok cf ?t b" if "(j, b) \<in> set (mg_peers ?t)" for j b
  proof -
    have jb: "(j, b) \<in> set (mg_peers st)" using that by (simp add: f)
    note L = D(2) [OF jb, unfolded listed_def] and B = D(3) [OF jb]
    have o: "y \<noteq> ?n" if "y \<in> set (ps_sessions (mg_pst st b))" for y using old [OF jb that] by simp
    have sum: "(\<Sum>y\<leftarrow>ps_sessions (mg_pst st b). s_partialLen (mg_sess ?t y)) = (\<Sum>y\<leftarrow>ps_sessions (mg_pst st b). s_partialLen (mg_sess st y))"
      by (rule arg_cong [of _ _ sum_list], rule map_cong) (use o in \<open>auto simp: f(4)\<close>)
    show ?thesis
    proof (cases "b = a")
      case True
      have j: "j = s_peer x" using P(2) [OF a] jb True by simp
      have "buffer_ok cf ?t a" using B sum x True by (simp add: buffer_ok_def f(6) h) (simp add: f(4) fresh_session_def)
      moreover have "listed (k(a := Suc (k a))) ?t j a"
        using L o True j by (auto simp: listed_def f(3,4,6) l lt)
      ultimately show ?thesis using True by simp
    next
      case False
      have "buffer_ok cf ?t b" using B sum False by (simp add: buffer_ok_def f(6) h)
      moreover have "listed (k(a := Suc (k a))) ?t j b" using L False o by (auto simp: listed_def f(3,4,6) l lt)
      ultimately show ?thesis by simp
    qed
  qed
  then show "\<And>j b. (j, b) \<in> set (mg_peers ?t) \<Longrightarrow> listed (k(a := Suc (k a))) ?t j b" "\<And>j b. (j, b) \<in> set (mg_peers ?t) \<Longrightarrow> buffer_ok cf ?t b" by blast+
qed

lemma sinv_tight:
  assumes "sinv k cf st" "length (ps_sessions (mg_pst st a)) \<le> n"
  shows "sinv (k(a := n)) cf st"
proof (rule sinvI)
  show "listed (k(a := n)) st i b" if "(i, b) \<in> set (mg_peers st)" for i b
    using sinvD(2) [OF assms(1) that] assms(2) by (simp add: listed_def)
qed (use sinvD [OF assms(1)] in simp_all)

lemma keeps_end_listed:
  assumes "sinv k cf st" "s \<in> live st" "(s_peer (mg_sess st s), a) \<in> set (mg_peers st)"
  shows "keeps (k(a := k a - 1)) cf st (endSession (pump N cf') st s e)"
proof -
  have e: "sinv (k(a := k a - 1)) cf (end_state st s e)" by (rule sinv_end [OF assms])
  have "endSession (pump N cf') st s e = pump N cf' (end_state st s e)" using assms(2) by (simp add: endSession_def live_def)
  moreover have "after st (end_state st s e)" by (simp add: after_fields)
  ultimately show ?thesis using sinv_pump [OF e, of N cf'] after_trans by (metis keeps_def)
qed

lemma keeps_trim:
  assumes "sinv (k(a := maxSessionsPerPeer + fuel)) cf st" "map_of (mg_peers st) i = Some a" "k a = maxSessionsPerPeer"
  shows "keeps k cf st (trim_sessions N cf' fuel st a i)"
  using assms
proof (induction fuel arbitrary: st)
  case 0
  have "k(a := maxSessionsPerPeer) = k" using 0(3) by auto
  then have inv: "sinv k cf st" using 0(1) by simp
  have "length (ps_sessions (mg_pst st a)) \<le> maxSessionsPerPeer" using sinvD(2) [OF inv map_of_SomeD [OF 0(2)]] 0(3) by (simp add: listed_def)
  then show ?case using keeps_refl [OF inv] by (simp add: trim_sessions.simps)
next
  case (Suc fuel)
  note ia = map_of_SomeD [OF Suc.prems(2)]
  let ?ss = "ps_sessions (mg_pst st a)"
  show ?case
  proof (cases "length ?ss > maxSessionsPerPeer")
    case False
    then have "sinv ((k(a := maxSessionsPerPeer + Suc fuel))(a := maxSessionsPerPeer)) cf st" by (intro sinv_tight [OF Suc.prems(1)]) simp
    moreover have "(k(a := maxSessionsPerPeer + Suc fuel))(a := maxSessionsPerPeer) = k" using Suc.prems(3) by auto
    ultimately have "sinv k cf st" by metis
    then show ?thesis using keeps_refl False by (simp add: trim_sessions.simps)
  next
    case True
    define old where "old = (if ps_current (mg_pst st a) = Some (?ss ! 0) then ?ss ! 1 else ?ss ! 0)"
    let ?t = "endSession (pump N cf') st old (closedError (''too many sessions with '' @ i))"
    have "old \<in> set ?ss" using True by (auto simp: old_def maxSessionsPerPeer_def intro!: nth_mem)
    then have old: "old \<in> live st" "s_peer (mg_sess st old) = i" using sinvD(2) [OF Suc.prems(1) ia] by (simp_all add: listed_def)
    define K where "K = k(a := maxSessionsPerPeer + Suc fuel)"
    have K: "K(a := K a - 1) = k(a := maxSessionsPerPeer + fuel)" by (auto simp: K_def)
    have "sinv K cf st" unfolding K_def by (rule Suc.prems(1))
    then have "keeps (K(a := K a - 1)) cf st ?t" by (rule keeps_end_listed) (use old ia in simp_all)
    then have t: "keeps (k(a := maxSessionsPerPeer + fuel)) cf st ?t" unfolding K .
    have "keeps k cf ?t (trim_sessions N cf' fuel ?t a i)" using Suc.IH [OF keepsD(1) [OF t] keepsD(3) [OF t Suc.prems(2)] Suc.prems(3)] .
    then have "keeps k cf st (trim_sessions N cf' fuel ?t a i)" using t after_trans by (auto simp: keeps_def)
    then show ?thesis using True by (subst trim_sessions.simps) (simp add: Let_def old_def)
  qed
qed

lemma sinv_current:
  assumes inv: "sinv k cf st" and "map_of (mg_peers st) i = Some a" "s < mg_nsess st" "s_peer (mg_sess st s) = i"
  shows "sinv k cf (upd_p st a (\<lambda>ps. ps\<lparr>ps_current := Some s\<rparr>))"
proof (rule sinvI)
  let ?t = "upd_p st a (\<lambda>ps. ps\<lparr>ps_current := Some s\<rparr>)"
  note D = sinvD [OF inv] and ia = map_of_SomeD [OF assms(2)]
  have l: "live ?t = live st" by (simp add: live_def upd_p_def)
  have h: "mg_held ?t = mg_held st" by (simp add: upd_p_def)
  have s: "s \<in> set (ps_sessions (mg_pst st a))" if "s \<in> live st"
    using D(4) [OF that] peer_addr(3) [OF D(1) ia] assms(4) by (auto simp: at_peer_def)
  show "peers_wf ?t" "epi ?t" "\<not> mg_stuck ?t" "window_ok cf" using D by (simp_all add: peers_wf_def epi_def upd_p_def)
  show "indexed ?t" using D(5) l by (simp add: indexed_def) (simp add: upd_p_def)
  show "held_ok ?t" by (rule held_ok_cong [OF D(8)]) (simp_all add: upd_p_def)
  show "gate_ok ?t" using D(9) by (simp add: gate_ok_def upd_p_def)
  show "task_ok ?t t" if "t \<in> set (mg_tasks ?t)" for t by (rule task_ok_mono [OF D(10)]) (use that in \<open>simp_all add: upd_p_def\<close>)
  show "at_peer ?t x" if "x \<in> live ?t" for x
  proof -
    have "at_peer st x" using D(4) that l by simp
    then obtain b where "(s_peer (mg_sess st x), b) \<in> set (mg_peers st)" "x \<in> set (ps_sessions (mg_pst st b))" by (auto simp: at_peer_def)
    then show ?thesis by (auto simp: at_peer_def upd_p_def intro!: exI [of _ b])
  qed
  show "listed k ?t j b" if "(j, b) \<in> set (mg_peers ?t)" for j b
    using D(2) [of j b] that s assms(3) unfolding listed_def l by (cases "b = a") (auto simp: upd_p_def)
  show "buffer_ok cf ?t b" if "(j, b) \<in> set (mg_peers ?t)" for j b
    by (rule buffer_cong [OF D(3) [of j b]]) (use that in \<open>simp_all add: held_same [OF h]\<close>, simp_all add: upd_p_def)
  show "receiving cf ?t x" if "x < mg_nsess ?t" for x
    by (rule receiving_cong [OF D(7)]) (use that in \<open>simp_all add: held_same [OF h]\<close>, simp_all add: upd_p_def)
qed

lemma peer_result:
  assumes "peer st i = (a, u)"
  shows "map_of (mg_peers u) i = Some a" "tame st u" "mg_sess u = mg_sess st" "mg_nsess u = mg_nsess st" "mg_byIndex u = mg_byIndex st"
  using assms tame_peer [of st i] by (auto simp: peer_def map_add_Some_iff split: option.splits)

text \<open>The state in which \<open>adopt\<close> has registered a new session and counted the window's excess as owed.\<close>

lemma adopt_eq:
  assumes new: "newSession st i li rem ini tx rx = (s, st1)" and p: "peer st i = (a, u)" and w: "window_ok cf"
  obtains x where "fresh_session cf x" "s_peer x = i" "s_localIndex x = li" "s = mg_nsess u"
    "adopt N cf st1 s =
       (let st = (if cf_window cf - InitialCredit > 0 then flushCredit N cf (register_session u a x) s False else register_session u a x);
            prev = ps_current (mg_pst st a);
            st = upd_p st a (\<lambda>ps. ps\<lparr>ps_current := Some s\<rparr>);
            st = (case prev of None \<Rightarrow> st
                  | Some q \<Rightarrow> if q \<noteq> s then upd_s st q (\<lambda>x. x\<lparr>s_retired := True, s_lastActivity := max (s_lastActivity x) (mg_mono st)\<rparr>) else st)
        in trim_sessions N cf (length (ps_sessions (mg_pst st a))) st a i)"
proof -
  note pr = peer_result [OF p]
  let ?extra = "cf_window cf - InitialCredit"
  define x0 where "x0 = mg_sess st1 s"
  have s: "s = mg_nsess st" and st1: "st1 = st\<lparr>mg_sess := (mg_sess st)(mg_nsess st := x0), mg_nsess := Suc (mg_nsess st)\<rparr>"
    using new by (auto simp: newSession_def Let_def x0_def)
  have x0: "s_peer x0 = i" "s_localIndex x0 = li" "s_owed x0 = 0" "fresh_session cf (x0\<lparr>s_owed := ?extra\<rparr>)"
    using new w by (auto simp: newSession_def Let_def x0_def fresh_session_def InitialCredit_def window_ok_def)
  have x00: "x0\<lparr>s_owed := 0\<rparr> = x0" using x0(3) by simp
  define u1 where "u1 = u\<lparr>mg_sess := (mg_sess st)(mg_nsess st := x0), mg_nsess := Suc (mg_nsess st)\<rparr>"
  have p1: "peer st1 i = (a, u1)" using p by (auto simp: peer_def st1 u1_def split: option.splits)
  have r: "upd_p (u1\<lparr>mg_byIndex := (mg_byIndex u1)(li \<mapsto> ES s)\<rparr>) a (\<lambda>ps. ps\<lparr>ps_sessions := ps_sessions ps @ [s]\<rparr>) = register_session u a x0"
    using pr(3,4) x0(2) by (simp add: register_session_def upd_p_def u1_def s)
  have r': "upd_s (register_session u a x0) s (\<lambda>x. x\<lparr>s_owed := s_owed x + ?extra\<rparr>) = register_session u a (x0\<lparr>s_owed := ?extra\<rparr>)"
    using pr(4) x0(3) by (simp add: register_session_def upd_s_def s)
  have e: "register_session u a x0 = register_session u a (x0\<lparr>s_owed := ?extra\<rparr>)" if "\<not> ?extra > 0"
  proof -
    have "?extra = 0" using that w by (simp add: window_ok_def)
    then show ?thesis using x00 by simp
  qed
  have sx: "mg_sess u1 s = x0" "s_peer (mg_sess st1 s) = i" using x0(1) by (simp_all add: u1_def s st1)
  show ?thesis
  proof (rule that [OF x0(4)])
    show "s_peer (x0\<lparr>s_owed := ?extra\<rparr>) = i" "s_localIndex (x0\<lparr>s_owed := ?extra\<rparr>) = li" "s = mg_nsess u" using x0(1,2) s pr(4) by simp_all
    show "adopt N cf st1 s =
       (let st = (if ?extra > 0 then flushCredit N cf (register_session u a (x0\<lparr>s_owed := ?extra\<rparr>)) s False else register_session u a (x0\<lparr>s_owed := ?extra\<rparr>));
            prev = ps_current (mg_pst st a);
            st = upd_p st a (\<lambda>ps. ps\<lparr>ps_current := Some s\<rparr>);
            st = (case prev of None \<Rightarrow> st
                  | Some q \<Rightarrow> if q \<noteq> s then upd_s st q (\<lambda>x. x\<lparr>s_retired := True, s_lastActivity := max (s_lastActivity x) (mg_mono st)\<rparr>) else st)
        in trim_sessions N cf (length (ps_sessions (mg_pst st a))) st a i)"
      unfolding adopt_def sx Let_def p1 prod.case x0(2) r r' by (cases "?extra > 0") (simp_all only: if_True if_False e not_False_eq_True)
  qed
qed

lemma keeps_adopt:
  assumes inv: "sinv k cf st" and k: "\<And>b. k b = maxSessionsPerPeer" and new: "newSession st i li rem ini tx rx = (s, st1)"
    and free: "\<And>y. mg_byIndex st li \<noteq> Some (ES y)" and open': "\<not> mg_closed st"
  shows "keeps k cf st (adopt N cf st1 s)" "s < mg_nsess (adopt N cf st1 s)"
proof -
  obtain a u where p: "peer st i = (a, u)" by fastforce
  note pr = peer_result [OF p]
  have ku: "keeps k cf st u" by (rule keeps_tame [OF inv pr(2)])
  obtain x where x: "fresh_session cf x" "s_peer x = i" "s_localIndex x = li" "s = mg_nsess u"
    and eq: "adopt N cf st1 s =
       (let st = (if cf_window cf - InitialCredit > 0 then flushCredit N cf (register_session u a x) s False else register_session u a x);
            prev = ps_current (mg_pst st a);
            st = upd_p st a (\<lambda>ps. ps\<lparr>ps_current := Some s\<rparr>);
            st = (case prev of None \<Rightarrow> st
                  | Some q \<Rightarrow> if q \<noteq> s then upd_s st q (\<lambda>x. x\<lparr>s_retired := True, s_lastActivity := max (s_lastActivity x) (mg_mono st)\<rparr>) else st)
        in trim_sessions N cf (length (ps_sessions (mg_pst st a))) st a i)"
    using adopt_eq [OF new p sinvD(12) [OF inv], where N = N] .
  define K where "K = k(a := Suc (k a))"
  define v where "v = register_session u a x"
  define w where "w = (if cf_window cf - InitialCredit > 0 then flushCredit N cf v s False else v)"
  define c where "c = upd_p w a (\<lambda>ps. ps\<lparr>ps_current := Some s\<rparr>)"
  define d where "d = (case ps_current (mg_pst w a) of None \<Rightarrow> c
      | Some q \<Rightarrow> if q \<noteq> s then upd_s c q (\<lambda>x. x\<lparr>s_retired := True, s_lastActivity := max (s_lastActivity x) (mg_mono c)\<rparr>) else c)"
  have "sinv K cf v" unfolding K_def v_def by (rule sinv_register [OF keepsD(1) [OF ku] _ x(1)]) (use pr x free map_of_SomeD in auto)
  moreover have "\<not> mg_closed u" using open' pr(2) by (simp add: tame_def still_def)
  then have "after u v" using pr(4) x(4) by (simp add: after_def v_def register_fields)
  ultimately have kv: "keeps K cf u v" by (simp add: keeps_def)
  have sv: "s < mg_nsess v" "s_peer (mg_sess v s) = i" "map_of (mg_peers v) i = Some a" using x pr(1) by (simp_all add: v_def register_fields)
  have kw: "keeps K cf v w" using keeps_flushCredit [OF keepsD(1) [OF kv] sv(1)] keeps_refl [OF keepsD(1) [OF kv]] by (simp add: w_def)
  note sw = keepsD(2) [OF kw sv(1)] keepsD(4) [OF kw sv(1), unfolded sv(2)] keepsD(3) [OF kw sv(3)]
  have "sinv K cf c" unfolding c_def by (rule sinv_current [OF keepsD(1) [OF kw] sw(3,1,2)])
  then have kc: "keeps K cf w c" by (rule keeps_field) (simp_all add: c_def upd_p_def)
  have "tame c d" unfolding d_def by (auto split: option.split intro!: tame_upd_s simp: s_core_def)
  then have kd: "keeps K cf c d" by (rule keeps_tame [OF keepsD(1) [OF kc]])
  have vd: "keeps K cf v d" using keeps_trans kw kc kd by blast
  let ?n = "length (ps_sessions (mg_pst d a))"
  have "sinv (K(a := maxSessionsPerPeer + ?n)) cf d" by (rule sinv_tight [OF keepsD(1) [OF kd]]) simp
  moreover have "K(a := maxSessionsPerPeer + ?n) = k(a := maxSessionsPerPeer + ?n)" by (simp add: K_def)
  ultimately have kt: "keeps k cf d (trim_sessions N cf ?n d a i)" using keepsD(3) [OF vd sv(3)] k by (intro keeps_trim) simp_all
  have eq': "adopt N cf st1 s = trim_sessions N cf ?n d a i" unfolding eq by (simp only: Let_def v_def [symmetric] w_def [symmetric] c_def [symmetric] d_def [symmetric])
  have "after st d" using ku kv vd after_trans by (metis keeps_def)
  then show "keeps k cf st (adopt N cf st1 s)" using kt after_trans unfolding eq' by (metis keeps_def)
  show "s < mg_nsess (adopt N cf st1 s)" unfolding eq' by (rule keepsD(2) [OF kt keepsD(2) [OF vd sv(1)]])
qed

section \<open>Fragments\<close>

text \<open>A live session and its peer change together, and messages of theirs may join those not taken.\<close>

lemma sinv_receive:
  assumes inv: "sinv k cf st" and s: "s \<in> live st" and a: "(s_peer (mg_sess st s), a) \<in> set (mg_peers st)"
    and st': "mg_peers st' = mg_peers st" "mg_npst st' = mg_npst st" "mg_nsess st' = mg_nsess st" "mg_byIndex st' = mg_byIndex st" "mg_npend st' = mg_npend st"
      "mg_pend st' = mg_pend st" "mg_stuck st' = mg_stuck st" "mg_outs st' = mg_outs st" "mg_gate st' = mg_gate st" "mg_tasks st' = mg_tasks st"
      "mg_sess st' = (mg_sess st)(s := x')" "mg_pst st' = (mg_pst st)(a := p')" "mg_held st' = mg_held st @ hs" "mg_closed st' = mg_closed st"
    and x': "s_peer x' = s_peer (mg_sess st s)" "s_localIndex x' = s_localIndex (mg_sess st s)" "\<not> s_ended x'"
    and p': "ps_sessions p' = ps_sessions (mg_pst st a)" "ps_current p' = ps_current (mg_pst st a)"
      "ps_buffered p' = ps_buffered (mg_pst st a) + (s_partialLen x' - s_partialLen (mg_sess st s)) + (\<Sum>h\<leftarrow>hs. h_size h)" "ps_buffered p' \<le> peerBufferLimit (cf_window cf)"
      "ps_heldCount p' = ps_heldCount (mg_pst st a) + int (length hs)" "ps_heldCount p' \<le> maxHeldMessagesPerPeer"
    and hs: "\<And>h. h \<in> set hs \<Longrightarrow> h_s h = s \<and> h_ps h = a \<and> h_size h = int (length (h_bytes h)) \<and> h_size h \<le> MaxMessage \<and> 0 \<le> h_uncredited h \<and> h_uncredited h \<le> h_size h"
    and recv: "receiving cf st' s"
  shows "keeps k cf st st'"
proof -
  note D = sinvD [OF inv] and P = peer_addr [OF sinvD(1) [OF inv]]
  have sl: "s < mg_nsess st" "\<not> s_ended (mg_sess st s)" using s by (simp_all add: live_def)
  have in_a: "s \<in> set (ps_sessions (mg_pst st a))" using D(4) [OF s] P(3) [OF a] by (auto simp: at_peer_def)
  have fs: "filter (\<lambda>h. h_s h = y) hs = (if y = s then hs else [])" for y using hs by (auto simp: filter_empty_conv filter_id_conv)
  have fp: "filter (\<lambda>h. h_ps h = b) hs = (if b = a then hs else [])" for b using hs by (auto simp: filter_empty_conv filter_id_conv)
  have "sinv k cf st'"
  proof (rule sinv_update [OF inv st'(1-5)])
    show "held_ok st'" unfolding held_ok_def st'(1,3,13) using D(8) hs sl(1) a by (auto simp: held_ok_def intro: image_eqI [of _ snd "(s_peer (mg_sess st s), a)"])
    show "gate_ok st'" using D(9) by (simp add: gate_ok_def st')
    show "task_ok st' t" if "t \<in> set (mg_tasks st')" for t by (rule task_ok_mono [OF D(10)]) (use that in \<open>simp_all add: st'\<close>)
    show "receiving cf st' y" if "y < mg_nsess st" for y
    proof (cases "y = s")
      case False
      show ?thesis by (rule receiving_cong [OF D(7) [OF that]]) (simp_all add: st' False held_of_def uncredited_of_def fs)
    qed (simp add: recv)
    show "buffer_ok cf st' b" if "(j, b) \<in> set (mg_peers st)" for j b
    proof (cases "b = a")
      case True
      let ?ss = "ps_sessions (mg_pst st a)" and ?f = "\<lambda>y. s_partialLen (mg_sess st y)" and ?g = "\<lambda>y. s_partialLen (mg_sess st' y)"
      have d: "distinct ?ss" using D(2) [OF a] by (simp add: listed_def)
      have "(\<Sum>y\<leftarrow>remove1 s ?ss. ?g y) = (\<Sum>y\<leftarrow>remove1 s ?ss. ?f y)" by (rule arg_cong [of _ _ sum_list], rule map_cong) (use d in \<open>auto simp: st'\<close>)
      then have "(\<Sum>y\<leftarrow>?ss. ?g y) = (\<Sum>y\<leftarrow>?ss. ?f y) + (s_partialLen x' - ?f s)"
        using sum_list_map_remove1 [OF in_a, of ?f] sum_list_map_remove1 [OF in_a, of ?g] by (simp add: st')
      then show ?thesis using D(3) [OF a] p' True by (simp add: buffer_ok_def st'(12) held_size_def held_count_def st'(13) fp)
    next
      case False
      have "s \<notin> set (ps_sessions (mg_pst st b))" using D(2) [OF that] P(3) [OF a, of b] that False by (auto simp: listed_def)
      then show ?thesis by (intro buffer_cong [OF D(3) [OF that]]) (auto simp: st' False held_size_def held_count_def fp)
    qed
  qed (use x' p' sl in \<open>simp_all add: st'\<close>)
  moreover have "after st st'" using x'(1) sl by (simp add: after_def st')
  ultimately show ?thesis by (simp add: keeps_def)
qed

lemma slice_grow:
  assumes "slice_ok buf" "int (length (fst buf) + length b) \<le> MaxMessage"
  shows "slice_ok (growAppend buf b)" "fst (growAppend buf b) = fst buf @ b"
  using assms by (auto simp: slice_ok_def growAppend_def Let_def MaxMessage_def)

text \<open>The buffer after a fragment, and the parts of a session it changes.\<close>

definition grown :: "'c session \<Rightarrow> bytes \<Rightarrow> slice" where
  "grown x b = (if int (length b) > 0 then growAppend (s_partial x) b else s_partial x)"

lemma grown_ok:
  assumes "slice_ok (s_partial x)" "int (length (fst (s_partial x))) = s_partialLen x" "s_partialLen x + int (length b) \<le> MaxMessage"
  shows "slice_ok (grown x b)" "fst (grown x b) = fst (s_partial x) @ b"
  using assms slice_grow [of "s_partial x" b] by (auto simp: grown_def)

lemma keeps_if: "(c \<Longrightarrow> keeps k cf st a) \<Longrightarrow> (\<not> c \<Longrightarrow> keeps k cf st b) \<Longrightarrow> keeps k cf st (if c then a else b)"
  by simp

lemma keeps_onFragment:
  assumes inv: "sinv k cf st" and s: "s \<in> live st"
  shows "keeps k cf st (onFragment N cf st s mr b)"
proof -
  note D = sinvD [OF inv]
  let ?i = "s_peer (mg_sess st s)" and ?n = "int (length b)"
  obtain a where a: "(?i, a) \<in> set (mg_peers st)" using D(4) [OF s] by (auto simp: at_peer_def)
  have p: "peer st ?i = (a, st)" using peer_addr(1) [OF D(1) a] by (simp add: peer_def)
  have sl: "s < mg_nsess st" "\<not> s_ended (mg_sess st s)" using s by (simp_all add: live_def)
  let ?x = "mg_sess st s" and ?ps = "mg_pst st a"
  have R: "int (length (fst (s_partial ?x))) = s_partialLen ?x" "slice_ok (s_partial ?x)" "0 \<le> s_partialCredited ?x" "s_partialCredited ?x \<le> s_partialLen ?x"
      "s_held ?x = int (held_of st s)" "0 \<le> s_owed ?x" "s_held ?x = 0 \<Longrightarrow> s_partialCredited ?x = s_partialLen ?x"
      "s_allowance ?x + s_owed ?x + (s_partialLen ?x - s_partialCredited ?x) + uncredited_of st s = cf_window cf"
    using D(7) [OF sl(1)] sl(2) by (simp_all add: receiving_def Let_def)
  note B = D(3) [OF a, unfolded buffer_ok_def]
  have g: "slice_ok (grown ?x b)" "fst (grown ?x b) = fst (s_partial ?x) @ b" if "\<not> s_partialLen ?x + ?n > MaxMessage"
    using grown_ok [of ?x b] R that by simp_all
  show ?thesis unfolding onFragment_def Let_def p prod.case grown_def [symmetric]
  proof (intro keeps_if keeps_end [OF inv sl(1)], goal_cases)
    case 1
    let ?x' = "?x\<lparr>s_allowance := s_allowance ?x - ?n, s_partial := grown ?x b, s_partialLen := s_partialLen ?x + ?n, s_owed := s_owed ?x + ?n, s_partialCredited := s_partialCredited ?x + ?n\<rparr>"
    let ?t = "upd_s (upd_p (upd_s st s (\<lambda>x. x\<lparr>s_allowance := s_allowance x - ?n, s_partial := grown x b, s_partialLen := s_partialLen x + ?n\<rparr>)) a
        (\<lambda>ps. ps\<lparr>ps_buffered := ps_buffered ps + ?n\<rparr>)) s (\<lambda>x. x\<lparr>s_owed := s_owed x + ?n, s_partialCredited := s_partialCredited x + ?n\<rparr>)"
    have h: "mg_held ?t = mg_held st" by (simp add: upd_defs)
    have "receiving cf ?t s" unfolding receiving_def Let_def held_same [OF h] using R g 1 sl by (simp add: upd_defs)
    then have k: "keeps k cf st ?t"
      by (intro sinv_receive [OF inv s a, where x' = ?x' and p' = "?ps\<lparr>ps_buffered := ps_buffered ?ps + ?n\<rparr>" and hs = "[]"]) (use 1 sl B in \<open>simp_all add: upd_defs\<close>)
    then show ?case by (rule keeps_trans) (rule keeps_flushCredit [OF keepsD(1) [OF k] keepsD(2) [OF k sl(1)]])
  next
    case 2
    let ?x' = "?x\<lparr>s_allowance := s_allowance ?x - ?n, s_partial := grown ?x b, s_partialLen := s_partialLen ?x + ?n\<rparr>"
    let ?t = "upd_p (upd_s st s (\<lambda>x. x\<lparr>s_allowance := s_allowance x - ?n, s_partial := grown x b, s_partialLen := s_partialLen x + ?n\<rparr>)) a (\<lambda>ps. ps\<lparr>ps_buffered := ps_buffered ps + ?n\<rparr>)"
    have h: "mg_held ?t = mg_held st" by (simp add: upd_defs)
    have "receiving cf ?t s" unfolding receiving_def Let_def held_same [OF h] using R g 2 sl by (simp add: upd_defs)
    then show ?case
      by (intro sinv_receive [OF inv s a, where x' = ?x' and p' = "?ps\<lparr>ps_buffered := ps_buffered ?ps + ?n\<rparr>" and hs = "[]"]) (use 2 sl B in \<open>simp_all add: upd_defs\<close>)
  next
    case 3
    let ?h = "\<lparr>h_from = ?i, h_bytes = fst (s_partial ?x) @ b, h_s = s, h_ps = a, h_size = s_partialLen ?x + ?n, h_uncredited = s_partialLen ?x + ?n - s_partialCredited ?x\<rparr>"
    let ?x' = "?x\<lparr>s_allowance := s_allowance ?x - ?n, s_partial := ([], 0), s_partialLen := 0, s_partialCredited := 0, s_held := s_held ?x + 1\<rparr>"
    let ?p' = "?ps\<lparr>ps_buffered := ps_buffered ?ps + ?n, ps_heldCount := ps_heldCount ?ps + 1\<rparr>"
    have w: "take (nat (s_partialLen ?x + ?n)) (fst (grown ?x b)) = fst (s_partial ?x) @ b" using g(2) 3 R(1) by simp
    have "receiving cf (st\<lparr>mg_sess := (mg_sess st)(s := ?x'), mg_pst := (mg_pst st)(a := ?p'), mg_held := mg_held st @ [?h]\<rparr>) s"
      using R 3 sl slice_nil by (simp add: receiving_def Let_def held_of_def uncredited_of_def MaxMessage_def)
    then show ?case
      by (intro sinv_receive [OF inv s a, where x' = ?x' and p' = ?p' and hs = "[?h]"]) (use 3 sl B R w in \<open>simp_all add: upd_defs receiving_def held_of_def uncredited_of_def\<close>)
  qed
qed

section \<open>Messages taken\<close>

lemma sum_filter_drop_at:
  fixes f :: "'a \<Rightarrow> int"
  assumes "i < length xs"
  shows "(\<Sum>x\<leftarrow>filter P (drop_at i xs). f x) = (\<Sum>x\<leftarrow>filter P xs. f x) - (if P (xs ! i) then f (xs ! i) else 0)"
    "int (length (filter P (drop_at i xs))) = int (length (filter P xs)) - (if P (xs ! i) then 1 else 0)"
proof -
  have "filter P xs = filter P (take i xs @ xs ! i # drop (Suc i) xs)" by (rule arg_cong [OF id_take_nth_drop [OF assms]])
  also have "\<dots> = filter P (take i xs) @ (if P (xs ! i) then [xs ! i] else []) @ filter P (drop (Suc i) xs)" by simp
  finally show "(\<Sum>x\<leftarrow>filter P (drop_at i xs). f x) = (\<Sum>x\<leftarrow>filter P xs. f x) - (if P (xs ! i) then f (xs ! i) else 0)"
    "int (length (filter P (drop_at i xs))) = int (length (filter P xs)) - (if P (xs ! i) then 1 else 0)"
    by (simp_all add: drop_at_def)
qed

lemma keeps_release:
  assumes inv: "sinv k cf st"
  shows "keeps k cf st (release_msg N cf' st j)"
proof (cases "j < length (mg_held st)")
  case True
  note D = sinvD [OF inv]
  define h where "h = mg_held st ! j"
  define s where "s = h_s h"
  let ?x = "mg_sess st s" and ?ps = "mg_pst st (h_ps h)"
  define y where "y = ?x\<lparr>s_held := s_held ?x - 1, s_owed := s_owed ?x + h_uncredited h\<rparr>"
  define x' where "x' = (if s_held ?x = 1 \<and> s_partialLen ?x > s_partialCredited ?x then y\<lparr>s_owed := s_owed y + (s_partialLen y - s_partialCredited y), s_partialCredited := s_partialLen y\<rparr> else y)"
  define p' where "p' = ?ps\<lparr>ps_heldCount := ps_heldCount ?ps - 1, ps_buffered := ps_buffered ?ps - h_size h\<rparr>"
  define t where "t = st\<lparr>mg_held := drop_at j (mg_held st), mg_sess := (mg_sess st)(s := x'), mg_pst := (mg_pst st)(h_ps h := p')\<rparr>"
  have hm: "h \<in> set (mg_held st)" unfolding h_def using True by (rule nth_mem)
  have H: "s < mg_nsess st" "h_ps h \<in> snd ` set (mg_peers st)" "0 \<le> h_size h" "0 \<le> h_uncredited h" using D(8) hm unfolding held_ok_def s_def by auto
  have eq: "release_msg N cf' st j = flushCredit N cf' t s False"
  proof -
    have "t = (let st = st\<lparr>mg_held := drop_at j (mg_held st)\<rparr>; st = upd_s st s (\<lambda>x. x\<lparr>s_held := s_held x - 1\<rparr>);
               st = upd_p st (h_ps h) (\<lambda>ps. ps\<lparr>ps_heldCount := ps_heldCount ps - 1, ps_buffered := ps_buffered ps - h_size h\<rparr>);
               st = upd_s st s (\<lambda>x. x\<lparr>s_owed := s_owed x + h_uncredited h\<rparr>)
           in (if s_held (mg_sess st s) = 0 \<and> s_partialLen (mg_sess st s) > s_partialCredited (mg_sess st s)
                     then upd_s st s (\<lambda>x. x\<lparr>s_owed := s_owed x + (s_partialLen x - s_partialCredited x), s_partialCredited := s_partialLen x\<rparr>) else st))"
      by (simp add: t_def x'_def y_def p'_def Let_def upd_defs)
    then show ?thesis unfolding release_msg_def Let_def h_def [symmetric] s_def [symmetric] using True by (simp only: if_True)
  qed
  have hs: "held_size t b = held_size st b - (if h_ps h = b then h_size h else 0)" "int (held_count t b) = int (held_count st b) - (if h_ps h = b then 1 else 0)"
    "int (held_of t y) = int (held_of st y) - (if s = y then 1 else 0)" "uncredited_of t y = uncredited_of st y - (if s = y then h_uncredited h else 0)" for b y
    using sum_filter_drop_at [OF True] by (simp_all add: held_size_def held_count_def held_of_def uncredited_of_def t_def h_def s_def)
  have "sinv k cf t"
  proof (rule sinv_update [OF inv])
    show "held_ok t" using D(8) set_drop_at [of j "mg_held st"] by (auto simp: held_ok_def t_def)
    show "gate_ok t" using D(9) by (simp add: gate_ok_def t_def)
    show "task_ok t u" if "u \<in> set (mg_tasks t)" for u by (rule task_ok_mono [OF D(10)]) (use that in \<open>simp_all add: t_def\<close>)
    show "receiving cf t y" if "y < mg_nsess st" for y
    proof (cases "y = s")
      case True
      have "mg_sess t s = x'" by (simp add: t_def)
      then show ?thesis using D(7) [OF H(1)] hs(3,4) [of s] H(4) by (auto simp: True receiving_def Let_def x'_def y_def)
    next
      case False
      show ?thesis by (rule receiving_cong [OF D(7) [OF that]]) (use hs(3,4) [of y] False in \<open>simp_all add: t_def\<close>)
    qed
    show "buffer_ok cf t b" if "(i, b) \<in> set (mg_peers st)" for i b
    proof -
      have l: "s_partialLen (mg_sess t y) = s_partialLen (mg_sess st y)" for y by (simp add: t_def x'_def y_def)
      have "(\<Sum>y\<leftarrow>xs. s_partialLen (mg_sess t y)) = (\<Sum>y\<leftarrow>xs. s_partialLen (mg_sess st y))" for xs by (simp add: l)
      then show ?thesis using D(3) [OF that] hs(1,2) [of b] H(3) by (auto simp: buffer_ok_def t_def p'_def)
    qed
  qed (simp_all add: t_def x'_def y_def p'_def)
  moreover have "after st t" by (simp add: after_def t_def x'_def y_def)
  ultimately have k: "keeps k cf st t" by (simp add: keeps_def)
  show ?thesis unfolding eq by (rule keeps_trans [OF k keeps_flushCredit [OF keepsD(1) [OF k] keepsD(2) [OF k H(1)]]])
qed (simp add: release_msg_def keeps_refl [OF inv])

end
