(* ===== verification/Session_Properties.thy ===== *)
theory Session_Properties
  imports Session_Steps
begin

text \<open>
  Frames, rosters, timers and the sweep keep the invariant; runs of the session manager, in which the
  member calls it in any order; and the properties of every state they reach.
\<close>

section \<open>Loops\<close>

lemma keeps_fold:
  assumes "\<And>x st'. x \<in> set xs \<Longrightarrow> keeps k cf st st' \<Longrightarrow> keeps k cf st' (f x st')"
  shows "keeps k cf st st' \<Longrightarrow> keeps k cf st (fold f xs st')"
  using assms
proof (induction xs arbitrary: st')
  case (Cons x xs)
  have "keeps k cf st (f x st')" using Cons.prems keeps_trans by (metis list.set_intros(1))
  then show ?case using Cons.IH Cons.prems(2) by simp
qed simp

lemma sinv_tasks:
  assumes "sinv k cf st" "\<And>t. t \<in> set ts \<Longrightarrow> task_ok st t"
  shows "sinv k cf (st\<lparr>mg_tasks := mg_tasks st @ ts\<rparr>)"
  by (rule sinv_same [OF assms(1)]) (use sinvD(9,10) [OF assms(1)] assms(2) in \<open>auto simp: gate_ok_def\<close>)

section \<open>Sessions dropped\<close>

lemma sessions_valid:
  assumes "sinv k cf st" "(i, a) \<in> set (mg_peers st)" "s \<in> set (ps_sessions (mg_pst st a))"
  shows "s < mg_nsess st"
  using sinvD(2) [OF assms(1,2)] assms(3) by (simp add: listed_def live_def)

lemma keeps_drop_peer:
  assumes "sinv k cf st" "(i, a) \<in> set (mg_peers st)"
  shows "keeps k cf st (drop_peer N cf' err a st)"
proof -
  let ?f = "failPending st a err"
  have f: "keeps k cf st ?f" by (rule keeps_failPending [OF assms(1)])
  have "ps_sessions (mg_pst ?f a) = ps_sessions (mg_pst st a)"
    using tame_peers(2) [OF tame_failPending sinvD(1) [OF assms(1)] assms(2)] p_coreD by metis
  then have v: "s < mg_nsess ?f" if "s \<in> set (ps_sessions (mg_pst ?f a))" for s using sessions_valid [OF assms] keepsD(2) [OF f] that by simp
  have "keeps k cf ?f (fold (\<lambda>s st. endSession (pump N cf') st s err) (ps_sessions (mg_pst ?f a)) ?f)"
    by (rule keeps_fold [OF _ keeps_refl [OF keepsD(1) [OF f]]]) (use keeps_end keepsD(1,2) v in blast)
  then show ?thesis unfolding drop_peer_def Let_def by (rule keeps_trans [OF f])
qed

lemma keeps_peer_in:
  assumes "keeps k cf st st'" "sinv k cf st" "(i, a) \<in> set (mg_peers st)"
  shows "(i, a) \<in> set (mg_peers st')"
  using map_of_SomeD keepsD(3) [OF assms(1) peer_addr(1) [OF sinvD(1) [OF assms(2)] assms(3)]] by fast

lemma keeps_dropAll:
  assumes "sinv k cf st"
  shows "keeps k cf st (dropAll N cf' st err)"
  unfolding dropAll_def
proof (rule keeps_fold [OF _ keeps_refl [OF assms]])
  fix p and st' :: "('a, 'b) manager"
  assume "p \<in> set (mg_peers st)" and k: "keeps k cf st st'"
  then have "(fst p, snd p) \<in> set (mg_peers st')" by (intro keeps_peer_in [OF k assms]) simp
  then show "keeps k cf st' ((case p of (i, a) \<Rightarrow> drop_peer N cf' err a) st')"
    unfolding case_prod_beta by (rule keeps_drop_peer [OF keepsD(1) [OF k]])
qed

lemma keeps_at_peer:
  assumes "sinv k cf st" "\<And>a. (i, a) \<in> set (mg_peers st) \<Longrightarrow> keeps k cf st (f a)"
  shows "keeps k cf st (case map_of (mg_peers st) i of None \<Rightarrow> st | Some a \<Rightarrow> f a)"
  using assms keeps_refl [OF assms(1)] by (auto split: option.split dest: map_of_SomeD)

lemma keeps_onUnreachable: "sinv k cf st \<Longrightarrow> keeps k cf st (onUnreachable N cf' st i)"
  unfolding onUnreachable_def by (rule keeps_at_peer) (simp_all add: keeps_drop_peer)

lemma keeps_onRefused: "sinv k cf st \<Longrightarrow> keeps k cf st (onRefused N cf' st i r)"
  unfolding onRefused_def by (rule keeps_at_peer) (simp_all add: keeps_drop_peer)

lemma keeps_onReset:
  assumes "sinv k cf st"
  shows "keeps k cf st (onReset N cf' st i idx)"
  unfolding onReset_def
proof (rule keeps_at_peer [OF assms])
  fix a
  assume a: "(i, a) \<in> set (mg_peers st)"
  show "keeps k cf st (fold (\<lambda>s st. if s_remoteIndex (mg_sess st s) = idx then endSession (pump N cf') st s (closedError (i @ '' reset the session'')) else st) (ps_sessions (mg_pst st a)) st)"
  proof (rule keeps_fold [OF _ keeps_refl [OF assms]])
    fix s and st' :: "('a, 'b) manager"
    assume "s \<in> set (ps_sessions (mg_pst st a))" "keeps k cf st st'"
    then have "s < mg_nsess st'" "sinv k cf st'" using sessions_valid [OF assms a] keepsD by blast+
    then show "keeps k cf st' (if s_remoteIndex (mg_sess st' s) = idx then endSession (pump N cf') st' s (closedError (i @ '' reset the session'')) else st')"
      by (intro keeps_if keeps_end keeps_refl)
  qed
qed

section \<open>Data\<close>

lemma keeps_resume:
  assumes "sinv k cf st"
  shows "keeps k cf st (resume N cf' st)"
proof (cases "mg_calls st")
  case (Cons c cs)
  have k: "keeps k cf st (st\<lparr>mg_calls := cs\<rparr>)" by (rule keeps_field) (simp_all add: sinv_fields assms)
  show ?thesis using k keeps_tame' [OF k tame_maybeRekey] by (simp add: resume_def Cons Let_def split: member_call.split)
qed (simp add: resume_def keeps_refl [OF assms])

lemma keeps_onData:
  assumes inv: "sinv k cf st"
  shows "keeps k cf st (onData N cf st from body)"
proof (cases "parseData body")
  case None
  then show ?thesis using keeps_refl [OF inv] by (simp add: onData_def)
next
  case (Some r)
  obtain idx ct where r: "parseData body = Some (idx, ct)" using Some by (cases r) simp
  define os where "os = (case mg_byIndex st idx of Some (ES s) \<Rightarrow> Some s | _ \<Rightarrow> None)"
  have lv: "s \<in> live st" if "os = Some s" for s
    using sinvD(5) [OF inv] that by (auto simp: os_def indexed_def split: option.splits indexEntry.splits)
  define pick where "pick = (case os of None \<Rightarrow> None
      | Some s \<Rightarrow> if s_peer (mg_sess st s) \<noteq> from \<or> s_ended (mg_sess st s) \<or> (expired cf st s \<and> \<not> crossing st s) then None else Some s)"
  have eq: "onData N cf st from body =
      (let fin = (\<lambda>st s msg. endSession (pump N cf) st s (closedError (''session with '' @ from @ msg))) in
       case pick of
         None \<Rightarrow>
           (let st = (case os of None \<Rightarrow> st | Some s \<Rightarrow> if s_peer (mg_sess st s) = from then fin st s '' expired'' else st)
            in case allowReset (cf_walk cf) (mg_limits st) from (member_roster st from \<noteq> None) idx (mg_mono st) of
                 (ok, l) \<Rightarrow> let st = st\<lparr>mg_limits := l\<rparr> in if ok then snd (sendFrame st frameReset from (u32be idx)) else st)
       | Some s \<Rightarrow>
           if length ct > maxNoiseMessage then fin st s '' carried a frame over 65535 bytes''
           else case n_decrypt N (s_recv (mg_sess st s)) ct of
             None \<Rightarrow> fin st s '' lost a frame''
           | Some (plaintext, c) \<Rightarrow>
               let st = upd_s st s (\<lambda>x. x\<lparr>s_recv := c, s_received := Suc (s_received x), s_lastActivity := mg_mono st\<rparr>)
               in case decodeSessionMessage plaintext of
                    None \<Rightarrow> fin st s '' carried a malformed message''
                  | Some msg \<Rightarrow>
                      if mtyp msg = sessMessage then maybeRekey N cf (onFragment N cf st s (mmore msg) (mbytes msg)) s
                      else if mtyp msg = sessCredit
                      then let c = int (unat (credit msg)); took = min (s_inflight (mg_sess st s)) c;
                               st = upd_s st s (\<lambda>x. x\<lparr>s_sendCredit := min (s_sendCredit x + c) (2 ^ 53), s_inflight := s_inflight x - took\<rparr>);
                               st = upd_s st s (\<lambda>x. rollRate x (mg_mono st));
                               st = upd_s st s (\<lambda>x. x\<lparr>s_rateCur := s_rateCur x + took\<rparr>)
                           in maybeRekey N cf (pump N cf st) s
                      else call st (SessionControl from msg s))"
    unfolding onData_def r option.case prod.case Let_def os_def [symmetric] pick_def [symmetric] by (rule refl)
  show ?thesis
  proof (cases pick)
    case None
    define d where "d = (case os of None \<Rightarrow> st | Some s \<Rightarrow> if s_peer (mg_sess st s) = from then endSession (pump N cf) st s (closedError (''session with '' @ from @ '' expired'')) else st)"
    have d: "keeps k cf st d" using keeps_refl [OF inv] keeps_end [OF inv] lv by (auto simp: d_def live_def split: option.split)
    obtain ok l where l: "allowReset (cf_walk cf) (mg_limits d) from (member_roster d from \<noteq> None) idx (mg_mono d) = (ok, l)" by fastforce
    have e: "keeps k cf d (d\<lparr>mg_limits := l\<rparr>)" by (rule keeps_field) (simp_all add: sinv_fields keepsD(1) [OF d])
    have "onData N cf st from body = (if ok then snd (sendFrame (d\<lparr>mg_limits := l\<rparr>) frameReset from (u32be idx)) else d\<lparr>mg_limits := l\<rparr>)"
      unfolding eq None Let_def option.case d_def [symmetric] l prod.case by (rule refl)
    then show ?thesis using keeps_trans [OF d e] keeps_tame' [OF keeps_trans [OF d e] tame_sendFrame] by simp
  next
    case (Some s)
    then have "os = Some s" "\<not> s_ended (mg_sess st s)" by (auto simp: pick_def split: option.splits if_splits)
    then have s: "s \<in> live st" "s < mg_nsess st" using lv by (simp_all add: live_def)
    have fin: "keeps k cf st (endSession (pump N cf) st s e)" for e by (rule keeps_end [OF inv s(2)])
    show ?thesis
    proof (cases "length ct > maxNoiseMessage \<or> n_decrypt N (s_recv (mg_sess st s)) ct = None")
      case True
      then show ?thesis using fin unfolding eq Some Let_def option.case by (auto simp only: if_True if_False option.case split: if_split)
    next
      case False
      then obtain plaintext c where dec: "n_decrypt N (s_recv (mg_sess st s)) ct = Some (plaintext, c)" by auto
      define u where "u = upd_s st s (\<lambda>x. x\<lparr>s_recv := c, s_received := Suc (s_received x), s_lastActivity := mg_mono st\<rparr>)"
      have tu: "tame st u" unfolding u_def by (rule tame_upd_s) (simp add: s_core_def)
      have ku: "keeps k cf st u" by (rule keeps_tame [OF inv tu])
      have su: "s \<in> live u" "s < mg_nsess u" using s tame_view(1,3) [OF tu] by simp_all
      have run: "tame u v \<Longrightarrow> keeps k cf u (pump N cf v)" for v by (rule keeps_trans [OF keeps_tame keeps_pump [OF sinv_tame]]) (use keepsD(1) [OF ku] in simp_all)
      have t3: "tame u (upd_s (upd_s (upd_s u s f) s (\<lambda>x. rollRate x now)) s g)" if "\<And>x. s_core (f x) = s_core x" "\<And>x. s_core (g x) = s_core x" for f g now
        using tame_trans [OF tame_trans [OF tame_upd_s tame_upd_s] tame_upd_s] that core_rollRate by metis
      have "keeps k cf u (case decodeSessionMessage plaintext of
                    None \<Rightarrow> endSession (pump N cf) u s (closedError (''session with '' @ from @ '' carried a malformed message''))
                  | Some msg \<Rightarrow>
                      if mtyp msg = sessMessage then maybeRekey N cf (onFragment N cf u s (mmore msg) (mbytes msg)) s
                      else if mtyp msg = sessCredit
                      then let c = int (unat (credit msg)); took = min (s_inflight (mg_sess u s)) c;
                               st = upd_s u s (\<lambda>x. x\<lparr>s_sendCredit := min (s_sendCredit x + c) (2 ^ 53), s_inflight := s_inflight x - took\<rparr>);
                               st = upd_s st s (\<lambda>x. rollRate x (mg_mono st));
                               st = upd_s st s (\<lambda>x. x\<lparr>s_rateCur := s_rateCur x + took\<rparr>)
                           in maybeRekey N cf (pump N cf st) s
                      else call u (SessionControl from msg s))"
      proof (cases "decodeSessionMessage plaintext")
        case None
        then show ?thesis using keeps_end [OF keepsD(1) [OF ku] su(2)] by simp
      next
        case (Some msg)
        show ?thesis unfolding Some option.case Let_def
          by (intro keeps_if keeps_tame' [OF keeps_onFragment tame_maybeRekey] keeps_tame' [OF run tame_maybeRekey] keeps_call keepsD(1) [OF ku] su(1) t3)
             (simp_all add: s_core_def)
      qed
      moreover have "\<not> maxNoiseMessage < length ct" using False by simp
      ultimately show ?thesis unfolding eq Some Let_def option.case dec prod.case u_def [symmetric] by (simp only: if_False keeps_trans [OF ku])
    qed
  qed
qed

section \<open>Handshakes\<close>

abbreviation slots :: "addr \<Rightarrow> nat" where
  "slots \<equiv> (\<lambda>_. maxSessionsPerPeer)"

lemma keeps_newIndex: "sinv k cf st \<Longrightarrow> newIndex st = (r, st') \<Longrightarrow> keeps k cf st st'"
  using keeps_tame [OF _ tame_newIndex] by (metis snd_conv)

lemma keeps_session:
  assumes "sinv slots cf st" "\<And>y. mg_byIndex st li \<noteq> Some (ES y)" "\<not> mg_closed st"
  shows "keeps slots cf st (case newSession st i li rem ini tx rx of (s, st) \<Rightarrow> call (adopt N cf st s) c)"
proof -
  obtain s st1 where n: "newSession st i li rem ini tx rx = (s, st1)" by fastforce
  show ?thesis unfolding n prod.case by (rule keeps_tame' [OF keeps_adopt(1) [OF assms(1) refl n assms(2,3)] tame_call])
qed

text \<open>The last steps of \<open>onInit\<close>: an index, the answer, the session.\<close>

lemma tame_closed: "tame st st' \<Longrightarrow> mg_closed st' = mg_closed st"
  by (simp add: tame_def still_def)

lemma keeps_answer:
  assumes inv: "sinv slots cf st" and open': "\<not> mg_closed st"
  shows "keeps slots cf st (case newIndex st of
      (None, st) \<Rightarrow> st
    | (Some localIndex, st) \<Rightarrow>
        (case n_write N hs (u64be (word_of_int (u_Version (mg_roster st)))) of
           Some (msg2, Some (toInitiator, toResponder), _) \<Rightarrow>
             (case sendFrame st frameHandshakeResp from (handshakeRespBody localIndex senderIndex msg2) of
                (False, st) \<Rightarrow> st
              | (True, st) \<Rightarrow>
                  (case newSession st from localIndex senderIndex False toResponder toInitiator of
                     (s, st) \<Rightarrow> call (adopt N cf st s) (PeerVersion from version)))
         | _ \<Rightarrow> st))"
proof -
  obtain oi a where n: "newIndex st = (oi, a)" by fastforce
  have ka: "keeps slots cf st a" by (rule keeps_newIndex [OF inv n])
  show ?thesis
  proof (cases oi)
    case None
    then show ?thesis using ka n by simp
  next
    case (Some li)
    have ca: "\<not> mg_closed a" using tame_closed [OF tame_newIndex, of st] n open' by (metis snd_conv)
    have free: "mg_byIndex a li = None" using newIndex_fresh [OF n [unfolded Some]] newIndex_same [OF n] by simp
    have t: "keeps slots cf a (case sendFrame a frameHandshakeResp from (handshakeRespBody li senderIndex msg2) of
                (False, st) \<Rightarrow> st
              | (True, st) \<Rightarrow> (case newSession st from li senderIndex False tx rx of (s, st) \<Rightarrow> call (adopt N cf st s) (PeerVersion from version)))" for msg2 tx rx
    proof -
      obtain ok b where f: "sendFrame a frameHandshakeResp from (handshakeRespBody li senderIndex msg2) = (ok, b)" by fastforce
      have tb: "tame a b" using tame_sendFrame f by (metis snd_conv)
      have kb: "keeps slots cf a b" by (rule keeps_tame [OF keepsD(1) [OF ka] tb])
      have "mg_byIndex b = mg_byIndex a" using f by (auto simp: sendFrame_def Let_def split: option.splits if_splits)
      then have "keeps slots cf b (case newSession b from li senderIndex False tx rx of (s, st) \<Rightarrow> call (adopt N cf st s) (PeerVersion from version))"
        by (intro keeps_session keepsD(1) [OF kb]) (simp_all add: free tame_closed [OF tb] ca)
      then show ?thesis unfolding f using kb keeps_trans [OF kb] by (cases ok) simp_all
    qed
    show ?thesis unfolding n Some prod.case option.case
      using keeps_trans [OF ka t] ka by (auto split: option.split prod.split)
  qed
qed

lemma keeps_option: "(o' = None \<Longrightarrow> keeps k cf st a) \<Longrightarrow> (\<And>x. o' = Some x \<Longrightarrow> keeps k cf st (f x)) \<Longrightarrow> keeps k cf st (case o' of None \<Rightarrow> a | Some x \<Rightarrow> f x)"
  by (simp split: option.split)

lemma keeps_prod: "(\<And>x y. p = (x, y) \<Longrightarrow> keeps k cf st (f x y)) \<Longrightarrow> keeps k cf st (case p of (x, y) \<Rightarrow> f x y)"
  by (simp split: prod.split)

lemma keeps_onInit:
  assumes inv: "sinv slots cf st" and open': "\<not> mg_closed st"
  shows "keeps slots cf st (onInit N cf st from body)"
proof (cases "parseHandshakeInit body")
  case None
  then show ?thesis using keeps_refl [OF inv] by (simp add: onInit_def)
next
  case (Some r)
  obtain senderIndex msg1 where r: "parseHandshakeInit body = Some (senderIndex, msg1)" using Some by (cases r) simp
  obtain ok l where l: "allowInit (mg_limits st) from (member_roster st from \<noteq> None) (mg_mono st) = (ok, l)" by fastforce
  define a where "a = st\<lparr>mg_limits := l\<rparr>"
  define b where "b = a\<lparr>mg_initsRead := Suc (mg_initsRead a), mg_seed := Suc (mg_seed a)\<rparr>"
  have ka: "keeps slots cf st a" by (rule keeps_field) (simp_all add: a_def sinv_fields inv)
  have kb: "keeps slots cf st b" by (rule keeps_field) (simp_all add: b_def a_def sinv_fields inv)
  have failed: "keeps slots cf st (c\<lparr>mg_limits := l'\<rparr>)" if "keeps slots cf st c" for c l'
    by (rule keeps_trans [OF that]) (rule keeps_field, simp_all add: sinv_fields keepsD(1) [OF that])
  have stamped: "keeps slots cf st (b\<lparr>mg_stamps := ss\<rparr>)" for ss
    by (rule keeps_trans [OF kb]) (rule keeps_field, simp_all add: sinv_fields keepsD(1) [OF kb])
  have ob: "\<not> mg_closed (b\<lparr>mg_stamps := ss\<rparr>)" for ss using open' by (simp add: b_def a_def)
  have sent: "keeps slots cf st (snd (sendFrame b t p' x))" for t p' x by (rule keeps_tame' [OF kb tame_sendFrame])
  have bfields: "b = a\<lparr>mg_initsRead := Suc (mg_initsRead a)\<rparr>\<lparr>mg_seed := Suc (mg_seed (a\<lparr>mg_initsRead := Suc (mg_initsRead a)\<rparr>))\<rparr>" by (simp add: b_def)
  show ?thesis
    unfolding onInit_def r option.case prod.case l Let_def a_def [symmetric] bfields [symmetric]
    by (intro keeps_if keeps_option keeps_refl [OF inv] ka kb keeps_tame' [OF ka tame_call] failed sent keeps_tame' [OF sent tame_call]
          keeps_trans [OF stamped keeps_answer [OF keepsD(1) [OF stamped] ob]] keeps_prod)
qed

lemma keeps_onResp:
  assumes inv: "sinv slots cf st" and open': "\<not> mg_closed st"
  shows "keeps slots cf st (onResp N cf st from body)"
proof (cases "parseHandshakeResp body")
  case None
  then show ?thesis using keeps_refl [OF inv] by (simp add: onResp_def)
next
  case (Some r)
  obtain senderIndex receiverIndex msg2 where r: "parseHandshakeResp body = Some (senderIndex, receiverIndex, msg2)" using Some by (cases r) simp
  show ?thesis
  proof (cases "\<exists>p. mg_byIndex st receiverIndex = Some (EP p) \<and> p_peer (mg_pend st p) = from \<and> senderIndex \<noteq> 0")
    case False
    then have "onResp N cf st from body = st" unfolding onResp_def r by (auto split: option.split indexEntry.split)
    then show ?thesis using keeps_refl [OF inv] by simp
  next
    case True
    then obtain p where p: "mg_byIndex st receiverIndex = Some (EP p)" "p_peer (mg_pend st p) = from" "senderIndex \<noteq> 0" by blast
    obtain a u where u: "peer st from = (a, u)" by fastforce
    note pr = peer_result [OF u]
    have ku: "keeps slots cf st u" by (rule keeps_tame [OF inv pr(2)])
    have pi: "p_localIndex (mg_pend u p) = receiverIndex"
      using tame_view(8) [OF pr(2) sinvD(6) [OF inv]] p(1) pr(5) by (simp add: epi_def)
    have fail: "keeps slots cf st (failPending v a e)" if "keeps slots cf st v" for v e by (rule keeps_tame' [OF that tame_failPending])
    define v where "v = (\<lambda>hs. upd_pend u p (\<lambda>p. p\<lparr>p_hs := hs\<rparr>))"
    have kv: "keeps slots cf st (v hs)" for hs unfolding v_def by (rule keeps_tame' [OF ku tame_upd_pend]) simp
    define w where "w = (\<lambda>hs. upd_pend (v hs) p (\<lambda>p. p\<lparr>p_timer := False\<rparr>))"
    define y where "y = (\<lambda>hs. if ps_pending (mg_pst (w hs) a) = Some p then upd_p (w hs) a (\<lambda>ps. ps\<lparr>ps_pending := None\<rparr>) else w hs)"
    have kw: "keeps slots cf st (w hs)" for hs unfolding w_def by (rule keeps_tame' [OF kv tame_upd_pend]) simp
    have ky: "keeps slots cf st (y hs)" for hs using kw keeps_tame' [OF kw tame_upd_p] by (simp add: y_def p_core_def)
    have oy: "\<not> mg_closed (y hs)" for hs using open' tame_closed [OF pr(2)] by (simp add: y_def w_def v_def upd_pend_def upd_p_def)
    have iy: "mg_byIndex (y hs) (p_localIndex (mg_pend (y hs) p)) = Some (EP p)" for hs
      using p(1) pr(5) pi by (simp add: y_def w_def v_def upd_pend_def upd_p_def)
    have est: "keeps slots cf st (case newSession (y hs) from (p_localIndex (mg_pend (y hs) p)) senderIndex True tx rx of (s, st) \<Rightarrow>
        call (adopt N cf st s\<lparr>mg_tasks := mg_tasks (adopt N cf st s) @ map (\<lambda>w. TCall w (Some s) None) (p_waiters (mg_pend (adopt N cf st s) p))\<rparr>) c)" for hs tx rx c
    proof -
      obtain s z where n: "newSession (y hs) from (p_localIndex (mg_pend (y hs) p)) senderIndex True tx rx = (s, z)" by fastforce
      have k: "keeps slots cf (y hs) (adopt N cf z s)" "s < mg_nsess (adopt N cf z s)"
        by (rule keeps_adopt [OF keepsD(1) [OF ky] refl n _ oy], simp add: iy)+
      have "sinv slots cf (adopt N cf z s\<lparr>mg_tasks := mg_tasks (adopt N cf z s) @ map (\<lambda>w. TCall w (Some s) None) (p_waiters (mg_pend (adopt N cf z s) p))\<rparr>)"
        by (rule sinv_tasks [OF keepsD(1) [OF k(1)]]) (auto simp: task_ok_def k(2))
      then have "keeps slots cf (adopt N cf z s) (adopt N cf z s\<lparr>mg_tasks := mg_tasks (adopt N cf z s) @ map (\<lambda>w. TCall w (Some s) None) (p_waiters (mg_pend (adopt N cf z s) p))\<rparr>)"
        by (rule keeps_field) simp_all
      then show ?thesis unfolding n prod.case by (rule keeps_tame' [OF keeps_trans [OF keeps_trans [OF ky k(1)]] tame_call])
    qed
    have "onResp N cf st from body = (case n_read N (p_hs (mg_pend u p)) msg2 of
        Some (payload, Some (toResponder, toInitiator), hs) \<Rightarrow>
          if length payload \<noteq> 8 then failPending (v hs) a (closedError (''handshake with '' @ from @ '' failed''))
          else if (case member_roster (v hs) from of None \<Rightarrow> True
                   | Some mem \<Rightarrow> (case n_peer N hs of None \<Rightarrow> \<not> sameKey (rm_X25519 mem) [] | Some rs \<Rightarrow> \<not> sameKey (rm_X25519 mem) rs))
          then failPending (v hs) a (invalidError (from @ '' is no longer on the roster''))
          else (case newSession (y hs) from (p_localIndex (mg_pend (y hs) p)) senderIndex True toResponder toInitiator of (s, st) \<Rightarrow>
            call (adopt N cf st s\<lparr>mg_tasks := mg_tasks (adopt N cf st s) @ map (\<lambda>w. TCall w (Some s) None) (p_waiters (mg_pend (adopt N cf st s) p))\<rparr>) (PeerVersion from (Uint64 payload)))
      | Some (payload, None, hs) \<Rightarrow> failPending (v hs) a (closedError (''handshake with '' @ from @ '' failed''))
      | None \<Rightarrow> failPending u a (closedError (''handshake with '' @ from @ '' failed'')))"
      unfolding onResp_def r option.case prod.case p(1) indexEntry.case p(2) u Let_def v_def w_def y_def by (simp only: p(3) if_False simp_thms)
    then show ?thesis
      by (simp only:) (intro keeps_option keeps_prod keeps_if fail kv ku est)
  qed
qed

lemma keeps_handleFrame: "sinv slots cf st \<Longrightarrow> keeps slots cf st (handleFrame N cf st f from)"
  unfolding handleFrame_def
  by (intro keeps_if keeps_refl keeps_onInit keeps_onResp keeps_onData keeps_onUnreachable keeps_onRefused keeps_onReset)

section \<open>The member's calls\<close>

lemma keeps_rosterChanged:
  assumes "sinv k cf st"
  shows "keeps k cf st (rosterChanged N cf' st)"
proof -
  define a where "a = st\<lparr>mg_limits := forget (mg_limits st) (\<lambda>i. member_roster st i \<noteq> None),
      mg_stamps := rosterChanged_stamps (cf_stamp_walk cf') (map rm_ID (u_Members (mg_roster st))) (mg_stamps st)\<rparr>"
  have a: "keeps k cf st a" by (rule keeps_field) (simp_all add: a_def sinv_fields assms)
  have "keeps k cf a (fold (\<lambda>(i, b) st. if member_roster st i \<noteq> None then st else drop_peer N cf' (invalidError (i @ '' is no longer on the roster'')) b st) (mg_peers a) a)"
  proof (rule keeps_fold [OF _ keeps_refl [OF keepsD(1) [OF a]]])
    fix p and st' :: "('a, 'b) manager"
    assume "p \<in> set (mg_peers a)" and k: "keeps k cf a st'"
    then have "(fst p, snd p) \<in> set (mg_peers st')" by (intro keeps_peer_in [OF k keepsD(1) [OF a]]) simp
    then show "keeps k cf st' ((case p of (i, b) \<Rightarrow> \<lambda>st. if member_roster st i \<noteq> None then st else drop_peer N cf' (invalidError (i @ '' is no longer on the roster'')) b st) st')"
      unfolding case_prod_beta by (intro keeps_if keeps_refl keeps_drop_peer keepsD(1) [OF k])
  qed
  then show ?thesis using keeps_trans [OF a] by (simp add: rosterChanged_def Let_def a_def)
qed

lemma keeps_new_roster:
  assumes "sinv k cf st"
  shows "keeps k cf st (new_roster N cf' st r)"
proof -
  let ?a = "st\<lparr>mg_stamps := rosterAdded (map rm_ID (u_Members (mg_roster st))) (map rm_ID (u_Members r)) (mg_mono st) (mg_stamps st), mg_roster := r\<rparr>"
  have "keeps k cf st ?a" by (rule keeps_field) (simp_all add: sinv_fields assms)
  then show ?thesis unfolding new_roster_def Let_def by (rule keeps_trans) (rule keeps_rosterChanged, simp add: sinv_fields assms)
qed

lemma sinv_close: "sinv k cf st \<Longrightarrow> sinv k cf (close N cf' st)"
  by (auto simp: close_def intro!: keepsD(1) [OF keeps_dropAll] sinv_fields)

lemma keeps_setRate:
  assumes "sinv k cf st"
  shows "keeps k cf st (setRate N cf' st r)"
proof -
  have "keeps k cf st (pump N cf' v)" if "v = st\<lparr>mg_rateBps := r\<rparr> \<or> v = st\<lparr>mg_rateBps := r, mg_paceTimer := False\<rparr>" for v
  proof -
    have v: "keeps k cf st v" by (rule keeps_field) (use that in \<open>auto simp: sinv_fields assms\<close>)
    show ?thesis by (rule keeps_trans [OF v keeps_pump [OF keepsD(1) [OF v]]])
  qed
  then show ?thesis using keeps_refl [OF assms] by (simp add: setRate_def Let_def)
qed

lemma keeps_admit: "sinv k cf st \<Longrightarrow> keeps k cf st (admit_out cf' st o')"
  unfolding admit_out_def Let_def by (intro keeps_if keeps_tame [OF _ tame_upd_o] keeps_tame [OF _ tame_enqueue]) simp_all

lemma keeps_handshake_due:
  assumes "sinv k cf st"
  shows "keeps k cf st (handshake_due st a p)"
proof -
  have "keeps k cf st (upd_pend st p (\<lambda>p. p\<lparr>p_timer := False\<rparr>))" by (rule keeps_tame [OF assms tame_upd_pend]) simp
  then show ?thesis unfolding handshake_due_def Let_def by (intro keeps_if keeps_tame' [OF _ tame_failPending])
qed

lemma keeps_pace_due: "sinv k cf st \<Longrightarrow> keeps k cf st (pace_due N cf' st)"
  unfolding pace_due_def by (rule keeps_trans [OF keeps_tame [OF _ tame_paceDue(2)] keeps_pump]) (simp_all add: sinv_fields)

lemma keeps_socket_drained: "sinv k cf st \<Longrightarrow> keeps k cf st (socket_drained N cf' st)"
  unfolding socket_drained_def by (rule keeps_trans [OF keeps_tame [OF _ tame_paceDue(3)] keeps_pump]) (simp_all add: sinv_fields)

section \<open>The sweep\<close>

lemma keeps_sweep_session: "sinv k cf st \<Longrightarrow> s < mg_nsess st \<Longrightarrow> keeps k cf st (sweep_session N cf' now s st)"
  unfolding sweep_session_def Let_def by (intro keeps_if keeps_end keeps_maybeRekey keeps_refl)

lemma sinv_forget:
  assumes inv: "sinv k cf st" and a: "(i, a) \<in> set (mg_peers st)" "ps_sessions (mg_pst st a) = []" "ps_heldCount (mg_pst st a) = 0"
  shows "sinv k cf (st\<lparr>mg_peers := AList.delete i (mg_peers st)\<rparr>)"
proof (rule sinvI)
  let ?t = "st\<lparr>mg_peers := AList.delete i (mg_peers st)\<rparr>"
  note D = sinvD [OF inv] and P = peer_addr [OF sinvD(1) [OF inv] a(1)]
  have m: "(j, b) \<in> set (AList.delete i (mg_peers st)) \<longleftrightarrow> (j, b) \<in> set (mg_peers st) \<and> j \<noteq> i" for j b
    by (auto simp: AList.delete_eq)
  have l: "live ?t = live st" by (simp add: live_def)
  have "held_count st a = 0" using D(3) [OF a(1)] a(3) by (simp add: buffer_ok_def)
  then have na: "h_ps h \<noteq> a" if "h \<in> set (mg_held st)" for h using that by (auto simp: held_count_def filter_empty_conv)
  have "distinct (map snd (AList.delete i (mg_peers st)))" using D(1) by (auto simp: peers_wf_def AList.delete_eq distinct_map intro: inj_on_subset)
  then show "peers_wf ?t" using D(1) by (auto simp: peers_wf_def m distinct_delete)
  show "indexed ?t" "epi ?t" "gate_ok ?t" "\<not> mg_stuck ?t" "window_ok cf" using D by (simp_all add: indexed_def live_def epi_def gate_ok_def)
  show "task_ok ?t t" if "t \<in> set (mg_tasks ?t)" for t by (rule task_ok_mono [OF D(10)]) (use that in simp_all)
  show "at_peer ?t s" if "s \<in> live ?t" for s
  proof -
    have "at_peer st s" using D(4) that l by simp
    then obtain b where b: "(s_peer (mg_sess st s), b) \<in> set (mg_peers st)" "s \<in> set (ps_sessions (mg_pst st b))" by (auto simp: at_peer_def)
    then have "s_peer (mg_sess st s) \<noteq> i" using P(3) [of b] a(2) by auto
    then show ?thesis using b by (auto simp: at_peer_def m)
  qed
  show "held_ok ?t"
  proof -
    have "h_ps h \<in> snd ` set (AList.delete i (mg_peers st))" if "h \<in> set (mg_held st)" for h
    proof -
      have "h_ps h \<in> snd ` set (mg_peers st)" using D(8) that by (simp add: held_ok_def)
      then obtain j where "(j, h_ps h) \<in> set (mg_peers st)" by force
      moreover have "j \<noteq> i" using P(3) [of "h_ps h"] na [OF that] calculation by auto
      ultimately have "(j, h_ps h) \<in> set (AList.delete i (mg_peers st))" by (simp add: m)
      then show ?thesis by force
    qed
    then show ?thesis using D(8) by (auto simp: held_ok_def)
  qed
  show "receiving cf ?t s" if "s < mg_nsess ?t" for s
    by (rule receiving_cong [OF D(7)]) (use that in \<open>simp_all add: held_of_def uncredited_of_def\<close>)
  show "listed k ?t j b" if "(j, b) \<in> set (mg_peers ?t)" for j b
    using D(2) [of j b] that by (simp add: m listed_def l)
  show "buffer_ok cf ?t b" if "(j, b) \<in> set (mg_peers ?t)" for j b
    by (rule buffer_cong [OF D(3) [of j b]]) (use that in \<open>simp_all add: m held_size_def held_count_def\<close>)
qed

text \<open>What the sweep of one peer leaves: the invariant, and the other peers.\<close>

lemma sweep_peer_keeps:
  assumes inv: "sinv k cf st" and p: "p \<in> set (mg_peers st)"
  obtains t where "keeps k cf st t" "sweep_peer N cf' now p st = t \<or> sweep_peer N cf' now p st = t\<lparr>mg_peers := AList.delete (fst p) (mg_peers t)\<rparr>"
    "sinv k cf (sweep_peer N cf' now p st)"
proof -
  obtain i a where ia: "p = (i, a)" by fastforce
  define t where "t = fold (sweep_session N cf' now) (ps_sessions (mg_pst st a)) st"
  have t: "keeps k cf st t" unfolding t_def
  proof (rule keeps_fold [OF _ keeps_refl [OF inv]])
    fix s and st' :: "('a, 'b) manager"
    assume "s \<in> set (ps_sessions (mg_pst st a))" "keeps k cf st st'"
    then show "keeps k cf st' (sweep_session N cf' now s st')" using sessions_valid [OF inv] p ia keepsD by (intro keeps_sweep_session) blast+
  qed
  have it: "(i, a) \<in> set (mg_peers t)" using keeps_peer_in [OF t inv] p ia by simp
  have eq: "sweep_peer N cf' now p st = (if ps_sessions (mg_pst t a) = [] \<and> ps_pending (mg_pst t a) = None \<and> ps_queue (mg_pst t a) = [] \<and> ps_heldCount (mg_pst t a) = 0
      \<and> member_roster t i = None then t\<lparr>mg_peers := AList.delete i (mg_peers t)\<rparr> else t)"
    by (simp add: sweep_peer_def Let_def ia t_def)
  show ?thesis
    by (rule that [OF t]) (use eq sinv_forget [OF keepsD(1) [OF t] it] keepsD(1) [OF t] ia in auto)
qed

lemma sweep_fold:
  assumes "sinv k cf st" "set ps \<subseteq> set (mg_peers st)" "distinct (map fst ps)"
  shows "sinv k cf (fold (sweep_peer N cf' now) ps st) \<and> mg_closed (fold (sweep_peer N cf' now) ps st) = mg_closed st"
  using assms
proof (induction ps arbitrary: st)
  case (Cons p ps)
  obtain t where t: "keeps k cf st t" "sweep_peer N cf' now p st = t \<or> sweep_peer N cf' now p st = t\<lparr>mg_peers := AList.delete (fst p) (mg_peers t)\<rparr>"
      "sinv k cf (sweep_peer N cf' now p st)"
    using sweep_peer_keeps [OF Cons.prems(1), of p N cf' now] Cons.prems(2) by auto
  have "set ps \<subseteq> set (mg_peers (sweep_peer N cf' now p st))"
  proof
    fix q
    assume q: "q \<in> set ps"
    then have "(fst q, snd q) \<in> set (mg_peers t)" using Cons.prems(2) by (intro keeps_peer_in [OF t(1) Cons.prems(1)]) auto
    moreover have "fst q \<noteq> fst p" using Cons.prems(3) q by (auto simp: image_iff)
    ultimately show "q \<in> set (mg_peers (sweep_peer N cf' now p st))" using t(2) by (auto simp: AList.delete_eq)
  qed
  moreover have "mg_closed (sweep_peer N cf' now p st) = mg_closed st" using t(1,2) by (auto simp: keeps_def after_def)
  ultimately show ?case using Cons.IH [OF t(3)] Cons.prems(3) by simp
qed simp

lemma sinv_sweep: "sinv k cf st \<Longrightarrow> sinv k cf (sweep_due N cf' st) \<and> mg_closed (sweep_due N cf' st) = mg_closed st"
  using sweep_fold [of k cf st "mg_peers st"] sinvD(1) [of k cf st] by (auto simp: sweep_due_def sweep_def peers_wf_def)

section \<open>No session survives a drop\<close>

lemma fold_ends:
  assumes f: "\<And>y st'. y \<in> set xs \<Longrightarrow> keeps k cf st st' \<Longrightarrow> keeps k cf st' (f y st')"
    and x: "x \<in> set xs" "\<And>st'. keeps k cf st st' \<Longrightarrow> s_ended (mg_sess (f x st') s)" and s: "s < mg_nsess st"
  shows "keeps k cf st st' \<Longrightarrow> s_ended (mg_sess (fold f xs st') s)"
  using f x(1)
proof (induction xs arbitrary: st')
  case (Cons y ys)
  have ky: "keeps k cf st (f y st')" using keeps_trans [OF Cons.prems(1) Cons.prems(2)] Cons.prems(1) by simp
  show ?case
  proof (cases "x \<in> set ys")
    case True
    then show ?thesis using Cons.IH [OF ky] Cons.prems(2) by simp
  next
    case False
    then have e: "s_ended (mg_sess (f y st') s)" using x(2) [OF Cons.prems(1)] Cons.prems(3) by simp
    have "keeps k cf (f y st') (fold f ys (f y st'))"
      by (rule keeps_fold [OF _ keeps_refl [OF keepsD(1) [OF ky]]]) (use Cons.prems(2) keeps_trans [OF ky] in simp)
    then show ?thesis using keepsD(5) [OF _ keepsD(2) [OF ky s] e] by simp
  qed
qed simp

lemma endSession_ends:
  assumes "sinv k cf st" "s < mg_nsess st"
  shows "s_ended (mg_sess (endSession (pump N cf') st s e) s)"
proof (cases "s_ended (mg_sess st s)")
  case False
  have "keeps k cf (end_state st s e) (pump N cf' (end_state st s e))" by (rule keeps_pump [OF sinv_ending [OF assms False]])
  then show ?thesis using keepsD(5) [of k cf "end_state st s e"] assms(2) False by (simp add: endSession_def end_state_fields)
qed (simp add: endSession_def)

lemma drop_peer_ends:
  assumes inv: "sinv k cf st" and s: "s < mg_nsess st" and a: "(s_peer (mg_sess st s), a) \<in> set (mg_peers st)"
  shows "s_ended (mg_sess (drop_peer N cf' err a st) s)"
proof -
  let ?f = "failPending st a err"
  have f: "keeps k cf st ?f" by (rule keeps_failPending [OF inv])
  have ss: "ps_sessions (mg_pst ?f a) = ps_sessions (mg_pst st a)" using tame_peers(2) [OF tame_failPending sinvD(1) [OF inv] a] p_coreD by metis
  have v: "x < mg_nsess ?f" if "x \<in> set (ps_sessions (mg_pst ?f a))" for x using sessions_valid [OF inv a] keepsD(2) [OF f] that ss by simp
  have step: "keeps k cf st' (endSession (pump N cf') st' x err)" if "x \<in> set (ps_sessions (mg_pst ?f a))" "keeps k cf ?f st'" for x st'
    using keeps_end [OF keepsD(1) [OF that(2)] keepsD(2) [OF that(2) v [OF that(1)]]] .
  show ?thesis
  proof (cases "s_ended (mg_sess st s)")
    case True
    have "keeps k cf ?f (drop_peer N cf' err a st)" unfolding drop_peer_def Let_def by (rule keeps_fold [OF step keeps_refl [OF keepsD(1) [OF f]]])
    then show ?thesis using keepsD(5) [OF _ keepsD(2) [OF f s] keepsD(5) [OF f s True]] by blast
  next
    case False
    then have "at_peer st s" using sinvD(4) [OF inv] s by (simp add: live_def)
    then have m: "s \<in> set (ps_sessions (mg_pst ?f a))" using peer_addr(3) [OF sinvD(1) [OF inv] a] ss by (auto simp: at_peer_def)
    have e: "s_ended (mg_sess (endSession (pump N cf') st' s err) s)" if "keeps k cf ?f st'" for st'
      by (rule endSession_ends [OF keepsD(1) [OF that] keepsD(2) [OF that v [OF m]]])
    show ?thesis unfolding drop_peer_def Let_def
      by (rule fold_ends [where st = ?f and f = "\<lambda>x st. endSession (pump N cf') st x err", OF step m e v [OF m] keeps_refl [OF keepsD(1) [OF f]]])
  qed
qed

lemma dropAll_ends:
  assumes inv: "sinv k cf st" and s: "s < mg_nsess st"
  shows "s_ended (mg_sess (dropAll N cf' st err) s)"
proof (cases "s_ended (mg_sess st s)")
  case True
  then show ?thesis using keepsD(5) [OF keeps_dropAll [OF inv] s] by blast
next
  case False
  then obtain a where a: "(s_peer (mg_sess st s), a) \<in> set (mg_peers st)" using sinvD(4) [OF inv] s by (auto simp: live_def at_peer_def)
  show ?thesis unfolding dropAll_def
  proof (rule fold_ends [OF _ a _ s keeps_refl [OF inv]])
    fix p and st' :: "('a, 'b) manager"
    assume "p \<in> set (mg_peers st)" and k: "keeps k cf st st'"
    then have "(fst p, snd p) \<in> set (mg_peers st')" by (intro keeps_peer_in [OF k inv]) simp
    then show "keeps k cf st' ((case p of (i, a) \<Rightarrow> drop_peer N cf' err a) st')" unfolding case_prod_beta by (rule keeps_drop_peer [OF keepsD(1) [OF k]])
  next
    fix st' :: "('a, 'b) manager"
    assume k: "keeps k cf st st'"
    have "(s_peer (mg_sess st' s), a) \<in> set (mg_peers st')" using keeps_peer_in [OF k inv a] keepsD(4) [OF k s] by simp
    then show "s_ended (mg_sess ((case (s_peer (mg_sess st s), a) of (i, a) \<Rightarrow> drop_peer N cf' err a) st') s)"
      using drop_peer_ends [OF keepsD(1) [OF k] keepsD(2) [OF k s]] by simp
  qed
qed

lemma close_ends:
  assumes "sinv k cf st" "\<not> mg_closed st"
  shows "live (close N cf' st) = {}" "mg_closed (close N cf' st)"
proof -
  let ?a = "st\<lparr>mg_closed := True, mg_paceTimer := False\<rparr>"
  have a: "sinv k cf ?a" by (simp add: sinv_fields assms)
  have k: "keeps k cf ?a (dropAll N cf' ?a (closedError []))" by (rule keeps_dropAll [OF a])
  have eq: "close N cf' st = dropAll N cf' ?a (closedError [])" using assms(2) by (simp add: close_def)
  have "after ?a (dropAll N cf' ?a (closedError []))" using k by (simp add: keeps_def)
  then have n: "mg_closed (close N cf' st)" "mg_nsess (close N cf' st) = mg_nsess ?a" unfolding eq after_def by simp_all
  then show "mg_closed (close N cf' st)" by blast
  show "live (close N cf' st) = {}" using dropAll_ends [OF a] n(2) by (auto simp: live_def eq)
qed

lemma live_after: "after st st' \<Longrightarrow> mg_closed st \<Longrightarrow> live st' \<subseteq> live st"
  by (auto simp: after_def live_def)

section \<open>Runs\<close>

text \<open>A new manager (\<open>newSessionManager\<close>), whatever the clocks, the roster and the relay connection.\<close>

definition initial :: "('c, 'h) manager \<Rightarrow> bool" where
  "initial st \<longleftrightarrow> mg_peers st = [] \<and> mg_npst st = 0 \<and> mg_nsess st = 0 \<and> mg_npend st = 0 \<and> mg_byIndex st = Map.empty \<and> \<not> mg_closed st
     \<and> mg_gate st = [] \<and> \<not> mg_pumping st \<and> \<not> mg_repump st \<and> \<not> mg_awaiting st \<and> mg_rateBps st = 0 \<and> \<not> mg_paceTimer st
     \<and> mg_limits st = newPeerLimits \<and> mg_stamps st = new_stamps (mg_mono st) \<and> \<not> mg_panicked st \<and> \<not> mg_stuck st \<and> mg_tasks st = [] \<and> mg_held st = []"

text \<open>An address at which no message lives: nothing refers to it.\<close>

fun task_out :: "task \<Rightarrow> addr option" where
  "task_out (TMore o') = Some o'"
| "task_out (TFinish o') = Some o'"
| "task_out (TCall (CbHead o') os oe) = Some o'"
| "task_out _ = None"

definition unused :: "('c, 'h) manager \<Rightarrow> addr \<Rightarrow> bool" where
  "unused st o' \<longleftrightarrow> o' \<notin> set (mg_gate st) \<and> (\<forall>t\<in>set (mg_tasks st). task_out t \<noteq> Some o') \<and> (\<forall>a<mg_npst st. o' \<notin> set (ps_queue (mg_pst st a)))
     \<and> (\<forall>p<mg_npend st. CbHead o' \<notin> set (p_waiters (mg_pend st p)))"

text \<open>
  A step: the application sends or takes a message or gives up on one, a task runs, the member or the
  relay calls the manager, a timer fires, the clock, the connection and the random source move on, or
  Go's map of peers is walked in another order. A manager that panicked takes no step.
\<close>

inductive mstep :: "('c, 'h) noise \<Rightarrow> config \<Rightarrow> ('c, 'h) manager \<Rightarrow> ('c, 'h) manager \<Rightarrow> bool" for N cf where
  m_send: "\<not> mg_panicked st \<Longrightarrow> unused st o' \<Longrightarrow> mstep N cf st (admit_out cf (upd_o st o' (\<lambda>_. new_out i b)) o')"
| m_withdraw: "\<not> mg_panicked st \<Longrightarrow> mstep N cf st (finishOut N cf st o' (Some e))"
| m_take: "\<not> mg_panicked st \<Longrightarrow> mstep N cf st (release_msg N cf st j)"
| m_task: "\<not> mg_panicked st \<Longrightarrow> mstep N cf st (next_task N cf st)"
| m_control: "\<not> mg_panicked st \<Longrightarrow> mstep N cf st (sendControl N cf st i msg n)"
| m_resume: "\<not> mg_panicked st \<Longrightarrow> mstep N cf st (resume N cf st)"
| m_frame: "\<not> mg_panicked st \<Longrightarrow> mstep N cf st (handleFrame N cf st f from)"
| m_roster: "\<not> mg_panicked st \<Longrightarrow> mstep N cf st (new_roster N cf st r)"
| m_drop: "\<not> mg_panicked st \<Longrightarrow> mstep N cf st (dropAll N cf st e)"
| m_close: "\<not> mg_panicked st \<Longrightarrow> mstep N cf st (close N cf st)"
| m_rate: "\<not> mg_panicked st \<Longrightarrow> mstep N cf st (setRate N cf st r)"
| m_credit: "\<not> mg_panicked st \<Longrightarrow> s < mg_nsess st \<Longrightarrow> s_creditTimer (mg_sess st s) \<Longrightarrow> mstep N cf st (credit_due N cf st s)"
| m_handshake: "\<not> mg_panicked st \<Longrightarrow> p < mg_npend st \<Longrightarrow> p_timer (mg_pend st p) \<Longrightarrow> mstep N cf st (handshake_due st a p)"
| m_pace: "\<not> mg_panicked st \<Longrightarrow> mg_paceTimer st \<Longrightarrow> mstep N cf st (pace_due N cf st)"
| m_drained: "\<not> mg_panicked st \<Longrightarrow> mg_awaiting st \<Longrightarrow> mstep N cf st (socket_drained N cf st)"
| m_sweep: "\<not> mg_panicked st \<Longrightarrow> mstep N cf st (sweep_due N cf st)"
| m_clock: "\<not> mg_panicked st \<Longrightarrow> mg_mono st \<le> t \<Longrightarrow> mstep N cf st (st\<lparr>mg_mono := t, mg_wall := w\<rparr>)"
| m_relay: "\<not> mg_panicked st \<Longrightarrow> mstep N cf st (st\<lparr>mg_connected := c, mg_writable := wr, mg_controlFeature := cc\<rparr>)"
| m_random: "\<not> mg_panicked st \<Longrightarrow> mstep N cf st (st\<lparr>mg_draws := ds\<rparr>)"
| m_order: "\<not> mg_panicked st \<Longrightarrow> mset ps = mset (mg_peers st) \<Longrightarrow> mstep N cf st (st\<lparr>mg_peers := ps\<rparr>)"

inductive mreach :: "('c, 'h) noise \<Rightarrow> config \<Rightarrow> ('c, 'h) manager \<Rightarrow> bool" for N cf where
  mr_init: "initial st \<Longrightarrow> mreach N cf st"
| mr_step: "mreach N cf st \<Longrightarrow> mstep N cf st st' \<Longrightarrow> mreach N cf st'"

lemma sinv_initial: "window_ok cf \<Longrightarrow> initial st \<Longrightarrow> sinv k cf st"
  by (auto simp: initial_def intro!: sinvI simp: peers_wf_def live_def indexed_def epi_def held_ok_def gate_ok_def)

lemma sinv_new_out:
  assumes inv: "sinv k cf st" and "unused st o'"
  shows "sinv k cf (upd_o st o' (\<lambda>_. new_out i b))"
proof (rule sinv_update [OF inv])
  let ?t = "upd_o st o' (\<lambda>_. new_out i b)"
  note D = sinvD [OF inv]
  have h: "mg_held ?t = mg_held st" by (simp add: upd_o_def)
  show "held_ok ?t" by (rule held_ok_cong [OF D(8)]) (simp_all add: upd_o_def)
  show "gate_ok ?t" using D(9) assms(2) by (auto simp: gate_ok_def upd_o_def unused_def)
  show "task_ok ?t t" if "t \<in> set (mg_tasks ?t)" for t
  proof -
    have t: "t \<in> set (mg_tasks st)" using that by (simp add: upd_o_def)
    then have "task_out t \<noteq> Some o'" using assms(2) by (simp add: unused_def)
    then show ?thesis using D(10) [OF t] by (auto simp: task_ok_def upd_o_def split: task.splits option.splits)
  qed
  show "buffer_ok cf ?t a" if "(j, a) \<in> set (mg_peers st)" for j a
    by (rule buffer_cong [OF D(3) [OF that]]) (simp_all add: held_same [OF h], simp_all add: upd_o_def)
  show "receiving cf ?t x" if "x < mg_nsess st" for x
    by (rule receiving_cong [OF D(7) [OF that]]) (simp_all add: held_same [OF h], simp_all add: upd_o_def)
qed (simp_all add: upd_o_def)

lemma sinv_order:
  assumes inv: "sinv k cf st" and "mset ps = mset (mg_peers st)"
  shows "sinv k cf (st\<lparr>mg_peers := ps\<rparr>)"
proof (rule sinvI)
  let ?t = "st\<lparr>mg_peers := ps\<rparr>"
  note D = sinvD [OF inv]
  have set: "set ps = set (mg_peers st)" using assms(2) by (metis set_mset_mset)
  have m: "mset (map fst ps) = mset (map fst (mg_peers st))" "mset (map snd ps) = mset (map snd (mg_peers st))" by (simp_all only: mset_map assms(2))
  have d: "distinct (map fst (mg_peers st))" "distinct (map snd (mg_peers st))" using D(1) by (simp_all only: peers_wf_def)
  have "distinct (map fst ps)" by (rule iffD2 [OF mset_eq_imp_distinct_iff [OF m(1)] d(1)])
  moreover have "distinct (map snd ps)" by (rule iffD2 [OF mset_eq_imp_distinct_iff [OF m(2)] d(2)])
  ultimately show "peers_wf ?t" using D(1) by (simp add: peers_wf_def set)
  show "indexed ?t" "epi ?t" "gate_ok ?t" "\<not> mg_stuck ?t" "window_ok cf" using D by (simp_all add: indexed_def live_def epi_def gate_ok_def)
  have t: "mg_held ?t = mg_held st" "mg_nsess ?t = mg_nsess st" "mg_peers ?t = ps" by simp_all
  show "held_ok ?t" using D(8) by (simp only: held_ok_def t set)
  show "task_ok ?t t" if "t \<in> set (mg_tasks ?t)" for t by (rule task_ok_mono [OF D(10)]) (use that in simp_all)
  show "at_peer ?t s" if "s \<in> live ?t" for s using D(4) [of s] that by (simp add: at_peer_def live_def set)
  show "receiving cf ?t s" if "s < mg_nsess ?t" for s
    by (rule receiving_cong [OF D(7)]) (use that in \<open>simp_all add: held_of_def uncredited_of_def\<close>)
  show "listed k ?t j b" if "(j, b) \<in> set (mg_peers ?t)" for j b
  proof -
    have l: "live ?t = live st" by (simp add: live_def)
    have "listed k st j b" using D(2) that set by simp
    then show ?thesis by (simp add: listed_def l)
  qed
  show "buffer_ok cf ?t b" if "(j, b) \<in> set (mg_peers ?t)" for j b
    by (rule buffer_cong [OF D(3) [of j b]]) (use that in \<open>simp_all add: set held_size_def held_count_def\<close>)
qed

text \<open>Every step keeps the invariant, and a closed manager keeps no session.\<close>

lemma mstep_keeps:
  assumes "mstep N cf st st'" "sinv slots cf st" "mg_closed st \<Longrightarrow> live st = {}"
  shows "sinv slots cf st' \<and> (mg_closed st' \<longrightarrow> live st' = {})"
proof -
  note inv = assms(2)
  have k: ?thesis if "keeps slots cf st st'"
    using that live_after [of st st'] assms(3) by (auto simp: keeps_def after_def)
  show ?thesis using assms(1)
  proof cases
    case (m_send o' i b)
    have "keeps slots cf st (upd_o st o' (\<lambda>_. new_out i b))" using m_send sinv_new_out [OF inv] by (intro keeps_field) (simp_all add: upd_o_def)
    then show ?thesis using k keeps_trans [OF _ keeps_admit] keepsD(1) m_send(1) by blast
  next
    case m_close
    then show ?thesis using sinv_close [OF inv] close_ends(1) [OF inv] assms(3) by (cases "mg_closed st") (auto simp: close_def)
  next
    case m_sweep
    show ?thesis
    proof (cases "mg_closed st")
      case True
      then show ?thesis using m_sweep inv assms(3) by (simp add: sweep_due_def)
    next
      case False
      then show ?thesis using m_sweep sinv_sweep [OF inv, of N cf] by simp
    qed
  next
    case (m_withdraw o' e)
    then show ?thesis using k keeps_finishOut [OF inv] by simp
  next
    case (m_take j)
    then show ?thesis using k keeps_release [OF inv] by simp
  next
    case m_task
    then show ?thesis using k keeps_next_task [OF inv] by simp
  next
    case (m_control i msg n)
    then show ?thesis using k keeps_sendControl [OF inv] by simp
  next
    case m_resume
    then show ?thesis using k keeps_resume [OF inv] by simp
  next
    case (m_frame f i)
    then show ?thesis using k keeps_handleFrame [OF inv] by simp
  next
    case (m_roster r)
    then show ?thesis using k keeps_new_roster [OF inv] by simp
  next
    case (m_drop e)
    then show ?thesis using k keeps_dropAll [OF inv] by simp
  next
    case (m_rate r)
    then show ?thesis using k keeps_setRate [OF inv] by simp
  next
    case (m_credit s)
    then show ?thesis using k keeps_credit_due [OF inv] by simp
  next
    case (m_handshake p a)
    then show ?thesis using k keeps_handshake_due [OF inv] by simp
  next
    case m_pace
    then show ?thesis using k keeps_pace_due [OF inv] by simp
  next
    case m_drained
    then show ?thesis using k keeps_socket_drained [OF inv] by simp
  qed (use inv assms(3) sinv_order [OF inv] in \<open>simp_all add: sinv_fields live_def\<close>)
qed

lemma mreach_inv:
  assumes "mreach N cf st" "window_ok cf"
  shows "sinv slots cf st \<and> (mg_closed st \<longrightarrow> live st = {})"
  using assms
proof (induction rule: mreach.induct)
  case (mr_init st)
  then show ?case using sinv_initial by (auto simp: initial_def)
next
  case (mr_step st st')
  then show ?case using mstep_keeps by blast
qed

section \<open>A run\<close>

text \<open>
  A short run with a toy Noise library: the member asks a peer for its roster, the peer answers the
  handshake, and sends a message of three bytes that the application has not taken.
\<close>

definition ex_noise :: "(nat, unit) noise" where
  "ex_noise = \<lparr>n_encrypt = (\<lambda>c b. Some (b, Suc c)), n_decrypt = (\<lambda>c b. Some (b, Suc c)), n_new = (\<lambda>_ _ _ _. Some ()),
     n_read = (\<lambda>_ _. Some (replicate 8 0, Some (0, 0), ())), n_write = (\<lambda>_ b. Some (b, None, ())), n_peer = (\<lambda>_. Some (replicate 32 0))\<rparr>"

definition ex_cf :: config where
  "ex_cf = \<lparr>cf_timing = \<lparr>t_Idle = 10 * Minute, t_RekeyInterval = 10 * Minute, t_RetireGrace = 30 * Second, t_RekeyMessages = 2 ^ 32\<rparr>,
     cf_window = InitialCredit, cf_self = [], cf_walk = map fst, cf_stamp_walk = id\<rparr>"

definition ex_id :: string where
  "ex_id = replicate 26 (CHR ''a'')"

definition ex_member :: RosterMember where
  "ex_member = \<lparr>rm_ID = ex_id, rm_Ed25519 = [], rm_X25519 = replicate 43 (CHR ''A''), rm_extra = []\<rparr>"

definition ex_session :: "bool \<Rightarrow> nat session" where
  "ex_session e = \<lparr>s_peer = ex_id, s_localIndex = 5, s_remoteIndex = 9, s_initiator = True, s_send = 0, s_recv = 0, s_createdAt = 0, s_lastActivity = 0, s_sent = 0,
     s_received = 0, s_ended = e, s_endErr = None, s_retired = False, s_activeSends = 0, s_sendCredit = InitialCredit, s_inflight = 0, s_rateAt = 0, s_rateCur = 0,
     s_ratePrev = 0, s_creditTimer = False, s_partial = ([], 0), s_partialLen = 0, s_partialCredited = 0, s_held = 0, s_owed = 0, s_allowance = InitialCredit\<rparr>"

definition ex_st0 :: "(nat, unit) manager" where
  "ex_st0 = \<lparr>mg_peers = [], mg_pst = (\<lambda>_. new_peerState), mg_npst = 0, mg_sess = (\<lambda>_. ex_session True), mg_nsess = 0,
     mg_pend = (\<lambda>_. \<lparr>p_peer = [], p_localIndex = 0, p_hs = (), p_timer = False, p_waiters = []\<rparr>), mg_npend = 0, mg_outs = (\<lambda>_. new_out [] []), mg_byIndex = Map.empty,
     mg_closed = False, mg_gate = [], mg_pumping = False, mg_repump = False, mg_awaiting = False, mg_rateBps = 0, mg_paceDue = 0, mg_paceTimer = False,
     mg_creditsSent = 0, mg_messagesReceived = 0, mg_initsRead = 0, mg_limits = newPeerLimits, mg_stamps = new_stamps 0, mg_draws = [5], mg_seed = 0,
     mg_panicked = False, mg_stuck = False, mg_tasks = [], mg_held = [], mg_connected = (\<lambda>_. True), mg_writable = (\<lambda>_. True), mg_asked = 0, mg_controlFeature = True, mg_lastSent = 0,
     mg_frames = [], mg_calls = [],
     mg_roster = \<lparr>u_Network = ''n'', u_Version = 1, u_IssuedAt = 0, u_Relay = [], u_NetworkKey = [], u_Primary = ex_id, u_Members = [ex_member], s_Signature = [], s_extra = []\<rparr>,
     mg_mono = 0, mg_wall = 1000\<rparr>"

definition ex_st1 :: "(nat, unit) manager" where
  "ex_st1 = sendControl ex_noise ex_cf ex_st0 ex_id (sm_plain sessRosterRequest []) 0"

definition ex_st2 :: "(nat, unit) manager" where
  "ex_st2 = handleFrame ex_noise ex_cf ex_st1 \<lparr>ftyp = frameHandshakeResp, fpeer = [], fbody = handshakeRespBody 9 5 []\<rparr> ex_id"

definition ex_st3 :: "(nat, unit) manager" where
  "ex_st3 = handleFrame ex_noise ex_cf ex_st2 \<lparr>ftyp = frameData, fpeer = [], fbody = dataBody 5 [1, 0, 7, 8, 9]\<rparr> ex_id"

lemma ex_codecs:
  "nodeIDToBytes ex_id = Some (replicate 16 0)" "fromB64uLen (replicate 43 (CHR ''A'')) 32 = Some (replicate 32 0)" "nextStampAfter 1000 0 = 1000"
  "parseHandshakeResp (handshakeRespBody 9 5 []) = Some (9, 5, [])" "Uint64 (replicate 8 0) = 0" "parseData (dataBody 5 [1, 0, 7, 8, 9]) = Some (5, [1, 0, 7, 8, 9])"
  "decodeSessionMessage [1, 0, 7, 8, 9] = Some (sm_message False [7, 8, 9])"
  by code_simp+

lemma ex_member: "member_in [ex_member] ex_id = Some ex_member" "rm_X25519 ex_member = replicate 43 (CHR ''A'')"
  by (simp_all add: member_in_def bsearch.simps ex_member_def)

lemma ex_st1:
  "ex_st1 = ex_st0\<lparr>mg_peers := [(ex_id, 0)], mg_pst := (\<lambda>_. new_peerState)(0 := new_peerState\<lparr>ps_pending := Some 0\<rparr>), mg_npst := 1,
     mg_pend := (mg_pend ex_st0)(0 := \<lparr>p_peer = ex_id, p_localIndex = 5, p_hs = (), p_timer = True, p_waiters = [CbControl (sm_plain sessRosterRequest []) 0]\<rparr>),
     mg_npend := 1, mg_byIndex := [5 \<mapsto> EP 0], mg_draws := [], mg_seed := 1, mg_asked := 1, mg_lastSent := 1000,
     mg_frames := [frameVersion # frameHandshakeInit # replicate 16 0 @ be_bytes 4 5 @ be_bytes 8 (Suc 0) @ be_bytes 8 1000]\<rparr>"
  unfolding ex_st1_def sendControl_def ensureSession_def initiate_def
  by (simp add: ex_st0_def member_roster_def member_of_def ex_member peer_def new_peerState_def ex_noise_def newIndex_def upd_defs
     sendFrame_def ex_codecs encodeFrame_def frameHeader_def maxFrame_def handshakeInitBody_def u32be_def u64be_def cong: if_cong)

lemma ex_st2:
  "ex_st2 = ex_st1\<lparr>mg_pst := (\<lambda>_. new_peerState)(0 := new_peerState\<lparr>ps_current := Some 0, ps_sessions := [0]\<rparr>), mg_sess := (\<lambda>_. ex_session True)(0 := ex_session False),
     mg_nsess := 1, mg_pend := (mg_pend ex_st1)(0 := (mg_pend ex_st1 0)\<lparr>p_timer := False\<rparr>), mg_byIndex := [5 \<mapsto> ES 0],
     mg_tasks := [TCall (CbControl (sm_plain sessRosterRequest []) 0) (Some 0) None], mg_calls := [PeerVersion ex_id 0]\<rparr>"
  unfolding ex_st2_def handleFrame_def onResp_def ex_st1
  by (simp add: ex_codecs ex_st0_def peer_def new_peerState_def ex_noise_def member_roster_def member_of_def ex_member sameKey_def upd_defs newSession_def adopt_def ex_cf_def
     InitialCredit_def Let_def frame_type_defs trim_sessions.simps maxSessionsPerPeer_def ex_session_def)

lemma ex_st3:
  "ex_st3 = ex_st2\<lparr>mg_pst := (\<lambda>_. new_peerState)(0 := new_peerState\<lparr>ps_current := Some 0, ps_sessions := [0], ps_buffered := 3, ps_heldCount := 1\<rparr>),
     mg_sess := (\<lambda>_. ex_session True)(0 := (ex_session False)\<lparr>s_recv := 1, s_received := 1, s_held := 1, s_allowance := InitialCredit - 3\<rparr>), mg_messagesReceived := 1,
     mg_held := [\<lparr>h_from = ex_id, h_bytes = [7, 8, 9], h_s = 0, h_ps = 0, h_size = 3, h_uncredited = 3\<rparr>]\<rparr>"
  unfolding ex_st3_def handleFrame_def onData_def ex_st2 ex_st1
  by (simp add: ex_codecs ex_st0_def peer_def new_peerState_def ex_noise_def expired_def crossing_def upd_defs Let_def sm_message_def onFragment_def MaxMessage_def
    peerBufferLimit_def ex_cf_def InitialCredit_def maxHeldMessagesPerPeer_def maxNoiseMessage_def growAppend_def maybeRekey_def Minute_def Second_def frame_type_defs
    ex_session_def sess_defs)

lemma ex_reach: "mreach ex_noise ex_cf ex_st3" "window_ok ex_cf"
proof -
  have "initial ex_st0" by (simp add: initial_def ex_st0_def)
  then have "mreach ex_noise ex_cf ex_st0" by (rule mr_init)
  moreover have "mstep ex_noise ex_cf ex_st0 ex_st1" unfolding ex_st1_def by (rule m_control) (simp add: ex_st0_def)
  moreover have "mstep ex_noise ex_cf ex_st1 ex_st2" unfolding ex_st2_def by (rule m_frame) (simp add: ex_st1 ex_st0_def)
  moreover have "mstep ex_noise ex_cf ex_st2 ex_st3" unfolding ex_st3_def by (rule m_frame) (simp add: ex_st2 ex_st1 ex_st0_def)
  ultimately show "mreach ex_noise ex_cf ex_st3" using mr_step by blast
  show "window_ok ex_cf" by (simp add: window_ok_def ex_cf_def InitialCredit_def)
qed

section \<open>Properties\<close>

text \<open>
  C16. Credit is conserved. Whatever a peer, the relay and the application do, in every state a member's
  session manager reaches, for each live session, the bytes the peer may still send, the credit it is
  owed, the bytes of a message in progress not credited back and the uncredited bytes of messages the
  application has not taken make up exactly the window the member was configured with; none of the
  first three is negative. So a peer is never owed more than the window, and can never have more
  than the window here uncredited.
\<close>

theorem credit_conserved:
  assumes "window_ok cf" "mreach N cf st" "s < mg_nsess st" "\<not> s_ended (mg_sess st s)"
  shows "s_allowance (mg_sess st s) + s_owed (mg_sess st s) + (s_partialLen (mg_sess st s) - s_partialCredited (mg_sess st s))
      + (\<Sum>h\<leftarrow>filter (\<lambda>h. h_s h = s) (mg_held st). h_uncredited h) = cf_window cf
    \<and> 0 \<le> s_allowance (mg_sess st s) \<and> 0 \<le> s_owed (mg_sess st s) \<and> 0 \<le> s_partialLen (mg_sess st s) - s_partialCredited (mg_sess st s)"
proof -
  have "receiving cf st s" using mreach_inv [OF assms(2,1)] sinvD(7) assms(3) by blast
  then show ?thesis using assms(4) by (simp add: receiving_def Let_def uncredited_of_def)
qed

theorem credit_conserved_witness:
  "s_allowance (mg_sess ex_st3 0) + s_owed (mg_sess ex_st3 0) + (s_partialLen (mg_sess ex_st3 0) - s_partialCredited (mg_sess ex_st3 0))
      + (\<Sum>h\<leftarrow>filter (\<lambda>h. h_s h = 0) (mg_held ex_st3). h_uncredited h) = cf_window ex_cf \<and> length (mg_held ex_st3) = 1"
  using credit_conserved [OF ex_reach(2,1), of 0] by (simp add: ex_st3 ex_st2 ex_session_def)

text \<open>
  The least capacity. The first fragment of a message, if it has at most 4096 bytes, makes a buffer of
  4096 bytes whatever its size: below 2048 bytes received that is more than twice the payload, the
  bound that \<open>growAppend\<close>'s comment (\<open>one byte included\<close>) and the protocol document state.
\<close>

lemma growAppend_first_fragment:
  assumes "b \<noteq> []" "length b \<le> 4096"
  shows "snd (growAppend ([], 0) b) = 4096 \<and> (snd (growAppend ([], 0) b) > 2 * length b \<longleftrightarrow> length b < 2048)"
  using assms by (simp add: growAppend_def MaxMessage_def)

text \<open>
  C17. What a peer leaves buffered is counted exactly and bounded. In every state reached, a peer's
  \<open>buffered\<close> is the number of bytes of the messages in progress on its sessions and of its messages the
  application has not taken; it never exceeds two messages of 64 MiB and four windows; \<open>heldCount\<close> is
  the number of the latter, at most 65536; and the buffer of a message in progress takes at most
  4096 bytes or twice the bytes received, whichever is more, and never more than 64 MiB. Twice the
  bytes received alone is not a bound: the first fragment of a message takes 4096 bytes however short it is,
  more than twice its payload below 2048 bytes.
\<close>

theorem buffers_exact:
  assumes "window_ok cf" "mreach N cf st" "(i, a) \<in> set (mg_peers st)"
  shows "ps_buffered (mg_pst st a) = (\<Sum>s\<leftarrow>ps_sessions (mg_pst st a). int (length (fst (s_partial (mg_sess st s))))) + (\<Sum>h\<leftarrow>filter (\<lambda>h. h_ps h = a) (mg_held st). int (length (h_bytes h)))
    \<and> ps_buffered (mg_pst st a) \<le> 2 * MaxMessage + 4 * cf_window cf
    \<and> ps_heldCount (mg_pst st a) = int (length (filter (\<lambda>h. h_ps h = a) (mg_held st))) \<and> ps_heldCount (mg_pst st a) \<le> 65536
    \<and> (\<forall>s\<in>set (ps_sessions (mg_pst st a)). snd (s_partial (mg_sess st s)) \<le> max 4096 (2 * length (fst (s_partial (mg_sess st s)))) \<and> int (snd (s_partial (mg_sess st s))) \<le> MaxMessage)
    \<and> (\<forall>b. b \<noteq> [] \<and> length b < 2048 \<longrightarrow> snd (growAppend ([], 0) b) = 4096 \<and> snd (growAppend ([], 0) b) > 2 * length b)"
proof -
  have inv: "sinv slots cf st" using mreach_inv [OF assms(2,1)] by blast
  note D = sinvD [OF inv]
  have s: "int (length (fst (s_partial (mg_sess st s)))) = s_partialLen (mg_sess st s)" "slice_ok (s_partial (mg_sess st s))"
    if "s \<in> set (ps_sessions (mg_pst st a))" for s
    using D(7) [OF sessions_valid [OF inv assms(3) that]] by (simp_all add: receiving_def Let_def)
  have 1: "(\<Sum>s\<leftarrow>ps_sessions (mg_pst st a). int (length (fst (s_partial (mg_sess st s))))) = (\<Sum>s\<leftarrow>ps_sessions (mg_pst st a). s_partialLen (mg_sess st s))"
    by (rule arg_cong [of _ _ sum_list], rule map_cong) (simp_all add: s(1))
  have 2: "(\<Sum>h\<leftarrow>filter (\<lambda>h. h_ps h = a) (mg_held st). int (length (h_bytes h))) = held_size st a"
    unfolding held_size_def by (rule arg_cong [of _ _ sum_list], rule map_cong) (use D(8) in \<open>auto simp: held_ok_def\<close>)
  show ?thesis
    using D(3) [OF assms(3)] s(2) growAppend_first_fragment unfolding 1 2
    by (simp add: buffer_ok_def held_count_def peerBufferLimit_def maxHeldMessagesPerPeer_def slice_ok_def)
qed

theorem buffers_exact_witness:
  "ps_buffered (mg_pst ex_st3 0) = (\<Sum>s\<leftarrow>ps_sessions (mg_pst ex_st3 0). int (length (fst (s_partial (mg_sess ex_st3 s))))) + (\<Sum>h\<leftarrow>filter (\<lambda>h. h_ps h = 0) (mg_held ex_st3). int (length (h_bytes h)))
   \<and> ps_buffered (mg_pst ex_st3 0) = 3"
  using buffers_exact [OF ex_reach(2,1), of ex_id 0] by (simp add: ex_st3 ex_st2 ex_st1)

text \<open>
  C18. The tables agree. In every state reached, the sessions a peer lists are distinct, at most eight,
  live and the peer's own; every live session is listed by its peer; a receiver index leads to a
  session exactly when that session is live and the index is its own, so two live sessions never
  share one; and the peer's current session, when it is live, is among those listed.
\<close>

theorem session_tables:
  assumes "window_ok cf" "mreach N cf st"
  shows "(\<forall>(i, a)\<in>set (mg_peers st). distinct (ps_sessions (mg_pst st a)) \<and> length (ps_sessions (mg_pst st a)) \<le> 8
      \<and> (\<forall>s. s \<in> set (ps_sessions (mg_pst st a)) \<longleftrightarrow> s \<in> live st \<and> s_peer (mg_sess st s) = i)
      \<and> (\<forall>c. ps_current (mg_pst st a) = Some c \<and> c \<in> live st \<longrightarrow> c \<in> set (ps_sessions (mg_pst st a))))
    \<and> (\<forall>s\<in>live st. s_peer (mg_sess st s) \<in> fst ` set (mg_peers st))
    \<and> (\<forall>i s. mg_byIndex st i = Some (ES s) \<longleftrightarrow> s \<in> live st \<and> s_localIndex (mg_sess st s) = i)"
proof -
  have inv: "sinv slots cf st" using mreach_inv [OF assms(2,1)] by blast
  note D = sinvD [OF inv]
  have "s \<in> set (ps_sessions (mg_pst st a)) \<longleftrightarrow> s \<in> live st \<and> s_peer (mg_sess st s) = i" if "(i, a) \<in> set (mg_peers st)" for i a s
  proof
    assume "s \<in> live st \<and> s_peer (mg_sess st s) = i"
    then show "s \<in> set (ps_sessions (mg_pst st a))" using D(4) [of s] peer_addr(3) [OF D(1) that] by (auto simp: at_peer_def)
  qed (use D(2) [OF that] in \<open>simp add: listed_def\<close>)
  moreover have "s_peer (mg_sess st s) \<in> fst ` set (mg_peers st)" if "s \<in> live st" for s using D(4) [OF that] by (force simp: at_peer_def)
  moreover have "distinct (ps_sessions (mg_pst st a)) \<and> length (ps_sessions (mg_pst st a)) \<le> 8
      \<and> (\<forall>c. ps_current (mg_pst st a) = Some c \<and> c \<in> live st \<longrightarrow> c \<in> set (ps_sessions (mg_pst st a)))" if "(i, a) \<in> set (mg_peers st)" for i a
    using D(2) [OF that] by (auto simp: listed_def maxSessionsPerPeer_def)
  ultimately show ?thesis using D(5) by (auto simp: indexed_def)
qed

theorem session_tables_witness:
  "mg_byIndex ex_st3 5 = Some (ES 0) \<and> 0 \<in> live ex_st3 \<and> s_localIndex (mg_sess ex_st3 0) = 5"
proof -
  have "mg_byIndex ex_st3 5 = Some (ES 0)" by (simp add: ex_st3 ex_st2)
  moreover note conjunct2 [OF conjunct2 [OF session_tables [OF ex_reach(2,1)]]]
  ultimately show ?thesis by simp
qed

text \<open>
  C20. The session manager never dereferences nil and always returns. In no state reached has a message
  come to the gate without a session, a callback run without a session or an error, or \<open>adopt\<close>'s loop
  that ends the oldest sessions gone on without ending one.
\<close>

theorem manager_never_stuck:
  assumes "window_ok cf" "mreach N cf st"
  shows "\<not> mg_stuck st"
  using mreach_inv [OF assms(2,1)] sinvD(11) by blast

theorem manager_never_stuck_witness: "\<not> mg_stuck ex_st3 \<and> mg_nsess ex_st3 = 1"
  using manager_never_stuck [OF ex_reach(2,1)] by (simp add: ex_st3 ex_st2)

text \<open>
  C19. Nothing survives \<open>close\<close>: once the manager is closed every session is ended, and stays so; no later
  frame, task, timer or roster makes another.
\<close>

theorem closed_ends_sessions:
  assumes "window_ok cf" "mreach N cf st" "mg_closed st" "s < mg_nsess st"
  shows "s_ended (mg_sess st s)"
  using mreach_inv [OF assms(2,1)] assms(3,4) by (auto simp: live_def)

theorem closed_ends_sessions_witness: "s_ended (mg_sess (close ex_noise ex_cf ex_st3) 0) \<and> \<not> s_ended (mg_sess ex_st3 0)"
proof -
  have p: "\<not> mg_panicked ex_st3" "\<not> mg_closed ex_st3" "0 < mg_nsess ex_st3" "\<not> s_ended (mg_sess ex_st3 0)"
    by (simp_all add: ex_st3 ex_st2 ex_st1 ex_st0_def ex_session_def)
  have inv: "sinv slots ex_cf ex_st3" using mreach_inv [OF ex_reach] by blast
  have "mreach ex_noise ex_cf (close ex_noise ex_cf ex_st3)" using mr_step [OF ex_reach(1) m_close [OF p(1)]] .
  moreover have "mg_closed (close ex_noise ex_cf ex_st3)" by (rule close_ends(2) [OF inv p(2)])
  moreover have "0 < mg_nsess (close ex_noise ex_cf ex_st3)"
  proof -
    let ?a = "ex_st3\<lparr>mg_closed := True, mg_paceTimer := False\<rparr>"
    have "keeps slots ex_cf ?a (dropAll ex_noise ex_cf ?a (closedError []))" by (rule keeps_dropAll) (simp add: sinv_fields inv)
    then show ?thesis using keepsD(2) [of slots ex_cf ?a _ 0] p(2,3) by (simp add: close_def)
  qed
  ultimately show ?thesis using closed_ends_sessions [OF ex_reach(2)] p(4) by blast
qed

end
