(* ===== verification/Spake2.thy ===== *)
theory Spake2
  imports Ed25519
begin

text \<open>
  SPAKE2 over P-256, the key exchange of pairing (\<open>client-go/spake2.go\<close>). Scalars are four 64-bit
  limbs, least significant first, reduced bit by bit in constant time; that arithmetic is modelled on
  words as the code has it and shown to be the arithmetic of numbers modulo the group's order. The group
  (\<open>filippo.io/nistec\<close>), HKDF, SHA-256 and HMAC are the fields of \<open>suite\<close>; a point is of any type
  \<open>'p\<close>. An error is \<open>None\<close>.
\<close>

unbundle bit_operations_syntax

section \<open>Scalars modulo the order\<close>

definition p256N :: bytes where
  "p256N = unhex ''ffffffff00000000ffffffffffffffffbce6faada7179e84f3b9cac2fc632551''"

text \<open>A limb \<open>i\<close> is the eight bytes from \<open>24 - 8 * i\<close>.\<close>

definition limbs :: "bytes \<Rightarrow> u64 list" where
  "limbs b = map (\<lambda>i. Uint64 (drop (24 - 8 * i) b)) [0, 1, 2, 3]"

definition limbBytes :: "u64 list \<Rightarrow> bytes" where
  "limbBytes l = concat (map u64be (rev l))"

definition p256NLimbs :: "u64 list" where
  "p256NLimbs = limbs p256N"

text \<open>\<open>bits.Sub64\<close>: the difference, and the borrow out.\<close>

definition Sub64 :: "u64 \<Rightarrow> u64 \<Rightarrow> u64 \<Rightarrow> u64 \<times> u64" where
  "Sub64 x y borrow = (x - y - borrow, if unat x < unat y + unat borrow then 1 else 0)"

text \<open>The loops over the limbs: shifting a bit in, subtracting, and choosing by a mask.\<close>

fun shift_in :: "u64 list \<Rightarrow> u64 \<Rightarrow> u64 list \<times> u64" where
  "shift_in [] c = ([], c)"
| "shift_in (r # rs) c = (case shift_in rs (drop_bit 63 r) of (rs', c') \<Rightarrow> (((push_bit 1 r) OR c) # rs', c'))"

fun sub_limbs :: "u64 list \<Rightarrow> u64 list \<Rightarrow> u64 \<Rightarrow> u64 list \<times> u64" where
  "sub_limbs (x # xs) (y # ys) borrow =
     (case Sub64 x y borrow of (d, borrow') \<Rightarrow> (case sub_limbs xs ys borrow' of (ds, b) \<Rightarrow> (d # ds, b)))"
| "sub_limbs _ _ borrow = ([], borrow)"

definition reduce_bit :: "u64 list \<Rightarrow> u64 \<Rightarrow> u64 list" where
  "reduce_bit r c =
     (case shift_in r c of (r, c) \<Rightarrow>
      case sub_limbs r p256NLimbs 0 of (d, borrow) \<Rightarrow>
        let mask = - (c OR (borrow XOR 1)) in map2 (\<lambda>r d. (r AND NOT mask) OR (d AND mask)) r d)"

definition reduce_byte :: "u64 list \<Rightarrow> byte \<Rightarrow> u64 list" where
  "reduce_byte r x = foldl (\<lambda>r i. reduce_bit r (ucast (drop_bit i x) AND 1)) r [7, 6, 5, 4, 3, 2, 1, 0]"

definition reduceModN :: "bytes \<Rightarrow> bytes" where
  "reduceModN b = limbBytes (foldl reduce_byte [0, 0, 0, 0] b)"

definition negModN :: "bytes \<Rightarrow> bytes" where
  "negModN s = limbBytes (fst (sub_limbs p256NLimbs (limbs s) 0))"

definition isZero32 :: "bytes \<Rightarrow> bool" where
  "isZero32 s \<longleftrightarrow> s = replicate 32 0"

section \<open>The primitives\<close>

record 'p suite =
  su_SetBytes :: "bytes \<Rightarrow> 'p option"
  su_Bytes :: "'p \<Rightarrow> bytes"
  su_Add :: "'p \<Rightarrow> 'p \<Rightarrow> 'p"
  su_ScalarMult :: "'p \<Rightarrow> bytes \<Rightarrow> 'p option"
  su_ScalarBaseMult :: "bytes \<Rightarrow> 'p option"
  su_hkdf :: "bytes \<Rightarrow> bytes \<Rightarrow> bytes \<Rightarrow> nat \<Rightarrow> bytes option"
  su_sha :: "bytes \<Rightarrow> bytes"
  su_hmac :: "bytes \<Rightarrow> bytes \<Rightarrow> bytes"

definition spake2IDA :: bytes where "spake2IDA = str_bytes ''frontier-link/1/newcomer''"
definition spake2IDB :: bytes where "spake2IDB = str_bytes ''frontier-link/1/primary''"

text \<open>The points M and N; the program does not start where they are not points (\<open>mustPoint\<close>).\<close>

definition spake2M :: "'p suite \<Rightarrow> 'p option" where
  "spake2M S = su_SetBytes S (unhex ''02886e2f97ace46e55ba9dd7242579f2993b64e16ef3dcab95afd497333d8fa12f'')"

definition spake2N :: "'p suite \<Rightarrow> 'p option" where
  "spake2N S = su_SetBytes S (unhex ''03d8bbd6c639c62937b04d997f38c3770719c629d7014d49a24b4f98baa1292b49'')"

definition deriveW :: "'p suite \<Rightarrow> string \<Rightarrow> bytes option" where
  "deriveW S code =
     (case su_hkdf S (str_bytes code) [] (str_bytes ''frontier-link/1/spake2/w'') 40 of
        None \<Rightarrow> None
      | Some wide \<Rightarrow> let w = reduceModN wide in if isZero32 w then None else Some w)"

definition scalarFromRandom :: "bytes \<Rightarrow> bytes option" where
  "scalarFromRandom r = (if length r \<noteq> 48 then None else Some (reduceModN r))"

section \<open>The exchange\<close>

record spake2Keys =
  k_K :: bytes
  k_TT :: bytes
  k_Hash :: bytes
  k_Ke :: bytes
  k_Ka :: bytes
  k_KcA :: bytes
  k_KcB :: bytes
  k_CA :: bytes
  k_CB :: bytes
  k_ours :: bytes
  k_theirs :: bytes

record spake2 =
  sp_roleA :: bool
  sp_w :: bytes
  sp_xy :: bytes
  sp_idA :: bytes
  sp_idB :: bytes
  sp_aad :: bytes
  sp_share :: bytes

text \<open>
  The secret scalar: fixed, or drawn until it is not zero from the 48-byte draws the random source
  gives in turn. The draws of a run are a list, which ends where the source fails: \<open>None\<close> then.
\<close>

fun draw_scalar :: "bytes list \<Rightarrow> bytes option" where
  "draw_scalar [] = None"
| "draw_scalar (r # rs) =
     (case scalarFromRandom r of None \<Rightarrow> None | Some xy \<Rightarrow> if isZero32 xy then draw_scalar rs else Some xy)"

definition newSpake2 :: "'p suite \<Rightarrow> bool \<Rightarrow> bytes \<Rightarrow> bytes option \<Rightarrow> bytes list \<Rightarrow> bytes \<Rightarrow> bytes \<Rightarrow> bytes \<Rightarrow> spake2 option" where
  "newSpake2 S roleA w sc draws idA idB aad =
     (let w = reduceModN w in
      if isZero32 w then None
      else case (case sc of
                   Some x \<Rightarrow> let xy = reduceModN x in if isZero32 xy then None else Some xy
                 | None \<Rightarrow> draw_scalar draws) of
             None \<Rightarrow> None
           | Some xy \<Rightarrow>
               (case (if roleA then spake2M S else spake2N S) of
                  None \<Rightarrow> None
                | Some blind \<Rightarrow>
                    (case (su_ScalarMult S blind w, su_ScalarBaseMult S xy) of
                       (Some wb, Some xg) \<Rightarrow>
                         let share = su_Bytes S (su_Add S wb xg)
                         in if length share \<noteq> 65 then None
                            else Some \<lparr>sp_roleA = roleA, sp_w = w, sp_xy = xy, sp_idA = idA, sp_idB = idB, sp_aad = aad, sp_share = share\<rparr>
                     | _ \<Rightarrow> None)))"

text \<open>The transcript: each part behind its length, eight bytes, least significant first.\<close>

definition AppendUint64_le :: "bytes \<Rightarrow> u64 \<Rightarrow> bytes" where
  "AppendUint64_le b x = b @ rev (u64be x)"

definition transcript :: "bytes list \<Rightarrow> bytes" where
  "transcript parts = foldl (\<lambda>tt part. AppendUint64_le tt (word_of_nat (length part)) @ part) [] parts"

text \<open>The end of \<open>finish\<close>: the keys from the shared point.\<close>

definition shared_keys :: "'p suite \<Rightarrow> spake2 \<Rightarrow> bytes \<Rightarrow> bytes \<Rightarrow> spake2Keys option" where
  "shared_keys S s peerShare K =
     (let (pA, pB) = (if sp_roleA s then (sp_share s, peerShare) else (peerShare, sp_share s));
          tt = transcript [sp_idA s, sp_idB s, pA, pB, K, sp_w s];
          sum = su_sha S tt; Ke = take 16 sum; Ka = take 16 (drop 16 sum)
      in case su_hkdf S Ka [] (str_bytes ''ConfirmationKeys'' @ sp_aad s) 32 of
           None \<Rightarrow> None
         | Some kc \<Rightarrow>
             let KcA = take 16 kc; KcB = drop 16 kc; CA = su_hmac S KcA tt; CB = su_hmac S KcB tt
             in Some \<lparr>k_K = K, k_TT = tt, k_Hash = sum, k_Ke = Ke, k_Ka = Ka, k_KcA = KcA, k_KcB = KcB, k_CA = CA, k_CB = CB,
                      k_ours = (if sp_roleA s then CA else CB), k_theirs = (if sp_roleA s then CB else CA)\<rparr>)"

definition finish :: "'p suite \<Rightarrow> spake2 \<Rightarrow> bytes \<Rightarrow> spake2Keys option" where
  "finish S s peerShare =
     (if length peerShare \<noteq> 65 \<or> peerShare ! 0 \<noteq> 4 then None
      else case su_SetBytes S peerShare of
        None \<Rightarrow> None
      | Some peer \<Rightarrow>
          (case (if sp_roleA s then spake2N S else spake2M S) of
             None \<Rightarrow> None
           | Some unblind \<Rightarrow>
               (case su_ScalarMult S unblind (negModN (sp_w s)) of
                  None \<Rightarrow> None
                | Some wu \<Rightarrow>
                    let t = su_Add S peer wu
                    in if length (su_Bytes S t) \<noteq> 65 then None
                       else case su_ScalarMult S t (sp_xy s) of
                         None \<Rightarrow> None
                       | Some kp \<Rightarrow> if length (su_Bytes S kp) \<noteq> 65 then None else shared_keys S s peerShare (su_Bytes S kp))))"

definition verifyConfirmation :: "spake2Keys \<Rightarrow> bytes \<Rightarrow> bool" where
  "verifyConfirmation k received \<longleftrightarrow> received = k_theirs k"

section \<open>The value of limbs\<close>

fun lval :: "u64 list \<Rightarrow> nat" where
  "lval [] = 0"
| "lval (x # xs) = unat x + 2 ^ 64 * lval xs"

lemma lval_bound: "lval xs < 2 ^ (64 * length xs)"
proof (induction xs)
  case (Cons x xs)
  have "unat x < 2 ^ 64" using unsigned_less [of x, where 'a = nat] by simp
  then have "unat x + 2 ^ 64 * lval xs < 2 ^ 64 * Suc (lval xs)" by simp
  also have "\<dots> \<le> 2 ^ 64 * 2 ^ (64 * length xs)" using Cons.IH by (intro mult_le_mono2) simp
  finally show ?case by (simp add: power_add)
qed simp

lemma shift_split: "2 * u mod (2 * m) + 2 * m * (u div m) = 2 * (u :: nat)"
  unfolding mult_mod_right [symmetric] mult.assoc distrib_left [symmetric] by simp

lemma shift_limb:
  assumes "unat (c :: u64) \<le> 1"
  shows "unat (push_bit 1 r OR c) + 2 ^ 64 * unat (drop_bit 63 r :: u64) = 2 * unat r + unat c" "unat (drop_bit 63 r :: u64) \<le> 1"
proof -
  have b: "unat r < 2 ^ 64" using unsigned_less [of r, where 'a = nat] by simp
  have d: "unat (drop_bit 63 r :: u64) = unat r div 2 ^ 63" using b by (simp only: unsigned_drop_bit_eq) (simp add: drop_bit_eq_div take_bit_eq_mod)
  have p: "unat (push_bit 1 r :: u64) = (2 * unat r) mod 2 ^ 64"
    by (simp only: unsigned_push_bit_eq) (simp add: push_bit_eq_mult take_bit_eq_mod mult.commute)
  have ev: "even (push_bit 1 r :: u64)" by simp
  consider "c = 0" | "c = 1" using assms by (metis le_Suc_eq le_zero_eq One_nat_def unat_0 unat_1 word_unat_eq_iff)
  then have o: "unat (push_bit 1 r OR c) = unat (push_bit 1 r :: u64) + unat c"
  proof cases
    case 2
    have "(push_bit 1 r OR 1 :: u64) = push_bit 1 r + 1" using ev by (simp only: or_one_eq) simp
    moreover have "unat (push_bit 1 r + 1 :: u64) = unat (push_bit 1 r :: u64) + 1"
    proof -
      have "even (2 * unat r mod 2 ^ 64)" "odd (2 ^ 64 - 1 :: nat)" by (simp_all add: dvd_mod_iff)
      then have "2 * unat r mod 2 ^ 64 \<noteq> 2 ^ 64 - 1" by metis
      moreover have "2 * unat r mod 2 ^ 64 < 2 ^ 64" by simp
      ultimately have "unat (push_bit 1 r :: u64) + 1 < 2 ^ 64" unfolding p by linarith
      then show ?thesis by (simp add: unat_word_ariths)
    qed
    ultimately show ?thesis using 2 by simp
  qed simp
  show "unat (push_bit 1 r OR c) + 2 ^ 64 * unat (drop_bit 63 r :: u64) = 2 * unat r + unat c" 
    using shift_split [of "unat r" "2 ^ 63"] unfolding o p d by simp
  show "unat (drop_bit 63 r :: u64) \<le> 1" unfolding d using b by (simp add: less_mult_imp_div_less flip: less_Suc_eq_le)
qed

lemma borrow_val:
  assumes "x < M" "y < M" "b \<le> (1 :: nat)" "int d = (int x - int y - int b) mod int M"
  shows "d + y + b = x + M * (if x < y + b then 1 else 0)"
proof (cases "x < y + b")
  case True
  have "int d = (int x - int y - int b + int M) mod int M" using assms(4) by simp
  also have "\<dots> = int x - int y - int b + int M" using True assms by (intro mod_pos_pos_trivial) auto
  finally show ?thesis using True by simp
next
  case False
  then have "int d = int x - int y - int b" using assms by (simp add: mod_pos_pos_trivial)
  then show ?thesis using False by simp
qed

lemma Sub64_val:
  assumes "Sub64 x y b = (d, b')" "unat b \<le> 1"
  shows "unat d + unat y + unat b = unat x + 2 ^ 64 * unat b'" "unat b' \<le> 1"
proof -
  have bx: "unat x < 2 ^ 64" "unat y < 2 ^ 64" using unsigned_less [of x, where 'a = nat] unsigned_less [of y, where 'a = nat] by simp_all
  have d: "d = x - y - b" "b' = (if unat x < unat y + unat b then 1 else 0)" using assms(1) by (auto simp: Sub64_def)
  have "uint d = (int (unat x) - int (unat y) - int (unat b)) mod 2 ^ 64"
    unfolding d(1) by (simp add: uint_word_ariths mod_simps)
  then have "int (unat d) = (int (unat x) - int (unat y) - int (unat b)) mod 2 ^ 64" by simp
  then have "unat d + unat y + unat b = unat x + 2 ^ 64 * (if unat x < unat y + unat b then 1 else 0)"
    using borrow_val [OF bx assms(2)] by simp
  then show "unat d + unat y + unat b = unat x + 2 ^ 64 * unat b'" unfolding d(2) by simp
  show "unat b' \<le> 1" unfolding d(2) by simp
qed
lemma shift_in_val:
  assumes "shift_in rs c = (rs', c')" "unat c \<le> 1"
  shows "lval rs' + 2 ^ (64 * length rs) * unat c' = 2 * lval rs + unat c" "length rs' = length rs" "unat c' \<le> 1"
proof -
  have "lval rs' + 2 ^ (64 * length rs) * unat c' = 2 * lval rs + unat c \<and> length rs' = length rs \<and> unat c' \<le> 1"
    using assms
  proof (induction rs c arbitrary: rs' c' rule: shift_in.induct)
    case (2 r rs c)
    obtain rs2 c2 where e: "shift_in rs (drop_bit 63 r) = (rs2, c2)" by fastforce
    then have r: "rs' = (push_bit 1 r OR c) # rs2" "c' = c2" using "2.prems" by auto
    have ih: "lval rs2 + 2 ^ (64 * length rs) * unat c2 = 2 * lval rs + unat (drop_bit 63 r :: u64)" "length rs2 = length rs" "unat c2 \<le> 1"
      using "2.IH" [OF e shift_limb(2) [OF "2.prems"(2)]] by auto
    have "lval rs' + 2 ^ (64 * length (r # rs)) * unat c' = unat (push_bit 1 r OR c) + 2 ^ 64 * (lval rs2 + 2 ^ (64 * length rs) * unat c2)"
      by (simp add: r power_add algebra_simps)
    also have "\<dots> = 2 * lval (r # rs) + unat c"
      unfolding ih(1) using shift_limb(1) [OF "2.prems"(2), of r] by (simp add: algebra_simps)
    finally show ?case using ih r by simp
  qed simp
  then show "lval rs' + 2 ^ (64 * length rs) * unat c' = 2 * lval rs + unat c" "length rs' = length rs" "unat c' \<le> 1" by auto
qed

lemma sub_limbs_val:
  assumes "sub_limbs xs ys b = (ds, b')" "length xs = length ys" "unat b \<le> 1"
  shows "lval ds + lval ys + unat b = lval xs + 2 ^ (64 * length xs) * unat b'" "length ds = length xs" "unat b' \<le> 1"
proof -
  have "lval ds + lval ys + unat b = lval xs + 2 ^ (64 * length xs) * unat b' \<and> length ds = length xs \<and> unat b' \<le> 1"
    using assms
  proof (induction xs ys b arbitrary: ds b' rule: sub_limbs.induct)
    case (1 x xs y ys b)
    obtain d b1 where e1: "Sub64 x y b = (d, b1)" by fastforce
    obtain ds2 b2 where e2: "sub_limbs xs ys b1 = (ds2, b2)" by fastforce
    have r: "ds = d # ds2" "b' = b2" using "1.prems"(1) e1 e2 by auto
    note v = Sub64_val [OF e1 "1.prems"(3)]
    have ih: "lval ds2 + lval ys + unat b1 = lval xs + 2 ^ (64 * length xs) * unat b2" "length ds2 = length xs" "unat b2 \<le> 1"
      using "1.IH" [OF e1 [symmetric] e2] "1.prems"(2) v(2) by auto
    have "lval ds + lval (y # ys) + unat b + 2 ^ 64 * unat b1 = (unat d + unat y + unat b) + 2 ^ 64 * (lval ds2 + lval ys + unat b1)"
      by (simp add: r algebra_simps)
    also have "\<dots> = lval (x # xs) + 2 ^ (64 * length (x # xs)) * unat b' + 2 ^ 64 * unat b1"
      unfolding v(1) ih(1) by (simp add: r power_add algebra_simps)
    finally show ?case using ih r by simp
  qed auto
  then show "lval ds + lval ys + unat b = lval xs + 2 ^ (64 * length xs) * unat b'" "length ds = length xs" "unat b' \<le> 1" by auto
qed


lemma be_nat_append: "be_nat (a @ b) = be_nat a * 256 ^ length b + be_nat b"
proof (induction b rule: rev_induct)
  case Nil
  then show ?case by (simp add: be_nat_def)
next
  case (snoc x b)
  have "be_nat (a @ b @ [x]) = be_nat (a @ b) * 256 + unat x" using be_nat_snoc [of "a @ b"] by simp
  then show ?case using snoc.IH by (simp add: be_nat_snoc algebra_simps)
qed

lemma u64be_Uint64: "8 \<le> length b \<Longrightarrow> u64be (Uint64 b) = take 8 b"
proof -
  assume len: "8 \<le> length b"
  then have "be_nat (take 8 b) < 2 ^ 64" using be_nat_bound [of "take 8 b"] by simp
  then have "unat (Uint64 b) = be_nat (take 8 b)" by (simp add: Uint64_def unat_of_nat)
  with len be_bytes_be_nat [of "take 8 b"] show ?thesis by (simp add: u64be_def)
qed

lemma be_nat_u64be: "be_nat (u64be x) = unat x"
  by (simp add: u64be_def be_nat_be_bytes)

lemma p256N_val: "be_nat p256N = 0xffffffff00000000ffffffffffffffffbce6faada7179e84f3b9cac2fc632551" "length p256N = 32"
  unfolding p256N_def by (simp_all add: hex_digit_def be_nat_def undigits_def)

lemma limbBytes_val: "be_nat (limbBytes l) = lval l" "length (limbBytes l) = 8 * length l"
proof (induction l)
  case (Cons x l)
  have e: "limbBytes (x # l) = limbBytes l @ u64be x" by (simp add: limbBytes_def)
  { case 1 show ?case using Cons.IH(1) by (simp add: e be_nat_append be_nat_u64be length_simps) }
  { case 2 show ?case using Cons.IH(2) by (simp add: e) }
qed (simp_all add: limbBytes_def be_nat_def)

lemma limbBytes_limbs: "length b = 32 \<Longrightarrow> limbBytes (limbs b) = b"
proof -
  assume l: "length b = 32"
  have "take 8 b @ take 8 (drop 8 b) @ take 8 (drop 16 b) @ take 8 (drop 24 b) = b"
    using l append_take_drop_id [of 8 b] append_take_drop_id [of 8 "drop 8 b"] append_take_drop_id [of 8 "drop 16 b"] append_take_drop_id [of 8 "drop 24 b"]
    by simp
  then show ?thesis using l by (simp add: limbBytes_def limbs_def u64be_Uint64)
qed

lemma limbs_val: "length b = 32 \<Longrightarrow> lval (limbs b) = be_nat b" "length (limbs b) = 4"
  using limbBytes_val(1) [of "limbs b"] limbBytes_limbs [of b] by (simp_all add: limbs_def)

lemma order_limbs: "lval p256NLimbs = be_nat p256N" "length p256NLimbs = 4"
  unfolding p256NLimbs_def using limbs_val p256N_val(2) by simp_all

abbreviation order :: nat where "order \<equiv> be_nat p256N"

lemma order_bounds: "0 < order" "2 ^ 255 < order" "order < 2 ^ 256"
  unfolding p256N_val by simp_all

lemma bit_word: "unat (c :: u64) \<le> 1 \<Longrightarrow> c = 0 \<or> c = 1"
  by (metis le_Suc_eq le_zero_eq One_nat_def unat_0 unat_1 word_unat_eq_iff)

lemma choose_mask:
  assumes "length d = length r" "c = (0 :: u64) \<or> c = 1" "b = (0 :: u64) \<or> b = 1"
  shows "map2 (\<lambda>r d. (r AND NOT (- (c OR (b XOR 1)))) OR (d AND - (c OR (b XOR 1)))) r d = (if c = 0 \<and> b = 1 then r else d)"
proof -
  have z: "(1 :: u64) XOR 1 = 0" "(0 :: u64) XOR 1 = 1" by simp_all
  have m: "map2 (\<lambda>r d. r) xs ys = xs" "map2 (\<lambda>r d. d) xs ys = ys" if "length ys = length xs" for xs ys :: "u64 list"
    using that by (simp_all add: map_fst_zip map_snd_zip case_prod_beta' flip: fst_def snd_def)
  show ?thesis using assms(2,3) m [OF assms(1)] by (elim disjE) (simp_all add: z)
qed

lemma reduce_bit_val:
  assumes "length r = 4" "lval r < order" "unat c \<le> 1"
  shows "lval (reduce_bit r c) = (2 * lval r + unat c) mod order" "length (reduce_bit r c) = 4"
proof -
  obtain r' c1 where s: "shift_in r c = (r', c1)" by fastforce
  obtain d b where t: "sub_limbs r' p256NLimbs 0 = (d, b)" by fastforce
  note v = shift_in_val [OF s assms(3)]
  have l: "length r' = length p256NLimbs" using v(2) assms(1) order_limbs(2) by simp
  note w = sub_limbs_val [OF t l]
  have len: "length d = length r'" using w(2) by simp
  have res: "reduce_bit r c = (if c1 = 0 \<and> b = 1 then r' else d)"
    using choose_mask [OF len bit_word [OF v(3)] bit_word [OF w(3)]] by (simp add: reduce_bit_def s t Let_def)
  show "length (reduce_bit r c) = 4" using len v(2) assms(1) by (simp add: res)
  let ?v = "2 * lval r + unat c"
  have V: "lval r' + 2 ^ 256 * unat c1 = ?v" "lval d + order = lval r' + 2 ^ 256 * unat b"
    using v(1) w(1) assms(1) v(2) order_limbs(1) by simp_all
  have B: "lval d < 2 ^ 256" "?v < 2 * order" using lval_bound [of d] len v(2) assms by simp_all
  have "lval (reduce_bit r c) = (if ?v < order then ?v else ?v - order)"
  proof (cases "c1 = 0")
    case True
    then show ?thesis using V B bit_word [OF w(3)] by (auto simp: res)
  next
    case False
    then have "unat c1 = 1" using bit_word [OF v(3)] by auto
    then have "lval r' + 2 ^ 256 = ?v" using V(1) by simp
    moreover from this have "b = 1" using V(2) B order_bounds(3) bit_word [OF w(3)] by auto
    ultimately show ?thesis using V(2) False order_bounds(3) by (auto simp: res)
  qed
  then show "lval (reduce_bit r c) = ?v mod order" using B(2) by (simp add: mod_if)
qed

lemma mod_step: "(b * (a mod n) + c) mod n = (b * a + c) mod (n :: nat)"
  by (metis mod_add_left_eq mod_mult_right_eq)

lemma reduce_bits_val:
  assumes "length r = 4" "lval r < order" "\<And>c. c \<in> set cs \<Longrightarrow> unat c \<le> 1"
  shows "lval (foldl reduce_bit r cs) = (2 ^ length cs * lval r + undigits 2 (map unat cs)) mod order \<and> length (foldl reduce_bit r cs) = 4"
  using assms(3)
proof (induction cs rule: rev_induct)
  case (snoc c cs)
  let ?r = "foldl reduce_bit r cs"
  have ih: "lval ?r = (2 ^ length cs * lval r + undigits 2 (map unat cs)) mod order" "length ?r = 4" using snoc by auto
  have "lval ?r < order" using ih(1) order_bounds(1) by simp
  then have "lval (reduce_bit ?r c) = (2 * lval ?r + unat c) mod order" "length (reduce_bit ?r c) = 4"
    using reduce_bit_val [OF ih(2)] snoc.prems by simp_all
  then show ?case unfolding ih(1) mod_step by (simp add: algebra_simps)
qed (use assms in simp)

lemma bit_val: "unat (ucast (drop_bit i (x :: byte)) AND 1 :: u64) = unat x div 2 ^ i mod 2"
proof -
  have "unat (ucast (drop_bit i x) :: u64) = unat x div 2 ^ i"
  proof -
    have "unat (drop_bit i x) = unat x div 2 ^ i" by (simp only: unsigned_drop_bit_eq) (simp add: drop_bit_eq_div take_bit_eq_mod)
    moreover have "unat (ucast y :: u64) = unat y" for y :: byte 
      using unat_byte_bound [of y] by (simp only: unsigned_ucast_eq) (simp add: take_bit_eq_mod mod_less [OF less_trans [OF unat_byte_bound]])
    ultimately show ?thesis by simp
  qed
  then show ?thesis by (simp add: and_one_eq unat_mod)
qed

lemma digits_bits: "digits 2 k n = map (\<lambda>i. n div 2 ^ i mod 2) (rev [0..<k])"
proof (induction k arbitrary: n)
  case (Suc k)
  have "rev [0..<Suc k] = map Suc (rev [0..<k]) @ [0]" 
    unfolding upt_conv_Cons [OF zero_less_Suc] map_Suc_upt [symmetric] rev.simps rev_map ..
  then show ?case by (simp only: digits.simps Suc.IH map_append map_map) (simp add: o_def div_mult2_eq)
qed simp

lemma byte_bits: "undigits 2 (map (\<lambda>i. unat x div 2 ^ i mod 2) [7, 6, 5, 4, 3, 2, 1, 0]) = unat (x :: byte)"
proof -
  have "rev [0..<8] = [7, 6, 5, 4, 3, 2, 1, 0 :: nat]" by (simp add: upt_rec)
  then show ?thesis using digits_bits [of 8 "unat x"] undigits_digits [of 2 8 "unat x"] by simp
qed

lemma reduce_byte_val:
  assumes "length r = 4" "lval r < order"
  shows "lval (reduce_byte r x) = (256 * lval r + unat x) mod order" "length (reduce_byte r x) = 4"
proof -
  let ?cs = "map (\<lambda>i. ucast (drop_bit i x) AND 1 :: u64) [7, 6, 5, 4, 3, 2, 1, 0]"
  have "map unat ?cs = map (\<lambda>i. unat x div 2 ^ i mod 2) [7, 6, 5, 4, 3, 2, 1, 0]" by (simp only: map_map o_def bit_val)
  moreover have "unat c \<le> 1" if "c \<in> set ?cs" for c
    using that unfolding set_map by (elim imageE) (hypsubst, unfold bit_val, simp add: less_Suc_eq_le [symmetric])
  moreover have "reduce_byte r x = foldl reduce_bit r ?cs" by (simp add: reduce_byte_def)
  ultimately show "lval (reduce_byte r x) = (256 * lval r + unat x) mod order" "length (reduce_byte r x) = 4"
    using reduce_bits_val [OF assms, of ?cs] byte_bits [of x] by simp_all
qed

lemma reduceModN_val: "be_nat (reduceModN b) = be_nat b mod order" "length (reduceModN b) = 32"
proof -
  have "lval (foldl reduce_byte [0, 0, 0, 0] b) = be_nat b mod order \<and> length (foldl reduce_byte [0, 0, 0, 0] b) = 4"
  proof (induction b rule: rev_induct)
    case (snoc x b)
    then have "lval (foldl reduce_byte [0, 0, 0, 0] b) < order" using order_bounds(1) by simp
    then show ?case using snoc reduce_byte_val [of "foldl reduce_byte [0, 0, 0, 0] b" x] by (simp add: be_nat_snoc mod_step mult.commute [of _ 256])
  qed (simp add: be_nat_def)
  then show "be_nat (reduceModN b) = be_nat b mod order" "length (reduceModN b) = 32" by (simp_all add: reduceModN_def limbBytes_val)
qed

lemma negModN_val:
  assumes "length s = 32" "be_nat s < order"
  shows "be_nat (negModN s) = order - be_nat s" "length (negModN s) = 32"
proof -
  obtain d b where t: "sub_limbs p256NLimbs (limbs s) 0 = (d, b)" by fastforce
  note v = sub_limbs_val [OF t]
  have l: "length p256NLimbs = length (limbs s)" using order_limbs(2) limbs_val(2) by simp
  have eq: "lval d + be_nat s = order + 2 ^ 256 * unat b" using v(1) [OF l] limbs_val(1) [OF assms(1)] order_limbs by simp
  have "b = 0"
    using eq lval_bound [of d] v(2) [OF l] bit_word [OF v(3) [OF l]] order_limbs(2) assms(2) by auto
  then show "be_nat (negModN s) = order - be_nat s" "length (negModN s) = 32"
    using eq v(2) [OF l] order_limbs(2) by (simp_all add: negModN_def t limbBytes_val)
qed

lemma isZero32_val: "length s = 32 \<Longrightarrow> isZero32 s \<longleftrightarrow> be_nat s = 0"
  using be_nat_inject [of s "replicate 32 0"] be_nat_replicate_0 [of 32] by (auto simp: isZero32_def)


section \<open>Two sides agree\<close>

text \<open>
  What the exchange relies on: the group is commutative, with the order the code reduces by, its
  scalar multiplication is repeated addition, a point other than the identity is encoded in 65 bytes
  that decode to it, and HKDF gives 32 bytes. \<open>z\<close> is the identity and \<open>G\<close> the base point.
\<close>

fun times :: "'p suite \<Rightarrow> 'p \<Rightarrow> nat \<Rightarrow> 'p \<Rightarrow> 'p" where
  "times S z 0 a = z"
| "times S z (Suc n) a = su_Add S a (times S z n a)"

definition suite_laws :: "'p suite \<Rightarrow> 'p \<Rightarrow> 'p \<Rightarrow> bool" where
  "suite_laws S z G \<longleftrightarrow>
     (\<forall>a b. su_Add S a b = su_Add S b a) \<and> (\<forall>a b c. su_Add S (su_Add S a b) c = su_Add S a (su_Add S b c)) \<and> (\<forall>a. su_Add S z a = a) \<and>
     (\<forall>a. times S z order a = z) \<and>
     (\<forall>a k. length k = 32 \<longrightarrow> su_ScalarMult S a k = Some (times S z (be_nat k) a)) \<and>
     (\<forall>k. length k = 32 \<longrightarrow> su_ScalarBaseMult S k = Some (times S z (be_nat k) G)) \<and>
     (\<forall>a. a \<noteq> z \<longrightarrow> length (su_Bytes S a) = 65 \<and> su_Bytes S a ! 0 = 4 \<and> su_SetBytes S (su_Bytes S a) = Some a) \<and> length (su_Bytes S z) \<noteq> 65 \<and>
     spake2M S \<noteq> None \<and> spake2N S \<noteq> None \<and> (\<forall>s salt info. \<exists>k. su_hkdf S s salt info 32 = Some k)"

lemma lawsD:
  assumes "suite_laws S z G"
  shows "su_Add S a b = su_Add S b a" "su_Add S (su_Add S a b) c = su_Add S a (su_Add S b c)" "su_Add S z a = a" "su_Add S a z = a"
    "times S z order a = z" "length k = 32 \<Longrightarrow> su_ScalarMult S a k = Some (times S z (be_nat k) a)"
    "length k = 32 \<Longrightarrow> su_ScalarBaseMult S k = Some (times S z (be_nat k) G)"
    "length (su_Bytes S a) = 65 \<longleftrightarrow> a \<noteq> z" "a \<noteq> z \<Longrightarrow> su_Bytes S a ! 0 = 4 \<and> su_SetBytes S (su_Bytes S a) = Some a"
    "\<exists>M. spake2M S = Some M" "\<exists>N. spake2N S = Some N" "\<exists>k. su_hkdf S s salt info 32 = Some k"
proof -
  note r1 = assms [unfolded suite_laws_def]
  note l1 = r1 [THEN conjunct1] and r2 = r1 [THEN conjunct2]
  note l2 = r2 [THEN conjunct1] and r3 = r2 [THEN conjunct2]
  note l3 = r3 [THEN conjunct1] and r4 = r3 [THEN conjunct2]
  note l4 = r4 [THEN conjunct1] and r5 = r4 [THEN conjunct2]
  note l5 = r5 [THEN conjunct1] and r6 = r5 [THEN conjunct2]
  note l6 = r6 [THEN conjunct1] and r7 = r6 [THEN conjunct2]
  note l7 = r7 [THEN conjunct1] and r8 = r7 [THEN conjunct2]
  note l8 = r8 [THEN conjunct1] and r9 = r8 [THEN conjunct2]
  note l9 = r9 [THEN conjunct1] and r10 = r9 [THEN conjunct2]
  note l10 = r10 [THEN conjunct1] and r11 = r10 [THEN conjunct2]
  show "su_Add S a b = su_Add S b a" by (rule l1 [rule_format])
  show "su_Add S (su_Add S a b) c = su_Add S a (su_Add S b c)" by (rule l2 [rule_format])
  show z: "su_Add S z a = a" by (rule l3 [rule_format])
  show "su_Add S a z = a" unfolding l1 [rule_format, of a z] by (rule z)
  show "times S z order a = z" by (rule l4 [rule_format])
  show "length k = 32 \<Longrightarrow> su_ScalarMult S a k = Some (times S z (be_nat k) a)" by (rule l5 [rule_format])
  show "length k = 32 \<Longrightarrow> su_ScalarBaseMult S k = Some (times S z (be_nat k) G)" by (rule l6 [rule_format])
  show "length (su_Bytes S a) = 65 \<longleftrightarrow> a \<noteq> z" using l7 [rule_format, of a] l8 by metis
  show "a \<noteq> z \<Longrightarrow> su_Bytes S a ! 0 = 4 \<and> su_SetBytes S (su_Bytes S a) = Some a" using l7 [rule_format, of a] by simp
  show "\<exists>M. spake2M S = Some M" "\<exists>N. spake2N S = Some N" using l9 l10 by simp_all
  show "\<exists>k. su_hkdf S s salt info 32 = Some k" by (rule r11 [rule_format])
qed

lemma add_left_comm: "suite_laws S z G \<Longrightarrow> su_Add S a (su_Add S b c) = su_Add S b (su_Add S a c)"
  by (metis lawsD(1,2))

lemma times_add: "suite_laws S z G \<Longrightarrow> times S z (m + n) a = su_Add S (times S z m a) (times S z n a)"
  by (induction m) (simp_all add: lawsD(2,3))

lemma times_mult: "suite_laws S z G \<Longrightarrow> times S z (m * n) a = times S z m (times S z n a)"
  by (induction m) (simp_all add: times_add)

lemma times_swap: "suite_laws S z G \<Longrightarrow> times S z m (times S z n a) = times S z n (times S z m a)"
  by (metis times_mult mult.commute)

text \<open>What a side that started holds.\<close>

lemma newSpake2_val:
  assumes L: "suite_laws S z G" and "newSpake2 S roleA w sc draws idA idB aad = Some s"
  shows "sp_roleA s = roleA" "sp_w s = reduceModN w" "sp_idA s = idA" "sp_idB s = idB" "sp_aad s = aad" "length (sp_xy s) = 32" "length (sp_share s) = 65"
    "\<exists>blind. (if roleA then spake2M S else spake2N S) = Some blind \<and>
       sp_share s = su_Bytes S (su_Add S (times S z (be_nat w mod order) blind) (times S z (be_nat (sp_xy s)) G))"
proof -
  have d: "draw_scalar draws = Some xy \<Longrightarrow> length xy = 32" for xy
    by (induction draws rule: draw_scalar.induct) (auto simp: scalarFromRandom_def reduceModN_val split: if_splits option.splits)
  show "sp_roleA s = roleA" "sp_w s = reduceModN w" "sp_idA s = idA" "sp_idB s = idB" "sp_aad s = aad" "length (sp_xy s) = 32" "length (sp_share s) = 65"
    "\<exists>blind. (if roleA then spake2M S else spake2N S) = Some blind \<and>
       sp_share s = su_Bytes S (su_Add S (times S z (be_nat w mod order) blind) (times S z (be_nat (sp_xy s)) G))"
    using assms(2) d lawsD(6,7) [OF L] reduceModN_val
    by (auto simp: newSpake2_def Let_def split: if_splits option.splits)
qed

lemma times_zero: "suite_laws S z G \<Longrightarrow> times S z n z = z"
  by (induction n) (simp_all add: lawsD(3))

lemma unblinded:
  assumes "suite_laws S z G" "w \<le> order"
  shows "su_Add S (su_Add S (times S z w U) Q) (times S z (order - w) U) = Q"
proof -
  have "su_Add S (su_Add S (times S z w U) Q) (times S z (order - w) U) = su_Add S (su_Add S (times S z w U) (times S z (order - w) U)) Q"
    by (metis assms(1) lawsD(1,2))
  also have "\<dots> = su_Add S (times S z order U) Q" using times_add [OF assms(1), of w "order - w" U] assms(2) by simp
  finally show ?thesis by (simp add: lawsD(3,5) [OF assms(1)])
qed

lemma finish_val:
  assumes L: "suite_laws S z G" and U: "(if sp_roleA s then spake2N S else spake2M S) = Some U"
    and w: "length (sp_w s) = 32" "be_nat (sp_w s) < order" and xy: "length (sp_xy s) = 32"
    and peer: "share = su_Bytes S (su_Add S (times S z (be_nat (sp_w s)) U) Q)" "length share = 65"
    and K: "times S z (be_nat (sp_xy s)) Q \<noteq> z"
  shows "finish S s share = shared_keys S s share (su_Bytes S (times S z (be_nat (sp_xy s)) Q))"
proof -
  let ?P = "su_Add S (times S z (be_nat (sp_w s)) U) Q"
  have Q: "Q \<noteq> z" using K times_zero [OF L] by metis
  have P: "?P \<noteq> z" using peer lawsD(8) [OF L] by simp
  have "su_ScalarMult S U (negModN (sp_w s)) = Some (times S z (order - be_nat (sp_w s)) U)"
    using lawsD(6) [OF L negModN_val(2) [OF w]] negModN_val(1) [OF w] by simp
  moreover have "su_Add S ?P (times S z (order - be_nat (sp_w s)) U) = Q" using unblinded [OF L] w(2) by simp
  ultimately show ?thesis
    using lawsD(9) [OF L P] lawsD(8) [OF L] lawsD(6) [OF L xy] peer Q K U by (simp add: finish_def)
qed

lemma confirmations_cross:
  assumes "sp_roleA A" "\<not> sp_roleA B" "sp_idA A = sp_idA B" "sp_idB A = sp_idB B" "sp_w A = sp_w B" "sp_aad A = sp_aad B"
    and "shared_keys S A (sp_share B) K = Some k"
  shows "shared_keys S B (sp_share A) K = Some (k\<lparr>k_ours := k_theirs k, k_theirs := k_ours k\<rparr>)"
  using assms by (auto simp: shared_keys_def Let_def split: option.splits)

lemma spake2_sides:
  assumes L: "suite_laws S z G"
    and A: "newSpake2 S True w scA drawsA idA idB aad = Some A" and B: "newSpake2 S False w scB drawsB idA idB aad = Some B"
    and K: "times S z (be_nat (sp_xy A) * be_nat (sp_xy B)) G \<noteq> z"
  shows "\<exists>k. finish S A (sp_share B) = Some k \<and> finish S B (sp_share A) = Some (k\<lparr>k_ours := k_theirs k, k_theirs := k_ours k\<rparr>)
    \<and> k_K k = su_Bytes S (times S z (be_nat (sp_xy A) * be_nat (sp_xy B)) G)"
proof -
  note a = newSpake2_val [OF L A] and b = newSpake2_val [OF L B]
  obtain M where M: "spake2M S = Some M" "sp_share A = su_Bytes S (su_Add S (times S z (be_nat w mod order) M) (times S z (be_nat (sp_xy A)) G))"
    using a(8) by auto
  obtain N where N: "spake2N S = Some N" "sp_share B = su_Bytes S (su_Add S (times S z (be_nat w mod order) N) (times S z (be_nat (sp_xy B)) G))"
    using b(8) by auto
  have w: "length (sp_w A) = 32" "be_nat (sp_w A) = be_nat w mod order" "sp_w B = sp_w A" "be_nat (sp_w A) < order"
    using reduceModN_val [of w] a(2) b(2) order_bounds(1) by simp_all
  have K2: "times S z (be_nat (sp_xy A)) (times S z (be_nat (sp_xy B)) G) = times S z (be_nat (sp_xy A) * be_nat (sp_xy B)) G"
    "times S z (be_nat (sp_xy B)) (times S z (be_nat (sp_xy A)) G) = times S z (be_nat (sp_xy A) * be_nat (sp_xy B)) G"
    by (simp_all add: times_mult [OF L, symmetric] mult.commute)
  let ?K = "su_Bytes S (times S z (be_nat (sp_xy A) * be_nat (sp_xy B)) G)"
  have "finish S A (sp_share B) = shared_keys S A (sp_share B) ?K"
    using finish_val [OF L, of A N "sp_share B" "times S z (be_nat (sp_xy B)) G"] a b w N K K2 by simp
  moreover have "finish S B (sp_share A) = shared_keys S B (sp_share A) ?K"
    using finish_val [OF L, of B M "sp_share A" "times S z (be_nat (sp_xy A)) G"] a b w M K K2 by simp
  moreover obtain k where k: "shared_keys S A (sp_share B) ?K = Some k" "k_K k = ?K"
    using lawsD(12) [OF L, of "take 16 (drop 16 (su_sha S (transcript [sp_idA A, sp_idB A, sp_share A, sp_share B, ?K, sp_w A])))" "[]" "str_bytes ''ConfirmationKeys'' @ sp_aad A"] a(1)
    by (auto simp: shared_keys_def Let_def)
  ultimately show ?thesis using confirmations_cross [OF _ _ _ _ _ _ k(1)] a b w k(2) by auto
qed

lemma transcript_concat: "transcript ps = concat (map (\<lambda>p. rev (u64be (word_of_nat (length p))) @ p) ps)"
proof -
  have "foldl (\<lambda>tt p. AppendUint64_le tt (word_of_nat (length p)) @ p) a ps = a @ concat (map (\<lambda>p. rev (u64be (word_of_nat (length p))) @ p) ps)" for a
    by (induction ps arbitrary: a) (simp_all add: AppendUint64_le_def)
  then show ?thesis by (simp add: transcript_def)
qed

lemma word_of_nat_inject_u64: "m < 2 ^ 64 \<Longrightarrow> n < 2 ^ 64 \<Longrightarrow> (word_of_nat m :: u64) = word_of_nat n \<Longrightarrow> m = n"
  by (drule arg_cong [of _ _ unat]) (simp add: unat_of_nat)

lemma transcript_inject:
  assumes "transcript ps = transcript qs" "length ps = length qs" "\<And>p. p \<in> set ps \<union> set qs \<Longrightarrow> length p < 2 ^ 64"
  shows "ps = qs"
  using assms unfolding transcript_concat
proof (induction ps arbitrary: qs)
  case (Cons p ps)
  then obtain q qs' where q: "qs = q # qs'" by (cases qs) auto
  let ?h = "\<lambda>p :: bytes. rev (u64be (word_of_nat (length p)))"
  have e: "?h p @ p @ concat (map (\<lambda>p. ?h p @ p) ps) = ?h q @ q @ concat (map (\<lambda>p. ?h p @ p) qs')" using Cons.prems(1) by (simp add: q)
  have l: "length (?h p) = length (?h q)" by simp
  then have "?h p = ?h q" and r: "p @ concat (map (\<lambda>p. ?h p @ p) ps) = q @ concat (map (\<lambda>p. ?h p @ p) qs')"
    using append_eq_append_conv [OF disjI1 [OF l]] e by blast+
  then have "length p = length q" using Cons.prems(3) by (auto simp: q dest!: word_of_nat_inject_u64 [rotated 2])
  then have "p = q" "concat (map (\<lambda>p. ?h p @ p) ps) = concat (map (\<lambda>p. ?h p @ p) qs')" using r append_eq_append_conv by blast+
  then show ?case using Cons.IH [of qs'] Cons.prems(2,3) by (simp add: q)
qed simp

lemma finish_keys: "finish S s share = Some k \<Longrightarrow> length share = 65 \<and> (\<exists>K. length K = 65 \<and> shared_keys S s share K = Some k)"
  by (auto simp: finish_def Let_def split: if_splits option.splits)

text \<open>
  C8. A confirmation binds the code. When the primary accepts the newcomer's confirmation, or the newcomer the primary's,
  both hold the same transcript: the same scalar from the code, the same shares, each sent as the other received it, the
  same shared point and identities; or two different transcripts have the same MAC under the keys derived
  from them, which HMAC excludes.
\<close>

theorem confirmation_binds:
  assumes "sp_roleA A" "\<not> sp_roleA B" "finish S A shareB = Some kA" "finish S B shareA = Some kB"
    and "\<And>b. b \<in> {sp_idA A, sp_idB A, sp_share A, sp_w A, sp_idA B, sp_idB B, sp_share B, sp_w B} \<Longrightarrow> length b < 2 ^ 64"
  shows "(verifyConfirmation kB (k_ours kA) \<longrightarrow>
        (sp_w A = sp_w B \<and> sp_share A = shareA \<and> shareB = sp_share B \<and> k_K kA = k_K kB \<and> sp_idA A = sp_idA B \<and> sp_idB A = sp_idB B)
      \<or> (k_TT kA \<noteq> k_TT kB \<and> su_hmac S (k_KcA kA) (k_TT kA) = su_hmac S (k_KcA kB) (k_TT kB)))
    \<and> (verifyConfirmation kA (k_ours kB) \<longrightarrow>
        (sp_w A = sp_w B \<and> sp_share A = shareA \<and> shareB = sp_share B \<and> k_K kA = k_K kB \<and> sp_idA A = sp_idA B \<and> sp_idB A = sp_idB B)
      \<or> (k_TT kA \<noteq> k_TT kB \<and> su_hmac S (k_KcB kA) (k_TT kA) = su_hmac S (k_KcB kB) (k_TT kB)))"
proof -
  obtain KA KB where k: "shared_keys S A shareB KA = Some kA" "shared_keys S B shareA KB = Some kB" "length KA = 65" "length KB = 65"
    "length shareA = 65" "length shareB = 65"
    using finish_keys [OF assms(3)] finish_keys [OF assms(4)] by auto
  have tt: "k_TT kA = transcript [sp_idA A, sp_idB A, sp_share A, shareB, KA, sp_w A]" "k_K kA = KA" "k_ours kA = su_hmac S (k_KcA kA) (k_TT kA)"
    "k_TT kB = transcript [sp_idA B, sp_idB B, shareA, sp_share B, KB, sp_w B]" "k_K kB = KB" "k_theirs kB = su_hmac S (k_KcA kB) (k_TT kB)"
    "k_theirs kA = su_hmac S (k_KcB kA) (k_TT kA)" "k_ours kB = su_hmac S (k_KcB kB) (k_TT kB)"
    using k(1,2) assms(1,2) by (auto simp: shared_keys_def Let_def split: option.splits)
  have l: "length (sp_idA A) < 2 ^ 64" "length (sp_idB A) < 2 ^ 64" "length (sp_share A) < 2 ^ 64" "length (sp_w A) < 2 ^ 64"
    "length (sp_idA B) < 2 ^ 64" "length (sp_idB B) < 2 ^ 64" "length (sp_share B) < 2 ^ 64" "length (sp_w B) < 2 ^ 64"
    by (rule assms(5), simp)+
  show ?thesis
  proof (cases "k_TT kA = k_TT kB")
    case True
    then have "[sp_idA A, sp_idB A, sp_share A, shareB, KA, sp_w A] = [sp_idA B, sp_idB B, shareA, sp_share B, KB, sp_w B]"
      unfolding tt by (rule transcript_inject) (use l k(3-6) in auto)
    then show ?thesis using tt by simp
  next
    case False
    then show ?thesis using tt by (simp add: verifyConfirmation_def)
  qed
qed

section \<open>An instance\<close>

text \<open>The numbers below the order under addition, encoded in 65 bytes, with a hash and a MAC that keep their input.\<close>

typedef residue = "{n :: nat. n < order}"
  using order_bounds(1) by blast

definition residues :: "residue suite" where
  "residues = \<lparr>su_SetBytes = (\<lambda>b. Some (Abs_residue (be_nat (if length b = 65 then tl b else b) mod order))),
     su_Bytes = (\<lambda>a. if Rep_residue a = 0 then [0] else 4 # be_bytes 64 (Rep_residue a)),
     su_Add = (\<lambda>a b. Abs_residue ((Rep_residue a + Rep_residue b) mod order)),
     su_ScalarMult = (\<lambda>a k. Some (Abs_residue (be_nat k * Rep_residue a mod order))),
     su_ScalarBaseMult = (\<lambda>k. Some (Abs_residue (be_nat k mod order))),
     su_hkdf = (\<lambda>s salt info n. Some (be_bytes n 5)), su_sha = (\<lambda>m. replicate 32 7), su_hmac = (\<lambda>k m. k @ m)\<rparr>"

lemma Rep_mod [simp]: "Rep_residue (Abs_residue (n mod order)) = n mod order"
  by (rule Abs_residue_inverse) (simp add: order_bounds)

lemma Rep_less: "Rep_residue a < order"
  using Rep_residue [of a] by simp

lemma residue_eqI: "Rep_residue a = Rep_residue b \<Longrightarrow> a = b"
  by (simp add: Rep_residue_inject)

lemma times_residues: "Rep_residue (times residues (Abs_residue 0) n a) = n * Rep_residue a mod order"
proof (induction n)
  case 0
  show ?case using Abs_residue_inverse [of 0] order_bounds(1) by simp
next
  case (Suc n)
  then show ?case by (simp add: residues_def mod_simps)
qed

lemma residues_laws: "suite_laws residues (Abs_residue 0) (Abs_residue 1)"
proof -
  let ?z = "Abs_residue 0"
  have r01: "Rep_residue ?z = 0" "Rep_residue (Abs_residue 1) = 1"
    using Abs_residue_inverse [of 0] Abs_residue_inverse [of 1] order_bounds by simp_all
  have add: "Rep_residue (su_Add residues a b) = (Rep_residue a + Rep_residue b) mod order" for a b by (simp add: residues_def)
  have nz: "Rep_residue a \<noteq> 0 \<longleftrightarrow> a \<noteq> ?z" for a using r01(1) residue_eqI [of a ?z] by auto
  show ?thesis unfolding suite_laws_def
  proof (intro conjI allI impI)
    show "su_Add residues a b = su_Add residues b a" for a b by (rule residue_eqI) (simp add: add add.commute)
    show "su_Add residues (su_Add residues a b) c = su_Add residues a (su_Add residues b c)" for a b c
      by (rule residue_eqI) (simp add: add mod_simps add.assoc)
    show "su_Add residues ?z a = a" for a by (rule residue_eqI) (simp add: add r01 Rep_less)
    show "times residues ?z order a = ?z" for a by (rule residue_eqI) (simp add: times_residues r01)
    show "su_ScalarMult residues a k = Some (times residues ?z (be_nat k) a)" for a k
      by (simp add: residues_def) (rule residue_eqI, simp add: times_residues [unfolded residues_def])
    show "su_ScalarBaseMult residues k = Some (times residues ?z (be_nat k) (Abs_residue 1))" for k
      by (simp add: residues_def) (rule residue_eqI, simp add: times_residues [unfolded residues_def] r01 [simplified])
    show "length (su_Bytes residues a) = 65" "su_Bytes residues a ! 0 = 4" if "a \<noteq> ?z" for a using that nz by (simp_all add: residues_def)
    show "su_SetBytes residues (su_Bytes residues a) = Some a" if "a \<noteq> ?z" for a
    proof -
      have "Rep_residue a < 256 ^ 64" using Rep_less [of a] order_bounds(3) by simp
      then show ?thesis using that nz [of a] by (simp add: residues_def be_nat_be_bytes Rep_less Rep_residue_inverse)
    qed
    show "length (su_Bytes residues ?z) \<noteq> 65" using r01 by (simp add: residues_def)
    show "spake2M residues \<noteq> None" "spake2N residues \<noteq> None" by (simp_all add: spake2M_def spake2N_def residues_def)
    show "\<exists>k. su_hkdf residues s salt info 32 = Some k" for s salt info by (simp add: residues_def)
  qed
qed

section \<open>Properties\<close>

text \<open>
  C38. The constant-time reduction is exact. For a big-endian number of any length, the bit-by-bit loop on
  four 64-bit limbs with its masks, carries and borrows gives the 32 bytes of that number modulo the order
  of P-256; and for a scalar below the order the limb subtraction gives the 32 bytes of the order
  less it.
\<close>

theorem scalars_exact:
  "reduceModN b = be_bytes 32 (be_nat b mod be_nat p256N) \<and>
   (length s = 32 \<and> be_nat s < be_nat p256N \<longrightarrow> negModN s = be_bytes 32 (be_nat p256N - be_nat s))"
proof -
  have "be_bytes 32 (be_nat (reduceModN b)) = reduceModN b" using be_bytes_be_nat [of "reduceModN b"] reduceModN_val(2) by simp
  moreover have "be_bytes 32 (be_nat (negModN s)) = negModN s" if "length s = 32" "be_nat s < be_nat p256N"
    using be_bytes_be_nat [of "negModN s"] negModN_val(2) [OF that] by simp
  ultimately show ?thesis using reduceModN_val(1) negModN_val(1) by metis
qed

theorem scalars_exact_witness:
  "negModN (be_bytes 32 1) = be_bytes 32 (be_nat p256N - 1) \<and> reduceModN (p256N @ [7]) = be_bytes 32 7"
proof -
  have n: "be_nat (be_bytes 32 1) = 1" "1 < order" by (simp_all add: be_nat_be_bytes p256N_val)
  have "be_nat (p256N @ [7]) mod order = 7 mod order" by (simp add: be_nat_snoc mod_simps)
  also have "\<dots> = 7" by (simp add: p256N_val)
  finally show ?thesis using scalars_exact [of "p256N @ [7]" "be_bytes 32 1"] n by simp
qed

text \<open>
  C7. Two honest sides agree. When a newcomer and a primary start from the same code scalar, identities and
  code id, whatever scalars they drew, and the shared point is not the identity, each finishes on the
  other's share with the same shared point, transcript and keys; and each accepts the confirmation the
  other sends.
\<close>

theorem spake2_agree:
  assumes "suite_laws S z G"
    and "newSpake2 S True w scA drawsA idA idB aad = Some A" and "newSpake2 S False w scB drawsB idA idB aad = Some B"
    and "times S z (be_nat (sp_xy A) * be_nat (sp_xy B)) G \<noteq> z"
  shows "\<exists>kA kB. finish S A (sp_share B) = Some kA \<and> finish S B (sp_share A) = Some kB \<and> k_K kA = k_K kB \<and> k_TT kA = k_TT kB \<and> k_Ke kA = k_Ke kB
    \<and> verifyConfirmation kB (k_ours kA) \<and> verifyConfirmation kA (k_ours kB)"
  using spake2_sides [OF assms] by (auto simp: verifyConfirmation_def)

definition demo_side :: "bool \<Rightarrow> nat \<Rightarrow> spake2 option" where
  "demo_side roleA x = newSpake2 residues roleA (be_bytes 32 5) (Some (be_bytes 32 x)) [] spake2IDA spake2IDB []"

lemma reduce_small: "x < order \<Longrightarrow> reduceModN (be_bytes 32 x) = be_bytes 32 x"
  using reduceModN_val [of "be_bytes 32 x"] order_bounds(3) by (intro be_nat_inject) (simp_all add: be_nat_be_bytes)

lemma blind_points:
  "be_nat (unhex ''02886e2f97ace46e55ba9dd7242579f2993b64e16ef3dcab95afd497333d8fa12f'') = 0x2886e2f97ace46e55ba9dd7242579f2993b64e16ef3dcab95afd497333d8fa12f"
  "be_nat (unhex ''03d8bbd6c639c62937b04d997f38c3770719c629d7014d49a24b4f98baa1292b49'') = 0x3d8bbd6c639c62937b04d997f38c3770719c629d7014d49a24b4f98baa1292b49"
  "length (unhex ''02886e2f97ace46e55ba9dd7242579f2993b64e16ef3dcab95afd497333d8fa12f'') = 33"
  "length (unhex ''03d8bbd6c639c62937b04d997f38c3770719c629d7014d49a24b4f98baa1292b49'') = 33"
  by (simp_all add: hex_digit_def be_nat_def undigits_def)

lemma demo_sides:
  "\<exists>A. demo_side True 2 = Some A \<and> sp_xy A = be_bytes 32 2" "\<exists>B. demo_side False 3 = Some B \<and> sp_xy B = be_bytes 32 3"
proof -
  have small: "2 < order" "3 < order" "5 < order" unfolding p256N_val by simp_all
  have nz: "\<not> isZero32 (be_bytes 32 x)" if "0 < x" "x < 256" for x using that by (simp add: isZero32_val be_nat_be_bytes)
  show "\<exists>A. demo_side True 2 = Some A \<and> sp_xy A = be_bytes 32 2" "\<exists>B. demo_side False 3 = Some B \<and> sp_xy B = be_bytes 32 3"
    by (simp_all add: demo_side_def newSpake2_def Let_def reduce_small [OF small(1)] reduce_small [OF small(2)] reduce_small [OF small(3)]
          nz spake2M_def spake2N_def residues_def be_nat_be_bytes mod_simps del: unhex.simps)
       (simp_all add: blind_points p256N_val del: unhex.simps)
qed

lemma demo_shared:
  assumes "sp_xy A = be_bytes 32 2" "sp_xy B = be_bytes 32 3"
  shows "times residues (Abs_residue 0) (be_nat (sp_xy A) * be_nat (sp_xy B)) (Abs_residue 1) \<noteq> Abs_residue 0"
proof -
  have "Rep_residue (times residues (Abs_residue 0) (be_nat (sp_xy A) * be_nat (sp_xy B)) (Abs_residue 1)) \<noteq> Rep_residue (Abs_residue 0)"
    unfolding times_residues assms by (simp add: be_nat_be_bytes Abs_residue_inverse p256N_val)
  then show ?thesis by metis
qed

theorem spake2_agree_witness:
  "\<exists>A B kA kB. demo_side True 2 = Some A \<and> demo_side False 3 = Some B \<and> finish residues A (sp_share B) = Some kA \<and> finish residues B (sp_share A) = Some kB
     \<and> verifyConfirmation kB (k_ours kA) \<and> verifyConfirmation kA (k_ours kB)"
proof -
  obtain A B where AB: "demo_side True 2 = Some A" "demo_side False 3 = Some B" "sp_xy A = be_bytes 32 2" "sp_xy B = be_bytes 32 3"
    using demo_sides by auto
  from spake2_agree [OF residues_laws AB(1,2) [unfolded demo_side_def] demo_shared [OF AB(3,4)]] show ?thesis using AB by blast
qed

theorem confirmation_binds_witness:
  "\<exists>A B kA kB. demo_side True 2 = Some A \<and> demo_side False 3 = Some B \<and> finish residues A (sp_share B) = Some kA \<and> finish residues B (sp_share A) = Some kB
     \<and> verifyConfirmation kB (k_ours kA) \<and> (sp_w A = sp_w B \<or> k_TT kA \<noteq> k_TT kB)"
proof -
  obtain A B where AB: "demo_side True 2 = Some A" "demo_side False 3 = Some B" "sp_xy A = be_bytes 32 2" "sp_xy B = be_bytes 32 3"
    using demo_sides by auto
  note a = newSpake2_val [OF residues_laws AB(1) [unfolded demo_side_def]] and b = newSpake2_val [OF residues_laws AB(2) [unfolded demo_side_def]]
  from spake2_sides [OF residues_laws AB(1,2) [unfolded demo_side_def] demo_shared [OF AB(3,4)]]
  obtain k where k: "finish residues A (sp_share B) = Some k" "finish residues B (sp_share A) = Some (k\<lparr>k_ours := k_theirs k, k_theirs := k_ours k\<rparr>)" by blast
  have v: "verifyConfirmation (k\<lparr>k_ours := k_theirs k, k_theirs := k_ours k\<rparr>) (k_ours k)" by (simp add: verifyConfirmation_def)
  have l: "length x < 2 ^ 64" if "x \<in> {sp_idA A, sp_idB A, sp_share A, sp_w A, sp_idA B, sp_idB B, sp_share B, sp_w B}" for x
    using that a b by (auto simp: reduceModN_val spake2IDA_def spake2IDB_def)
  have r: "sp_roleA A" "\<not> sp_roleA B" using a(1) b(1) by simp_all
  show ?thesis using confirmation_binds [OF r k l] k v AB by blast
qed

end
