(* ===== verification/Pairing_Exchange.thy ===== *)
theory Pairing_Exchange
  imports Spake2 Roster_Properties
begin

text \<open>
  The six messages of pairing (\<open>client-go/pairing.go\<close>): the newcomer's side and the primary's as state
  machines with no transport, over SPAKE2 (\<open>Spake2\<close>), the sealed messages that follow it, and the text
  of a roster they carry (\<open>MarshalJSON\<close> of \<open>client-go/roster.go\<close>). ChaCha20-Poly1305 is the record
  \<open>aead\<close>, whose keys are of any type \<open>'k\<close>. A step gives its result, \<open>None\<close> for an error, and the machine
  after it: some errors come after a change.
\<close>

section \<open>Texts\<close>

text \<open>Bytes read as a string, one character each.\<close>

definition bytes_str :: "bytes \<Rightarrow> string" where
  "bytes_str b = map (\<lambda>x. char_of (unat x)) b"

lemma bytes_str_str_bytes [simp]: "bytes_str (str_bytes s) = s"
  by (simp add: bytes_str_def str_bytes_def o_def unat_of_char_byte)

text \<open>Extra members in the order of their names; \<open>appendOrdered\<close> leaves out those already written.\<close>

definition extra_members :: "(string \<times> json) list \<Rightarrow> (string \<Rightarrow> bool) \<Rightarrow> (string \<times> json) list" where
  "extra_members ext known = filter (\<lambda>(k, v). \<not> known k) (sort_key (\<lambda>p. utf16 (fst p)) ext)"

definition appendOrdered :: "(string \<times> json) list \<Rightarrow> (string \<times> json) list \<Rightarrow> string option" where
  "appendOrdered known ext =
     map_option (\<lambda>ys. ''{'' @ comma_join ys @ ''}'')
       (those_list (map (\<lambda>(k, v). member_text (k, appendJCS v)) (known @ extra_members ext (\<lambda>k. k \<in> fst ` set known))))"

definition MarshalJSON :: "SignedRoster \<Rightarrow> string option" where
  "MarshalJSON r =
     (let ms = map_option (\<lambda>ys. ''['' @ comma_join ys @ '']'')
                 (those_list (map (\<lambda>m. appendOrdered [(''id'', JStr (rm_ID m)), (''ed25519'', JStr (rm_Ed25519 m)), (''x25519'', JStr (rm_X25519 m))]
                    (rm_extra m)) (u_Members r)));
          ext = extra_members (s_extra r) (\<lambda>k. k = ''signature'')
      in map_option (\<lambda>ys. ''{'' @ comma_join ys @ ''}'')
           (those_list (map member_text
              ([(''network'', appendJCSString (u_Network r)), (''version'', Some (FormatInt (u_Version r))), (''issuedAt'', Some (FormatInt (u_IssuedAt r))),
                (''relay'', appendJCSString (u_Relay r)), (''networkKey'', appendJCSString (u_NetworkKey r)), (''primary'', appendJCSString (u_Primary r)),
                (''members'', ms), (''signature'', appendJCSString (s_Signature r))]
               @ map (\<lambda>(k, v). (k, appendJCS v)) ext))))"

section \<open>Sealed messages\<close>

record 'k aead =
  ae_New :: "bytes \<Rightarrow> 'k option"
  ae_Seal :: "'k \<Rightarrow> bytes \<Rightarrow> bytes \<Rightarrow> bytes"
  ae_Open :: "'k \<Rightarrow> bytes \<Rightarrow> bytes \<Rightarrow> bytes option"

text \<open>The keys of each direction: to the primary, to the newcomer.\<close>

definition pairKeys :: "'p suite \<Rightarrow> spake2Keys \<Rightarrow> (bytes \<times> bytes) option" where
  "pairKeys S k = map_option (\<lambda>okm. (take 32 okm, drop 32 okm)) (su_hkdf S (k_Ke k) (k_Hash k) (str_bytes ''frontier-link/1/pair-transport'') 64)"

record 'k sealer =
  sl_send :: 'k
  sl_recv :: 'k
  sl_sendN :: u64
  sl_recvN :: u64

definition newSealer :: "'k aead \<Rightarrow> bytes \<Rightarrow> bytes \<Rightarrow> 'k sealer option" where
  "newSealer E sendKey recvKey =
     (case (ae_New E sendKey, ae_New E recvKey) of
        (Some s, Some r) \<Rightarrow> Some \<lparr>sl_send = s, sl_recv = r, sl_sendN = 0, sl_recvN = 0\<rparr>
      | _ \<Rightarrow> None)"

definition counterNonce :: "u64 \<Rightarrow> bytes" where
  "counterNonce n = replicate 4 0 @ rev (u64be n)"

definition seal :: "'k aead \<Rightarrow> 'k sealer \<Rightarrow> bytes \<Rightarrow> bytes option \<times> 'k sealer" where
  "seal E s plaintext =
     (if sl_sendN s = - 1 then (None, s)
      else (Some (ae_Seal E (sl_send s) (counterNonce (sl_sendN s)) plaintext), s\<lparr>sl_sendN := sl_sendN s + 1\<rparr>))"

definition open_sealed :: "'k aead \<Rightarrow> 'k sealer \<Rightarrow> bytes \<Rightarrow> bytes option \<times> 'k sealer" where
  "open_sealed E s ciphertext =
     (if sl_recvN s = - 1 then (None, s)
      else case ae_Open E (sl_recv s) (counterNonce (sl_recvN s)) ciphertext of
        None \<Rightarrow> (None, s)
      | Some pt \<Rightarrow> (Some pt, s\<lparr>sl_recvN := sl_recvN s + 1\<rparr>))"

record newcomerKeys =
  nk_ed25519 :: bytes
  nk_x25519 :: bytes

definition newExchange :: "'p suite \<Rightarrow> bool \<Rightarrow> string \<Rightarrow> bytes \<Rightarrow> bytes option \<Rightarrow> bytes list \<Rightarrow> spake2 option" where
  "newExchange S roleA code codeID random48 draws =
     (case deriveW S code of
        None \<Rightarrow> None
      | Some w \<Rightarrow>
          (case random48 of
             None \<Rightarrow> newSpake2 S roleA w None draws spake2IDA spake2IDB codeID
           | Some r \<Rightarrow> (case scalarFromRandom r of None \<Rightarrow> None | Some x \<Rightarrow> newSpake2 S roleA w (Some x) draws spake2IDA spake2IDB codeID)))"

section \<open>The newcomer\<close>

record 'k newcomerExchange =
  ne_spake :: spake2
  ne_keys :: "spake2Keys option"
  ne_sealer :: "'k sealer option"
  ne_confirmed :: bool

definition newNewcomerExchange :: "'p suite \<Rightarrow> string \<Rightarrow> bytes \<Rightarrow> bytes option \<Rightarrow> bytes list \<Rightarrow> 'k newcomerExchange option" where
  "newNewcomerExchange S code codeID random48 draws =
     map_option (\<lambda>s. \<lparr>ne_spake = s, ne_keys = None, ne_sealer = None, ne_confirmed = False\<rparr>) (newExchange S True code codeID random48 draws)"

definition p1 :: "'k newcomerExchange \<Rightarrow> bytes" where
  "p1 e = sp_share (ne_spake e)"

definition onP2 :: "'p suite \<Rightarrow> 'k newcomerExchange \<Rightarrow> bytes \<Rightarrow> bytes option \<times> 'k newcomerExchange" where
  "onP2 S e pB =
     (if ne_keys e \<noteq> None then (None, e)
      else case finish S (ne_spake e) pB of
        None \<Rightarrow> (None, e)
      | Some k \<Rightarrow> (Some (k_ours k), e\<lparr>ne_keys := Some k\<rparr>))"

text \<open>\<open>json.Marshal\<close> of two base64url texts, which have nothing to escape.\<close>

definition p5_text :: "string \<Rightarrow> string \<Rightarrow> string" where
  "p5_text ed x =
     (let q = (\<lambda>s. CHR 0x22 # s @ [CHR 0x22]) in ''{'' @ q ''ed25519'' @ '':'' @ q ed @ '','' @ q ''x25519'' @ '':'' @ q x @ ''}'')"

definition onP4 :: "'p suite \<Rightarrow> 'k aead \<Rightarrow> 'k newcomerExchange \<Rightarrow> bytes \<Rightarrow> newcomerKeys \<Rightarrow> bytes option \<times> 'k newcomerExchange" where
  "onP4 S E e cB mine =
     (case ne_keys e of
        None \<Rightarrow> (None, e)
      | Some k \<Rightarrow>
          if \<not> verifyConfirmation k cB then (None, e)
          else
            let e = e\<lparr>ne_confirmed := True\<rparr>
            in case pairKeys S k of
                 None \<Rightarrow> (None, e)
               | Some (toPrimary, toNewcomer) \<Rightarrow>
                   (case newSealer E toPrimary toNewcomer of
                      None \<Rightarrow> (None, e\<lparr>ne_sealer := None\<rparr>)
                    | Some sl \<Rightarrow>
                        (case seal E sl (str_bytes (p5_text (b64u (nk_ed25519 mine)) (b64u (nk_x25519 mine)))) of
                           (m, sl) \<Rightarrow> (m, e\<lparr>ne_sealer := Some sl\<rparr>))))"

definition onP6 :: "'k aead \<Rightarrow> (string \<Rightarrow> token list \<times> bool) \<Rightarrow> 'k newcomerExchange \<Rightarrow> bytes \<Rightarrow> SignedRoster option \<times> 'k newcomerExchange" where
  "onP6 E dec e sealed =
     (case ne_sealer e of
        None \<Rightarrow> (None, e)
      | Some sl \<Rightarrow>
          if \<not> ne_confirmed e then (None, e)
          else case open_sealed E sl sealed of (pt, sl) \<Rightarrow>
            (do {
               pt \<leftarrow> pt;
               tree \<leftarrow> parseJSON dec (bytes_str pt);
               obj \<leftarrow> as_object tree;
               v \<leftarrow> map_of obj ''roster'';
               guard (v \<noteq> JNull);
               rosterFromTree v
             }, e\<lparr>ne_sealer := Some sl\<rparr>))"

section \<open>The primary\<close>

record 'k primaryExchange =
  pe_spake :: spake2
  pe_keys :: "spake2Keys option"
  pe_sealer :: "'k sealer option"

definition newPrimaryExchange :: "'p suite \<Rightarrow> string \<Rightarrow> bytes \<Rightarrow> bytes option \<Rightarrow> bytes list \<Rightarrow> 'k primaryExchange option" where
  "newPrimaryExchange S code codeID random48 draws =
     map_option (\<lambda>s. \<lparr>pe_spake = s, pe_keys = None, pe_sealer = None\<rparr>) (newExchange S False code codeID random48 draws)"

definition onP1 :: "'p suite \<Rightarrow> 'k primaryExchange \<Rightarrow> bytes \<Rightarrow> bytes option \<times> 'k primaryExchange" where
  "onP1 S e pA =
     (if pe_keys e \<noteq> None then (None, e)
      else case finish S (pe_spake e) pA of
        None \<Rightarrow> (None, e)
      | Some k \<Rightarrow> (Some (sp_share (pe_spake e)), e\<lparr>pe_keys := Some k\<rparr>))"

definition onP3 :: "'p suite \<Rightarrow> 'k aead \<Rightarrow> 'k primaryExchange \<Rightarrow> bytes \<Rightarrow> bool option \<times> 'k primaryExchange" where
  "onP3 S E e cA =
     (case pe_keys e of
        None \<Rightarrow> (None, e)
      | Some k \<Rightarrow>
          if \<not> verifyConfirmation k cA then (Some False, e)
          else case pairKeys S k of
            None \<Rightarrow> (None, e)
          | Some (toPrimary, toNewcomer) \<Rightarrow>
              (case newSealer E toNewcomer toPrimary of
                 None \<Rightarrow> (None, e\<lparr>pe_sealer := None\<rparr>)
               | Some sl \<Rightarrow> (Some True, e\<lparr>pe_sealer := Some sl\<rparr>)))"

definition p4 :: "'k primaryExchange \<Rightarrow> bytes option" where
  "p4 e = (case (pe_keys e, pe_sealer e) of (Some k, Some sl) \<Rightarrow> Some (k_ours k) | _ \<Rightarrow> None)"

definition onP5 :: "'k aead \<Rightarrow> (string \<Rightarrow> token list \<times> bool) \<Rightarrow> 'k primaryExchange \<Rightarrow> bytes \<Rightarrow> newcomerKeys option \<times> 'k primaryExchange" where
  "onP5 E dec e sealed =
     (case pe_sealer e of
        None \<Rightarrow> (None, e)
      | Some sl \<Rightarrow>
          (case open_sealed E sl sealed of (pt, sl) \<Rightarrow>
             (do {
                pt \<leftarrow> pt;
                tree \<leftarrow> parseJSON dec (bytes_str pt);
                obj \<leftarrow> as_object tree;
                ed \<leftarrow> fromB64uLen (case as_string (map_of obj ''ed25519'') of None \<Rightarrow> [] | Some s \<Rightarrow> s) 32;
                x \<leftarrow> fromB64uLen (case as_string (map_of obj ''x25519'') of None \<Rightarrow> [] | Some s \<Rightarrow> s) 32;
                Some \<lparr>nk_ed25519 = ed, nk_x25519 = x\<rparr>
              }, e\<lparr>pe_sealer := Some sl\<rparr>)))"

definition p6 :: "'k aead \<Rightarrow> 'k primaryExchange \<Rightarrow> SignedRoster \<Rightarrow> bytes option \<times> 'k primaryExchange" where
  "p6 E e r =
     (case pe_sealer e of
        None \<Rightarrow> (None, e)
      | Some sl \<Rightarrow>
          (case MarshalJSON r of
             None \<Rightarrow> (None, e)
           | Some rj \<Rightarrow>
               (case seal E sl (str_bytes (''{'' @ (CHR 0x22 # ''roster'' @ [CHR 0x22]) @ '':'' @ rj @ ''}'')) of
                  (m, sl) \<Rightarrow> (m, e\<lparr>pe_sealer := Some sl\<rparr>))))"

section \<open>Texts read back\<close>

lemma dec_digits_digits: "list_all is_digit (dec_digits n) \<and> dec_val (dec_digits n) = n"
proof (induction n rule: dec_digits.induct)
  case (1 n)
  have c: "is_digit (char_of (48 + d)) \<and> digit_val (char_of (48 + d)) = d" if "d < 10" for d :: nat
    using that by (simp add: is_digit_def digit_val_def)
  show ?case
  proof (cases "n < 10")
    case True
    then show ?thesis using c [OF True] by (simp add: dec_digits_small dec_val_def undigits_def)
  next
    case False
    then have "dec_digits n = dec_digits (n div 10) @ [char_of (48 + n mod 10)]" by (subst dec_digits.simps) simp
    then show ?thesis using 1 [OF False] c [of "n mod 10"] by (simp add: dec_val_def)
  qed
qed

lemma dec_digits_head: "0 < n \<Longrightarrow> hd (dec_digits n) \<noteq> CHR ''0'' \<and> dec_digits n \<noteq> []"
proof (induction n rule: dec_digits.induct)
  case (1 n)
  show ?case
  proof (cases "n < 10")
    case True
    have "(of_char (char_of (48 + n)) :: nat) = 48 + n" using True by simp
    moreover have "(of_char (CHR ''0'') :: nat) = 48" by simp
    ultimately have "char_of (48 + n) \<noteq> CHR ''0''" using 1(2) by (metis add_cancel_right_right less_not_refl)
    then show ?thesis using True by (simp add: dec_digits_small)
  next
    case False
    then have "dec_digits n = dec_digits (n div 10) @ [char_of (48 + n mod 10)]" by (subst dec_digits.simps) simp
    then show ?thesis using 1(1) [OF False] False by auto
  qed
qed

lemma FormatInt_number:
  assumes "0 \<le> i" "i < 2 ^ 53"
  shows "is_number (FormatInt i)" "safeInteger (Some (JNum (FormatInt i))) = Some i"
proof -
  define n where "n = nat i"
  have n: "FormatInt i = dec_digits n" "int n = i" using assms(1) by (simp_all add: FormatInt_def n_def)
  note d = dec_digits_digits [of n]
  have z0: "dec_digits 0 = ''0''" by (simp add: dec_digits_small char_zero)
  have nz: "n = 0 \<or> hd (dec_digits n) \<noteq> CHR ''0'' \<and> dec_digits n \<noteq> []" using dec_digits_head [of n] by blast
  then have ne: "dec_digits n \<noteq> []" using z0 by auto
  have z: "tl (dec_digits n) = []" if "hd (dec_digits n) = CHR ''0''" using nz z0 that by auto
  have tw: "takeWhile is_digit (dec_digits n) = dec_digits n" "dropWhile is_digit (dec_digits n) = []"
    using d [THEN conjunct1] by (simp_all add: list_all_iff takeWhile_eq_all_conv)
  have "\<not> starts (dec_digits n) (CHR ''-'')" using digits_unsigned d by blast
  moreover have "\<not> (dec_digits n = [] \<or> hd (dec_digits n) = CHR ''0'' \<and> tl (dec_digits n) \<noteq> [])" using ne z by blast
  ultimately show "is_number (FormatInt i)" unfolding n(1) is_number_def split_number_def Let_def by (simp only: tw if_False) (simp add: split_exp_def)
  have "length (dec_digits n) \<le> 16"
  proof (cases "n = 0")
    case False
    have "n < 2 ^ 53" using assms(2) n(2) by simp
    then have "(10 :: nat) ^ (length (dec_digits n) - 1) < 10 ^ 16" using dec_digits_length [of n] False by simp
    then have "length (dec_digits n) - 1 < 16" by (rule power_less_imp_less_exp [rotated]) simp
    then show ?thesis by simp
  qed (simp add: dec_digits_small)
  then show "safeInteger (Some (JNum (FormatInt i))) = Some i"
    using ne d ParseInt_digits [OF ne] assms n by (simp add: safeInteger_def)
qed

text \<open>ASCII with no backslash: valid, and without escapes.\<close>

definition clean :: "string \<Rightarrow> bool" where
  "clean s \<longleftrightarrow> list_all (\<lambda>c. of_char c < (0x80 :: nat) \<and> of_char c \<noteq> (0x5c :: nat)) s"

lemma clean_append [simp]: "clean (a @ b) \<longleftrightarrow> clean a \<and> clean b"
  and clean_Cons: "clean (c # b) \<longleftrightarrow> of_char c < (0x80 :: nat) \<and> of_char c \<noteq> (0x5c :: nat) \<and> clean b" and clean_Nil [simp]: "clean []"
  by (auto simp: clean_def)

lemma clean_plain: "plain s \<Longrightarrow> clean s"
  by (auto simp: plain_def clean_def list_all_iff)

lemma clean_comma_join: "list_all clean xs \<Longrightarrow> clean (comma_join xs)"
  by (induction xs rule: comma_join.induct) (auto simp: clean_Cons)

lemma clean_digits: "list_all is_digit s \<Longrightarrow> clean s"
  by (auto simp: clean_def list_all_iff is_digit_def)

lemma clean_scans: "clean s \<Longrightarrow> ValidString s \<and> \<not> checkSurrogates b (codes s)"
proof
  assume c: "clean s"
  then show "ValidString s" by (auto simp: clean_def ascii_def list_all_iff intro!: ascii_valid)
  show "\<not> checkSurrogates b (codes s)" using c by (induction s arbitrary: b) (auto simp: codes_def clean_Cons)
qed

lemma parseJSON_reads:
  assumes "clean s" "dec s = (tokens_of v, True)" "acceptable (\<lambda>t. snd (ParseFloat t) \<and> fst (ParseFloat t) = Infinite) (\<lambda>depth. depth > 32) 1 v"
  shows "parseJSON dec s = Some v"
  using clean_scans [OF assms(1)] assms(2) parse_complete [OF assms(3), of "[]"] by (simp add: parseJSON_def)

text \<open>The tree of the text of a roster with no members beyond the protocol's.\<close>

definition member_read :: "RosterMember \<Rightarrow> json" where
  "member_read m = JObj [(''id'', JStr (rm_ID m)), (''ed25519'', JStr (rm_Ed25519 m)), (''x25519'', JStr (rm_X25519 m))]"

definition roster_read :: "SignedRoster \<Rightarrow> json" where
  "roster_read r =
     JObj [(''network'', JStr (u_Network r)), (''version'', JNum (FormatInt (u_Version r))), (''issuedAt'', JNum (FormatInt (u_IssuedAt r))),
       (''relay'', JStr (u_Relay r)), (''networkKey'', JStr (u_NetworkKey r)), (''primary'', JStr (u_Primary r)),
       (''members'', JArr (map member_read (u_Members r))), (''signature'', JStr (s_Signature r))]"

definition bare :: "SignedRoster \<Rightarrow> bool" where
  "bare r \<longleftrightarrow> s_extra r = [] \<and> list_all (\<lambda>m. rm_extra m = [] \<and> plain (rm_ID m) \<and> plain (rm_Ed25519 m) \<and> plain (rm_X25519 m)) (u_Members r)
     \<and> 0 \<le> u_Version r \<and> u_Version r < 2 ^ 53 \<and> 0 \<le> u_IssuedAt r \<and> u_IssuedAt r < 2 ^ 53
     \<and> list_all plain [u_Network r, u_Relay r, u_NetworkKey r, u_Primary r, s_Signature r]"

lemma roster_read_back: "bare r \<Longrightarrow> rosterFromTree (roster_read r) = Some r"
proof -
  assume b: "bare r"
  have "those_list (map member_from_tree (map member_read ms)) = Some ms" if "list_all (\<lambda>m. rm_extra m = []) ms" for ms
    using that by (induction ms) (auto simp: member_read_def member_from_tree_def without_def)
  moreover have "list_all (\<lambda>m. rm_extra m = []) (u_Members r)" using b by (simp add: bare_def list_all_iff)
  ultimately show ?thesis
    using b by (simp add: bare_def roster_read_def rosterFromTree_def FormatInt_number without_def)
qed

lemma plain_names: "plain ''network''" "plain ''version''" "plain ''issuedAt''" "plain ''relay''" "plain ''networkKey''" "plain ''primary''"
  "plain ''members''" "plain ''signature''" "plain ''id''" "plain ''ed25519''" "plain ''x25519''" "plain ''roster''"
  by (simp_all add: plain_def)

lemma clean_number: "0 \<le> i \<Longrightarrow> clean (FormatInt i)"
  using clean_digits dec_digits_digits by (simp add: FormatInt_def)

lemma clean_members:
  assumes "list_all (\<lambda>m. rm_extra m = [] \<and> plain (rm_ID m) \<and> plain (rm_Ed25519 m) \<and> plain (rm_X25519 m)) ms"
  shows "\<exists>ys. those_list (map (\<lambda>m. appendOrdered [(''id'', JStr (rm_ID m)), (''ed25519'', JStr (rm_Ed25519 m)), (''x25519'', JStr (rm_X25519 m))]
                    (rm_extra m)) ms) = Some ys \<and> list_all clean ys"
  using assms
proof (induction ms)
  case (Cons m ms)
  have "\<exists>t. appendOrdered [(''id'', JStr (rm_ID m)), (''ed25519'', JStr (rm_Ed25519 m)), (''x25519'', JStr (rm_X25519 m))] (rm_extra m) = Some t \<and> clean t"
    using Cons.prems by (simp add: appendOrdered_def extra_members_def member_text_def plain_JCS plain_names clean_Cons clean_plain)
  then show ?case using Cons by auto
qed simp

lemma MarshalJSON_clean: "bare r \<Longrightarrow> \<exists>t. MarshalJSON r = Some t \<and> clean t"
proof -
  assume b: "bare r"
  obtain ys where ys: "those_list (map (\<lambda>m. appendOrdered [(''id'', JStr (rm_ID m)), (''ed25519'', JStr (rm_Ed25519 m)), (''x25519'', JStr (rm_X25519 m))]
                    (rm_extra m)) (u_Members r)) = Some ys" "list_all clean ys"
    using clean_members b unfolding bare_def by blast
  have c: "clean (comma_join ys)" by (rule clean_comma_join [OF ys(2)])
  show ?thesis using b c
    by (simp add: MarshalJSON_def ys(1) extra_members_def bare_def member_text_def plain_JCS plain_names clean_Cons clean_plain clean_number)
qed

lemma roster_read_acceptable:
  assumes "bare r" "\<not> deep d" "\<not> deep (Suc d)" "\<not> deep (Suc (Suc d))"
  shows "acceptable (\<lambda>t. snd (ParseFloat t) \<and> fst (ParseFloat t) = Infinite) deep d (roster_read r)"
proof -
  have "snd (ParseFloat (FormatInt i)) = False" if "0 \<le> i" "i < 2 ^ 53" for i using ParseFloat_integer(1) [OF FormatInt_number [OF that]] by simp
  then show ?thesis using assms by (simp add: roster_read_def member_read_def bare_def list_all_iff)
qed

section \<open>An honest run\<close>

text \<open>What the sealed messages rely on: HKDF gives 64 bytes, 32 bytes are a key, and what is sealed opens.\<close>

definition transport_laws :: "'p suite \<Rightarrow> 'k aead \<Rightarrow> bool" where
  "transport_laws S E \<longleftrightarrow>
     (\<forall>s salt info. \<exists>okm. su_hkdf S s salt info 64 = Some okm \<and> length okm = 64) \<and> (\<forall>k. length k = 32 \<longrightarrow> (\<exists>c. ae_New E k = Some c)) \<and>
     (\<forall>c n m. ae_Open E c n (ae_Seal E c n m) = Some m)"

lemma transportD:
  assumes "transport_laws S E"
  shows "\<exists>p n. pairKeys S k = Some (p, n) \<and> length p = 32 \<and> length n = 32" "length b = 32 \<Longrightarrow> \<exists>c. ae_New E b = Some c" "ae_Open E c nn (ae_Seal E c nn m) = Some m"
proof -
  obtain okm where "su_hkdf S (k_Ke k) (k_Hash k) (str_bytes ''frontier-link/1/pair-transport'') 64 = Some okm" "length okm = 64"
    using assms unfolding transport_laws_def by blast
  then show "\<exists>p n. pairKeys S k = Some (p, n) \<and> length p = 32 \<and> length n = 32" by (simp add: pairKeys_def)
qed (use assms in \<open>simp_all add: transport_laws_def\<close>)

lemma pairKeys_swap [simp]: "pairKeys S (k\<lparr>k_ours := a, k_theirs := b\<rparr>) = pairKeys S k"
  by (simp add: pairKeys_def)

text \<open>The messages in turn, P1 to P6: the keys the primary read, and the roster the newcomer read.\<close>

definition pairing_run ::
  "'p suite \<Rightarrow> 'k aead \<Rightarrow> (string \<Rightarrow> token list \<times> bool) \<Rightarrow> 'k newcomerExchange \<Rightarrow> 'k primaryExchange \<Rightarrow> newcomerKeys \<Rightarrow> SignedRoster
     \<Rightarrow> (newcomerKeys \<times> SignedRoster) option" where
  "pairing_run S E dec A B mine r =
     (case onP1 S B (p1 A) of (pB, B) \<Rightarrow>
      case onP2 S A (case pB of None \<Rightarrow> [] | Some m \<Rightarrow> m) of (cA, A) \<Rightarrow>
      case onP3 S E B (case cA of None \<Rightarrow> [] | Some m \<Rightarrow> m) of (ok, B) \<Rightarrow>
      case onP4 S E A (case p4 B of None \<Rightarrow> [] | Some m \<Rightarrow> m) mine of (m5, A) \<Rightarrow>
      case onP5 E dec B (case m5 of None \<Rightarrow> [] | Some m \<Rightarrow> m) of (keys, B) \<Rightarrow>
      case p6 E B r of (m6, B) \<Rightarrow>
      case onP6 E dec A (case m6 of None \<Rightarrow> [] | Some m \<Rightarrow> m) of (r', A) \<Rightarrow>
        do { pB; cA; v \<leftarrow> ok; guard v; m5; m6; k \<leftarrow> keys; r' \<leftarrow> r'; Some (k, r') })"

definition p6_text :: "SignedRoster \<Rightarrow> string" where
  "p6_text r = ''{'' @ (CHR 0x22 # ''roster'' @ [CHR 0x22]) @ '':'' @ (case MarshalJSON r of None \<Rightarrow> [] | Some t \<Rightarrow> t) @ ''}''"

text \<open>The decoder of \<open>encoding/json\<close> gives the tokens of the two texts that cross.\<close>

definition reads_texts :: "(string \<Rightarrow> token list \<times> bool) \<Rightarrow> newcomerKeys \<Rightarrow> SignedRoster \<Rightarrow> bool" where
  "reads_texts dec mine r \<longleftrightarrow>
     dec (p5_text (b64u (nk_ed25519 mine)) (b64u (nk_x25519 mine)))
       = (tokens_of (JObj [(''ed25519'', JStr (b64u (nk_ed25519 mine))), (''x25519'', JStr (b64u (nk_x25519 mine)))]), True) \<and>
     dec (p6_text r) = (tokens_of (JObj [(''roster'', roster_read r)]), True)"

lemma texts_parse:
  assumes "reads_texts dec mine r" "bare r"
  shows "parseJSON dec (p5_text (b64u (nk_ed25519 mine)) (b64u (nk_x25519 mine))) = Some (JObj [(''ed25519'', JStr (b64u (nk_ed25519 mine))), (''x25519'', JStr (b64u (nk_x25519 mine)))])"
    "parseJSON dec (p6_text r) = Some (JObj [(''roster'', roster_read r)])"
proof -
  show "parseJSON dec (p5_text (b64u (nk_ed25519 mine)) (b64u (nk_x25519 mine))) = Some (JObj [(''ed25519'', JStr (b64u (nk_ed25519 mine))), (''x25519'', JStr (b64u (nk_x25519 mine)))])"
    by (rule parseJSON_reads) (use assms(1) in \<open>simp_all add: p5_text_def clean_Cons clean_plain plain_b64u reads_texts_def\<close>)
  show "parseJSON dec (p6_text r) = Some (JObj [(''roster'', roster_read r)])"
    by (rule parseJSON_reads) (use assms MarshalJSON_clean [OF assms(2)] in \<open>auto simp: p6_text_def clean_Cons reads_texts_def intro!: roster_read_acceptable\<close>)
qed

lemma honest_exchange:
  assumes "transport_laws S E" "reads_texts dec mine r" "bare r"
    and "finish S (ne_spake A) (sp_share (pe_spake B)) = Some k" "finish S (pe_spake B) (sp_share (ne_spake A)) = Some (k\<lparr>k_ours := k_theirs k, k_theirs := k_ours k\<rparr>)"
    and "ne_keys A = None" "pe_keys B = None" "length (nk_ed25519 mine) = 32" "length (nk_x25519 mine) = 32"
  shows "pairing_run S E dec A B mine r = Some (mine, r)"
proof -
  obtain p n where pn: "pairKeys S k = Some (p, n)" "length p = 32" "length n = 32" using transportD(1) [OF assms(1)] by blast
  obtain cp cn where c: "ae_New E p = Some cp" "ae_New E n = Some cn" using transportD(2) [OF assms(1)] pn by blast
  obtain t where t: "MarshalJSON r = Some t" using MarshalJSON_clean [OF assms(3)] by blast
  have nz: "roster_read r \<noteq> JNull" by (simp add: roster_read_def)
  note T = texts_parse [OF assms(2,3), unfolded p6_text_def t option.case]
  show ?thesis
    using assms(4-9) pn c t T roster_read_back [OF assms(3)] nz
    by (simp add: pairing_run_def onP1_def p1_def onP2_def onP3_def p4_def onP4_def onP5_def p6_def onP6_def newSealer_def seal_def open_sealed_def
          verifyConfirmation_def transportD(3) [OF assms(1)] fromB64uLen_b64u Let_def guard_def)
qed

lemma newExchange_side:
  assumes "newExchange S roleA code codeID r draws = Some s"
  shows "\<exists>w sc. deriveW S code = Some w \<and> newSpake2 S roleA w sc draws spake2IDA spake2IDB codeID = Some s"
  using assms by (auto simp: newExchange_def split: option.splits)

text \<open>
  C9. Pairing completes. When a newcomer and a primary start from the same code and code id, the shared
  point is not the identity and the decoder reads what they write, the six messages go through: the
  primary accepts the newcomer's proof of the code and reads exactly its two keys, and the newcomer
  accepts the primary's proof and reads exactly the roster the primary sealed.
\<close>

theorem pairing_completes:
  assumes "suite_laws S z G" "transport_laws S E" "reads_texts dec mine r" "bare r"
    and "newNewcomerExchange S code codeID rA drawsA = Some A" and "newPrimaryExchange S code codeID rB drawsB = Some B"
    and "times S z (be_nat (sp_xy (ne_spake A)) * be_nat (sp_xy (pe_spake B))) G \<noteq> z"
    and "length (nk_ed25519 mine) = 32" "length (nk_x25519 mine) = 32"
  shows "pairing_run S E dec A B mine r = Some (mine, r)"
proof -
  obtain w scA where A: "deriveW S code = Some w" "newSpake2 S True w scA drawsA spake2IDA spake2IDB codeID = Some (ne_spake A)"
    using assms(5) newExchange_side by (fastforce simp: newNewcomerExchange_def)
  obtain w' scB where B: "deriveW S code = Some w'" "newSpake2 S False w' scB drawsB spake2IDA spake2IDB codeID = Some (pe_spake B)"
    using assms(6) newExchange_side by (fastforce simp: newPrimaryExchange_def)
  have "w' = w" using A(1) B(1) by simp
  then obtain k where "finish S (ne_spake A) (sp_share (pe_spake B)) = Some k"
      "finish S (pe_spake B) (sp_share (ne_spake A)) = Some (k\<lparr>k_ours := k_theirs k, k_theirs := k_ours k\<rparr>)"
    using spake2_sides [OF assms(1) A(2) _ assms(7)] B(2) by blast
  then show ?thesis
    by (rule honest_exchange [OF assms(2-4)]) (use assms(5,6,8,9) in \<open>auto simp: newNewcomerExchange_def newPrimaryExchange_def\<close>)
qed

definition demo_aead :: "bytes aead" where
  "demo_aead = \<lparr>ae_New = Some, ae_Seal = (\<lambda>c n m. c @ n @ m), ae_Open = (\<lambda>c n ct. Some (drop (length c + length n) ct))\<rparr>"

definition demo_keys :: newcomerKeys where
  "demo_keys = \<lparr>nk_ed25519 = replicate 32 3, nk_x25519 = replicate 32 4\<rparr>"

definition demo_reader :: "string \<Rightarrow> token list \<times> bool" where
  "demo_reader s =
     (if s = p6_text demo_roster then (tokens_of (JObj [(''roster'', roster_read demo_roster)]), True)
      else (tokens_of (JObj [(''ed25519'', JStr (b64u (nk_ed25519 demo_keys))), (''x25519'', JStr (b64u (nk_x25519 demo_keys)))]), True))"

lemma demo_pairing:
  "transport_laws residues demo_aead" "reads_texts demo_reader demo_keys demo_roster" "bare demo_roster"
  "newNewcomerExchange residues code [] (Some (be_bytes 48 2)) [] = map_option (\<lambda>s. \<lparr>ne_spake = s, ne_keys = None, ne_sealer = None, ne_confirmed = False\<rparr>) (demo_side True 2)"
  "newPrimaryExchange residues code [] (Some (be_bytes 48 3)) [] = map_option (\<lambda>s. \<lparr>pe_spake = s, pe_keys = None, pe_sealer = None\<rparr>) (demo_side False 3)"
proof -
  show "transport_laws residues demo_aead" by (simp add: transport_laws_def residues_def demo_aead_def)
  have "p5_text a b \<noteq> p6_text r" for a b r by (simp add: p5_text_def p6_text_def)
  then show "reads_texts demo_reader demo_keys demo_roster" by (simp add: reads_texts_def demo_reader_def)
  show "bare demo_roster"
    by (simp add: bare_def demo_roster_def demo_identity_def MemberFromIdentity_def NodeIDFromEd25519_def plain_b64u plain_ID) (simp add: plain_def)
  have r: "reduceModN (be_bytes n x) = be_bytes 32 x" if "x < 256" "32 \<le> n" for n x
  proof (rule be_nat_inject)
    have "(256 :: nat) ^ 1 \<le> 256 ^ n" using that(2) by (intro power_increasing) simp_all
    then have "x < 256 ^ n" "x < order" using that(1) by (simp_all add: p256N_val)
    then show "be_nat (reduceModN (be_bytes n x)) = be_nat (be_bytes 32 x)" using that(1) by (simp add: reduceModN_val be_nat_be_bytes)
  qed (simp add: reduceModN_val)
  have nz: "\<not> isZero32 (be_bytes 32 5)" by (simp add: isZero32_val be_nat_be_bytes)
  have w: "deriveW residues code = Some (be_bytes 32 5)" using nz by (simp add: deriveW_def residues_def r Let_def)
  show "newNewcomerExchange residues code [] (Some (be_bytes 48 2)) [] = map_option (\<lambda>s. \<lparr>ne_spake = s, ne_keys = None, ne_sealer = None, ne_confirmed = False\<rparr>) (demo_side True 2)"
    "newPrimaryExchange residues code [] (Some (be_bytes 48 3)) [] = map_option (\<lambda>s. \<lparr>pe_spake = s, pe_keys = None, pe_sealer = None\<rparr>) (demo_side False 3)"
    by (simp_all add: newNewcomerExchange_def newPrimaryExchange_def newExchange_def w scalarFromRandom_def r demo_side_def)
qed

theorem pairing_completes_witness:
  "\<exists>A B. newNewcomerExchange residues ''K7F2M9QX'' [] (Some (be_bytes 48 2)) [] = Some A \<and> newPrimaryExchange residues ''K7F2M9QX'' [] (Some (be_bytes 48 3)) [] = Some B
     \<and> pairing_run residues demo_aead demo_reader A B demo_keys demo_roster = Some (demo_keys, demo_roster)"
proof -
  obtain sA sB where s: "demo_side True 2 = Some sA" "demo_side False 3 = Some sB" "sp_xy sA = be_bytes 32 2" "sp_xy sB = be_bytes 32 3"
    using demo_sides by auto
  let ?A = "\<lparr>ne_spake = sA, ne_keys = None, ne_sealer = None, ne_confirmed = False\<rparr>" and ?B = "\<lparr>pe_spake = sB, pe_keys = None, pe_sealer = None\<rparr>"
  have A: "newNewcomerExchange residues ''K7F2M9QX'' [] (Some (be_bytes 48 2)) [] = Some ?A" using demo_pairing(4) s(1) by simp
  have B: "newPrimaryExchange residues ''K7F2M9QX'' [] (Some (be_bytes 48 3)) [] = Some ?B" using demo_pairing(5) s(2) by simp
  have "pairing_run residues demo_aead demo_reader ?A ?B demo_keys demo_roster = Some (demo_keys, demo_roster)"
    by (rule pairing_completes [OF residues_laws demo_pairing(1-3) A B]) (use demo_shared [OF s(3,4)] in \<open>simp_all add: demo_keys_def\<close>)
  then show ?thesis using A B by blast
qed

end
