(* ===== verification/Codes.thy ===== *)
theory Codes
  imports Roster_Properties
begin

text \<open>
  Pairing codes and pairing links (\<open>client-go/code.go\<close>): codes in the canonical form, the pairing
  parameters written and read, and their \<open>frontier://pair?\<close> wrapping. What the file uses of Go's
  library is modelled with it: \<open>unicode.IsSpace\<close> and \<open>ToUpper\<close>, \<open>strings.Split\<close>, \<open>Cut\<close> and \<open>Trim\<close>, and
  \<open>url.PathUnescape\<close>. A string is its bytes, and \<open>range\<close> over one goes by runes (\<open>Utf8\<close>). Errors are
  \<open>None\<close>; their messages are not modelled.
\<close>

section \<open>Codes\<close>

definition crockford :: string where "crockford = ''0123456789ABCDEFGHJKMNPQRSTVWXYZ''"
definition codeLength :: nat where "codeLength = 8"
definition codeIDLength :: nat where "codeIDLength = 8"
definition DefaultCodeID :: string where "DefaultCodeID = ''AAAAAAAAAAA''"

text \<open>From eight random bytes.\<close>

definition GenerateCode :: "bytes \<Rightarrow> string" where
  "GenerateCode b = map (\<lambda>x. crockford ! (unat x mod 32)) b"

definition IsSpace :: "nat \<Rightarrow> bool" where
  "IsSpace r \<longleftrightarrow> 9 \<le> r \<and> r \<le> 13 \<or> r = 32 \<or> r = 0x85 \<or> r = 0xA0 \<or> r = 0x1680 \<or> 0x2000 \<le> r \<and> r \<le> 0x200A \<or> r = 0x2028 \<or> r = 0x2029
     \<or> r = 0x202F \<or> r = 0x205F \<or> r = 0x3000"

text \<open>
  Outside ASCII, two runes have an upper case in ASCII: the dotless i and the long s. Any other keeps
  some rune outside ASCII, which no code has, and is left as it is here.
\<close>

definition ToUpper :: "nat \<Rightarrow> nat" where
  "ToUpper r = (if 97 \<le> r \<and> r \<le> 122 then r - 32 else if r = 0x131 then 73 else if r = 0x17F then 83 else r)"

definition code_rune :: "nat \<Rightarrow> nat" where
  "code_rune r = (let r = ToUpper r in if r = 73 \<or> r = 76 then 49 else if r = 79 then 48 else r)"

definition Trim :: "string \<Rightarrow> string \<Rightarrow> string" where
  "Trim s cutset = rev (dropWhile (\<lambda>c. c \<in> set cutset) (rev (dropWhile (\<lambda>c. c \<in> set cutset) s)))"

definition NormalizeCode :: "string \<Rightarrow> string option" where
  "NormalizeCode input =
     (let code = map char_of (concat (map (\<lambda>r. if r = 45 \<or> IsSpace r then [] else encode_rune (code_rune r)) (runes input)))
      in if length code \<noteq> codeLength \<or> Trim code crockford \<noteq> [] then None else Some code)"

definition FormatCode :: "string \<Rightarrow> string option" where
  "FormatCode code = map_option (\<lambda>c. take 4 c @ ''-'' @ drop 4 c) (NormalizeCode code)"

section \<open>Percent-encoding\<close>

definition unreserved :: "char \<Rightarrow> bool" where
  "unreserved c \<longleftrightarrow> is_alpha c \<or> is_digit c \<or> c \<in> set ''-_.!~*'' \<or> c \<in> {CHR 0x27, CHR ''('', CHR '')''}"

definition hex_upper :: "nat \<Rightarrow> char" where
  "hex_upper n = ''0123456789ABCDEF'' ! n"

definition encodeURIComponent :: "string \<Rightarrow> string" where
  "encodeURIComponent s =
     concat (map (\<lambda>c. if unreserved c then [c] else [CHR ''%'', hex_upper (of_char c div 16), hex_upper (of_char c mod 16)]) s)"

text \<open>\<open>url.PathUnescape\<close>: each \<open>%\<close> is followed by two hexadecimal digits; nothing else changes.\<close>

fun PathUnescape :: "string \<Rightarrow> string option" where
  "PathUnescape [] = Some []"
| "PathUnescape (c # s) =
     (if c = CHR ''%''
      then (case s of
              h # l # s' \<Rightarrow>
                (case (hex_val (of_char h), hex_val (of_char l)) of
                   (Some a, Some b) \<Rightarrow> map_option ((#) (char_of (16 * a + b))) (PathUnescape s')
                 | _ \<Rightarrow> None)
            | _ \<Rightarrow> None)
      else map_option ((#) c) (PathUnescape s))"

section \<open>Pairing links\<close>

record PairingLink =
  lk_Network :: string
  lk_Code :: string
  lk_CodeID :: string
  lk_Relay :: string

definition pairingParams :: "PairingLink \<Rightarrow> string option" where
  "pairingParams p = do {
     guard (IsNodeID (lk_Network p));
     i \<leftarrow> (if lk_CodeID p \<noteq> [] \<and> lk_CodeID p \<noteq> DefaultCodeID
          then (case fromB64uLen (lk_CodeID p) codeIDLength of None \<Rightarrow> None | Some b \<Rightarrow> Some (''&i='' @ encodeURIComponent (lk_CodeID p)))
          else Some []);
     code \<leftarrow> NormalizeCode (lk_Code p);
     Some (''v=1&n='' @ encodeURIComponent (lk_Network p) @ ''&c='' @ encodeURIComponent code @ i @ ''&r='' @ encodeURIComponent (lk_Relay p))
   }"

fun Split :: "char \<Rightarrow> string \<Rightarrow> string list" where
  "Split sep [] = [[]]"
| "Split sep (c # s) = (if c = sep then [] # Split sep s else (case Split sep s of p # ps \<Rightarrow> (c # p) # ps | [] \<Rightarrow> [[c]]))"

definition Cut :: "string \<Rightarrow> char \<Rightarrow> (string \<times> string) option" where
  "Cut s sep = (if sep \<in> set s then Some (takeWhile (\<lambda>c. c \<noteq> sep) s, tl (dropWhile (\<lambda>c. c \<noteq> sep) s)) else None)"

text \<open>The loop over the parts, with the parameters read so far.\<close>

fun read_parts :: "string list \<Rightarrow> (string \<times> string) list \<Rightarrow> (string \<times> string) list option" where
  "read_parts [] params = Some params"
| "read_parts (part # parts) params =
     (if part = [] then read_parts parts params
      else case Cut part (CHR ''='') of
        None \<Rightarrow> None
      | Some (key, value) \<Rightarrow>
          if map_of params key \<noteq> None then None
          else case PathUnescape value of
            None \<Rightarrow> None
          | Some v \<Rightarrow> if \<not> ValidString v then None else read_parts parts (params @ [(key, v)]))"

definition param :: "(string \<times> string) list \<Rightarrow> string \<Rightarrow> string" where
  "param params k = (case map_of params k of None \<Rightarrow> [] | Some v \<Rightarrow> v)"

definition readPairingParams :: "primitives \<Rightarrow> string \<Rightarrow> PairingLink option" where
  "readPairingParams pr s = do {
     params \<leftarrow> read_parts (Split (CHR ''&'') s) [];
     guard (param params ''v'' = ''1'');
     guard (param params ''n'' \<noteq> []);
     guard (IsNodeID (param params ''n''));
     guard (param params ''c'' \<noteq> []);
     codeID \<leftarrow> (case map_of params ''i'' of None \<Rightarrow> Some DefaultCodeID | Some i \<Rightarrow> if i = [] then None else Some i);
     _ \<leftarrow> fromB64uLen codeID codeIDLength;
     guard (param params ''r'' \<noteq> []);
     scheme \<leftarrow> url_Parse pr (param params ''r'');
     guard (map to_lower scheme = ''ws'' \<or> map to_lower scheme = ''wss'');
     code \<leftarrow> NormalizeCode (param params ''c'');
     Some \<lparr>lk_Network = param params ''n'', lk_Code = code, lk_CodeID = codeID, lk_Relay = param params ''r''\<rparr>
   }"

definition BuildPairingParams :: "primitives \<Rightarrow> PairingLink \<Rightarrow> string option" where
  "BuildPairingParams pr p = (if \<not> IsRelayURL pr (lk_Relay p) then None else pairingParams p)"

definition ParsePairingParams :: "primitives \<Rightarrow> string \<Rightarrow> PairingLink option" where
  "ParsePairingParams pr s =
     (case readPairingParams pr s of None \<Rightarrow> None | Some p \<Rightarrow> if \<not> IsRelayURL pr (lk_Relay p) then None else Some p)"

definition link_prefix :: string where "link_prefix = ''frontier://pair?''"

definition BuildPairingLink :: "PairingLink \<Rightarrow> string option" where
  "BuildPairingLink p = map_option (\<lambda>s. link_prefix @ s) (pairingParams p)"

definition ParsePairingLink :: "primitives \<Rightarrow> string \<Rightarrow> PairingLink option" where
  "ParsePairingLink pr link =
     (case CutPrefix link link_prefix of None \<Rightarrow> None | Some rest \<Rightarrow> readPairingParams pr rest)"

section \<open>Canonical codes\<close>

definition canonical_code :: "string \<Rightarrow> bool" where
  "canonical_code c \<longleftrightarrow> length c = codeLength \<and> set c \<subseteq> set crockford"

lemma dropWhile_Nil: "dropWhile P xs = [] \<longleftrightarrow> list_all P xs"
  by (induction xs) auto

lemma Trim_Nil: "Trim s cs = [] \<longleftrightarrow> set s \<subseteq> set cs"
proof -
  let ?P = "\<lambda>c. c \<in> set cs"
  have "list_all ?P (dropWhile ?P s) \<longleftrightarrow> list_all ?P s" by (induction s) auto
  then show ?thesis by (simp add: Trim_def dropWhile_Nil list_all_rev) (simp add: list_all_iff subset_eq)
qed

lemma crockford_char: "c \<in> set crockford \<Longrightarrow> of_char c < (128 :: nat) \<and> of_char c \<noteq> (45 :: nat) \<and> \<not> IsSpace (of_char c) \<and> code_rune (of_char c) = of_char c"
proof -
  have "list_all (\<lambda>c. of_char c < (128 :: nat) \<and> of_char c \<noteq> (45 :: nat) \<and> \<not> IsSpace (of_char c) \<and> code_rune (of_char c) = of_char c) crockford"
    by (simp add: crockford_def IsSpace_def code_rune_def ToUpper_def)
  then show "c \<in> set crockford \<Longrightarrow> of_char c < (128 :: nat) \<and> of_char c \<noteq> (45 :: nat) \<and> \<not> IsSpace (of_char c) \<and> code_rune (of_char c) = of_char c"
    by (simp add: list_all_iff)
qed

lemma normal_runes:
  "set c \<subseteq> set crockford \<Longrightarrow> map char_of (concat (map (\<lambda>r. if r = 45 \<or> IsSpace r then [] else encode_rune (code_rune r)) (codes c))) = c"
  by (induction c) (auto simp: codes_def crockford_char encode_rune_def)

lemma crockford_ascii: "set c \<subseteq> set crockford \<Longrightarrow> ascii c"
  using crockford_char by (auto simp: ascii_def list_all_iff)

lemma NormalizeCode_canonical: "canonical_code c \<Longrightarrow> NormalizeCode c = Some c"
  by (simp add: NormalizeCode_def canonical_code_def ascii_runes [OF crockford_ascii] normal_runes Trim_Nil)

lemma NormalizeCode_Some: "NormalizeCode s = Some c \<Longrightarrow> canonical_code c"
  by (auto simp: NormalizeCode_def canonical_code_def Trim_Nil Let_def split: if_splits)

lemma NormalizeCode_hyphen:
  assumes "canonical_code c"
  shows "NormalizeCode (take 4 c @ ''-'' @ drop 4 c) = Some c"
proof -
  have s: "set (take 4 c) \<subseteq> set crockford" "set (drop 4 c) \<subseteq> set crockford" using assms set_take_subset set_drop_subset unfolding canonical_code_def by fast+
  then have "ascii (take 4 c @ ''-'' @ drop 4 c)" using crockford_ascii by (auto simp: ascii_def)
  moreover have "codes (take 4 c @ ''-'' @ drop 4 c) = codes (take 4 c) @ [45] @ codes (drop 4 c)" by (simp add: codes_def)
  ultimately show ?thesis
    using s assms by (simp add: NormalizeCode_def canonical_code_def ascii_runes normal_runes Trim_Nil)
qed

lemma lower_rune:
  "of_char c < (128 :: nat) \<Longrightarrow> of_char (to_lower c) < (128 :: nat) \<and> (of_char (to_lower c) = (45 :: nat) \<or> IsSpace (of_char (to_lower c))) = (of_char c = (45 :: nat) \<or> IsSpace (of_char c))
     \<and> code_rune (of_char (to_lower c)) = code_rune (of_char c)"
proof -
  assume "of_char c < (128 :: nat)"
  moreover have "(of_char (to_lower c) :: nat) = (if 65 \<le> (of_char c :: nat) \<and> of_char c \<le> (90 :: nat) then of_char c + 32 else of_char c)"
    using nat_of_char_less_256 [of c] by (simp add: to_lower_def)
  ultimately show ?thesis by (auto simp: IsSpace_def code_rune_def ToUpper_def Let_def)
qed

lemma NormalizeCode_lower: "ascii s \<Longrightarrow> NormalizeCode (map to_lower s) = NormalizeCode s"
proof -
  assume a: "ascii s"
  then have "ascii (map to_lower s)" using lower_rune by (auto simp: ascii_def list_all_iff)
  moreover have "map (\<lambda>r. if r = 45 \<or> IsSpace r then [] else encode_rune (code_rune r)) (codes (map to_lower s))
      = map (\<lambda>r. if r = 45 \<or> IsSpace r then [] else encode_rune (code_rune r)) (codes s)"
    using a lower_rune by (auto simp: codes_def ascii_def list_all_iff)
  ultimately show ?thesis using a by (simp add: NormalizeCode_def ascii_runes)
qed

section \<open>Percent-encoding read back\<close>

lemma char_nibbles: "of_char c div 16 < (16 :: nat)" "of_char c mod 16 < (16 :: nat)"
  using less_mult_imp_div_less [of "of_char c" 16 16] nat_of_char_less_256 [of c] by simp_all

lemma hex_upper_val: "n < 16 \<Longrightarrow> hex_val (of_char (hex_upper n)) = Some n"
proof -
  have "list_all (\<lambda>n. hex_val (of_char (hex_upper n)) = Some n) [0..<16]" by code_simp
  then show "n < 16 \<Longrightarrow> hex_val (of_char (hex_upper n)) = Some n" by (simp add: list_all_iff)
qed

lemma unreserved_not: "unreserved c \<Longrightarrow> c \<noteq> CHR ''%'' \<and> c \<noteq> CHR ''&'' \<and> c \<noteq> CHR ''=''"
  by (auto simp: unreserved_def is_alpha_def is_digit_def)

lemma encode_Cons:
  "encodeURIComponent (c # s) = (if unreserved c then [c] else [CHR ''%'', hex_upper (of_char c div 16), hex_upper (of_char c mod 16)]) @ encodeURIComponent s"
  by (simp add: encodeURIComponent_def)

lemma PathUnescape_encode: "PathUnescape (encodeURIComponent s) = Some s"
proof (induction s)
  case (Cons c s)
  have "16 * (of_char c div 16) + of_char c mod 16 = (of_char c :: nat)" by simp
  then show ?case using Cons.IH unreserved_not [of c] hex_upper_val [OF char_nibbles(1) [of c]] hex_upper_val [OF char_nibbles(2) [of c]] by (simp add: encode_Cons)
qed (simp add: encodeURIComponent_def)

lemma encode_chars: "CHR ''&'' \<notin> set (encodeURIComponent s) \<and> CHR ''='' \<notin> set (encodeURIComponent s)"
proof (induction s)
  case (Cons c s)
  have "list_all (\<lambda>n. CHR ''&'' \<noteq> hex_upper n \<and> CHR ''='' \<noteq> hex_upper n) [0..<16]" by code_simp
  then have h: "CHR ''&'' \<noteq> hex_upper n \<and> CHR ''='' \<noteq> hex_upper n" if "n < 16" for n using that by (simp add: list_all_iff)
  show ?case
  proof (cases "unreserved c")
    case True
    then show ?thesis using Cons.IH unreserved_not [OF True] by (auto simp: encode_Cons)
  next
    case False
    then show ?thesis using Cons.IH h [OF char_nibbles(1) [of c]] h [OF char_nibbles(2) [of c]] by (simp add: encode_Cons)
  qed
qed (simp add: encodeURIComponent_def)

lemma Split_sep: "sep \<notin> set a \<Longrightarrow> Split sep (a @ sep # b) = a # Split sep b"
  by (induction a) auto

lemma Split_last: "sep \<notin> set a \<Longrightarrow> Split sep a = [a]"
  by (induction a) auto

section \<open>Links read back\<close>

lemma Cut_key: "CHR ''='' \<notin> set k \<Longrightarrow> Cut (k @ CHR ''='' # v) (CHR ''='') = Some (k, v)"
proof -
  assume k: "CHR ''='' \<notin> set k"
  have "takeWhile (\<lambda>c. c \<noteq> CHR ''='') (k @ CHR ''='' # v) = k" "dropWhile (\<lambda>c. c \<noteq> CHR ''='') (k @ CHR ''='' # v) = CHR ''='' # v"
    using k by (induction k) auto
  then show ?thesis by (simp add: Cut_def)
qed

lemma read_part:
  assumes "CHR ''='' \<notin> set k" "map_of params k = None" "ValidString v"
  shows "read_parts ((k @ CHR ''='' # encodeURIComponent v) # parts) params = read_parts parts (params @ [(k, v)])"
  using assms by (simp add: Cut_key PathUnescape_encode)

lemma encode_one: "encodeURIComponent ''1'' = ''1''"
  by (simp add: encodeURIComponent_def unreserved_def is_digit_def)

lemma plain_valid: "plain s \<Longrightarrow> ValidString s"
  by (auto simp: plain_def ascii_def list_all_iff intro!: ascii_valid)

lemma b64u_text: "fromB64uLen s n = Some b \<Longrightarrow> ValidString s"
proof -
  assume "fromB64uLen s n = Some b"
  then have "s = b64u b" using B64u_encode_decode strip_newlines_id by (force simp: fromB64uLen_def fromB64u_def split: if_splits option.splits)
  then show "ValidString s" using plain_valid plain_b64u by simp
qed

lemma ascii_node: "IsNodeID s \<Longrightarrow> ValidString s \<and> s \<noteq> []"
proof -
  assume "IsNodeID s"
  then obtain i where i: "length i = IDLen" "s = b32 i" by (auto simp: IsNodeID_iff ID_String_b32)
  then have "nodeIDToBytes s \<noteq> None" using \<open>IsNodeID s\<close> by (simp add: IsNodeID_def)
  then have "s \<noteq> []" by (auto simp: nodeIDToBytes_def)
  moreover have "ValidString s" using plain_valid [OF plain_ID [of i]] i(2) by simp
  ultimately show ?thesis by simp
qed

lemma relay_scheme: "IsRelayURL pr s \<Longrightarrow> \<exists>sch. url_Parse pr s = Some sch \<and> (sch = ''ws'' \<or> sch = ''wss'') \<and> s \<noteq> []"
proof -
  assume r: "IsRelayURL pr s"
  then obtain sch where u: "url_Parse pr s = Some sch" by (auto simp: IsRelayURL_def split: option.splits if_splits)
  have "take 5 s = ''ws://'' \<or> take 6 s = ''wss://''" using r by (auto simp: IsRelayURL_def CutPrefix_def eval_nat_numeral split: option.splits if_splits)
  then obtain t where t: "s = ''ws://'' @ t \<or> s = ''wss://'' @ t" by (metis append_take_drop_id)
  have "sch = ''ws'' \<or> sch = ''wss''" using u t by (auto simp: url_Parse_def is_alpha_def is_digit_def to_lower_def split: if_splits)
  then show ?thesis using u t by auto
qed

lemma params_read:
  assumes "IsNodeID n" "canonical_code c" "i = None \<or> (\<exists>j. i = Some j \<and> ValidString j)" "ValidString r"
  shows "read_parts (Split (CHR ''&'') (''v=1&n='' @ encodeURIComponent n @ ''&c='' @ encodeURIComponent c
      @ (case i of None \<Rightarrow> [] | Some j \<Rightarrow> ''&i='' @ encodeURIComponent j) @ ''&r='' @ encodeURIComponent r)) []
    = Some ([(''v'', ''1''), (''n'', n), (''c'', c)] @ (case i of None \<Rightarrow> [] | Some j \<Rightarrow> [(''i'', j)]) @ [(''r'', r)])"
proof -
  let ?p = "\<lambda>k v. k @ CHR ''='' # encodeURIComponent v"
  have na: "CHR ''&'' \<notin> set (?p k v)" if "CHR ''&'' \<notin> set k" for k v using that encode_chars [of v] by simp
  have v: "ValidString ''1''" "ValidString n" "ValidString c"
    using ascii_node [OF assms(1)] assms(2) crockford_ascii by (auto simp: canonical_code_def ascii_def intro!: ascii_valid)
  have t: "''v=1&n='' @ encodeURIComponent n @ ''&c='' @ encodeURIComponent c @ (case i of None \<Rightarrow> [] | Some j \<Rightarrow> ''&i='' @ encodeURIComponent j) @ ''&r='' @ encodeURIComponent r
      = ?p ''v'' ''1'' @ CHR ''&'' # ?p ''n'' n @ CHR ''&'' # ?p ''c'' c @ CHR ''&'' # (case i of None \<Rightarrow> ?p ''r'' r | Some j \<Rightarrow> ?p ''i'' j @ CHR ''&'' # ?p ''r'' r)"
    by (simp add: encode_one split: option.splits)
  have sp: "Split (CHR ''&'') (?p k v @ CHR ''&'' # b) = ?p k v # Split (CHR ''&'') b" if "CHR ''&'' \<notin> set k" for k v b by (rule Split_sep [OF na [OF that]])
  have sl: "Split (CHR ''&'') (?p k v) = [?p k v]" if "CHR ''&'' \<notin> set k" for k v by (rule Split_last [OF na [OF that]])
  show ?thesis
  proof (cases i)
    case None
    have "Split (CHR ''&'') (?p ''v'' ''1'' @ CHR ''&'' # ?p ''n'' n @ CHR ''&'' # ?p ''c'' c @ CHR ''&'' # ?p ''r'' r) = [?p ''v'' ''1'', ?p ''n'' n, ?p ''c'' c, ?p ''r'' r]"
      by (subst sp, simp)+ (subst sl, simp_all)
    note S = this
    have "read_parts [?p ''v'' ''1'', ?p ''n'' n, ?p ''c'' c, ?p ''r'' r] [] = Some [(''v'', ''1''), (''n'', n), (''c'', c), (''r'', r)]"
      by (subst read_part, simp, simp, simp add: v assms)+ simp
    then show ?thesis unfolding t unfolding None option.case S by simp
  next
    case (Some j)
    then have j: "ValidString j" using assms(3) by auto
    have "Split (CHR ''&'') (?p ''v'' ''1'' @ CHR ''&'' # ?p ''n'' n @ CHR ''&'' # ?p ''c'' c @ CHR ''&'' # ?p ''i'' j @ CHR ''&'' # ?p ''r'' r)
        = [?p ''v'' ''1'', ?p ''n'' n, ?p ''c'' c, ?p ''i'' j, ?p ''r'' r]"
      by (subst sp, simp)+ (subst sl, simp_all)
    note S = this
    have "read_parts [?p ''v'' ''1'', ?p ''n'' n, ?p ''c'' c, ?p ''i'' j, ?p ''r'' r] [] = Some [(''v'', ''1''), (''n'', n), (''c'', c), (''i'', j), (''r'', r)]"
      by (subst read_part, simp, simp, simp add: v j assms)+ simp
    then show ?thesis unfolding t unfolding Some option.case S by simp
  qed
qed

section \<open>Properties\<close>

text \<open>
  Codes have one canonical form. What \<open>NormalizeCode\<close> accepts it turns into eight Crockford
  characters, which it leaves as they are; the displayed form of the code reads back to the same; and for
  ASCII input the case of its letters makes no difference.
\<close>

theorem codes_canonical:
  assumes "NormalizeCode s = Some c"
  shows "length c = 8 \<and> set c \<subseteq> set crockford \<and> NormalizeCode c = Some c
    \<and> (\<exists>d. FormatCode s = Some d \<and> NormalizeCode d = Some c) \<and> (ascii s \<longrightarrow> NormalizeCode (map to_lower s) = Some c)"
proof -
  have c: "canonical_code c" by (rule NormalizeCode_Some [OF assms])
  then show ?thesis using assms NormalizeCode_canonical [OF c] NormalizeCode_hyphen [OF c] NormalizeCode_lower
    by (simp add: canonical_code_def codeLength_def FormatCode_def)
qed

definition demo_link :: PairingLink where
  "demo_link = \<lparr>lk_Network = b32 (replicate 16 0), lk_Code = ''K7F2M9QX'', lk_CodeID = [], lk_Relay = ''wss://a''\<rparr>"

lemma demo_code: "canonical_code ''K7F2M9QX''"
  by (simp add: canonical_code_def codeLength_def crockford_def)

theorem codes_canonical_witness: "\<exists>d. FormatCode ''K7F2M9QX'' = Some d \<and> NormalizeCode d = Some ''K7F2M9QX''"
  using codes_canonical [OF NormalizeCode_canonical [OF demo_code]] by blast

text \<open>
  C40. Pairing links read back. The parameters written for a network, a code, a code id and a relay that is a
  ws or wss URL are read back to the same, bare and in a \<open>frontier://pair?\<close> link, whatever bytes of
  valid UTF-8 the relay URL has; the code comes back in its canonical form, and no code id as the
  default code's.
\<close>

theorem pairing_link_roundtrip:
  assumes "pairingParams p = Some s" "IsRelayURL pr (lk_Relay p)" "ValidString (lk_Relay p)"
  shows "\<exists>c. NormalizeCode (lk_Code p) = Some c \<and> BuildPairingParams pr p = Some s \<and> BuildPairingLink p = Some (link_prefix @ s) \<and>
     (let p' = p\<lparr>lk_Code := c, lk_CodeID := (if lk_CodeID p = [] then DefaultCodeID else lk_CodeID p)\<rparr>
      in ParsePairingParams pr s = Some p' \<and> ParsePairingLink pr (link_prefix @ s) = Some p')"
proof -
  obtain c where c: "NormalizeCode (lk_Code p) = Some c" and n: "IsNodeID (lk_Network p)"
    using assms(1) by (auto simp: pairingParams_def Option.bind_eq_Some_conv split: if_splits)
  have cc: "canonical_code c" by (rule NormalizeCode_Some [OF c])
  let ?d = "lk_CodeID p = [] \<or> lk_CodeID p = DefaultCodeID"
  define i where "i = (if ?d then None else Some (lk_CodeID p))"
  have fl: "fromB64uLen (lk_CodeID p) codeIDLength \<noteq> None" if "\<not> ?d" using assms(1) that by (auto simp: pairingParams_def Option.bind_eq_Some_conv split: option.splits)
  have iv: "i = None \<or> (\<exists>j. i = Some j \<and> ValidString j)" 
  proof (cases ?d)
    case False
    then obtain b where "fromB64uLen (lk_CodeID p) codeIDLength = Some b" using fl by blast
    then show ?thesis using b64u_text False by (simp add: i_def)
  qed (simp add: i_def)
  have s: "s = ''v=1&n='' @ encodeURIComponent (lk_Network p) @ ''&c='' @ encodeURIComponent c
      @ (case i of None \<Rightarrow> [] | Some j \<Rightarrow> ''&i='' @ encodeURIComponent j) @ ''&r='' @ encodeURIComponent (lk_Relay p)"
    using assms(1) c n by (auto simp: pairingParams_def i_def guard_def split: if_splits option.splits)
  note P = params_read [OF n cc iv assms(3), folded s]
  obtain sch where u: "url_Parse pr (lk_Relay p) = Some sch" "sch = ''ws'' \<or> sch = ''wss''" "lk_Relay p \<noteq> []" using relay_scheme [OF assms(2)] by blast
  have sc: "map to_lower sch = ''ws'' \<or> map to_lower sch = ''wss''" using u(2) by (auto simp: to_lower_def)
  have dd: "fromB64uLen DefaultCodeID codeIDLength \<noteq> None" by code_simp
  have cn: "c \<noteq> []" using cc by (auto simp: canonical_code_def codeLength_def)
  have "readPairingParams pr s = Some (p\<lparr>lk_Code := c, lk_CodeID := (if lk_CodeID p = [] then DefaultCodeID else lk_CodeID p)\<rparr>)"
    using P u sc dd fl cn n ascii_node [OF n] NormalizeCode_canonical [OF cc]
    by (auto simp: readPairingParams_def param_def i_def guard_def)
  then show ?thesis
    using c assms(1,2) by (simp add: BuildPairingParams_def BuildPairingLink_def ParsePairingParams_def ParsePairingLink_def CutPrefix_def Let_def)
qed

theorem pairing_link_roundtrip_witness:
  "\<exists>s. pairingParams demo_link = Some s \<and> ParsePairingLink demo_pr (link_prefix @ s) = Some (demo_link\<lparr>lk_CodeID := DefaultCodeID\<rparr>)"
proof -
  have "IsNodeID (b32 (replicate 16 0))" using IsNodeID_iff ID_String_b32 by (metis length_replicate IDLen_def)
  then obtain s where s: "pairingParams demo_link = Some s"
    using NormalizeCode_canonical [OF demo_code] by (simp add: pairingParams_def demo_link_def guard_def)
  have "IsRelayURL demo_pr (lk_Relay demo_link)" "ValidString (lk_Relay demo_link)"
    by (auto simp: demo_link_def demo_pr_def IsRelayURL_def CutPrefix_def url_Parse_def is_alpha_def is_digit_def ascii_def intro!: ascii_valid)
  then show ?thesis
    using pairing_link_roundtrip [OF s] s NormalizeCode_canonical [OF demo_code] by (auto simp: demo_link_def Let_def)
qed

end
