(* ===== verification/Pairing_Primary.thy ===== *)
theory Pairing_Primary
  imports Pairing_Exchange Codes Peer_Limits Frames
begin

text \<open>
  The primary (\<open>client-go/primary.go\<close>): the codes it opens, the pairing channels on which newcomers
  prove them, the refusals of pairings it cannot serve, and the rosters it signs and publishes. An open
  code is an object its channels share, here an entry of a store indexed by address, which stays
  after the code closes; a channel is known by its key alone. Maps are lists of distinct keys, ranged over
  in any order (\<open>Pairing_Invariant\<close> lets it change between steps). What goes to the relay, the events for
  the application and the calls into the rest of the member are logs. Times are nanoseconds of the monotonic
  clock, \<open>pm_wall\<close> Unix milliseconds. The words of an error or of an event's reason are not modelled.
  Usage asks and the retries of roster pushes are not modelled.
\<close>

section \<open>State\<close>

definition CodeLifetime :: int where "CodeLifetime = 15 * 60 * Second"
definition CodeAttempts :: int where "CodeAttempts = 5"
definition resignSkewMs :: int where "resignSkewMs = 5 * 60 * 1000"
definition channelsPerCode :: nat where "channelsPerCode = 64"
definition closedCodes :: nat where "closedCodes = 1024"

definition FailWrongCode :: string where "FailWrongCode = ''wrong-code''"
definition FailMalformed :: string where "FailMalformed = ''malformed''"
definition FailUnknownCode :: string where "FailUnknownCode = ''unknown-code''"
definition FailUsed :: string where "FailUsed = ''used''"
definition FailNoAttempts :: string where "FailNoAttempts = ''no-attempts''"
definition FailNewcomerLeft :: string where "FailNewcomerLeft = ''newcomer-left''"
definition FailTimeout :: string where "FailTimeout = ''timeout''"
definition FailRelayLost :: string where "FailRelayLost = ''relay-lost''"
definition FailAlreadyMember :: string where "FailAlreadyMember = ''already-member''"
definition FailRosterFull :: string where "FailRosterFull = ''roster-full''"
definition FailDemoted :: string where "FailDemoted = ''demoted''"

lemmas fail_codes = FailWrongCode_def FailMalformed_def FailUnknownCode_def FailUsed_def FailNoAttempts_def FailNewcomerLeft_def FailTimeout_def
  FailRelayLost_def FailAlreadyMember_def FailRosterFull_def FailDemoted_def

record openCode =
  oc_code :: string
  oc_codeID :: string
  oc_expiresAt :: int
  oc_failed :: int
  oc_inFlight :: int
  oc_claimed :: bool
  oc_burned :: bool
  oc_setups :: bucket

datatype pairStage = stageP1 | stageP3 | stageP5 | stageDone

record 'k pairChannel =
  pc_channel :: bytes
  pc_entry :: nat
  pc_ex :: "'k primaryExchange"
  pc_stage :: pairStage
  pc_claimed :: bool

record issuedCode =
  ic_answered :: "(string \<times> int) list"
  ic_told :: "(string \<times> int) list"

datatype relay_out = PairEnd string | PairFrame bytes | RosterControl string

datatype pair_event = PairedEvent RosterMember string SignedRoster | PairingFailedEvent string string

datatype primary_call = AdoptRoster SignedRoster | SendRosterTo string

record 'k primary =
  pm_roster :: SignedRoster
  pm_mono :: int
  pm_wall :: int
  pm_ent :: "nat \<Rightarrow> openCode"
  pm_nent :: nat
  pm_codes :: "(string \<times> nat) list"
  pm_channels :: "(string \<times> 'k pairChannel) list"
  pm_refusals :: bucket
  pm_issued :: "(string \<times> issuedCode) list"
  pm_closed :: "string list"
  pm_out :: "relay_out list"
  pm_events :: "pair_event list"
  pm_calls :: "primary_call list"

text \<open>
  What the primary is given: the primitives, the decoder, its network key, its own id, the URL it dials, and
  the order in which \<open>answer\<close> walks the map it trims.
\<close>

record ('p, 'k) env =
  ev_suite :: "'p suite"
  ev_aead :: "'k aead"
  ev_dec :: "string \<Rightarrow> token list \<times> bool"
  ev_pr :: primitives
  ev_key :: NetworkKey
  ev_self :: string
  ev_url :: string
  ev_walk :: "(string \<times> int) list \<Rightarrow> string list"

definition upd_e :: "'k primary \<Rightarrow> nat \<Rightarrow> (openCode \<Rightarrow> openCode) \<Rightarrow> 'k primary" where
  "upd_e st e f = st\<lparr>pm_ent := (pm_ent st)(e := f (pm_ent st e))\<rparr>"

definition send_out :: "'k primary \<Rightarrow> relay_out \<Rightarrow> 'k primary" where
  "send_out st m = st\<lparr>pm_out := pm_out st @ [m]\<rparr>"

definition emit :: "'k primary \<Rightarrow> pair_event \<Rightarrow> 'k primary" where
  "emit st e = st\<lparr>pm_events := pm_events st @ [e]\<rparr>"

section \<open>Refusals\<close>

text \<open>The channels a code remembers its refusals on, trimmed: first those over a second old, then any.\<close>

fun evict_channels :: "string list \<Rightarrow> (string \<times> int) list \<Rightarrow> (string \<times> int) list" where
  "evict_channels [] m = m"
| "evict_channels (c # cs) m = (if length m < channelsPerCode then m else evict_channels cs (AList.delete c m))"

definition answer :: "((string \<times> int) list \<Rightarrow> string list) \<Rightarrow> issuedCode \<Rightarrow> string \<Rightarrow> int \<Rightarrow> bool \<times> issuedCode" where
  "answer walk ic channel now =
     (if (case map_of (ic_answered ic) channel of None \<Rightarrow> False | Some t \<Rightarrow> now - t < Second) then (False, ic)
      else let m = (if length (ic_answered ic) \<ge> channelsPerCode
                    then let m = filter (\<lambda>(c, t). \<not> now - t \<ge> Second) (ic_answered ic) in evict_channels (walk m) m
                    else ic_answered ic)
           in (True, ic\<lparr>ic_answered := AList.update channel now m\<rparr>))"

text \<open>An event at most once a second per code and reason: whether it is due, and the code's record after.\<close>

definition tell :: "issuedCode \<Rightarrow> string \<Rightarrow> int \<Rightarrow> bool \<times> issuedCode" where
  "tell ic code now =
     (if (case map_of (ic_told ic) code of None \<Rightarrow> False | Some t \<Rightarrow> now - t < Second) then (False, ic)
      else (True, ic\<lparr>ic_told := AList.update code now (ic_told ic)\<rparr>))"

definition refuse :: "((string \<times> int) list \<Rightarrow> string list) \<Rightarrow> 'k primary \<Rightarrow> string \<Rightarrow> string \<Rightarrow> string \<Rightarrow> 'k primary" where
  "refuse walk st key codeID code =
     (case map_of (pm_issued st) codeID of
        None \<Rightarrow>
          (case take_token (pm_refusals st) (pm_mono st) 32 64 of (ok, b) \<Rightarrow>
             let st = st\<lparr>pm_refusals := b\<rparr> in if ok then send_out st (PairEnd key) else st)
      | Some ic \<Rightarrow>
          (case answer walk ic key (pm_mono st) of (ans, ic) \<Rightarrow>
             let st = (if ans then send_out st (PairEnd key) else st)
             in case tell ic code (pm_mono st) of (due, ic) \<Rightarrow>
                  let st = st\<lparr>pm_issued := AList.update codeID ic (pm_issued st)\<rparr>
                  in if due then emit st (PairingFailedEvent codeID code) else st))"

section \<open>Closing codes and channels\<close>

fun trim_closed :: "(string \<times> nat) list \<Rightarrow> string list \<Rightarrow> (string \<times> issuedCode) list \<Rightarrow> string list \<times> (string \<times> issuedCode) list" where
  "trim_closed opened [] issued = ([], issued)"
| "trim_closed opened (old # rest) issued =
     (if length (old # rest) > closedCodes
      then trim_closed opened rest (if map_of opened old = None then AList.delete old issued else issued)
      else (old # rest, issued))"

definition closeCode :: "'k primary \<Rightarrow> string \<Rightarrow> 'k primary" where
  "closeCode st codeID =
     (if map_of (pm_codes st) codeID = None then st
      else let st = st\<lparr>pm_codes := AList.delete codeID (pm_codes st)\<rparr>
           in if codeID = DefaultCodeID then st
              else case trim_closed (pm_codes st) (pm_closed st @ [codeID]) (pm_issued st) of
                (cl, issued) \<Rightarrow> st\<lparr>pm_closed := cl, pm_issued := issued\<rparr>)"

definition closeEntry :: "'k primary \<Rightarrow> nat \<Rightarrow> 'k primary" where
  "closeEntry st e =
     (if map_of (pm_codes st) (oc_codeID (pm_ent st e)) = Some e then closeCode st (oc_codeID (pm_ent st e)) else st)"

text \<open>A channel leaves, and its code's counts with it.\<close>

definition drop_channel :: "'k primary \<Rightarrow> string \<Rightarrow> 'k pairChannel \<Rightarrow> 'k primary" where
  "drop_channel st key ch =
     upd_e (st\<lparr>pm_channels := AList.delete key (pm_channels st)\<rparr>) (pc_entry ch)
       (\<lambda>x. x\<lparr>oc_inFlight := oc_inFlight x - 1, oc_claimed := (if pc_claimed ch then False else oc_claimed x)\<rparr>)"

definition primary_endChannel :: "'k primary \<Rightarrow> string \<Rightarrow> string \<Rightarrow> bool \<Rightarrow> 'k primary" where
  "primary_endChannel st key code tellRelay =
     (case map_of (pm_channels st) key of
        None \<Rightarrow> st
      | Some ch \<Rightarrow>
          let st = drop_channel st key ch;
              st = (if tellRelay then send_out st (PairEnd key) else st);
              codeID = oc_codeID (pm_ent st (pc_entry ch))
          in case map_of (pm_issued st) codeID of
               None \<Rightarrow> emit st (PairingFailedEvent codeID code)
             | Some ic \<Rightarrow>
                 (case tell ic code (pm_mono st) of (due, ic) \<Rightarrow>
                    let st = st\<lparr>pm_issued := AList.update codeID ic (pm_issued st)\<rparr>
                    in if due then emit st (PairingFailedEvent codeID code) else st))"

definition failAttempt :: "'k primary \<Rightarrow> string \<Rightarrow> 'k pairChannel \<Rightarrow> string \<Rightarrow> 'k primary" where
  "failAttempt st key ch code =
     (let e = pc_entry ch;
          st = upd_e (drop_channel st key ch) e (\<lambda>x. x\<lparr>oc_failed := oc_failed x + 1\<rparr>);
          st = (if oc_failed (pm_ent st e) \<ge> CodeAttempts then closeEntry (upd_e st e (\<lambda>x. x\<lparr>oc_burned := True\<rparr>)) e else st)
      in emit (send_out st (PairEnd key)) (PairingFailedEvent (oc_codeID (pm_ent st e)) code))"

definition end_channels :: "(string \<times> 'k pairChannel) list \<Rightarrow> string \<Rightarrow> bool \<Rightarrow> 'k primary \<Rightarrow> 'k primary" where
  "end_channels chs code tellRelay st = fold (\<lambda>(key, ch) st. primary_endChannel st key code tellRelay) chs st"

definition withdraw :: "'k primary \<Rightarrow> nat \<Rightarrow> 'k primary" where
  "withdraw st e =
     closeEntry (end_channels (filter (\<lambda>(key, ch). pc_entry ch = e) (pm_channels st)) FailUnknownCode True (upd_e st e (\<lambda>x. x\<lparr>oc_burned := True\<rparr>))) e"

definition pruneCodes :: "'k primary \<Rightarrow> 'k primary" where
  "pruneCodes st =
     fold (\<lambda>(i, e) st. if oc_burned (pm_ent st e) \<or> oc_expiresAt (pm_ent st e) \<le> pm_mono st then closeCode st i else st) (pm_codes st) st"

definition stop :: "'k primary \<Rightarrow> 'k primary" where
  "stop st =
     (let st = end_channels (pm_channels st) FailDemoted True st
      in fold (\<lambda>(i, e) st. closeCode (upd_e st e (\<lambda>x. x\<lparr>oc_burned := True\<rparr>)) i) (pm_codes st) st)"

definition onConnectionLost :: "'k primary \<Rightarrow> 'k primary" where
  "onConnectionLost st = end_channels (pm_channels st) FailRelayLost False st"

section \<open>Rosters\<close>

definition next_unsigned :: "SignedRoster \<Rightarrow> int \<Rightarrow> RosterMember list \<Rightarrow> UnsignedRoster" where
  "next_unsigned prev now members =
     \<lparr>u_Network = u_Network prev, u_Version = u_Version prev + 1, u_IssuedAt = max now (u_IssuedAt prev), u_Relay = u_Relay prev,
      u_NetworkKey = u_NetworkKey prev, u_Primary = u_Primary prev, u_Members = sort_key rm_ID members\<rparr>"

definition nextUnsigned :: "'k primary \<Rightarrow> RosterMember list \<Rightarrow> UnsignedRoster" where
  "nextUnsigned st members = next_unsigned (pm_roster st) (pm_wall st) members"

definition sizeWith :: "'k primary \<Rightarrow> RosterMember list \<Rightarrow> nat option" where
  "sizeWith st members = Roster_Size (signed_roster (nextUnsigned st members) sig_room [])"

definition nextRoster :: "('p, 'k) env \<Rightarrow> 'k primary \<Rightarrow> RosterMember list \<Rightarrow> roster_error + SignedRoster" where
  "nextRoster ev st members =
     (case sizeWith st members of
        None \<Rightarrow> Inl ErrInvalid
      | Some sz \<Rightarrow>
          if sz > MaxRosterBytes then Inl (ErrRosterFull sz)
          else case SignRoster (ev_pr ev) (nextUnsigned st members) (ev_key ev) of None \<Rightarrow> Inl ErrInvalid | Some r \<Rightarrow> Inr r)"

definition withoutMember :: "RosterMember list \<Rightarrow> string \<Rightarrow> RosterMember list" where
  "withoutMember members i = filter (\<lambda>x. rm_ID x \<noteq> i) members"

definition pushHeld :: "'k primary \<Rightarrow> string \<Rightarrow> 'k primary" where
  "pushHeld st except =
     (let r = pm_roster st;
          st = (case MarshalJSON r of
                  None \<Rightarrow> st
                | Some rj \<Rightarrow> send_out st (RosterControl (''{'' @ (CHR 0x22 # ''type'' @ [CHR 0x22]) @ '':'' @ (CHR 0x22 # ''roster'' @ [CHR 0x22])
                                @ '','' @ (CHR 0x22 # ''roster'' @ [CHR 0x22]) @ '':'' @ rj @ ''}'')))
      in st\<lparr>pm_calls := pm_calls st @ map SendRosterTo (filter (\<lambda>i. i \<noteq> except) (map rm_ID (u_Members r)))\<rparr>)"

text \<open>
  \<open>publish\<close>. The log holds what is handed to the relay connection, which sends a control message only while it is
  connected (\<open>relay_sendControl\<close> in \<open>Member_Relay\<close>).
\<close>

definition publish :: "'k primary \<Rightarrow> SignedRoster \<Rightarrow> string \<Rightarrow> 'k primary" where
  "publish st r except = pushHeld (st\<lparr>pm_roster := r, pm_calls := pm_calls st @ [AdoptRoster r]\<rparr>) except"

definition Revoke :: "('p, 'k) env \<Rightarrow> 'k primary \<Rightarrow> string \<Rightarrow> (roster_error + SignedRoster) \<times> 'k primary" where
  "Revoke ev st nodeID =
     (if nodeID = ev_self ev then (Inl ErrInvalid, st)
      else if member_of (pm_roster st) nodeID = None then (Inl ErrInvalid, st)
      else case nextRoster ev st (withoutMember (u_Members (pm_roster st)) nodeID) of
        Inl e \<Rightarrow> (Inl e, st)
      | Inr r \<Rightarrow> (Inr r, publish st r []))"

definition onResign :: "('p, 'k) env \<Rightarrow> 'k primary \<Rightarrow> string \<Rightarrow> bytes \<Rightarrow> 'k primary" where
  "onResign ev st from body =
     (case parseResignation (ev_dec ev) (bytes_str body) of
        None \<Rightarrow> st
      | Some r \<Rightarrow>
          if rs_Node r \<noteq> from then st
          else if pm_wall st - rs_TS r > resignSkewMs \<or> pm_wall st - rs_TS r < - resignSkewMs then st
          else case member_of (pm_roster st) from of
            None \<Rightarrow> st
          | Some m \<Rightarrow>
              if from = u_Primary (pm_roster st) then st
              else case fromB64uLen (rm_Ed25519 m) 32 of
                None \<Rightarrow> st
              | Some pub \<Rightarrow>
                  if \<not> verifyResignation (ev_pr ev) r (u_Network (pm_roster st)) pub then st
                  else case nextRoster ev st (withoutMember (u_Members (pm_roster st)) from) of
                    Inl _ \<Rightarrow> st
                  | Inr nxt \<Rightarrow> publish st nxt [])"

section \<open>Codes opened and cancelled\<close>

record PairingCode =
  pg_Code :: string
  pg_CodeID :: string
  pg_Link :: string
  pg_ExpiresAt :: int

definition placeholderMember :: RosterMember where
  "placeholderMember = \<lparr>rm_ID = replicate 26 (CHR ''a''), rm_Ed25519 = replicate 43 (CHR ''A''), rm_X25519 = replicate 43 (CHR ''A''), rm_extra = []\<rparr>"

text \<open>A separate code's id, from the random draws; never the default code's. \<open>None\<close> where the source fails.\<close>

fun draw_code_id :: "bytes list \<Rightarrow> string option" where
  "draw_code_id [] = None"
| "draw_code_id (b # bs) = (if b64u b = DefaultCodeID then draw_code_id bs else Some (b64u b))"

text \<open>\<open>fresh\<close> is the random code, \<open>draws\<close> the draws for an id, \<open>lifetime\<close> in nanoseconds.\<close>

definition OpenPairingCode ::
  "('p, 'k) env \<Rightarrow> 'k primary \<Rightarrow> int \<Rightarrow> string \<Rightarrow> bool \<Rightarrow> bytes \<Rightarrow> bytes list \<Rightarrow> (roster_error + PairingCode) \<times> 'k primary" where
  "OpenPairingCode ev st lifetime chosen separate fresh draws =
     (case (if chosen = [] then Some [] else NormalizeCode chosen) of
        None \<Rightarrow> (Inl ErrInvalid, st)
      | Some chosen \<Rightarrow>
          (case sizeWith st (u_Members (pm_roster st) @ [placeholderMember]) of
             None \<Rightarrow> (Inl ErrInvalid, st)
           | Some sz \<Rightarrow>
               if sz > MaxRosterBytes then (Inl (ErrRosterFull sz), st)
               else
                 let st = pruneCodes st; code = (if chosen = [] then GenerateCode fresh else chosen)
                 in case (if separate then draw_code_id draws else Some DefaultCodeID) of
                      None \<Rightarrow> (Inl ErrInvalid, st)
                    | Some codeID \<Rightarrow>
                        let lifetime = (if lifetime \<le> 0 then CodeLifetime else lifetime);
                            relay = (if u_Relay (pm_roster st) = [] then ev_url ev else u_Relay (pm_roster st))
                        in case BuildPairingLink \<lparr>lk_Network = u_Network (pm_roster st), lk_Code = code, lk_CodeID = codeID, lk_Relay = relay\<rparr> of
                             None \<Rightarrow> (Inl ErrInvalid, st)
                           | Some link \<Rightarrow>
                               let st = (case map_of (pm_codes st) codeID of None \<Rightarrow> st | Some old \<Rightarrow> withdraw st old);
                                   e = pm_nent st;
                                   x = \<lparr>oc_code = code, oc_codeID = codeID, oc_expiresAt = pm_mono st + lifetime, oc_failed = 0, oc_inFlight = 0,
                                        oc_claimed = False, oc_burned = False, oc_setups = bucket_zero\<rparr>;
                                   st = st\<lparr>pm_ent := (pm_ent st)(e := x), pm_nent := Suc e, pm_codes := AList.update codeID e (pm_codes st)\<rparr>;
                                   st = (if map_of (pm_issued st) codeID = None
                                         then st\<lparr>pm_issued := AList.update codeID \<lparr>ic_answered = [], ic_told = []\<rparr> (pm_issued st)\<rparr> else st)
                               in (Inr \<lparr>pg_Code = (case FormatCode code of None \<Rightarrow> [] | Some d \<Rightarrow> d), pg_CodeID = codeID, pg_Link = link,
                                        pg_ExpiresAt = pm_wall st + lifetime div 1000000\<rparr>, st)))"

definition CancelPairingCode :: "'k primary \<Rightarrow> string \<Rightarrow> 'k primary" where
  "CancelPairingCode st codeID =
     (case map_of (pm_codes st) (if codeID = [] then DefaultCodeID else codeID) of None \<Rightarrow> st | Some e \<Rightarrow> withdraw st e)"

section \<open>Pairing\<close>

text \<open>A newcomer asks for the code \<open>codeID\<close> on the channel \<open>key\<close>; \<open>draws\<close> are the exchange's random draws.\<close>

definition onPairing :: "('p, 'k) env \<Rightarrow> 'k primary \<Rightarrow> string \<Rightarrow> string \<Rightarrow> bytes list \<Rightarrow> 'k primary" where
  "onPairing ev st key codeID draws =
     (if key = [] \<or> codeID = [] then st
      else case fromB64uLen key 16 of
        None \<Rightarrow> st
      | Some chBytes \<Rightarrow>
          if map_of (pm_channels st) key \<noteq> None then st
          else let ref = (\<lambda>st code. refuse (ev_walk ev) st key codeID code)
               in case map_of (pm_codes st) codeID of
                    None \<Rightarrow> ref st FailUnknownCode
                  | Some e \<Rightarrow>
                      if oc_burned (pm_ent st e) \<or> oc_expiresAt (pm_ent st e) \<le> pm_mono st then ref st FailUnknownCode
                      else if oc_claimed (pm_ent st e) then ref st FailUsed
                      else if oc_failed (pm_ent st e) + oc_inFlight (pm_ent st e) \<ge> CodeAttempts then ref st FailNoAttempts
                      else
                        (case take_token (oc_setups (pm_ent st e)) (pm_mono st) 4 8 of (ok, b) \<Rightarrow>
                           let st = upd_e st e (\<lambda>x. x\<lparr>oc_setups := b\<rparr>)
                           in if \<not> ok then ref st FailNoAttempts
                              else case fromB64uLen (oc_codeID (pm_ent st e)) codeIDLength of
                                None \<Rightarrow> st
                              | Some idBytes \<Rightarrow>
                                  (case newPrimaryExchange (ev_suite ev) (oc_code (pm_ent st e)) idBytes None draws of
                                     None \<Rightarrow> ref st FailMalformed
                                   | Some ex \<Rightarrow>
                                       (upd_e st e (\<lambda>x. x\<lparr>oc_inFlight := oc_inFlight x + 1\<rparr>))
                                         \<lparr>pm_channels := pm_channels st @ [(key, \<lparr>pc_channel = chBytes, pc_entry = e, pc_ex = ex, pc_stage = stageP1, pc_claimed = False\<rparr>)]\<rparr>)))"

definition primary_sendPair :: "'k primary \<Rightarrow> 'k pairChannel \<Rightarrow> bytes \<Rightarrow> 'k primary" where
  "primary_sendPair st ch body = (case encodeFrame framePair (pc_channel ch) body of None \<Rightarrow> st | Some f \<Rightarrow> send_out st (PairFrame f))"

text \<open>\<open>completePairing\<close>: \<open>None\<close> is its error, on which the caller fails the attempt.\<close>

definition completePairing :: "('p, 'k) env \<Rightarrow> 'k primary \<Rightarrow> string \<Rightarrow> 'k pairChannel \<Rightarrow> bytes \<Rightarrow> 'k primary option" where
  "completePairing ev st key ch body =
     (case onP5 (ev_aead ev) (ev_dec ev) (pc_ex ch) body of
        (None, _) \<Rightarrow> None
      | (Some keys, ex) \<Rightarrow>
          if \<not> canonicalEd25519 (nk_ed25519 keys) \<or> smallOrderEd25519 (nk_ed25519 keys) then None
          else
            let i = NodeIDFromEd25519 (pr_sha (ev_pr ev)) (nk_ed25519 keys)
            in if member_of (pm_roster st) i \<noteq> None then Some (primary_endChannel st key FailAlreadyMember True)
               else
                 let member = \<lparr>rm_ID = i, rm_Ed25519 = b64u (nk_ed25519 keys), rm_X25519 = b64u (nk_x25519 keys), rm_extra = []\<rparr>
                 in case nextRoster ev st (u_Members (pm_roster st) @ [member]) of
                      Inl (ErrRosterFull n) \<Rightarrow> Some (primary_endChannel st key FailRosterFull True)
                    | Inl ErrInvalid \<Rightarrow> None
                    | Inr nxt \<Rightarrow>
                        (case p6 (ev_aead ev) ex nxt of
                           (None, _) \<Rightarrow> None
                         | (Some m6, _) \<Rightarrow>
                             let e = pc_entry ch;
                                 st = upd_e (st\<lparr>pm_channels := AList.delete key (pm_channels st)\<rparr>) e
                                        (\<lambda>x. x\<lparr>oc_inFlight := oc_inFlight x - 1, oc_burned := True\<rparr>);
                                 st = publish (primary_sendPair (closeEntry st e) ch m6) nxt i
                             in Some (emit (send_out st (PairEnd key)) (PairedEvent member (oc_codeID (pm_ent st e)) nxt))))"

definition set_channel :: "'k primary \<Rightarrow> string \<Rightarrow> 'k pairChannel \<Rightarrow> 'k primary" where
  "set_channel st key ch = st\<lparr>pm_channels := AList.update key ch (pm_channels st)\<rparr>"

definition onPairFrame :: "('p, 'k) env \<Rightarrow> 'k primary \<Rightarrow> bytes \<Rightarrow> bytes \<Rightarrow> 'k primary" where
  "onPairFrame ev st channel body =
     (let key = b64u channel in
      case map_of (pm_channels st) key of
        None \<Rightarrow> st
      | Some ch \<Rightarrow>
          (case pc_stage ch of
             stageP1 \<Rightarrow>
               (case onP1 (ev_suite ev) (pc_ex ch) body of
                  (Some pB, ex) \<Rightarrow> set_channel (primary_sendPair st ch pB) key (ch\<lparr>pc_ex := ex, pc_stage := stageP3\<rparr>)
                | (None, ex) \<Rightarrow> failAttempt st key ch FailMalformed)
           | stageP3 \<Rightarrow>
               (case onP3 (ev_suite ev) (ev_aead ev) (pc_ex ch) body of
                  (None, ex) \<Rightarrow> failAttempt st key ch FailMalformed
                | (Some False, ex) \<Rightarrow> failAttempt st key ch FailWrongCode
                | (Some True, ex) \<Rightarrow>
                    if oc_claimed (pm_ent st (pc_entry ch)) \<or> oc_burned (pm_ent st (pc_entry ch)) then primary_endChannel st key FailUsed True
                    else
                      let st = upd_e st (pc_entry ch) (\<lambda>x. x\<lparr>oc_claimed := True\<rparr>); ch = ch\<lparr>pc_ex := ex, pc_claimed := True\<rparr>
                      in case p4 ex of
                           Some m4 \<Rightarrow> set_channel (primary_sendPair st ch m4) key (ch\<lparr>pc_stage := stageP5\<rparr>)
                         | None \<Rightarrow> failAttempt (set_channel st key ch) key ch FailMalformed)
           | stageP5 \<Rightarrow>
               (case completePairing ev st key ch body of
                  Some st' \<Rightarrow> st'
                | None \<Rightarrow> failAttempt st key ch FailMalformed)
           | stageDone \<Rightarrow> st))"

text \<open>The channel's timer, and the relay's word that the newcomer left.\<close>

definition pair_timeout :: "'k primary \<Rightarrow> string \<Rightarrow> 'k primary" where
  "pair_timeout st key = primary_endChannel st key FailTimeout True"

definition onPairEnd :: "'k primary \<Rightarrow> string \<Rightarrow> 'k primary" where
  "onPairEnd st key = (if key = [] then st else primary_endChannel st key FailNewcomerLeft False)"

end
