(* ===== verification/Pairing_Invariant.thy ===== *)
theory Pairing_Invariant
  imports Pairing_Primary
begin

text \<open>
  The invariant of the primary's codes and channels and that every operation of \<open>Pairing_Primary\<close> keeps
  it: the tables agree, a code's counts are its channels, at most one channel holds a claim on a code, and
  the events say no more than the codes allow.
\<close>

section \<open>Lists as maps\<close>

lemma length_filter_delete:
  assumes "distinct (map fst xs)" "map_of xs k = Some v"
  shows "length (filter P xs) = length (filter P (AList.delete k xs)) + (if P (k, v) then 1 else 0)"
  using assms
proof (induction xs)
  case (Cons x xs)
  show ?case
  proof (cases "fst x = k")
    case True
    then have "AList.delete k xs = xs" using Cons.prems(1) by (auto intro!: AList.delete_id simp: image_iff)
    moreover have "x = (k, v)" using True Cons.prems(2) by (cases x) auto
    ultimately show ?thesis by simp
  next
    case False
    then show ?thesis using Cons by (cases x) auto
  qed
qed simp

lemma length_filter_update:
  assumes "map_of xs k = Some v"
  shows "length (filter P (AList.update k v' xs)) + (if P (k, v) then 1 else 0) = length (filter P xs) + (if P (k, v') then 1 else 0)"
  using assms by (induction xs) auto

lemma distinct_update [simp]: "distinct (map fst (AList.update k v xs)) \<longleftrightarrow> distinct (map fst xs)"
  by (induction xs) (auto simp: AList.update_keys image_iff)

section \<open>The invariant\<close>

definition chans :: "'k primary \<Rightarrow> nat \<Rightarrow> nat" where
  "chans st e = length (filter (\<lambda>p. pc_entry (snd p) = e) (pm_channels st))"

definition claims :: "'k primary \<Rightarrow> nat \<Rightarrow> nat" where
  "claims st e = length (filter (\<lambda>p. pc_entry (snd p) = e \<and> pc_claimed (snd p)) (pm_channels st))"

text \<open>A code that admitted its node: claimed, and no channel holds the claim any more.\<close>

definition admitted :: "'k primary \<Rightarrow> nat \<Rightarrow> bool" where
  "admitted st e \<longleftrightarrow> oc_claimed (pm_ent st e) \<and> claims st e = 0"

definition entry_ok :: "'k primary \<Rightarrow> nat \<Rightarrow> bool" where
  "entry_ok st e \<longleftrightarrow>
     oc_inFlight (pm_ent st e) = int (chans st e) \<and> 0 \<le> oc_failed (pm_ent st e) \<and> oc_failed (pm_ent st e) + oc_inFlight (pm_ent st e) \<le> CodeAttempts
     \<and> claims st e \<le> (if oc_claimed (pm_ent st e) then 1 else 0) \<and> (oc_claimed (pm_ent st e) \<and> \<not> oc_burned (pm_ent st e) \<longrightarrow> claims st e = 1)"

definition burned_ok :: "'k primary \<Rightarrow> nat \<Rightarrow> bool" where
  "burned_ok st e \<longleftrightarrow> (oc_burned (pm_ent st e) \<longrightarrow> claims st e = 0)"

definition tables_ok :: "'k primary \<Rightarrow> bool" where
  "tables_ok st \<longleftrightarrow> distinct (map fst (pm_codes st)) \<and> distinct (map fst (pm_channels st))
     \<and> (\<forall>i e. (i, e) \<in> set (pm_codes st) \<longrightarrow> e < pm_nent st \<and> oc_codeID (pm_ent st e) = i \<and> map_of (pm_issued st) i \<noteq> None)
     \<and> (\<forall>p\<in>set (pm_channels st). pc_entry (snd p) < pm_nent st \<and> (pc_stage (snd p) = stageP5 \<longrightarrow> pc_claimed (snd p)))"

definition bounds_ok :: "'k primary \<Rightarrow> bool" where
  "bounds_ok st \<longleftrightarrow> length (pm_closed st) \<le> closedCodes
     \<and> (\<forall>i ic. map_of (pm_issued st) i = Some ic \<longrightarrow> distinct (map fst (ic_answered ic)) \<and> length (ic_answered ic) \<le> channelsPerCode)"

definition paired_with :: "'k primary \<Rightarrow> string \<Rightarrow> nat" where
  "paired_with st c = length (filter (\<lambda>v. case v of PairedEvent m i r \<Rightarrow> i = c | _ \<Rightarrow> False) (pm_events st))"

definition wrong_codes :: "'k primary \<Rightarrow> string \<Rightarrow> nat" where
  "wrong_codes st c = length (filter (\<lambda>v. v = PairingFailedEvent c FailWrongCode) (pm_events st))"

definition opened :: "'k primary \<Rightarrow> string \<Rightarrow> nat set" where
  "opened st c = {e. e < pm_nent st \<and> oc_codeID (pm_ent st e) = c}"

definition events_ok :: "'k primary \<Rightarrow> bool" where
  "events_ok st \<longleftrightarrow> (\<forall>c. paired_with st c \<le> card {e \<in> opened st c. admitted st e} \<and> int (wrong_codes st c) \<le> (\<Sum>e\<in>opened st c. oc_failed (pm_ent st e)))"

definition pshape :: "'k primary \<Rightarrow> bool" where
  "pshape st \<longleftrightarrow> tables_ok st \<and> (\<forall>e < pm_nent st. entry_ok st e) \<and> bounds_ok st"

definition pinv :: "'k primary \<Rightarrow> bool" where
  "pinv st \<longleftrightarrow> pshape st \<and> (\<forall>e < pm_nent st. burned_ok st e) \<and> events_ok st"

lemma shapeD:
  assumes "pshape st"
  shows "tables_ok st" "e < pm_nent st \<Longrightarrow> entry_ok st e" "bounds_ok st"
  using assms by (auto simp: pshape_def)

lemma pinvD:
  assumes "pinv st"
  shows "pshape st" "e < pm_nent st \<Longrightarrow> burned_ok st e" "events_ok st"
  using assms by (auto simp: pinv_def)

lemma opened_finite [simp]: "finite (opened st c)"
  by (simp add: opened_def)

lemma tablesD:
  assumes "tables_ok st"
  shows "distinct (map fst (pm_codes st))" "distinct (map fst (pm_channels st))"
    "map_of (pm_codes st) i = Some e \<Longrightarrow> e < pm_nent st \<and> oc_codeID (pm_ent st e) = i \<and> map_of (pm_issued st) i \<noteq> None"
    "map_of (pm_channels st) key = Some ch \<Longrightarrow> pc_entry ch < pm_nent st \<and> (pc_stage ch = stageP5 \<longrightarrow> pc_claimed ch)"
  using assms by (force simp: tables_ok_def dest!: map_of_SomeD)+

section \<open>Steps that add no admission\<close>

text \<open>
  What a step that admits nobody and rejects no proof may do: codes stay, their failures do not decrease,
  an admission is not undone, and the events it adds are of other kinds.
\<close>

definition quiet_event :: "pair_event \<Rightarrow> bool" where
  "quiet_event v \<longleftrightarrow> (\<exists>c f. v = PairingFailedEvent c f \<and> f \<noteq> FailWrongCode)"

definition grows :: "'k primary \<Rightarrow> 'k primary \<Rightarrow> bool" where
  "grows st st' \<longleftrightarrow> pm_nent st \<le> pm_nent st' \<and> (\<exists>vs. pm_events st' = pm_events st @ vs \<and> list_all quiet_event vs)
     \<and> (\<forall>e < pm_nent st. oc_codeID (pm_ent st' e) = oc_codeID (pm_ent st e) \<and> oc_failed (pm_ent st e) \<le> oc_failed (pm_ent st' e)
         \<and> (admitted st e \<longrightarrow> admitted st' e))"

lemma grows_refl [simp]: "grows st st"
  by (simp add: grows_def)

lemma grows_trans:
  assumes "grows a b" "grows b c"
  shows "grows a c"
proof -
  obtain vs ws where "pm_events b = pm_events a @ vs" "list_all quiet_event vs" "pm_events c = pm_events b @ ws" "list_all quiet_event ws"
    using assms unfolding grows_def by blast
  then have "\<exists>vs. pm_events c = pm_events a @ vs \<and> list_all quiet_event vs" by (intro exI [of _ "vs @ ws"]) simp
  moreover have "oc_codeID (pm_ent c e) = oc_codeID (pm_ent a e) \<and> oc_failed (pm_ent a e) \<le> oc_failed (pm_ent c e) \<and> (admitted a e \<longrightarrow> admitted c e)"
    if "e < pm_nent a" for e
  proof -
    have "e < pm_nent b" using that assms(1) by (simp add: grows_def)
    then show ?thesis using that assms unfolding grows_def by (metis order_trans)
  qed
  ultimately show ?thesis using assms unfolding grows_def by simp
qed

lemma quiet_counts:
  assumes "list_all quiet_event vs"
  shows "filter (\<lambda>v. case v of PairedEvent m i r \<Rightarrow> i = c | _ \<Rightarrow> False) vs = []" "filter (\<lambda>v. v = PairingFailedEvent c FailWrongCode) vs = []"
  using assms by (induction vs) (auto simp: quiet_event_def)

lemma grows_events:
  assumes ok: "events_ok st" and g: "grows st st'" and nn: "\<And>e. e < pm_nent st' \<Longrightarrow> 0 \<le> oc_failed (pm_ent st' e)"
  shows "events_ok st'"
  unfolding events_ok_def
proof (intro allI conjI)
  fix c
  obtain vs where vs: "pm_events st' = pm_events st @ vs" "list_all quiet_event vs" using g unfolding grows_def by blast
  have e: "e < pm_nent st \<Longrightarrow> oc_codeID (pm_ent st' e) = oc_codeID (pm_ent st e) \<and> oc_failed (pm_ent st e) \<le> oc_failed (pm_ent st' e) \<and> (admitted st e \<longrightarrow> admitted st' e)"
    for e using g by (simp add: grows_def)
  have n: "pm_nent st \<le> pm_nent st'" using g by (simp add: grows_def)
  have sub: "opened st c \<subseteq> opened st' c" using e n by (auto simp: opened_def)
  have "paired_with st' c = paired_with st c" using vs quiet_counts(1) [OF vs(2)] by (simp add: paired_with_def)
  also have "\<dots> \<le> card {e \<in> opened st c. admitted st e}" using ok by (simp add: events_ok_def)
  also have "\<dots> \<le> card {e \<in> opened st' c. admitted st' e}" using sub e by (intro card_mono) (auto simp: opened_def)
  finally show "paired_with st' c \<le> card {e \<in> opened st' c. admitted st' e}" .
  have "wrong_codes st' c = wrong_codes st c" using vs quiet_counts(2) [OF vs(2)] by (simp add: wrong_codes_def)
  then have "int (wrong_codes st' c) \<le> (\<Sum>e\<in>opened st c. oc_failed (pm_ent st e))" using ok by (simp add: events_ok_def)
  also have "\<dots> \<le> (\<Sum>e\<in>opened st c. oc_failed (pm_ent st' e))" using e by (intro sum_mono) (simp add: opened_def)
  also have "\<dots> \<le> (\<Sum>e\<in>opened st' c. oc_failed (pm_ent st' e))" using sub nn by (intro sum_mono2) (auto simp: opened_def)
  finally show "int (wrong_codes st' c) \<le> (\<Sum>e\<in>opened st' c. oc_failed (pm_ent st' e))" .
qed

text \<open>
  A safe step: one that grows, keeps the shape, adds no claim and withdraws a code only once nothing
  holds a claim on it. Safe steps compose and keep the invariant.
\<close>

definition safe :: "'k primary \<Rightarrow> 'k primary \<Rightarrow> bool" where
  "safe st st' \<longleftrightarrow> pshape st' \<and> grows st st' \<and> (\<forall>e. claims st' e \<le> claims st e)
     \<and> (\<forall>e < pm_nent st'. oc_burned (pm_ent st' e) \<longrightarrow> e < pm_nent st \<and> oc_burned (pm_ent st e) \<or> claims st' e = 0)"

lemma safe_refl: "pshape st \<Longrightarrow> safe st st"
  by (simp add: safe_def)

lemma safe_shape: "safe st st' \<Longrightarrow> pshape st'"
  by (simp add: safe_def)

lemma safe_trans:
  assumes "safe a b" "safe b c"
  shows "safe a c"
proof -
  have le: "claims c e \<le> claims b e" "claims b e \<le> claims a e" for e using assms by (simp_all add: safe_def)
  have "e < pm_nent a \<and> oc_burned (pm_ent a e) \<or> claims c e = 0" if "e < pm_nent c" "oc_burned (pm_ent c e)" for e
  proof -
    have "e < pm_nent b \<and> oc_burned (pm_ent b e) \<or> claims c e = 0" using that assms(2) by (simp add: safe_def)
    moreover have "e < pm_nent b \<and> oc_burned (pm_ent b e) \<Longrightarrow> e < pm_nent a \<and> oc_burned (pm_ent a e) \<or> claims b e = 0" using assms(1) by (simp add: safe_def)
    ultimately show ?thesis using le(1) [of e] by fastforce
  qed
  then show ?thesis using assms le unfolding safe_def by (meson grows_trans order_trans)
qed

lemma safe_pinv:
  assumes "pinv st" "safe st st'"
  shows "pinv st'"
proof -
  have sh: "pshape st'" and g: "grows st st'" using assms(2) by (simp_all add: safe_def)
  have "0 \<le> oc_failed (pm_ent st' e)" if "e < pm_nent st'" for e using shapeD(2) [OF sh that] by (simp add: entry_ok_def)
  then have "events_ok st'" by (rule grows_events [OF pinvD(3) [OF assms(1)] g])
  moreover have "burned_ok st' e" if "e < pm_nent st'" for e
  proof (cases "oc_burned (pm_ent st' e)")
    case True
    then have "e < pm_nent st \<and> oc_burned (pm_ent st e) \<or> claims st' e = 0" using assms(2) that by (simp add: safe_def)
    moreover have "claims st' e \<le> claims st e" using assms(2) by (simp add: safe_def)
    ultimately show ?thesis using pinvD(2) [OF assms(1)] by (auto simp: burned_ok_def)
  qed (simp add: burned_ok_def)
  ultimately show ?thesis using sh by (simp add: pinv_def)
qed

section \<open>The operations, field by field\<close>

lemma send_out_fields [simp]:
  "pm_ent (send_out st m) = pm_ent st" "pm_nent (send_out st m) = pm_nent st" "pm_codes (send_out st m) = pm_codes st"
  "pm_channels (send_out st m) = pm_channels st" "pm_issued (send_out st m) = pm_issued st" "pm_closed (send_out st m) = pm_closed st"
  "pm_events (send_out st m) = pm_events st" "pm_mono (send_out st m) = pm_mono st"
  by (simp_all add: send_out_def)

lemma emit_fields [simp]:
  "pm_ent (emit st v) = pm_ent st" "pm_nent (emit st v) = pm_nent st" "pm_codes (emit st v) = pm_codes st"
  "pm_channels (emit st v) = pm_channels st" "pm_issued (emit st v) = pm_issued st" "pm_closed (emit st v) = pm_closed st"
  "pm_events (emit st v) = pm_events st @ [v]" "pm_mono (emit st v) = pm_mono st"
  by (simp_all add: emit_def)

lemma upd_e_fields [simp]:
  "pm_ent (upd_e st e f) = (pm_ent st)(e := f (pm_ent st e))" "pm_nent (upd_e st e f) = pm_nent st" "pm_codes (upd_e st e f) = pm_codes st"
  "pm_channels (upd_e st e f) = pm_channels st" "pm_issued (upd_e st e f) = pm_issued st" "pm_closed (upd_e st e f) = pm_closed st"
  "pm_events (upd_e st e f) = pm_events st" "pm_mono (upd_e st e f) = pm_mono st"
  by (simp_all add: upd_e_def)

lemma sendPair_fields [simp]:
  "pm_ent (primary_sendPair st ch m) = pm_ent st" "pm_nent (primary_sendPair st ch m) = pm_nent st" "pm_codes (primary_sendPair st ch m) = pm_codes st"
  "pm_channels (primary_sendPair st ch m) = pm_channels st" "pm_issued (primary_sendPair st ch m) = pm_issued st" "pm_closed (primary_sendPair st ch m) = pm_closed st"
  "pm_events (primary_sendPair st ch m) = pm_events st"
  by (simp_all add: primary_sendPair_def split: option.split)

lemma publish_fields [simp]:
  "pm_ent (publish st r i) = pm_ent st" "pm_nent (publish st r i) = pm_nent st" "pm_codes (publish st r i) = pm_codes st"
  "pm_channels (publish st r i) = pm_channels st" "pm_issued (publish st r i) = pm_issued st" "pm_closed (publish st r i) = pm_closed st"
  "pm_events (publish st r i) = pm_events st"
  by (simp_all add: publish_def pushHeld_def Let_def split: option.split)

text \<open>The counts depend on the channels alone, the rest on the fields of the pairing state.\<close>

lemma claims_cong: "pm_channels st' = pm_channels st \<Longrightarrow> claims st' e = claims st e"
  by (simp add: claims_def)

lemma chans_cong: "pm_channels st' = pm_channels st \<Longrightarrow> chans st' e = chans st e"
  by (simp add: chans_def)

lemmas shape_defs = pshape_def tables_ok_def bounds_ok_def entry_ok_def

lemma shape_cong:
  assumes "pm_ent st' = pm_ent st" "pm_nent st' = pm_nent st" "pm_codes st' = pm_codes st" "pm_channels st' = pm_channels st"
    "pm_issued st' = pm_issued st" "pm_closed st' = pm_closed st"
  shows "pshape st' = pshape st"
  unfolding shape_defs claims_cong [OF assms(4)] chans_cong [OF assms(4)] assms by (rule refl)

lemma tables_upd [simp]: "tables_ok st \<Longrightarrow> oc_codeID (f (pm_ent st e)) = oc_codeID (pm_ent st e) \<Longrightarrow> tables_ok (upd_e st e f)"
  by (simp add: tables_ok_def)

lemma bounds_upd [simp]: "bounds_ok (upd_e st e f) = bounds_ok st"
  by (simp add: bounds_ok_def)

lemma same_safe:
  assumes "pshape st" "pm_ent st' = pm_ent st" "pm_nent st' = pm_nent st" "pm_codes st' = pm_codes st" "pm_channels st' = pm_channels st"
    "pm_issued st' = pm_issued st" "pm_closed st' = pm_closed st" "pm_events st' = pm_events st @ vs" "list_all quiet_event vs"
  shows "safe st st'"
proof -
  have c: "claims st' e = claims st e" "chans st' e = chans st e" for e using assms(5) by (auto intro: claims_cong chans_cong)
  have "grows st st'" using assms c by (simp add: grows_def admitted_def)
  moreover have "pshape st' = pshape st" by (rule shape_cong [OF assms(2-7)])
  ultimately show ?thesis using assms(1) by (simp add: safe_def c assms(2,3))
qed

lemma claims_le_chans: "claims st e \<le> chans st e"
  unfolding claims_def chans_def by (induction "pm_channels st") (auto simp: length_filter_conv_card intro: card_mono)

text \<open>A change to a code that touches neither its counts nor its claim, and burns it only when it is free of claims.\<close>

lemma upd_safe:
  assumes "pshape st" "e < pm_nent st" "oc_codeID (f (pm_ent st e)) = oc_codeID (pm_ent st e)" "oc_failed (f (pm_ent st e)) = oc_failed (pm_ent st e)"
    "oc_inFlight (f (pm_ent st e)) = oc_inFlight (pm_ent st e)" "oc_claimed (f (pm_ent st e)) = oc_claimed (pm_ent st e)"
    "oc_burned (pm_ent st e) \<Longrightarrow> oc_burned (f (pm_ent st e))" "oc_burned (f (pm_ent st e)) \<Longrightarrow> oc_burned (pm_ent st e) \<or> claims st e = 0"
  shows "safe st (upd_e st e f)"
proof -
  have c: "claims (upd_e st e f) x = claims st x" "chans (upd_e st e f) x = chans st x" for x by (auto intro: claims_cong chans_cong)
  have "grows st (upd_e st e f)" using assms by (simp add: grows_def admitted_def c)
  moreover have "entry_ok (upd_e st e f) x" if "x < pm_nent st" for x
    using shapeD(2) [OF assms(1) that] assms(3-7) by (cases "x = e") (auto simp: entry_ok_def c)
  ultimately show ?thesis using shapeD(1,3) [OF assms(1)] assms(2,3,8) by (auto simp: safe_def pshape_def c)
qed

section \<open>Channels that end\<close>

lemma counts_delete:
  assumes "tables_ok st" "map_of (pm_channels st) key = Some ch" "pm_channels st' = AList.delete key (pm_channels st)"
  shows "chans st e = chans st' e + (if pc_entry ch = e then 1 else 0)"
    "claims st e = claims st' e + (if pc_entry ch = e \<and> pc_claimed ch then 1 else 0)"
  using length_filter_delete [OF tablesD(2) [OF assms(1)] assms(2)] by (simp_all add: chans_def claims_def assms(3))

lemma tables_delete:
  assumes "tables_ok st" "pm_channels st' = AList.delete key (pm_channels st)" "pm_codes st' = pm_codes st" "pm_nent st' = pm_nent st" "pm_issued st' = pm_issued st"
    "\<And>e. oc_codeID (pm_ent st' e) = oc_codeID (pm_ent st e)"
  shows "tables_ok st'"
  using assms(1) AList.distinct_delete [of "pm_channels st" key] unfolding tables_ok_def assms(2-6) by (simp add: AList.delete_eq)

lemma drop_fields [simp]:
  "pm_channels (drop_channel st key ch) = AList.delete key (pm_channels st)" "pm_codes (drop_channel st key ch) = pm_codes st"
  "pm_nent (drop_channel st key ch) = pm_nent st" "pm_issued (drop_channel st key ch) = pm_issued st" "pm_closed (drop_channel st key ch) = pm_closed st"
  "pm_events (drop_channel st key ch) = pm_events st" "pm_mono (drop_channel st key ch) = pm_mono st"
  "pm_ent (drop_channel st key ch) = (pm_ent st)(pc_entry ch := (pm_ent st (pc_entry ch))
     \<lparr>oc_inFlight := oc_inFlight (pm_ent st (pc_entry ch)) - 1, oc_claimed := (if pc_claimed ch then False else oc_claimed (pm_ent st (pc_entry ch)))\<rparr>)"
  by (simp_all add: drop_channel_def upd_e_def)

lemma drop_entry:
  assumes "pshape st" "map_of (pm_channels st) key = Some ch" "e < pm_nent st"
  shows "entry_ok (drop_channel st key ch) e"
proof -
  have ok: "entry_ok st e" by (rule shapeD(2) [OF assms(1,3)])
  have n: "chans st e = chans (drop_channel st key ch) e + (if pc_entry ch = e then 1 else 0)"
    "claims st e = claims (drop_channel st key ch) e + (if pc_entry ch = e \<and> pc_claimed ch then 1 else 0)"
    using counts_delete [OF shapeD(1) [OF assms(1)] assms(2)] by simp_all
  show ?thesis using ok n by (cases "pc_entry ch = e"; cases "pc_claimed ch"; cases "oc_claimed (pm_ent st e)") (simp_all add: entry_ok_def)
qed

lemma drop_admitted:
  assumes "pshape st" "map_of (pm_channels st) key = Some ch" "admitted st e"
  shows "admitted (drop_channel st key ch) e" "pc_entry ch = e \<Longrightarrow> \<not> pc_claimed ch"
  using assms(3) counts_delete [OF shapeD(1) [OF assms(1)] assms(2), of "drop_channel st key ch" e] by (auto simp: admitted_def)

lemma drop_safe:
  assumes "pshape st" "map_of (pm_channels st) key = Some ch"
  shows "safe st (drop_channel st key ch)"
proof -
  have "tables_ok (drop_channel st key ch)" by (rule tables_delete [OF shapeD(1) [OF assms(1)]]) simp_all
  moreover have "bounds_ok (drop_channel st key ch)" using shapeD(3) [OF assms(1)] by (simp add: bounds_ok_def)
  moreover have "claims (drop_channel st key ch) e \<le> claims st e" for e
    using counts_delete(2) [OF shapeD(1) [OF assms(1)] assms(2), of "drop_channel st key ch" e] by simp
  ultimately show ?thesis using drop_entry [OF assms] drop_admitted(1) [OF assms] by (auto simp: safe_def pshape_def grows_def)
qed

section \<open>Refusals and what the application is told\<close>

definition issued_ok :: "issuedCode \<Rightarrow> bool" where
  "issued_ok ic \<longleftrightarrow> distinct (map fst (ic_answered ic)) \<and> length (ic_answered ic) \<le> channelsPerCode"

lemma issued_safe:
  assumes "pshape st" "issued_ok ic"
  shows "safe st (st\<lparr>pm_issued := AList.update i ic (pm_issued st)\<rparr>)" (is "safe st ?st")
proof -
  have c: "claims ?st e = claims st e" "chans ?st e = chans st e" for e by (auto intro: claims_cong chans_cong)
  have "tables_ok ?st" using shapeD(1) [OF assms(1)] by (auto simp: tables_ok_def AList.update_conv)
  moreover have "bounds_ok ?st" using shapeD(3) [OF assms(1)] assms(2) by (simp add: bounds_ok_def AList.update_conv issued_ok_def)
  moreover have "entry_ok ?st e" if "e < pm_nent st" for e using shapeD(2) [OF assms(1) that] unfolding entry_ok_def c by simp
  ultimately show ?thesis by (simp add: safe_def pshape_def grows_def admitted_def c)
qed

lemma tell_ok: "tell ic code now = (due, ic') \<Longrightarrow> issued_ok ic \<Longrightarrow> issued_ok ic'"
  by (auto simp: tell_def issued_ok_def split: if_splits)

lemma quiet_fail [simp]: "quiet_event (PairingFailedEvent c f) \<longleftrightarrow> f \<noteq> FailWrongCode"
  by (simp add: quiet_event_def)

lemma send_safe: "pshape st \<Longrightarrow> safe st (send_out st m)"
  by (rule same_safe [where vs = "[]"]) simp_all

lemma emit_safe: "pshape st \<Longrightarrow> f \<noteq> FailWrongCode \<Longrightarrow> safe st (emit st (PairingFailedEvent c f))"
  by (rule same_safe [where vs = "[PairingFailedEvent c f]"]) simp_all

text \<open>The event that says a pairing failed, told at most once a second: \<open>refuse\<close> and \<open>primary_endChannel\<close> end in it.\<close>

lemma told_safe:
  assumes "pshape st" "issued_ok ic" "tell ic code now = (due, ic')" "code \<noteq> FailWrongCode"
  shows "safe st (let st = st\<lparr>pm_issued := AList.update i ic' (pm_issued st)\<rparr> in if due then emit st (PairingFailedEvent i code) else st)"
proof -
  have u: "safe st (st\<lparr>pm_issued := AList.update i ic' (pm_issued st)\<rparr>)" by (rule issued_safe [OF assms(1) tell_ok [OF assms(3,2)]])
  show ?thesis using u safe_trans [OF u emit_safe [OF safe_shape [OF u] assms(4)]] by (simp add: Let_def)
qed

lemma issued_okI: "pshape st \<Longrightarrow> map_of (pm_issued st) i = Some ic \<Longrightarrow> issued_ok ic"
  by (simp add: pshape_def bounds_ok_def issued_ok_def)

lemma endChannel_safe:
  assumes "pshape st" "code \<noteq> FailWrongCode"
  shows "safe st (primary_endChannel st key code tr)"
proof (cases "map_of (pm_channels st) key")
  case (Some ch)
  define st1 where "st1 = (if tr then send_out (drop_channel st key ch) (PairEnd key) else drop_channel st key ch)"
  have d: "safe st (drop_channel st key ch)" by (rule drop_safe [OF assms(1) Some])
  have s1: "safe st st1" using safe_trans [OF d send_safe [OF safe_shape [OF d]]] d by (simp add: st1_def)
  let ?i = "oc_codeID (pm_ent st1 (pc_entry ch))"
  have "safe st1 (case map_of (pm_issued st1) ?i of
               None \<Rightarrow> emit st1 (PairingFailedEvent ?i code)
             | Some ic \<Rightarrow>
                 (case tell ic code (pm_mono st1) of (due, ic) \<Rightarrow>
                    let st = st1\<lparr>pm_issued := AList.update ?i ic (pm_issued st1)\<rparr>
                    in if due then emit st (PairingFailedEvent ?i code) else st))" (is "safe st1 ?r")
  proof (cases "map_of (pm_issued st1) ?i")
    case None
    then show ?thesis using emit_safe [OF safe_shape [OF s1] assms(2)] by simp
  next
    case ic: (Some ic)
    obtain due ic' where t: "tell ic code (pm_mono st1) = (due, ic')" by fastforce
    show ?thesis using told_safe [OF safe_shape [OF s1] issued_okI [OF safe_shape [OF s1] ic] t assms(2)] by (simp add: ic t)
  qed
  moreover have "primary_endChannel st key code tr = ?r" unfolding primary_endChannel_def Some option.case Let_def st1_def by simp
  ultimately show ?thesis using safe_trans [OF s1] by simp
qed (simp add: primary_endChannel_def safe_refl assms(1))

text \<open>A walk that covers the map it trims makes room for one more channel.\<close>

definition covers :: "((string \<times> int) list \<Rightarrow> string list) \<Rightarrow> bool" where
  "covers walk \<longleftrightarrow> (\<forall>m. set (walk m) = fst ` set m)"

lemma evict_channels_props:
  assumes "distinct (map fst m)"
  shows "distinct (map fst (evict_channels ws m))" "fst ` set m \<subseteq> set ws \<Longrightarrow> length (evict_channels ws m) < channelsPerCode"
    "length (evict_channels ws m) \<le> length m"
  using assms
proof (induction ws arbitrary: m)
  case (Cons w ws)
  {
    case 1 then show ?case using Cons(1) [OF AList.distinct_delete [OF 1]] by simp
  next
    case 2
    have "fst ` set (AList.delete w m) \<subseteq> set ws" using 2(1) by (auto simp: AList.delete_eq)
    then show ?case using Cons(2) [of "AList.delete w m"] AList.distinct_delete [OF 2(2)] by simp
  next
    case 3 then show ?case using Cons(3) [OF AList.distinct_delete [OF 3]] AList.length_delete_le [of w m] by (auto intro: order_trans)
  }
qed (auto simp: channelsPerCode_def)

lemma answer_ok:
  assumes "covers walk" "issued_ok ic" "answer walk ic key now = (ans, ic')"
  shows "issued_ok ic'"
proof (cases "case map_of (ic_answered ic) key of None \<Rightarrow> False | Some t \<Rightarrow> now - t < Second")
  case True
  then show ?thesis using assms by (simp add: answer_def)
next
  case False
  define m where "m = filter (\<lambda>(c, t). \<not> now - t \<ge> Second) (ic_answered ic)"
  define m' where "m' = (if length (ic_answered ic) \<ge> channelsPerCode then evict_channels (walk m) m else ic_answered ic)"
  have d: "distinct (map fst m)" using assms(2) by (auto simp: m_def issued_ok_def distinct_map_filter)
  have "distinct (map fst m') \<and> length m' < channelsPerCode"
    using evict_channels_props(1,2) [OF d, of "walk m"] assms(1,2) by (auto simp: m'_def covers_def issued_ok_def)
  moreover have "ic' = ic\<lparr>ic_answered := AList.update key now m'\<rparr>" using assms(3) False by (simp add: answer_def m_def m'_def Let_def split: if_splits)
  ultimately show ?thesis using length_update_le [of key now m'] by (simp add: issued_ok_def)
qed

lemma refuse_safe:
  assumes "covers walk" "pshape st" "code \<noteq> FailWrongCode"
  shows "safe st (refuse walk st key i code)"
proof (cases "map_of (pm_issued st) i")
  case None
  obtain ok b where t: "take_token (pm_refusals st) (pm_mono st) 32 64 = (ok, b)" by fastforce
  have r: "safe st (st\<lparr>pm_refusals := b\<rparr>)" by (rule same_safe [OF assms(2), where vs = "[]"]) simp_all
  show ?thesis using r safe_trans [OF r send_safe [OF safe_shape [OF r]]] by (simp add: refuse_def None t Let_def)
next
  case (Some ic)
  obtain ans ic' where a: "answer walk ic key (pm_mono st) = (ans, ic')" by fastforce
  define st1 where "st1 = (if ans then send_out st (PairEnd key) else st)"
  obtain due ic'' where t: "tell ic' code (pm_mono st1) = (due, ic'')" by fastforce
  have s1: "safe st st1" using send_safe [OF assms(2)] safe_refl [OF assms(2)] by (simp add: st1_def)
  have ok: "issued_ok ic'" by (rule answer_ok [OF assms(1) issued_okI [OF assms(2) Some] a])
  have "refuse walk st key i code = (let st = st1\<lparr>pm_issued := AList.update i ic'' (pm_issued st1)\<rparr> in if due then emit st (PairingFailedEvent i code) else st)"
    using t by (simp add: refuse_def Some a st1_def Let_def)
  then show ?thesis using safe_trans [OF s1 told_safe [OF safe_shape [OF s1] ok t assms(3)]] by simp
qed

section \<open>Codes that close\<close>

lemma trim_closed_props:
  assumes "trim_closed op cl iss = (cl', iss')"
  shows "length cl' \<le> closedCodes" "map_of op i \<noteq> None \<Longrightarrow> map_of iss' i = map_of iss i" "map_of iss' i = Some ic \<Longrightarrow> map_of iss i = Some ic"
  using assms
proof (induction op cl iss arbitrary: cl' iss' rule: trim_closed.induct)
  case IH: (2 op old rest iss)
  {
    case 1 then show ?case using IH(1) by (auto split: if_splits)
  next
    case 2 then show ?case using IH(2) by (cases "old = i") (auto simp: AList.delete_conv' split: if_splits)
  next
    case 3 then show ?case using IH(3) by (cases "old = i") (auto simp: AList.delete_conv' split: if_splits)
  }
qed (auto simp: closedCodes_def)

lemma closeCode_fields [simp]:
  "pm_ent (closeCode st i) = pm_ent st" "pm_nent (closeCode st i) = pm_nent st" "pm_channels (closeCode st i) = pm_channels st"
  "pm_events (closeCode st i) = pm_events st"
  by (simp_all add: closeCode_def Let_def split: prod.split)

lemma closeEntry_fields [simp]:
  "pm_ent (closeEntry st i) = pm_ent st" "pm_nent (closeEntry st i) = pm_nent st" "pm_channels (closeEntry st i) = pm_channels st"
  "pm_events (closeEntry st i) = pm_events st"
  by (simp_all add: closeEntry_def)

lemma closeCode_tables:
  assumes "pshape st"
  shows "tables_ok (closeCode st i)" "bounds_ok (closeCode st i)"
proof -
  obtain cl iss where t: "trim_closed (AList.delete i (pm_codes st)) (pm_closed st @ [i]) (pm_issued st) = (cl, iss)" by fastforce
  note tab = shapeD(1) [OF assms, unfolded tables_ok_def]
  have d: "distinct (map fst (AList.delete i (pm_codes st)))" using tab by (simp add: AList.distinct_delete)
  have k: "map_of iss j \<noteq> None" if "(j, e) \<in> set (AList.delete i (pm_codes st))" for j e
  proof -
    have "map_of (AList.delete i (pm_codes st)) j \<noteq> None" using weak_map_of_SomeI [OF that] by auto
    then show ?thesis using trim_closed_props(2) [OF t] tab that by (auto simp: AList.delete_eq)
  qed
  show "tables_ok (closeCode st i)"
  proof (cases "map_of (pm_codes st) i = None")
    case False
    have "tables_ok (st\<lparr>pm_codes := AList.delete i (pm_codes st)\<rparr>)" using tab d by (simp add: tables_ok_def) (auto simp: AList.delete_eq)
    moreover have "tables_ok (st\<lparr>pm_codes := AList.delete i (pm_codes st), pm_closed := cl, pm_issued := iss\<rparr>)"
      using tab d k by (simp add: tables_ok_def) (auto simp: AList.delete_eq)
    ultimately show ?thesis using False by (auto simp: closeCode_def t Let_def)
  qed (simp add: closeCode_def shapeD(1) [OF assms])
  show "bounds_ok (closeCode st i)"
    using shapeD(3) [OF assms] trim_closed_props(1,3) [OF t] by (auto simp: closeCode_def Let_def t bounds_ok_def)
qed

lemma closeCode_safe:
  assumes "pshape st"
  shows "safe st (closeCode st i)"
proof -
  have c: "claims (closeCode st i) e = claims st e" "chans (closeCode st i) e = chans st e" for e by (auto intro: claims_cong chans_cong)
  have "entry_ok (closeCode st i) e" if "e < pm_nent st" for e using shapeD(2) [OF assms that] by (simp add: entry_ok_def c)
  then show ?thesis using closeCode_tables [OF assms] by (simp add: safe_def pshape_def grows_def admitted_def c)
qed

lemma closeEntry_safe: "pshape st \<Longrightarrow> safe st (closeEntry st e)"
  by (simp add: closeEntry_def closeCode_safe safe_refl)

lemma closeEntry_after: "safe a b \<Longrightarrow> safe a (closeEntry b e)"
  by (rule safe_trans [OF _ closeEntry_safe [OF safe_shape]])

lemma fold_safe:
  assumes "pshape st" "\<And>x st. pshape st \<Longrightarrow> safe st (f x st)"
  shows "safe st (fold f xs st)"
  using assms(1)
proof (induction xs arbitrary: st)
  case (Cons x xs)
  have s: "safe st (f x st)" by (rule assms(2) [OF Cons.prems])
  then show ?case using safe_trans [OF s Cons.IH [OF safe_shape [OF s]]] by simp
qed (simp add: safe_refl)

lemma end_channels_safe: "pshape st \<Longrightarrow> code \<noteq> FailWrongCode \<Longrightarrow> safe st (end_channels chs code tr st)"
  unfolding end_channels_def by (rule fold_safe) (auto intro: endChannel_safe)

lemma pruneCodes_safe: "pshape st \<Longrightarrow> safe st (pruneCodes st)"
  unfolding pruneCodes_def by (rule fold_safe) (auto intro: closeCode_safe safe_refl)

text \<open>Ending channels removes them, so a code withdrawn, or a primary stopped, leaves none behind.\<close>

lemma endChannel_channels: "pm_channels (primary_endChannel st key code tr) = AList.delete key (pm_channels st)"
proof (cases "map_of (pm_channels st) key")
  case None
  then have "AList.delete key (pm_channels st) = pm_channels st" by (auto intro!: AList.delete_id simp: map_of_eq_None_iff)
  then show ?thesis using None by (simp add: primary_endChannel_def)
next
  case (Some ch)
  then show ?thesis by (simp add: primary_endChannel_def Let_def split: option.split prod.split)
qed

lemma end_channels_left: "set (pm_channels (end_channels chs code tr st)) = {p \<in> set (pm_channels st). fst p \<notin> fst ` set chs}"
proof (induction chs arbitrary: st)
  case (Cons x chs)
  have "end_channels (x # chs) code tr st = end_channels chs code tr (primary_endChannel st (fst x) code tr)" by (simp add: end_channels_def case_prod_beta)
  then show ?case by (auto simp: Cons.IH endChannel_channels AList.delete_eq)
qed (simp add: end_channels_def)

lemma claims_none: "(\<And>p. p \<in> set (pm_channels st) \<Longrightarrow> pc_entry (snd p) \<noteq> e) \<Longrightarrow> claims st e = 0 \<and> chans st e = 0"
  by (auto simp: claims_def chans_def filter_empty_conv)

lemma burn_shape:
  assumes "pshape st" "e < pm_nent st"
  shows "pshape (upd_e st e (\<lambda>x. x\<lparr>oc_burned := True\<rparr>))" "grows st (upd_e st e (\<lambda>x. x\<lparr>oc_burned := True\<rparr>))" (is "grows st ?b")
proof -
  have c: "claims ?b x = claims st x" "chans ?b x = chans st x" for x by (auto intro: claims_cong chans_cong)
  have "entry_ok ?b x" if "x < pm_nent st" for x
    using shapeD(2) [OF assms(1) that] by (cases "x = e") (auto simp: entry_ok_def c)
  then show "pshape ?b" using shapeD(1,3) [OF assms(1)] by (simp add: pshape_def)
  show "grows st ?b" by (simp add: grows_def admitted_def c)
qed

lemma withdraw_safe:
  assumes "pshape st" "e < pm_nent st"
  shows "safe st (withdraw st e)"
proof -
  define b where "b = upd_e st e (\<lambda>x. x\<lparr>oc_burned := True\<rparr>)"
  define w where "w = end_channels (filter (\<lambda>(key, ch). pc_entry ch = e) (pm_channels st)) FailUnknownCode True b"
  have b: "pshape b" "grows st b" unfolding b_def by (rule burn_shape [OF assms])+
  have s: "safe b w" unfolding w_def by (rule end_channels_safe [OF b(1)]) (simp add: fail_codes)
  have "set (pm_channels w) = {p \<in> set (pm_channels st). fst p \<notin> fst ` set (filter (\<lambda>(key, ch). pc_entry ch = e) (pm_channels st))}"
    unfolding w_def end_channels_left by (simp add: b_def)
  then have z: "claims w e = 0" using claims_none [of w e] by (fastforce simp: image_iff)
  have cb: "claims b x = claims st x" for x by (simp add: b_def claims_def)
  have "safe st w" unfolding safe_def
  proof (intro conjI allI impI)
    show "pshape w" by (rule safe_shape [OF s])
    show "grows st w" using s by (auto simp: safe_def intro: grows_trans [OF b(2)])
    show "claims w x \<le> claims st x" for x using s cb by (simp add: safe_def)
    fix x assume x: "x < pm_nent w" "oc_burned (pm_ent w x)"
    show "x < pm_nent st \<and> oc_burned (pm_ent st x) \<or> claims w x = 0"
    proof (cases "x = e")
      case False
      have "x < pm_nent b \<and> oc_burned (pm_ent b x) \<or> claims w x = 0" using s x by (simp add: safe_def)
      then show ?thesis using False by (simp add: b_def)
    qed (simp add: z)
  qed
  then show ?thesis unfolding withdraw_def w_def b_def by (rule closeEntry_after)
qed

lemma onConnectionLost_safe: "pshape st \<Longrightarrow> safe st (onConnectionLost st)"
  unfolding onConnectionLost_def by (rule end_channels_safe) (simp_all add: fail_codes)

lemma end_channels_nent [simp]: "pm_nent (end_channels chs code tr st) = pm_nent st"
proof (induction chs arbitrary: st)
  case (Cons x chs)
  have "pm_nent (primary_endChannel st k code tr) = pm_nent st" for k st by (simp add: primary_endChannel_def Let_def split: option.split prod.split)
  then show ?case using Cons by (simp add: end_channels_def case_prod_beta)
qed (simp add: end_channels_def)

lemma burn_all_safe:
  assumes "pshape st" "pm_channels st = []" "\<forall>p\<in>set cs. snd p < pm_nent st"
  shows "safe st (fold (\<lambda>(i, e) st. closeCode (upd_e st e (\<lambda>x. x\<lparr>oc_burned := True\<rparr>)) i) cs st)"
  using assms
proof (induction cs arbitrary: st)
  case (Cons x cs)
  obtain i e where x: "x = (i, e)" by fastforce
  let ?b = "upd_e st e (\<lambda>x. x\<lparr>oc_burned := True\<rparr>)"
  have b: "safe st ?b" by (rule upd_safe) (use Cons.prems x in \<open>auto simp: claims_def\<close>)
  have bc: "safe st (closeCode ?b i)" by (rule safe_trans [OF b closeCode_safe [OF safe_shape [OF b]]])
  show ?case using safe_trans [OF bc Cons.IH [OF safe_shape [OF bc]]] Cons.prems x by simp
qed (simp add: safe_refl)

lemma stop_safe:
  assumes "pshape st"
  shows "safe st (stop st)"
proof -
  define w where "w = end_channels (pm_channels st) FailDemoted True st"
  have s: "safe st w" unfolding w_def by (rule end_channels_safe [OF assms]) (simp add: fail_codes)
  have "set (pm_channels w) = {}" unfolding w_def end_channels_left by auto
  moreover have "\<forall>p\<in>set (pm_codes w). snd p < pm_nent w" using shapeD(1) [OF safe_shape [OF s]] by (auto simp: tables_ok_def)
  ultimately show ?thesis using safe_trans [OF s burn_all_safe [OF safe_shape [OF s]]] by (simp add: stop_def w_def Let_def)
qed

section \<open>Attempts that fail\<close>

lemma events_fail:
  assumes ok: "events_ok st" and e: "e < pm_nent st" and n: "pm_nent st' = pm_nent st" and id: "\<And>x. oc_codeID (pm_ent st' x) = oc_codeID (pm_ent st x)"
    and f: "\<And>x. oc_failed (pm_ent st' x) = oc_failed (pm_ent st x) + (if x = e then 1 else 0)" and a: "\<And>x. admitted st x \<Longrightarrow> admitted st' x"
    and ev: "pm_events st' = pm_events st @ [PairingFailedEvent (oc_codeID (pm_ent st e)) code]"
  shows "events_ok st'"
  unfolding events_ok_def
proof (intro allI conjI)
  fix c
  have op: "opened st' c = opened st c" by (simp add: opened_def n id)
  have "paired_with st' c \<le> card {x \<in> opened st c. admitted st x}" using ok by (simp add: events_ok_def paired_with_def ev)
  also have "\<dots> \<le> card {x \<in> opened st' c. admitted st' x}" using a by (intro card_mono) (auto simp: op)
  finally show "paired_with st' c \<le> card {x \<in> opened st' c. admitted st' x}" .
  have "int (wrong_codes st' c) \<le> int (wrong_codes st c) + (if e \<in> opened st c then 1 else 0)" using e by (auto simp: wrong_codes_def ev opened_def)
  also have "\<dots> \<le> (\<Sum>x\<in>opened st c. oc_failed (pm_ent st x)) + (if e \<in> opened st c then 1 else 0)" using ok by (simp add: events_ok_def)
  also have "\<dots> = (\<Sum>x\<in>opened st' c. oc_failed (pm_ent st' x))" by (simp add: op f sum.distrib)
  finally show "int (wrong_codes st' c) \<le> (\<Sum>x\<in>opened st' c. oc_failed (pm_ent st' x))" .
qed

lemma failAttempt_pinv:
  assumes inv: "pinv st" and ch: "map_of (pm_channels st) key = Some ch"
  shows "pinv (failAttempt st key ch code)"
proof -
  note sh = pinvD(1) [OF inv]
  let ?e = "pc_entry ch"
  define d where "d = drop_channel st key ch"
  define u where "u = upd_e d ?e (\<lambda>x. x\<lparr>oc_failed := oc_failed x + 1\<rparr>)"
  define b where "b = (if oc_failed (pm_ent u ?e) \<ge> CodeAttempts then closeEntry (upd_e u ?e (\<lambda>x. x\<lparr>oc_burned := True\<rparr>)) ?e else u)"
  define v where "v = emit (send_out u (PairEnd key)) (PairingFailedEvent (oc_codeID (pm_ent u ?e)) code)"
  have e: "?e < pm_nent st" using tablesD(4) [OF shapeD(1) [OF sh] ch] by simp
  have d: "safe st d" unfolding d_def by (rule drop_safe [OF sh ch])
  have cu: "claims u x = claims d x" "chans u x = chans d x" for x by (simp_all add: u_def claims_def chans_def)
  have room: "oc_failed (pm_ent d ?e) + 1 + oc_inFlight (pm_ent d ?e) \<le> CodeAttempts"
    using shapeD(2) [OF sh e] by (simp add: d_def entry_ok_def)
  have "entry_ok u x" if "x < pm_nent st" for x
    using shapeD(2) [OF safe_shape [OF d], of x] that room unfolding entry_ok_def cu by (cases "x = ?e") (simp_all add: u_def d_def)
  then have su: "pshape u" using shapeD(1,3) [OF safe_shape [OF d]] by (simp add: pshape_def u_def) (simp add: d_def)
  have "claims u ?e = 0" if "oc_failed (pm_ent u ?e) \<ge> CodeAttempts"
    using that room shapeD(2) [OF safe_shape [OF d], of ?e] e claims_le_chans [of u ?e] by (simp add: entry_ok_def cu) (simp add: u_def d_def)
  then have "safe u (upd_e u ?e (\<lambda>x. x\<lparr>oc_burned := True\<rparr>))" if "oc_failed (pm_ent u ?e) \<ge> CodeAttempts"
    using su e that by (intro upd_safe) (simp_all add: u_def d_def)
  then have b: "safe u b" using safe_refl [OF su] by (auto simp: b_def intro: closeEntry_after)
  have bf: "pm_nent b = pm_nent st" "pm_channels b = pm_channels d" "pm_events b = pm_events st" "oc_codeID (pm_ent b x) = oc_codeID (pm_ent st x)"
    "oc_failed (pm_ent b x) = oc_failed (pm_ent st x) + (if x = ?e then 1 else 0)" "oc_claimed (pm_ent b x) = oc_claimed (pm_ent d x)" for x
    by (simp_all add: b_def u_def d_def)
  have le: "claims b x \<le> claims st x" for x using safe_trans [OF d] b d cu [of x] by (simp add: safe_def) (metis order_trans)
  let ?z = "emit (send_out b (PairEnd key)) (PairingFailedEvent (oc_codeID (pm_ent b ?e)) code)"
  have z: "failAttempt st key ch code = ?z" unfolding failAttempt_def b_def u_def d_def Let_def by (rule refl)
  show ?thesis unfolding z pinv_def
  proof (intro conjI allI impI)
    have "pshape ?z = pshape b" by (rule shape_cong) simp_all
    then show "pshape ?z" using safe_shape [OF b] by simp
    have "admitted ?z x" if "admitted st x" for x
      using drop_admitted(1) [OF sh ch that] bf(2,6) by (simp add: admitted_def claims_def d_def)
    then show "events_ok ?z" by (intro events_fail [OF pinvD(3) [OF inv] e]) (simp_all add: bf)
    fix x assume x: "x < pm_nent ?z"
    have "oc_burned (pm_ent u x) = oc_burned (pm_ent st x)" by (simp add: u_def d_def)
    then have "oc_burned (pm_ent b x) \<Longrightarrow> oc_burned (pm_ent st x) \<or> claims b x = 0" using b x by (auto simp: safe_def)
    then have "oc_burned (pm_ent b x) \<Longrightarrow> claims b x = 0" using pinvD(2) [OF inv, of x] le [of x] x bf(1) by (auto simp: burned_ok_def)
    then show "burned_ok ?z x" by (simp add: burned_ok_def claims_def)
  qed
qed

section \<open>Channels that are opened, move on and claim their code\<close>

lemma set_channel_counts:
  assumes "map_of (pm_channels st) key = Some ch" "pc_entry ch' = pc_entry ch"
  shows "chans (set_channel st key ch') e = chans st e"
    "claims (set_channel st key ch') e + (if pc_entry ch = e \<and> pc_claimed ch then 1 else 0) = claims st e + (if pc_entry ch = e \<and> pc_claimed ch' then 1 else 0)"
  using length_filter_update [OF assms(1), of "\<lambda>p. pc_entry (snd p) = e" ch'] length_filter_update [OF assms(1), of "\<lambda>p. pc_entry (snd p) = e \<and> pc_claimed (snd p)" ch']
  by (simp_all add: set_channel_def chans_def claims_def assms(2))

lemma set_channel_fields [simp]:
  "pm_ent (set_channel st key ch) = pm_ent st" "pm_nent (set_channel st key ch) = pm_nent st" "pm_codes (set_channel st key ch) = pm_codes st"
  "pm_issued (set_channel st key ch) = pm_issued st" "pm_closed (set_channel st key ch) = pm_closed st" "pm_events (set_channel st key ch) = pm_events st"
  "pm_channels (set_channel st key ch) = AList.update key ch (pm_channels st)"
  by (simp_all add: set_channel_def)

lemma update_mem: "p \<in> set (AList.update k v xs) \<Longrightarrow> p = (k, v) \<or> p \<in> set xs"
  by (induction xs) (auto split: if_splits)

lemma set_channel_tables:
  assumes "tables_ok st" "pc_entry ch < pm_nent st" "pc_stage ch = stageP5 \<Longrightarrow> pc_claimed ch"
  shows "tables_ok (set_channel st key ch)"
  using assms by (auto simp: tables_ok_def dest!: update_mem)

lemma set_channel_safe:
  assumes "pshape st" "map_of (pm_channels st) key = Some ch" "pc_entry ch' = pc_entry ch" "pc_claimed ch' = pc_claimed ch" "pc_stage ch' \<noteq> stageP5"
  shows "safe st (set_channel st key ch')"
proof -
  have c: "chans (set_channel st key ch') e = chans st e" "claims (set_channel st key ch') e = claims st e" for e
    using set_channel_counts [OF assms(2,3), of e] assms(4) by auto
  have "tables_ok (set_channel st key ch')" using tablesD(4) [OF shapeD(1) [OF assms(1)] assms(2)] assms(3,5) by (intro set_channel_tables [OF shapeD(1) [OF assms(1)]]) auto
  moreover have "entry_ok (set_channel st key ch') e" if "e < pm_nent st" for e using shapeD(2) [OF assms(1) that] by (simp add: entry_ok_def c)
  moreover have "bounds_ok (set_channel st key ch')" using shapeD(3) [OF assms(1)] by (simp add: bounds_ok_def)
  ultimately show ?thesis by (simp add: safe_def pshape_def grows_def admitted_def c)
qed

text \<open>The claim: the code was free, so no channel held it.\<close>

lemma claim_pinv:
  assumes inv: "pinv st" and ch: "map_of (pm_channels st) key = Some ch" and free: "\<not> oc_claimed (pm_ent st (pc_entry ch))" "\<not> oc_burned (pm_ent st (pc_entry ch))"
    and ch': "pc_entry ch' = pc_entry ch" "pc_claimed ch'"
  shows "pinv (set_channel (upd_e st (pc_entry ch) (\<lambda>x. x\<lparr>oc_claimed := True\<rparr>)) key ch')" (is "pinv ?z")
proof -
  note sh = pinvD(1) [OF inv]
  let ?e = "pc_entry ch" and ?u = "upd_e st (pc_entry ch) (\<lambda>x. x\<lparr>oc_claimed := True\<rparr>)"
  have e: "?e < pm_nent st" using tablesD(4) [OF shapeD(1) [OF sh] ch] by simp
  have ok: "entry_ok st ?e" by (rule shapeD(2) [OF sh e])
  have "claims st ?e = 0" using ok free by (simp add: entry_ok_def)
  moreover have "(if pc_claimed ch then 1 else 0) \<le> claims st ?e" using counts_delete(2) [OF shapeD(1) [OF sh] ch, of "drop_channel st key ch" ?e] by simp
  ultimately have nc: "\<not> pc_claimed ch" by (simp split: if_splits)
  have c: "chans ?z x = chans st x" "claims ?z x = claims st x + (if x = ?e then 1 else 0)" for x
    using set_channel_counts [of ?u key ch ch' x] ch ch' nc by (auto simp: chans_def claims_def)
  have "tables_ok ?z" using e ch' sh by (intro set_channel_tables) (auto simp: pshape_def)
  moreover have "bounds_ok ?z" using shapeD(3) [OF sh] by (simp add: bounds_ok_def)
  moreover have "entry_ok ?z x" if "x < pm_nent st" for x
    using shapeD(2) [OF sh that] free \<open>claims st ?e = 0\<close> by (cases "x = ?e") (auto simp: entry_ok_def c)
  ultimately have "pshape ?z" by (simp add: pshape_def)
  moreover have "events_ok ?z"
  proof (rule grows_events [OF pinvD(3) [OF inv]])
    show "grows st ?z" using free by (auto simp: grows_def admitted_def c)
    show "0 \<le> oc_failed (pm_ent ?z x)" if "x < pm_nent ?z" for x using shapeD(2) [OF \<open>pshape ?z\<close> that] by (simp add: entry_ok_def)
  qed
  moreover have "burned_ok ?z x" if "x < pm_nent st" for x
    using pinvD(2) [OF inv that] free by (auto simp: burned_ok_def c)
  ultimately show ?thesis by (simp add: pinv_def)
qed

lemma join_safe:
  assumes sh: "pshape st" and e: "e < pm_nent st" and new: "map_of (pm_channels st) key = None" and room: "oc_failed (pm_ent st e) + oc_inFlight (pm_ent st e) < CodeAttempts"
    and ch: "pc_entry ch = e" "\<not> pc_claimed ch" "pc_stage ch \<noteq> stageP5"
  shows "safe st ((upd_e st e (\<lambda>x. x\<lparr>oc_inFlight := oc_inFlight x + 1\<rparr>))\<lparr>pm_channels := pm_channels st @ [(key, ch)]\<rparr>)" (is "safe st ?z")
proof -
  have c: "chans ?z x = chans st x + (if x = e then 1 else 0)" "claims ?z x = claims st x" for x using ch by (auto simp: chans_def claims_def)
  have "tables_ok ?z" using shapeD(1) [OF sh] e new ch by (simp add: tables_ok_def map_of_eq_None_iff)
  moreover have "bounds_ok ?z" using shapeD(3) [OF sh] by (simp add: bounds_ok_def)
  moreover have "entry_ok ?z x" if "x < pm_nent st" for x
    using shapeD(2) [OF sh that] room by (cases "x = e") (auto simp: entry_ok_def c)
  ultimately show ?thesis by (auto simp: safe_def pshape_def grows_def admitted_def c)
qed

section \<open>Admissions\<close>

lemma events_admit:
  assumes ok: "events_ok st" and e: "e < pm_nent st" and n: "pm_nent st' = pm_nent st" and id: "\<And>x. oc_codeID (pm_ent st' x) = oc_codeID (pm_ent st x)"
    and f: "\<And>x. oc_failed (pm_ent st' x) = oc_failed (pm_ent st x)" and a: "\<And>x. admitted st x \<Longrightarrow> admitted st' x"
    and ne: "\<not> admitted st e" "admitted st' e" and ev: "pm_events st' = pm_events st @ [PairedEvent m (oc_codeID (pm_ent st e)) r]"
  shows "events_ok st'"
  unfolding events_ok_def
proof (intro allI conjI)
  fix c
  have op: "opened st' c = opened st c" by (simp add: opened_def n id)
  have "wrong_codes st' c = wrong_codes st c" by (simp add: wrong_codes_def ev)
  then show "int (wrong_codes st' c) \<le> (\<Sum>x\<in>opened st' c. oc_failed (pm_ent st' x))" using ok by (simp add: op f events_ok_def)
  have "paired_with st' c = paired_with st c + (if e \<in> opened st c then 1 else 0)" using e by (auto simp: paired_with_def ev opened_def)
  also have "\<dots> \<le> card {x \<in> opened st c. admitted st x} + (if e \<in> opened st c then 1 else 0)" using ok by (simp add: events_ok_def)
  also have "\<dots> = card ({x \<in> opened st c. admitted st x} \<union> (if e \<in> opened st c then {e} else {}))" using ne(1) by simp
  also have "\<dots> \<le> card {x \<in> opened st' c. admitted st' x}" using a ne(2) by (intro card_mono) (auto simp: op)
  finally show "paired_with st' c \<le> card {x \<in> opened st' c. admitted st' x}" .
qed

text \<open>A claimed channel is finished: its code is burned and the claim stays with it.\<close>

definition settled :: "'k primary \<Rightarrow> string \<Rightarrow> nat \<Rightarrow> 'k primary" where
  "settled st key e = upd_e (st\<lparr>pm_channels := AList.delete key (pm_channels st)\<rparr>) e (\<lambda>x. x\<lparr>oc_inFlight := oc_inFlight x - 1, oc_burned := True\<rparr>)"

lemma settled_fields [simp]:
  "pm_channels (settled st key e) = AList.delete key (pm_channels st)" "pm_nent (settled st key e) = pm_nent st" "pm_codes (settled st key e) = pm_codes st"
  "pm_issued (settled st key e) = pm_issued st" "pm_closed (settled st key e) = pm_closed st" "pm_events (settled st key e) = pm_events st"
  "pm_ent (settled st key e) = (pm_ent st)(e := (pm_ent st e)\<lparr>oc_inFlight := oc_inFlight (pm_ent st e) - 1, oc_burned := True\<rparr>)"
  by (simp_all add: settled_def)

lemma settled_shape:
  assumes sh: "pshape st" and ch: "map_of (pm_channels st) key = Some ch" "pc_claimed ch"
  shows "pshape (settled st key (pc_entry ch))" "claims (settled st key (pc_entry ch)) (pc_entry ch) = 0" "oc_claimed (pm_ent st (pc_entry ch))"
    "claims (settled st key (pc_entry ch)) x \<le> claims st x" "claims st (pc_entry ch) = 1"
proof -
  let ?e = "pc_entry ch" and ?z = "settled st key (pc_entry ch)"
  have c: "chans st x = chans ?z x + (if ?e = x then 1 else 0)" "claims st x = claims ?z x + (if ?e = x then 1 else 0)" for x
    using counts_delete [OF shapeD(1) [OF sh] ch(1), of ?z x] ch(2) by simp_all
  have e: "?e < pm_nent st" using tablesD(4) [OF shapeD(1) [OF sh] ch(1)] by simp
  have ok: "claims st ?e \<le> (if oc_claimed (pm_ent st ?e) then 1 else 0)" using shapeD(2) [OF sh e] by (simp add: entry_ok_def)
  then show z: "claims ?z ?e = 0" and cl: "oc_claimed (pm_ent st ?e)" and "claims st ?e = 1" using c(2) [of ?e] by (auto split: if_splits)
  show "claims ?z x \<le> claims st x" using c(2) [of x] by simp
  have "tables_ok ?z" by (rule tables_delete [OF shapeD(1) [OF sh]]) simp_all
  moreover have "entry_ok ?z x" if "x < pm_nent st" for x
    using shapeD(2) [OF sh that] c [of x] z by (cases "x = ?e") (auto simp: entry_ok_def)
  ultimately show "pshape ?z" using shapeD(3) [OF sh] by (simp add: pshape_def bounds_ok_def)
qed

lemma admit_pinv:
  assumes inv: "pinv st" and ch: "map_of (pm_channels st) key = Some ch" "pc_claimed ch"
    and z: "pm_ent z = pm_ent (settled st key (pc_entry ch))" "pm_nent z = pm_nent st" "pm_channels z = AList.delete key (pm_channels st)" "pshape z"
    and ev: "pm_events z = pm_events st @ [PairedEvent m (oc_codeID (pm_ent st (pc_entry ch))) r]"
  shows "pinv z"
  unfolding pinv_def
proof (intro conjI allI impI)
  note sh = pinvD(1) [OF inv]
  note S = settled_shape [OF sh ch]
  let ?e = "pc_entry ch"
  have cz: "claims z x = claims (settled st key ?e) x" for x by (rule claims_cong) (simp add: z)
  have e: "?e < pm_nent st" using tablesD(4) [OF shapeD(1) [OF sh] ch(1)] by simp
  show "pshape z" by (rule z)
  have "admitted z x" if "admitted st x" for x using that S(4) [of x] cz [of x] by (auto simp: admitted_def z(1))
  moreover have "\<not> admitted st ?e" "admitted z ?e" using S by (simp_all add: admitted_def z(1) cz)
  ultimately show "events_ok z" by (intro events_admit [OF pinvD(3) [OF inv] e]) (simp_all add: z ev)
  fix x assume "x < pm_nent z"
  then show "burned_ok z x" using pinvD(2) [OF inv, of x] S(2) S(4) [of x] cz [of x] by (cases "x = ?e") (auto simp: burned_ok_def z(1,2))
qed

end
