(* ===== verification/Pairing_Properties.thy ===== *)
theory Pairing_Properties
  imports Pairing_Invariant
begin

text \<open>
  What a primary's run keeps and what its codes promise. \<open>pstep\<close> is one call into the primary (from the
  application, the relay or a timer) or a change around it: the clock, the order of a map, a
  roster adopted elsewhere. Every step keeps the invariant of \<open>Pairing_Invariant\<close>; the properties are read
  off the states a run reaches.
\<close>

section \<open>Every operation keeps the invariant\<close>

lemma publish_safe: "pshape st \<Longrightarrow> safe st (publish st r i)"
  by (rule same_safe [where vs = "[]"]) simp_all

lemma Revoke_safe: "pshape st \<Longrightarrow> safe st (snd (Revoke ev st i))"
  by (auto simp: Revoke_def safe_refl publish_safe split: sum.split)

lemma onResign_safe: "pshape st \<Longrightarrow> safe st (onResign ev st from body)"
  by (auto simp: onResign_def Let_def safe_refl publish_safe split: option.split sum.split)

lemma withdraw_open:
  assumes "pshape st" "map_of (pm_codes st) i = Some e"
  shows "safe st (withdraw st e)"
  using tablesD(3) [OF shapeD(1) [OF assms(1)] assms(2)] by (intro withdraw_safe [OF assms(1)]) simp

lemma CancelPairingCode_safe: "pshape st \<Longrightarrow> safe st (CancelPairingCode st i)"
  by (simp add: CancelPairingCode_def safe_refl withdraw_open split: option.split)

lemma pair_timeout_safe: "pshape st \<Longrightarrow> safe st (pair_timeout st key)"
  by (simp add: pair_timeout_def endChannel_safe fail_codes)

lemma onPairEnd_safe: "pshape st \<Longrightarrow> safe st (onPairEnd st key)"
  by (simp add: onPairEnd_def endChannel_safe safe_refl fail_codes)

lemma open_new_safe:
  assumes sh: "pshape st" and x: "oc_codeID x = i" "oc_failed x = 0" "oc_inFlight x = 0" "\<not> oc_claimed x" "\<not> oc_burned x"
    and z: "pm_ent z = (pm_ent st)(pm_nent st := x)" "pm_nent z = Suc (pm_nent st)" "pm_codes z = AList.update i (pm_nent st) (pm_codes st)"
      "pm_channels z = pm_channels st" "pm_closed z = pm_closed st" "pm_events z = pm_events st"
      "pm_issued z = (if map_of (pm_issued st) i = None then AList.update i \<lparr>ic_answered = [], ic_told = []\<rparr> (pm_issued st) else pm_issued st)"
  shows "safe st z"
proof -
  have c: "chans z y = chans st y" "claims z y = claims st y" for y by (simp_all add: chans_def claims_def z)
  have old: "pc_entry (snd p) < pm_nent st" if "p \<in> set (pm_channels st)" for p using shapeD(1) [OF sh] that by (auto simp: tables_ok_def)
  have n: "claims st (pm_nent st) = 0 \<and> chans st (pm_nent st) = 0" by (rule claims_none) (use old in fastforce)
  have "tables_ok z" using shapeD(1) [OF sh] x(1) unfolding tables_ok_def z by (auto simp: AList.update_conv less_Suc_eq dest!: update_mem)
  moreover have "bounds_ok z" using shapeD(3) [OF sh] by (auto simp: bounds_ok_def AList.update_conv z)
  moreover have "entry_ok z y" if "y < Suc (pm_nent st)" for y
    using shapeD(2) [OF sh, of y] that x n by (cases "y = pm_nent st") (auto simp: entry_ok_def c z CodeAttempts_def)
  ultimately have "pshape z" by (simp add: pshape_def z)
  moreover have "grows st z" by (simp add: grows_def admitted_def c z)
  ultimately show ?thesis using x(5) by (auto simp: safe_def c z less_Suc_eq)
qed

lemma OpenPairingCode_safe:
  assumes sh: "pshape st"
  shows "safe st (snd (OpenPairingCode ev st lifetime chosen separate fresh draws))"
proof (cases "if chosen = [] then Some [] else NormalizeCode chosen")
  case None
  then show ?thesis using safe_refl [OF sh] by (simp add: OpenPairingCode_def)
next
  case c: (Some c)
  note p = pruneCodes_safe [OF sh]
  let ?p = "pruneCodes st" and ?code = "if c = [] then GenerateCode fresh else c" and ?id = "if separate then draw_code_id draws else Some DefaultCodeID"
  let ?relay = "if u_Relay (pm_roster ?p) = [] then ev_url ev else u_Relay (pm_roster ?p)"
  show ?thesis
  proof (cases "sizeWith st (u_Members (pm_roster st) @ [placeholderMember])")
    case None
    then show ?thesis using safe_refl [OF sh] by (simp add: OpenPairingCode_def c)
  next
    case sz: (Some sz)
    show ?thesis
    proof (cases "sz > MaxRosterBytes \<or> ?id = None")
      case True
      then show ?thesis using safe_refl [OF sh] p unfolding OpenPairingCode_def c sz option.case Let_def by (cases "sz > MaxRosterBytes") (simp_all split del: if_split)
    next
      case False
      then obtain i where i: "?id = Some i" and fits: "\<not> sz > MaxRosterBytes" by force
      define w where "w = (case map_of (pm_codes ?p) i of None \<Rightarrow> ?p | Some old \<Rightarrow> withdraw ?p old)"
      have w: "safe st w" using p safe_trans [OF p withdraw_open [OF safe_shape [OF p]]] by (simp add: w_def split: option.split)
      show ?thesis
      proof (cases "BuildPairingLink \<lparr>lk_Network = u_Network (pm_roster ?p), lk_Code = ?code, lk_CodeID = i, lk_Relay = ?relay\<rparr>")
        case None
        show ?thesis unfolding OpenPairingCode_def c sz i option.case Let_def if_not_P [OF fits] None snd_conv by (rule p)
      next
        case l: (Some link)
        let ?x = "\<lparr>oc_code = ?code, oc_codeID = i, oc_expiresAt = pm_mono w + (if lifetime \<le> 0 then CodeLifetime else lifetime), oc_failed = 0, oc_inFlight = 0,
          oc_claimed = False, oc_burned = False, oc_setups = bucket_zero\<rparr>"
        show ?thesis unfolding OpenPairingCode_def c sz i option.case Let_def if_not_P [OF fits] l w_def [symmetric] snd_conv
          by (rule safe_trans [OF w open_new_safe [OF safe_shape [OF w], where x = ?x and i = i]]) simp_all
      qed
    qed
  qed
qed

lemma onPairing_safe:
  assumes cov: "covers (ev_walk ev)" and sh: "pshape st"
  shows "safe st (onPairing ev st key i draws)"
proof (cases "key = [] \<or> i = [] \<or> fromB64uLen key 16 = None \<or> map_of (pm_channels st) key \<noteq> None")
  case True
  then show ?thesis using safe_refl [OF sh] by (auto simp: onPairing_def split: option.split)
next
  case False
  then obtain cb where cb: "fromB64uLen key 16 = Some cb" and new: "map_of (pm_channels st) key = None" by auto
  have ref: "safe st (refuse (ev_walk ev) st' key i f)" if "safe st st'" "f \<in> {FailUnknownCode, FailUsed, FailNoAttempts, FailMalformed}" for f st'
    by (rule safe_trans [OF that(1) refuse_safe [OF cov safe_shape [OF that(1)]]]) (use that(2) in \<open>auto simp: fail_codes\<close>)
  show ?thesis
  proof (cases "map_of (pm_codes st) i")
    case None
    then show ?thesis using False cb ref [OF safe_refl [OF sh]] by (simp add: onPairing_def)
  next
    case e: (Some e)
    have en: "e < pm_nent st" using tablesD(3) [OF shapeD(1) [OF sh] e] by simp
    obtain ok b where t: "take_token (oc_setups (pm_ent st e)) (pm_mono st) 4 8 = (ok, b)" by fastforce
    define u where "u = upd_e st e (\<lambda>x. x\<lparr>oc_setups := b\<rparr>)"
    have u: "safe st u" unfolding u_def by (rule upd_safe [OF sh en]) simp_all
    let ?full = "oc_burned (pm_ent st e) \<or> oc_expiresAt (pm_ent st e) \<le> pm_mono st \<or> oc_claimed (pm_ent st e) \<or> oc_failed (pm_ent st e) + oc_inFlight (pm_ent st e) \<ge> CodeAttempts"
    show ?thesis
    proof (cases ?full)
      case True
      then show ?thesis using False cb e ref [OF safe_refl [OF sh]] by (auto simp: onPairing_def)
    next
      case nf: False
      have join: "safe u ((upd_e u e (\<lambda>x. x\<lparr>oc_inFlight := oc_inFlight x + 1\<rparr>))\<lparr>pm_channels := pm_channels u @ [(key, \<lparr>pc_channel = cb, pc_entry = e, pc_ex = ex, pc_stage = stageP1, pc_claimed = False\<rparr>)]\<rparr>)" for ex
        by (rule join_safe [OF safe_shape [OF u]]) (use en new nf in \<open>simp_all add: u_def\<close>)
      show ?thesis using False nf ref [OF u] u safe_trans [OF u join]
        by (simp add: onPairing_def cb e t u_def [symmetric] Let_def split: option.split)
    qed
  qed
qed

lemma completePairing_cases:
  assumes "completePairing ev st key ch body = Some st'"
  obtains (ended) f where "f \<in> {FailAlreadyMember, FailRosterFull}" "st' = primary_endChannel st key f True"
    | (admitted) keys ex m6 nxt member ex' where "onP5 (ev_aead ev) (ev_dec ev) (pc_ex ch) body = (Some keys, ex)"
      "canonicalEd25519 (nk_ed25519 keys)" "\<not> smallOrderEd25519 (nk_ed25519 keys)"
      "member = \<lparr>rm_ID = NodeIDFromEd25519 (pr_sha (ev_pr ev)) (nk_ed25519 keys), rm_Ed25519 = b64u (nk_ed25519 keys), rm_X25519 = b64u (nk_x25519 keys), rm_extra = []\<rparr>"
      "member_of (pm_roster st) (rm_ID member) = None" "nextRoster ev st (u_Members (pm_roster st) @ [member]) = Inr nxt" "p6 (ev_aead ev) ex nxt = (Some m6, ex')"
      "st' = emit (send_out (publish (primary_sendPair (closeEntry (settled st key (pc_entry ch)) (pc_entry ch)) ch m6) nxt (rm_ID member)) (PairEnd key))
         (PairedEvent member (oc_codeID (pm_ent st (pc_entry ch))) nxt)"
proof -
  obtain keys ex where o: "onP5 (ev_aead ev) (ev_dec ev) (pc_ex ch) body = (Some keys, ex)"
    using assms by (auto simp: completePairing_def split: prod.splits option.splits)
  have k: "canonicalEd25519 (nk_ed25519 keys)" "\<not> smallOrderEd25519 (nk_ed25519 keys)" using assms by (auto simp: completePairing_def o split: if_splits)
  define member where "member = \<lparr>rm_ID = NodeIDFromEd25519 (pr_sha (ev_pr ev)) (nk_ed25519 keys), rm_Ed25519 = b64u (nk_ed25519 keys), rm_X25519 = b64u (nk_x25519 keys), rm_extra = []\<rparr>"
  note d = assms [unfolded completePairing_def o prod.case option.case Let_def, folded settled_def]
  show thesis
  proof (cases "member_of (pm_roster st) (rm_ID member)")
    case (Some m)
    then show thesis using d k ended [of FailAlreadyMember] by (simp add: member_def)
  next
    case None
    show thesis
    proof (cases "nextRoster ev st (u_Members (pm_roster st) @ [member])")
      case (Inl e)
      then show thesis using d k None ended [of FailRosterFull] by (cases e) (simp_all add: member_def)
    next
      case (Inr nxt)
      obtain m ex' where p: "p6 (ev_aead ev) ex nxt = (m, ex')" by fastforce
      obtain m6 where "m = Some m6" using d k None Inr p by (cases m) (simp_all add: member_def)
      then show thesis using d k None Inr p by (intro admitted [OF o k member_def None Inr]) (auto simp: member_def)
    qed
  qed
qed

lemma completePairing_pinv:
  assumes inv: "pinv st" and ch: "map_of (pm_channels st) key = Some ch" "pc_claimed ch" and r: "completePairing ev st key ch body = Some st'"
  shows "pinv st'"
  using r
proof (cases rule: completePairing_cases)
  case (ended f)
  then show ?thesis using safe_pinv [OF inv endChannel_safe [OF pinvD(1) [OF inv]]] by (auto simp: fail_codes)
next
  case (admitted keys ex m6 nxt member ex')
  let ?c = "closeEntry (settled st key (pc_entry ch)) (pc_entry ch)"
  have c: "pshape ?c" by (rule safe_shape [OF closeEntry_safe [OF settled_shape(1) [OF pinvD(1) [OF inv] ch]]])
  have "pshape st' = pshape ?c" unfolding admitted(8) by (rule shape_cong) simp_all
  then show ?thesis using c unfolding admitted(8) by (intro admit_pinv [OF inv ch]) simp_all
qed

lemma pinv_cong:
  assumes "pinv st" "pm_ent st' = pm_ent st" "pm_nent st' = pm_nent st" "pm_codes st' = pm_codes st" "pm_channels st' = pm_channels st"
    "pm_issued st' = pm_issued st" "pm_closed st' = pm_closed st" "pm_events st' = pm_events st"
  shows "pinv st'"
  by (rule safe_pinv [OF assms(1) same_safe [OF pinvD(1) [OF assms(1)] assms(2-7), where vs = "[]"]]) (simp_all add: assms(8))

lemma onPairFrame_pinv:
  assumes inv: "pinv st"
  shows "pinv (onPairFrame ev st channel body)"
proof (cases "map_of (pm_channels st) (b64u channel)")
  case None
  then show ?thesis using inv by (simp add: onPairFrame_def)
next
  case ch: (Some ch)
  note sh = pinvD(1) [OF inv]
  note fail = failAttempt_pinv [OF inv ch]
  have e: "pc_entry ch < pm_nent st" and p5: "pc_stage ch = stageP5 \<Longrightarrow> pc_claimed ch" using tablesD(4) [OF shapeD(1) [OF sh] ch] by simp_all
  have send: "safe st (primary_sendPair st ch m)" for m by (rule same_safe [OF sh, where vs = "[]"]) simp_all
  show ?thesis
  proof (cases "pc_stage ch")
    case stageP1
    obtain r ex where o: "onP1 (ev_suite ev) (pc_ex ch) body = (r, ex)" by fastforce
    have "safe (primary_sendPair st ch m) (set_channel (primary_sendPair st ch m) (b64u channel) (ch\<lparr>pc_ex := ex, pc_stage := stageP3\<rparr>))" for m
      by (rule set_channel_safe [OF safe_shape [OF send]]) (simp_all add: ch)
    then have "pinv (set_channel (primary_sendPair st ch m) (b64u channel) (ch\<lparr>pc_ex := ex, pc_stage := stageP3\<rparr>))" for m
      by (rule safe_pinv [OF inv safe_trans [OF send]])
    then show ?thesis using fail by (cases r) (simp_all add: onPairFrame_def ch stageP1 o)
  next
    case stageP3
    obtain r ex where o: "onP3 (ev_suite ev) (ev_aead ev) (pc_ex ch) body = (r, ex)" by fastforce
    let ?free = "\<not> (oc_claimed (pm_ent st (pc_entry ch)) \<or> oc_burned (pm_ent st (pc_entry ch)))"
    define ch' where "ch' = ch\<lparr>pc_ex := ex, pc_claimed := True\<rparr>"
    define c where "c = upd_e st (pc_entry ch) (\<lambda>x. x\<lparr>oc_claimed := True\<rparr>)"
    have claim: "pinv (set_channel c (b64u channel) x)" if ?free "pc_entry x = pc_entry ch" "pc_claimed x" for x
      unfolding c_def by (rule claim_pinv [OF inv ch]) (use that in simp_all)
    have next5: "pinv (set_channel (primary_sendPair c ch' m) (b64u channel) (ch'\<lparr>pc_stage := stageP5\<rparr>))" if ?free for m
      by (rule pinv_cong [OF claim [OF that, of "ch'\<lparr>pc_stage := stageP5\<rparr>"]]) (simp_all add: ch'_def)
    have broken: "pinv (failAttempt (set_channel c (b64u channel) ch') (b64u channel) ch' f)" if ?free for f
      by (rule failAttempt_pinv [OF claim [OF that]]) (simp_all add: ch'_def AList.update_conv)
    have used: "pinv (primary_endChannel st (b64u channel) FailUsed True)" by (rule safe_pinv [OF inv endChannel_safe [OF sh]]) (simp add: fail_codes)
    show ?thesis
    proof (cases "r = Some True")
      case True
      then show ?thesis using used next5 broken by (simp add: onPairFrame_def Let_def ch stageP3 o c_def ch'_def split: option.split)
    next
      case False
      then show ?thesis using fail by (cases r) (simp_all add: onPairFrame_def ch stageP3 o)
    qed
  next
    case stageP5
    then show ?thesis using fail completePairing_pinv [OF inv ch p5 [OF stageP5]]
      by (cases "completePairing ev st (b64u channel) ch body") (simp_all add: onPairFrame_def Let_def ch)
  qed (simp add: onPairFrame_def ch inv)
qed

section \<open>Runs of a primary\<close>

text \<open>\<open>newPrimaryState\<close>: nothing open, nothing in flight.\<close>

definition newPrimaryState :: "SignedRoster \<Rightarrow> int \<Rightarrow> int \<Rightarrow> 'k primary" where
  "newPrimaryState r now wall =
     \<lparr>pm_roster = r, pm_mono = now, pm_wall = wall,
      pm_ent = (\<lambda>_. \<lparr>oc_code = [], oc_codeID = [], oc_expiresAt = 0, oc_failed = 0, oc_inFlight = 0, oc_claimed = False, oc_burned = False, oc_setups = bucket_zero\<rparr>),
      pm_nent = 0, pm_codes = [], pm_channels = [], pm_refusals = bucket_zero, pm_issued = [], pm_closed = [], pm_out = [], pm_events = [], pm_calls = []\<rparr>"

inductive pstep :: "('p, 'k) env \<Rightarrow> 'k primary \<Rightarrow> 'k primary \<Rightarrow> bool" for ev where
  open_code: "pstep ev st (snd (OpenPairingCode ev st lifetime chosen separate fresh draws))"
| cancel_code: "pstep ev st (CancelPairingCode st i)"
| revoke: "pstep ev st (snd (Revoke ev st i))"
| resign: "pstep ev st (onResign ev st from body)"
| pairing: "pstep ev st (onPairing ev st key i draws)"
| frame: "pstep ev st (onPairFrame ev st channel body)"
| pair_end: "pstep ev st (onPairEnd st key)"
| timed_out: "pstep ev st (pair_timeout st key)"
| connection_lost: "pstep ev st (onConnectionLost st)"
| stopped: "pstep ev st (stop st)"
| adopted: "pstep ev st (st\<lparr>pm_roster := r\<rparr>)"
| clock: "pm_mono st \<le> now \<Longrightarrow> pstep ev st (st\<lparr>pm_mono := now, pm_wall := wall\<rparr>)"
| map_order: "mset codes' = mset (pm_codes st) \<Longrightarrow> mset channels' = mset (pm_channels st) \<Longrightarrow> pstep ev st (st\<lparr>pm_codes := codes', pm_channels := channels'\<rparr>)"

inductive preach :: "('p, 'k) env \<Rightarrow> 'k primary \<Rightarrow> bool" for ev where
  start: "preach ev (newPrimaryState r now wall)"
| step: "preach ev st \<Longrightarrow> pstep ev st st' \<Longrightarrow> preach ev st'"

lemma newPrimaryState_pinv: "pinv (newPrimaryState r now wall)"
  by (simp add: pinv_def pshape_def tables_ok_def bounds_ok_def events_ok_def newPrimaryState_def closedCodes_def paired_with_def wrong_codes_def opened_def)

lemma filter_mset_length: "mset xs = mset ys \<Longrightarrow> length (filter P xs) = length (filter P ys)"
  by (metis mset_filter size_mset)

lemma reorder_pinv:
  assumes inv: "pinv st" and c: "mset cs = mset (pm_codes st)" and h: "mset hs = mset (pm_channels st)"
  shows "pinv (st\<lparr>pm_codes := cs, pm_channels := hs\<rparr>)" (is "pinv ?z")
proof -
  have n: "chans ?z e = chans st e" "claims ?z e = claims st e" for e by (simp_all add: chans_def claims_def filter_mset_length [OF h])
  have "mset (map fst cs) = mset (map fst (pm_codes st))" "mset (map fst hs) = mset (map fst (pm_channels st))" using c h by simp_all
  then have "distinct (map fst cs) = distinct (map fst (pm_codes st))" "distinct (map fst hs) = distinct (map fst (pm_channels st))"
    using mset_eq_imp_distinct_iff by blast+
  then have "tables_ok ?z" using shapeD(1) [OF pinvD(1) [OF inv]] mset_eq_setD [OF c] mset_eq_setD [OF h] by (simp add: tables_ok_def)
  moreover have "entry_ok ?z e = entry_ok st e" "admitted ?z e = admitted st e" "burned_ok ?z e = burned_ok st e" for e
    by (simp_all add: entry_ok_def admitted_def burned_ok_def n)
  ultimately show ?thesis using inv by (simp add: pinv_def pshape_def bounds_ok_def events_ok_def paired_with_def wrong_codes_def opened_def)
qed

lemma pstep_pinv:
  assumes "covers (ev_walk ev)" "pstep ev st st'" "pinv st"
  shows "pinv st'"
  using assms(2)
proof cases
  case (frame channel body)
  then show ?thesis using onPairFrame_pinv [OF assms(3)] by simp
next
  case (adopted r)
  then show ?thesis using pinv_cong [OF assms(3)] by simp
next
  case (clock now wall)
  then show ?thesis using pinv_cong [OF assms(3)] by simp
next
  case (map_order cs hs)
  then show ?thesis using reorder_pinv [OF assms(3)] by simp
qed (use pinvD(1) [OF assms(3)] in \<open>auto intro!: safe_pinv [OF assms(3)] OpenPairingCode_safe CancelPairingCode_safe Revoke_safe onResign_safe
       onPairing_safe [OF assms(1)] onPairEnd_safe pair_timeout_safe onConnectionLost_safe stop_safe\<close>)

lemma preach_pinv:
  assumes "covers (ev_walk ev)" "preach ev st"
  shows "pinv st"
  using assms(2) by induction (simp_all add: newPrimaryState_pinv pstep_pinv [OF assms(1)])

lemma wrong_bound:
  assumes "pinv st"
  shows "wrong_codes st c \<le> 5 * card (opened st c)"
proof -
  have "int (wrong_codes st c) \<le> (\<Sum>e\<in>opened st c. oc_failed (pm_ent st e))" using pinvD(3) [OF assms] by (simp add: events_ok_def)
  also have "\<dots> \<le> (\<Sum>e\<in>opened st c. 5)"
    using shapeD(2) [OF pinvD(1) [OF assms]] by (intro sum_mono) (fastforce simp: opened_def entry_ok_def CodeAttempts_def)
  finally show ?thesis by simp
qed

section \<open>What a code admits\<close>

text \<open>A primary that opened its default code: a concrete run for the properties below.\<close>

definition demo_env :: "(residue, bytes) env" where
  "demo_env = \<lparr>ev_suite = residues, ev_aead = demo_aead, ev_dec = demo_reader, ev_pr = demo_pr,
     ev_key = \<lparr>nk_seed = replicate 32 9, nk_id = u_Network demo_roster, nk_edPub = replicate 32 1\<rparr>, ev_self = id_ID demo_identity, ev_url = ''wss://a'', ev_walk = map fst\<rparr>"

definition demo_primary :: "bytes primary" where
  "demo_primary = snd (OpenPairingCode demo_env (newPrimaryState (demo_roster\<lparr>u_Members := []\<rparr>) 0 0) 0 ''K7F2M9QX'' False [] [])"

lemma demo_run: "covers (ev_walk demo_env)" "preach demo_env demo_primary"
  unfolding demo_primary_def by (simp add: covers_def demo_env_def) (rule preach.step [OF preach.start pstep.open_code])

lemma demo_primary_open: "pm_nent demo_primary = 1" "pm_codes demo_primary = [(DefaultCodeID, 0)]" "oc_codeID (pm_ent demo_primary 0) = DefaultCodeID"
proof -
  let ?st = "newPrimaryState (demo_roster\<lparr>u_Members := []\<rparr>) 0 0 :: bytes primary"
  let ?p = "\<lparr>id_ID = NodeIDFromEd25519 (pr_sha demo_pr) (replicate 32 0), id_edPub = replicate 32 0, id_xPub = replicate 32 0\<rparr> :: Identity"
  let ?r = "signed_roster (nextUnsigned ?st [placeholderMember]) sig_room []"
  have m: "placeholderMember = MemberFromIdentity ?p"
    by (simp add: placeholderMember_def MemberFromIdentity_def demo_pr_def NodeIDFromEd25519_def) code_simp
  have "one_member demo_pr ?p (replicate 32 1) ?r"
    by (simp add: one_member_def m newPrimaryState_def nextUnsigned_def next_unsigned_def signed_roster_def demo_roster_def demo_identity_def Let_def) (simp add: demo_pr_def NodeIDFromEd25519_def ascii_valid ascii_def)
  moreover have "identity_ok demo_pr ?p" "length (replicate 32 (1 :: 8 word)) = 32" "plain (s_Signature ?r)" "length (s_Signature ?r) \<le> 128"
    by (simp_all add: identity_ok_def signed_roster_def sig_room_def plain_def list_all_iff)
  ultimately obtain w where "appendJCS (JObj (roster_tree ?r True)) = Some w" "length w \<le> MaxRosterBytes"
    using one_member_size [OF demo_ok(1)] by blast
  then have sz: "sizeWith ?st [placeholderMember] = Some (length w)" "\<not> length w > MaxRosterBytes" by (simp_all add: sizeWith_def Roster_Size_def Roster_JCS_def del: appendJCS.simps)
  have "IsNodeID (u_Network demo_roster)" using derived_ID(1) [OF demo_ok(1)] by (simp add: demo_roster_def)
  then obtain l where l: "BuildPairingLink \<lparr>lk_Network = u_Network demo_roster, lk_Code = ''K7F2M9QX'', lk_CodeID = DefaultCodeID, lk_Relay = ''wss://a''\<rparr> = Some l"
    using NormalizeCode_canonical [OF demo_code] by (simp add: BuildPairingLink_def pairingParams_def guard_def)
  have "pruneCodes ?st = ?st" by (simp add: pruneCodes_def newPrimaryState_def)
  then show "pm_nent demo_primary = 1" "pm_codes demo_primary = [(DefaultCodeID, 0)]" "oc_codeID (pm_ent demo_primary 0) = DefaultCodeID"
    using sz l NormalizeCode_canonical [OF demo_code]
    by (simp_all add: demo_primary_def OpenPairingCode_def Let_def demo_env_def newPrimaryState_def demo_roster_def)
qed

text \<open>
  C6. A code admits one node. In every run of the primary, whatever newcomers send, whatever order maps
  are ranged over and whenever the clock moves: the nodes that paired under a code id are no more than
  the codes opened under it, and the wrong proofs it reports are at most five per code opened. So a
  newcomer who guesses has five tries a code, over every channel and connection together.
\<close>

theorem codes_admit_once:
  assumes "covers (ev_walk ev)" "preach ev st"
  shows "paired_with st c \<le> card (opened st c) \<and> wrong_codes st c \<le> 5 * card (opened st c)"
proof -
  have inv: "pinv st" by (rule preach_pinv [OF assms])
  have "paired_with st c \<le> card {e \<in> opened st c. admitted st e}" using pinvD(3) [OF inv] by (simp add: events_ok_def)
  also have "\<dots> \<le> card (opened st c)" by (intro card_mono) auto
  finally show ?thesis using wrong_bound [OF inv] by simp
qed

theorem codes_admit_once_witness:
  "preach demo_env demo_primary \<and> opened demo_primary DefaultCodeID = {0} \<and> paired_with demo_primary DefaultCodeID \<le> 1 \<and> wrong_codes demo_primary DefaultCodeID \<le> 5"
proof -
  have "opened demo_primary DefaultCodeID = {0}" using demo_primary_open by (auto simp: opened_def)
  then show ?thesis using codes_admit_once [OF demo_run, of DefaultCodeID] demo_run(2) by simp
qed

text \<open>
  C11. What the primary keeps. In every run, for every code ever opened: the channels counted in flight are
  the channels of the table, failures and channels together never pass five, at most one channel holds
  a claim on the code, and none once it is withdrawn, spent or used. An open code is known by its id,
  remembers its refusals on at most 64 channels, and at most 1024 closed ids are remembered.
\<close>

theorem code_slots:
  assumes "covers (ev_walk ev)" "preach ev st" "e < pm_nent st"
  shows "oc_inFlight (pm_ent st e) = int (length (filter (\<lambda>p. pc_entry (snd p) = e) (pm_channels st)))
     \<and> 0 \<le> oc_failed (pm_ent st e) \<and> oc_failed (pm_ent st e) + oc_inFlight (pm_ent st e) \<le> CodeAttempts
     \<and> claims st e \<le> (if oc_burned (pm_ent st e) then 0 else 1)
     \<and> (map_of (pm_codes st) i = Some e \<longrightarrow> oc_codeID (pm_ent st e) = i \<and> (\<exists>ic. map_of (pm_issued st) i = Some ic \<and> length (ic_answered ic) \<le> channelsPerCode))
     \<and> length (pm_closed st) \<le> closedCodes"
proof -
  have inv: "pinv st" by (rule preach_pinv [OF assms(1,2)])
  note sh = pinvD(1) [OF inv]
  have "entry_ok st e" by (rule shapeD(2) [OF sh assms(3)])
  moreover have "claims st e \<le> (if oc_burned (pm_ent st e) then 0 else 1)"
    using pinvD(2) [OF inv assms(3)] \<open>entry_ok st e\<close> by (auto simp: burned_ok_def entry_ok_def split: if_splits)
  moreover have "bounds_ok st" by (rule shapeD(3) [OF sh])
  ultimately show ?thesis using tablesD(3) [OF shapeD(1) [OF sh], of i e] by (auto simp: entry_ok_def chans_def bounds_ok_def)
qed

theorem code_slots_witness:
  "oc_failed (pm_ent demo_primary 0) + oc_inFlight (pm_ent demo_primary 0) \<le> CodeAttempts
     \<and> (\<exists>ic. map_of (pm_issued demo_primary) DefaultCodeID = Some ic \<and> length (ic_answered ic) \<le> channelsPerCode)"
  using code_slots [OF demo_run, of 0 DefaultCodeID] demo_primary_open by simp

section \<open>The rosters a primary signs\<close>

text \<open>A roster that follows another: one that whoever holds the first accepts, with the members given.\<close>

definition follows :: "primitives \<Rightarrow> SignedRoster \<Rightarrow> RosterMember list \<Rightarrow> SignedRoster \<Rightarrow> bool" where
  "follows pr prev members nxt \<longleftrightarrow> AcceptanceProblem pr nxt (u_NetworkKey prev) (u_Version prev) = Some () \<and> u_Version nxt = u_Version prev + 1
     \<and> u_Network nxt = u_Network prev \<and> u_Primary nxt = u_Primary prev \<and> u_Relay nxt = u_Relay prev \<and> u_IssuedAt prev \<le> u_IssuedAt nxt
     \<and> mset (u_Members nxt) = mset members"

lemma nextRoster_follows:
  assumes "nextRoster ev st members = Inr r"
  shows "follows (ev_pr ev) (pm_roster st) members r"
proof -
  have s: "SignRoster (ev_pr ev) (nextUnsigned st members) (ev_key ev) = Some r" using assms by (simp add: nextRoster_def split: option.splits if_splits)
  then have "Problem (ev_pr ev) r = Some ()" by (auto simp: SignRoster_def Let_def bind_eq_Some_conv)
  moreover have "\<exists>sg. r = signed_roster ((nextUnsigned st members)\<lparr>u_Members := sort_key rm_ID (u_Members (nextUnsigned st members))\<rparr>) sg []"
    using s by (auto simp: SignRoster_def Let_def bind_eq_Some_conv)
  ultimately show ?thesis by (auto simp: follows_def AcceptanceProblem_def signed_roster_def nextUnsigned_def next_unsigned_def Let_def guard_def)
qed

lemma member_of_in: "member_of r i = Some m \<Longrightarrow> i \<in> rm_ID ` set (u_Members r)"
  by (auto simp: member_of_def member_in_def Let_def find_Some_iff split: if_splits) (metis imageI nth_mem)

text \<open>
  C39. Members leave as they should. Revoking a node, and a resignation received, either change nothing at all or
  publish one roster: the next version, signed, without that node and with everyone else, which every member that
  holds the last one accepts. The primary cannot revoke itself nor resign, and a resignation counts only from a
  member, signed with its own key, for this network and within five minutes of the clock.
\<close>

theorem removals_follow:
  "(case Revoke ev st i of
      (Inl e, st') \<Rightarrow> st' = st
    | (Inr r, st') \<Rightarrow> i \<noteq> ev_self ev \<and> i \<in> rm_ID ` set (u_Members (pm_roster st)) \<and> st' = publish st r []
        \<and> follows (ev_pr ev) (pm_roster st) (filter (\<lambda>m. rm_ID m \<noteq> i) (u_Members (pm_roster st))) r)
   \<and> (onResign ev st from body = st
      \<or> (\<exists>z m pub r. parseResignation (ev_dec ev) (bytes_str body) = Some z \<and> rs_Node z = from \<and> \<bar>pm_wall st - rs_TS z\<bar> \<le> 300000
           \<and> member_of (pm_roster st) from = Some m \<and> from \<noteq> u_Primary (pm_roster st) \<and> fromB64uLen (rm_Ed25519 m) 32 = Some pub
           \<and> verifyResignation (ev_pr ev) z (u_Network (pm_roster st)) pub \<and> onResign ev st from body = publish st r []
           \<and> follows (ev_pr ev) (pm_roster st) (filter (\<lambda>m. rm_ID m \<noteq> from) (u_Members (pm_roster st))) r))"
proof (rule conjI)
  show "case Revoke ev st i of
      (Inl e, st') \<Rightarrow> st' = st
    | (Inr r, st') \<Rightarrow> i \<noteq> ev_self ev \<and> i \<in> rm_ID ` set (u_Members (pm_roster st)) \<and> st' = publish st r []
        \<and> follows (ev_pr ev) (pm_roster st) (filter (\<lambda>m. rm_ID m \<noteq> i) (u_Members (pm_roster st))) r"
    using nextRoster_follows [of ev st "withoutMember (u_Members (pm_roster st)) i"] member_of_in [of "pm_roster st" i]
    by (auto simp: Revoke_def withoutMember_def split: sum.splits prod.splits if_splits)
  show "onResign ev st from body = st
      \<or> (\<exists>z m pub r. parseResignation (ev_dec ev) (bytes_str body) = Some z \<and> rs_Node z = from \<and> \<bar>pm_wall st - rs_TS z\<bar> \<le> 300000
           \<and> member_of (pm_roster st) from = Some m \<and> from \<noteq> u_Primary (pm_roster st) \<and> fromB64uLen (rm_Ed25519 m) 32 = Some pub
           \<and> verifyResignation (ev_pr ev) z (u_Network (pm_roster st)) pub \<and> onResign ev st from body = publish st r []
           \<and> follows (ev_pr ev) (pm_roster st) (filter (\<lambda>m. rm_ID m \<noteq> from) (u_Members (pm_roster st))) r)"
    using nextRoster_follows [of ev st "withoutMember (u_Members (pm_roster st)) from"]
    by (auto simp: onResign_def withoutMember_def resignSkewMs_def split: option.split sum.split)
qed

lemma quiet_end:
  assumes "f \<noteq> FailWrongCode"
  shows "pm_roster (primary_endChannel st key f tr) = pm_roster st" "\<exists>vs. pm_events (primary_endChannel st key f tr) = pm_events st @ vs \<and> list_all quiet_event vs"
  using assms by (simp_all add: primary_endChannel_def drop_channel_def upd_e_def send_out_def emit_def Let_def split: option.split prod.split)

lemma failAttempt_end:
  "pm_roster (failAttempt st key ch f) = pm_roster st" "\<exists>i. pm_events (failAttempt st key ch f) = pm_events st @ [PairingFailedEvent i f]"
proof -
  have "pm_roster (closeEntry st e) = pm_roster st" for st :: "'a primary" and e by (simp add: closeEntry_def closeCode_def Let_def split: prod.split)
  then show "pm_roster (failAttempt st key ch f) = pm_roster st" by (simp add: failAttempt_def drop_channel_def upd_e_def send_out_def emit_def Let_def)
  show "\<exists>i. pm_events (failAttempt st key ch f) = pm_events st @ [PairingFailedEvent i f]" by (simp add: failAttempt_def Let_def)
qed

lemma closeEntry_closes: "map_of (pm_codes (closeEntry st e)) (oc_codeID (pm_ent st e)) \<noteq> Some e"
  by (simp add: closeEntry_def closeCode_def Let_def AList.delete_conv' split: prod.split)

definition failure_event :: "pair_event \<Rightarrow> bool" where
  "failure_event v \<longleftrightarrow> (\<exists>c f. v = PairingFailedEvent c f)"

lemma quiet_failure: "list_all quiet_event vs \<Longrightarrow> list_all failure_event vs"
  by (induction vs) (auto simp: quiet_event_def failure_event_def)

text \<open>A frame that reports at most failures.\<close>

definition no_admission :: "'k primary \<Rightarrow> 'k primary \<Rightarrow> bool" where
  "no_admission st st' \<longleftrightarrow> pm_roster st' = pm_roster st \<and> (\<exists>vs. pm_events st' = pm_events st @ vs \<and> list_all failure_event vs)"

lemma no_admission_end: "f \<noteq> FailWrongCode \<Longrightarrow> no_admission st (primary_endChannel st key f tr)"
  using quiet_end [of f st key tr] quiet_failure by (auto simp: no_admission_def)

lemma no_admission_same: "pm_roster st' = pm_roster st \<Longrightarrow> pm_events st' = pm_events st \<Longrightarrow> no_admission st st'"
  by (simp add: no_admission_def)

lemma no_admission_fail: "pm_roster st' = pm_roster st \<Longrightarrow> pm_events st' = pm_events st \<Longrightarrow> no_admission st (failAttempt st' key ch f)"
  using failAttempt_end [of st' key ch f] by (auto simp: no_admission_def failure_event_def)

lemma sends_roster [simp]: "pm_roster (primary_sendPair st ch m) = pm_roster st" "pm_roster (set_channel st key ch) = pm_roster st" "pm_roster (upd_e st e f) = pm_roster st"
  by (simp_all add: primary_sendPair_def send_out_def set_channel_def upd_e_def split: option.split)

lemma early_stages:
  assumes "map_of (pm_channels st) (b64u channel) = Some ch" "pc_stage ch \<noteq> stageP5"
  shows "no_admission st (onPairFrame ev st channel body)"
proof (cases "pc_stage ch")
  case stageP1
  obtain r ex where "onP1 (ev_suite ev) (pc_ex ch) body = (r, ex)" by fastforce
  then show ?thesis using assms(1) stageP1 by (cases r) (simp_all add: onPairFrame_def no_admission_fail no_admission_same)
next
  case stageP3
  obtain r ex where o: "onP3 (ev_suite ev) (ev_aead ev) (pc_ex ch) body = (r, ex)" by fastforce
  have "FailUsed \<noteq> FailWrongCode" by (simp add: fail_codes)
  then show ?thesis using assms(1) stageP3 o no_admission_end [of FailUsed st "b64u channel" True]
    by (cases r) (auto simp: onPairFrame_def Let_def no_admission_fail no_admission_same split: option.split bool.split)
qed (use assms in \<open>simp_all add: onPairFrame_def no_admission_same\<close>)

text \<open>
  C10. What admitting a node means. A pairing frame either leaves the roster alone and reports at most failures, or is the
  sealed keys of a newcomer on a channel at its last stage: then the primary publishes one roster that follows the
  last, with every member and the newcomer, under the id its key gives, which was no member's, and the key is
  canonical and not of small order; the relay is sent that roster sealed for the newcomer, then the roster, then the channel's end;
  the channel is gone, the code is burned and no longer open, and the application is told once.
\<close>

theorem admission_exact:
  "no_admission st (onPairFrame ev st channel body)
   \<or> (\<exists>ch keys ex m r m6 ex'. map_of (pm_channels st) (b64u channel) = Some ch \<and> pc_stage ch = stageP5 \<and> onP5 (ev_aead ev) (ev_dec ev) (pc_ex ch) body = (Some keys, ex)
        \<and> canonicalEd25519 (nk_ed25519 keys) \<and> \<not> smallOrderEd25519 (nk_ed25519 keys)
        \<and> m = \<lparr>rm_ID = NodeIDFromEd25519 (pr_sha (ev_pr ev)) (nk_ed25519 keys), rm_Ed25519 = b64u (nk_ed25519 keys), rm_X25519 = b64u (nk_x25519 keys), rm_extra = []\<rparr>
        \<and> member_of (pm_roster st) (rm_ID m) = None \<and> follows (ev_pr ev) (pm_roster st) (u_Members (pm_roster st) @ [m]) r \<and> p6 (ev_aead ev) ex r = (Some m6, ex')
        \<and> pm_roster (onPairFrame ev st channel body) = r \<and> map_of (pm_channels (onPairFrame ev st channel body)) (b64u channel) = None
        \<and> oc_burned (pm_ent (onPairFrame ev st channel body) (pc_entry ch))
        \<and> map_of (pm_codes (onPairFrame ev st channel body)) (oc_codeID (pm_ent st (pc_entry ch))) \<noteq> Some (pc_entry ch)
        \<and> pm_out (onPairFrame ev st channel body) = pm_out (publish (primary_sendPair st ch m6) r (rm_ID m)) @ [PairEnd (b64u channel)]
        \<and> pm_events (onPairFrame ev st channel body) = pm_events st @ [PairedEvent m (oc_codeID (pm_ent st (pc_entry ch))) r])"
proof (cases "map_of (pm_channels st) (b64u channel)")
  case None
  then show ?thesis by (simp add: onPairFrame_def no_admission_same)
next
  case ch: (Some ch)
  show ?thesis
  proof (cases "pc_stage ch = stageP5 \<and> completePairing ev st (b64u channel) ch body \<noteq> None")
    case False
    then show ?thesis using early_stages [OF ch] by (cases "pc_stage ch") (auto simp: onPairFrame_def ch Let_def no_admission_fail)
  next
    case True
    then obtain st' where c: "completePairing ev st (b64u channel) ch body = Some st'" and z: "onPairFrame ev st channel body = st'" by (auto simp: onPairFrame_def ch)
    show ?thesis using c
    proof (cases rule: completePairing_cases)
      case (ended f)
      then have "f \<noteq> FailWrongCode" by (auto simp: fail_codes)
      then show ?thesis using no_admission_end [of f st "b64u channel" True] ended(2) z by simp
    next
      case (admitted keys ex m6 nxt member ex')
      let ?s = "settled st (b64u channel) (pc_entry ch)"
      have "pm_roster st' = nxt" by (simp add: admitted(8) emit_def send_out_def publish_def pushHeld_def Let_def split: option.split)
      moreover have "map_of (pm_codes st') (oc_codeID (pm_ent st (pc_entry ch))) \<noteq> Some (pc_entry ch)"
        using closeEntry_closes [of ?s "pc_entry ch"] by (simp add: admitted(8))
      moreover have "map_of (pm_channels st') (b64u channel) = None" "oc_burned (pm_ent st' (pc_entry ch))"
        "pm_events st' = pm_events st @ [PairedEvent member (oc_codeID (pm_ent st (pc_entry ch))) nxt]"
        by (simp_all add: admitted(8) AList.delete_conv')
      moreover have "pm_out st' = pm_out (publish (primary_sendPair st ch m6) nxt (rm_ID member)) @ [PairEnd (b64u channel)]"
        by (simp add: admitted(8) emit_def send_out_def publish_def pushHeld_def primary_sendPair_def settled_def upd_e_def closeEntry_def closeCode_def Let_def split: option.split prod.split)
      ultimately show ?thesis using True ch z admitted(1-5,7) nextRoster_follows [OF admitted(6)] by blast
    qed
  qed
qed

end
