(* ===== verification/Member_Relay.thy ===== *)
theory Member_Relay
  imports Pairing_Primary Session_State
begin

text \<open>
  A member's connection to its relay and the roster it holds (\<open>client-go/relay.go\<close>, \<open>client-go/role.go\<close> and the parts of
  \<open>client-go/member.go\<close> around them): dialling, registration, reconnecting with backoff, the terminal states, adopting
  rosters, being the primary, sends that wait for the relay, and asking the primary for its roster. A socket is
  known by its number; its writer (\<open>transport.go\<close>) is the parameter \<open>me_accepts\<close>, which says what the queue takes. Work
  queued for the end of a locked section is a value of \<open>mtask\<close>. A running timer is the time it is due on the member's
  monotonic clock, with the socket it was started for; one that is not running is \<open>None\<close>. \<open>mb_opened\<close> is history: when
  each socket opened. Calls into the session
  manager and the primary's state, events and what goes to the socket are logs. Parsing of URLs and JSON tokens,
  the identity's signature and \<open>encoding/json\<close>'s rendering of a value are parameters.
\<close>

section \<open>State\<close>

datatype State = StateConnecting | StateConnected | StateDisconnected | StateRevoked | StateReplaced | StateClosed

definition terminal :: "State \<Rightarrow> bool" where
  "terminal s \<longleftrightarrow> s = StateClosed \<or> s = StateRevoked \<or> s = StateReplaced"

definition CloseNormal :: nat where "CloseNormal = 1000"
definition CloseBadRequest :: nat where "CloseBadRequest = 4000"
definition CloseReplaced :: nat where "CloseReplaced = 4005"
definition CloseNotMember :: nat where "CloseNotMember = 4008"
definition CloseMoved :: nat where "CloseMoved = 4009"

definition maxControlBytes :: nat where "maxControlBytes = 131072"
definition maxRelayErrorField :: nat where "maxRelayErrorField = 1024"
definition hintWaitMin :: int where "hintWaitMin = Second"
definition hintWaitMax :: int where "hintWaitMax = 5 * 60 * Second"

definition revokedError :: Error where
  "revokedError = \<lparr>e_Code = CodeRevoked, e_Message = ''this node is not a member of the network'', e_Peer = [], e_Reason = 0\<rparr>"

definition replacedError :: Error where
  "replacedError = \<lparr>e_Code = CodeReplaced, e_Message = ''a newer connection for this node replaced this one'', e_Peer = [], e_Reason = 0\<rparr>"

definition terminalError :: "State \<Rightarrow> Error option" where
  "terminalError s =
     (case s of StateRevoked \<Rightarrow> Some revokedError | StateReplaced \<Rightarrow> Some replacedError | StateClosed \<Rightarrow> Some (closedError []) | _ \<Rightarrow> None)"

record Shaping =
  sh_RateBps :: int
  sh_Slowed :: bool

datatype member_event =
    StateEvent State | RosterEvent SignedRoster | DisconnectEvent nat | MovedEvent string | RelayErrorEvent string string string | ShapingEvent Shaping

datatype out_call =
    SessRosterAdded SignedRoster SignedRoster | SessRosterChanged | SessDropAll Error | SessClose | SessSetRate int | SessRequest string bool | SessFrame frame string
  | PrimNew | PrimStop | PrimState State | PrimControl "(string \<times> json) list" | PrimFrame bytes bytes | PrimResign string bytes
  | CallSendRoster string | CallAdmit nat | CallWaiter nat

datatype mtask = TaskClaim | TaskAsk | TaskOffline | TaskAbandon nat | TaskWaiter nat

datatype sock_out = OutText string | OutBinary bytes | OutClose nat

record member =
  mb_roster :: SignedRoster
  mb_mono :: int
  mb_wall :: int
  mb_prim :: bool
  mb_claiming :: bool
  mb_state :: State
  mb_url :: string
  mb_ch :: "nat option"
  mb_nch :: nat
  mb_gen :: nat
  mb_dials :: "nat list"
  mb_resolving :: "nat list"
  mb_timer :: "int option"
  mb_backoff :: int
  mb_features :: "string list"
  mb_challenge :: "bytes option"
  mb_stopping :: bool
  mb_regTimer :: "(nat \<times> int) option"
  mb_liveTimer :: "(nat \<times> int) option"
  mb_opened :: "nat \<Rightarrow> int"
  mb_lastRead :: "nat \<Rightarrow> int"
  mb_waiters :: "nat list"
  mb_textSent :: int
  mb_textReceived :: int
  mb_tasks :: "mtask list"
  mb_shaping :: Shaping
  mb_relayErrors :: bucket
  mb_nsends :: nat
  mb_offline :: "nat list"
  mb_answers :: "(nat \<times> Error) list"
  mb_admitted :: "nat list"
  mb_asked :: "int option"
  mb_hintWait :: int
  mb_hintAnswered :: bool
  mb_hintTimer :: "int option"
  mb_hintsSent :: nat
  mb_out :: "(nat \<times> sock_out) list"
  mb_events :: "member_event list"
  mb_calls :: "out_call list"

record menv =
  me_self :: string
  me_edPub :: bytes
  me_sign :: "bytes \<Rightarrow> bytes"
  me_pinned :: string
  me_key :: "NetworkKey option"
  me_pr :: primitives
  me_dec :: "string \<Rightarrow> token list \<times> bool"
  me_marshal :: "json \<Rightarrow> string"
  me_origin :: "string \<Rightarrow> string option"
  me_url_ok :: "string \<Rightarrow> bool"
  me_resolves :: bool
  me_BackoffInitial :: int
  me_BackoffMax :: int
  me_RequestTimeout :: int
  me_liveness :: int
  me_accepts :: "nat \<Rightarrow> nat \<Rightarrow> bool"
  me_overflowed :: "nat \<Rightarrow> nat \<Rightarrow> bool"

definition mcall :: "member \<Rightarrow> out_call \<Rightarrow> member" where
  "mcall st c = st\<lparr>mb_calls := mb_calls st @ [c]\<rparr>"

definition raise :: "member \<Rightarrow> member_event \<Rightarrow> member" where
  "raise st v = st\<lparr>mb_events := mb_events st @ [v]\<rparr>"

definition queue_task :: "member \<Rightarrow> mtask \<Rightarrow> member" where
  "queue_task st t = st\<lparr>mb_tasks := mb_tasks st @ [t]\<rparr>"

definition put :: "member \<Rightarrow> nat \<Rightarrow> sock_out \<Rightarrow> member" where
  "put st ch m = st\<lparr>mb_out := mb_out st @ [(ch, m)]\<rparr>"

section \<open>Sending\<close>

text \<open>The writer's answer may depend on all it was given; an overflow gives the connection up, as a task.\<close>

definition ch_send :: "menv \<Rightarrow> member \<Rightarrow> nat \<Rightarrow> sock_out \<Rightarrow> bool \<times> member" where
  "ch_send ev st ch m = (if me_accepts ev ch (length (mb_out st)) then (True, put st ch m) else (False, st))"

definition queue :: "menv \<Rightarrow> member \<Rightarrow> nat \<Rightarrow> sock_out \<Rightarrow> bool \<times> member" where
  "queue ev st ch m =
     (case ch_send ev st ch m of
        (True, st) \<Rightarrow> (True, st)
      | (False, st) \<Rightarrow> (False, if me_overflowed ev ch (length (mb_out st)) then queue_task st (TaskAbandon ch) else st))"

definition relay_sendBinary :: "menv \<Rightarrow> member \<Rightarrow> bytes \<Rightarrow> bool \<times> member" where
  "relay_sendBinary ev st b =
     (case mb_ch st of None \<Rightarrow> (False, st) | Some ch \<Rightarrow> if mb_state st = StateConnected then queue ev st ch (OutBinary b) else (False, st))"

definition relay_sendControl :: "menv \<Rightarrow> member \<Rightarrow> string \<Rightarrow> bool \<times> member" where
  "relay_sendControl ev st msg =
     (case mb_ch st of
        None \<Rightarrow> (False, st)
      | Some ch \<Rightarrow>
          if mb_state st \<noteq> StateConnected \<or> length msg > maxControlBytes then (False, st)
          else case queue ev st ch (OutText msg) of
                 (True, st) \<Rightarrow> (True, st\<lparr>mb_textSent := mb_textSent st + int (length msg)\<rparr>)
               | (False, st) \<Rightarrow> (False, st))"

section \<open>States\<close>

text \<open>In a terminal state the sessions close, and the sends that wait for the relay fail.\<close>

definition end_waiting :: "member \<Rightarrow> State \<Rightarrow> member" where
  "end_waiting st s =
     (if terminal (mb_state st)
      then (mcall st SessClose)\<lparr>mb_offline := [], mb_answers := mb_answers st @ map (\<lambda>m. (m, the (terminalError s))) (mb_offline st)\<rparr>
      else st)"

definition onRelayState :: "member \<Rightarrow> State \<Rightarrow> member" where
  "onRelayState st s =
     (let st = (if s \<noteq> StateConnected
                then mcall st (SessDropAll (case s of StateRevoked \<Rightarrow> revokedError | StateReplaced \<Rightarrow> replacedError | StateClosed \<Rightarrow> closedError []
                       | _ \<Rightarrow> closedError ''relay connection lost''))
                else st);
          st = end_waiting st s;
          st = (if mb_prim st then mcall st (PrimState s) else st);
          st = raise st (StateEvent s);
          st = (if s = StateConnected \<and> mb_claiming st then queue_task (st\<lparr>mb_claiming := False\<rparr>) TaskClaim else st)
      in if s = StateConnected \<and> mb_offline st \<noteq> [] then queue_task st TaskOffline else st)"

definition setState :: "member \<Rightarrow> State \<Rightarrow> member" where
  "setState st s = (if mb_state st = s then st else onRelayState (st\<lparr>mb_state := s\<rparr>) s)"

definition schedule :: "menv \<Rightarrow> member \<Rightarrow> member" where
  "schedule ev st =
     (if mb_state st \<noteq> StateDisconnected then st
      else st\<lparr>mb_timer := Some (mb_mono st + mb_backoff st), mb_backoff := min (mb_backoff st * 2) (me_BackoffMax ev)\<rparr>)"

definition afterClose :: "menv \<Rightarrow> member \<Rightarrow> nat \<Rightarrow> member" where
  "afterClose ev st code =
     (if terminal (mb_state st) \<or> mb_stopping st then st
      else if code = CloseNotMember then setState st StateRevoked
      else if code = CloseReplaced then setState st StateReplaced
      else let st = setState st StateDisconnected
           in if code = CloseMoved
              then let st = raise st (MovedEvent (u_Network (mb_roster st)))
                   in if me_resolves ev then st\<lparr>mb_resolving := mb_gen st # mb_resolving st\<rparr> else schedule ev st
              else schedule ev st)"

definition onClose :: "menv \<Rightarrow> member \<Rightarrow> nat \<Rightarrow> nat \<Rightarrow> member" where
  "onClose ev st ch code =
     (if mb_ch st \<noteq> Some ch then st
      else let st = st\<lparr>mb_ch := None, mb_regTimer := None, mb_liveTimer := None, mb_waiters := [], mb_tasks := mb_tasks st @ map TaskWaiter (mb_waiters st)\<rparr>
           in afterClose ev (raise st (DisconnectEvent code)) code)"

definition closeChannel :: "menv \<Rightarrow> member \<Rightarrow> nat \<Rightarrow> member" where
  "closeChannel ev st code = (case mb_ch st of None \<Rightarrow> st | Some ch \<Rightarrow> onClose ev (put st ch (OutClose code)) ch code)"

definition relay_stop :: "menv \<Rightarrow> member \<Rightarrow> State \<Rightarrow> member" where
  "relay_stop ev st s = setState (closeChannel ev (st\<lparr>mb_timer := None, mb_stopping := True\<rparr>) CloseNormal) s"

definition relay_close :: "menv \<Rightarrow> member \<Rightarrow> member" where
  "relay_close ev st = (if mb_state st = StateClosed then st else relay_stop ev st StateClosed)"

definition revoke :: "menv \<Rightarrow> member \<Rightarrow> member" where
  "revoke ev st = (if terminal (mb_state st) then st else relay_stop ev st StateRevoked)"

definition abandon :: "menv \<Rightarrow> member \<Rightarrow> nat \<Rightarrow> member" where
  "abandon ev st ch = onClose ev (put st ch (OutClose CloseNormal)) ch 1006"

section \<open>Dialling\<close>

definition dial :: "member \<Rightarrow> member" where
  "dial st =
     (let st = setState st StateConnecting
      in if mb_state st \<noteq> StateConnecting then st
         else st\<lparr>mb_features := [], mb_challenge := None, mb_gen := Suc (mb_gen st), mb_dials := Suc (mb_gen st) # mb_dials st\<rparr>)"

definition relay_start :: "member \<Rightarrow> member" where
  "relay_start st = (if mb_state st = StateDisconnected \<and> \<not> mb_stopping st then dial st else st)"

definition registrationTimeout :: "menv \<Rightarrow> int" where
  "registrationTimeout ev = max (me_RequestTimeout ev) (10 * Second)"

definition relaySilence :: int where "relaySilence = 75 * Second"

definition silence :: "menv \<Rightarrow> int" where
  "silence ev = (if me_liveness ev = 0 then relaySilence else me_liveness ev)"

text \<open>A dial of the generation \<open>g\<close> returns, with a socket or without.\<close>

definition dialed :: "menv \<Rightarrow> member \<Rightarrow> nat \<Rightarrow> bool \<Rightarrow> member" where
  "dialed ev st g ok =
     (let st = st\<lparr>mb_dials := remove1 g (mb_dials st)\<rparr>
      in if g \<noteq> mb_gen st \<or> mb_state st \<noteq> StateConnecting \<or> mb_ch st \<noteq> None then st
         else if \<not> ok then afterClose ev (raise st (DisconnectEvent 1006)) 1006
         else let ch = mb_nch st;
                  st = st\<lparr>mb_nch := Suc ch, mb_ch := Some ch, mb_opened := (mb_opened st)(ch := mb_mono st), mb_lastRead := (mb_lastRead st)(ch := mb_mono st),
                         mb_regTimer := Some (ch, mb_mono st + registrationTimeout ev)\<rparr>
              in if me_liveness ev < 0 then st else st\<lparr>mb_liveTimer := Some (ch, mb_mono st + go_quot (silence ev) 5)\<rparr>)"

text \<open>What each timer does when it fires; that it fires once it is due is in the step relation (\<open>Member_Properties\<close>).\<close>

definition dial_due :: "member \<Rightarrow> member" where
  "dial_due st =
     (case mb_timer st of None \<Rightarrow> st | Some d \<Rightarrow> let st = st\<lparr>mb_timer := None\<rparr> in if mb_state st = StateDisconnected then dial st else st)"

definition reg_due :: "menv \<Rightarrow> member \<Rightarrow> member" where
  "reg_due ev st =
     (case mb_regTimer st of
        None \<Rightarrow> st
      | Some (ch, d) \<Rightarrow> let st = st\<lparr>mb_regTimer := None\<rparr> in if mb_ch st = Some ch \<and> mb_state st = StateConnecting then abandon ev st ch else st)"

definition live_due :: "menv \<Rightarrow> member \<Rightarrow> member" where
  "live_due ev st =
     (case mb_liveTimer st of
        None \<Rightarrow> st
      | Some (ch, d) \<Rightarrow>
          let st = st\<lparr>mb_liveTimer := None\<rparr>
          in if mb_ch st \<noteq> Some ch then st
             else if mb_mono st - mb_lastRead st ch \<ge> silence ev then abandon ev st ch
             else st\<lparr>mb_liveTimer := Some (ch, mb_mono st + go_quot (silence ev) 5)\<rparr>)"

text \<open>
  The application's answer to a move: a URL, or none. The resolver is the application's code, run with a deadline of
  \<open>RequestTimeout\<close>; when it returns is up to it.
\<close>

definition resolved :: "menv \<Rightarrow> member \<Rightarrow> nat \<Rightarrow> string option \<Rightarrow> member" where
  "resolved ev st g url =
     (let st = st\<lparr>mb_resolving := remove1 g (mb_resolving st)\<rparr>
      in if g \<noteq> mb_gen st then st
         else schedule ev (case url of None \<Rightarrow> st | Some u \<Rightarrow> if u \<noteq> [] \<and> me_url_ok ev u then st\<lparr>mb_url := u\<rparr> else st))"

section \<open>Rosters and the primary's role\<close>

definition syncRole :: "menv \<Rightarrow> member \<Rightarrow> member" where
  "syncRole ev st =
     (if me_key ev \<noteq> None \<and> u_Primary (mb_roster st) = me_self ev
      then if mb_prim st then st else mcall (st\<lparr>mb_prim := True\<rparr>) PrimNew
      else if mb_prim st then mcall (st\<lparr>mb_prim := False\<rparr>) PrimStop else st)"

definition adoptRoster :: "menv \<Rightarrow> member \<Rightarrow> SignedRoster \<Rightarrow> member" where
  "adoptRoster ev st r =
     (let st = mcall st (SessRosterAdded (mb_roster st) r);
          st = st\<lparr>mb_roster := r, mb_hintWait := hintWaitMin, mb_hintAnswered := True, mb_hintTimer := None\<rparr>;
          st = raise (mcall st SessRosterChanged) (RosterEvent r);
          st = syncRole ev st
      in if member_of (mb_roster st) (me_self ev) = None then revoke ev st else st)"

definition offerRoster :: "menv \<Rightarrow> member \<Rightarrow> SignedRoster \<Rightarrow> bool \<times> member" where
  "offerRoster ev st r =
     (if AcceptanceProblem (me_pr ev) r (me_pinned ev) (u_Version (mb_roster st)) \<noteq> Some () then (False, st) else (True, adoptRoster ev st r))"

text \<open>\<open>publish\<close> and \<open>pushHeld\<close>, over the member: the relay is sent the roster, then every member but \<open>except\<close>.\<close>

definition member_publish :: "menv \<Rightarrow> member \<Rightarrow> SignedRoster \<Rightarrow> string \<Rightarrow> member" where
  "member_publish ev st r except =
     (let st = adoptRoster ev st r;
          st = (case MarshalJSON (mb_roster st) of
                  None \<Rightarrow> st
                | Some rj \<Rightarrow> snd (relay_sendControl ev st (''{'' @ (CHR 0x22 # ''type'' @ [CHR 0x22]) @ '':'' @ (CHR 0x22 # ''roster'' @ [CHR 0x22])
                               @ '','' @ (CHR 0x22 # ''roster'' @ [CHR 0x22]) @ '':'' @ rj @ ''}'')))
      in st\<lparr>mb_calls := mb_calls st @ map CallSendRoster (filter (\<lambda>i. i \<noteq> except) (map rm_ID (u_Members (mb_roster st))))\<rparr>)"

definition claim :: "menv \<Rightarrow> member \<Rightarrow> member" where
  "claim ev st =
     (case me_key ev of
        None \<Rightarrow> st
      | Some key \<Rightarrow>
          if u_Primary (mb_roster st) = me_self ev \<or> member_of (mb_roster st) (me_self ev) = None then st
          else case SignRoster (me_pr ev) ((next_unsigned (mb_roster st) (mb_wall st) (u_Members (mb_roster st)))\<lparr>u_Primary := me_self ev\<rparr>) key of
                 None \<Rightarrow> st
               | Some nxt \<Rightarrow> member_publish ev st nxt [])"

text \<open>The primary, when this node is it, publishes a roster it signed (\<open>Revoke\<close>, \<open>onResign\<close>, \<open>completePairing\<close>).\<close>

definition primary_publishes :: "menv \<Rightarrow> member \<Rightarrow> RosterMember list \<Rightarrow> string \<Rightarrow> member" where
  "primary_publishes ev st members except =
     (case me_key ev of
        None \<Rightarrow> st
      | Some key \<Rightarrow>
          if \<not> mb_prim st then st
          else case SignRoster (me_pr ev) (next_unsigned (mb_roster st) (mb_wall st) members) key of
                 None \<Rightarrow> st
               | Some nxt \<Rightarrow> member_publish ev st nxt except)"

section \<open>Asking the primary\<close>

definition askPrimary :: "menv \<Rightarrow> member \<Rightarrow> member" where
  "askPrimary ev st =
     (let primary = u_Primary (mb_roster st); now = mb_mono st; wait = (if mb_hintWait st = 0 then hintWaitMin else mb_hintWait st);
          wait = (if mb_asked st \<noteq> None \<and> \<not> mb_hintAnswered st then min (2 * wait) hintWaitMax else wait)
      in if me_self ev = primary then st
         else case mb_asked st of
           Some t \<Rightarrow>
             if now - t < wait then (if mb_hintTimer st = None then st\<lparr>mb_hintTimer := Some (now + (t + wait - now))\<rparr> else st)
             else mcall (st\<lparr>mb_hintTimer := None, mb_asked := Some now, mb_hintWait := wait, mb_hintAnswered := False, mb_hintsSent := Suc (mb_hintsSent st)\<rparr>) (SessRequest primary False)
         | None \<Rightarrow>
             mcall (st\<lparr>mb_hintTimer := None, mb_asked := Some now, mb_hintWait := wait, mb_hintAnswered := False, mb_hintsSent := Suc (mb_hintsSent st)\<rparr>) (SessRequest primary False))"

definition hint_due :: "menv \<Rightarrow> member \<Rightarrow> member" where
  "hint_due ev st = (if mb_hintTimer st = None then st else askPrimary ev (st\<lparr>mb_hintTimer := None\<rparr>))"

text \<open>A request whose failure asks the primary instead carries \<open>True\<close>.\<close>

definition onPeerVersion :: "menv \<Rightarrow> member \<Rightarrow> string \<Rightarrow> int \<Rightarrow> member" where
  "onPeerVersion ev st from version =
     (let mine = u_Version (mb_roster st)
      in if version > mine then mcall st (SessRequest from True)
         else if version < mine \<and> from \<noteq> me_self ev \<and> member_of (mb_roster st) from \<noteq> None then mcall st (CallSendRoster from) else st)"

section \<open>What the relay says\<close>

definition setShaping :: "member \<Rightarrow> Shaping \<Rightarrow> member" where
  "setShaping st s =
     (let st = mcall st (SessSetRate (sh_RateBps s)) in if s = mb_shaping st then st else raise (st\<lparr>mb_shaping := s\<rparr>) (ShapingEvent s))"

definition onRegistered :: "menv \<Rightarrow> member \<Rightarrow> (string \<times> json) list \<Rightarrow> member" where
  "onRegistered ev st msg =
     (let st = (if ''shaping'' \<in> set (mb_features st) then st else setShaping st \<lparr>sh_RateBps = 0, sh_Slowed = False\<rparr>)
      in case map_of msg ''roster'' of
           Some raw \<Rightarrow> (case rosterFromTree raw of None \<Rightarrow> st | Some r \<Rightarrow> snd (offerRoster ev st r))
         | None \<Rightarrow>
             (case safeInteger (map_of msg ''rosterVersion'') of
                None \<Rightarrow> st
              | Some v \<Rightarrow> if v > u_Version (mb_roster st) then queue_task st TaskAsk else st))"

definition RuneStart :: "char \<Rightarrow> bool" where
  "RuneStart c \<longleftrightarrow> \<not> (128 \<le> (of_char c :: nat) \<and> of_char c < (192 :: nat))"

fun cut_at :: "string \<Rightarrow> nat \<Rightarrow> nat" where
  "cut_at s 0 = 0"
| "cut_at s (Suc n) = (if RuneStart (s ! Suc n) then Suc n else cut_at s n)"

definition cut :: "string \<Rightarrow> string" where
  "cut s = (if length s \<le> maxRelayErrorField then s else take (cut_at s maxRelayErrorField) s)"

definition str :: "(string \<times> json) list \<Rightarrow> string \<Rightarrow> string" where
  "str msg k = (case as_string (map_of msg k) of None \<Rightarrow> [] | Some s \<Rightarrow> s)"

text \<open>\<open>taken\<close>: the primary's state took an \<open>error\<close>, which answers a usage ask of its own (\<open>primaryState.onControl\<close>).\<close>

definition onControl :: "menv \<Rightarrow> member \<Rightarrow> (string \<times> json) list \<Rightarrow> bool \<Rightarrow> member" where
  "onControl ev st msg taken =
     (if str msg ''type'' = ''shaping''
      then case (safeInteger (map_of msg ''rateBps''), map_of msg ''slowed'') of
             (Some rate, Some (JBool b)) \<Rightarrow> setShaping st \<lparr>sh_RateBps = rate, sh_Slowed = b\<rparr>
           | _ \<Rightarrow> st
      else
        let t = str msg ''type''; st' = (if mb_prim st then mcall st (PrimControl msg) else st)
        in if mb_prim st \<and> (t \<in> {''usage'', ''pairing'', ''pairEnd''} \<or> t = ''error'' \<and> taken) then st'
           else if t = ''error''
           then let code = (if str msg ''code'' = [] then (case map_of msg ''code'' of None \<Rightarrow> [] | Some c \<Rightarrow> me_marshal ev c) else str msg ''code'')
                in case take_token (mb_relayErrors st') (mb_mono st') 16 64 of (ok, b) \<Rightarrow>
                     let st = st'\<lparr>mb_relayErrors := b\<rparr>
                     in if ok then raise st (RelayErrorEvent (cut code) (cut (str msg ''message'')) (cut (str msg ''id''))) else st
           else st')"

definition parseControl :: "menv \<Rightarrow> string \<Rightarrow> (string \<times> json) list option" where
  "parseControl ev data =
     (if length data > maxControlBytes then None
      else case parseJSON (me_dec ev) data of
             Some (JObj obj) \<Rightarrow> (if as_string (map_of obj ''type'') = None then None else Some obj)
           | _ \<Rightarrow> None)"

definition quoted :: "string \<Rightarrow> string" where
  "quoted s = CHR 0x22 # s @ [CHR 0x22]"

text \<open>The strings here are ids and base64url, which JSON writes as they are.\<close>

definition registerMessage :: "menv \<Rightarrow> member \<Rightarrow> bytes \<Rightarrow> string option" where
  "registerMessage ev st challenge =
     (case me_origin ev (mb_url st) of
        None \<Rightarrow> None
      | Some origin \<Rightarrow>
          let r = mb_roster st; ts = mb_wall st;
              sig = me_sign ev (registerSigningBytes (u_Network r) (me_self ev) challenge ts origin)
          in case MarshalJSON r of
               None \<Rightarrow> None
             | Some rj \<Rightarrow>
                 Some (''{'' @ quoted ''type'' @ '':'' @ quoted ''register'' @ '','' @ quoted ''network'' @ '':'' @ quoted (u_Network r)
                   @ '','' @ quoted ''node'' @ '':'' @ quoted (me_self ev) @ '','' @ quoted ''ed25519'' @ '':'' @ quoted (b64u (me_edPub ev))
                   @ '','' @ quoted ''ts'' @ '':'' @ FormatInt ts @ '','' @ quoted ''sig'' @ '':'' @ quoted (b64u sig)
                   @ '','' @ quoted ''roster'' @ '':'' @ rj @ ''}''))"

definition feature_names :: "json option \<Rightarrow> string list" where
  "feature_names v = (case v of Some (JArr fs) \<Rightarrow> List.map_filter (\<lambda>f. as_string (Some f)) fs | _ \<Rightarrow> [])"

definition onHello :: "menv \<Rightarrow> member \<Rightarrow> nat \<Rightarrow> (string \<times> json) list \<Rightarrow> member" where
  "onHello ev st ch msg =
     (if safeInteger (map_of msg ''version'') \<noteq> Some 1 then closeChannel ev st CloseBadRequest
      else case fromB64uLen (str msg ''challenge'') 32 of
        None \<Rightarrow> closeChannel ev st CloseBadRequest
      | Some challenge \<Rightarrow>
          let st = st\<lparr>mb_challenge := Some challenge, mb_features := mb_features st @ feature_names (map_of msg ''features'')\<rparr>
          in case registerMessage ev st challenge of
               None \<Rightarrow> closeChannel ev st CloseBadRequest
             | Some reg \<Rightarrow>
                 if length reg > maxControlBytes then closeChannel ev st CloseBadRequest
                 else case ch_send ev st ch (OutText reg) of
                        (True, st) \<Rightarrow> st\<lparr>mb_textSent := mb_textSent st + int (length reg)\<rparr>
                      | (False, st) \<Rightarrow> st)"

definition onText :: "menv \<Rightarrow> member \<Rightarrow> nat \<Rightarrow> string \<Rightarrow> bool \<Rightarrow> member" where
  "onText ev st ch data taken =
     (let st = st\<lparr>mb_textReceived := mb_textReceived st + int (length data)\<rparr>
      in case parseControl ev data of
           None \<Rightarrow> st
         | Some msg \<Rightarrow>
             if str msg ''type'' = ''hello'' \<and> mb_challenge st = None then onHello ev st ch msg
             else if str msg ''type'' = ''registered'' \<and> mb_challenge st \<noteq> None \<and> mb_state st = StateConnecting
             then let st = onRegistered ev (st\<lparr>mb_backoff := me_BackoffInitial ev, mb_regTimer := None\<rparr>) msg
                  in if mb_state st = StateConnecting \<and> mb_ch st = Some ch then setState st StateConnected else st
             else if mb_state st = StateConnected \<or> str msg ''type'' = ''error'' then onControl ev st msg taken
             else st)"

definition onBinary :: "menv \<Rightarrow> member \<Rightarrow> bytes \<Rightarrow> member" where
  "onBinary ev st data =
     (case decodeFrame data of
        None \<Rightarrow> st
      | Some f \<Rightarrow>
          if ftyp f = framePair then (if mb_prim st then mcall st (PrimFrame (fpeer f) (fbody f)) else st)
          else mcall st (SessFrame f (b32 (fpeer f))))"

text \<open>One turn of the reader: a message, or how the read failed.\<close>

datatype sock_in = InText string | InBinary bytes | InError nat

definition read_turn :: "menv \<Rightarrow> member \<Rightarrow> nat \<Rightarrow> sock_in \<Rightarrow> bool \<Rightarrow> member" where
  "read_turn ev st ch m taken =
     (let st = st\<lparr>mb_lastRead := (mb_lastRead st)(ch := mb_mono st)\<rparr>
      in if mb_ch st \<noteq> Some ch then st
         else case m of
           InError code \<Rightarrow> onClose ev st ch code
         | InText data \<Rightarrow> onText ev st ch data taken
         | InBinary data \<Rightarrow> if mb_state st = StateConnected then onBinary ev st data else st)"

definition onSessionControl :: "menv \<Rightarrow> member \<Rightarrow> string \<Rightarrow> sessionMessage \<Rightarrow> member" where
  "onSessionControl ev st from msg =
     (if mtyp msg = sessRosterRequest then mcall st (CallSendRoster from)
      else if mtyp msg = sessRoster
      then (case parseJSON (me_dec ev) (bytes_str (mbytes msg)) of
              None \<Rightarrow> st
            | Some tree \<Rightarrow> (case rosterFromTree tree of None \<Rightarrow> st | Some r \<Rightarrow> snd (offerRoster ev st r)))
      else if mtyp msg = sessResign \<and> mb_prim st then mcall st (PrimResign from (mbytes msg))
      else st)"

section \<open>Waiting to write, sends that wait, tasks\<close>

text \<open>\<open>want\<close> and \<open>writable\<close> are the socket's answers to \<open>wantDrain\<close> and \<open>writable\<close>.\<close>

definition whenWritable :: "member \<Rightarrow> nat \<Rightarrow> bool \<Rightarrow> member" where
  "whenWritable st w want = (if mb_ch st = None \<or> \<not> want then queue_task st (TaskWaiter w) else st\<lparr>mb_waiters := mb_waiters st @ [w]\<rparr>)"

definition drained :: "member \<Rightarrow> nat \<Rightarrow> bool \<Rightarrow> member" where
  "drained st ch writable =
     (if mb_ch st \<noteq> Some ch \<and> mb_ch st \<noteq> None then st
      else if mb_ch st \<noteq> None \<and> \<not> writable then st
      else st\<lparr>mb_waiters := [], mb_calls := mb_calls st @ map CallWaiter (mb_waiters st)\<rparr>)"

definition online :: "member \<Rightarrow> member" where
  "online st =
     (let m = mb_nsends st; st = st\<lparr>mb_nsends := Suc m\<rparr>
      in case terminalError (mb_state st) of
           Some e \<Rightarrow> st\<lparr>mb_answers := mb_answers st @ [(m, e)]\<rparr>
         | None \<Rightarrow>
             if mb_state st = StateConnected then (mcall st (CallAdmit m))\<lparr>mb_admitted := mb_admitted st @ [m]\<rparr>
             else st\<lparr>mb_offline := mb_offline st @ [m]\<rparr>)"

text \<open>A waiting send's time is up, or its caller withdraws it.\<close>

definition send_given_up :: "member \<Rightarrow> nat \<Rightarrow> Error \<Rightarrow> member" where
  "send_given_up st m e =
     (if m \<in> set (mb_offline st) then st\<lparr>mb_offline := remove1 m (mb_offline st), mb_answers := mb_answers st @ [(m, e)]\<rparr> else st)"

definition admit_waiting :: "member \<Rightarrow> member" where
  "admit_waiting st =
     st\<lparr>mb_offline := [], mb_admitted := mb_admitted st @ mb_offline st, mb_calls := mb_calls st @ map CallAdmit (mb_offline st)\<rparr>"

definition run_mtask :: "menv \<Rightarrow> member \<Rightarrow> member" where
  "run_mtask ev st =
     (case mb_tasks st of
        [] \<Rightarrow> st
      | t # ts \<Rightarrow>
          let st = st\<lparr>mb_tasks := ts\<rparr>
          in case t of
               TaskClaim \<Rightarrow> claim ev st
             | TaskAsk \<Rightarrow> askPrimary ev st
             | TaskOffline \<Rightarrow> admit_waiting st
             | TaskAbandon ch \<Rightarrow> if mb_ch st = Some ch then abandon ev st ch else st
             | TaskWaiter w \<Rightarrow> mcall st (CallWaiter w))"

definition member_Close :: "menv \<Rightarrow> member \<Rightarrow> member" where
  "member_Close ev st =
     (if mb_state st = StateClosed then st else (mcall (relay_close ev st) SessClose)\<lparr>mb_hintTimer := None\<rparr>)"

section \<open>A new member\<close>

definition newMember :: "menv \<Rightarrow> SignedRoster \<Rightarrow> string \<Rightarrow> int \<Rightarrow> int \<Rightarrow> member option" where
  "newMember ev r url now wall =
     (if Problem (me_pr ev) r \<noteq> Some () then None
      else if member_of r (me_self ev) = None then None
      else if me_pinned ev \<noteq> u_NetworkKey r then None
      else if (case me_key ev of None \<Rightarrow> False | Some k \<Rightarrow> b64u (nk_edPub k) \<noteq> u_NetworkKey r) then None
      else let url = (if url = [] then u_Relay r else url)
           in if url = [] \<or> \<not> me_url_ok ev url then None
              else Some \<lparr>mb_roster = r, mb_mono = now, mb_wall = wall, mb_prim = False, mb_claiming = (me_key ev \<noteq> None \<and> u_Primary r \<noteq> me_self ev),
                 mb_state = StateDisconnected, mb_url = url, mb_ch = None, mb_nch = 0, mb_gen = 0, mb_dials = [], mb_resolving = [], mb_timer = None,
                 mb_backoff = me_BackoffInitial ev, mb_features = [], mb_challenge = None, mb_stopping = False, mb_regTimer = None, mb_liveTimer = None, mb_opened = (\<lambda>_. 0),
                 mb_lastRead = (\<lambda>_. 0), mb_waiters = [], mb_textSent = 0, mb_textReceived = 0, mb_tasks = [], mb_shaping = \<lparr>sh_RateBps = 0, sh_Slowed = False\<rparr>,
                 mb_relayErrors = bucket_zero, mb_nsends = 0, mb_offline = [], mb_answers = [], mb_admitted = [], mb_asked = None, mb_hintWait = 0,
                 mb_hintAnswered = False, mb_hintTimer = None, mb_hintsSent = 0, mb_out = [], mb_events = [], mb_calls = []\<rparr>)"

definition member_start :: "menv \<Rightarrow> member \<Rightarrow> member" where
  "member_start ev st = relay_start (syncRole ev st)"

end
