(* ===== verification/Member_Properties.thy ===== *)
theory Member_Properties
  imports Member_Relay
begin

text \<open>
  What a member's connection keeps in every run: it is never left without a way to reconnect, a terminal state is
  final, the roster held only moves forward under the pinned key, the primary's role follows it, and
  every send that waits for the relay gets one outcome.
\<close>

section \<open>Field by field\<close>

text \<open>A member without what the invariants do not speak of; most of what the operations do leaves it as it is.\<close>

definition view :: "member \<Rightarrow> member" where
  "view st = st\<lparr>mb_calls := [], mb_events := [], mb_tasks := [], mb_claiming := False, mb_offline := [], mb_answers := [], mb_wall := 0, mb_url := [],
     mb_features := [], mb_liveTimer := None, mb_lastRead := (\<lambda>_. 0), mb_waiters := [], mb_textSent := 0, mb_textReceived := 0,
     mb_shaping := \<lparr>sh_RateBps = 0, sh_Slowed = False\<rparr>, mb_relayErrors := bucket_zero, mb_asked := None, mb_hintWait := 0, mb_hintAnswered := False, mb_hintTimer := None, mb_hintsSent := 0\<rparr>"

lemma view_updates [simp]:
  "view (st\<lparr>mb_calls := c\<rparr>) = view st" "view (st\<lparr>mb_tasks := t\<rparr>) = view st" "view (st\<lparr>mb_wall := n\<rparr>) = view st" "view (st\<lparr>mb_url := u\<rparr>) = view st"
  "view (st\<lparr>mb_features := fs\<rparr>) = view st" "view (st\<lparr>mb_liveTimer := t'\<rparr>) = view st" "view (st\<lparr>mb_lastRead := l\<rparr>) = view st" "view (st\<lparr>mb_waiters := w\<rparr>) = view st"
  "view (st\<lparr>mb_textSent := n\<rparr>) = view st" "view (st\<lparr>mb_textReceived := n\<rparr>) = view st" "view (st\<lparr>mb_shaping := s\<rparr>) = view st" "view (st\<lparr>mb_relayErrors := b\<rparr>) = view st"
  "view (st\<lparr>mb_asked := a\<rparr>) = view st" "view (st\<lparr>mb_hintWait := n\<rparr>) = view st" "view (st\<lparr>mb_hintAnswered := h\<rparr>) = view st" "view (st\<lparr>mb_hintTimer := d\<rparr>) = view st"
  "view (st\<lparr>mb_hintsSent := k\<rparr>) = view st" "view (st\<lparr>mb_offline := off\<rparr>) = view st" "view (st\<lparr>mb_answers := ans\<rparr>) = view st"
  by (simp_all add: view_def)

lemma view_logs [simp]:
  "view (mcall st c) = view st" "view (raise st v) = view st" "view (queue_task st t) = view st" "view (end_waiting st s) = view st"
  "view (st\<lparr>mb_claiming := b\<rparr>) = view st"
  by (simp_all add: view_def mcall_def raise_def queue_task_def end_waiting_def)

lemma view_onRelayState [simp]: "view (onRelayState st s) = view st"
  unfolding onRelayState_def Let_def by (simp only: if_distrib [of view] view_logs if_cancel)

lemma view_fields:
  assumes "view a = view b"
  shows "mb_roster a = mb_roster b" "mb_prim a = mb_prim b" "mb_state a = mb_state b" "mb_ch a = mb_ch b" "mb_nch a = mb_nch b" "mb_gen a = mb_gen b"
    "mb_dials a = mb_dials b" "mb_resolving a = mb_resolving b" "mb_timer a = mb_timer b" "mb_backoff a = mb_backoff b" "mb_challenge a = mb_challenge b"
    "mb_stopping a = mb_stopping b" "mb_regTimer a = mb_regTimer b" "mb_nsends a = mb_nsends b" "mb_admitted a = mb_admitted b" "mb_out a = mb_out b"
    "mb_mono a = mb_mono b" "mb_opened a = mb_opened b"
  using assms by (cases a; cases b; simp add: view_def)+

text \<open>The sends that wait, and those answered.\<close>

definition waits :: "member \<Rightarrow> State \<times> nat list \<times> (nat \<times> Error) list" where
  "waits st = (mb_state st, mb_offline st, mb_answers st)"

definition ended :: "State \<Rightarrow> State \<times> nat list \<times> (nat \<times> Error) list \<Rightarrow> State \<times> nat list \<times> (nat \<times> Error) list" where
  "ended s w = (case w of (a, off, ans) \<Rightarrow> if terminal a then (a, [], ans @ map (\<lambda>m. (m, the (terminalError s))) off) else w)"

lemma waits_updates [simp]:
  "waits (st\<lparr>mb_calls := c\<rparr>) = waits st" "waits (st\<lparr>mb_tasks := t\<rparr>) = waits st" "waits (st\<lparr>mb_mono := n\<rparr>) = waits st" "waits (st\<lparr>mb_wall := n\<rparr>) = waits st" "waits (st\<lparr>mb_url := u\<rparr>) = waits st"
  "waits (st\<lparr>mb_features := fs\<rparr>) = waits st" "waits (st\<lparr>mb_liveTimer := t'\<rparr>) = waits st" "waits (st\<lparr>mb_lastRead := l\<rparr>) = waits st" "waits (st\<lparr>mb_waiters := w\<rparr>) = waits st"
  "waits (st\<lparr>mb_textSent := n\<rparr>) = waits st" "waits (st\<lparr>mb_textReceived := n\<rparr>) = waits st" "waits (st\<lparr>mb_shaping := s\<rparr>) = waits st" "waits (st\<lparr>mb_relayErrors := b\<rparr>) = waits st"
  "waits (st\<lparr>mb_asked := a\<rparr>) = waits st" "waits (st\<lparr>mb_hintWait := n\<rparr>) = waits st" "waits (st\<lparr>mb_hintAnswered := h\<rparr>) = waits st" "waits (st\<lparr>mb_hintTimer := d\<rparr>) = waits st"
  "waits (st\<lparr>mb_hintsSent := k\<rparr>) = waits st" "waits (st\<lparr>mb_roster := ro\<rparr>) = waits st" "waits (st\<lparr>mb_prim := p\<rparr>) = waits st" "waits (st\<lparr>mb_ch := ch\<rparr>) = waits st"
  "waits (st\<lparr>mb_regTimer := t'\<rparr>) = waits st" "waits (st\<lparr>mb_opened := l\<rparr>) = waits st" "waits (st\<lparr>mb_timer := d\<rparr>) = waits st" "waits (st\<lparr>mb_stopping := h\<rparr>) = waits st" "waits (st\<lparr>mb_backoff := n\<rparr>) = waits st"
  "waits (st\<lparr>mb_resolving := gs\<rparr>) = waits st" "waits (st\<lparr>mb_dials := gs\<rparr>) = waits st" "waits (st\<lparr>mb_gen := k\<rparr>) = waits st" "waits (st\<lparr>mb_nch := k\<rparr>) = waits st"
  "waits (st\<lparr>mb_challenge := cb\<rparr>) = waits st" "waits (st\<lparr>mb_out := out\<rparr>) = waits st"
  by (simp_all add: waits_def)

lemma waits_logs [simp]:
  "waits (mcall st c) = waits st" "waits (raise st v) = waits st" "waits (queue_task st t) = waits st" "waits (st\<lparr>mb_claiming := b\<rparr>) = waits st"
  "waits (end_waiting st s) = ended s (waits st)"
  by (simp_all add: waits_def mcall_def raise_def queue_task_def end_waiting_def ended_def)

lemma waits_onRelayState: "waits (onRelayState st s) = ended s (waits st)"
  unfolding onRelayState_def Let_def by (simp only: if_distrib [of waits] if_distrib [of "ended s"] waits_logs if_cancel)

lemma setState_fields [simp]:
  "mb_roster (setState st s) = mb_roster st" "mb_prim (setState st s) = mb_prim st" "mb_state (setState st s) = s" "mb_ch (setState st s) = mb_ch st"
  "mb_nch (setState st s) = mb_nch st" "mb_gen (setState st s) = mb_gen st" "mb_dials (setState st s) = mb_dials st" "mb_resolving (setState st s) = mb_resolving st"
  "mb_timer (setState st s) = mb_timer st" "mb_backoff (setState st s) = mb_backoff st" "mb_challenge (setState st s) = mb_challenge st" "mb_stopping (setState st s) = mb_stopping st"
  "mb_regTimer (setState st s) = mb_regTimer st" "mb_nsends (setState st s) = mb_nsends st" "mb_admitted (setState st s) = mb_admitted st" "mb_out (setState st s) = mb_out st"
  "mb_mono (setState st s) = mb_mono st" "mb_opened (setState st s) = mb_opened st"
  by (simp_all add: setState_def view_fields [OF view_onRelayState])

lemma put_fields [simp]: "waits (put st ch m) = waits st" "mb_nsends (put st ch m) = mb_nsends st" "mb_admitted (put st ch m) = mb_admitted st" "mb_ch (put st ch m) = mb_ch st"
  "mb_state (put st ch m) = mb_state st" "mb_roster (put st ch m) = mb_roster st" "mb_prim (put st ch m) = mb_prim st"
  by (simp_all add: put_def)

lemma log_fields [simp]:
  "mb_roster (mcall st c) = mb_roster st" "mb_prim (mcall st c) = mb_prim st" "mb_state (mcall st c) = mb_state st" "mb_ch (mcall st c) = mb_ch st"
  "mb_nch (mcall st c) = mb_nch st" "mb_gen (mcall st c) = mb_gen st" "mb_dials (mcall st c) = mb_dials st" "mb_resolving (mcall st c) = mb_resolving st"
  "mb_timer (mcall st c) = mb_timer st" "mb_backoff (mcall st c) = mb_backoff st" "mb_challenge (mcall st c) = mb_challenge st" "mb_stopping (mcall st c) = mb_stopping st"
  "mb_regTimer (mcall st c) = mb_regTimer st" "mb_nsends (mcall st c) = mb_nsends st" "mb_admitted (mcall st c) = mb_admitted st" "mb_out (mcall st c) = mb_out st"
  "mb_mono (mcall st c) = mb_mono st" "mb_opened (mcall st c) = mb_opened st" "mb_mono (raise st v) = mb_mono st" "mb_opened (raise st v) = mb_opened st"
  "mb_roster (raise st v) = mb_roster st" "mb_prim (raise st v) = mb_prim st" "mb_state (raise st v) = mb_state st" "mb_ch (raise st v) = mb_ch st"
  "mb_nch (raise st v) = mb_nch st" "mb_gen (raise st v) = mb_gen st" "mb_dials (raise st v) = mb_dials st" "mb_resolving (raise st v) = mb_resolving st"
  "mb_timer (raise st v) = mb_timer st" "mb_backoff (raise st v) = mb_backoff st" "mb_challenge (raise st v) = mb_challenge st" "mb_stopping (raise st v) = mb_stopping st"
  "mb_regTimer (raise st v) = mb_regTimer st" "mb_nsends (raise st v) = mb_nsends st" "mb_admitted (raise st v) = mb_admitted st" "mb_out (raise st v) = mb_out st"
  by (simp_all add: mcall_def raise_def)

section \<open>The connection\<close>

text \<open>
  A socket is held only while connecting or connected. Behind \<open>connecting\<close> stands the dial of the current generation or,
  once there is a socket, its registration timer, due a fixed time after the socket opened; a challenge answered stands
  behind \<open>connected\<close>; behind \<open>disconnected\<close> a timer, started for a delay between the bounds, or the application's answer
  to a move.
\<close>

definition delays :: "menv \<Rightarrow> int set" where
  "delays ev = {0<..max (me_BackoffInitial ev) (me_BackoffMax ev)}"

definition armed :: "menv \<Rightarrow> int \<Rightarrow> int \<Rightarrow> bool" where
  "armed ev now d \<longleftrightarrow> (\<exists>t b. t \<le> now \<and> b \<in> delays ev \<and> d = t + b)"

definition conn_ok :: "menv \<Rightarrow> member \<Rightarrow> bool" where
  "conn_ok ev st \<longleftrightarrow>
     (case mb_state st of
        StateConnecting \<Rightarrow> (case mb_ch st of
            None \<Rightarrow> mb_gen st \<in> set (mb_dials st)
          | Some ch \<Rightarrow> mb_regTimer st = Some (ch, mb_opened st ch + registrationTimeout ev) \<and> mb_opened st ch \<le> mb_mono st) \<and> mb_timer st = None
      | StateConnected \<Rightarrow> mb_ch st \<noteq> None \<and> mb_challenge st \<noteq> None \<and> mb_timer st = None
      | StateDisconnected \<Rightarrow> mb_ch st = None \<and> (mb_timer st \<noteq> None \<or> mb_gen st \<in> set (mb_resolving st))
      | _ \<Rightarrow> mb_ch st = None \<and> mb_timer st = None)
     \<and> (mb_stopping st \<longrightarrow> terminal (mb_state st)) \<and> mb_backoff st \<in> delays ev \<and> (\<forall>d. mb_timer st = Some d \<longrightarrow> armed ev (mb_mono st) d)"

lemma armed_now: "b \<in> delays ev \<Longrightarrow> armed ev now (now + b)"
  by (auto simp: armed_def)

lemma armed_later: "armed ev now d \<Longrightarrow> now \<le> now' \<Longrightarrow> armed ev now' d"
  unfolding armed_def by (elim exE conjE) (intro exI conjI, rule order_trans)

definition timing_ok :: "menv \<Rightarrow> bool" where
  "timing_ok ev \<longleftrightarrow> 0 < me_BackoffInitial ev \<and> 0 < me_BackoffMax ev"

lemma delays_double: "timing_ok ev \<Longrightarrow> d \<in> delays ev \<Longrightarrow> min (d * 2) (me_BackoffMax ev) \<in> delays ev"
  by (auto simp: delays_def timing_ok_def min_def max_def)

lemma delays_initial: "timing_ok ev \<Longrightarrow> me_BackoffInitial ev \<in> delays ev"
  by (auto simp: delays_def timing_ok_def)

text \<open>After a connection, or an attempt at one, has ended: no socket, no timer.\<close>

lemma afterClose_conn:
  assumes "timing_ok ev" "mb_ch st = None" "mb_timer st = None" "mb_backoff st \<in> delays ev" "\<not> terminal (mb_state st)" "\<not> mb_stopping st"
  shows "conn_ok ev (afterClose ev st code)"
  using assms delays_double [OF assms(1,4)] armed_now [OF assms(4)]
  by (simp add: afterClose_def schedule_def conn_ok_def terminal_def Let_def)

lemma onClose_conn:
  assumes t: "timing_ok ev" and ok: "conn_ok ev st"
  shows "conn_ok ev (onClose ev st ch code)"
proof (cases "mb_ch st = Some ch")
  case True
  then have "\<not> terminal (mb_state st)" "mb_timer st = None" "\<not> mb_stopping st" "mb_backoff st \<in> delays ev"
    using ok by (auto simp: conn_ok_def terminal_def split: State.splits)
  then show ?thesis using True by (simp add: onClose_def Let_def afterClose_conn [OF t])
qed (simp add: onClose_def ok)

lemma conn_cong:
  assumes "mb_state a = mb_state b" "mb_ch a = mb_ch b" "mb_regTimer a = mb_regTimer b" "mb_gen a = mb_gen b" "mb_dials a = mb_dials b" "mb_resolving a = mb_resolving b"
    "mb_timer a = mb_timer b" "mb_challenge a = mb_challenge b" "mb_stopping a = mb_stopping b" "mb_backoff a = mb_backoff b" "mb_mono a = mb_mono b" "mb_opened a = mb_opened b"
  shows "conn_ok ev a = conn_ok ev b"
  unfolding conn_ok_def assms by (rule refl)

lemma conn_view: "view a = view b \<Longrightarrow> conn_ok ev a = conn_ok ev b"
  by (rule conn_cong) (erule view_fields)+

lemma conn_logs [simp]:
  "conn_ok ev (mcall st c) = conn_ok ev st" "conn_ok ev (raise st v) = conn_ok ev st" "conn_ok ev (queue_task st t) = conn_ok ev st" "conn_ok ev (put st ch m) = conn_ok ev st"
  by (rule conn_cong; simp add: mcall_def raise_def queue_task_def put_def)+

lemma closeChannel_conn: "timing_ok ev \<Longrightarrow> conn_ok ev st \<Longrightarrow> conn_ok ev (closeChannel ev st code)"
  by (simp add: closeChannel_def onClose_conn split: option.split)

lemma abandon_conn: "timing_ok ev \<Longrightarrow> conn_ok ev st \<Longrightarrow> conn_ok ev (abandon ev st ch)"
  by (simp add: abandon_def onClose_conn)

text \<open>Stopping: the close is reported while the member stops, so that nothing is scheduled.\<close>

lemma relay_stop_fields:
  "mb_ch (relay_stop ev st s) = None" "mb_timer (relay_stop ev st s) = None" "mb_state (relay_stop ev st s) = s" "mb_backoff (relay_stop ev st s) = mb_backoff st"
  "mb_roster (relay_stop ev st s) = mb_roster st" "mb_prim (relay_stop ev st s) = mb_prim st" "mb_nsends (relay_stop ev st s) = mb_nsends st" "mb_admitted (relay_stop ev st s) = mb_admitted st"
  "mb_stopping (relay_stop ev st s)"
  by (simp_all add: relay_stop_def closeChannel_def onClose_def afterClose_def put_def split: option.split)

lemma relay_stop_conn: "conn_ok ev st \<Longrightarrow> terminal s \<Longrightarrow> conn_ok ev (relay_stop ev st s)"
  by (auto simp: conn_ok_def relay_stop_fields terminal_def)

lemma revoke_conn: "conn_ok ev st \<Longrightarrow> conn_ok ev (revoke ev st)"
  by (simp add: revoke_def relay_stop_conn) (simp add: terminal_def relay_stop_conn)

lemma relay_close_conn: "conn_ok ev st \<Longrightarrow> conn_ok ev (relay_close ev st)"
  by (simp add: relay_close_def relay_stop_conn terminal_def)

lemma dial_conn: "conn_ok ev st \<Longrightarrow> mb_state st = StateDisconnected \<Longrightarrow> mb_timer st = None \<Longrightarrow> mb_ch st = None \<Longrightarrow> \<not> mb_stopping st \<Longrightarrow> conn_ok ev (dial st)"
  by (simp add: dial_def conn_ok_def)

lemma dialed_conn:
  assumes "timing_ok ev" "conn_ok ev st"
  shows "conn_ok ev (dialed ev st g ok)"
proof (cases "g \<noteq> mb_gen st \<or> mb_state st \<noteq> StateConnecting \<or> mb_ch st \<noteq> None")
  case True
  have "mb_gen st \<in> set (mb_dials st) \<Longrightarrow> g \<noteq> mb_gen st \<Longrightarrow> mb_gen st \<in> set (remove1 g (mb_dials st))" by (metis in_set_remove1)
  then have "conn_ok ev (st\<lparr>mb_dials := remove1 g (mb_dials st)\<rparr>)"
    using True assms(2) by (auto simp: conn_ok_def split: State.splits option.splits)
  then show ?thesis using True by (auto simp: dialed_def)
next
  case False
  then have "mb_timer st = None" "\<not> mb_stopping st" "mb_backoff st \<in> delays ev" using assms(2) by (auto simp: conn_ok_def terminal_def)
  then show ?thesis using False afterClose_conn [OF assms(1), of "raise (st\<lparr>mb_dials := remove1 g (mb_dials st)\<rparr>) (DisconnectEvent 1006)" 1006]
    by (simp add: dialed_def Let_def terminal_def) (simp add: conn_ok_def)
qed

lemma dial_due_conn: "conn_ok ev st \<Longrightarrow> conn_ok ev (dial_due st)"
  by (auto simp: dial_due_def dial_def conn_ok_def Let_def terminal_def split: option.split State.splits)

lemma reg_due_conn:
  assumes "timing_ok ev" "conn_ok ev st"
  shows "conn_ok ev (reg_due ev st)"
proof (cases "mb_regTimer st")
  case (Some x)
  obtain ch d where x: "x = (ch, d)" by fastforce
  show ?thesis
  proof (cases "mb_ch st = Some ch \<and> mb_state st = StateConnecting")
    case True
    then have "mb_timer st = None" "\<not> mb_stopping st" "mb_backoff st \<in> delays ev" using assms(2) by (auto simp: conn_ok_def terminal_def)
    then show ?thesis using True Some x by (simp add: reg_due_def abandon_def onClose_def put_def afterClose_conn [OF assms(1)] terminal_def)
  next
    case False
    then show ?thesis using Some x assms(2) by (auto simp: reg_due_def Let_def conn_ok_def split: State.splits option.splits)
  qed
qed (simp add: reg_due_def assms)

lemma live_due_conn:
  assumes "timing_ok ev" "conn_ok ev st"
  shows "conn_ok ev (live_due ev st)"
proof -
  have "conn_ok ev (st\<lparr>mb_liveTimer := t\<rparr>)" for t using assms(2) by (simp add: conn_cong [of "st\<lparr>mb_liveTimer := t\<rparr>" st])
  then show ?thesis using assms abandon_conn [OF assms(1)] by (simp add: live_due_def Let_def split: option.split)
qed

lemma resolved_conn:
  assumes "timing_ok ev" "conn_ok ev st"
  shows "conn_ok ev (resolved ev st g url)"
proof -
  have keep: "mb_gen st \<in> set (mb_resolving st) \<Longrightarrow> g \<noteq> mb_gen st \<Longrightarrow> mb_gen st \<in> set (remove1 g (mb_resolving st))" by (metis in_set_remove1)
  have "mb_backoff st \<in> delays ev" using assms(2) by (simp add: conn_ok_def)
  note dd = delays_double [OF assms(1) this] this armed_now [OF this]
  show ?thesis
  proof (cases "g = mb_gen st \<and> mb_state st = StateDisconnected")
    case True
    then show ?thesis using assms(2) dd by (simp add: resolved_def Let_def schedule_def conn_ok_def split: option.split)
  next
    case False
    then have "conn_ok ev (st\<lparr>mb_resolving := remove1 g (mb_resolving st), mb_url := u\<rparr>)" for u
      using assms(2) keep by (cases "mb_state st"; cases "mb_ch st") (auto simp: conn_ok_def)
    from this this [of "mb_url st"] show ?thesis using False by (auto simp: resolved_def Let_def schedule_def split: option.split)
  qed
qed

section \<open>Rosters and the role\<close>

text \<open>The roster held is valid, under the pinned key and, unless the member has stopped for good, names it; the primary's state exists while it is the primary.\<close>

definition role_ok :: "menv \<Rightarrow> member \<Rightarrow> bool" where
  "role_ok ev st \<longleftrightarrow> Problem (me_pr ev) (mb_roster st) = Some () \<and> u_NetworkKey (mb_roster st) = me_pinned ev
     \<and> (mb_prim st \<longleftrightarrow> me_key ev \<noteq> None \<and> u_Primary (mb_roster st) = me_self ev)
     \<and> (terminal (mb_state st) \<or> member_of (mb_roster st) (me_self ev) \<noteq> None)"

lemma role_cong: "mb_roster a = mb_roster b \<Longrightarrow> mb_prim a = mb_prim b \<Longrightarrow> (terminal (mb_state b) \<Longrightarrow> terminal (mb_state a)) \<Longrightarrow> role_ok ev b \<Longrightarrow> role_ok ev a"
  by (auto simp: role_ok_def)

lemma revoke_fields:
  "mb_roster (revoke ev st) = mb_roster st" "mb_prim (revoke ev st) = mb_prim st" "terminal (mb_state (revoke ev st))"
  by (simp_all add: revoke_def relay_stop_fields) (simp add: terminal_def)

lemma syncRole_fields [simp]:
  "mb_roster (syncRole ev st) = mb_roster st" "mb_state (syncRole ev st) = mb_state st" "conn_ok ev (syncRole ev st) = conn_ok ev st" "mb_out (syncRole ev st) = mb_out st"
  "mb_prim (syncRole ev st) \<longleftrightarrow> me_key ev \<noteq> None \<and> u_Primary (mb_roster st) = me_self ev" "waits (syncRole ev st) = waits st"
  "mb_nsends (syncRole ev st) = mb_nsends st" "mb_admitted (syncRole ev st) = mb_admitted st" "mb_ch (syncRole ev st) = mb_ch st"
proof -
  have "conn_ok ev (st\<lparr>mb_prim := b\<rparr>) = conn_ok ev st" for b by (rule conn_cong) simp_all
  then show "conn_ok ev (syncRole ev st) = conn_ok ev st" by (simp add: syncRole_def)
qed (simp_all add: syncRole_def)

definition adopting :: "menv \<Rightarrow> member \<Rightarrow> SignedRoster \<Rightarrow> member" where
  "adopting ev st r = syncRole ev (raise (mcall ((mcall st (SessRosterAdded (mb_roster st) r))\<lparr>mb_roster := r, mb_hintWait := hintWaitMin, mb_hintAnswered := True, mb_hintTimer := None\<rparr>)
     SessRosterChanged) (RosterEvent r))"

lemma adoptRoster_alt: "adoptRoster ev st r = (if member_of r (me_self ev) = None then revoke ev (adopting ev st r) else adopting ev st r)"
  by (simp add: adoptRoster_def adopting_def Let_def)

lemma adopting_fields [simp]:
  "mb_roster (adopting ev st r) = r" "mb_state (adopting ev st r) = mb_state st" "conn_ok ev (adopting ev st r) = conn_ok ev st" "mb_out (adopting ev st r) = mb_out st"
  "mb_prim (adopting ev st r) \<longleftrightarrow> me_key ev \<noteq> None \<and> u_Primary r = me_self ev" "waits (adopting ev st r) = waits st"
  "mb_nsends (adopting ev st r) = mb_nsends st" "mb_admitted (adopting ev st r) = mb_admitted st" "mb_ch (adopting ev st r) = mb_ch st"
proof -
  have "conn_ok ev (raise (mcall ((mcall st (SessRosterAdded (mb_roster st) r))\<lparr>mb_roster := r, mb_hintWait := hintWaitMin, mb_hintAnswered := True, mb_hintTimer := None\<rparr>)
     SessRosterChanged) (RosterEvent r)) = conn_ok ev st" by (rule conn_cong) simp_all
  then show "conn_ok ev (adopting ev st r) = conn_ok ev st" by (simp add: adopting_def)
qed (simp_all add: adopting_def)

lemma adoptRoster_conn: "conn_ok ev st \<Longrightarrow> conn_ok ev (adoptRoster ev st r)"
  by (simp add: adoptRoster_alt revoke_conn)

lemma adoptRoster_fields [simp]:
  "mb_roster (adoptRoster ev st r) = r" "mb_prim (adoptRoster ev st r) \<longleftrightarrow> me_key ev \<noteq> None \<and> u_Primary r = me_self ev"
  "terminal (mb_state st) \<Longrightarrow> mb_state (adoptRoster ev st r) = mb_state st"
  by (simp_all add: adoptRoster_alt revoke_fields) (simp add: revoke_def)

lemma adoptRoster_role: "Problem (me_pr ev) r = Some () \<Longrightarrow> u_NetworkKey r = me_pinned ev \<Longrightarrow> role_ok ev (adoptRoster ev st r)"
  unfolding role_ok_def by (simp add: adoptRoster_alt revoke_fields)

section \<open>Sends that wait for the relay\<close>

text \<open>Every send has waited, been answered or been handed to the sessions, once.\<close>

definition sends_ok :: "member \<Rightarrow> bool" where
  "sends_ok st \<longleftrightarrow> distinct (mb_offline st @ map fst (mb_answers st) @ mb_admitted st)
     \<and> set (mb_offline st @ map fst (mb_answers st) @ mb_admitted st) = {..<mb_nsends st} \<and> (terminal (mb_state st) \<longrightarrow> mb_offline st = [])"

lemma sends_cong: "waits a = waits b \<Longrightarrow> mb_nsends a = mb_nsends b \<Longrightarrow> mb_admitted a = mb_admitted b \<Longrightarrow> sends_ok a = sends_ok b"
  by (simp add: sends_ok_def waits_def)

lemma sends_setState: "sends_ok st \<Longrightarrow> sends_ok (setState st s)"
proof (cases "mb_state st = s")
  case False
  assume ok: "sends_ok st"
  have "waits (setState st s) = ended s (s, mb_offline st, mb_answers st)" using False by (simp add: setState_def waits_onRelayState) (simp add: waits_def)
  then show ?thesis using ok by (cases "terminal s") (auto simp: sends_ok_def waits_def ended_def comp_def)
qed (simp add: setState_def)

lemma sends_logs [simp]:
  "sends_ok (mcall st c) = sends_ok st" "sends_ok (raise st v) = sends_ok st" "sends_ok (queue_task st t) = sends_ok st" "sends_ok (put st ch m) = sends_ok st"
  by (rule sends_cong; simp add: queue_task_def)+

section \<open>One step\<close>

definition minv :: "menv \<Rightarrow> member \<Rightarrow> bool" where
  "minv ev st \<longleftrightarrow> conn_ok ev st \<and> role_ok ev st \<and> sends_ok st"

text \<open>What a step does: it keeps the invariant, replaces the roster only by a later one, and leaves a member that has stopped for good as it is.\<close>

definition final :: "member \<Rightarrow> member \<Rightarrow> bool" where
  "final st st' \<longleftrightarrow> (terminal (mb_state st) \<longrightarrow> terminal (mb_state st') \<and> mb_out st' = mb_out st \<and> (mb_state st = StateClosed \<longrightarrow> mb_state st' = StateClosed))"

definition forward :: "member \<Rightarrow> member \<Rightarrow> bool" where
  "forward st st' \<longleftrightarrow> mb_roster st' = mb_roster st \<or> u_Version (mb_roster st) < u_Version (mb_roster st')"

definition moves :: "menv \<Rightarrow> member \<Rightarrow> member \<Rightarrow> bool" where
  "moves ev st st' \<longleftrightarrow> minv ev st' \<and> forward st st' \<and> final st st'"

lemma moves_trans: "moves ev a b \<Longrightarrow> moves ev b c \<Longrightarrow> moves ev a c"
  by (auto simp: moves_def final_def forward_def)

lemma moves_refl: "minv ev st \<Longrightarrow> moves ev st st"
  by (simp add: moves_def final_def forward_def)

lemma moves_same:
  assumes "minv ev st" "view st' = view st" "waits st' = waits st"
  shows "moves ev st st'"
proof -
  note f = view_fields [OF assms(2)]
  have "conn_ok ev st' = conn_ok ev st" by (rule conn_view [OF assms(2)])
  moreover have "role_ok ev st' = role_ok ev st" unfolding role_ok_def f by (rule refl)
  moreover have "sends_ok st' = sends_ok st" by (rule sends_cong [OF assms(3) f(14,15)])
  ultimately show ?thesis using assms(1) by (simp add: moves_def minv_def final_def forward_def f)
qed

text \<open>A member with a socket has not stopped; without one, what is sent goes nowhere.\<close>

lemma ch_live: "conn_ok ev st \<Longrightarrow> mb_ch st \<noteq> None \<Longrightarrow> \<not> terminal (mb_state st)"
  by (auto simp: conn_ok_def terminal_def split: State.splits)

lemma live_moves:
  assumes "minv ev st" "\<not> terminal (mb_state st)" "conn_ok ev st'" "sends_ok st'" "mb_roster st' = mb_roster st" "mb_prim st' = mb_prim st"
  shows "moves ev st st'"
  using assms by (auto simp: moves_def minv_def final_def forward_def role_ok_def)

lemma stays_moves:
  assumes "minv ev st" "conn_ok ev st'" "sends_ok st'" "mb_roster st' = mb_roster st" "mb_prim st' = mb_prim st" "mb_state st' = mb_state st" "mb_out st' = mb_out st"
  shows "moves ev st st'"
  using assms by (simp add: moves_def minv_def final_def forward_def role_ok_def)

lemma afterClose_fields [simp]:
  "mb_roster (afterClose ev st code) = mb_roster st" "mb_prim (afterClose ev st code) = mb_prim st"
  by (simp_all add: afterClose_def schedule_def Let_def)

lemma sends_updates [simp]:
  "sends_ok (st\<lparr>mb_ch := ch\<rparr>) = sends_ok st" "sends_ok (st\<lparr>mb_regTimer := rt\<rparr>) = sends_ok st" "sends_ok (st\<lparr>mb_opened := l\<rparr>) = sends_ok st" "sends_ok (st\<lparr>mb_timer := d\<rparr>) = sends_ok st"
  "sends_ok (st\<lparr>mb_stopping := h\<rparr>) = sends_ok st" "sends_ok (st\<lparr>mb_backoff := n\<rparr>) = sends_ok st" "sends_ok (st\<lparr>mb_resolving := gs\<rparr>) = sends_ok st"
  "sends_ok (st\<lparr>mb_dials := gs\<rparr>) = sends_ok st" "sends_ok (st\<lparr>mb_gen := k\<rparr>) = sends_ok st" "sends_ok (st\<lparr>mb_nch := k\<rparr>) = sends_ok st" "sends_ok (st\<lparr>mb_challenge := cb\<rparr>) = sends_ok st"
  "sends_ok (st\<lparr>mb_liveTimer := rt\<rparr>) = sends_ok st" "sends_ok (st\<lparr>mb_waiters := ws\<rparr>) = sends_ok st" "sends_ok (st\<lparr>mb_tasks := t\<rparr>) = sends_ok st"
  "sends_ok (st\<lparr>mb_features := fs\<rparr>) = sends_ok st" "sends_ok (st\<lparr>mb_lastRead := l\<rparr>) = sends_ok st" "sends_ok (st\<lparr>mb_url := u\<rparr>) = sends_ok st"
  by (rule sends_cong; simp)+

lemma afterClose_sends: "sends_ok st \<Longrightarrow> sends_ok (afterClose ev st code)"
  by (simp add: afterClose_def schedule_def Let_def sends_setState)

lemma onClose_fields [simp]: "mb_roster (onClose ev st ch code) = mb_roster st" "mb_prim (onClose ev st ch code) = mb_prim st"
  by (simp_all add: onClose_def Let_def)

lemma onClose_sends: "sends_ok st \<Longrightarrow> sends_ok (onClose ev st ch code)"
  by (simp add: onClose_def Let_def afterClose_sends)

lemma onClose_moves:
  assumes "timing_ok ev" "minv ev st"
  shows "moves ev st (onClose ev st ch code)"
proof (cases "mb_ch st = Some ch")
  case True
  then show ?thesis using assms ch_live [of ev st] onClose_conn [OF assms(1)] onClose_sends by (intro live_moves) (auto simp: minv_def)
qed (simp add: onClose_def moves_refl [OF assms(2)])

text \<open>A close sent on the socket held.\<close>

lemma close_moves:
  assumes "timing_ok ev" "minv ev st" "mb_ch st = Some ch"
  shows "moves ev st (onClose ev (put st ch m) ch code)"
  using assms ch_live [of ev st] onClose_conn [OF assms(1), of "put st ch m"] onClose_sends [of "put st ch m"] by (intro live_moves) (auto simp: minv_def)

lemma closeChannel_moves: "timing_ok ev \<Longrightarrow> minv ev st \<Longrightarrow> moves ev st (closeChannel ev st code)"
  by (simp add: closeChannel_def close_moves moves_refl split: option.split)

lemma abandon_moves: "timing_ok ev \<Longrightarrow> minv ev st \<Longrightarrow> mb_ch st = Some ch \<Longrightarrow> moves ev st (abandon ev st ch)"
  by (simp add: abandon_def close_moves)

lemma relay_stop_sends: "sends_ok st \<Longrightarrow> sends_ok (relay_stop ev st s)"
  by (auto simp: relay_stop_def closeChannel_def onClose_sends sends_setState split: option.split)

lemma relay_stop_out: "mb_ch st = None \<Longrightarrow> mb_out (relay_stop ev st s) = mb_out st"
  by (simp add: relay_stop_def closeChannel_def)

lemma terminal_ch: "conn_ok ev st \<Longrightarrow> terminal (mb_state st) \<Longrightarrow> mb_ch st = None"
  using ch_live by blast

lemma relay_stop_moves:
  assumes "minv ev st" "terminal s" "mb_state st = StateClosed \<Longrightarrow> s = StateClosed"
  shows "moves ev st (relay_stop ev st s)"
proof -
  have "conn_ok ev (relay_stop ev st s)" "sends_ok (relay_stop ev st s)" using assms relay_stop_conn relay_stop_sends by (auto simp: minv_def)
  moreover have "role_ok ev (relay_stop ev st s)" using assms by (auto simp: minv_def role_ok_def relay_stop_fields)
  moreover have "terminal (mb_state st) \<Longrightarrow> mb_out (relay_stop ev st s) = mb_out st" using assms(1) terminal_ch relay_stop_out by (auto simp: minv_def)
  ultimately show ?thesis using assms(2,3) by (simp add: moves_def minv_def final_def forward_def relay_stop_fields)
qed

lemma dial_due_moves:
  assumes "minv ev st"
  shows "moves ev st (dial_due st)"
proof (cases "mb_timer st")
  case (Some d)
  then have "\<not> terminal (mb_state st)" using assms by (auto simp: minv_def conn_ok_def terminal_def split: State.splits)
  then show ?thesis using assms dial_due_conn by (intro live_moves) (auto simp: minv_def dial_due_def dial_def Let_def sends_setState split: option.split)
qed (simp add: dial_due_def moves_refl [OF assms])

lemma dialed_moves:
  assumes "timing_ok ev" "minv ev st"
  shows "moves ev st (dialed ev st g ok)"
proof -
  have c: "conn_ok ev (dialed ev st g ok)" using dialed_conn [OF assms(1)] assms(2) by (simp add: minv_def)
  show ?thesis
  proof (cases "mb_state st = StateConnecting")
    case True
    then show ?thesis using assms(2) by (intro live_moves [OF assms(2) _ c]) (simp_all add: minv_def terminal_def dialed_def Let_def afterClose_sends)
  next
    case False
    then show ?thesis using assms(2) by (intro stays_moves [OF assms(2) c]) (simp_all add: dialed_def minv_def)
  qed
qed

lemma reg_due_moves:
  assumes "timing_ok ev" "minv ev st"
  shows "moves ev st (reg_due ev st)"
proof (cases "mb_regTimer st")
  case (Some ch)
  have "conn_ok ev (reg_due ev st)" using reg_due_conn [OF assms(1)] assms(2) by (simp add: minv_def)
  moreover have "sends_ok (reg_due ev st)" using assms(2) by (auto simp: minv_def reg_due_def Let_def abandon_def onClose_sends split: option.split)
  moreover have "mb_roster (reg_due ev st) = mb_roster st" "mb_prim (reg_due ev st) = mb_prim st" by (simp_all add: reg_due_def Let_def abandon_def split: option.split)
  moreover have "terminal (mb_state st) \<Longrightarrow> mb_state (reg_due ev st) = mb_state st \<and> mb_out (reg_due ev st) = mb_out st" by (auto simp: reg_due_def Let_def terminal_def split: option.split)
  ultimately show ?thesis using assms(2) by (auto simp: moves_def minv_def final_def forward_def role_ok_def)
qed (simp add: reg_due_def moves_refl [OF assms(2)])

lemma live_due_moves:
  assumes "timing_ok ev" "minv ev st"
  shows "moves ev st (live_due ev st)"
proof -
  have m: "moves ev st (st\<lparr>mb_liveTimer := t\<rparr>)" for t by (rule moves_same [OF assms(2)]) simp_all
  then have "minv ev (st\<lparr>mb_liveTimer := None\<rparr>)" by (simp add: moves_def)
  from moves_trans [OF m abandon_moves [OF assms(1) this]] m moves_refl [OF assms(2)] show ?thesis by (simp add: live_due_def Let_def split: option.split)
qed

lemma resolved_moves:
  assumes "timing_ok ev" "minv ev st"
  shows "moves ev st (resolved ev st g url)"
proof -
  have "conn_ok ev (resolved ev st g url)" using resolved_conn [OF assms(1)] assms(2) by (simp add: minv_def)
  then show ?thesis by (rule stays_moves [OF assms(2)]) (use assms(2) in \<open>simp_all add: minv_def resolved_def Let_def schedule_def split: option.split\<close>)
qed

section \<open>Rosters\<close>

lemma adoptRoster_sends: "sends_ok st \<Longrightarrow> sends_ok (adoptRoster ev st r)"
proof -
  have "sends_ok (adopting ev st r) = sends_ok st" by (rule sends_cong) simp_all
  then show "sends_ok st \<Longrightarrow> ?thesis" by (simp add: adoptRoster_alt revoke_def relay_stop_sends)
qed

lemma adoptRoster_moves:
  assumes "minv ev st" "Problem (me_pr ev) r = Some ()" "u_NetworkKey r = me_pinned ev" "u_Version (mb_roster st) < u_Version r"
  shows "moves ev st (adoptRoster ev st r)"
proof -
  have "conn_ok ev (adoptRoster ev st r)" "sends_ok (adoptRoster ev st r)" "role_ok ev (adoptRoster ev st r)"
    using assms(1) adoptRoster_conn adoptRoster_sends adoptRoster_role [OF assms(2,3)] by (auto simp: minv_def)
  moreover have "terminal (mb_state st) \<Longrightarrow> mb_out (adoptRoster ev st r) = mb_out st" by (simp add: adoptRoster_alt revoke_def)
  ultimately show ?thesis using assms(4) by (auto simp: moves_def minv_def final_def forward_def)
qed

lemma offerRoster_moves: "minv ev st \<Longrightarrow> moves ev st (snd (offerRoster ev st r))"
  by (auto simp: offerRoster_def AcceptanceProblem_def bind_eq_Some_conv guard_def moves_refl split: if_splits intro!: adoptRoster_moves)

lemma relay_sendControl_view: "mb_ch st = None \<or> mb_state st \<noteq> StateConnected \<Longrightarrow> snd (relay_sendControl ev st m) = st"
  by (auto simp: relay_sendControl_def split: option.split)

lemma relay_sendControl_moves:
  assumes "minv ev st"
  shows "moves ev st (snd (relay_sendControl ev st m))"
proof (cases "mb_ch st = None \<or> mb_state st \<noteq> StateConnected")
  case False
  let ?z = "snd (relay_sendControl ev st m)"
  have t: "conn_ok ev (x\<lparr>mb_textSent := n\<rparr>) = conn_ok ev x" "sends_ok (x\<lparr>mb_textSent := n\<rparr>) = sends_ok x" for x n by (rule conn_view sends_cong; simp)+
  have "conn_ok ev ?z" "sends_ok ?z" "mb_roster ?z = mb_roster st" "mb_prim ?z = mb_prim st"
    using assms by (auto simp: minv_def relay_sendControl_def queue_def ch_send_def t split: option.split if_splits) (simp_all add: queue_task_def)
  then show ?thesis using assms False by (intro live_moves) (auto simp: terminal_def)
qed (simp add: relay_sendControl_view moves_refl [OF assms])

lemma relay_sendBinary_moves:
  assumes "minv ev st"
  shows "moves ev st (snd (relay_sendBinary ev st b))"
proof (cases "mb_ch st = None \<or> mb_state st \<noteq> StateConnected")
  case False
  let ?z = "snd (relay_sendBinary ev st b)"
  have "conn_ok ev ?z" "sends_ok ?z" "mb_roster ?z = mb_roster st" "mb_prim ?z = mb_prim st"
    using assms by (auto simp: minv_def relay_sendBinary_def queue_def ch_send_def split: option.split if_splits) (simp_all add: queue_task_def)
  then show ?thesis using assms False by (intro live_moves) (auto simp: terminal_def)
next
  case True
  then have "snd (relay_sendBinary ev st b) = st" by (auto simp: relay_sendBinary_def split: option.split)
  then show ?thesis by (simp add: moves_refl [OF assms])
qed

lemma member_publish_moves:
  assumes "minv ev st" "Problem (me_pr ev) r = Some ()" "u_NetworkKey r = me_pinned ev" "u_Version (mb_roster st) < u_Version r"
  shows "moves ev st (member_publish ev st r except)"
proof -
  have a: "moves ev st (adoptRoster ev st r)" by (rule adoptRoster_moves [OF assms])
  define m where "m rj = ''{'' @ (CHR 0x22 # ''type'' @ [CHR 0x22]) @ '':'' @ (CHR 0x22 # ''roster'' @ [CHR 0x22]) @ '','' @ (CHR 0x22 # ''roster'' @ [CHR 0x22]) @ '':'' @ rj @ ''}''" for rj
  define z where "z = (case MarshalJSON (mb_roster (adoptRoster ev st r)) of None \<Rightarrow> adoptRoster ev st r | Some rj \<Rightarrow> snd (relay_sendControl ev (adoptRoster ev st r) (m rj)))"
  have inv: "minv ev (adoptRoster ev st r)" using a by (simp add: moves_def)
  have z: "moves ev st z" unfolding z_def using a moves_trans [OF a relay_sendControl_moves [OF inv]] by (cases "MarshalJSON (mb_roster (adoptRoster ev st r))") simp_all
  have "moves ev z (z\<lparr>mb_calls := c\<rparr>)" for c by (rule moves_same) (use z in \<open>simp_all add: moves_def\<close>)
  then show ?thesis unfolding member_publish_def Let_def m_def [symmetric] z_def [symmetric] by (rule moves_trans [OF z])
qed

text \<open>A roster this node signs, over the one it holds.\<close>

lemma signed_next:
  assumes "role_ok ev st" "SignRoster (me_pr ev) u key = Some r" "u_NetworkKey u = u_NetworkKey (mb_roster st)" "u_Version u = u_Version (mb_roster st) + 1"
  shows "Problem (me_pr ev) r = Some ()" "u_NetworkKey r = me_pinned ev" "u_Version (mb_roster st) < u_Version r"
  using assms by (auto simp: role_ok_def SignRoster_def Let_def bind_eq_Some_conv signed_roster_def)

lemma signed_moves:
  assumes "minv ev st" "u_NetworkKey u = u_NetworkKey (mb_roster st)" "u_Version u = u_Version (mb_roster st) + 1"
  shows "moves ev st (case SignRoster (me_pr ev) u key of None \<Rightarrow> st | Some r \<Rightarrow> member_publish ev st r except)"
proof (cases "SignRoster (me_pr ev) u key")
  case (Some r)
  have "role_ok ev st" using assms(1) by (simp add: minv_def)
  from member_publish_moves [OF assms(1) signed_next [OF this Some assms(2,3)]] show ?thesis by (simp add: Some)
qed (simp add: moves_refl [OF assms(1)])

lemma claim_moves: "minv ev st \<Longrightarrow> moves ev st (claim ev st)"
  by (simp add: claim_def moves_refl signed_moves next_unsigned_def split: option.split)

lemma primary_publishes_moves: "minv ev st \<Longrightarrow> moves ev st (primary_publishes ev st members except)"
  by (simp add: primary_publishes_def moves_refl signed_moves next_unsigned_def split: option.split)

section \<open>Handlers\<close>

lemma askPrimary_moves: "minv ev st \<Longrightarrow> moves ev st (askPrimary ev st)"
  by (rule moves_same) (simp_all add: askPrimary_def Let_def split: option.split)

lemma hint_due_moves: "minv ev st \<Longrightarrow> moves ev st (hint_due ev st)"
  by (rule moves_same) (simp_all add: hint_due_def askPrimary_def Let_def split: option.split)

lemma onPeerVersion_moves: "minv ev st \<Longrightarrow> moves ev st (onPeerVersion ev st i v)"
  by (rule moves_same) (simp_all add: onPeerVersion_def Let_def)

lemma setShaping_same: "view (setShaping st s) = view st" "waits (setShaping st s) = waits st"
  by (simp_all add: setShaping_def Let_def)

lemma onRegistered_moves:
  assumes "minv ev st"
  shows "moves ev st (onRegistered ev st msg)"
proof -
  define z where "z = (if ''shaping'' \<in> set (mb_features st) then st else setShaping st \<lparr>sh_RateBps = 0, sh_Slowed = False\<rparr>)"
  have z: "moves ev st z" by (rule moves_same [OF assms]) (simp_all add: z_def setShaping_same)
  then have inv: "minv ev z" by (simp add: moves_def)
  have "moves ev z (queue_task z TaskAsk)" by (rule moves_same [OF inv]) simp_all
  then show ?thesis using z moves_trans [OF z offerRoster_moves [OF inv]] moves_trans [OF z]
    unfolding onRegistered_def z_def [symmetric] Let_def by (simp split: option.split)
qed

lemma onControl_same:
  assumes f: "\<And>st c. f (mcall st c) = f st" "\<And>st v. f (raise st v) = f st" "\<And>st s. f (setShaping st s) = f st" "\<And>st b. f (st\<lparr>mb_relayErrors := b\<rparr>) = f st"
  shows "f (onControl ev st msg taken) = f st"
proof (cases "str msg ''type'' = ''shaping''")
  case True
  have "f (case (a, b) of (Some rate, Some (JBool x)) \<Rightarrow> setShaping st \<lparr>sh_RateBps = rate, sh_Slowed = x\<rparr> | _ \<Rightarrow> st) = f st" for a b
    by (cases a; cases b) (simp_all add: f split: json.split)
  then show ?thesis unfolding onControl_def if_P [OF True] .
next
  case False
  show ?thesis unfolding onControl_def if_not_P [OF False] Let_def
    by (simp only: if_distrib [of f] f prod.case_distrib [of f] if_cancel case_prod_beta)
qed

lemma onControl_moves: "minv ev st \<Longrightarrow> moves ev st (onControl ev st msg taken)"
  by (erule moves_same) (rule onControl_same; simp add: setShaping_same)+

lemma onBinary_moves: "minv ev st \<Longrightarrow> moves ev st (onBinary ev st data)"
  by (rule moves_same) (auto simp: onBinary_def split: option.split)

lemma onSessionControl_moves:
  assumes "minv ev st"
  shows "moves ev st (onSessionControl ev st from msg)"
proof -
  have "moves ev st (mcall st c)" for c by (rule moves_same [OF assms]) simp_all
  then show ?thesis by (simp add: onSessionControl_def moves_refl [OF assms] offerRoster_moves [OF assms] split: option.split)
qed

lemma onHello_moves:
  assumes t: "timing_ok ev" and inv: "minv ev st" and ch: "mb_ch st = Some ch"
  shows "moves ev st (onHello ev st ch msg)"
proof -
  have live: "\<not> terminal (mb_state st)" using ch_live ch inv by (auto simp: minv_def)
  define z where "z b = st\<lparr>mb_challenge := Some b, mb_features := mb_features st @ feature_names (map_of msg ''features'')\<rparr>" for b
  have c: "conn_ok ev (z b)" for b
  proof -
    have "conn_ok ev (st\<lparr>mb_challenge := Some b\<rparr>)" using inv by (auto simp: minv_def conn_ok_def split: State.splits option.splits)
    moreover have "conn_ok ev (z b) = conn_ok ev (st\<lparr>mb_challenge := Some b\<rparr>)" by (rule conn_cong) (simp_all add: z_def)
    ultimately show ?thesis by simp
  qed
  have z: "moves ev st (z b)" for b using inv by (intro live_moves [OF inv live c]) (simp_all add: z_def minv_def)
  have "minv ev (z b)" for b using z by (simp add: moves_def)
  note close = moves_trans [OF z closeChannel_moves [OF t this]]
  have "moves ev st ((put (z b) ch m)\<lparr>mb_textSent := n\<rparr>)" for b m n
  proof (rule live_moves [OF inv live])
    show "conn_ok ev ((put (z b) ch m)\<lparr>mb_textSent := n\<rparr>)" using c [of b] conn_view [of "(put (z b) ch m)\<lparr>mb_textSent := n\<rparr>" "put (z b) ch m"] by simp
    show "sends_ok ((put (z b) ch m)\<lparr>mb_textSent := n\<rparr>)"
      using inv sends_cong [of "(put (z b) ch m)\<lparr>mb_textSent := n\<rparr>" "z b"] by (simp add: minv_def z_def)
  qed (simp_all add: z_def)
  then show ?thesis using closeChannel_moves [OF t inv] close z
    unfolding onHello_def z_def [symmetric] Let_def ch_send_def by (auto split: option.split)
qed

text \<open>Registration: the timer is off while the member reads what the relay returned, which may revoke it.\<close>

definition cfields :: "member \<Rightarrow> State \<times> nat option \<times> nat \<times> nat list \<times> nat list \<times> int option \<times> bytes option \<times> bool \<times> int \<times> int \<times> (nat \<Rightarrow> int)" where
  "cfields st = (mb_state st, mb_ch st, mb_gen st, mb_dials st, mb_resolving st, mb_timer st, mb_challenge st, mb_stopping st, mb_backoff st, mb_mono st, mb_opened st)"

lemma cfields_adopting: "cfields (adopting ev st r) = cfields st"
  by (simp add: cfields_def adopting_def syncRole_def)

lemma cfields_view:
  assumes "view a = view b"
  shows "cfields a = cfields b"
  by (simp add: cfields_def view_fields [OF assms])

lemma onRegistered_result:
  fixes msg
  assumes "role_ok ev st" "sends_ok st" "\<not> terminal (mb_state st)"
  defines "w \<equiv> onRegistered ev st msg"
  shows "role_ok ev w \<and> sends_ok w \<and> forward st w \<and> (cfields w = cfields st \<or> mb_state w = StateRevoked \<and> mb_ch w = None \<and> mb_timer w = None \<and> mb_backoff w = mb_backoff st)"
proof -
  define z where "z = (if ''shaping'' \<in> set (mb_features st) then st else setShaping st \<lparr>sh_RateBps = 0, sh_Slowed = False\<rparr>)"
  have v: "view z = view st" and wt: "waits z = waits st" by (simp_all add: z_def setShaping_same)
  note f = view_fields [OF v]
  have z: "role_ok ev z" "sends_ok z" "cfields z = cfields st" "mb_roster z = mb_roster st"
    using assms(1,2) sends_cong [OF wt f(14,15)] cfields_view [OF v] f by (simp_all add: role_ok_def)
  have tk: "role_ok ev (queue_task z t) = role_ok ev z" "cfields (queue_task z t) = cfields z" "mb_roster (queue_task z t) = mb_roster z" for t
    by (simp_all add: role_ok_def cfields_def queue_task_def)
  have ad: "role_ok ev (adoptRoster ev z r) \<and> sends_ok (adoptRoster ev z r) \<and> forward st (adoptRoster ev z r) \<and> (cfields (adoptRoster ev z r) = cfields st
      \<or> mb_state (adoptRoster ev z r) = StateRevoked \<and> mb_ch (adoptRoster ev z r) = None \<and> mb_timer (adoptRoster ev z r) = None \<and> mb_backoff (adoptRoster ev z r) = mb_backoff st)"
    if "AcceptanceProblem (me_pr ev) r (me_pinned ev) (u_Version (mb_roster z)) = Some ()" for r
  proof -
    have p: "Problem (me_pr ev) r = Some ()" "u_NetworkKey r = me_pinned ev" "u_Version (mb_roster st) < u_Version r"
      using that z(4) by (auto simp: AcceptanceProblem_def bind_eq_Some_conv guard_def split: if_splits)
    have "cfields (adopting ev z r) = cfields st" using z(3) by (simp add: cfields_adopting)
    then show ?thesis using adoptRoster_role [OF p(1,2)] adoptRoster_sends [OF z(2)] p(3) z(3,4) assms(3)
      by (auto simp: forward_def adoptRoster_alt revoke_def relay_stop_fields cfields_def)
  qed
  show ?thesis unfolding w_def onRegistered_def z_def [symmetric] Let_def
    using z tk ad by (auto simp: offerRoster_def forward_def split: option.split)
qed

lemma onText_moves:
  assumes t: "timing_ok ev" and inv: "minv ev st" and ch: "mb_ch st = Some ch"
  shows "moves ev st (onText ev st ch data taken)"
proof -
  define z where "z = st\<lparr>mb_textReceived := mb_textReceived st + int (length data)\<rparr>"
  have z: "moves ev st z" by (rule moves_same [OF inv]) (simp_all add: z_def)
  then have zi: "minv ev z" and zc: "mb_ch z = Some ch" using ch by (simp_all add: moves_def z_def)
  have live: "\<not> terminal (mb_state z)" using ch_live zc zi by (auto simp: minv_def)
  define y where "y = z\<lparr>mb_backoff := me_BackoffInitial ev, mb_regTimer := None\<rparr>"
  define w where "w msg = onRegistered ev y msg" for msg
  have yr: "role_ok ev y" "sends_ok y" "\<not> terminal (mb_state y)" using zi live by (simp_all add: minv_def role_ok_def y_def)
  have reg: "moves ev z (if mb_state (w msg) = StateConnecting \<and> mb_ch (w msg) = Some ch then setState (w msg) StateConnected else w msg)"
    if c: "mb_challenge z \<noteq> None" "mb_state z = StateConnecting" for msg
  proof -
    have r: "role_ok ev (w msg)" "sends_ok (w msg)" "forward y (w msg)" and
      cs: "cfields (w msg) = cfields y \<or> mb_state (w msg) = StateRevoked \<and> mb_ch (w msg) = None \<and> mb_timer (w msg) = None \<and> mb_backoff (w msg) = mb_backoff y"
      using onRegistered_result [OF yr] by (auto simp: w_def)
    have zk: "mb_timer z = None" "\<not> mb_stopping z" using zi c(2) by (auto simp: minv_def conn_ok_def terminal_def)
    have b: "mb_backoff y \<in> delays ev" using delays_initial [OF t] by (simp add: y_def)
    let ?r = "if mb_state (w msg) = StateConnecting \<and> mb_ch (w msg) = Some ch then setState (w msg) StateConnected else w msg"
    have "conn_ok ev ?r" using cs c zk zc b by (auto simp: conn_ok_def cfields_def y_def terminal_def)
    moreover have "role_ok ev ?r" using r(1) by (auto simp: role_ok_def terminal_def)
    moreover have "forward z ?r" using r(3) by (simp add: forward_def y_def)
    ultimately show ?thesis using r(2) live by (simp add: moves_def minv_def final_def sends_setState)
  qed
  show ?thesis unfolding onText_def Let_def z_def [symmetric] y_def [symmetric] w_def [symmetric]
    using z moves_trans [OF z onHello_moves [OF t zi zc]] moves_trans [OF z reg] moves_trans [OF z onControl_moves [OF zi]] by (auto split: option.split)
qed

lemma read_turn_moves:
  assumes t: "timing_ok ev" and inv: "minv ev st"
  shows "moves ev st (read_turn ev st ch m taken)"
proof -
  define z where "z = st\<lparr>mb_lastRead := (mb_lastRead st)(ch := mb_mono st)\<rparr>"
  have z: "moves ev st z" by (rule moves_same [OF inv]) (simp_all add: z_def)
  then have zi: "minv ev z" by (simp add: moves_def)
  show ?thesis unfolding read_turn_def Let_def z_def [symmetric]
    using z moves_trans [OF z onClose_moves [OF t zi]] moves_trans [OF z onText_moves [OF t zi]] moves_trans [OF z onBinary_moves [OF zi]] by (cases m) auto
qed

lemma whenWritable_moves: "minv ev st \<Longrightarrow> moves ev st (whenWritable st w want)"
  by (erule moves_same) (simp_all add: whenWritable_def)

lemma drained_moves: "minv ev st \<Longrightarrow> moves ev st (drained st ch wr)"
  by (erule moves_same) (simp_all add: drained_def)

lemma terminalError_None [simp]: "terminalError s = None \<longleftrightarrow> \<not> terminal s"
  by (cases s) (simp_all add: terminalError_def terminal_def)

lemma online_moves:
  assumes "minv ev st"
  shows "moves ev st (online st)"
proof -
  have "sends_ok st" using assms by (simp add: minv_def)
  then have "sends_ok (online st)"
    by (cases "terminal (mb_state st)") (auto simp: online_def Let_def sends_ok_def mcall_def lessThan_Suc split: option.splits)
  moreover have "conn_ok ev (online st) = conn_ok ev st" by (rule conn_cong; simp add: online_def Let_def split: option.split)
  ultimately show ?thesis using assms by (intro stays_moves [OF assms]) (simp_all add: minv_def online_def Let_def split: option.split)
qed

lemma send_given_up_moves:
  assumes "minv ev st"
  shows "moves ev st (send_given_up st m e)"
proof -
  have "sends_ok st" using assms by (simp add: minv_def)
  then have "sends_ok (send_given_up st m e)" by (auto simp: send_given_up_def sends_ok_def)
  moreover have "conn_ok ev (send_given_up st m e) = conn_ok ev st" by (rule conn_cong; simp add: send_given_up_def)
  ultimately show ?thesis using assms by (intro stays_moves [OF assms]) (simp_all add: minv_def send_given_up_def)
qed

lemma admit_waiting_moves:
  assumes "minv ev st"
  shows "moves ev st (admit_waiting st)"
proof -
  have "sends_ok (admit_waiting st)" using assms by (auto simp: minv_def admit_waiting_def sends_ok_def)
  moreover have "conn_ok ev (admit_waiting st) = conn_ok ev st" by (rule conn_cong; simp add: admit_waiting_def)
  ultimately show ?thesis using assms by (intro stays_moves [OF assms]) (simp_all add: minv_def admit_waiting_def)
qed

lemma run_mtask_moves:
  assumes t: "timing_ok ev" and inv: "minv ev st"
  shows "moves ev st (run_mtask ev st)"
proof (cases "mb_tasks st")
  case (Cons x ts)
  let ?z = "st\<lparr>mb_tasks := ts\<rparr>"
  have z: "moves ev st ?z" by (rule moves_same [OF inv]) simp_all
  then have zi: "minv ev ?z" by (simp add: moves_def)
  have w: "moves ev ?z (mcall ?z c)" for c by (rule moves_same [OF zi]) simp_all
  show ?thesis using z moves_trans [OF z claim_moves [OF zi]] moves_trans [OF z askPrimary_moves [OF zi]] moves_trans [OF z admit_waiting_moves [OF zi]]
    moves_trans [OF z abandon_moves [OF t zi]] moves_trans [OF z w] by (cases x) (simp_all add: run_mtask_def Cons Let_def)
qed (simp add: run_mtask_def moves_refl [OF inv])

lemma member_Close_moves:
  assumes "minv ev st"
  shows "moves ev st (member_Close ev st)"
proof (cases "mb_state st = StateClosed")
  case False
  have c: "moves ev st (relay_stop ev st StateClosed)" by (rule relay_stop_moves [OF assms]) (simp_all add: terminal_def)
  then have "minv ev (relay_stop ev st StateClosed)" by (simp add: moves_def)
  from moves_same [OF this, of "(mcall (relay_stop ev st StateClosed) SessClose)\<lparr>mb_hintTimer := None\<rparr>"] moves_trans [OF c] False
  show ?thesis by (simp add: member_Close_def relay_close_def)
qed (simp add: member_Close_def moves_refl [OF assms])

lemma time_moves:
  assumes "minv ev st" "mb_mono st \<le> now"
  shows "moves ev st (st\<lparr>mb_mono := now, mb_wall := wall\<rparr>)"
proof (rule stays_moves [OF assms(1)])
  have "conn_ok ev st" using assms(1) by (simp add: minv_def)
  then show "conn_ok ev (st\<lparr>mb_mono := now, mb_wall := wall\<rparr>)"
    using assms(2) armed_later [OF _ assms(2), of ev] by (cases "mb_state st"; cases "mb_ch st") (auto simp: conn_ok_def)
  show "sends_ok (st\<lparr>mb_mono := now, mb_wall := wall\<rparr>)"
    using assms(1) sends_cong [of "st\<lparr>mb_mono := now, mb_wall := wall\<rparr>" st] by (simp add: minv_def)
qed simp_all

section \<open>Runs of a member\<close>

text \<open>
  One step: a dial, a read or the application's resolver returns, a timer that is due fires, the application, the
  sessions or the primary call in, time passes. When returns come, and that they come, is the world's.
\<close>

inductive cstep :: "menv \<Rightarrow> member \<Rightarrow> member \<Rightarrow> bool" for ev where
  dial_returns: "g \<in> set (mb_dials st) \<Longrightarrow> cstep ev st (dialed ev st g ok)"
| dial_timer: "mb_timer st = Some d \<Longrightarrow> d \<le> mb_mono st \<Longrightarrow> cstep ev st (dial_due st)"
| registration_timer: "mb_regTimer st = Some (ch, d) \<Longrightarrow> d \<le> mb_mono st \<Longrightarrow> cstep ev st (reg_due ev st)"
| liveness_timer: "mb_liveTimer st = Some (ch, d) \<Longrightarrow> d \<le> mb_mono st \<Longrightarrow> cstep ev st (live_due ev st)"
| hint_timer: "mb_hintTimer st = Some d \<Longrightarrow> d \<le> mb_mono st \<Longrightarrow> cstep ev st (hint_due ev st)"
| resolve_returns: "g \<in> set (mb_resolving st) \<Longrightarrow> cstep ev st (resolved ev st g url)"
| reads: "cstep ev st (read_turn ev st ch m taken)"
| session_message: "cstep ev st (onSessionControl ev st from msg)"
| peer_version: "cstep ev st (onPeerVersion ev st from v)"
| ask_fallback: "cstep ev st (askPrimary ev st)"
| frame_sent: "cstep ev st (snd (relay_sendBinary ev st b))"
| control_sent: "cstep ev st (snd (relay_sendControl ev st msg))"
| primary_signs: "cstep ev st (primary_publishes ev st members except)"
| waits_writable: "cstep ev st (whenWritable st w want)"
| socket_drains: "cstep ev st (drained st ch wr)"
| sends: "cstep ev st (online st)"
| send_ends: "cstep ev st (send_given_up st o' e)"
| task: "cstep ev st (run_mtask ev st)"
| closes: "cstep ev st (member_Close ev st)"
| time: "mb_mono st \<le> now \<Longrightarrow> cstep ev st (st\<lparr>mb_mono := now, mb_wall := wall\<rparr>)"

inductive creach :: "menv \<Rightarrow> member \<Rightarrow> bool" for ev where
  start: "newMember ev r url now wall = Some st \<Longrightarrow> creach ev (member_start ev st)"
| step: "creach ev st \<Longrightarrow> cstep ev st st' \<Longrightarrow> creach ev st'"

lemma cstep_moves:
  assumes t: "timing_ok ev" and "cstep ev st st'" and inv: "minv ev st"
  shows "moves ev st st'"
  using assms(2)
proof cases
  case (time now wall)
  then show ?thesis using time_moves [OF inv] by simp
qed (simp_all add: relay_sendBinary_moves [OF inv] relay_sendControl_moves [OF inv] dialed_moves [OF t inv] dial_due_moves [OF inv] reg_due_moves [OF t inv] live_due_moves [OF t inv] hint_due_moves [OF inv] resolved_moves [OF t inv]
       read_turn_moves [OF t inv] onSessionControl_moves [OF inv] onPeerVersion_moves [OF inv] askPrimary_moves [OF inv] primary_publishes_moves [OF inv]
       whenWritable_moves [OF inv] drained_moves [OF inv] online_moves [OF inv] send_given_up_moves [OF inv] run_mtask_moves [OF t inv] member_Close_moves [OF inv])

lemma start_minv:
  assumes t: "timing_ok ev" and n: "newMember ev r url now wall = Some st"
  shows "minv ev (member_start ev st)"
proof -
  have f: "mb_roster st = r" "Problem (me_pr ev) r = Some ()" "member_of r (me_self ev) \<noteq> None" "u_NetworkKey r = me_pinned ev" "mb_state st = StateDisconnected" "mb_stopping st = False"
    "mb_ch st = None" "mb_timer st = None" "mb_backoff st = me_BackoffInitial ev" "mb_offline st = []" "mb_answers st = []" "mb_admitted st = []" "mb_nsends st = 0"
    using n by (auto simp: newMember_def Let_def split: if_splits)
  have s: "mb_stopping (syncRole ev st) = False" "mb_timer (syncRole ev st) = None" "mb_backoff (syncRole ev st) = me_BackoffInitial ev"
    using f by (simp_all add: syncRole_def)
  let ?z = "member_start ev st"
  have "role_ok ev ?z" using f by (auto simp: role_ok_def member_start_def relay_start_def s dial_def Let_def)
  moreover have "conn_ok ev ?z" using f s delays_initial [OF t] by (simp add: conn_ok_def member_start_def relay_start_def dial_def Let_def)
  moreover have "sends_ok (syncRole ev st)" using f sends_cong [of "syncRole ev st" st] by (simp add: sends_ok_def)
  then have "sends_ok ?z" using f s by (simp add: member_start_def relay_start_def dial_def Let_def sends_setState)
  ultimately show ?thesis by (simp add: minv_def)
qed

lemma creach_minv:
  assumes "timing_ok ev" "creach ev st"
  shows "minv ev st"
  using assms(2) by induction (use start_minv [OF assms(1)] cstep_moves [OF assms(1)] in \<open>auto simp: moves_def\<close>)

section \<open>Properties\<close>

text \<open>A member of the one-node network of \<open>Roster_Properties\<close>.\<close>

definition demo_menv :: menv where
  "demo_menv = \<lparr>me_self = id_ID demo_identity, me_edPub = id_edPub demo_identity, me_sign = (\<lambda>_. replicate 64 1), me_pinned = u_NetworkKey demo_roster, me_key = None, me_pr = demo_pr,
     me_dec = demo_dec, me_marshal = (\<lambda>_. []), me_origin = (\<lambda>_. Some ''a''), me_url_ok = (\<lambda>_. True), me_resolves = False, me_BackoffInitial = 500000000, me_BackoffMax = 10 * Second,
     me_RequestTimeout = 10 * Second, me_liveness = 0, me_accepts = (\<lambda>_ _. True), me_overflowed = (\<lambda>_ _. False)\<rparr>"

lemma demo_member: "\<exists>st. newMember demo_menv demo_roster ''wss://a'' 0 0 = Some st \<and> mb_state st = StateDisconnected \<and> \<not> mb_stopping st \<and> mb_nsends st = 0"
proof -
  have "Problem demo_pr demo_roster = Some ()" using demo_valid by (auto simp: ValidateRoster_def bind_eq_Some_conv)
  moreover have "member_of demo_roster (id_ID demo_identity) \<noteq> None"
    by (simp add: member_of_def member_in_def demo_roster_def MemberFromIdentity_def Let_def)
  ultimately show ?thesis by (simp add: newMember_def demo_menv_def)
qed

definition demo_started :: member where
  "demo_started = member_start demo_menv (the (newMember demo_menv demo_roster ''wss://a'' 0 0))"

lemma demo_started: "timing_ok demo_menv" "creach demo_menv demo_started" "mb_state demo_started = StateConnecting"
proof -
  show "timing_ok demo_menv" by (simp add: timing_ok_def demo_menv_def Second_def)
  obtain st where st: "newMember demo_menv demo_roster ''wss://a'' 0 0 = Some st" "mb_state st = StateDisconnected" "\<not> mb_stopping st" using demo_member by blast
  then show "creach demo_menv demo_started" by (simp add: demo_started_def creach.start)
  show "mb_state demo_started = StateConnecting" using st by (simp add: demo_started_def member_start_def relay_start_def dial_def syncRole_def Let_def)
qed

text \<open>
  What is to become of a member that is not connected: it waits for its next dial, with a timer started now for a delay
  between the bounds, or it dials afresh.
\<close>

definition waits_to_dial :: "menv \<Rightarrow> member \<Rightarrow> member \<Rightarrow> bool" where
  "waits_to_dial ev st st' \<longleftrightarrow> mb_state st' = StateDisconnected \<and> mb_gen st' = mb_gen st
     \<and> (\<exists>b. 0 < b \<and> b \<le> max (me_BackoffInitial ev) (me_BackoffMax ev) \<and> mb_timer st' = Some (mb_mono st + b))"

definition dials_afresh :: "member \<Rightarrow> member \<Rightarrow> bool" where
  "dials_afresh st st' \<longleftrightarrow> mb_state st' = StateConnecting \<and> mb_ch st' = None \<and> mb_gen st' = Suc (mb_gen st) \<and> mb_gen st' \<in> set (mb_dials st')"

lemma afterClose_waits:
  "mb_backoff st \<in> delays ev \<Longrightarrow> \<not> terminal (mb_state st) \<Longrightarrow> \<not> mb_stopping st \<Longrightarrow> waits_to_dial ev st (afterClose ev st 1006)"
  by (auto simp: waits_to_dial_def afterClose_def schedule_def Let_def CloseNotMember_def CloseReplaced_def CloseMoved_def delays_def)

lemma waits_from: "waits_to_dial ev a b \<Longrightarrow> mb_gen a = mb_gen st \<Longrightarrow> mb_mono a = mb_mono st \<Longrightarrow> waits_to_dial ev st b"
  by (simp add: waits_to_dial_def)

lemma conn_ok_live: "conn_ok ev st \<Longrightarrow> \<not> terminal (mb_state st) \<Longrightarrow> \<not> mb_stopping st \<and> mb_backoff st \<in> delays ev"
  by (auto simp: conn_ok_def)

lemma dial_fails_waits:
  assumes "conn_ok ev st" "mb_state st = StateConnecting" "mb_ch st = None"
  shows "waits_to_dial ev st (dialed ev st (mb_gen st) False)"
proof -
  let ?z = "raise (st\<lparr>mb_dials := remove1 (mb_gen st) (mb_dials st)\<rparr>) (DisconnectEvent 1006)"
  have "waits_to_dial ev ?z (afterClose ev ?z 1006)"
    using conn_ok_live [OF assms(1)] assms(2) by (intro afterClose_waits) (simp_all add: terminal_def)
  then have "waits_to_dial ev st (afterClose ev ?z 1006)" by (rule waits_from) simp_all
  then show ?thesis using assms(2,3) by (simp add: dialed_def Let_def)
qed

lemma reg_due_waits:
  assumes "conn_ok ev st" "mb_state st = StateConnecting" "mb_ch st = Some ch" "mb_regTimer st = Some (ch, d)"
  shows "waits_to_dial ev st (reg_due ev st)"
proof -
  let ?y = "put (st\<lparr>mb_regTimer := None\<rparr>) ch (OutClose CloseNormal)"
  let ?z = "raise (?y\<lparr>mb_ch := None, mb_regTimer := None, mb_liveTimer := None, mb_waiters := [], mb_tasks := mb_tasks ?y @ map TaskWaiter (mb_waiters ?y)\<rparr>) (DisconnectEvent 1006)"
  have "waits_to_dial ev ?z (afterClose ev ?z 1006)"
    using conn_ok_live [OF assms(1)] assms(2) by (intro afterClose_waits) (simp_all add: terminal_def put_def)
  then have "waits_to_dial ev st (afterClose ev ?z 1006)" by (rule waits_from) (simp_all add: put_def)
  then show ?thesis using assms(2-4) by (simp add: reg_due_def abandon_def onClose_def Let_def)
qed

lemma dial_due_dials: "mb_state st = StateDisconnected \<Longrightarrow> mb_ch st = None \<Longrightarrow> mb_timer st = Some d \<Longrightarrow> dials_afresh st (dial_due st)"
  by (simp add: dials_afresh_def dial_due_def dial_def Let_def)

lemma resolved_waits:
  assumes "conn_ok ev st" "mb_state st = StateDisconnected"
  shows "waits_to_dial ev st (resolved ev st (mb_gen st) url)"
  using conn_ok_live [OF assms(1)] assms(2)
  by (auto simp: waits_to_dial_def resolved_def schedule_def Let_def delays_def terminal_def split: option.split)

text \<open>
  C13. A member is never left without its relay. In every state a run reaches, whatever the relay does or does not do, a
  member that has not stopped for good and is not connected has something under way that leads to a fresh dial with no
  help of the relay. Connecting without a socket, the dial of the current generation is outstanding: if it fails, a timer
  is started, for a delay between the bounds; if it gives a socket, the registration timer is. Connecting with a socket,
  the registration timer is running, due \<open>registrationTimeout\<close> after the socket opened whatever came since, and when it
  fires the member gives the socket up and starts the delay. Disconnected, that delay's timer is running, and when it
  fires the member dials afresh; or the application is asked where the relay went, and any answer of its starts the delay.
\<close>

theorem member_reconnects:
  assumes "timing_ok ev" "creach ev st" "\<not> terminal (mb_state st)" "mb_state st \<noteq> StateConnected"
  shows "(mb_state st = StateConnecting \<and> mb_ch st = None \<and> mb_gen st \<in> set (mb_dials st)
        \<and> waits_to_dial ev st (dialed ev st (mb_gen st) False)
        \<and> mb_ch (dialed ev st (mb_gen st) True) = Some (mb_nch st)
        \<and> mb_regTimer (dialed ev st (mb_gen st) True) = Some (mb_nch st, mb_mono st + registrationTimeout ev))
    \<or> (\<exists>ch. mb_state st = StateConnecting \<and> mb_ch st = Some ch \<and> mb_opened st ch \<le> mb_mono st
        \<and> mb_regTimer st = Some (ch, mb_opened st ch + registrationTimeout ev) \<and> waits_to_dial ev st (reg_due ev st))
    \<or> (\<exists>t b. mb_state st = StateDisconnected \<and> mb_timer st = Some (t + b) \<and> t \<le> mb_mono st \<and> 0 < b
        \<and> b \<le> max (me_BackoffInitial ev) (me_BackoffMax ev) \<and> dials_afresh st (dial_due st))
    \<or> (mb_state st = StateDisconnected \<and> mb_gen st \<in> set (mb_resolving st)
        \<and> (\<forall>url. waits_to_dial ev st (resolved ev st (mb_gen st) url)))"
proof -
  have inv: "conn_ok ev st" using creach_minv [OF assms(1,2)] by (simp add: minv_def)
  consider (dialling) "mb_state st = StateConnecting" "mb_ch st = None" | (open') ch where "mb_state st = StateConnecting" "mb_ch st = Some ch"
    | (timed) d where "mb_state st = StateDisconnected" "mb_timer st = Some d" | (asked) "mb_state st = StateDisconnected" "mb_timer st = None"
    using assms(3,4) by (cases "mb_state st"; cases "mb_ch st"; cases "mb_timer st") (simp_all add: terminal_def)
  then show ?thesis
  proof cases
    case dialling
    then show ?thesis using inv dial_fails_waits [OF inv] by (auto simp: conn_ok_def dialed_def Let_def)
  next
    case open'
    then show ?thesis using inv reg_due_waits [OF inv open'] by (auto simp: conn_ok_def)
  next
    case (timed d)
    have "mb_ch st = None" "armed ev (mb_mono st) d" using inv timed by (simp_all add: conn_ok_def)
    then show ?thesis using timed dial_due_dials [OF timed(1) _ timed(2)] by (auto simp: armed_def delays_def)
  next
    case asked
    then show ?thesis using inv resolved_waits [OF inv asked(1)] by (simp add: conn_ok_def)
  qed
qed

text \<open>A member whose dial gave a socket to a relay that says nothing: the registration timer stands behind it.\<close>

definition demo_open :: member where
  "demo_open = dialed demo_menv demo_started (mb_gen demo_started) True"

theorem member_reconnects_witness:
  "mb_state demo_open = StateConnecting \<and> mb_ch demo_open \<noteq> None \<and> waits_to_dial demo_menv demo_open (reg_due demo_menv demo_open)"
proof -
  obtain st where st: "newMember demo_menv demo_roster ''wss://a'' 0 0 = Some st" "mb_state st = StateDisconnected" "\<not> mb_stopping st" using demo_member by blast
  then have "mb_ch st = None" by (auto simp: newMember_def Let_def split: if_splits)
  then have s: "mb_ch demo_started = None" "mb_gen demo_started \<in> set (mb_dials demo_started)"
    using st by (simp_all add: demo_started_def member_start_def relay_start_def dial_def Let_def) (simp_all add: syncRole_def)
  have o: "mb_state demo_open = StateConnecting" "mb_ch demo_open \<noteq> None"
    using s demo_started(3) by (simp_all add: demo_open_def dialed_def Let_def)
  have "creach demo_menv demo_open" unfolding demo_open_def by (rule creach.step [OF demo_started(2) cstep.dial_returns [OF s(2)]])
  from member_reconnects [OF demo_started(1) this] o show ?thesis by (auto simp: terminal_def)
qed

text \<open>
  C14. Stopped for good. Once a member is closed, revoked or replaced, no message, timer, dial, roster or call gives it a connection or writes to
  a socket again: it stays stopped, and a closed one stays closed.
\<close>

theorem terminal_final:
  assumes "timing_ok ev" "creach ev st" "terminal (mb_state st)" "cstep ev st st'"
  shows "terminal (mb_state st') \<and> mb_ch st' = None \<and> mb_timer st' = None \<and> mb_out st' = mb_out st \<and> (mb_state st = StateClosed \<longrightarrow> mb_state st' = StateClosed)"
proof -
  have m: "moves ev st st'" by (rule cstep_moves [OF assms(1,4) creach_minv [OF assms(1,2)]])
  then have "terminal (mb_state st')" using assms(3) by (simp add: moves_def final_def)
  moreover have "conn_ok ev st'" using m by (simp add: moves_def minv_def)
  ultimately have "mb_ch st' = None \<and> mb_timer st' = None" by (auto simp: conn_ok_def terminal_def)
  then show ?thesis using m assms(3) \<open>terminal (mb_state st')\<close> by (simp add: moves_def final_def)
qed

theorem terminal_final_witness: "mb_ch (online (member_Close demo_menv demo_started)) = None \<and> mb_state (online (member_Close demo_menv demo_started)) = StateClosed"
proof -
  let ?c = "member_Close demo_menv demo_started"
  have s: "mb_state ?c = StateClosed" using demo_started(3) by (simp add: member_Close_def relay_close_def relay_stop_fields)
  have "creach demo_menv ?c" by (rule creach.step [OF demo_started(2) cstep.closes])
  then show ?thesis using terminal_final [OF demo_started(1) _ _ cstep.sends, of ?c] s by (simp add: terminal_def)
qed

text \<open>
  C12. The roster a member holds. It is valid and signed under the network key pinned at pairing, in every state of every run; a
  step keeps it or replaces it by one of a greater version, whoever sent it; the member acts as the primary exactly while it holds the network
  seed and the roster names it; and one the roster drops has stopped for good.
\<close>

theorem member_roster_forward:
  assumes "timing_ok ev" "creach ev st" "cstep ev st st'"
  shows "(mb_roster st' = mb_roster st \<or> u_Version (mb_roster st) < u_Version (mb_roster st'))
    \<and> Problem (me_pr ev) (mb_roster st') = Some () \<and> u_NetworkKey (mb_roster st') = me_pinned ev
    \<and> (mb_prim st' \<longleftrightarrow> me_key ev \<noteq> None \<and> u_Primary (mb_roster st') = me_self ev)
    \<and> (terminal (mb_state st') \<or> member_of (mb_roster st') (me_self ev) \<noteq> None)"
  using cstep_moves [OF assms(1,3) creach_minv [OF assms(1,2)]] by (simp add: moves_def forward_def minv_def role_ok_def)

text \<open>A peer sends the demo member the next version of its roster, which it adopts.\<close>

definition demo_next :: SignedRoster where "demo_next = demo_roster\<lparr>u_Version := 2\<rparr>"

definition demo_next_tree :: json where
  "demo_next_tree = JObj [(''network'', JStr (u_Network demo_roster)), (''version'', JNum ''2''), (''issuedAt'', JNum ''5''), (''relay'', JStr []),
     (''networkKey'', JStr (u_NetworkKey demo_roster)), (''primary'', JStr (u_Primary demo_roster)),
     (''members'', JArr [JObj [(''id'', JStr (id_ID demo_identity)), (''ed25519'', JStr (b64u (replicate 32 1))), (''x25519'', JStr (b64u (replicate 32 2)))]]),
     (''signature'', JStr (b64u (replicate 64 1)))]"

definition demo_menv2 :: menv where
  "demo_menv2 = demo_menv\<lparr>me_dec := (\<lambda>data. (tokens_of demo_next_tree, True))\<rparr>"

definition demo_started2 :: member where
  "demo_started2 = member_start demo_menv2 (the (newMember demo_menv2 demo_roster ''wss://a'' 0 0))"

lemma demo_started2: "timing_ok demo_menv2" "creach demo_menv2 demo_started2" "mb_roster demo_started2 = demo_roster"
proof -
  show "timing_ok demo_menv2" by (simp add: timing_ok_def demo_menv2_def demo_menv_def Second_def)
  obtain st where st: "newMember demo_menv demo_roster ''wss://a'' 0 0 = Some st" "mb_state st = StateDisconnected" "\<not> mb_stopping st" using demo_member by blast
  have same: "newMember demo_menv2 demo_roster ''wss://a'' 0 0 = newMember demo_menv demo_roster ''wss://a'' 0 0" by (simp add: newMember_def demo_menv2_def Let_def)
  then show "creach demo_menv2 demo_started2" using st by (simp add: demo_started2_def creach.start)
  have "mb_roster st = demo_roster" using st by (auto simp: newMember_def Let_def split: if_splits)
  then show "mb_roster demo_started2 = demo_roster" using st same by (simp add: demo_started2_def member_start_def relay_start_def dial_def Let_def)
qed

lemma demo_next_read: "parseJSON (me_dec demo_menv2) [] = Some demo_next_tree" "rosterFromTree demo_next_tree = Some demo_next"
proof -
  have int: "safeInteger (Some (JNum ''2'')) = Some 2" "safeInteger (Some (JNum ''5'')) = Some 5" by code_simp+
  have nums: "TNum s \<in> set (tokens_of demo_next_tree) \<Longrightarrow> is_number s" for s
    by (auto simp: demo_next_tree_def is_number_def split_number_def split_exp_def is_digit_def starts_def)
  then have num: "snd (ParseFloat ''2'') = False" "snd (ParseFloat ''5'') = False"
    using int ParseFloat_integer(1) by (simp_all add: demo_next_tree_def)
  have "acceptable (\<lambda>t. snd (ParseFloat t) \<and> fst (ParseFloat t) = Infinite) (\<lambda>depth. depth > 32) 1 demo_next_tree"
    by (simp add: demo_next_tree_def num)
  then have "parse_value (\<lambda>t. snd (ParseFloat t) \<and> fst (ParseFloat t) = Infinite) (\<lambda>depth. depth > 32) 1 (tokens_of demo_next_tree) = Some (demo_next_tree, [])"
    by (simp add: parse_exact)
  then show "parseJSON (me_dec demo_menv2) [] = Some demo_next_tree" by (simp add: parseJSON_def demo_menv2_def codes_def ascii_valid ascii_def)
  show "rosterFromTree demo_next_tree = Some demo_next"
    by (simp add: int demo_next_def demo_next_tree_def rosterFromTree_def member_from_tree_def without_def demo_roster_def MemberFromIdentity_def demo_identity_def)
qed

lemma demo_next_valid: "Problem demo_pr demo_next = Some ()"
proof -
  have "one_member demo_pr demo_identity (replicate 32 1) demo_next" using demo_one by (simp add: one_member_def demo_next_def)
  then show ?thesis
    using demo_ok(4) by (intro one_member_valid [OF demo_ok(1,2) _ _, of "replicate 32 1" demo_next "replicate 64 1"])
      (simp_all add: demo_next_def demo_roster_def demo_pr_def)
qed

theorem member_roster_forward_witness:
  "(let st' = onSessionControl demo_menv2 demo_started2 [] (sm_plain sessRoster [])
    in mb_roster st' = demo_next \<and> u_Version (mb_roster demo_started2) < u_Version (mb_roster st') \<and> Problem demo_pr (mb_roster st') = Some () \<and> \<not> mb_prim st')"
proof -
  let ?st' = "onSessionControl demo_menv2 demo_started2 [] (sm_plain sessRoster [])"
  have acc: "AcceptanceProblem demo_pr demo_next (u_NetworkKey demo_roster) (u_Version demo_roster) = Some ()"
    using demo_next_valid by (simp add: AcceptanceProblem_def demo_next_def guard_def demo_roster_def)
  have e: "me_pr demo_menv2 = demo_pr" "me_pinned demo_menv2 = u_NetworkKey demo_roster" "me_key demo_menv2 = None" by (simp_all add: demo_menv2_def demo_menv_def)
  have r: "mb_roster ?st' = demo_next"
    using acc demo_next_read demo_started2(3)
    by (simp add: onSessionControl_def sm_plain_def sessRoster_def sessRosterRequest_def bytes_str_def offerRoster_def e)
  show ?thesis
    using member_roster_forward [OF demo_started2(1,2) cstep.session_message, of "[]" "sm_plain sessRoster []"] r demo_started2(3)
    by (simp add: e demo_next_def demo_roster_def)
qed

text \<open>
  C15. No send is lost while the relay is away. Every send that was made has waited, been answered with an error or been handed to the sessions,
  and only one of these; none waits once the member has stopped for good.
\<close>

theorem sends_accounted:
  assumes "timing_ok ev" "creach ev st"
  shows "distinct (mb_offline st @ map fst (mb_answers st) @ mb_admitted st) \<and> set (mb_offline st @ map fst (mb_answers st) @ mb_admitted st) = {..<mb_nsends st}
    \<and> (mb_offline st = [] \<or> \<not> terminal (mb_state st))"
  using creach_minv [OF assms] by (auto simp: minv_def sends_ok_def)

theorem sends_accounted_witness:
  "set (mb_offline (online demo_started) @ map fst (mb_answers (online demo_started)) @ mb_admitted (online demo_started)) = {..<Suc (mb_nsends demo_started)}"
proof -
  have "mb_nsends (online demo_started) = Suc (mb_nsends demo_started)" by (simp add: online_def Let_def split: option.split)
  then show ?thesis using sends_accounted [OF demo_started(1) creach.step [OF demo_started(2) cstep.sends]] by simp
qed

end
