(* ===== verification/Spec2Isabelle.thy ===== *)
theory Spec2Isabelle
  imports Encoding Frames Ws_Frame Float64 Limiters Conn_Queue Relay_Properties Roster_Properties Session_Properties Pairing_Properties Member_Properties
begin

text \<open>
  \<^bold>\<open>A verification of Link's relay and Go client.\<close>

  \<^bold>\<open>The program.\<close> Link is a private network: every member holds one outbound WebSocket to a relay, and members
  exchange end-to-end encrypted messages through it. A network is defined by its \<^emph>\<open>roster\<close>, the list of its members
  signed by the network's key; the member that holds the key and is named by the roster is the \<^emph>\<open>primary\<close>. The relay
  (\<open>src/relay\<close>) admits a connection whose node is on the newest roster it has seen, routes frames between the members
  of one network, shapes and counts what they send, keeps rosters of networks nobody is connected to within a budget,
  and carries pairing channels between a newcomer and a primary. The client (\<open>src/client-go\<close>) keeps the connection and
  the roster held, runs Noise sessions with its peers with credit-based flow control, and, as the primary, opens
  pairing codes, admits newcomers by SPAKE2 and signs rosters. This development models both Go programs from their sources.

  \<^bold>\<open>Theories and sources.\<close> Paths are under \<open>src/\<close>. In each pair the first theory holds the definitions.

  \<^item> \<open>Prelude\<close>: types (bytes are lists of 8-bit words, Go strings char lists), big-endian digits, Go's division, list lemmas.
  \<^item> \<open>Encoding\<close>: base64url, base32, ids, keys and the signed byte strings (\<open>relay/internal/link/ids.go\<close>,
    \<open>client-go/bytes.go\<close>, \<open>identity.go\<close>, \<open>signed.go\<close>); \<open>Frames\<close>: the frame codecs (\<open>client-go/frames.go\<close>); \<open>Ws_Frame\<close>: WebSocket
    headers (\<open>relay/internal/relay/conn.go\<close>, \<open>read.go\<close>).
  \<^item> \<open>Utf8\<close>, \<open>Float64\<close>, \<open>Json\<close> and \<open>Json_Properties\<close>: the two strict JSON parsers and RFC 8785
    (\<open>relay/internal/link/jcs.go\<close>, \<open>client-go/jcs.go\<close>) over the tokens of \<open>encoding/json\<close>; doubles as rationals rounded to 53 bits.
  \<^item> \<open>Ed25519\<close>: the two strict signature checks (\<open>link/ed25519.go\<close>, \<open>client-go/signed.go\<close>, \<open>identity.go\<close>);
    \<open>Rosters\<close> and \<open>Roster_Properties\<close>: rosters on both sides (\<open>link/roster.go\<close>, \<open>client-go/roster.go\<close>), making and placing a network.
  \<^item> \<open>Limiters\<close>: the relay's budgets, connection counts and hour window (\<open>relay/limits.go\<close>); \<open>Conn_Queue\<close>: the write queue
    of a relay connection (\<open>relay/conn.go\<close>), with every interleaving of queueing, writing and closing as the step relation \<open>wstep\<close>.
  \<^item> \<open>Relay_State\<close>, \<open>Go_Heap\<close>, \<open>Idle_Rosters\<close>, \<open>Relay_Network\<close>: the relay's tables and every handler of \<open>server.go\<close>, \<open>network.go\<close>,
    \<open>idle.go\<close>, \<open>pairing.go\<close>, \<open>limits_file.go\<close> that changes them; \<open>Relay_Invariant\<close>, \<open>Relay_Safety\<close>, \<open>Relay_Properties\<close>: the step
    relation \<open>rstep\<close>, one section under a lock a step, its invariants and what they give.
  \<^item> \<open>Codes\<close>, \<open>Spake2\<close>, \<open>Pairing_Exchange\<close>, \<open>Pairing_Primary\<close>: codes and links (\<open>client-go/code.go\<close>), SPAKE2 with its 64-bit limb arithmetic
    (\<open>spake2.go\<close>), the six messages (\<open>pairing.go\<close>), the primary's codes, channels and rosters (\<open>primary.go\<close>); \<open>Pairing_Invariant\<close>,
    \<open>Pairing_Properties\<close>: runs of a primary (\<open>pstep\<close>).
  \<^item> \<open>Stamps\<close>, \<open>Peer_Limits\<close>, \<open>Session_State\<close>, \<open>Sessions\<close>, \<open>Session_Ops\<close>: the session manager (\<open>sessions.go\<close>, \<open>limits.go\<close> of \<open>client-go\<close>);
    \<open>Session_Invariant\<close>, \<open>Session_Steps\<close>, \<open>Session_Properties\<close>: its invariant and runs (\<open>mstep\<close>).
  \<^item> \<open>Member_Relay\<close>, \<open>Member_Properties\<close>: the member's relay connection, role, roster held and waiting sends (\<open>relay.go\<close>, \<open>role.go\<close>,
    \<open>member.go\<close>), and its runs (\<open>cstep\<close>).

  \<^bold>\<open>How code becomes definitions.\<close> A struct is a record, an enum a datatype. Objects that share state live in
  stores by address (networks, connections, sessions, outgoing messages), so aliasing is as in the code. A method is a function
  from the state to the state and its result; errors are \<open>None\<close>, \<open>Inl\<close> or an error value. Locks: a definition is what runs under
  one lock, and the step relations interleave them freely. Deferred work is a list of tasks; a timer is a flag a step may take,
  or, for the member's connection, the time it is due, which the step that fires it waits for. Clock readings, random draws and the orders of Go's
  map iteration are arguments, chosen freely by the step relations. Code that is not in the repository is a parameter: the
  tokens of \<open>encoding/json\<close>, SHA-256, HKDF, HMAC, the AEAD, P-256, Ed25519's group equation, the Noise library, the socket's
  answers. What a theorem needs of one is a named hypothesis, with a witness in which a concrete function satisfies it.

  \<^bold>\<open>Interfaces.\<close> Locales state what a client of a component uses: \<open>radix_codec\<close> (a text codec over an alphabet of a power of two;
  interpreted for base64url and base32), \<open>float_rounding\<close> (rounding to double; for \<open>f64\<close>), \<open>most_first\<close> (a heap by
  bytes held; for Go's \<open>container/heap\<close> as \<open>heapq\<close>, from which the idle accounting is proved), \<open>budget\<close> (a theoretical
  arrival time; for \<open>allow\<close>), \<open>steady\<close> (what every operation of the session manager keeps; for the invariant \<open>sinv\<close>).

  \<^bold>\<open>What is shown.\<close>

  \<^item> The relay, in every reachable state: connected members are on the effective roster and in one network (C1), frames stay in their
    network under the sender's id (C2), rosters never go back and a revoked node is refused (C3, C4), members are told the shaping
    in force and charges are held to it (C5), the idle accounting is exact, per address and in total, and complete (C21), trimming
    returns within the budget when the table holds what is counted (C22).
  \<^item> Its connections: whole frames in order on the wire, a flushed close loses nothing, the counts (C24, C25, C26). Its hour window (C28).
  \<^item> Pairing: SPAKE2 agreement, what a confirmation binds, the limb arithmetic (C7, C8, C38), the exchange completes (C9), a code admits
    one node and slots are bounded (C6, C11), admissions and removals change the roster by exactly one node (C10, C39), links read back (C40).
  \<^item> Sessions, in every run: credit conserved (C16), buffers counted and bounded (C17), tables consistent (C18), closing final (C19), no stuck
    step (C20), no init taken twice (C36), budgets isolated per peer (C37).
  \<^item> The member: rosters only go forward under the pinned key (C12), something always leads back to the relay, in bounded
    time where the member decides it (C13), terminal states are final (C14), every waiting send has one outcome (C15).
  \<^item> Both sides agree on rosters, JSON and signatures (C23, C34, C35); signed bytes are unambiguous (C27); codecs read back (C29).
  \<^item> Where the code does not do what it means to: keys with line breaks (C30), clock readings out of order in the hour window (C31), a
    trimming loop that does not return (C32), records forgotten before full rosters (C33), a reassembly
    buffer of more than twice its payload (C17).

  \<^bold>\<open>Bounds and loops.\<close> There is no fuel: every loop of the models has a termination proof, except \<open>trim_loop\<close>, a partial
  function because it can fail to return (C22 says when it returns, C32 that it may not). Counters the code keeps as \<open>uint64\<close> or limbs are words;
  sizes, times and credit, which stay far from 63 bits, are integers. Bounds such as 64 MiB messages, eight sessions a peer, five
  attempts a code or 1024 remembered ids are the source's constants.

  \<^bold>\<open>Not modelled.\<close> Listeners, TLS, the WebSocket handshake and raw socket I/O of both programs; the relay's lock shards, read
  back-pressure, admin endpoint and configuration; decoding of the limits file; the client's transport, directory requests, traffic
  counters, blocking calls (\<open>Receive\<close>, \<open>SyncRoster\<close>, \<open>Usage\<close>), the newcomer's driver and the retries of roster pushes; the TypeScript and
  Rust clients. They are I/O, presentation or glue around the state modelled here. When a dial, a read or the application's
  resolver comes back, and that it does, is the world's: the models allow any time. The primary's log of rosters sent to the relay
  (\<open>publish\<close>) records each one it hands to the connection, which sends it only while connected.
\<close>

end
